(* ===== verification/Prelude.thy ===== *)
theory Prelude
  imports Main "HOL-Library.Word" "HOL-Library.Monad_Syntax"
begin

text \<open>
  The shared layer of the development: names for Rust's machine integers, the arithmetic on
  \<open>usize\<close> that the crates use (saturating and checked), and the two memory primitives every
  buffer of the editor is built from: reading a block of an array and writing a block into one.

  A \<open>usize\<close> is a \<^typ>\<open>nat\<close>; where the source saturates or checks, the bound \<open>usize_max\<close>
  is written out. A block access that leaves its array is \<^const>\<open>None\<close>: for a slice expression that
  is Rust's panic, for \<open>memcpy\<close> and \<open>memmove\<close> on raw pointers it is undefined behaviour, and
  the theorems of the components show that neither happens.
\<close>

type_synonym u8 = "8 word"
type_synonym u16 = "16 word"
type_synonym u32 = "32 word"
type_synonym u64 = "64 word"
type_synonym usize = nat

named_theorems mem_simps \<open>block reads and writes that stay inside their array\<close>

named_theorems eval_simps \<open>list operations at numeral positions, for evaluating concrete runs\<close>

lemma replicate_numeral [eval_simps]: "replicate (numeral k) x = x # replicate (pred_numeral k) x"
  by (simp add: numeral_eq_Suc)

lemma list_update_numeral [eval_simps]: "(x # xs)[numeral k := y] = x # xs[pred_numeral k := y]"
  by (simp add: numeral_eq_Suc)

section \<open>Arithmetic on usize\<close>

definition usize_max :: usize where
  "usize_max = 2 ^ 64 - 1"

text \<open>No object of a Rust program is larger than \<open>isize::MAX\<close> bytes.\<close>

definition isize_max :: usize where
  "isize_max = 2 ^ 63 - 1"

lemma isize_max_less [simp]: "isize_max < usize_max"
  by (simp add: isize_max_def usize_max_def)

definition saturating_add :: "usize \<Rightarrow> usize \<Rightarrow> usize" where
  "saturating_add a b = min (a + b) usize_max"

definition checked_add :: "usize \<Rightarrow> usize \<Rightarrow> usize option" where
  "checked_add a b = (if a + b \<le> usize_max then Some (a + b) else None)"

lemma saturating_add_exact [simp]: "a + b \<le> usize_max \<Longrightarrow> saturating_add a b = a + b"
  by (simp add: saturating_add_def)

lemma saturating_add_le_iff: "c < usize_max \<Longrightarrow> saturating_add a b \<le> c \<longleftrightarrow> a + b \<le> c"
  by (auto simp: saturating_add_def)

text \<open>The saturating sum of a list of counters, as the crates accumulate it in loops.\<close>

definition saturating_sum :: "usize list \<Rightarrow> usize" where
  "saturating_sum xs = foldl saturating_add 0 xs"

lemma foldl_saturating_add:
  "acc + sum_list xs \<le> usize_max \<Longrightarrow> foldl saturating_add acc xs = acc + sum_list xs"
  by (induction xs arbitrary: acc) auto

lemma saturating_sum_exact [simp]:
  "sum_list xs \<le> usize_max \<Longrightarrow> saturating_sum xs = sum_list xs"
  by (simp add: saturating_sum_def foldl_saturating_add)

section \<open>Block reads and writes\<close>

definition mem_read :: "'a list \<Rightarrow> nat \<Rightarrow> nat \<Rightarrow> 'a list option" where
  "mem_read xs at n = (if at + n \<le> length xs then Some (take n (drop at xs)) else None)"

definition mem_write :: "'a list \<Rightarrow> nat \<Rightarrow> 'a list \<Rightarrow> 'a list option" where
  "mem_write xs at ys =
     (if at + length ys \<le> length xs then Some (take at xs @ ys @ drop (at + length ys) xs) else None)"

text \<open>\<open>memmove\<close> inside one array: the source block is read before anything is written.\<close>

definition mem_move :: "'a list \<Rightarrow> nat \<Rightarrow> nat \<Rightarrow> nat \<Rightarrow> 'a list option" where
  "mem_move xs dst src n = do { block \<leftarrow> mem_read xs src n; mem_write xs dst block }"

lemma mem_read_Some [mem_simps]:
  "at + n \<le> length xs \<Longrightarrow> mem_read xs at n = Some (take n (drop at xs))"
  by (simp add: mem_read_def)

lemma mem_read_0 [mem_simps]: "at \<le> length xs \<Longrightarrow> mem_read xs at 0 = Some []"
  by (simp add: mem_read_def)

lemma mem_write_Some [mem_simps]:
  "at + length ys \<le> length xs \<Longrightarrow>
   mem_write xs at ys = Some (take at xs @ ys @ drop (at + length ys) xs)"
  by (simp add: mem_write_def)

lemma mem_move_Some [mem_simps]:
  "src + n \<le> length xs \<Longrightarrow> dst + n \<le> length xs \<Longrightarrow>
   mem_move xs dst src n = Some (take dst xs @ take n (drop src xs) @ drop (dst + n) xs)"
  by (simp add: mem_move_def mem_simps)

lemma mem_write_length: "mem_write xs at ys = Some zs \<Longrightarrow> length zs = length xs"
  by (auto simp: mem_write_def split: if_splits)

text \<open>Writing a block and reading it back, and the frame: other cells keep their value.\<close>

lemma mem_read_write_same: "mem_write xs at ys = Some zs \<Longrightarrow> mem_read zs at (length ys) = Some ys"
  by (auto simp: mem_write_def mem_read_def split: if_splits)

lemma nth_mem_write:
  "mem_write xs at ys = Some zs \<Longrightarrow> i < length xs \<Longrightarrow>
   zs ! i = (if at \<le> i \<and> i < at + length ys then ys ! (i - at) else xs ! i)"
  by (auto simp: mem_write_def nth_append min_def split: if_splits)

lemma take_drop_frame:
  assumes "q + n \<le> k \<or> k + length ys \<le> q" "k + length ys \<le> length xs"
  shows "take n (drop q (take k xs @ ys @ drop (k + length ys) xs)) = take n (drop q xs)"
proof (cases "q + n \<le> k")
  case True
  with assms(2) have "take n (drop q (take k xs @ ys @ drop (k + length ys) xs)) = take n (drop q (take k xs))"
    by simp
  also have "\<dots> = take n (drop q xs)" using True by (simp add: drop_take)
  finally show ?thesis .
next
  case False
  with assms have "k + length ys \<le> q" by simp
  then obtain m where "q = k + length ys + m" by (metis le_iff_add)
  with assms(2) show ?thesis by (simp add: ac_simps)
qed

text \<open>The insertion of a block into a sequence, and the removal of a range of one.\<close>

definition insert_at :: "nat \<Rightarrow> 'a list \<Rightarrow> 'a list \<Rightarrow> 'a list" where
  "insert_at i ys xs = take i xs @ ys @ drop i xs"

definition remove_range :: "nat \<Rightarrow> nat \<Rightarrow> 'a list \<Rightarrow> 'a list" where
  "remove_range a b xs = take a xs @ drop b xs"

lemma length_insert_at [simp]: "length (insert_at i ys xs) = length xs + length ys"
  by (simp add: insert_at_def)

lemma length_remove_range [simp]:
  "a \<le> b \<Longrightarrow> b \<le> length xs \<Longrightarrow> length (remove_range a b xs) = length xs - (b - a)"
  by (simp add: remove_range_def)

lemma insert_at_Nil [simp]: "insert_at i [] xs = xs"
  by (simp add: insert_at_def)

lemma remove_range_insert_at [simp]:
  "i \<le> length xs \<Longrightarrow> remove_range i (i + length ys) (insert_at i ys xs) = xs"
  by (simp add: remove_range_def insert_at_def)

lemma insert_at_insert_at:
  "p \<le> length zs \<Longrightarrow>
   insert_at (p + length xs) vs (insert_at p (xs @ ys) zs) = insert_at p (xs @ vs @ ys) zs"
  by (simp add: insert_at_def)

lemma insert_at_append_split:
  "p \<le> length zs \<Longrightarrow> insert_at (p + length xs) ys (insert_at p xs zs) = insert_at p (xs @ ys) zs"
  by (simp add: insert_at_def)

lemma insert_at_prefix: "length pre = p \<Longrightarrow> insert_at p ys (pre @ post) = pre @ ys @ post"
  by (auto simp: insert_at_def)

section \<open>Loops that may panic\<close>

primrec fold_opt :: "('a \<Rightarrow> 's \<Rightarrow> 's option) \<Rightarrow> 'a list \<Rightarrow> 's \<Rightarrow> 's option" where
  "fold_opt f [] s = Some s"
| "fold_opt f (x # xs) s = do { s' \<leftarrow> f x s; fold_opt f xs s' }"

lemma fold_opt_inv:
  assumes "\<And>x s. x \<in> set xs \<Longrightarrow> I s \<Longrightarrow> \<exists>s'. f x s = Some s' \<and> I s'" "I s"
  shows "\<exists>s'. fold_opt f xs s = Some s' \<and> I s'"
  using assms
proof (induction xs arbitrary: s)
  case (Cons x xs)
  from Cons.prems(1) [of x s] Cons.prems(2) obtain s1 where "f x s = Some s1" "I s1" by auto
  with Cons.IH [of s1] Cons.prems(1) show ?case by auto
qed simp

end
