(* ===== verification/Wredit_Error.thy ===== *)
theory Wredit_Error
  imports Prelude
begin

text \<open>
  The error type every fallible operation of the editor core returns
  (\<open>crates/wredit/src/error.rs\<close>), with the source's variants and payloads. Static strings are
  \<^typ>\<open>string\<close>.

  An operation that can fail and that mutates its receiver returns
  \<open>((wredit_error + 'a) \<times> 's) option\<close>: \<^const>\<open>None\<close> is a fault (a panic,
  or an access outside a buffer), \<^term>\<open>Inl e\<close> the \<open>Err\<close> and
  \<^term>\<open>Inr x\<close> the \<open>Ok\<close> of the source, each with the state the receiver is left in.
\<close>

datatype wredit_error =
    InvalidPosition nat nat
  | OutOfRange nat nat
  | InvalidCursor nat
  | CapacityExhausted nat nat
  | InvalidAddress nat
  | BlockNotFound nat
  | Encoding
  | LimitExceeded string
  | InvalidOperation string
  | InvalidGapSize nat
  | StagingFull nat nat
  | BlockOutOfRange nat nat
  | DiskFull nat
  | CorruptImage string
  | NotFound string
  | AlreadyExists string
  | NameTooLong nat
  | DeviceIo string
  | NotADirectory string
  | IsADirectory string
  | DirectoryNotEmpty string
  | InvalidPath string

type_synonym 'a wredit_result = "wredit_error + 'a"
type_synonym ('s, 'a) wredit_op = "((wredit_error + 'a) \<times> 's) option"

end
