(* ===== verification/Staging_Gap.thy ===== *)
theory Staging_Gap
  imports Wredit_Error
begin

text \<open>
  The staging gap (\<open>crates/wredit/src/staging_gap.rs\<close>): a gap buffer whose free window feeds a
  staging area that is suballocated among cursors. The two const generics of the source are the
  lengths of its arrays: \<open>COMMIT_CAP\<close> is \<open>length (buf s)\<close> and \<open>GAP_SIZE\<close> is
  \<open>length (staging s)\<close>; \<open>T::default()\<close> is the argument \<open>d\<close> of the constructors.

  A slice expression that leaves its array and a subtraction below zero are \<^const>\<open>None\<close>; the
  \<open>debug_assert!\<close>s of the source check and change nothing, as in a release build.
\<close>

section \<open>State\<close>

record staging_region =
  cursor_id :: usize
  reg_start :: usize
  reg_size :: usize
  reg_staged :: usize

record 'a staging_gap =
  buf :: "'a list"
  committed_len :: usize
  gap_pos :: usize
  gap_len :: usize
  staging :: "'a list"
  regions :: "staging_region list"
  region_count :: usize

definition region_new :: "usize \<Rightarrow> usize \<Rightarrow> usize \<Rightarrow> staging_region" where
  "region_new c at n = \<lparr>cursor_id = c, reg_start = at, reg_size = n, reg_staged = 0\<rparr>"

definition region_remaining :: "staging_region \<Rightarrow> usize option" where
  "region_remaining r = (if reg_staged r \<le> reg_size r then Some (reg_size r - reg_staged r) else None)"

definition region_is_full :: "staging_region \<Rightarrow> bool" where
  "region_is_full r \<longleftrightarrow> reg_staged r \<ge> reg_size r"

definition staging_new :: "'a \<Rightarrow> usize \<Rightarrow> usize \<Rightarrow> 'a staging_gap" where
  "staging_new d commit_cap gap_size =
     \<lparr>buf = replicate commit_cap d, committed_len = 0, gap_pos = 0, gap_len = gap_size,
      staging = replicate gap_size d, regions = replicate gap_size (region_new 0 0 0),
      region_count = 0\<rparr>"

definition try_from_slice ::
    "'a \<Rightarrow> usize \<Rightarrow> usize \<Rightarrow> 'a list \<Rightarrow> wredit_error + 'a staging_gap" where
  "try_from_slice d commit_cap gap_size elements =
     (let len = length elements in
      if saturating_add len gap_size > commit_cap
      then Inl (InvalidOperation ''elements plus staging capacity exceed commit capacity'')
      else Inr \<lparr>buf = elements @ replicate (commit_cap - len) d, committed_len = len,
                gap_pos = len, gap_len = gap_size, staging = replicate gap_size d,
                regions = replicate gap_size (region_new 0 0 0), region_count = 0\<rparr>)"

text \<open>The regions in use: the first \<open>region_count\<close> slots of the array.\<close>

abbreviation live :: "'a staging_gap \<Rightarrow> staging_region list" where
  "live s \<equiv> take (region_count s) (regions s)"

section \<open>Queries\<close>

definition staging_used :: "'a staging_gap \<Rightarrow> usize" where
  "staging_used s = saturating_sum (map reg_staged (live s))"

definition staging_len :: "'a staging_gap \<Rightarrow> usize" where
  "staging_len s = committed_len s + staging_used s"

definition committed_get :: "'a staging_gap \<Rightarrow> usize \<Rightarrow> 'a option" where
  "committed_get s index =
     (if index \<ge> committed_len s then None
      else let physical = (if index < gap_pos s then index else index + gap_len s)
           in if physical < length (buf s) then Some (buf s ! physical) else None)"

fun staged_at_loop :: "'a list \<Rightarrow> staging_region list \<Rightarrow> usize \<Rightarrow> 'a option" where
  "staged_at_loop stg [] rest = None"
| "staged_at_loop stg (r # rs) rest =
     (if rest < reg_staged r
      then if reg_start r + rest < length stg then Some (stg ! (reg_start r + rest)) else None
      else staged_at_loop stg rs (rest - reg_staged r))"

definition staged_at :: "'a staging_gap \<Rightarrow> usize \<Rightarrow> 'a option" where
  "staged_at s offset = staged_at_loop (staging s) (live s) offset"

definition staging_get :: "'a staging_gap \<Rightarrow> usize \<Rightarrow> 'a option" where
  "staging_get s index =
     (if index < gap_pos s then committed_get s index
      else let staged = staging_used s in
        if index < gap_pos s + staged then staged_at s (index - gap_pos s)
        else committed_get s (index - staged))"

text \<open>The chunks \<open>for_each_logical\<close> hands to its callback, in order.\<close>

fun region_chunks :: "'a list \<Rightarrow> staging_region list \<Rightarrow> 'a list list option" where
  "region_chunks stg [] = Some []"
| "region_chunks stg (r # rs) =
     (if reg_staged r > 0
      then do { chunk \<leftarrow> mem_read stg (reg_start r) (reg_staged r);
                chunks \<leftarrow> region_chunks stg rs; Some (chunk # chunks) }
      else region_chunks stg rs)"

definition for_each_logical :: "'a staging_gap \<Rightarrow> 'a list list option" where
  "for_each_logical s = do {
     pre \<leftarrow> mem_read (buf s) 0 (min (gap_pos s) (committed_len s));
     chunks \<leftarrow> region_chunks (staging s) (live s);
     let suffix_start = gap_pos s + gap_len s;
     let suffix_len = committed_len s - gap_pos s;
     if suffix_len > 0
     then do { post \<leftarrow> mem_read (buf s) suffix_start suffix_len; Some (pre # chunks @ [post]) }
     else Some (pre # chunks) }"

fun index_of_cursor :: "staging_region list \<Rightarrow> usize \<Rightarrow> usize option" where
  "index_of_cursor [] c = None"
| "index_of_cursor (r # rs) c =
     (if cursor_id r = c then Some 0 else map_option Suc (index_of_cursor rs c))"

definition region_index :: "'a staging_gap \<Rightarrow> usize \<Rightarrow> usize option" where
  "region_index s c = index_of_cursor (live s) c"

definition staged_before :: "'a staging_gap \<Rightarrow> usize \<Rightarrow> usize" where
  "staged_before s index = saturating_sum (map reg_staged (take index (regions s)))"

section \<open>Regions\<close>

text \<open>
  The staged runs of a list of regions, copied one after another into a scratch array of
  \<open>GAP_SIZE\<close> elements, as \<open>rebalance\<close> and \<open>commit_up_to\<close> do.
\<close>

fun gather_staged :: "'a list \<Rightarrow> staging_region list \<Rightarrow> 'a list \<Rightarrow> 'a list option" where
  "gather_staged stg [] acc = Some acc"
| "gather_staged stg (r # rs) acc =
     (if length acc + reg_staged r \<le> length stg
      then do { block \<leftarrow> mem_read stg (reg_start r) (reg_staged r);
                gather_staged stg rs (acc @ block) }
      else None)"

fun rebalance_loop ::
    "usize \<Rightarrow> usize \<Rightarrow> 'a list \<Rightarrow> staging_region list \<Rightarrow> 'a list \<Rightarrow> ('a list \<times> staging_region list) option"
  where
  "rebalance_loop share at staged [] stg = Some (stg, [])"
| "rebalance_loop share at staged (r # rs) stg = do {
     let sz = max share (reg_staged r);
     stg' \<leftarrow> (if reg_staged r = 0 then Some stg else mem_write stg at (take (reg_staged r) staged));
     (stg'', rs') \<leftarrow> rebalance_loop share (at + sz) (drop (reg_staged r) staged) rs stg';
     Some (stg'', r\<lparr>reg_start := at, reg_size := sz\<rparr> # rs') }"

definition rebalance :: "'a staging_gap \<Rightarrow> 'a staging_gap option" where
  "rebalance s =
     (if region_count s = 0 then Some s
      else do {
        let share = length (staging s) div region_count s;
        staged \<leftarrow> gather_staged (staging s) (live s) [];
        (stg', rs') \<leftarrow> rebalance_loop share 0 staged (live s) (staging s);
        Some (s\<lparr>staging := stg', regions := rs' @ drop (region_count s) (regions s)\<rparr>) })"

definition add_region :: "usize \<Rightarrow> 'a staging_gap \<Rightarrow> ('a staging_gap, unit) wredit_op" where
  "add_region c s =
     (if region_count s \<ge> length (staging s)
      then Some (Inl (StagingFull (staging_used s) (length (staging s))), s)
      else if (\<exists>r \<in> set (live s). cursor_id r = c)
      then Some (Inl (InvalidOperation ''cursor already owns a staging region''), s)
      else do {
        s' \<leftarrow> rebalance (s\<lparr>regions := (regions s)[region_count s := region_new c 0 0],
                           region_count := region_count s + 1\<rparr>);
        Some (Inr (), s') })"

definition remove_region :: "usize \<Rightarrow> 'a staging_gap \<Rightarrow> (bool \<times> 'a staging_gap) option" where
  "remove_region c s =
     (case region_index s c of
        None \<Rightarrow> Some (False, s)
      | Some index \<Rightarrow> do {
          let last = region_count s - 1;
          let rs = (regions s)[index := regions s ! last];
          s' \<leftarrow> rebalance (s\<lparr>regions := rs[last := region_new 0 0 0], region_count := last\<rparr>);
          Some (True, s') })"

section \<open>Staging\<close>

definition stage :: "usize \<Rightarrow> 'a \<Rightarrow> 'a staging_gap \<Rightarrow> ('a staging_gap, usize) wredit_op" where
  "stage c v s =
     (case region_index s c of
        None \<Rightarrow> Some (Inl (InvalidCursor c), s)
      | Some index \<Rightarrow>
          let r = regions s ! index in
          if region_is_full r then Some (Inl (StagingFull (reg_staged r) (reg_size r)), s)
          else let used = staging_used s in
            if used \<ge> gap_len s then Some (Inl (StagingFull used (gap_len s)), s)
            else let slot = reg_start r + reg_staged r in
              if slot < length (staging s)
              then let s' = s\<lparr>staging := (staging s)[slot := v],
                              regions := (regions s)[index := r\<lparr>reg_staged := reg_staged r + 1\<rparr>]\<rparr>
                   in Some (Inr (gap_pos s' + staged_before s' index + reg_staged r), s')
              else None)"

definition stage_slice ::
    "usize \<Rightarrow> 'a list \<Rightarrow> 'a staging_gap \<Rightarrow> ('a staging_gap, usize) wredit_op" where
  "stage_slice c vs s =
     (if vs = [] then Some (Inr 0, s)
      else case region_index s c of
        None \<Rightarrow> Some (Inl (InvalidCursor c), s)
      | Some index \<Rightarrow>
          let r = regions s ! index in do {
          remaining \<leftarrow> region_remaining r;
          if length vs > remaining
          then Some (Inl (StagingFull (reg_staged r) (reg_size r)), s)
          else let used = staging_used s in
            if saturating_add used (length vs) > gap_len s
            then Some (Inl (StagingFull used (gap_len s)), s)
            else do {
              stg \<leftarrow> mem_write (staging s) (reg_start r + reg_staged r) vs;
              Some (Inr (length vs),
                s\<lparr>staging := stg,
                  regions := (regions s)[index := r\<lparr>reg_staged := reg_staged r + length vs\<rparr>]\<rparr>) } })"

section \<open>Commits\<close>

definition commit_up_to :: "usize \<Rightarrow> 'a staging_gap \<Rightarrow> (usize \<times> 'a staging_gap) option" where
  "commit_up_to last_region s = do {
     values \<leftarrow> gather_staged (staging s) (take (last_region + 1) (regions s)) [];
     let total = length values;
     if total = 0 then Some (0, s)
     else if total > gap_len s then None
     else do {
       let old_span = committed_len s + gap_len s;
       let tail = gap_pos s + gap_len s;
       b1 \<leftarrow> mem_write (buf s) (gap_pos s) values;
       b2 \<leftarrow> mem_move b1 (gap_pos s + total) tail (old_span - tail);
       let len' = saturating_add (committed_len s) total;
       let pos' = gap_pos s + total;
       let gap' = gap_len s - total;
       let (pos'', gap'') =
         (if gap' = 0 \<and> len' < length (buf s) then (len', length (buf s) - len') else (pos', gap'));
       Some (total,
         s\<lparr>buf := b2, committed_len := len', gap_pos := pos'', gap_len := gap'',
           regions := map (\<lambda>r. r\<lparr>reg_staged := 0\<rparr>) (take (last_region + 1) (regions s))
                      @ drop (last_region + 1) (regions s)\<rparr>) } }"

definition flush_region :: "usize \<Rightarrow> 'a staging_gap \<Rightarrow> ('a staging_gap, usize) wredit_op" where
  "flush_region c s =
     (case region_index s c of
        None \<Rightarrow> Some (Inl (InvalidCursor c), s)
      | Some index \<Rightarrow> do { (n, s') \<leftarrow> commit_up_to index s; Some (Inr n, s') })"

definition flush_all :: "'a staging_gap \<Rightarrow> (usize \<times> 'a staging_gap) option" where
  "flush_all s = (if region_count s = 0 then Some (0, s) else commit_up_to (region_count s - 1) s)"

definition move_gap_to_impl :: "usize \<Rightarrow> 'a staging_gap \<Rightarrow> 'a staging_gap option" where
  "move_gap_to_impl index s =
     (if index = gap_pos s then Some s
      else if index > gap_pos s then do {
        let count = index - gap_pos s;
        b \<leftarrow> mem_move (buf s) (gap_pos s) (gap_pos s + gap_len s) count;
        Some (s\<lparr>buf := b, gap_pos := index\<rparr>) }
      else do {
        let count = gap_pos s - index;
        b \<leftarrow> mem_move (buf s) (index + gap_len s) index count;
        Some (s\<lparr>buf := b, gap_pos := index\<rparr>) })"

definition move_gap_to :: "usize \<Rightarrow> 'a staging_gap \<Rightarrow> ('a staging_gap, unit) wredit_op" where
  "move_gap_to index s = do {
     (_, s1) \<leftarrow> flush_all s;
     if index > committed_len s1 then Some (Inl (InvalidPosition index (committed_len s1)), s1)
     else do { s2 \<leftarrow> move_gap_to_impl index s1; Some (Inr (), s2) } }"

definition delete_range :: "usize \<Rightarrow> usize \<Rightarrow> 'a staging_gap \<Rightarrow> ('a staging_gap, usize) wredit_op" where
  "delete_range a b s =
     (if a > b then Some (Inl (OutOfRange a b), s)
      else do {
        (res, s1) \<leftarrow> move_gap_to a s;
        case res of
          Inl e \<Rightarrow> Some (Inl e, s1)
        | Inr _ \<Rightarrow>
            if b > committed_len s1 then Some (Inl (OutOfRange a b), s1)
            else let count = b - a in
              if count = 0 then Some (Inr 0, s1)
              else Some (Inr count, s1\<lparr>committed_len := committed_len s1 - count,
                                       gap_len := gap_len s1 + count\<rparr>) })"

section \<open>The document a gap stands for, and the layout invariant\<close>

text \<open>
  \<open>committed s\<close> is the sequence without the gap, \<open>staged_runs s\<close> what the cursors have staged, in
  slot order, and \<open>logical s\<close> the document a reader sees: the staged runs spliced in at the gap.
\<close>

definition committed :: "'a staging_gap \<Rightarrow> 'a list" where
  "committed s = take (gap_pos s) (buf s)
                 @ take (committed_len s - gap_pos s) (drop (gap_pos s + gap_len s) (buf s))"

definition staged_run :: "'a list \<Rightarrow> staging_region \<Rightarrow> 'a list" where
  "staged_run stg r = take (reg_staged r) (drop (reg_start r) stg)"

abbreviation runs_of :: "'a list \<Rightarrow> staging_region list \<Rightarrow> 'a list" where
  "runs_of stg rs \<equiv> concat (map (staged_run stg) rs)"

definition staged_runs :: "'a staging_gap \<Rightarrow> 'a list" where
  "staged_runs s = runs_of (staging s) (live s)"

definition logical :: "'a staging_gap \<Rightarrow> 'a list" where
  "logical s = insert_at (gap_pos s) (staged_runs s) (committed s)"

definition region_ok :: "usize \<Rightarrow> staging_region \<Rightarrow> bool" where
  "region_ok gap_size r \<longleftrightarrow> reg_staged r \<le> reg_size r \<and> reg_start r + reg_size r \<le> gap_size"

definition layout_ok :: "usize \<Rightarrow> staging_region list \<Rightarrow> bool" where
  "layout_ok gap_size rs \<longleftrightarrow>
     list_all (region_ok gap_size) rs \<and>
     sorted_wrt (\<lambda>r r'. reg_start r + reg_size r \<le> reg_start r') rs"

text \<open>
  The source's layout invariants: (1) the committed elements and the gap fit the buffer, (2) and
  (3) the regions are ordered, disjoint and inside the staging area, (4) what is staged fits the
  gap. Beside them: the gap lies inside the committed sequence, cursors own one region each, and
  the arrays are addressable.
\<close>

definition staging_inv :: "'a staging_gap \<Rightarrow> bool" where
  "staging_inv s \<longleftrightarrow>
     length (regions s) = length (staging s) \<and> region_count s \<le> length (staging s) \<and>
     gap_pos s \<le> committed_len s \<and> committed_len s + gap_len s \<le> length (buf s) \<and>
     length (buf s) \<le> isize_max \<and>
     layout_ok (length (staging s)) (live s) \<and>
     sum_list (map reg_staged (live s)) \<le> gap_len s \<and>
     distinct (map cursor_id (live s))"

section \<open>Region lists\<close>

lemma length_staged_run [simp]:
  "region_ok (length stg) r \<Longrightarrow> length (staged_run stg r) = reg_staged r"
  by (auto simp: staged_run_def region_ok_def)

lemma layout_ok_Cons:
  "layout_ok g (r # rs) \<longleftrightarrow>
     region_ok g r \<and> (\<forall>r' \<in> set rs. reg_start r + reg_size r \<le> reg_start r') \<and> layout_ok g rs"
  by (auto simp: layout_ok_def)

lemma layout_ok_take: "layout_ok g rs \<Longrightarrow> layout_ok g (take n rs)"
  by (auto simp: layout_ok_def list_all_iff sorted_wrt_take dest: in_set_takeD)

lemma layout_ok_region: "layout_ok g rs \<Longrightarrow> r \<in> set rs \<Longrightarrow> region_ok g r"
  by (auto simp: layout_ok_def list_all_iff)

lemma length_runs_of [simp]:
  "layout_ok (length stg) rs \<Longrightarrow> length (runs_of stg rs) = sum_list (map reg_staged rs)"
  by (induction rs) (auto simp: layout_ok_Cons)

text \<open>Disjoint regions inside the staging area never reserve more than it holds.\<close>

lemma layout_sizes_bounded:
  "layout_ok g rs \<Longrightarrow> \<forall>r \<in> set rs. lo \<le> reg_start r \<Longrightarrow> lo \<le> g \<Longrightarrow>
   lo + sum_list (map reg_size rs) \<le> g"
proof (induction rs arbitrary: lo)
  case (Cons r rs)
  then have "region_ok g r" "layout_ok g rs"
    "\<forall>r' \<in> set rs. reg_start r + reg_size r \<le> reg_start r'" and lo: "lo \<le> reg_start r"
    by (auto simp: layout_ok_Cons)
  then have "reg_start r + reg_size r + sum_list (map reg_size rs) \<le> g"
    using Cons.IH by (simp add: region_ok_def)
  with lo show ?case by simp
qed simp

lemma layout_staged_bounded: "layout_ok g rs \<Longrightarrow> sum_list (map reg_staged rs) \<le> g"
proof -
  assume ok: "layout_ok g rs"
  then have "sum_list (map reg_staged rs) \<le> sum_list (map reg_size rs)"
    by (intro sum_list_mono) (auto dest: layout_ok_region simp: region_ok_def)
  with layout_sizes_bounded [OF ok, of 0] show ?thesis by simp
qed

lemma gather_staged_eq:
  "list_all (region_ok (length stg)) rs \<Longrightarrow>
   length acc + sum_list (map reg_staged rs) \<le> length stg \<Longrightarrow>
   gather_staged stg rs acc = Some (acc @ runs_of stg rs)"
proof (induction rs arbitrary: acc)
  case (Cons r rs)
  then have ok: "region_ok (length stg) r" by simp
  then have "mem_read stg (reg_start r) (reg_staged r) = Some (staged_run stg r)"
    by (simp add: mem_read_def staged_run_def region_ok_def)
  with Cons ok show ?case by simp
qed simp

lemma gather_staged_layout:
  "layout_ok (length stg) rs \<Longrightarrow> gather_staged stg rs [] = Some (runs_of stg rs)"
  using layout_staged_bounded [of "length stg" rs] gather_staged_eq [of stg rs "[]"]
  by (simp add: layout_ok_def)

lemma index_of_cursor_Some:
  "index_of_cursor rs c = Some i \<Longrightarrow> i < length rs \<and> cursor_id (rs ! i) = c"
  by (induction rs arbitrary: i) (auto split: if_splits)

lemma index_of_cursor_None: "index_of_cursor rs c = None \<longleftrightarrow> c \<notin> cursor_id ` set rs"
  by (induction rs) auto

lemma staged_at_loop_eq:
  "layout_ok (length stg) rs \<Longrightarrow>
   staged_at_loop stg rs i =
     (if i < sum_list (map reg_staged rs) then Some (runs_of stg rs ! i) else None)"
proof (induction rs arbitrary: i)
  case (Cons r rs)
  then have ok: "region_ok (length stg) r" and rest: "layout_ok (length stg) rs"
    by (auto simp: layout_ok_Cons)
  have len: "length (staged_run stg r) = reg_staged r" using ok by simp
  show ?case
  proof (cases "i < reg_staged r")
    case True
    then have "staged_run stg r ! i = stg ! (reg_start r + i)" and "reg_start r + i < length stg"
      using ok by (auto simp: staged_run_def region_ok_def)
    with True len show ?thesis by (simp add: nth_append)
  next
    case False
    with Cons.IH [OF rest] len show ?thesis by (auto simp: nth_append)
  qed
qed simp

section \<open>Reading the document\<close>

lemma staging_invD:
  assumes "staging_inv s"
  shows "length (regions s) = length (staging s)" "region_count s \<le> length (staging s)"
    "gap_pos s \<le> committed_len s" "committed_len s + gap_len s \<le> length (buf s)"
    "length (buf s) \<le> isize_max" "layout_ok (length (staging s)) (live s)"
    "sum_list (map reg_staged (live s)) \<le> gap_len s" "distinct (map cursor_id (live s))"
    "length (live s) = region_count s"
  using assms by (auto simp: staging_inv_def)

text \<open>The buffer of a well-formed gap: prefix, gap, suffix and unused cells.\<close>

lemma staging_buf_cases:
  assumes "staging_inv s"
  obtains pre gap post rest where "buf s = pre @ gap @ post @ rest"
    "length pre = gap_pos s" "length gap = gap_len s" "gap_pos s + length post = committed_len s"
    "committed s = pre @ post"
proof -
  let ?p = "gap_pos s" and ?g = "gap_len s" and ?n = "committed_len s - gap_pos s"
  note inv = staging_invD [OF assms]
  have "buf s = take ?p (buf s) @ take ?g (drop ?p (buf s)) @
      take ?n (drop (?p + ?g) (buf s)) @ drop ?n (drop (?p + ?g) (buf s))"
    by (metis append_take_drop_id drop_drop add.commute)
  with inv show ?thesis
    by (intro that [of "take ?p (buf s)" "take ?g (drop ?p (buf s))"
          "take ?n (drop (?p + ?g) (buf s))" "drop ?n (drop (?p + ?g) (buf s))"])
       (auto simp: committed_def)
qed

lemma staging_used_eq:
  assumes "staging_inv s"
  shows "staging_used s = sum_list (map reg_staged (live s))"
proof -
  have "sum_list (map reg_staged (live s)) \<le> usize_max"
    using staging_invD(4,5,7) [OF assms] isize_max_less by linarith
  then show ?thesis by (simp add: staging_used_def)
qed

lemma length_staged_runs:
  "staging_inv s \<Longrightarrow> length (staged_runs s) = sum_list (map reg_staged (live s))"
  by (simp add: staged_runs_def staging_invD)

lemma length_committed: "staging_inv s \<Longrightarrow> length (committed s) = committed_len s"
  by (auto elim: staging_buf_cases)

lemma length_logical: "staging_inv s \<Longrightarrow> length (logical s) = staging_len s"
  by (simp add: logical_def length_committed length_staged_runs staging_len_def staging_used_eq)

lemma committed_get_eq:
  assumes "staging_inv s"
  shows "committed_get s i = (if i < committed_len s then Some (committed s ! i) else None)"
proof -
  from assms obtain pre gap post rest where b: "buf s = pre @ gap @ post @ rest"
    "length pre = gap_pos s" "length gap = gap_len s" "gap_pos s + length post = committed_len s"
    "committed s = pre @ post" by (rule staging_buf_cases)
  show ?thesis
  proof (cases "i < gap_pos s")
    case True
    with b show ?thesis by (auto simp: committed_get_def nth_append)
  next
    case False
    then have "i < committed_len s \<Longrightarrow> buf s ! (i + gap_len s) = post ! (i - gap_pos s)"
      using b by (auto simp: nth_append)
    with False b show ?thesis by (auto simp: committed_get_def nth_append)
  qed
qed

lemma staged_at_eq:
  assumes "staging_inv s"
  shows "staged_at s i = (if i < length (staged_runs s) then Some (staged_runs s ! i) else None)"
  using staged_at_loop_eq [OF staging_invD(6) [OF assms]]
  by (simp add: staged_at_def staged_runs_def length_staged_runs [OF assms, unfolded staged_runs_def])

lemma staging_get_eq:
  assumes "staging_inv s"
  shows "staging_get s i = (if i < length (logical s) then Some (logical s ! i) else None)"
proof -
  note inv = staging_invD [OF assms]
  have p: "gap_pos s \<le> length (committed s)" using inv by (simp add: length_committed assms)
  have u: "staging_used s = length (staged_runs s)"
    by (simp add: staging_used_eq length_staged_runs assms)
  consider "i < gap_pos s" | "gap_pos s \<le> i" "i < gap_pos s + staging_used s"
    | "gap_pos s + staging_used s \<le> i" by linarith
  then show ?thesis
  proof cases
    case 1
    with p inv(3) show ?thesis
      by (simp add: staging_get_def committed_get_eq assms logical_def insert_at_def nth_append)
  next
    case 2
    with p u show ?thesis
      by (simp add: staging_get_def staged_at_eq assms logical_def insert_at_def nth_append)
  next
    case 3
    with p u show ?thesis
      by (auto simp: staging_get_def committed_get_eq assms logical_def insert_at_def nth_append
          length_committed Let_def)
  qed
qed

lemma region_chunks_eq:
  "list_all (region_ok (length stg)) rs \<Longrightarrow>
   \<exists>chunks. region_chunks stg rs = Some chunks \<and> concat chunks = runs_of stg rs"
proof (induction rs)
  case (Cons r rs)
  then obtain chunks where "region_chunks stg rs = Some chunks" "concat chunks = runs_of stg rs"
    by auto
  moreover have "mem_read stg (reg_start r) (reg_staged r) = Some (staged_run stg r)"
    using Cons.prems by (simp add: mem_read_def staged_run_def region_ok_def)
  moreover have "reg_staged r = 0 \<Longrightarrow> staged_run stg r = []" by (simp add: staged_run_def)
  ultimately show ?case by auto
qed simp

lemma for_each_logical_eq:
  assumes "staging_inv s"
  shows "\<exists>chunks. for_each_logical s = Some chunks \<and> concat chunks = logical s"
proof -
  from assms obtain pre gap post rest where b: "buf s = pre @ gap @ post @ rest"
    "length pre = gap_pos s" "length gap = gap_len s" "gap_pos s + length post = committed_len s"
    "committed s = pre @ post" by (rule staging_buf_cases)
  obtain chunks where c: "region_chunks (staging s) (live s) = Some chunks"
    "concat chunks = staged_runs s"
    using region_chunks_eq staging_invD(6) [OF assms] unfolding layout_ok_def staged_runs_def by blast
  have "mem_read (buf s) 0 (min (gap_pos s) (committed_len s)) = Some pre"
    using b by (simp add: mem_read_def min_def)
  moreover have "mem_read (buf s) (gap_pos s + gap_len s) (committed_len s - gap_pos s) = Some post"
    using b by (simp add: mem_read_def)
  moreover have "gap_pos s < committed_len s \<longleftrightarrow> post \<noteq> []" using b(4) by (cases post) auto
  ultimately show ?thesis
    using b c by (cases "post = []") (auto simp: for_each_logical_def logical_def insert_at_def)
qed

section \<open>Staging\<close>

lemma mem_write_single: "i < length xs \<Longrightarrow> mem_write xs i [v] = Some (xs[i := v])"
  by (simp add: mem_write_def upd_conv_take_nth_drop)

lemma staged_run_frame:
  assumes "mem_write stg at vs = Some stg'" and "region_ok (length stg) r"
    and "at + length vs \<le> reg_start r \<or> reg_start r + reg_staged r \<le> at"
  shows "staged_run stg' r = staged_run stg r"
proof (rule nth_equalityI)
  note len = mem_write_length [OF assms(1)]
  show "length (staged_run stg' r) = length (staged_run stg r)"
    using assms(2) len by simp
  fix i assume "i < length (staged_run stg' r)"
  then have "i < reg_staged r" using assms(2) len by simp
  with assms(2,3) len nth_mem_write [OF assms(1), of "reg_start r + i"]
  show "staged_run stg' r ! i = staged_run stg r ! i"
    by (auto simp: staged_run_def region_ok_def)
qed

lemma staged_run_extend:
  assumes "mem_write stg (reg_start r + reg_staged r) vs = Some stg'"
    and "reg_start r + reg_staged r + length vs \<le> length stg"
  shows "staged_run stg' (r\<lparr>reg_staged := reg_staged r + length vs\<rparr>) = staged_run stg r @ vs"
  using assms by (auto simp: staged_run_def mem_write_def drop_take)

lemma runs_of_frame:
  assumes "mem_write stg at vs = Some stg'"
    and "\<And>r. r \<in> set rs \<Longrightarrow> region_ok (length stg) r \<and>
           (at + length vs \<le> reg_start r \<or> reg_start r + reg_staged r \<le> at)"
  shows "runs_of stg' rs = runs_of stg rs"
  using assms staged_run_frame [OF assms(1)] by (auto intro!: arg_cong [where f = concat])

text \<open>Appending a block to the run of region \<open>i\<close> leaves the runs of all others alone.\<close>

lemma runs_of_append:
  assumes ok: "layout_ok (length stg) rs" and i: "i < length rs"
    and fit: "reg_staged (rs ! i) + length vs \<le> reg_size (rs ! i)"
    and w: "mem_write stg (reg_start (rs ! i) + reg_staged (rs ! i)) vs = Some stg'"
  shows "runs_of stg' (rs[i := (rs ! i)\<lparr>reg_staged := reg_staged (rs ! i) + length vs\<rparr>])
       = runs_of stg (take (Suc i) rs) @ vs @ runs_of stg (drop (Suc i) rs)"
proof -
  let ?r = "rs ! i"
  let ?pre = "take i rs" and ?post = "drop (Suc i) rs"
  have split: "rs = ?pre @ ?r # ?post" using i by (rule id_take_nth_drop)
  have all: "\<And>r. r \<in> set rs \<Longrightarrow> region_ok (length stg) r" using ok by (rule layout_ok_region)
  have sw: "sorted_wrt (\<lambda>r r'. reg_start r + reg_size r \<le> reg_start r') (?pre @ ?r # ?post)"
    using ok split by (simp add: layout_ok_def)
  have r: "region_ok (length stg) ?r" using all i by simp
  have pre: "runs_of stg' ?pre = runs_of stg ?pre"
  proof (rule runs_of_frame [OF w])
    fix r assume "r \<in> set ?pre"
    with sw all show "region_ok (length stg) r \<and>
      (reg_start ?r + reg_staged ?r + length vs \<le> reg_start r \<or>
       reg_start r + reg_staged r \<le> reg_start ?r + reg_staged ?r)"
      by (force simp: sorted_wrt_append region_ok_def dest: in_set_takeD)
  qed
  have post: "runs_of stg' ?post = runs_of stg ?post"
  proof (rule runs_of_frame [OF w])
    fix r assume "r \<in> set ?post"
    with sw all fit show "region_ok (length stg) r \<and>
      (reg_start ?r + reg_staged ?r + length vs \<le> reg_start r \<or>
       reg_start r + reg_staged r \<le> reg_start ?r + reg_staged ?r)"
      by (force simp: sorted_wrt_append dest: in_set_dropD)
  qed
  have "staged_run stg' (?r\<lparr>reg_staged := reg_staged ?r + length vs\<rparr>) = staged_run stg ?r @ vs"
    using w r fit by (intro staged_run_extend) (auto simp: region_ok_def)
  with pre post i show ?thesis
    by (simp add: upd_conv_take_nth_drop take_Suc_conv_app_nth)
qed

lemma layout_ok_update:
  assumes "layout_ok g rs" "i < length rs" "reg_start r = reg_start (rs ! i)"
    "reg_size r = reg_size (rs ! i)" "reg_staged r \<le> reg_size r"
  shows "layout_ok g (rs[i := r])"
  using assms
  by (auto simp: layout_ok_def sorted_wrt_iff_nth_less nth_list_update list_all_length region_ok_def)

lemma live_update:
  "i < region_count s \<Longrightarrow> live (s\<lparr>staging := stg, regions := (regions s)[i := r]\<rparr>) = (live s)[i := r]"
  by (simp add: take_update_swap)

lemma region_indexD:
  assumes "staging_inv s" "region_index s c = Some i"
  shows "i < region_count s" "i < length (live s)" "regions s ! i = live s ! i"
    "cursor_id (regions s ! i) = c"
  using index_of_cursor_Some [OF assms(2) [unfolded region_index_def]] staging_invD [OF assms(1)]
  by auto

lemma staged_before_eq:
  assumes "staging_inv s" "i \<le> region_count s"
  shows "staged_before s i = sum_list (map reg_staged (take i (live s)))"
proof -
  have "sum_list (map reg_staged (take i (live s))) \<le> sum_list (map reg_staged (live s))"
    by (metis append_take_drop_id le_add1 map_append sum_list_append)
  with staging_invD [OF assms(1)] have "sum_list (map reg_staged (take i (live s))) \<le> usize_max"
    using isize_max_less by linarith
  with assms(2) show ?thesis by (simp add: staged_before_def min_absorb2)
qed

text \<open>
  Both staging operations write a block behind the run of the cursor's region. The document gains
  that block at the position the source returns.
\<close>

lemma region_extend:
  assumes inv: "staging_inv s" and idx: "region_index s c = Some i"
    and fit: "reg_staged (regions s ! i) + length vs \<le> reg_size (regions s ! i)"
    and room: "staging_used s + length vs \<le> gap_len s"
  obtains stg where
    "mem_write (staging s) (reg_start (regions s ! i) + reg_staged (regions s ! i)) vs = Some stg"
    "\<And>s'. s' = s\<lparr>staging := stg, regions := (regions s)[i := (regions s ! i)
        \<lparr>reg_staged := reg_staged (regions s ! i) + length vs\<rparr>]\<rparr> \<Longrightarrow>
       staging_inv s' \<and> committed s' = committed s \<and>
       logical s' = insert_at (gap_pos s + staged_before s' i + reg_staged (regions s ! i)) vs (logical s) \<and>
       gap_pos s + staged_before s' i + reg_staged (regions s ! i) + length vs \<le> length (logical s')"
proof -
  let ?r = "regions s ! i"
  let ?r' = "?r\<lparr>reg_staged := reg_staged ?r + length vs\<rparr>"
  note I = staging_invD [OF inv] and R = region_indexD [OF inv idx]
  have ok: "region_ok (length (staging s)) ?r"
    using I(6) R by (metis layout_ok_region nth_mem)
  then obtain stg where w: "mem_write (staging s) (reg_start ?r + reg_staged ?r) vs = Some stg"
    using fit by (auto simp: mem_write_def region_ok_def)
  note len = mem_write_length [OF w]
  show ?thesis
  proof (rule that [OF w])
    fix s' assume s': "s' = s\<lparr>staging := stg, regions := (regions s)[i := ?r']\<rparr>"
    have lv: "live s' = (live s)[i := ?r']" using R(1) s' by (simp add: take_update_swap)
    have lay: "layout_ok (length (staging s)) (live s')"
      unfolding lv by (rule layout_ok_update) (use I R fit in auto)
    have "sum_list (map reg_staged (live s')) = sum_list (map reg_staged (live s)) + length vs"
      unfolding lv using R by (simp add: map_update sum_list_update member_le_sum_list)
    moreover have ids: "map cursor_id (live s') = map cursor_id (live s)"
      unfolding lv using R by (simp add: map_update list_update_same_conv)
    ultimately have inv': "staging_inv s'"
      using I lay len room by (simp add: staging_inv_def s' staging_used_eq [OF inv])
    have com: "committed s' = committed s" by (simp add: committed_def s')
    let ?xs = "runs_of (staging s) (take (Suc i) (live s))"
    let ?ys = "runs_of (staging s) (drop (Suc i) (live s))"
    have old: "staged_runs s = ?xs @ ?ys"
      unfolding staged_runs_def by (metis append_take_drop_id concat_append map_append)
    have new: "staged_runs s' = ?xs @ vs @ ?ys"
      using runs_of_append [OF I(6) R(2), of vs stg] fit w R(3) lv
      by (simp add: staged_runs_def s')
    have "staged_before s' i = sum_list (map reg_staged (take i (live s)))"
      using staged_before_eq [OF inv', of i] R(1) lv by (simp add: s')
    moreover have "length ?xs = sum_list (map reg_staged (take (Suc i) (live s)))"
      by (rule length_runs_of [OF layout_ok_take [OF I(6)]])
    ultimately have before: "staged_before s' i + reg_staged ?r = length ?xs"
      using R(2,3) by (simp add: take_Suc_conv_app_nth del: take_take)
    have p: "gap_pos s \<le> length (committed s)" using I by (simp add: length_committed inv)
    have "logical s' = insert_at (gap_pos s + length ?xs) vs (logical s)"
      unfolding logical_def com old new using insert_at_insert_at [OF p, of ?xs vs ?ys] by (simp add: s')
    moreover have "gap_pos s + length ?xs \<le> length (logical s)"
      unfolding logical_def old using p by simp
    ultimately show "staging_inv s' \<and> committed s' = committed s \<and>
       logical s' = insert_at (gap_pos s + staged_before s' i + reg_staged ?r) vs (logical s) \<and>
       gap_pos s + staged_before s' i + reg_staged ?r + length vs \<le> length (logical s')"
      using inv' com before by (simp add: add.assoc)
  qed
qed

lemma stage_cases:
  assumes inv: "staging_inv s"
  obtains (no_region) "region_index s c = None" "stage c v s = Some (Inl (InvalidCursor c), s)"
  | (full) i where "region_index s c = Some i" "reg_size (regions s ! i) \<le> reg_staged (regions s ! i)"
      "stage c v s = Some (Inl (StagingFull (reg_staged (regions s ! i)) (reg_size (regions s ! i))), s)"
  | (no_gap) i where "region_index s c = Some i" "reg_staged (regions s ! i) < reg_size (regions s ! i)"
      "gap_len s \<le> staging_used s"
      "stage c v s = Some (Inl (StagingFull (staging_used s) (gap_len s)), s)"
  | (staged) i at s' where "region_index s c = Some i" "reg_staged (regions s ! i) < reg_size (regions s ! i)"
      "staging_used s < gap_len s" "stage c v s = Some (Inr at, s')" "staging_inv s'"
      "committed s' = committed s" "logical s' = insert_at at [v] (logical s)" "at < length (logical s')"
proof (cases "region_index s c")
  case None
  then show ?thesis using no_region by (simp add: stage_def)
next
  case (Some i)
  let ?r = "regions s ! i"
  consider "reg_size ?r \<le> reg_staged ?r" | "reg_staged ?r < reg_size ?r" "gap_len s \<le> staging_used s"
    | "reg_staged ?r < reg_size ?r" "staging_used s < gap_len s" by linarith
  then show ?thesis
  proof cases
    case 1
    with Some show ?thesis using full by (simp add: stage_def region_is_full_def Let_def)
  next
    case 2
    with Some show ?thesis using no_gap by (simp add: stage_def region_is_full_def Let_def)
  next
    case 3
    obtain stg where w: "mem_write (staging s) (reg_start ?r + reg_staged ?r) [v] = Some stg"
      and ext: "\<And>s'. s' = s\<lparr>staging := stg, regions := (regions s)[i := ?r\<lparr>reg_staged := reg_staged ?r + 1\<rparr>]\<rparr> \<Longrightarrow>
        staging_inv s' \<and> committed s' = committed s \<and>
        logical s' = insert_at (gap_pos s + staged_before s' i + reg_staged ?r) [v] (logical s) \<and>
        gap_pos s + staged_before s' i + reg_staged ?r + 1 \<le> length (logical s')"
      using region_extend [OF inv Some, of "[v]"] 3 by auto
    have slot: "reg_start ?r + reg_staged ?r < length (staging s)"
      using w by (auto simp: mem_write_def split: if_splits)
    then have stg: "stg = (staging s)[reg_start ?r + reg_staged ?r := v]"
      using w mem_write_single by fastforce
    let ?s' = "s\<lparr>staging := stg, regions := (regions s)[i := ?r\<lparr>reg_staged := reg_staged ?r + 1\<rparr>]\<rparr>"
    have st: "stage c v s = Some (Inr (gap_pos s + staged_before ?s' i + reg_staged ?r), ?s')"
      using Some 3 slot by (simp add: stage_def region_is_full_def Let_def stg)
    show ?thesis by (rule staged [OF Some 3 st]) (use ext [OF refl] in auto)
  qed
qed

lemma stage_slice_cases:
  assumes inv: "staging_inv s"
  obtains (empty) "vs = []" "stage_slice c vs s = Some (Inr 0, s)"
  | (rejected) e where "vs \<noteq> []" "stage_slice c vs s = Some (Inl e, s)"
  | (staged) i s' at where "vs \<noteq> []" "region_index s c = Some i"
      "reg_staged (regions s ! i) + length vs \<le> reg_size (regions s ! i)"
      "staging_used s + length vs \<le> gap_len s"
      "stage_slice c vs s = Some (Inr (length vs), s')" "staging_inv s'"
      "committed s' = committed s" "logical s' = insert_at at vs (logical s)"
      "at + length vs \<le> length (logical s')"
proof (cases "vs = []")
  case True
  then show ?thesis using empty by (simp add: stage_slice_def)
next
  case ne: False
  show ?thesis
  proof (cases "region_index s c")
    case None
    with ne show ?thesis using rejected by (simp add: stage_slice_def)
  next
    case (Some i)
    let ?r = "regions s ! i"
    have ok: "reg_staged ?r \<le> reg_size ?r"
      using region_indexD [OF inv Some] staging_invD(6) [OF inv]
      by (metis layout_ok_region nth_mem region_ok_def)
    then have rem: "region_remaining ?r = Some (reg_size ?r - reg_staged ?r)" by (simp add: region_remaining_def)
    show ?thesis
    proof (cases "length vs \<le> reg_size ?r - reg_staged ?r \<and> saturating_add (staging_used s) (length vs) \<le> gap_len s")
      case False
      with Some ne show ?thesis
        by (cases "length vs \<le> reg_size ?r - reg_staged ?r")
           (auto intro!: rejected simp: stage_slice_def Let_def rem)
    next
      case True
      have "gap_len s < usize_max"
        using staging_invD(4,5) [OF inv] isize_max_less by linarith
      with True have room: "staging_used s + length vs \<le> gap_len s"
        by (simp add: saturating_add_le_iff)
      have fit: "reg_staged ?r + length vs \<le> reg_size ?r"
        using True ok by linarith
      obtain stg where w: "mem_write (staging s) (reg_start ?r + reg_staged ?r) vs = Some stg"
        and ext: "\<And>s'. s' = s\<lparr>staging := stg, regions := (regions s)[i := ?r\<lparr>reg_staged := reg_staged ?r + length vs\<rparr>]\<rparr> \<Longrightarrow>
          staging_inv s' \<and> committed s' = committed s \<and>
          logical s' = insert_at (gap_pos s + staged_before s' i + reg_staged ?r) vs (logical s) \<and>
          gap_pos s + staged_before s' i + reg_staged ?r + length vs \<le> length (logical s')"
        using region_extend [OF inv Some fit room] by blast
      let ?s' = "s\<lparr>staging := stg, regions := (regions s)[i := ?r\<lparr>reg_staged := reg_staged ?r + length vs\<rparr>]\<rparr>"
      have st: "stage_slice c vs s = Some (Inr (length vs), ?s')"
        using Some ne True w rem by (simp add: stage_slice_def Let_def not_le [symmetric])
      show ?thesis by (rule staged [OF ne Some fit room st]) (use ext [OF refl] in blast)+
    qed
  qed
qed

section \<open>Commits\<close>

abbreviation unstage :: "staging_region \<Rightarrow> staging_region" where
  "unstage r \<equiv> r\<lparr>reg_staged := 0\<rparr>"

lemma staged_run_unstage [simp]: "staged_run stg (unstage r) = []"
  by (simp add: staged_run_def)

lemma runs_of_unstage [simp]: "runs_of stg (map unstage rs) = []"
  by (induction rs) auto

lemma layout_ok_unstage:
  "layout_ok g (rs @ rs') \<Longrightarrow> layout_ok g (map unstage rs @ rs')"
  by (auto simp: layout_ok_def list_all_iff sorted_wrt_append sorted_wrt_map region_ok_def)

lemma sum_staged_unstage [simp]: "sum_list (map (reg_staged \<circ> unstage) rs) = 0"
  by (induction rs) auto

lemma cursor_ids_unstage: "map cursor_id (map unstage rs) = map cursor_id rs"
  by simp

lemma map_unstage_id: "sum_list (map reg_staged rs) = 0 \<Longrightarrow> map unstage rs = rs"
  by (induction rs) auto

text \<open>The buffer after the block moves of \<open>commit_up_to\<close>.\<close>

lemma commit_blocks:
  assumes "length pre = p" "length gap = g" "length vs \<le> g"
  shows "mem_write (pre @ gap @ post @ rest) p vs = Some (pre @ vs @ drop (length vs) gap @ post @ rest)"
    and "mem_move (pre @ vs @ drop (length vs) gap @ post @ rest) (p + length vs) (p + g) (length post)
       = Some (pre @ vs @ post @ drop (length post) (drop (length vs) gap @ post) @ rest)"
proof -
  show "mem_write (pre @ gap @ post @ rest) p vs = Some (pre @ vs @ drop (length vs) gap @ post @ rest)"
    using assms by (simp add: mem_write_def)
  let ?b = "pre @ vs @ drop (length vs) gap @ post @ rest"
  have "take (length post) (drop (p + g) ?b) = post" using assms by simp
  moreover have "take (p + length vs) ?b = pre @ vs" using assms by simp
  moreover have "drop (p + length vs + length post) ?b = drop (length post) (drop (length vs) gap @ post) @ rest"
  proof -
    have "drop (p + length vs + length post) ?b = drop (length post) ((drop (length vs) gap @ post) @ rest)"
      using assms by simp
    also have "\<dots> = drop (length post) (drop (length vs) gap @ post) @ rest"
      by (subst drop_append) simp
    finally show ?thesis .
  qed
  ultimately show "mem_move ?b (p + length vs) (p + g) (length post)
       = Some (pre @ vs @ post @ drop (length post) (drop (length vs) gap @ post) @ rest)"
    using assms by (simp add: mem_move_Some)
qed

text \<open>
  \<open>commit_up_to\<close> pulls the suffix flush against the committed run but keeps the rest of the gap
  between the two, so afterwards the suffix is read at its old place again. That place survives
  the move when the suffix is no longer than the gap that is left (then the two copies do not
  overlap), and when the run fills the gap exactly. \<open>commit_fits k\<close> says so for the first \<open>k\<close>
  regions.
\<close>

definition commit_fits :: "nat \<Rightarrow> 'a staging_gap \<Rightarrow> bool" where
  "commit_fits k s \<longleftrightarrow>
     (let total = sum_list (map reg_staged (take k (live s))) in
      total = 0 \<or> total = gap_len s \<or> committed_len s - gap_pos s + total \<le> gap_len s)"

lemma committed_eqI:
  assumes "buf t = pre @ gap @ post @ rest" "length pre = gap_pos t" "length gap = gap_len t"
    "gap_pos t + length post = committed_len t"
  shows "committed t = pre @ post"
proof -
  have "committed_len t - gap_pos t = length post" using assms(4) by simp
  then show ?thesis using assms(1-3) by (simp add: committed_def)
qed

text \<open>What every commit does: no access leaves the buffer, the counts add up, the regions up to
  \<open>n\<close> are emptied and the later ones kept.\<close>

lemma commit_up_to_state:
  assumes inv: "staging_inv s" and n: "n < region_count s" and b: "buf s = pre @ gap @ post @ rest"
    "length pre = gap_pos s" "length gap = gap_len s" "gap_pos s + length post = committed_len s"
  defines "vs \<equiv> runs_of (staging s) (take (Suc n) (live s))"
  assumes ne: "vs \<noteq> []"
  shows "commit_up_to n s = Some (length vs, s\<lparr>
        buf := pre @ vs @ post @ drop (length post) (drop (length vs) gap @ post) @ rest,
        committed_len := committed_len s + length vs,
        gap_pos := (if gap_len s = length vs \<and> committed_len s + length vs < length (buf s)
                    then committed_len s + length vs else gap_pos s + length vs),
        gap_len := (if gap_len s = length vs \<and> committed_len s + length vs < length (buf s)
                    then length (buf s) - (committed_len s + length vs) else gap_len s - length vs),
        regions := map unstage (take (n + 1) (regions s)) @ drop (n + 1) (regions s)\<rparr>)"
    (is "_ = Some (_, ?s')") and "length vs \<le> gap_len s"
proof -
  note I = staging_invD [OF inv]
  let ?pre = "take (Suc n) (live s)" and ?post = "drop (Suc n) (live s)"
  have lay: "layout_ok (length (staging s)) ?pre" using I(6) by (rule layout_ok_take)
  have "sum_list (map reg_staged (live s)) = length vs + sum_list (map reg_staged ?post)"
    using length_runs_of [OF lay] unfolding vs_def
    by (metis append_take_drop_id map_append sum_list_append)
  then show fit: "length vs \<le> gap_len s" using I(7) by linarith
  have "take (Suc n) (regions s) = ?pre" using n by (simp add: min_absorb2)
  then have g: "gather_staged (staging s) (take (Suc n) (regions s)) [] = Some vs"
    unfolding vs_def using gather_staged_layout [OF lay] by (simp only:)
  have sat: "saturating_add (committed_len s) (length vs) = committed_len s + length vs"
    using I(4,5) fit isize_max_less by (intro saturating_add_exact) linarith
  have w: "mem_write (buf s) (gap_pos s) vs = Some (pre @ vs @ drop (length vs) gap @ post @ rest)"
    unfolding b(1) by (rule commit_blocks(1) [OF b(2,3) fit])
  have "committed_len s - gap_pos s = length post" using b(4) by simp
  then have m: "mem_move (pre @ vs @ drop (length vs) gap @ post @ rest)
      (gap_pos s + length vs) (gap_pos s + gap_len s) (committed_len s - gap_pos s)
      = Some (pre @ vs @ post @ drop (length post) (drop (length vs) gap @ post) @ rest)"
    using commit_blocks(2) [OF b(2,3) fit] by simp
  show "commit_up_to n s = Some (length vs, ?s')"
  proof (cases "gap_len s = length vs \<and> committed_len s + length vs < length (buf s)")
    case True
    with ne g w m show ?thesis by (simp add: commit_up_to_def sat Let_def)
  next
    case co: False
    with fit have "gap_len s - length vs = 0 \<Longrightarrow> \<not> committed_len s + length vs < length (buf s)"
      by auto
    with ne fit g w m co show ?thesis by (auto simp: commit_up_to_def sat Let_def)
  qed
qed

text \<open>
  A commit never faults and keeps the layout; when it fits, it moves the runs into the committed
  sequence and leaves the document as it was.
\<close>

lemma commit_up_to_eq:
  assumes inv: "staging_inv s" and n: "n < region_count s"
  obtains s' where
    "commit_up_to n s = Some (length (runs_of (staging s) (take (Suc n) (live s))), s')" "staging_inv s'"
    "committed_len s' = committed_len s + length (runs_of (staging s) (take (Suc n) (live s)))"
    "live s' = map unstage (take (Suc n) (live s)) @ drop (Suc n) (live s)"
    "region_count s' = region_count s" "staging s' = staging s" "length (buf s') = length (buf s)"
    "commit_fits (Suc n) s \<longrightarrow>
       committed s' = insert_at (gap_pos s) (runs_of (staging s) (take (Suc n) (live s))) (committed s)
       \<and> logical s' = logical s"
proof -
  note I = staging_invD [OF inv]
  let ?pre = "take (Suc n) (live s)" and ?post = "drop (Suc n) (live s)"
  define vs where "vs = runs_of (staging s) ?pre"
  note fold = vs_def [symmetric]
  have lay: "layout_ok (length (staging s)) ?pre" using I(6) by (rule layout_ok_take)
  have lay2: "layout_ok (length (staging s)) (map unstage ?pre @ ?post)"
    by (rule layout_ok_unstage) (simp only: append_take_drop_id I(6))
  have len: "sum_list (map reg_staged ?pre) = length vs" unfolding vs_def length_runs_of [OF lay] ..
  have runs: "staged_runs s = vs @ runs_of (staging s) ?post"
    unfolding staged_runs_def vs_def by (metis append_take_drop_id concat_append map_append)
  have sums: "sum_list (map reg_staged (live s)) = length vs + sum_list (map reg_staged ?post)"
    using len by (metis append_take_drop_id map_append sum_list_append)
  have ids: "map cursor_id (map unstage ?pre @ ?post) = map cursor_id (live s)"
    by (simp only: map_append cursor_ids_unstage) (simp only: map_append [symmetric] append_take_drop_id)
  show ?thesis
  proof (cases "vs = []")
    case True
    have un: "map unstage ?pre = ?pre"
      using len True by (intro map_unstage_id) (simp only: list.size)
    have lv: "live s = map unstage ?pre @ ?post" unfolding un by (rule append_take_drop_id [symmetric])
    have "take (Suc n) (regions s) = ?pre" using n by (simp add: min_absorb2)
    then have "gather_staged (staging s) (take (Suc n) (regions s)) [] = Some vs"
      unfolding vs_def using gather_staged_layout [OF lay] by (simp only:)
    then have "commit_up_to n s = Some (length vs, s)" by (simp add: commit_up_to_def True)
    then show ?thesis by (rule that [unfolded fold, OF _ inv _ lv refl refl refl]) (simp_all add: True)
  next
    case ne: False
    from inv obtain pre gap post rest where b: "buf s = pre @ gap @ post @ rest"
      "length pre = gap_pos s" "length gap = gap_len s" "gap_pos s + length post = committed_len s"
      and com: "committed s = pre @ post" by (rule staging_buf_cases)
    note state = commit_up_to_state [OF inv n b, unfolded fold, OF ne]
    obtain s' where c: "commit_up_to n s = Some (length vs, s')" and
      s': "s' = s\<lparr>buf := pre @ vs @ post @ drop (length post) (drop (length vs) gap @ post) @ rest,
        committed_len := committed_len s + length vs,
        gap_pos := (if gap_len s = length vs \<and> committed_len s + length vs < length (buf s)
                    then committed_len s + length vs else gap_pos s + length vs),
        gap_len := (if gap_len s = length vs \<and> committed_len s + length vs < length (buf s)
                    then length (buf s) - (committed_len s + length vs) else gap_len s - length vs),
        regions := map unstage (take (n + 1) (regions s)) @ drop (n + 1) (regions s)\<rparr>"
      using state(1) by blast
    have lb: "length (buf s') = length (buf s)" using b state(2) by (simp add: s')
    have liv: "live s' = map unstage ?pre @ ?post" using n I by (simp add: s' drop_take min_def)
    have run': "staged_runs s' = runs_of (staging s) ?post"
      unfolding staged_runs_def liv by (simp add: s')
    have inv': "staging_inv s'"
    proof -
      have st: "staging s' = staging s" by (simp add: s')
      have "sum_list (map reg_staged ?post) \<le> gap_len s - length vs" using I(7) sums by linarith
      moreover have "gap_len s - length vs \<le> gap_len s'" by (auto simp: s')
      moreover have "sum_list (map reg_staged (map unstage ?pre)) = 0"
        unfolding map_map by (rule sum_staged_unstage)
      ultimately have "sum_list (map reg_staged (live s')) \<le> gap_len s'"
        unfolding liv map_append sum_list_append by linarith
      moreover have "gap_pos s' \<le> committed_len s'" "committed_len s' + gap_len s' \<le> length (buf s')"
        "length (regions s') = length (staging s')" "region_count s' \<le> length (staging s')"
        using I state(2) lb by (auto simp: s')
      moreover have "length (buf s') \<le> isize_max" unfolding lb by (rule I(5))
      moreover have "layout_ok (length (staging s')) (live s')" unfolding liv st by (rule lay2)
      moreover have "distinct (map cursor_id (live s'))" unfolding liv ids by (rule I(8))
      ultimately show ?thesis unfolding staging_inv_def by blast
    qed
    have content: "committed s' = insert_at (gap_pos s) vs (committed s) \<and> logical s' = logical s"
      if fits: "commit_fits (Suc n) s"
    proof (cases "gap_len s = length vs \<and> committed_len s + length vs < length (buf s)")
      case True
      have "committed s' = (pre @ vs @ post) @ []"
        using b True state(2)
        by (intro committed_eqI [where gap = "drop (length post) (drop (length vs) gap @ post) @ rest" and rest = "[]"])
           (auto simp: s')
      moreover have no: "runs_of (staging s) ?post = []"
        using I(7) sums True by (auto simp: staged_run_def)
      have "staged_runs s' = []" "staged_runs s = vs"
        unfolding run' runs no by (rule refl, rule append_Nil2)
      ultimately show ?thesis
        using b(2) by (simp add: logical_def com insert_at_prefix)
    next
      case co: False
      have "gap_len s = length vs \<or> length post + length vs \<le> gap_len s"
        using fits len ne b(4) unfolding commit_fits_def Let_def by (metis add_diff_cancel_left' length_0_conv)
      then consider (exact) "gap_len s = length vs"
        | (room) "length post + length vs \<le> gap_len s" "gap_len s \<noteq> length vs" by blast
      then have "committed s' = (pre @ vs) @ post"
      proof cases
        case exact
        then show ?thesis
          using b co by (intro committed_eqI [where gap = "[]" and rest = rest]) (auto simp: s')
      next
        case room
        then have "drop (length post) (drop (length vs) gap @ post)
            = drop (length post) (drop (length vs) gap) @ post" using b(3) by simp
        with room b(2-4) co show ?thesis
          by (intro committed_eqI [where gap = "post @ drop (length post) (drop (length vs) gap)" and rest = rest])
             (auto simp: s')
      qed
      moreover have "gap_pos s' = gap_pos s + length vs" using co by (auto simp: s')
      ultimately show ?thesis
        using b(2) by (simp add: logical_def run' runs com insert_at_def)
    qed
    show ?thesis
      by (rule that [unfolded fold, OF c inv' _ liv]) (use lb content in \<open>simp_all add: s'\<close>)
  qed
qed

lemma flush_all_eq:
  assumes inv: "staging_inv s"
  obtains s' where "flush_all s = Some (length (staged_runs s), s')" "staging_inv s'"
    "committed_len s' = length (logical s)" "staged_runs s' = []"
    "map cursor_id (live s') = map cursor_id (live s)" "staging s' = staging s"
    "length (buf s') = length (buf s)" "sum_list (map reg_staged (live s')) = 0"
    "commit_fits (region_count s) s \<longrightarrow> committed s' = logical s"
proof (cases "region_count s = 0")
  case True
  then have "staged_runs s = []" by (simp add: staged_runs_def)
  with True inv show ?thesis
    using that [of s] by (simp add: flush_all_def logical_def length_committed)
next
  case False
  then have n: "region_count s - 1 < region_count s" and Sn: "Suc (region_count s - 1) = region_count s"
    by simp_all
  have all: "take (region_count s) (live s) = live s" by simp
  obtain s' where c: "commit_up_to (region_count s - 1) s = Some (length (staged_runs s), s')"
    and "staging_inv s'" "committed_len s' = committed_len s + length (staged_runs s)"
    and lv: "live s' = map unstage (live s)" and "staging s' = staging s" "length (buf s') = length (buf s)"
    "commit_fits (region_count s) s \<longrightarrow> committed s' = logical s"
    by (rule commit_up_to_eq [OF inv n, unfolded Sn all]) (simp add: staged_runs_def logical_def)
  moreover have "staged_runs s' = []" unfolding staged_runs_def lv by simp
  moreover have "map cursor_id (live s') = map cursor_id (live s)"
    unfolding lv by (rule cursor_ids_unstage)
  ultimately show ?thesis
    using False that [of s'] inv by (simp add: flush_all_def logical_def length_committed)
qed

section \<open>Moving the gap and deleting\<close>

lemma move_gap_right:
  assumes "length pre = p" "length gap = g"
  shows "mem_move (pre @ gap @ (a @ b) @ rest) p (p + g) (length a)
       = Some ((pre @ a) @ drop (length a) (gap @ a) @ b @ rest)"
proof -
  have "drop (p + length a) (pre @ gap @ (a @ b) @ rest) = drop (length a) ((gap @ a) @ b @ rest)"
    using assms by simp
  also have "\<dots> = drop (length a) (gap @ a) @ b @ rest" by (subst drop_append) simp
  finally show ?thesis using assms by (simp add: mem_move_Some)
qed

lemma move_gap_left:
  assumes "length a = p" "length gap = g"
  shows "mem_move ((a @ b) @ gap @ post @ rest) (p + g) p (length b)
       = Some (a @ take g (b @ gap) @ (b @ post) @ rest)"
proof -
  have "take (p + g) ((a @ b) @ gap @ post @ rest) = a @ take g ((b @ gap) @ post @ rest)"
    using assms by simp
  also have "take g ((b @ gap) @ post @ rest) = take g (b @ gap)"
    using assms by (subst take_append) simp
  finally show ?thesis using assms by (simp add: mem_move_Some)
qed

lemma move_gap_to_impl_eq:
  assumes inv: "staging_inv s" and index: "index \<le> committed_len s"
  obtains s' where "move_gap_to_impl index s = Some s'" "staging_inv s'" "gap_pos s' = index"
    "committed s' = committed s" "gap_len s' = gap_len s" "committed_len s' = committed_len s"
    "live s' = live s" "staging s' = staging s" "length (buf s') = length (buf s)"
proof -
  from inv obtain pre gap post rest where b: "buf s = pre @ gap @ post @ rest"
    "length pre = gap_pos s" "length gap = gap_len s" "gap_pos s + length post = committed_len s"
    "committed s = pre @ post" by (rule staging_buf_cases)
  have keep: "staging_inv (s\<lparr>buf := bs, gap_pos := index\<rparr>)" if "length bs = length (buf s)" for bs
    using inv index that by (simp add: staging_inv_def)
  consider "index = gap_pos s" | "gap_pos s < index" | "index < gap_pos s" by linarith
  then show ?thesis
  proof cases
    case 1
    then have "move_gap_to_impl index s = Some s" by (simp add: move_gap_to_impl_def)
    with 1 inv show ?thesis by (intro that) simp_all
  next
    case 2
    let ?a = "take (index - gap_pos s) post" and ?b = "drop (index - gap_pos s) post"
    let ?bs = "(pre @ ?a) @ drop (length ?a) (gap @ ?a) @ ?b @ rest"
    have la: "length ?a = index - gap_pos s" using b(4) index by simp
    have "mem_move (buf s) (gap_pos s) (gap_pos s + gap_len s) (index - gap_pos s) = Some ?bs"
      using move_gap_right [OF b(2,3), of ?a ?b rest] la b(1) by simp
    then have m: "move_gap_to_impl index s = Some (s\<lparr>buf := ?bs, gap_pos := index\<rparr>)"
      using 2 by (simp add: move_gap_to_impl_def)
    have len: "length ?bs = length (buf s)" using b la by simp
    have "committed (s\<lparr>buf := ?bs, gap_pos := index\<rparr>) = (pre @ ?a) @ ?b"
      using b(2-4) la 2 index
      by (intro committed_eqI [where gap = "drop (length ?a) (gap @ ?a)" and rest = rest]) auto
    then show ?thesis using that [OF m keep [OF len]] b(5) len by simp
  next
    case 3
    let ?a = "take index pre" and ?b = "drop index pre"
    let ?bs = "?a @ take (gap_len s) (?b @ gap) @ (?b @ post) @ rest"
    have la: "length ?a = index" "length ?b = gap_pos s - index" using b(2) 3 by auto
    have "mem_move (buf s) (index + gap_len s) index (gap_pos s - index) = Some ?bs"
      using move_gap_left [OF la(1) b(3), of ?b post rest] la b(1) by simp
    then have m: "move_gap_to_impl index s = Some (s\<lparr>buf := ?bs, gap_pos := index\<rparr>)"
      using 3 by (simp add: move_gap_to_impl_def)
    have len: "length ?bs = length (buf s)" using b la by simp
    have "committed (s\<lparr>buf := ?bs, gap_pos := index\<rparr>) = ?a @ ?b @ post"
      using b(2-4) la 3
      by (subst committed_eqI [where pre = ?a and gap = "take (gap_len s) (?b @ gap)" and post = "?b @ post" and rest = rest]) auto
    then show ?thesis using that [OF m keep [OF len]] b(5) len by simp
  qed
qed

lemma logical_no_staged: "staged_runs s = [] \<Longrightarrow> logical s = committed s"
  by (simp add: logical_def)

text \<open>
  Moving the gap commits what is staged; it fails only past the end of the document. The contents
  survive when the commit fits.
\<close>

lemma move_gap_to_cases:
  assumes inv: "staging_inv s"
  obtains (past_end) s' where "length (logical s) < index" "staging_inv s'"
      "move_gap_to index s = Some (Inl (InvalidPosition index (length (logical s))), s')"
      "staged_runs s' = []" "commit_fits (region_count s) s \<longrightarrow> committed s' = logical s"
  | (moved) s' where "index \<le> length (logical s)" "move_gap_to index s = Some (Inr (), s')"
      "staging_inv s'" "gap_pos s' = index" "committed_len s' = length (logical s)"
      "staged_runs s' = []" "sum_list (map reg_staged (live s')) = 0"
      "commit_fits (region_count s) s \<longrightarrow> committed s' = logical s"
proof -
  from inv obtain s1 where f: "flush_all s = Some (length (staged_runs s), s1)" "staging_inv s1"
    "committed_len s1 = length (logical s)" "staged_runs s1 = []"
    "sum_list (map reg_staged (live s1)) = 0"
    "commit_fits (region_count s) s \<longrightarrow> committed s1 = logical s"
    by (rule flush_all_eq) blast
  show ?thesis
  proof (cases "index \<le> length (logical s)")
    case False
    then have "move_gap_to index s = Some (Inl (InvalidPosition index (length (logical s))), s1)"
      using f(1,3) by (simp add: move_gap_to_def)
    then show ?thesis using past_end [OF _ f(2) _ f(4,6)] False by simp
  next
    case True
    then obtain s2 where m: "move_gap_to_impl index s1 = Some s2" "staging_inv s2" "gap_pos s2 = index"
      "committed s2 = committed s1" "committed_len s2 = committed_len s1" "live s2 = live s1"
      "staging s2 = staging s1"
      using move_gap_to_impl_eq [OF f(2), of index] f(3) by metis
    have none: "staged_runs s2 = []" using f(4) m(6,7) by (simp add: staged_runs_def)
    have "move_gap_to index s = Some (Inr (), s2)" using True f(1,3) m(1) by (simp add: move_gap_to_def)
    then show ?thesis
      using moved [OF True _ m(2,3) _ none] f(3,5,6) m(4,5,6) by simp
  qed
qed

lemma delete_range_cases:
  assumes inv: "staging_inv s"
  obtains (rejected) e s' where "b < a \<or> length (logical s) < b"
      "delete_range a b s = Some (Inl e, s')" "staging_inv s'"
      "commit_fits (region_count s) s \<longrightarrow> logical s' = logical s"
  | (deleted) s' where "a \<le> b" "b \<le> length (logical s)" "delete_range a b s = Some (Inr (b - a), s')"
      "staging_inv s'" "gap_pos s' = a" "committed_len s' = length (logical s) - (b - a)"
      "commit_fits (region_count s) s \<longrightarrow> committed s' = remove_range a b (logical s)
         \<and> logical s' = remove_range a b (logical s)"
proof (cases "a \<le> b")
  case False
  then have "delete_range a b s = Some (Inl (OutOfRange a b), s)" by (simp add: delete_range_def)
  then show ?thesis by (rule rejected [OF _ _ inv, rotated]) (use False in auto)
next
  case ab: True
  show ?thesis
  proof (rule move_gap_to_cases [OF inv, of a])
    fix s' assume past: "length (logical s) < a" "staging_inv s'"
      "move_gap_to a s = Some (Inl (InvalidPosition a (length (logical s))), s')"
      "staged_runs s' = []" and con: "commit_fits (region_count s) s \<longrightarrow> committed s' = logical s"
    then have del: "delete_range a b s = Some (Inl (InvalidPosition a (length (logical s))), s')"
      using ab by (simp add: delete_range_def)
    show ?thesis by (rule rejected [OF _ del past(2)]) (use past ab con in \<open>auto simp: logical_no_staged\<close>)
  next
    fix s1 assume moved: "a \<le> length (logical s)" "move_gap_to a s = Some (Inr (), s1)"
      "staging_inv s1" "gap_pos s1 = a" "committed_len s1 = length (logical s)"
      "staged_runs s1 = []" "sum_list (map reg_staged (live s1)) = 0"
      and con: "commit_fits (region_count s) s \<longrightarrow> committed s1 = logical s"
    show ?thesis
    proof (cases "b \<le> length (logical s)")
      case False
      then have del: "delete_range a b s = Some (Inl (OutOfRange a b), s1)"
        using ab moved(2,5) by (simp add: delete_range_def)
      show ?thesis
        by (rule rejected [OF _ del moved(3)]) (use False moved(6) con in \<open>auto simp: logical_no_staged\<close>)
    next
      case True
      let ?s' = "s1\<lparr>committed_len := committed_len s1 - (b - a), gap_len := gap_len s1 + (b - a)\<rparr>"
      have "delete_range a b s = Some (Inr (b - a), if a = b then s1 else ?s')"
        using ab True moved(2,5) by (simp add: delete_range_def)
      moreover have "s1 = ?s'" if "a = b" using that by simp
      ultimately have del: "delete_range a b s = Some (Inr (b - a), ?s')"
        using ab by (cases "a = b") auto
      have inv': "staging_inv ?s'"
        using moved(3,4,5) ab True by (auto simp: staging_inv_def)
      have none: "staged_runs ?s' = []" using moved(6) by (simp add: staged_runs_def)
      have "committed ?s' = remove_range a b (committed s1)"
      proof -
        from moved(3) obtain pre gap post rest where d: "buf s1 = pre @ gap @ post @ rest"
          "length pre = gap_pos s1" "length gap = gap_len s1" "gap_pos s1 + length post = committed_len s1"
          "committed s1 = pre @ post" by (rule staging_buf_cases)
        have "committed ?s' = pre @ drop (b - a) post"
          using d moved(4,5) ab True
          by (intro committed_eqI [where gap = "gap @ take (b - a) post" and rest = rest]) auto
        then show ?thesis using d(2,5) moved(4) ab by (simp add: remove_range_def)
      qed
      with none show ?thesis
        using deleted [OF ab True del inv'] moved(4,5) con by (simp add: logical_no_staged)
    qed
  qed
qed

section \<open>Rebalancing\<close>

text \<open>The layout \<open>rebalance\<close> gives a list of regions, and the staging room it takes.\<close>

fun place :: "usize \<Rightarrow> usize \<Rightarrow> staging_region list \<Rightarrow> staging_region list" where
  "place share at [] = []"
| "place share at (r # rs) =
     r\<lparr>reg_start := at, reg_size := max share (reg_staged r)\<rparr>
     # place share (at + max share (reg_staged r)) rs"

definition room_for :: "usize \<Rightarrow> staging_region list \<Rightarrow> usize" where
  "room_for share rs = sum_list (map (\<lambda>r. max share (reg_staged r)) rs)"

lemma room_for_simps [simp]:
  "room_for share [] = 0" "room_for share (r # rs) = max share (reg_staged r) + room_for share rs"
  by (simp_all add: room_for_def)

lemma place_simps [simp]:
  "length (place share at rs) = length rs"
  "map cursor_id (place share at rs) = map cursor_id rs"
  "map reg_staged (place share at rs) = map reg_staged rs"
  by (induction rs arbitrary: at) auto

lemma place_even:
  "\<forall>r \<in> set rs. reg_staged r \<le> share \<Longrightarrow> \<forall>r \<in> set (place share at rs). reg_size r = share"
  by (induction rs arbitrary: at) auto

lemma place_layout:
  "at + room_for share rs \<le> g \<Longrightarrow>
   layout_ok g (place share at rs) \<and> (\<forall>r \<in> set (place share at rs). at \<le> reg_start r)"
proof (induction rs arbitrary: at)
  case (Cons r rs)
  let ?at = "at + max share (reg_staged r)"
  from Cons have "layout_ok g (place share ?at rs)" "\<forall>r \<in> set (place share ?at rs). ?at \<le> reg_start r"
    by (auto simp: add.assoc)
  with Cons.prems show ?case by (auto simp: layout_ok_Cons region_ok_def)
qed (simp add: layout_ok_def)

lemma rebalance_loop_eq:
  assumes "at + room_for share rs \<le> length stg" "map length chunks = map reg_staged rs"
  shows "\<exists>stg'. rebalance_loop share at (concat chunks) rs stg = Some (stg', place share at rs)
    \<and> length stg' = length stg \<and> take at stg' = take at stg
    \<and> map (staged_run stg') (place share at rs) = chunks"
  using assms
proof (induction rs arbitrary: at chunks stg)
  case (Cons r rs)
  let ?k = "reg_staged r" and ?at = "at + max share (reg_staged r)"
  from Cons.prems(2) obtain c cs where ch: "chunks = c # cs" "length c = ?k"
    "map length cs = map reg_staged rs" by (cases chunks) auto
  let ?w = "if ?k = 0 then Some stg else mem_write stg at (take ?k (concat chunks))"
  have "at + ?k \<le> length stg" using Cons.prems(1) by simp
  then obtain stg1 where w: "?w = Some stg1" and len: "length stg1 = length stg"
    and pre: "take at stg1 = take at stg" and mid: "take ?k (drop at stg1) = c"
    using ch by (cases "?k = 0") (auto simp: mem_write_def)
  have "?at + room_for share rs \<le> length stg1" using Cons.prems(1) len by simp
  from Cons.IH [OF this ch(3)] obtain stg' where
    l: "rebalance_loop share ?at (concat cs) rs stg1 = Some (stg', place share ?at rs)"
    "length stg' = length stg1" "take ?at stg' = take ?at stg1"
    "map (staged_run stg') (place share ?at rs) = cs" by blast
  have "take (at + ?k) stg' = take (at + ?k) stg1"
    using arg_cong [where f = "take (at + ?k)", OF l(3)] by (simp add: min_def split: if_splits)
  then have eqs: "take at stg' = take at stg1" "take ?k (drop at stg') = take ?k (drop at stg1)"
    by (metis le_add1 min.absorb1 take_take) (metis \<open>take (at + ?k) stg' = take (at + ?k) stg1\<close> take_drop add.commute)
  have "drop ?k (concat chunks) = concat cs" using ch by simp
  then have "rebalance_loop share at (concat chunks) (r # rs) stg = Some (stg', place share at (r # rs))"
    using w l(1) by (simp add: Let_def)
  moreover have "staged_run stg' (r\<lparr>reg_start := at, reg_size := max share ?k\<rparr>) = c"
    using eqs(2) mid by (simp add: staged_run_def)
  ultimately show ?case using len l pre eqs(1) ch(1) by simp
qed simp

text \<open>
  Rebalancing keeps every staged run when the regions fit: each gets its share or, if larger, what
  it has staged.
\<close>

lemma rebalance_eq:
  assumes "list_all (region_ok (length (staging s))) (live s)"
    "region_count s \<le> length (regions s)" "region_count s > 0"
    "room_for (length (staging s) div region_count s) (live s) \<le> length (staging s)"
  obtains stg' where
    "rebalance s = Some (s\<lparr>staging := stg', regions :=
       place (length (staging s) div region_count s) 0 (live s) @ drop (region_count s) (regions s)\<rparr>)"
    "length stg' = length (staging s)"
    "map (staged_run stg') (place (length (staging s) div region_count s) 0 (live s))
     = map (staged_run (staging s)) (live s)"
proof -
  let ?share = "length (staging s) div region_count s"
  have "map length (map (staged_run (staging s)) (live s)) = map reg_staged (live s)"
    using assms(1) by (auto simp: list_all_iff)
  with rebalance_loop_eq [of 0 ?share "live s" "staging s" "map (staged_run (staging s)) (live s)"] assms(4)
  obtain stg' where r: "rebalance_loop ?share 0 (runs_of (staging s) (live s)) (live s) (staging s)
      = Some (stg', place ?share 0 (live s))" "length stg' = length (staging s)"
    "map (staged_run stg') (place ?share 0 (live s)) = map (staged_run (staging s)) (live s)" by auto
  have "sum_list (map reg_staged (live s)) \<le> room_for ?share (live s)"
    unfolding room_for_def by (rule sum_list_mono) simp
  with assms(1,4) have "gather_staged (staging s) (live s) [] = Some (runs_of (staging s) (live s))"
    using gather_staged_eq [of "staging s" "live s" "[]"] by simp
  with r assms(3) show ?thesis by (intro that) (auto simp: rebalance_def)
qed

text \<open>The staged run of a cursor, if it owns a region.\<close>

definition cursor_run :: "'a staging_gap \<Rightarrow> usize \<Rightarrow> 'a list option" where
  "cursor_run s c = map_option (\<lambda>i. staged_run (staging s) (regions s ! i)) (region_index s c)"

lemma index_of_cursor_map_of:
  "map_option (\<lambda>i. f (rs ! i)) (index_of_cursor rs c) = map_of (map (\<lambda>r. (cursor_id r, f r)) rs) c"
  by (induction rs) (auto simp: option.map_comp comp_def)

lemma cursor_run_map_of:
  assumes "staging_inv s"
  shows "cursor_run s c = map_of (map (\<lambda>r. (cursor_id r, staged_run (staging s) r)) (live s)) c"
proof -
  have "map_option (\<lambda>i. staged_run (staging s) (regions s ! i)) (region_index s c)
      = map_option (\<lambda>i. staged_run (staging s) (live s ! i)) (index_of_cursor (live s) c)"
    unfolding region_index_def using index_of_cursor_Some [of "live s" c]
    by (cases "index_of_cursor (live s) c") auto
  then show ?thesis unfolding cursor_run_def index_of_cursor_map_of by simp
qed

lemma map_of_zip_cursor:
  assumes "map cursor_id rs' = map cursor_id rs" "map (staged_run stg') rs' = map (staged_run stg) rs"
  shows "map (\<lambda>r. (cursor_id r, staged_run stg' r)) rs' = map (\<lambda>r. (cursor_id r, staged_run stg r)) rs"
  using assms by (auto simp: list_eq_iff_nth_eq)

lemma room_for_even:
  assumes "\<forall>r \<in> set rs. reg_staged r \<le> share" "length rs * share \<le> g"
  shows "room_for share rs \<le> g"
proof -
  have "room_for share rs = length rs * share"
    using assms(1) by (induction rs) (auto simp: max_def)
  with assms(2) show ?thesis by simp
qed

text \<open>
  The common core of joining and leaving: after the region array was edited to hold \<open>rs\<close>, the
  rebalanced gap is well formed, the committed side is untouched and each region keeps its run.
\<close>

definition same_frame :: "'a staging_gap \<Rightarrow> 'a staging_gap \<Rightarrow> bool" where
  "same_frame s s' \<longleftrightarrow> gap_pos s' = gap_pos s \<and> gap_len s' = gap_len s \<and> length (buf s') = length (buf s) \<and>
     length (staging s') = length (staging s)"

lemma rebalance_regions:
  assumes inv: "staging_inv s" and s1: "s1 = s\<lparr>regions := rs @ rest, region_count := length rs\<rparr>"
    and rs: "rs \<noteq> []" "length (rs @ rest) = length (staging s)"
    and ok: "list_all (region_ok (length (staging s))) rs" "distinct (map cursor_id rs)"
    and sum: "sum_list (map reg_staged rs) \<le> gap_len s"
    and room: "room_for (length (staging s) div length rs) rs \<le> length (staging s)"
  obtains s' where "rebalance s1 = Some s'" "staging_inv s'" "committed s' = committed s"
    "gap_pos s' = gap_pos s" "staged_runs s' = runs_of (staging s) rs"
    "cursor_run s' = map_of (map (\<lambda>r. (cursor_id r, staged_run (staging s) r)) rs)"
    "live s' = place (length (staging s) div length rs) 0 rs"
    "map (staged_run (staging s')) (live s') = map (staged_run (staging s)) rs" "same_frame s s'"
proof -
  let ?share = "length (staging s) div length rs"
  have lv: "live s1 = rs" by (simp add: s1)
  obtain stg' where r: "rebalance s1 = Some (s1\<lparr>staging := stg', regions := place ?share 0 rs @ rest\<rparr>)"
    "length stg' = length (staging s)"
    "map (staged_run stg') (place ?share 0 rs) = map (staged_run (staging s)) rs"
    by (rule rebalance_eq [of s1]) (use rs ok(1) room in \<open>simp_all add: s1\<close>)
  define s' where "s' = s1\<lparr>staging := stg', regions := place ?share 0 rs @ rest\<rparr>"
  have lv': "live s' = place ?share 0 rs" by (simp add: s'_def s1)
  have lay: "layout_ok (length (staging s)) (place ?share 0 rs)"
    using place_layout [of 0 ?share rs] room by simp
  have "length (regions s') = length (staging s')" "region_count s' \<le> length (staging s')"
    "gap_pos s' \<le> committed_len s'" "committed_len s' + gap_len s' \<le> length (buf s')"
    "length (buf s') \<le> isize_max" "length (staging s') = length (staging s)" "gap_len s' = gap_len s"
    using staging_invD [OF inv] rs(2) r(2) by (simp_all add: s'_def s1)
  then have inv': "staging_inv s'"
    unfolding staging_inv_def lv' using lay ok(2) sum by simp
  have run: "map (staged_run (staging s')) (live s') = map (staged_run (staging s)) rs"
    unfolding lv' using r(3) by (simp add: s'_def)
  show ?thesis
  proof (rule that [OF _ inv'])
    show "rebalance s1 = Some s'" using r(1) by (simp add: s'_def)
    show "committed s' = committed s" "gap_pos s' = gap_pos s"
      by (simp_all add: committed_def s'_def s1)
    show "staged_runs s' = runs_of (staging s) rs" unfolding staged_runs_def run ..
    have "map (\<lambda>r. (cursor_id r, staged_run (staging s') r)) (live s')
        = map (\<lambda>r. (cursor_id r, staged_run (staging s) r)) rs"
      by (rule map_of_zip_cursor [OF _ run]) (simp add: lv')
    then show "cursor_run s' = map_of (map (\<lambda>r. (cursor_id r, staged_run (staging s) r)) rs)"
      by (simp add: fun_eq_iff cursor_run_map_of [OF inv'])
    show "live s' = place ?share 0 rs" by (rule lv')
    show "map (staged_run (staging s')) (live s') = map (staged_run (staging s)) rs" by (rule run)
    show "same_frame s s'" using r(2) by (simp add: same_frame_def s'_def s1)
  qed
qed

lemma map_of_append_new: "k \<notin> fst ` set xs \<Longrightarrow> map_of (xs @ [(k, v)]) = (map_of xs)(k \<mapsto> v)"
  by (induction xs) (auto simp: fun_eq_iff)

lemma add_region_eq:
  assumes inv: "staging_inv s" and cnt: "region_count s < length (staging s)"
    and new: "c \<notin> cursor_id ` set (live s)"
    and room: "room_for (length (staging s) div (region_count s + 1)) (live s)
               + length (staging s) div (region_count s + 1) \<le> length (staging s)"
  obtains s' where "add_region c s = Some (Inr (), s')" "staging_inv s'" "committed s' = committed s"
    "logical s' = logical s" "cursor_run s' = (cursor_run s)(c \<mapsto> [])"
    "live s' = place (length (staging s) div (region_count s + 1)) 0 (live s @ [region_new c 0 0])"
    "map (staged_run (staging s')) (live s') = map (staged_run (staging s)) (live s @ [region_new c 0 0])" "same_frame s s'"
proof -
  note I = staging_invD [OF inv]
  let ?rs = "live s @ [region_new c 0 0]" and ?rest = "drop (Suc (region_count s)) (regions s)"
  let ?s1 = "s\<lparr>regions := (regions s)[region_count s := region_new c 0 0], region_count := region_count s + 1\<rparr>"
  have len: "length ?rs = region_count s + 1" using I by simp
  have "(regions s)[region_count s := region_new c 0 0] = ?rs @ ?rest"
    using cnt I(1) by (simp add: upd_conv_take_nth_drop)
  then have s1: "?s1 = s\<lparr>regions := ?rs @ ?rest, region_count := length ?rs\<rparr>" using len by simp
  have ok: "list_all (region_ok (length (staging s))) ?rs" "distinct (map cursor_id ?rs)"
    "length (?rs @ ?rest) = length (staging s)" "sum_list (map reg_staged ?rs) \<le> gap_len s"
    using I new cnt by (auto simp: layout_ok_def region_ok_def region_new_def image_iff)
  have rm: "room_for (length (staging s) div length ?rs) ?rs \<le> length (staging s)"
    using room unfolding len by (simp add: room_for_def region_new_def)
  have ne: "?rs \<noteq> []" by simp
  obtain s' where r: "rebalance ?s1 = Some s'" "staging_inv s'" "committed s' = committed s"
    "gap_pos s' = gap_pos s" "staged_runs s' = runs_of (staging s) ?rs"
    "cursor_run s' = map_of (map (\<lambda>r. (cursor_id r, staged_run (staging s) r)) ?rs)"
    "live s' = place (length (staging s) div length ?rs) 0 ?rs"
    "map (staged_run (staging s')) (live s') = map (staged_run (staging s)) ?rs" "same_frame s s'"
    by (rule rebalance_regions [OF inv s1 ne ok(3,1,2,4) rm])
  have add: "add_region c s = Some (Inr (), s')"
    using cnt new r(1) by (auto simp: add_region_def image_iff)
  have "staged_runs s' = staged_runs s"
    using r(5) by (simp add: staged_runs_def [of s] region_new_def staged_run_def)
  then have log: "logical s' = logical s" by (simp add: logical_def r(3,4))
  have "cursor_run s' = (cursor_run s)(c \<mapsto> [])"
  proof -
    let ?p = "\<lambda>r. (cursor_id r, staged_run (staging s) r)"
    have app: "map ?p ?rs = map ?p (live s) @ [(c, [])]" by (simp add: region_new_def staged_run_def)
    have cr: "cursor_run s = map_of (map ?p (live s))"
      by (simp add: fun_eq_iff cursor_run_map_of [OF inv])
    have "c \<notin> fst ` set (map ?p (live s))" using new by (simp add: image_image)
    then show ?thesis unfolding r(6) app cr by (rule map_of_append_new)
  qed
  then show ?thesis by (rule that [OF add r(2,3) log _ r(7) [unfolded len] r(8,9)])
qed

text \<open>Leaving: the last region takes the place of the one removed.\<close>

lemma remove_slot:
  assumes "i < n" "n \<le> length xs"
  shows "set (take (n - 1) (xs[i := xs ! (n - 1)])) \<union> {xs ! i} = set (take n xs)"
    and "distinct (map f (take n xs)) \<Longrightarrow> distinct (map f (take (n - 1) (xs[i := xs ! (n - 1)])))"
    and "distinct (map f (take n xs)) \<Longrightarrow> f (xs ! i) \<notin> f ` set (take (n - 1) (xs[i := xs ! (n - 1)]))"
proof -
  let ?A = "take i xs"
  obtain B where t: "take n xs = ?A @ xs ! i # B" and lB: "length B = n - 1 - i"
    using assms id_take_nth_drop [of i "take n xs"] by (auto simp: min_absorb1)
  have cases: "take (n - 1) (xs[i := xs ! (n - 1)]) = (if B = [] then ?A else ?A @ last B # butlast B)"
  proof (cases "B = []")
    case True
    with lB assms have "i = n - 1" by simp
    with True show ?thesis by simp
  next
    case False
    then have "last B = last (take n xs)" unfolding t by simp
    also have "\<dots> = xs ! (n - 1)" using assms by (subst last_conv_nth) auto
    finally have l: "last B = xs ! (n - 1)" .
    have "Suc i < n" using False lB by (cases B) auto
    have "take (n - 1) xs = take (n - 1) (take n xs)" by simp
    also have "\<dots> = ?A @ xs ! i # butlast B"
      using assms lB \<open>Suc i < n\<close> unfolding t by (simp add: butlast_conv_take take_Cons' Suc_diff_Suc)
    finally have "take (n - 1) (xs[i := xs ! (n - 1)]) = (?A @ xs ! i # butlast B)[i := last B]"
      by (simp add: take_update_swap l)
    with False assms show ?thesis by (simp add: list_update_append)
  qed
  show "set (take (n - 1) (xs[i := xs ! (n - 1)])) \<union> {xs ! i} = set (take n xs)"
    unfolding cases t by (cases B rule: rev_cases) auto
  show "distinct (map f (take n xs)) \<Longrightarrow> distinct (map f (take (n - 1) (xs[i := xs ! (n - 1)])))"
    unfolding cases t by (cases B rule: rev_cases) auto
  show "distinct (map f (take n xs)) \<Longrightarrow> f (xs ! i) \<notin> f ` set (take (n - 1) (xs[i := xs ! (n - 1)]))"
    unfolding cases t by (cases B rule: rev_cases) auto
qed

lemma map_of_remove:
  assumes "set xs \<union> {x} = set ys" "distinct (map fst xs)" "distinct (map fst ys)"
    "fst x \<notin> fst ` set xs"
  shows "map_of xs = (map_of ys)(fst x := None)"
proof
  fix k
  show "map_of xs k = ((map_of ys)(fst x := None)) k"
  proof (cases "k = fst x")
    case True
    with assms(4) show ?thesis by (simp add: map_of_eq_None_iff)
  next
    case False
    have "(k, v) \<in> set xs \<longleftrightarrow> (k, v) \<in> set ys" for v
      using assms(1) False by (metis UnE UnI1 fst_conv singletonD)
    then have "map_of xs k = Some v \<longleftrightarrow> map_of ys k = Some v" for v
      using assms(2,3) by simp
    then have "map_of xs k = map_of ys k" by (metis not_Some_eq)
    with False show ?thesis by simp
  qed
qed

lemma remove_region_eq:
  assumes inv: "staging_inv s" and idx: "region_index s c = Some i" and two: "1 < region_count s"
  defines "rs \<equiv> take (region_count s - 1) ((regions s)[i := regions s ! (region_count s - 1)])"
  assumes room: "room_for (length (staging s) div (region_count s - 1)) rs \<le> length (staging s)"
  obtains s' where "remove_region c s = Some (True, s')" "staging_inv s'" "committed s' = committed s"
    "cursor_run s' = (cursor_run s)(c := None)" "staged_runs s' = runs_of (staging s) rs"
    "live s' = place (length (staging s) div (region_count s - 1)) 0 rs"
    "map (staged_run (staging s')) (live s') = map (staged_run (staging s)) rs" "same_frame s s'"
proof -
  note I = staging_invD [OF inv] and R = region_indexD [OF inv idx]
  let ?n = "region_count s"
  let ?ys = "(regions s)[i := regions s ! (?n - 1)]"
  let ?rest = "drop (?n - 1) (?ys[?n - 1 := region_new 0 0 0])"
  let ?s1 = "s\<lparr>regions := ?ys[?n - 1 := region_new 0 0 0], region_count := ?n - 1\<rparr>"
  have n: "?n \<le> length (regions s)" using I by simp
  have len: "length rs = ?n - 1" using n by (simp add: rs_def)
  have "?ys[?n - 1 := region_new 0 0 0] = rs @ ?rest"
    unfolding rs_def by (metis append_take_drop_id take_update_cancel order_refl)
  then have s1: "?s1 = s\<lparr>regions := rs @ ?rest, region_count := length rs\<rparr>" unfolding len by simp
  note rem = remove_slot [OF R(1) n, folded rs_def]
  have sub: "set rs \<subseteq> set (live s)" using rem(1) by blast
  have ok: "list_all (region_ok (length (staging s))) rs"
    using sub I(6) by (auto simp: layout_ok_def list_all_iff)
  have dist: "distinct (map cursor_id rs)" using rem(2) I(8) by blast
  have lens: "length (rs @ ?rest) = length (staging s)" unfolding rs_def using I(1) two by simp
  have "sum_list (map reg_staged rs) \<le> sum_list (map reg_staged (live s))"
  proof -
    have d: "distinct rs" "distinct (live s)" using dist I(8) by (simp_all add: distinct_map)
    then have "sum_list (map reg_staged rs) = sum reg_staged (set rs)"
      "sum_list (map reg_staged (live s)) = sum reg_staged (set (live s))"
      by (simp_all add: sum_list_distinct_conv_sum_set)
    moreover have "sum reg_staged (set rs) \<le> sum reg_staged (set (live s))"
      using sub by (intro sum_mono2) auto
    ultimately show ?thesis by simp
  qed
  then have sum: "sum_list (map reg_staged rs) \<le> gap_len s" using I(7) by linarith
  have ne: "rs \<noteq> []" using len two by auto
  obtain s' where r: "rebalance ?s1 = Some s'" "staging_inv s'" "committed s' = committed s"
    "gap_pos s' = gap_pos s" "staged_runs s' = runs_of (staging s) rs"
    "cursor_run s' = map_of (map (\<lambda>r. (cursor_id r, staged_run (staging s) r)) rs)"
    "live s' = place (length (staging s) div length rs) 0 rs"
    "map (staged_run (staging s')) (live s') = map (staged_run (staging s)) rs" "same_frame s s'"
    by (rule rebalance_regions [OF inv s1 ne lens ok dist sum]) (use room in \<open>simp_all add: len\<close>)
  have rm: "remove_region c s = Some (True, s')"
    using idx r(1) by (simp add: remove_region_def Let_def)
  have "cursor_run s' = (cursor_run s)(c := None)"
  proof -
    let ?p = "\<lambda>r. (cursor_id r, staged_run (staging s) r)"
    have cr: "cursor_run s = map_of (map ?p (live s))" by (simp add: fun_eq_iff cursor_run_map_of [OF inv])
    have "map_of (map ?p rs) = (map_of (map ?p (live s)))(fst (?p (regions s ! i)) := None)"
    proof (rule map_of_remove)
      show "set (map ?p rs) \<union> {?p (regions s ! i)} = set (map ?p (live s))"
        unfolding set_map rem(1) [symmetric] by blast
      show "distinct (map fst (map ?p rs))" "distinct (map fst (map ?p (live s)))"
        using dist I(8) by (simp_all add: comp_def)
      show "fst (?p (regions s ! i)) \<notin> fst ` set (map ?p rs)"
        using rem(3) [OF I(8)] by (simp add: image_image)
    qed
    then show ?thesis unfolding r(6) cr using R(4) by simp
  qed
  then show ?thesis by (rule that [OF rm r(2,3) _ r(5) r(7) [unfolded len] r(8,9)])
qed

lemma flush_region_cases:
  assumes inv: "staging_inv s"
  obtains (no_region) "region_index s c = None" "flush_region c s = Some (Inl (InvalidCursor c), s)"
  | (flushed) i s' where "region_index s c = Some i"
      "flush_region c s = Some (Inr (length (runs_of (staging s) (take (Suc i) (live s)))), s')"
      "staging_inv s'" "live s' = map unstage (take (Suc i) (live s)) @ drop (Suc i) (live s)"
      "commit_fits (Suc i) s \<longrightarrow>
         committed s' = insert_at (gap_pos s) (runs_of (staging s) (take (Suc i) (live s))) (committed s)
         \<and> logical s' = logical s"
proof (cases "region_index s c")
  case None
  then show ?thesis using no_region by (simp add: flush_region_def)
next
  case (Some i)
  obtain s' where c: "commit_up_to i s = Some (length (runs_of (staging s) (take (Suc i) (live s))), s')"
    "staging_inv s'" "live s' = map unstage (take (Suc i) (live s)) @ drop (Suc i) (live s)"
    "commit_fits (Suc i) s \<longrightarrow>
       committed s' = insert_at (gap_pos s) (runs_of (staging s) (take (Suc i) (live s))) (committed s)
       \<and> logical s' = logical s"
    by (rule commit_up_to_eq [OF inv region_indexD(1) [OF inv Some]]) blast
  have "flush_region c s = Some (Inr (length (runs_of (staging s) (take (Suc i) (live s)))), s')"
    unfolding flush_region_def Some using c(1) by (simp only: option.case bind.bind_lunit prod.case)
  then show ?thesis by (rule flushed [OF Some _ c(2,3,4)])
qed

end
