(* ===== verification/Machine.thy ===== *)
theory Machine
  imports Prelude
begin

text \<open>
  Components as machines that run sequences of commands. \<open>run_cmds\<close> executes a command list, collects
  the results and stops at a fault (\<^const>\<open>None\<close>); \<open>spec_run\<close> runs the same commands on an abstract
  specification, which is a total function and has no faults, and \<open>guarded_run\<close> asks a guard on the
  specification before every command. The locale \<open>refined_machine\<close> is the contract between one step of
  a component and its specification: equal results and a new state that stands for the new abstract
  state. Its lemma lifts the contract to whole runs.
\<close>

fun run_cmds :: "('c \<Rightarrow> 's \<Rightarrow> ('r \<times> 's) option) \<Rightarrow> 'c list \<Rightarrow> 's \<Rightarrow> ('r list \<times> 's) option" where
  "run_cmds exec [] s = Some ([], s)"
| "run_cmds exec (c # cs) s = do { (r, s') \<leftarrow> exec c s; (rs, s'') \<leftarrow> run_cmds exec cs s'; Some (r # rs, s'') }"

fun spec_run :: "('c \<Rightarrow> 'd \<Rightarrow> 'r \<times> 'd) \<Rightarrow> 'c list \<Rightarrow> 'd \<Rightarrow> 'r list \<times> 'd" where
  "spec_run spec [] d = ([], d)"
| "spec_run spec (c # cs) d = (case spec c d of (r, d') \<Rightarrow> case spec_run spec cs d' of (rs, d'') \<Rightarrow> (r # rs, d''))"

fun guarded_run :: "('c \<Rightarrow> 'd \<Rightarrow> bool) \<Rightarrow> ('c \<Rightarrow> 'd \<Rightarrow> 'r \<times> 'd) \<Rightarrow> 'c list \<Rightarrow> 'd \<Rightarrow> bool" where
  "guarded_run safe spec [] d = True"
| "guarded_run safe spec (c # cs) d = (safe c d \<and> guarded_run safe spec cs (snd (spec c d)))"

locale refined_machine =
  fixes inv :: "'s \<Rightarrow> bool" and exec :: "'c \<Rightarrow> 's \<Rightarrow> ('r \<times> 's) option" and doc :: "'s \<Rightarrow> 'd"
    and safe :: "'c \<Rightarrow> 'd \<Rightarrow> bool" and spec :: "'c \<Rightarrow> 'd \<Rightarrow> 'r \<times> 'd"
  assumes step_ok: "inv s \<Longrightarrow> safe c (doc s) \<Longrightarrow>
    \<exists>r s'. exec c s = Some (r, s') \<and> inv s' \<and> spec c (doc s) = (r, doc s')"
begin

lemma run_refines:
  "inv s \<Longrightarrow> guarded_run safe spec cs (doc s) \<Longrightarrow>
   \<exists>rs s'. run_cmds exec cs s = Some (rs, s') \<and> inv s' \<and> spec_run spec cs (doc s) = (rs, doc s')"
proof (induction cs arbitrary: s)
  case (Cons c cs)
  from Cons.prems obtain r s1 where s1: "exec c s = Some (r, s1)" "inv s1" "spec c (doc s) = (r, doc s1)"
    using step_ok [of s c] by auto
  with Cons.prems have "guarded_run safe spec cs (doc s1)" by simp
  from Cons.IH [OF s1(2) this] obtain rs s2 where
    "run_cmds exec cs s1 = Some (rs, s2)" "inv s2" "spec_run spec cs (doc s1) = (rs, doc s2)" by blast
  with s1 show ?case by simp
qed simp

end

end
