(* ===== verification/Staging_Editor.thy ===== *)
theory Staging_Editor
  imports Staging_Gap Machine
begin

text \<open>
  The contract of the staging gap. \<open>editor\<close> is what its clients may think of: a text, a position in
  it, and the cursors in order, each with what it has typed and how much it may type. There are no
  buffers, no gap in the text and no region layout. \<open>edit\<close> says what every call of \<open>StagingGap\<close> does
  to it and returns; the gap refines the editor call by call (the interpretation \<open>gap\<close>), with the same
  results.
\<close>

section \<open>The editor\<close>

record 'a seat =
  seat_cursor :: usize
  seat_size :: usize
  seat_run :: "'a list"

record 'a editor =
  ed_text :: "'a list"
  ed_pos :: usize
  ed_gap :: usize
  ed_cap :: usize
  ed_area :: usize
  ed_seats :: "'a seat list"

abbreviation typed :: "'a seat list \<Rightarrow> 'a list" where
  "typed ps \<equiv> concat (map seat_run ps)"

text \<open>The document: everything typed, spliced into the text.\<close>

definition ed_doc :: "'a editor \<Rightarrow> 'a list" where
  "ed_doc e = insert_at (ed_pos e) (typed (ed_seats e)) (ed_text e)"

fun seat_index :: "'a seat list \<Rightarrow> usize \<Rightarrow> usize option" where
  "seat_index [] c = None"
| "seat_index (p # ps) c = (if seat_cursor p = c then Some 0 else map_option Suc (seat_index ps c))"

definition type_in :: "usize \<Rightarrow> 'a list \<Rightarrow> 'a editor \<Rightarrow> 'a editor" where
  "type_in i vs e = e\<lparr>ed_seats := (ed_seats e)[i := (ed_seats e ! i)\<lparr>seat_run := seat_run (ed_seats e ! i) @ vs\<rparr>]\<rparr>"

definition ed_stage :: "usize \<Rightarrow> 'a \<Rightarrow> 'a editor \<Rightarrow> (wredit_error + usize) \<times> 'a editor" where
  "ed_stage c v e =
     (case seat_index (ed_seats e) c of
        None \<Rightarrow> (Inl (InvalidCursor c), e)
      | Some i \<Rightarrow>
          let n = length (seat_run (ed_seats e ! i)); used = length (typed (ed_seats e)) in
          if n \<ge> seat_size (ed_seats e ! i) then (Inl (StagingFull n (seat_size (ed_seats e ! i))), e)
          else if used \<ge> ed_gap e then (Inl (StagingFull used (ed_gap e)), e)
          else (Inr (ed_pos e + length (typed (take i (ed_seats e))) + n), type_in i [v] e))"

definition ed_stage_slice :: "usize \<Rightarrow> 'a list \<Rightarrow> 'a editor \<Rightarrow> (wredit_error + usize) \<times> 'a editor" where
  "ed_stage_slice c vs e =
     (if vs = [] then (Inr 0, e)
      else case seat_index (ed_seats e) c of
        None \<Rightarrow> (Inl (InvalidCursor c), e)
      | Some i \<Rightarrow>
          let n = length (seat_run (ed_seats e ! i)); used = length (typed (ed_seats e)) in
          if n + length vs > seat_size (ed_seats e ! i) then (Inl (StagingFull n (seat_size (ed_seats e ! i))), e)
          else if used + length vs > ed_gap e then (Inl (StagingFull used (ed_gap e)), e)
          else (Inr (length vs), type_in i vs e))"

text \<open>
  Committing what the first \<open>k\<close> cursors typed: it joins the text, and the position moves behind it.
  When that uses the gap up, a new gap opens at the end of the text.
\<close>

definition ed_commit :: "usize \<Rightarrow> 'a editor \<Rightarrow> 'a editor" where
  "ed_commit k e =
     (let vs = typed (take k (ed_seats e)); text' = insert_at (ed_pos e) vs (ed_text e) in
      if vs = [] then e
      else e\<lparr>ed_text := text',
        ed_pos := (if length vs = ed_gap e \<and> length text' < ed_cap e then length text' else ed_pos e + length vs),
        ed_gap := (if length vs = ed_gap e \<and> length text' < ed_cap e then ed_cap e - length text' else ed_gap e - length vs),
        ed_seats := map (seat_run_update (\<lambda>_. [])) (take k (ed_seats e)) @ drop k (ed_seats e)\<rparr>)"

definition ed_flush_region :: "usize \<Rightarrow> 'a editor \<Rightarrow> (wredit_error + usize) \<times> 'a editor" where
  "ed_flush_region c e =
     (case seat_index (ed_seats e) c of
        None \<Rightarrow> (Inl (InvalidCursor c), e)
      | Some i \<Rightarrow> (Inr (length (typed (take (Suc i) (ed_seats e)))), ed_commit (Suc i) e))"

definition ed_flush_all :: "'a editor \<Rightarrow> usize \<times> 'a editor" where
  "ed_flush_all e = (length (typed (ed_seats e)), ed_commit (length (ed_seats e)) e)"

definition ed_move :: "usize \<Rightarrow> 'a editor \<Rightarrow> (wredit_error + unit) \<times> 'a editor" where
  "ed_move i e =
     (let e1 = snd (ed_flush_all e) in
      if i \<le> length (ed_text e1) then (Inr (), e1\<lparr>ed_pos := i\<rparr>)
      else (Inl (InvalidPosition i (length (ed_text e1))), e1))"

definition ed_delete :: "usize \<Rightarrow> usize \<Rightarrow> 'a editor \<Rightarrow> (wredit_error + usize) \<times> 'a editor" where
  "ed_delete a b e =
     (if b < a then (Inl (OutOfRange a b), e)
      else case ed_move a e of
        (Inl er, e1) \<Rightarrow> (Inl er, e1)
      | (Inr _, e1) \<Rightarrow>
          if length (ed_text e1) < b then (Inl (OutOfRange a b), e1)
          else (Inr (b - a), e1\<lparr>ed_text := remove_range a b (ed_text e1), ed_gap := ed_gap e1 + (b - a)\<rparr>))"

text \<open>
  When cursors join and leave, each gets an equal share of the staging area, or what it has typed if
  that is more. The last cursor takes the place of one that leaves, whose typing is dropped.
\<close>

definition fair_size :: "'a editor \<Rightarrow> 'a seat list \<Rightarrow> 'a seat \<Rightarrow> usize" where
  "fair_size e ps p = max (ed_area e div length ps) (length (seat_run p))"

definition reseat :: "'a seat list \<Rightarrow> 'a editor \<Rightarrow> 'a editor" where
  "reseat ps e = e\<lparr>ed_seats := map (\<lambda>p. p\<lparr>seat_size := fair_size e ps p\<rparr>) ps\<rparr>"

definition with_seat :: "usize \<Rightarrow> 'a editor \<Rightarrow> 'a seat list" where
  "with_seat c e = ed_seats e @ [\<lparr>seat_cursor = c, seat_size = 0, seat_run = []\<rparr>]"

definition without_seat :: "usize \<Rightarrow> 'a editor \<Rightarrow> 'a seat list" where
  "without_seat i e = butlast ((ed_seats e)[i := last (ed_seats e)])"

definition ed_join :: "usize \<Rightarrow> 'a editor \<Rightarrow> (wredit_error + unit) \<times> 'a editor" where
  "ed_join c e =
     (if length (ed_seats e) \<ge> ed_area e then (Inl (StagingFull (length (typed (ed_seats e))) (ed_area e)), e)
      else if c \<in> seat_cursor ` set (ed_seats e) then (Inl (InvalidOperation ''cursor already owns a staging region''), e)
      else (Inr (), reseat (with_seat c e) e))"

definition ed_leave :: "usize \<Rightarrow> 'a editor \<Rightarrow> bool \<times> 'a editor" where
  "ed_leave c e =
     (case seat_index (ed_seats e) c of
        None \<Rightarrow> (False, e)
      | Some i \<Rightarrow> (True, reseat (without_seat i e) e))"

section \<open>Commands\<close>

text \<open>The mutating calls of a client, one command each, with the result of the call.\<close>

datatype 'a gap_cmd =
    AddRegion usize
  | RemoveRegion usize
  | Stage usize 'a
  | StageSlice usize "'a list"
  | FlushRegion usize
  | FlushAll
  | MoveGap usize
  | DeleteRange usize usize

datatype gap_result = Done "wredit_error + unit" | Count "wredit_error + usize" | Total usize | Flag bool

fun gap_exec :: "'a gap_cmd \<Rightarrow> 'a staging_gap \<Rightarrow> (gap_result \<times> 'a staging_gap) option" where
  "gap_exec (AddRegion c) s = map_option (apfst Done) (add_region c s)"
| "gap_exec (RemoveRegion c) s = map_option (apfst Flag) (remove_region c s)"
| "gap_exec (Stage c v) s = map_option (apfst Count) (stage c v s)"
| "gap_exec (StageSlice c vs) s = map_option (apfst Count) (stage_slice c vs s)"
| "gap_exec (FlushRegion c) s = map_option (apfst Count) (flush_region c s)"
| "gap_exec FlushAll s = map_option (apfst Total) (flush_all s)"
| "gap_exec (MoveGap i) s = map_option (apfst Done) (move_gap_to i s)"
| "gap_exec (DeleteRange a b) s = map_option (apfst Count) (delete_range a b s)"

fun edit :: "'a gap_cmd \<Rightarrow> 'a editor \<Rightarrow> gap_result \<times> 'a editor" where
  "edit (AddRegion c) e = apfst Done (ed_join c e)"
| "edit (RemoveRegion c) e = apfst Flag (ed_leave c e)"
| "edit (Stage c v) e = apfst Count (ed_stage c v e)"
| "edit (StageSlice c vs) e = apfst Count (ed_stage_slice c vs e)"
| "edit (FlushRegion c) e = apfst Count (ed_flush_region c e)"
| "edit FlushAll e = apfst Total (ed_flush_all e)"
| "edit (MoveGap i) e = apfst Done (ed_move i e)"
| "edit (DeleteRange a b) e = apfst Count (ed_delete a b e)"

text \<open>
  Where the gap is known to follow the editor: a commit is empty, fills the gap, or leaves a gap as
  long as the rest of the text; the shares of the cursors fit the staging area. Staging is always
  safe.
\<close>

definition commit_safe :: "usize \<Rightarrow> 'a editor \<Rightarrow> bool" where
  "commit_safe k e \<longleftrightarrow>
     (let n = length (typed (take k (ed_seats e))) in
      n = 0 \<or> n = ed_gap e \<or> length (ed_text e) - ed_pos e + n \<le> ed_gap e)"

definition seats_fit :: "'a seat list \<Rightarrow> 'a editor \<Rightarrow> bool" where
  "seats_fit ps e \<longleftrightarrow> sum_list (map (fair_size e ps) ps) \<le> ed_area e"

fun edit_safe :: "'a gap_cmd \<Rightarrow> 'a editor \<Rightarrow> bool" where
  "edit_safe (AddRegion c) e \<longleftrightarrow>
     length (ed_seats e) \<ge> ed_area e \<or> c \<in> seat_cursor ` set (ed_seats e) \<or> seats_fit (with_seat c e) e"
| "edit_safe (RemoveRegion c) e \<longleftrightarrow>
     (case seat_index (ed_seats e) c of None \<Rightarrow> True | Some i \<Rightarrow> seats_fit (without_seat i e) e)"
| "edit_safe (FlushRegion c) e \<longleftrightarrow>
     (case seat_index (ed_seats e) c of None \<Rightarrow> True | Some i \<Rightarrow> commit_safe (Suc i) e)"
| "edit_safe FlushAll e \<longleftrightarrow> commit_safe (length (ed_seats e)) e"
| "edit_safe (MoveGap i) e \<longleftrightarrow> commit_safe (length (ed_seats e)) e"
| "edit_safe (DeleteRange a b) e \<longleftrightarrow> b < a \<or> commit_safe (length (ed_seats e)) e"
| "edit_safe (Stage c v) e \<longleftrightarrow> True"
| "edit_safe (StageSlice c vs) e \<longleftrightarrow> True"

section \<open>The editor a gap stands for\<close>

definition seat_of :: "'a list \<Rightarrow> staging_region \<Rightarrow> 'a seat" where
  "seat_of stg r = \<lparr>seat_cursor = cursor_id r, seat_size = reg_size r, seat_run = staged_run stg r\<rparr>"

definition editor_of :: "'a staging_gap \<Rightarrow> 'a editor" where
  "editor_of s = \<lparr>ed_text = committed s, ed_pos = gap_pos s, ed_gap = gap_len s, ed_cap = length (buf s),
     ed_area = length (staging s), ed_seats = map (seat_of (staging s)) (live s)\<rparr>"

lemma editor_of_simps [simp]:
  "ed_text (editor_of s) = committed s" "ed_pos (editor_of s) = gap_pos s" "ed_gap (editor_of s) = gap_len s"
  "ed_cap (editor_of s) = length (buf s)" "ed_area (editor_of s) = length (staging s)"
  "ed_seats (editor_of s) = map (seat_of (staging s)) (live s)"
  by (simp_all add: editor_of_def)

lemma seat_of_simps [simp]:
  "seat_cursor (seat_of stg r) = cursor_id r" "seat_size (seat_of stg r) = reg_size r"
  "seat_run (seat_of stg r) = staged_run stg r"
  by (simp_all add: seat_of_def)

lemma seat_run_of [simp]: "seat_run \<circ> seat_of stg = staged_run stg"
  by (simp add: fun_eq_iff)

lemma typed_seats [simp]: "typed (map (seat_of stg) rs) = runs_of stg rs"
  by (simp add: comp_def)

lemma ed_doc_editor_of [simp]: "ed_doc (editor_of s) = logical s"
  by (simp add: ed_doc_def logical_def staged_runs_def comp_def)

lemma seat_index_regions: "seat_index (map (seat_of stg) rs) c = index_of_cursor rs c"
  by (induction rs) auto

lemma seat_index_editor [simp]: "seat_index (map (seat_of (staging s)) (live s)) c = region_index s c"
  by (simp add: seat_index_regions region_index_def)

lemma seat_at:
  assumes "staging_inv s" "region_index s c = Some i"
  shows "map (seat_of (staging s)) (live s) ! i = seat_of (staging s) (regions s ! i)"
    "length (staged_run (staging s) (regions s ! i)) = reg_staged (regions s ! i)"
    "reg_staged (regions s ! i) \<le> reg_size (regions s ! i)"
proof -
  note R = region_indexD [OF assms]
  have ok: "region_ok (length (staging s)) (regions s ! i)"
    using staging_invD(6) [OF assms(1)] R by (metis layout_ok_region nth_mem)
  show "map (seat_of (staging s)) (live s) ! i = seat_of (staging s) (regions s ! i)" using R by simp
  show "length (staged_run (staging s) (regions s ! i)) = reg_staged (regions s ! i)"
    "reg_staged (regions s ! i) \<le> reg_size (regions s ! i)"
    using ok by (simp_all add: region_ok_def)
qed

lemma typed_used: "staging_inv s \<Longrightarrow> length (runs_of (staging s) (live s)) = staging_used s"
  using length_staged_runs by (simp add: staged_runs_def staging_used_eq)

section \<open>Staging\<close>

lemma seats_append:
  assumes ok: "layout_ok (length stg) rs" and i: "i < length rs"
    and fit: "reg_staged (rs ! i) + length vs \<le> reg_size (rs ! i)"
    and w: "mem_write stg (reg_start (rs ! i) + reg_staged (rs ! i)) vs = Some stg'"
  shows "map (seat_of stg') (rs[i := (rs ! i)\<lparr>reg_staged := reg_staged (rs ! i) + length vs\<rparr>])
       = (map (seat_of stg) rs)[i := (seat_of stg (rs ! i))\<lparr>seat_run := staged_run stg (rs ! i) @ vs\<rparr>]"
proof (rule nth_equalityI)
  fix j assume "j < length (map (seat_of stg') (rs[i := (rs ! i)\<lparr>reg_staged := reg_staged (rs ! i) + length vs\<rparr>]))"
  then have j: "j < length rs" by simp
  have all: "region_ok (length stg) (rs ! k)" if "k < length rs" for k
    using layout_ok_region [OF ok nth_mem [OF that]] .
  show "map (seat_of stg') (rs[i := (rs ! i)\<lparr>reg_staged := reg_staged (rs ! i) + length vs\<rparr>]) ! j
      = (map (seat_of stg) rs)[i := (seat_of stg (rs ! i))\<lparr>seat_run := staged_run stg (rs ! i) @ vs\<rparr>] ! j"
  proof (cases "j = i")
    case True
    have "staged_run stg' ((rs ! i)\<lparr>reg_staged := reg_staged (rs ! i) + length vs\<rparr>) = staged_run stg (rs ! i) @ vs"
      using w all [OF i] fit by (intro staged_run_extend) (auto simp: region_ok_def)
    with True i show ?thesis by (simp add: seat_of_def)
  next
    case False
    have "reg_start (rs ! i) + reg_size (rs ! i) \<le> reg_start (rs ! j) \<or> reg_start (rs ! j) + reg_size (rs ! j) \<le> reg_start (rs ! i)"
      using ok i j False by (auto simp: layout_ok_def sorted_wrt_iff_nth_less linorder_neq_iff)
    then have "staged_run stg' (rs ! j) = staged_run stg (rs ! j)"
      using all [OF i] all [OF j] fit by (intro staged_run_frame [OF w]) (auto simp: region_ok_def)
    with False j show ?thesis by (simp add: seat_of_def)
  qed
qed simp

text \<open>What both staging calls do once they are accepted.\<close>

lemma type_in_editor:
  assumes inv: "staging_inv s" and idx: "region_index s c = Some i"
    and fit: "reg_staged (regions s ! i) + length vs \<le> reg_size (regions s ! i)"
    and room: "staging_used s + length vs \<le> gap_len s"
  obtains stg where
    "mem_write (staging s) (reg_start (regions s ! i) + reg_staged (regions s ! i)) vs = Some stg"
    "\<And>s'. s' = s\<lparr>staging := stg, regions := (regions s)[i := (regions s ! i)
        \<lparr>reg_staged := reg_staged (regions s ! i) + length vs\<rparr>]\<rparr> \<Longrightarrow>
       staging_inv s' \<and> editor_of s' = type_in i vs (editor_of s) \<and>
       staged_before s' i = length (runs_of (staging s) (take i (live s)))"
proof -
  let ?r = "regions s ! i"
  let ?r' = "?r\<lparr>reg_staged := reg_staged ?r + length vs\<rparr>"
  note I = staging_invD [OF inv] and R = region_indexD [OF inv idx] and S = seat_at [OF inv idx]
  obtain stg where w: "mem_write (staging s) (reg_start ?r + reg_staged ?r) vs = Some stg"
    and ext: "\<And>s'. s' = s\<lparr>staging := stg, regions := (regions s)[i := ?r']\<rparr> \<Longrightarrow> staging_inv s' \<and> committed s' = committed s"
    using region_extend [OF inv idx fit room] by metis
  show ?thesis
  proof (rule that [OF w])
    fix s' assume s': "s' = s\<lparr>staging := stg, regions := (regions s)[i := ?r']\<rparr>"
    have inv': "staging_inv s'" and com: "committed s' = committed s" using ext [OF s'] by simp_all
    have lv: "live s' = (live s)[i := ?r']" using R(1) s' by (simp add: take_update_swap)
    have "map (seat_of stg) (live s')
        = (map (seat_of (staging s)) (live s))[i := (seat_of (staging s) ?r)\<lparr>seat_run := staged_run (staging s) ?r @ vs\<rparr>]"
      unfolding lv using seats_append [OF I(6) R(2), of vs stg] fit w R(3) by simp
    then have "editor_of s' = type_in i vs (editor_of s)"
      using com S(1) mem_write_length [OF w] by (simp add: type_in_def editor_of_def s')
    moreover have "staged_before s' i = length (runs_of (staging s) (take i (live s)))"
      using staged_before_eq [OF inv', of i] R(1) lv length_runs_of [OF layout_ok_take [OF I(6)], of i] by (simp add: s')
    ultimately show "staging_inv s' \<and> editor_of s' = type_in i vs (editor_of s) \<and>
        staged_before s' i = length (runs_of (staging s) (take i (live s)))" using inv' by blast
  qed
qed

lemma stage_edits:
  assumes inv: "staging_inv s"
  shows "\<exists>r s'. stage c v s = Some (r, s') \<and> staging_inv s' \<and> ed_stage c v (editor_of s) = (r, editor_of s')"
proof (cases "region_index s c")
  case None
  with inv show ?thesis by (simp add: stage_def ed_stage_def)
next
  case (Some i)
  let ?r = "regions s ! i"
  note S = seat_at [OF inv Some]
  show ?thesis
  proof (cases "reg_staged ?r < reg_size ?r \<and> staging_used s < gap_len s")
    case False
    with inv Some S show ?thesis
      by (auto simp: stage_def ed_stage_def region_is_full_def Let_def typed_used)
  next
    case True
    obtain stg where w: "mem_write (staging s) (reg_start ?r + reg_staged ?r) [v] = Some stg"
      and ext: "\<And>s'. s' = s\<lparr>staging := stg, regions := (regions s)[i := ?r\<lparr>reg_staged := reg_staged ?r + length [v]\<rparr>]\<rparr> \<Longrightarrow>
        staging_inv s' \<and> editor_of s' = type_in i [v] (editor_of s) \<and>
        staged_before s' i = length (runs_of (staging s) (take i (live s)))"
      by (rule type_in_editor [OF inv Some, of "[v]"]) (use True in auto)
    have slot: "reg_start ?r + reg_staged ?r < length (staging s)"
      using w by (auto simp: mem_write_def split: if_splits)
    then have stg: "stg = (staging s)[reg_start ?r + reg_staged ?r := v]"
      using w mem_write_single by fastforce
    let ?s' = "s\<lparr>staging := stg, regions := (regions s)[i := ?r\<lparr>reg_staged := reg_staged ?r + length [v]\<rparr>]\<rparr>"
    note e = ext [OF refl]
    have "stage c v s = Some (Inr (gap_pos s + length (runs_of (staging s) (take i (live s))) + reg_staged ?r), ?s')"
      using Some True slot e by (simp add: stage_def region_is_full_def Let_def stg)
    moreover have "ed_stage c v (editor_of s) = (Inr (gap_pos s + length (runs_of (staging s) (take i (live s))) + reg_staged ?r), editor_of ?s')"
      using Some True S e by (simp add: ed_stage_def Let_def typed_used [OF inv] take_map)
    ultimately show ?thesis using e by blast
  qed
qed

lemma stage_slice_edits:
  assumes inv: "staging_inv s"
  shows "\<exists>r s'. stage_slice c vs s = Some (r, s') \<and> staging_inv s' \<and> ed_stage_slice c vs (editor_of s) = (r, editor_of s')"
proof (cases "vs = [] \<or> region_index s c = None")
  case True
  with inv show ?thesis by (cases "vs = []") (simp_all add: stage_slice_def ed_stage_slice_def)
next
  case False
  then obtain i where idx: "region_index s c = Some i" and ne: "vs \<noteq> []" by auto
  let ?r = "regions s ! i"
  note S = seat_at [OF inv idx]
  have rem: "region_remaining ?r = Some (reg_size ?r - reg_staged ?r)" using S(3) by (simp add: region_remaining_def)
  have fit: "length vs > reg_size ?r - reg_staged ?r \<longleftrightarrow> reg_staged ?r + length vs > reg_size ?r" using S(3) by linarith
  have "gap_len s < usize_max" using staging_invD(4,5) [OF inv] isize_max_less by linarith
  then have room: "saturating_add (staging_used s) (length vs) > gap_len s \<longleftrightarrow> staging_used s + length vs > gap_len s"
    by (simp add: saturating_add_le_iff not_le [symmetric])
  have conc: "stage_slice c vs s = (if reg_staged ?r + length vs > reg_size ?r then Some (Inl (StagingFull (reg_staged ?r) (reg_size ?r)), s)
      else if staging_used s + length vs > gap_len s then Some (Inl (StagingFull (staging_used s) (gap_len s)), s)
      else do { stg \<leftarrow> mem_write (staging s) (reg_start ?r + reg_staged ?r) vs;
        Some (Inr (length vs), s\<lparr>staging := stg, regions := (regions s)[i := ?r\<lparr>reg_staged := reg_staged ?r + length vs\<rparr>]\<rparr>) })"
    using idx ne unfolding stage_slice_def Let_def by (simp add: rem fit room)
  have abs: "ed_stage_slice c vs (editor_of s) = (if reg_staged ?r + length vs > reg_size ?r then (Inl (StagingFull (reg_staged ?r) (reg_size ?r)), editor_of s)
      else if staging_used s + length vs > gap_len s then (Inl (StagingFull (staging_used s) (gap_len s)), editor_of s)
      else (Inr (length vs), type_in i vs (editor_of s)))"
    using idx ne S by (simp add: ed_stage_slice_def Let_def typed_used [OF inv])
  show ?thesis
  proof (cases "reg_staged ?r + length vs \<le> reg_size ?r \<and> staging_used s + length vs \<le> gap_len s")
    case False
    then show ?thesis unfolding conc abs using inv by auto
  next
    case True
    then have fits: "reg_staged ?r + length vs \<le> reg_size ?r" "staging_used s + length vs \<le> gap_len s" by simp_all
    obtain stg where w: "mem_write (staging s) (reg_start ?r + reg_staged ?r) vs = Some stg"
      and ext: "\<And>s'. s' = s\<lparr>staging := stg, regions := (regions s)[i := ?r\<lparr>reg_staged := reg_staged ?r + length vs\<rparr>]\<rparr> \<Longrightarrow>
        staging_inv s' \<and> editor_of s' = type_in i vs (editor_of s) \<and>
        staged_before s' i = length (runs_of (staging s) (take i (live s)))"
      by (rule type_in_editor [OF inv idx fits]) blast
    show ?thesis unfolding conc abs using fits w ext [OF refl] by simp
  qed
qed

section \<open>Commits\<close>

lemma commit_safe_editor:
  assumes "staging_inv s"
  shows "commit_safe k (editor_of s) \<longleftrightarrow> commit_fits k s"
  using length_runs_of [OF layout_ok_take [OF staging_invD(6) [OF assms]], of k]
  by (simp add: commit_safe_def commit_fits_def Let_def length_committed [OF assms] take_map del: take_take)

lemma seats_unstage:
  "map (seat_of stg) (map unstage rs @ rs')
   = map (seat_run_update (\<lambda>_. [])) (map (seat_of stg) rs) @ map (seat_of stg) rs'"
  by (simp add: seat_of_def)

lemma commit_edits:
  assumes inv: "staging_inv s" and n: "n < region_count s" and fits: "commit_fits (Suc n) s"
  shows "\<exists>s'. commit_up_to n s = Some (length (runs_of (staging s) (take (Suc n) (live s))), s') \<and> staging_inv s' \<and>
    editor_of s' = ed_commit (Suc n) (editor_of s)"
proof -
  let ?pre = "take (Suc n) (live s)" and ?post = "drop (Suc n) (live s)"
  define vs where "vs = runs_of (staging s) ?pre"
  note fold = vs_def [symmetric]
  have typed: "typed (take (Suc n) (ed_seats (editor_of s))) = vs" unfolding vs_def by (simp add: take_map)
  obtain s' where c: "commit_up_to n s = Some (length vs, s')" "staging_inv s'"
    "live s' = map unstage ?pre @ ?post" "staging s' = staging s" "length (buf s') = length (buf s)"
    "committed s' = insert_at (gap_pos s) vs (committed s)"
    using commit_up_to_eq [OF inv n, unfolded fold] fits by metis
  show ?thesis
  proof (cases "vs = []")
    case True
    have lay: "layout_ok (length (staging s)) ?pre" using staging_invD(6) [OF inv] by (rule layout_ok_take)
    have "take (Suc n) (regions s) = ?pre" using n by (simp add: min_absorb2)
    then have "gather_staged (staging s) (take (Suc n) (regions s)) [] = Some vs"
      unfolding vs_def using gather_staged_layout [OF lay] by (simp only:)
    then have "commit_up_to n s = Some (length vs, s)" by (simp add: commit_up_to_def True)
    with c(1,2) True typed show ?thesis unfolding fold by (simp add: ed_commit_def)
  next
    case False
    from inv obtain pre gap post rest where b: "buf s = pre @ gap @ post @ rest"
      "length pre = gap_pos s" "length gap = gap_len s" "gap_pos s + length post = committed_len s" by (rule staging_buf_cases)
    note state = commit_up_to_state [OF inv n b, unfolded fold, OF False]
    have pos: "gap_pos s' = (if gap_len s = length vs \<and> committed_len s + length vs < length (buf s)
          then committed_len s + length vs else gap_pos s + length vs)"
      "gap_len s' = (if gap_len s = length vs \<and> committed_len s + length vs < length (buf s)
          then length (buf s) - (committed_len s + length vs) else gap_len s - length vs)"
      using state(1) c(1) by auto
    have seats: "map (seat_of (staging s)) (live s')
        = map (seat_run_update (\<lambda>_. [])) (take (Suc n) (ed_seats (editor_of s))) @ drop (Suc n) (ed_seats (editor_of s))"
      unfolding c(3) seats_unstage by (simp add: take_map drop_map)
    have "length (insert_at (gap_pos s) vs (committed s)) = committed_len s + length vs"
      using length_committed [OF inv] by (simp add: insert_at_def)
    then have "editor_of s' = ed_commit (Suc n) (editor_of s)"
      unfolding ed_commit_def Let_def typed using False c(4-6) pos seats [unfolded c(3)]
      by (auto simp: editor_of_def c(3))
    with c(1,2) show ?thesis unfolding fold by blast
  qed
qed

lemma flush_region_edits:
  assumes inv: "staging_inv s" and safe: "edit_safe (FlushRegion c) (editor_of s)"
  shows "\<exists>r s'. flush_region c s = Some (r, s') \<and> staging_inv s' \<and> ed_flush_region c (editor_of s) = (r, editor_of s')"
proof (cases "region_index s c")
  case None
  with inv show ?thesis by (simp add: flush_region_def ed_flush_region_def)
next
  case (Some i)
  then have "commit_fits (Suc i) s" using safe commit_safe_editor [OF inv] by simp
  from commit_edits [OF inv region_indexD(1) [OF inv Some] this] Some show ?thesis
    by (auto simp: flush_region_def ed_flush_region_def take_map)
qed

lemma flush_all_edits:
  assumes inv: "staging_inv s" and safe: "edit_safe FlushAll (editor_of s)"
  shows "\<exists>s'. flush_all s = Some (length (staged_runs s), s') \<and> staging_inv s' \<and>
    ed_flush_all (editor_of s) = (length (staged_runs s), editor_of s')"
proof (cases "region_count s = 0")
  case True
  with inv show ?thesis by (simp add: flush_all_def ed_flush_all_def ed_commit_def staged_runs_def)
next
  case False
  let ?n = "region_count s - 1"
  have n: "?n < region_count s" "Suc ?n = region_count s" using False by simp_all
  have len: "length (live s) = region_count s" using staging_invD(1,2) [OF inv] by simp
  have fits: "commit_fits (Suc ?n) s" using safe commit_safe_editor [OF inv, of "Suc ?n"] n(2) len by simp
  from commit_edits [OF inv n(1) fits] obtain s' where
    "commit_up_to ?n s = Some (length (staged_runs s), s')" "staging_inv s'"
    "editor_of s' = ed_commit (region_count s) (editor_of s)" unfolding n(2) by (auto simp: staged_runs_def)
  with False len show ?thesis by (auto simp: flush_all_def ed_flush_all_def staged_runs_def)
qed

section \<open>Moving and deleting\<close>

lemma move_gap_edits:
  assumes inv: "staging_inv s" and safe: "edit_safe FlushAll (editor_of s)"
  shows "\<exists>r s'. move_gap_to i s = Some (r, s') \<and> staging_inv s' \<and> ed_move i (editor_of s) = (r, editor_of s') \<and>
    (r = Inr () \<longrightarrow> gap_pos s' = i)"
proof -
  from flush_all_edits [OF assms] obtain s1 where f: "flush_all s = Some (length (staged_runs s), s1)" "staging_inv s1"
    "ed_flush_all (editor_of s) = (length (staged_runs s), editor_of s1)" by blast
  have len: "length (committed s1) = committed_len s1" by (rule length_committed [OF f(2)])
  show ?thesis
  proof (cases "i \<le> committed_len s1")
    case False
    with f len show ?thesis by (simp add: move_gap_to_def ed_move_def Let_def)
  next
    case True
    obtain s2 where m: "move_gap_to_impl i s1 = Some s2" "staging_inv s2" "gap_pos s2 = i"
      "committed s2 = committed s1" "gap_len s2 = gap_len s1" "live s2 = live s1"
      "staging s2 = staging s1" "length (buf s2) = length (buf s1)"
      using move_gap_to_impl_eq [OF f(2) True] by metis
    have "editor_of s2 = (editor_of s1)\<lparr>ed_pos := i\<rparr>" using m by (simp add: editor_of_def)
    with True f len m(1-3) show ?thesis by (simp add: move_gap_to_def ed_move_def Let_def)
  qed
qed

lemma delete_range_edits:
  assumes inv: "staging_inv s" and safe: "edit_safe (DeleteRange a b) (editor_of s)"
  shows "\<exists>r s'. delete_range a b s = Some (r, s') \<and> staging_inv s' \<and> ed_delete a b (editor_of s) = (r, editor_of s')"
proof (cases "b < a")
  case True
  with inv show ?thesis by (simp add: delete_range_def ed_delete_def)
next
  case False
  then have "edit_safe FlushAll (editor_of s)" using safe by simp
  from move_gap_edits [OF inv this] obtain r s1 where m: "move_gap_to a s = Some (r, s1)" "staging_inv s1"
    "ed_move a (editor_of s) = (r, editor_of s1)" "r = Inr () \<longrightarrow> gap_pos s1 = a" by blast
  have len: "length (committed s1) = committed_len s1" by (rule length_committed [OF m(2)])
  show ?thesis
  proof (cases "r = Inr () \<and> b \<le> committed_len s1")
    case no: False
    with False m len show ?thesis by (cases r) (auto simp: delete_range_def ed_delete_def)
  next
    case True
    then have pos: "gap_pos s1 = a" using m(4) by simp
    let ?s' = "s1\<lparr>committed_len := committed_len s1 - (b - a), gap_len := gap_len s1 + (b - a)\<rparr>"
    have del: "delete_range a b s = Some (Inr (b - a), ?s')"
      using False True m(1) by (auto simp: delete_range_def Let_def)
    have inv': "staging_inv ?s'" using m(2) pos True False by (auto simp: staging_inv_def)
    from m(2) obtain pre gap post rest where d: "buf s1 = pre @ gap @ post @ rest"
      "length pre = gap_pos s1" "length gap = gap_len s1" "gap_pos s1 + length post = committed_len s1"
      "committed s1 = pre @ post" by (rule staging_buf_cases)
    have "committed ?s' = pre @ drop (b - a) post"
      using d pos False True by (intro committed_eqI [where gap = "gap @ take (b - a) post" and rest = rest]) auto
    then have "committed ?s' = remove_range a b (committed s1)" using d(2,5) pos False by (simp add: remove_range_def)
    then have "editor_of ?s' = (editor_of s1)\<lparr>ed_text := remove_range a b (committed s1), ed_gap := gap_len s1 + (b - a)\<rparr>"
      by (simp add: editor_of_def)
    with True False m(3) len have "ed_delete a b (editor_of s) = (Inr (b - a), editor_of ?s')" by (simp add: ed_delete_def)
    with del inv' show ?thesis by blast
  qed
qed

section \<open>Joining and leaving\<close>

lemma place_sizes: "map reg_size (place share at rs) = map (\<lambda>r. max share (reg_staged r)) rs"
  by (induction rs arbitrary: at) auto

lemma seats_place:
  assumes "map (staged_run stg') (place share at rs) = map (staged_run stg) rs"
    and "list_all (region_ok (length stg)) rs"
  shows "map (seat_of stg') (place share at rs)
    = map (\<lambda>p. p\<lparr>seat_size := max share (length (seat_run p))\<rparr>) (map (seat_of stg) rs)"
proof (rule nth_equalityI)
  fix i assume "i < length (map (seat_of stg') (place share at rs))"
  then have i: "i < length rs" by simp
  have "map f (place share at rs) ! i = f (place share at rs ! i)" for f :: "staging_region \<Rightarrow> 'b" using i by simp
  then have "cursor_id (place share at rs ! i) = cursor_id (rs ! i)" "reg_size (place share at rs ! i) = max share (reg_staged (rs ! i))"
    using place_simps(2) [of share at rs] place_sizes [of share at rs] i by (metis length_map nth_map place_simps(1))+
  moreover have "staged_run stg' (place share at rs ! i) = staged_run stg (rs ! i)"
    using arg_cong [OF assms(1), of "\<lambda>xs. xs ! i"] i by simp
  moreover have "length (staged_run stg (rs ! i)) = reg_staged (rs ! i)" using assms(2) i by (simp add: list_all_length)
  ultimately show "map (seat_of stg') (place share at rs) ! i
      = map (\<lambda>p. p\<lparr>seat_size := max share (length (seat_run p))\<rparr>) (map (seat_of stg) rs) ! i"
    using i by (simp add: seat_of_def)
qed simp

lemma reseat_editor:
  assumes "map (seat_of (staging s)) rs = ps" "list_all (region_ok (length (staging s))) rs"
    "live s' = place (length (staging s) div length rs) 0 rs"
    "map (staged_run (staging s')) (live s') = map (staged_run (staging s)) rs"
    "same_frame s s'" "committed s' = committed s"
  shows "editor_of s' = reseat ps (editor_of s)"
proof -
  have "length ps = length rs" using assms(1) by auto
  moreover have "map (seat_of (staging s')) (live s')
      = map (\<lambda>p. p\<lparr>seat_size := max (length (staging s) div length rs) (length (seat_run p))\<rparr>) ps"
    unfolding assms(3) using seats_place [OF assms(4) [unfolded assms(3)] assms(2)] assms(1) by (simp only:)
  ultimately show ?thesis
    using assms(5,6) by (simp add: reseat_def fair_size_def editor_of_def same_frame_def)
qed

lemma seats_fit_regions:
  assumes "map (seat_of (staging s)) rs = ps" "list_all (region_ok (length (staging s))) rs"
  shows "seats_fit ps (editor_of s) \<longleftrightarrow> room_for (length (staging s) div length rs) rs \<le> length (staging s)"
proof -
  have "length ps = length rs" using assms(1) by auto
  moreover have "(\<Sum>r\<leftarrow>rs. max k (length (staged_run (staging s) r))) = (\<Sum>r\<leftarrow>rs. max k (reg_staged r))" for k
    using assms(2) by (intro arg_cong [where f = sum_list] map_cong) (auto simp: list_all_iff)
  ultimately show ?thesis
    unfolding assms(1) [symmetric] by (simp add: seats_fit_def room_for_def fair_size_def comp_def)
qed

lemma live_ok: "staging_inv s \<Longrightarrow> list_all (region_ok (length (staging s))) (live s)"
  using staging_invD(6) [of s] by (simp add: layout_ok_def)

lemma add_region_edits:
  assumes inv: "staging_inv s" and safe: "edit_safe (AddRegion c) (editor_of s)"
  shows "\<exists>r s'. add_region c s = Some (r, s') \<and> staging_inv s' \<and> ed_join c (editor_of s) = (r, editor_of s')"
proof -
  have len: "length (live s) = region_count s" using staging_invD(1,2) [OF inv] by simp
  show ?thesis
  proof (cases "region_count s < length (staging s) \<and> c \<notin> cursor_id ` set (live s)")
    case False
    with inv len show ?thesis
      by (auto simp: add_region_def ed_join_def image_iff typed_used)
  next
    case True
    let ?rs = "live s @ [region_new c 0 0]"
    have seats: "map (seat_of (staging s)) ?rs = with_seat c (editor_of s)"
      by (simp add: with_seat_def seat_of_def region_new_def staged_run_def)
    have ok: "list_all (region_ok (length (staging s))) ?rs" using live_ok [OF inv] by (simp add: region_ok_def region_new_def)
    have lrs: "length ?rs = region_count s + 1" using len by simp
    have "seats_fit (with_seat c (editor_of s)) (editor_of s)" using safe True len by (auto simp: image_image)
    then have "room_for (length (staging s) div (region_count s + 1)) ?rs \<le> length (staging s)"
      using seats_fit_regions [OF seats ok] unfolding lrs by simp
    then have room: "room_for (length (staging s) div (region_count s + 1)) (live s) + length (staging s) div (region_count s + 1) \<le> length (staging s)"
      by (simp add: room_for_def region_new_def)
    obtain s' where a: "add_region c s = Some (Inr (), s')" "staging_inv s'" "committed s' = committed s"
      "live s' = place (length (staging s) div length ?rs) 0 ?rs"
      "map (staged_run (staging s')) (live s') = map (staged_run (staging s)) ?rs" "same_frame s s'"
      using add_region_eq [OF inv conjunct1 [OF True] conjunct2 [OF True] room] unfolding lrs by metis
    note e = reseat_editor [OF seats ok a(4-6,3)]
    have "ed_join c (editor_of s) = (Inr (), editor_of s')" unfolding e using True len by (auto simp: ed_join_def)
    with a(1,2) show ?thesis by blast
  qed
qed

lemma remove_seats:
  assumes "i < n" "n \<le> length xs"
  shows "map f (take (n - 1) (xs[i := xs ! (n - 1)])) = butlast ((map f (take n xs))[i := last (map f (take n xs))])"
proof -
  have "last (take n xs) = xs ! (n - 1)" using assms by (subst last_conv_nth) auto
  then have "last (map f (take n xs)) = f (xs ! (n - 1))" using assms by (subst last_map) auto
  moreover have "butlast ((map f (take n xs))[i := y]) = take (n - 1) ((map f (take n xs))[i := y])" for y
    using assms by (simp add: butlast_conv_take min_absorb2)
  moreover have "take (n - 1) ((map f (take n xs))[i := y]) = take (n - 1) ((map f xs)[i := y])" for y
    by (simp add: take_map [symmetric] take_update_swap)
  ultimately show ?thesis by (simp add: map_update flip: take_map)
qed

lemma remove_region_edits:
  assumes inv: "staging_inv s" and safe: "edit_safe (RemoveRegion c) (editor_of s)"
  shows "\<exists>r s'. remove_region c s = Some (r, s') \<and> staging_inv s' \<and> ed_leave c (editor_of s) = (r, editor_of s')"
proof (cases "region_index s c")
  case None
  with inv show ?thesis by (intro exI [of _ False] exI [of _ s]) (simp add: remove_region_def ed_leave_def)
next
  case (Some i)
  note I = staging_invD [OF inv] and R = region_indexD [OF inv Some]
  let ?n = "region_count s"
  let ?rs = "take (?n - 1) ((regions s)[i := regions s ! (?n - 1)])"
  have n: "?n \<le> length (regions s)" using I by simp
  have seats: "map (seat_of (staging s)) ?rs = without_seat i (editor_of s)"
    using remove_seats [OF R(1) n, of "seat_of (staging s)"] by (simp add: without_seat_def)
  have "set ?rs \<subseteq> set (live s)" using remove_slot(1) [OF R(1) n] by blast
  then have ok: "list_all (region_ok (length (staging s))) ?rs" using live_ok [OF inv] by (auto simp: list_all_iff)
  have lrs: "length ?rs = ?n - 1" using n by simp
  have leave: "ed_leave c (editor_of s) = (True, reseat (without_seat i (editor_of s)) (editor_of s))"
    using Some by (simp add: ed_leave_def)
  show ?thesis
  proof (cases "?n = 1")
    case True
    then have i: "i = 0" using R(1) by simp
    let ?s' = "s\<lparr>regions := (regions s)[i := regions s ! 0, 0 := region_new 0 0 0], region_count := 0\<rparr>"
    have "remove_region c s = Some (True, ?s')"
      using True Some by (simp add: remove_region_def rebalance_def Let_def)
    moreover have "staging_inv ?s'" using I by (simp add: staging_inv_def layout_ok_def)
    moreover have "editor_of ?s' = reseat (without_seat i (editor_of s)) (editor_of s)"
      unfolding seats [symmetric] using True by (simp add: reseat_def editor_of_def committed_def)
    ultimately show ?thesis unfolding leave by auto
  next
    case False
    then have two: "1 < ?n" using R(1) by simp
    have room: "room_for (length (staging s) div (?n - 1)) ?rs \<le> length (staging s)"
      using safe Some seats_fit_regions [OF seats ok] unfolding lrs by simp
    obtain s' where r: "remove_region c s = Some (True, s')" "staging_inv s'" "committed s' = committed s"
      "live s' = place (length (staging s) div length ?rs) 0 ?rs"
      "map (staged_run (staging s')) (live s') = map (staged_run (staging s)) ?rs" "same_frame s s'"
      using remove_region_eq [OF inv Some two room] unfolding lrs by metis
    note e = reseat_editor [OF seats ok r(4-6,3)]
    show ?thesis unfolding leave e [symmetric] using r(1,2) by auto
  qed
qed

section \<open>The refinement\<close>

lemma gap_step_ok:
  assumes inv: "staging_inv s" and safe: "edit_safe c (editor_of s)"
  shows "\<exists>r s'. gap_exec c s = Some (r, s') \<and> staging_inv s' \<and> edit c (editor_of s) = (r, editor_of s')"
proof (cases c)
  case (AddRegion k)
  with add_region_edits [OF inv, of k] safe show ?thesis by auto
next
  case (RemoveRegion k)
  with remove_region_edits [OF inv, of k] safe show ?thesis by auto
next
  case (Stage k v)
  with stage_edits [OF inv, of k v] show ?thesis by auto
next
  case (StageSlice k vs)
  with stage_slice_edits [OF inv, of k vs] show ?thesis by auto
next
  case (FlushRegion k)
  with flush_region_edits [OF inv, of k] safe show ?thesis by auto
next
  case FlushAll
  with flush_all_edits [OF inv] safe show ?thesis by auto
next
  case (MoveGap i)
  with move_gap_edits [OF inv, of i] safe show ?thesis by auto
next
  case (DeleteRange a b)
  with delete_range_edits [OF inv, of a b] safe show ?thesis by auto
qed

interpretation gap: refined_machine staging_inv gap_exec editor_of edit_safe edit
  by unfold_locales (rule gap_step_ok)

end
