(* ===== verification/Staging_Gap_Props.thy ===== *)
theory Staging_Gap_Props
  imports Staging_Editor
begin

text \<open>
  What the staging gap promises its clients, stated on the operations of \<open>Staging_Gap\<close>: the
  effect of each call on the document \<^const>\<open>logical\<close>, on every branch, and the refinement of
  whole command sequences by the editor of \<open>Staging_Editor\<close>. The last section holds two runs on which
  the code leaves that contract.
\<close>

section \<open>A concrete gap\<close>

text \<open>
  The document \<open>[1, 10, 2, 3]\<close>: committed \<open>[1, 2, 3]\<close> with the gap after the first element,
  cursors 7 and 9 with two staging slots each, and 10 staged by cursor 7.
\<close>

definition demo_gap :: "nat staging_gap" where
  "demo_gap =
     \<lparr>buf = [1, 0, 0, 0, 0, 2, 3, 0], committed_len = 3, gap_pos = 1, gap_len = 4,
      staging = [10, 0, 0, 0],
      regions = [\<lparr>cursor_id = 7, reg_start = 0, reg_size = 2, reg_staged = 1\<rparr>,
                 \<lparr>cursor_id = 9, reg_start = 2, reg_size = 2, reg_staged = 0\<rparr>,
                 \<lparr>cursor_id = 0, reg_start = 0, reg_size = 0, reg_staged = 0\<rparr>,
                 \<lparr>cursor_id = 0, reg_start = 0, reg_size = 0, reg_staged = 0\<rparr>],
      region_count = 2\<rparr>"

lemma demo_gap_inv: "staging_inv demo_gap"
  by (simp add: demo_gap_def staging_inv_def layout_ok_def region_ok_def isize_max_def)

lemma demo_gap_logical: "logical demo_gap = [1, 10, 2, 3]"
  by (simp add: demo_gap_def logical_def staged_runs_def staged_run_def committed_def insert_at_def)

text \<open>A session: open a document, then run commands on it.\<close>

definition gap_session ::
    "'a \<Rightarrow> usize \<Rightarrow> usize \<Rightarrow> 'a list \<Rightarrow> 'a gap_cmd list \<Rightarrow> 'a staging_gap option" where
  "gap_session d commit_cap gap_size xs cs =
     (case try_from_slice d commit_cap gap_size xs of
        Inl _ \<Rightarrow> None | Inr s \<Rightarrow> map_option snd (run_cmds gap_exec cs s))"

lemmas gap_eval = gap_session_def try_from_slice_def add_region_def rebalance_def stage_def
  stage_slice_def flush_all_def commit_up_to_def move_gap_to_def move_gap_to_impl_def delete_range_def
  region_new_def region_index_def region_is_full_def region_remaining_def staging_used_def
  staged_before_def saturating_sum_def saturating_add_def usize_max_def
  mem_read_def mem_write_def mem_move_def Let_def logical_def staged_runs_def staged_run_def
  committed_def insert_at_def eval_simps

section \<open>Construction and reading\<close>

lemma try_from_slice_correct:
  assumes "commit_cap \<le> isize_max"
  shows "if length xs + gap_size \<le> commit_cap
    then \<exists>s. try_from_slice d commit_cap gap_size xs = Inr s \<and> staging_inv s \<and> logical s = xs
           \<and> gap_len s = gap_size \<and> length (buf s) = commit_cap
    else \<exists>e. try_from_slice d commit_cap gap_size xs = Inl e"
proof (cases "length xs + gap_size \<le> commit_cap")
  case True
  moreover have "commit_cap < usize_max" using assms isize_max_less by linarith
  ultimately have fit: "\<not> saturating_add (length xs) gap_size > commit_cap"
    by (simp add: saturating_add_le_iff not_less)
  from fit True assms show ?thesis
    by (simp add: try_from_slice_def staging_inv_def layout_ok_def logical_def staged_runs_def
        committed_def Let_def)
next
  case False
  moreover have "commit_cap < usize_max" using assms isize_max_less by linarith
  ultimately have "saturating_add (length xs) gap_size > commit_cap"
    by (simp add: saturating_add_le_iff not_le [symmetric])
  with False show ?thesis by (simp add: try_from_slice_def)
qed

lemma staging_get_reads_document:
  assumes "staging_inv s"
  shows "staging_get s i = (if i < staging_len s then Some (logical s ! i) else None)"
  using staging_get_eq [OF assms, of i] length_logical [OF assms] by simp

lemma staging_get_reads_document_witness:
  "staging_get demo_gap 1 = Some 10 \<and> staging_get demo_gap 3 = Some 3 \<and> staging_get demo_gap 4 = None"
  using staging_get_reads_document [OF demo_gap_inv, of 1]
    staging_get_reads_document [OF demo_gap_inv, of 3]
    staging_get_reads_document [OF demo_gap_inv, of 4]
    length_logical [OF demo_gap_inv, symmetric]
  by (simp add: demo_gap_logical)

lemma for_each_logical_visits_document:
  assumes "staging_inv s"
  shows "\<exists>chunks. for_each_logical s = Some chunks \<and> concat chunks = logical s"
  using for_each_logical_eq [OF assms] by blast

section \<open>Staging\<close>

text \<open>
  C18: StagingGap::stage returns the exact error of each rejected branch and leaves the gap
  unchanged there; otherwise it inserts the value into the document at the index it returns,
  where get then reads it.
\<close>

lemma stage_correct:
  assumes inv: "staging_inv s"
  shows "\<exists>res s'. stage c v s = Some (res, s') \<and> staging_inv s' \<and>
    (case region_index s c of
       None \<Rightarrow> res = Inl (InvalidCursor c) \<and> s' = s
     | Some i \<Rightarrow>
         if reg_size (regions s ! i) \<le> reg_staged (regions s ! i)
         then res = Inl (StagingFull (reg_staged (regions s ! i)) (reg_size (regions s ! i))) \<and> s' = s
         else if gap_len s \<le> staging_used s
         then res = Inl (StagingFull (staging_used s) (gap_len s)) \<and> s' = s
         else \<exists>at. res = Inr at \<and> logical s' = insert_at at [v] (logical s)
                \<and> staging_get s' at = Some v \<and> committed s' = committed s)"
proof (rule stage_cases [OF inv, of c v])
  fix i at s'
  assume st: "region_index s c = Some i" "reg_staged (regions s ! i) < reg_size (regions s ! i)"
    "staging_used s < gap_len s" "stage c v s = Some (Inr at, s')" "staging_inv s'"
    "committed s' = committed s" "logical s' = insert_at at [v] (logical s)" "at < length (logical s')"
  have "logical s' ! at = v" using st(7,8) by (simp add: insert_at_def nth_append)
  then have "staging_get s' at = Some v" using staging_get_eq [OF st(5), of at] st(8) by simp
  with st show ?thesis by (simp add: not_le [symmetric])
qed (use inv in auto)

lemma stage_correct_witness:
  "region_index demo_gap 7 = Some 0 \<and>
   (\<exists>at s'. stage 7 20 demo_gap = Some (Inr at, s') \<and> logical s' = insert_at at [20] [1, 10, 2, 3]
      \<and> staging_get s' at = Some 20)"
proof -
  have r: "region_index demo_gap 7 = Some 0" "staging_used demo_gap = 1"
    "regions demo_gap ! 0 = \<lparr>cursor_id = 7, reg_start = 0, reg_size = 2, reg_staged = 1\<rparr>"
    "gap_len demo_gap = 4"
    by (simp_all add: region_index_def staging_used_def saturating_sum_def usize_max_def
        saturating_add_def demo_gap_def)
  show ?thesis using stage_correct [OF demo_gap_inv, of 7 20] r by (auto simp: demo_gap_logical)
qed

lemma stage_slice_atomic:
  assumes inv: "staging_inv s" and vs: "vs \<noteq> []"
  shows "\<exists>res s'. stage_slice c vs s = Some (res, s') \<and> staging_inv s' \<and>
    (if \<exists>i. region_index s c = Some i \<and>
           reg_staged (regions s ! i) + length vs \<le> reg_size (regions s ! i) \<and>
           staging_used s + length vs \<le> gap_len s
     then res = Inr (length vs) \<and> committed s' = committed s \<and>
          (\<exists>at \<le> length (logical s). logical s' = insert_at at vs (logical s))
     else (\<exists>e. res = Inl e) \<and> s' = s)"
proof (rule stage_slice_cases [OF inv, of vs c])
  fix e assume rej: "stage_slice c vs s = Some (Inl e, s)"
  have gap: "gap_len s < usize_max"
    using staging_invD(4,5) [OF inv] isize_max_less by linarith
  have "\<not> (\<exists>i. region_index s c = Some i \<and>
           reg_staged (regions s ! i) + length vs \<le> reg_size (regions s ! i) \<and>
           staging_used s + length vs \<le> gap_len s)"
  proof
    assume "\<exists>i. region_index s c = Some i \<and>
           reg_staged (regions s ! i) + length vs \<le> reg_size (regions s ! i) \<and>
           staging_used s + length vs \<le> gap_len s"
    with rej vs gap show False
      by (auto simp: stage_slice_def region_remaining_def Let_def bind_eq_Some_conv
          saturating_add_le_iff [OF gap] not_less [symmetric] split: if_splits option.splits)
  qed
  with rej inv show ?thesis by simp
qed (use inv vs in auto)

lemma stage_slice_atomic_witness:
  "(\<exists>s'. stage_slice 9 [20, 21] demo_gap = Some (Inr 2, s') \<and> staging_inv s') \<and>
   (\<exists>e. stage_slice 7 [20, 21] demo_gap = Some (Inl e, demo_gap))"
proof -
  have r: "region_index demo_gap 9 = Some 1" "region_index demo_gap 7 = Some 0"
    "staging_used demo_gap = 1" "gap_len demo_gap = 4"
    "regions demo_gap ! 0 = \<lparr>cursor_id = 7, reg_start = 0, reg_size = 2, reg_staged = 1\<rparr>"
    "regions demo_gap ! 1 = \<lparr>cursor_id = 9, reg_start = 2, reg_size = 2, reg_staged = 0\<rparr>"
    by (simp_all add: region_index_def staging_used_def saturating_sum_def usize_max_def
        saturating_add_def demo_gap_def)
  show ?thesis
    using stage_slice_atomic [OF demo_gap_inv, of "[20, 21]" 9]
      stage_slice_atomic [OF demo_gap_inv, of "[20, 21]" 7] r by auto
qed

section \<open>Commits\<close>

text \<open>
  C25: When the commit fits, flush_all moves every staged run into the committed sequence,
  returns how many elements it moved and leaves the document unchanged.
\<close>

lemma flush_all_keeps_document:
  assumes inv: "staging_inv s" and fits: "commit_fits (region_count s) s"
  shows "\<exists>s'. flush_all s = Some (length (staged_runs s), s') \<and> staging_inv s' \<and>
    committed s' = logical s \<and> logical s' = logical s \<and> staging_used s' = 0"
proof -
  obtain s' where s': "flush_all s = Some (length (staged_runs s), s')" "staging_inv s'"
    "staged_runs s' = []" "sum_list (map reg_staged (live s')) = 0"
    "commit_fits (region_count s) s \<longrightarrow> committed s' = logical s"
    by (rule flush_all_eq [OF inv]) blast
  have "staging_used s' = 0" using staging_used_eq [OF s'(2)] s'(4) by simp
  with s' fits show ?thesis by (simp add: logical_no_staged)
qed

lemma flush_all_keeps_document_witness:
  "\<exists>s'. flush_all demo_gap = Some (1, s') \<and> committed s' = [1, 10, 2, 3]"
proof -
  have "commit_fits (region_count demo_gap) demo_gap"
    by (simp add: commit_fits_def demo_gap_def)
  moreover have "length (staged_runs demo_gap) = 1"
    by (simp add: staged_runs_def staged_run_def demo_gap_def)
  ultimately show ?thesis
    using flush_all_keeps_document [OF demo_gap_inv] by (auto simp: demo_gap_logical)
qed

lemma flush_region_keeps_document:
  assumes inv: "staging_inv s" and idx: "region_index s c = Some i" and fits: "commit_fits (Suc i) s"
  shows "\<exists>s'. flush_region c s = Some (Inr (sum_list (map reg_staged (take (Suc i) (live s)))), s') \<and>
    staging_inv s' \<and> logical s' = logical s \<and>
    live s' = map (\<lambda>r. r\<lparr>reg_staged := 0\<rparr>) (take (Suc i) (live s)) @ drop (Suc i) (live s) \<and>
    committed s' = insert_at (gap_pos s) (runs_of (staging s) (take (Suc i) (live s))) (committed s)"
proof -
  have "length (runs_of (staging s) (take (Suc i) (live s))) = sum_list (map reg_staged (take (Suc i) (live s)))"
    by (rule length_runs_of [OF layout_ok_take [OF staging_invD(6) [OF inv]]])
  with flush_region_cases [OF inv, of c] idx fits show ?thesis by (smt (verit) option.inject option.simps(3))
qed

lemma flush_region_keeps_document_witness:
  "\<exists>s'. flush_region 7 demo_gap = Some (Inr 1, s') \<and> logical s' = [1, 10, 2, 3]
     \<and> committed s' = [1, 10, 2, 3]"
proof -
  have "region_index demo_gap 7 = Some 0" "commit_fits (Suc 0) demo_gap"
    by (simp_all add: region_index_def commit_fits_def demo_gap_def)
  note flushed = flush_region_keeps_document [OF demo_gap_inv this]
  have count: "sum_list (map reg_staged (take (Suc 0) (live demo_gap))) = 1"
    and inserted: "insert_at (gap_pos demo_gap) (runs_of (staging demo_gap) (take (Suc 0) (live demo_gap)))
      (committed demo_gap) = [1, 10, 2, 3]"
    by (simp_all add: demo_gap_def committed_def staged_run_def insert_at_def)
  show ?thesis using flushed unfolding count inserted demo_gap_logical by blast
qed

lemma delete_range_correct:
  assumes inv: "staging_inv s" and fits: "commit_fits (region_count s) s"
  shows "\<exists>res s'. delete_range a b s = Some (res, s') \<and> staging_inv s' \<and>
    (if a \<le> b \<and> b \<le> length (logical s)
     then res = Inr (b - a) \<and> logical s' = remove_range a b (logical s) \<and> gap_pos s' = a
     else (\<exists>e. res = Inl e) \<and> logical s' = logical s)"
  by (rule delete_range_cases [OF inv, of b a]) (use fits in auto)

lemma delete_range_correct_witness:
  "\<exists>s'. delete_range 1 3 demo_gap = Some (Inr 2, s') \<and> logical s' = [1, 3]"
proof -
  have "commit_fits (region_count demo_gap) demo_gap"
    by (simp add: commit_fits_def demo_gap_def)
  then show ?thesis
    using delete_range_correct [OF demo_gap_inv, of 1 3] by (auto simp: demo_gap_logical remove_range_def)
qed

section \<open>Cursors that join and leave\<close>

lemma add_region_keeps_runs:
  assumes inv: "staging_inv s" and cnt: "region_count s < length (staging s)"
    and new: "region_index s c = None"
    and room: "\<forall>r \<in> set (live s). reg_staged r \<le> length (staging s) div (region_count s + 1)"
  shows "\<exists>s'. add_region c s = Some (Inr (), s') \<and> staging_inv s' \<and> logical s' = logical s \<and>
    cursor_run s' = (cursor_run s)(c \<mapsto> []) \<and>
    (\<forall>r \<in> set (live s'). reg_size r = length (staging s) div (region_count s + 1))"
proof -
  let ?share = "length (staging s) div (region_count s + 1)"
  let ?rs = "live s @ [region_new c 0 0]"
  have len: "length (live s) = region_count s" using staging_invD(1,2) [OF inv] by simp
  have even: "\<forall>r \<in> set ?rs. reg_staged r \<le> ?share" using room by (auto simp: region_new_def)
  have "length ?rs * ?share \<le> length (staging s)" 
    unfolding length_append len using times_div_less_eq_dividend [of "Suc (region_count s)"] by simp
  from room_for_even [OF even this]
  have "room_for ?share (live s) + ?share \<le> length (staging s)"
    by (simp add: room_for_def region_new_def)
  moreover have "c \<notin> cursor_id ` set (live s)"
    using new by (simp add: region_index_def index_of_cursor_None)
  ultimately obtain s' where s': "add_region c s = Some (Inr (), s')" "staging_inv s'"
    "logical s' = logical s" "cursor_run s' = (cursor_run s)(c \<mapsto> [])" "live s' = place ?share 0 ?rs"
    using add_region_eq [OF inv cnt, of c] by blast
  have "\<forall>r \<in> set (live s'). reg_size r = ?share"
    unfolding s'(5) using even by (rule place_even)
  with s' show ?thesis by blast
qed

lemma add_region_keeps_runs_witness:
  "\<exists>s'. add_region 3 demo_gap = Some (Inr (), s') \<and> logical s' = [1, 10, 2, 3]
     \<and> cursor_run s' 7 = Some [10] \<and> cursor_run s' 3 = Some []"
proof -
  have "region_count demo_gap < length (staging demo_gap)" "region_index demo_gap 3 = None"
    "\<forall>r \<in> set (live demo_gap). reg_staged r \<le> length (staging demo_gap) div (region_count demo_gap + 1)"
    by (simp_all add: demo_gap_def region_index_def)
  note joined = add_region_keeps_runs [OF demo_gap_inv this]
  have "cursor_run demo_gap 7 = Some [10]"
    by (simp add: cursor_run_def region_index_def staged_run_def demo_gap_def)
  with joined show ?thesis unfolding demo_gap_logical by auto
qed

section \<open>Whole sessions\<close>



section \<open>Two sessions that leave the contract\<close>

lemma commit_corrupts_suffix:
  "map_option logical (gap_session (0::nat) 32 4 [1, 2, 3, 4, 5, 6] [MoveGap 2, AddRegion 0, Stage 0 99])
     = Some [1, 2, 99, 3, 4, 5, 6] \<and>
   map_option logical
     (gap_session (0::nat) 32 4 [1, 2, 3, 4, 5, 6] [MoveGap 2, AddRegion 0, Stage 0 99, FlushAll])
     = Some [1, 2, 99, 6, 4, 5, 6]"
  by (simp add: gap_eval)

lemma rebalance_overruns_staging:
  "map_option staging_used (gap_session (0::nat) 32 4 [1, 2, 3, 4, 5]
      [DeleteRange 0 5, AddRegion 0, StageSlice 0 [6, 7, 8, 9], AddRegion 1]) = Some 4 \<and>
   gap_session (0::nat) 32 4 [1, 2, 3, 4, 5]
      [DeleteRange 0 5, AddRegion 0, StageSlice 0 [6, 7, 8, 9], AddRegion 1, Stage 1 10] = None"
  by (simp add: gap_eval div_greater_zero_iff)

end
