(* ===== verification/Bits.thy ===== *)
theory Bits
  imports Prelude
begin

text \<open>
  Byte arrays as bit sets, shared by the block bitmap of the file system and the cursor allocator:
  the functions of Rust's integers the two use (\<open>trailing_zeros\<close>, \<open>count_ones\<close>,
  \<open>from_le_bytes\<close>), the split of a bit index into byte and mask, and what setting and clearing a
  masked bit does to the set of bits.
\<close>

unbundle bit_operations_syntax

section \<open>Bit counting on machine words\<close>

definition trailing_zeros :: "'a::len word \<Rightarrow> nat" where
  "trailing_zeros w = length (takeWhile (\<lambda>i. \<not> bit w i) [0..<LENGTH('a)])"

definition count_ones :: "'a::len word \<Rightarrow> nat" where
  "count_ones w = length (filter (bit w) [0..<LENGTH('a)])"

lemma count_ones_card: "count_ones (w :: 'a::len word) = card {i. i < LENGTH('a) \<and> bit w i}"
proof -
  have "count_ones w = card (set (filter (bit w) [0..<LENGTH('a)]))"
    unfolding count_ones_def by (rule distinct_card [symmetric]) simp
  also have "set (filter (bit w) [0..<LENGTH('a)]) = {i. i < LENGTH('a) \<and> bit w i}" by auto
  finally show ?thesis .
qed

text \<open>The first position of a predicate on an index range.\<close>

lemma takeWhile_upt:
  assumes "P k" "k < n" "\<forall>i < k. \<not> P i"
  shows "length (takeWhile (\<lambda>i. \<not> P i) [0..<n]) = k"
proof -
  have "[0..<n] = [0..<k] @ k # [Suc k..<n]"
    using assms(2) upt_add_eq_append [of 0 k "n - k"] upt_conv_Cons [of k n] by simp
  with assms show ?thesis by (simp add: takeWhile_append)
qed

lemma trailing_zeros_not:
  fixes w :: "'a::len word"
  assumes "w \<noteq> - 1"
  obtains "trailing_zeros (NOT w) < LENGTH('a)" "\<not> bit w (trailing_zeros (NOT w))"
    "\<forall>i < trailing_zeros (NOT w). bit w i"
proof -
  from assms obtain j where j: "j < LENGTH('a)" "\<not> bit w j"
    by (metis bit_minus_1_iff bit_word_eqI possible_bit_word)
  define k where "k = (LEAST j. \<not> bit w j)"
  have k: "\<not> bit w k" unfolding k_def using j(2) by (rule LeastI)
  have before: "\<forall>i < k. bit w i" unfolding k_def using not_less_Least by blast
  have "k \<le> j" unfolding k_def using j(2) by (rule Least_le)
  with j(1) have len: "k < LENGTH('a)" by linarith
  have "trailing_zeros (NOT w) = k"
    unfolding trailing_zeros_def using k before len
    by (intro takeWhile_upt) (auto simp: bit_not_iff)
  with k before len that show ?thesis by simp
qed

lemma not_bit_small: "unat w < 2 ^ i \<Longrightarrow> \<not> bit (w :: 'a::len word) i"
proof -
  assume "unat w < 2 ^ i"
  then have "\<not> bit (unat w) i" by (simp add: bit_iff_odd)
  then show "\<not> bit w i" by (auto simp: bit_unsigned_iff dest: bit_imp_le_length)
qed

lemma word_nonzero_bit: "(w :: 'a::len word) \<noteq> 0 \<longleftrightarrow> (\<exists>i < LENGTH('a). bit w i)"
  using bit_word_eqI [of w 0] by auto

section \<open>Little-endian words\<close>

fun from_le_bytes :: "u8 list \<Rightarrow> 'a::len word" where
  "from_le_bytes [] = 0"
| "from_le_bytes (b # bs) = ucast b OR push_bit 8 (from_le_bytes bs)"

definition to_le_bytes :: "'a::len word \<Rightarrow> u8 list" where
  "to_le_bytes w = map (\<lambda>i. ucast (drop_bit (8 * i) w)) [0..<LENGTH('a) div 8]"

lemma bit_from_le_bytes:
  "bit (from_le_bytes bs :: 'a::len word) k \<longleftrightarrow>
     k < LENGTH('a) \<and> k div 8 < length bs \<and> bit (bs ! (k div 8)) (k mod 8)"
proof (induction bs arbitrary: k)
  case (Cons b bs)
  show ?case
  proof (cases "k < 8")
    case True
    then show ?thesis by (auto simp: bit_or_iff bit_ucast_iff bit_push_bit_iff)
  next
    case False
    then have "k div 8 = Suc ((k - 8) div 8)" "(k - 8) mod 8 = k mod 8"
      by (simp_all add: le_div_geq le_mod_geq)
    moreover have "\<not> bit b k" using False bit_imp_le_length [of b k] by auto
    moreover have "bit (from_le_bytes (b # bs) :: 'a word) k \<longleftrightarrow>
        k < LENGTH('a) \<and> bit (from_le_bytes bs :: 'a word) (k - 8)"
      using False \<open>\<not> bit b k\<close> by (simp add: bit_or_iff bit_ucast_iff bit_push_bit_iff)
    moreover have "k < LENGTH('a) \<Longrightarrow> k - 8 < LENGTH('a)" by simp
    ultimately show ?thesis unfolding Cons by (simp del: from_le_bytes.simps) blast
  qed
qed simp

lemma length_to_le_bytes [simp]: "length (to_le_bytes (w :: 'a::len word)) = LENGTH('a) div 8"
  by (simp add: to_le_bytes_def)

lemma from_to_le_bytes:
  assumes "8 dvd LENGTH('a::len)"
  shows "from_le_bytes (to_le_bytes (w :: 'a word)) = w"
proof (rule bit_word_eqI)
  fix k assume k: "k < LENGTH('a)"
  then have "k div 8 < LENGTH('a) div 8" using assms by (simp add: div_less_iff_less_mult)
  moreover have "8 * (k div 8) + k mod 8 = k" by simp
  ultimately show "bit (from_le_bytes (to_le_bytes w) :: 'a word) k \<longleftrightarrow> bit w k"
    using k by (simp add: bit_from_le_bytes to_le_bytes_def bit_ucast_iff bit_drop_bit_eq)
qed

section \<open>Bits of a byte array\<close>

definition split_bit :: "nat \<Rightarrow> nat \<times> u8" where
  "split_bit index = (index div 8, push_bit (index mod 8) 1)"

definition word_bit :: "'a::len word list \<Rightarrow> nat \<Rightarrow> bool" where
  "word_bit ws i \<longleftrightarrow> i div LENGTH('a) < length ws \<and> bit (ws ! (i div LENGTH('a))) (i mod LENGTH('a))"

abbreviation bit_at :: "u8 list \<Rightarrow> nat \<Rightarrow> bool" where
  "bit_at \<equiv> word_bit"

lemma bit_at_def: "bit_at bs i \<longleftrightarrow> i div 8 < length bs \<and> bit (bs ! (i div 8)) (i mod 8)"
  by (simp add: word_bit_def)

text \<open>Full words, and the first free bit of the first word that is not full.\<close>

lemma full_words:
  fixes ws :: "'a::len word list"
  assumes "n \<le> length ws" "\<forall>q < n. ws ! q = - 1" "i < n * LENGTH('a)"
  shows "word_bit ws i"
proof -
  have "i div LENGTH('a) < n" using assms(3) by (simp add: div_less_iff_less_mult)
  with assms(1,2) show ?thesis by (simp add: word_bit_def)
qed

lemma first_free_word:
  fixes ws :: "'a::len word list"
  assumes "p < length ws" "ws ! p \<noteq> - 1" "\<forall>q < p. ws ! q = - 1"
  defines "n \<equiv> p * LENGTH('a) + trailing_zeros (NOT (ws ! p))"
  shows "\<not> word_bit ws n" "\<forall>i < n. word_bit ws i" "n < Suc p * LENGTH('a)"
proof -
  obtain t: "trailing_zeros (NOT (ws ! p)) < LENGTH('a)" "\<not> bit (ws ! p) (trailing_zeros (NOT (ws ! p)))"
    "\<forall>i < trailing_zeros (NOT (ws ! p)). bit (ws ! p) i" using trailing_zeros_not [OF assms(2)] by blast
  show "\<not> word_bit ws n" and "n < Suc p * LENGTH('a)" using t by (simp_all add: n_def word_bit_def)
  show "\<forall>i < n. word_bit ws i"
  proof (intro allI impI)
    fix i assume i: "i < n"
    show "word_bit ws i"
    proof (cases "i < p * LENGTH('a)")
      case True
      with assms(1,3) show ?thesis by (intro full_words [of p]) simp_all
    next
      case False
      then obtain k where k: "i = p * LENGTH('a) + k" by (metis le_iff_add not_less)
      with i have "k < trailing_zeros (NOT (ws ! p))" by (simp add: n_def)
      with t assms(1) show ?thesis by (simp add: k word_bit_def)
    qed
  qed
qed

lemma and_mask_bit: "k < 8 \<Longrightarrow> (b :: u8) AND push_bit k 1 \<noteq> 0 \<longleftrightarrow> bit b k"
  by (simp add: bit_iff_and_push_bit_not_eq_0)

lemma bit_push_bit_one: "j < 8 \<Longrightarrow> bit (2 ^ k :: u8) j \<longleftrightarrow> j = k"
  by (auto simp: bit_exp_iff)

lemma div_mod_eq: "(i::nat) div 8 = j div 8 \<Longrightarrow> i mod 8 = j mod 8 \<Longrightarrow> i = j"
  by (metis div_mult_mod_eq)

lemma bit_at_set:
  assumes "i div 8 < length bs"
  shows "bit_at (bs[i div 8 := bs ! (i div 8) OR push_bit (i mod 8) 1]) j \<longleftrightarrow> j = i \<or> bit_at bs j"
proof (cases "j div 8 = i div 8")
  case True
  then have "j = i \<longleftrightarrow> j mod 8 = i mod 8" using div_mod_eq by blast
  with True assms show ?thesis by (simp add: bit_at_def bit_or_iff bit_push_bit_one) blast
next
  case False
  then show ?thesis by (auto simp: bit_at_def)
qed

lemma bit_at_clear:
  assumes "i div 8 < length bs"
  shows "bit_at (bs[i div 8 := bs ! (i div 8) AND NOT (push_bit (i mod 8) 1)]) j \<longleftrightarrow>
         j \<noteq> i \<and> bit_at bs j"
proof (cases "j div 8 = i div 8")
  case True
  then have "j = i \<longleftrightarrow> j mod 8 = i mod 8" using div_mod_eq by blast
  with True assms show ?thesis
    by (simp add: bit_at_def bit_and_iff bit_not_iff bit_push_bit_one) blast
next
  case False
  then show ?thesis by (auto simp: bit_at_def)
qed

text \<open>Adding up the population counts of the words counts the bits.\<close>

lemma sum_count_ones:
  fixes ws :: "'a::len word list"
  shows "sum_list (map count_ones ws) = card {i. i < length ws * LENGTH('a) \<and> word_bit ws i}"
proof (induction ws rule: rev_induct)
  case (snoc w ws)
  let ?n = "length ws * LENGTH('a)"
  let ?A = "{i. i < ?n \<and> word_bit ws i}" and ?B = "(\<lambda>k. ?n + k) ` {k. k < LENGTH('a) \<and> bit w k}"
  have "{i. i < length (ws @ [w]) * LENGTH('a) \<and> word_bit (ws @ [w]) i} = ?A \<union> ?B" (is "?L = _")
  proof (intro set_eqI)
    fix i
    show "i \<in> ?L \<longleftrightarrow> i \<in> ?A \<union> ?B"
    proof (cases "i < ?n")
      case True
      then have "i div LENGTH('a) < length ws" by (simp add: div_less_iff_less_mult)
      with True show ?thesis by (auto simp: word_bit_def nth_append)
    next
      case False
      then obtain k where k: "i = ?n + k" by (metis le_iff_add not_less)
      show ?thesis
      proof (cases "k < LENGTH('a)")
        case True
        then show ?thesis by (auto simp: k word_bit_def)
      qed (auto simp: k)
    qed
  qed
  moreover have "?A \<inter> ?B = {}" by auto
  moreover have "card ?B = count_ones w" by (simp add: count_ones_card card_image)
  moreover have "finite ?A" "finite ?B" by simp_all
  ultimately show ?case using snoc by (simp add: card_Un_disjoint)
qed simp

lemma bit_at_bound: "bit_at bs i \<Longrightarrow> i < 8 * length bs"
  by (simp add: bit_at_def div_less_iff_less_mult mult.commute)

lemma bit_at_zeros [simp]: "\<not> bit_at (replicate n 0) i"
  by (simp add: bit_at_def)

section \<open>Walking the set bits of a mask\<close>

lemma trailing_zeros_least:
  fixes w :: "'a::len word"
  assumes "w \<noteq> 0"
  obtains "trailing_zeros w < LENGTH('a)" "bit w (trailing_zeros w)" "\<forall>i < trailing_zeros w. \<not> bit w i"
proof -
  have "NOT w \<noteq> - 1" using assms by (metis bit.compl_one bit.compl_eq_compl_iff bit.compl_zero bit.double_compl)
  then obtain "trailing_zeros w < LENGTH('a)" "\<not> bit (NOT w) (trailing_zeros w)"
    "\<forall>i < trailing_zeros w. bit (NOT w) i"
    using trailing_zeros_not [of "NOT w"] by auto
  then show ?thesis using that by (auto simp: bit_not_iff)
qed

text \<open>\<open>w & (w - 1)\<close> clears the lowest set bit.\<close>

lemma bit_clear_lowest:
  fixes w :: "'a::len word"
  assumes "w \<noteq> 0"
  shows "bit (w AND (w - 1)) n \<longleftrightarrow> bit w n \<and> n \<noteq> trailing_zeros w"
proof -
  let ?k = "trailing_zeros w"
  obtain k: "?k < LENGTH('a)" "bit w ?k" "\<forall>i < ?k. \<not> bit w i" using trailing_zeros_least [OF assms] .
  define a where "a = w AND NOT (mask (Suc ?k))"
  have a: "bit a n \<longleftrightarrow> bit w n \<and> ?k < n" for n
    using bit_imp_le_length [of w n]
    by (auto simp: a_def bit_and_iff bit_not_iff bit_mask_iff not_less Suc_le_eq)
  have w: "w = a OR 2 ^ ?k"
    by (rule bit_word_eqI) (use k in \<open>auto simp: bit_or_iff a bit_exp_iff linorder_neq_iff\<close>)
  have "a + 2 ^ ?k = a OR 2 ^ ?k"
    by (rule disjunctive_add) (auto simp: a bit_exp_iff)
  then have "w - 1 = a + mask ?k" using w by (simp add: mask_eq_exp_minus_1)
  also have "\<dots> = a OR mask ?k"
    by (rule disjunctive_add) (auto simp: a bit_mask_iff)
  finally have "w - 1 = a OR mask ?k" .
  then show ?thesis using k by (auto simp: bit_and_iff bit_or_iff a bit_mask_iff linorder_neq_iff)
qed

function mask_bits :: "'a::len word \<Rightarrow> nat list" where
  "mask_bits w = (if w = 0 then [] else trailing_zeros w # mask_bits (w AND (w - 1)))"
  by pat_completeness auto
termination
proof (relation "measure (\<lambda>w. card {n. bit w n})")
  fix w :: "'a word" assume w: "w \<noteq> 0"
  obtain k: "bit w (trailing_zeros w)" using trailing_zeros_least [OF w] by blast
  have fin: "finite {n. bit w n}"
    by (rule finite_subset [of _ "{..<LENGTH('a)}"]) (auto dest: bit_imp_le_length)
  have "{n. bit (w AND (w - 1)) n} = {n. bit w n} - {trailing_zeros w}" using bit_clear_lowest [OF w] by auto
  then have "{n. bit (w AND (w - 1)) n} \<subset> {n. bit w n}" using k by auto
  then show "(w AND (w - 1), w) \<in> measure (\<lambda>w. card {n. bit w n})" using fin by (simp add: psubset_card_mono)
qed simp

declare mask_bits.simps [simp del]

lemma mask_bits_set: "set (mask_bits w) = {n. bit w n} \<and> sorted (mask_bits w) \<and> distinct (mask_bits w)"
proof (induction w rule: mask_bits.induct)
  case (1 w)
  show ?case
  proof (cases "w = 0")
    case True
    then show ?thesis by (simp add: mask_bits.simps)
  next
    case False
    obtain k: "bit w (trailing_zeros w)" "\<forall>i < trailing_zeros w. \<not> bit w i"
      using trailing_zeros_least [OF False] by blast
    have "mask_bits w = trailing_zeros w # mask_bits (w AND (w - 1))"
      using False by (subst mask_bits.simps) simp
    moreover have "\<forall>n. bit w n \<longrightarrow> trailing_zeros w \<le> n" using k(2) by (meson not_less)
    ultimately show ?thesis using 1 [OF False] k(1) bit_clear_lowest [OF False] by auto
  qed
qed

lemma mask_bits_eq: "mask_bits (w :: 'a::len word) = filter (bit w) [0..<LENGTH('a)]"
proof (rule sorted_distinct_set_unique)
  show "set (mask_bits w) = set (filter (bit w) [0..<LENGTH('a)])"
    using mask_bits_set [of w] by (auto dest: bit_imp_le_length)
qed (simp_all add: mask_bits_set sorted_wrt_filter)

end
