(* ===== verification/Id_Pool.thy ===== *)
theory Id_Pool
  imports Prelude
begin

text \<open>
  The contract of the editor's allocators of small identifiers (cursor ids, disk blocks, shared
  gap slots): an allocation hands out an identifier that is below the limit and not in use, and
  fails only when all are, whatever its argument; a release gives an identifier back, and one that
  is not in use is left alone. The lemmas of the locale are what the clients of an allocator rely on:
  no identifier is held twice, allocations in a row are distinct, and as many succeed as there are
  free identifiers.
\<close>

fun alloc_many :: "('m \<Rightarrow> 's \<Rightarrow> nat option \<times> 's) \<Rightarrow> 'm list \<Rightarrow> 's \<Rightarrow> nat list \<times> 's" where
  "alloc_many alloc [] s = ([], s)"
| "alloc_many alloc (m # ms) s =
     (case alloc m s of
        (None, s') \<Rightarrow> ([], s')
      | (Some i, s') \<Rightarrow> (case alloc_many alloc ms s' of (is, s'') \<Rightarrow> (i # is, s'')))"

text \<open>The identifiers below a limit that are not in use.\<close>

definition unused :: "nat \<Rightarrow> (nat \<Rightarrow> bool) \<Rightarrow> nat set" where
  "unused limit u = {i. i < limit \<and> \<not> u i}"

lemma finite_unused [simp]: "finite (unused limit u)"
  by (simp add: unused_def)

text \<open>
  The states a client can reach, with the identifiers it holds. Every allocation has an argument of
  its own, and any number may be released, held or not, in range or not.
\<close>

inductive pool_reach ::
    "('m \<Rightarrow> 's \<Rightarrow> nat option \<times> 's) \<Rightarrow> (nat \<Rightarrow> 's \<Rightarrow> 's) \<Rightarrow> 's \<Rightarrow> 's \<Rightarrow> nat set \<Rightarrow> bool"
  for alloc :: "'m \<Rightarrow> 's \<Rightarrow> nat option \<times> 's" and release :: "nat \<Rightarrow> 's \<Rightarrow> 's" and s0 :: 's where
  pool_start: "pool_reach alloc release s0 s0 {}"
| pool_alloc: "pool_reach alloc release s0 s held \<Longrightarrow> alloc m s = (Some i, s') \<Longrightarrow>
     pool_reach alloc release s0 s' (insert i held)"
| pool_refused: "pool_reach alloc release s0 s held \<Longrightarrow> alloc m s = (None, s') \<Longrightarrow>
     pool_reach alloc release s0 s' held"
| pool_release: "pool_reach alloc release s0 s held \<Longrightarrow>
     pool_reach alloc release s0 (release i s) (held - {i})"

locale id_pool =
  fixes inv :: "'s \<Rightarrow> bool" and used :: "'s \<Rightarrow> nat \<Rightarrow> bool" and limit :: nat
    and alloc :: "'m \<Rightarrow> 's \<Rightarrow> nat option \<times> 's" and release :: "nat \<Rightarrow> 's \<Rightarrow> 's"
  assumes alloc_Some: "inv s \<Longrightarrow> alloc m s = (Some i, s') \<Longrightarrow>
      i < limit \<and> \<not> used s i \<and> inv s' \<and> used s' = (used s)(i := True)"
    and alloc_None: "inv s \<Longrightarrow> alloc m s = (None, s') \<Longrightarrow> s' = s \<and> (\<forall>i < limit. used s i)"
    and release_any: "inv s \<Longrightarrow>
      inv (release i s) \<and> used (release i s) = (used s)(i := False)"
begin

lemma alloc_total:
  assumes "inv s" "i < limit" "\<not> used s i"
  shows "\<exists>j s'. alloc m s = (Some j, s')"
  using assms alloc_None by (cases "alloc m s"; cases "fst (alloc m s)") auto

lemma alloc_unused:
  assumes "inv s" "alloc m s = (Some i, s')"
  shows "i \<in> unused limit (used s)" "unused limit (used s') = unused limit (used s) - {i}" "card (unused limit (used s)) = Suc (card (unused limit (used s')))"
proof -
  show i: "i \<in> unused limit (used s)" and s': "unused limit (used s') = unused limit (used s) - {i}"
    using alloc_Some [OF assms] by (auto simp: unused_def)
  show "card (unused limit (used s)) = Suc (card (unused limit (used s')))"
    unfolding s' by (rule card.remove [OF finite_unused i])
qed

lemma alloc_many_fresh:
  assumes "inv s" "alloc_many alloc ms s = (is, s')"
  shows "inv s' \<and> distinct is \<and> set is \<subseteq> unused limit (used s) \<and> unused limit (used s') = unused limit (used s) - set is
    \<and> length is = min (length ms) (card (unused limit (used s)))"
  using assms
proof (induction ms arbitrary: s "is")
  case (Cons m ms)
  show ?case
  proof (cases "alloc m s")
    case (Pair r s1)
    show ?thesis
    proof (cases r)
      case None
      then have "s1 = s" "unused limit (used s) = {}"
        using alloc_None [OF Cons.prems(1)] Pair by (auto simp: unused_def)
      with Cons.prems Pair None show ?thesis by simp
    next
      case (Some i)
      from Cons.prems(2) Pair Some obtain js where many: "alloc_many alloc ms s1 = (js, s')"
        and [simp]: "is = i # js" by (auto split: prod.splits)
      from Pair Some have a: "alloc m s = (Some i, s1)" by simp
      have "inv s1" using alloc_Some [OF Cons.prems(1) a] by blast
      from Cons.IH [OF this many] have ih: "inv s'" "distinct js" "set js \<subseteq> unused limit (used s1)"
        "unused limit (used s') = unused limit (used s1) - set js"
        "length js = min (length ms) (card (unused limit (used s1)))" by auto
      note u = alloc_unused [OF Cons.prems(1) a]
      have "i \<notin> set js" "set is \<subseteq> unused limit (used s)" using ih(3) u(1,2) by auto
      moreover have "unused limit (used s') = unused limit (used s) - set is"
        using ih(4) u(2) by auto
      moreover have "length is = min (length (m # ms)) (card (unused limit (used s)))" using ih(5) u(3) by simp
      ultimately show ?thesis using ih(1,2) by simp
    qed
  qed
qed simp

lemma pool_held:
  assumes "pool_reach alloc release s0 s held" "inv s0" "\<forall>i. \<not> used s0 i"
  shows "inv s \<and> (\<forall>i. used s i \<longleftrightarrow> i \<in> held) \<and> (\<forall>i \<in> held. i < limit)"
  using assms(1)
proof induction
  case (pool_alloc s held m i s')
  then show ?case using alloc_Some [of s m i s'] by auto
next
  case (pool_refused s held m s')
  then show ?case using alloc_None [of s m s'] by auto
next
  case (pool_release s held i)
  then show ?case using release_any [of s i] by auto
qed (use assms in auto)

lemma pool_no_double_alloc:
  assumes "pool_reach alloc release s0 s held" "inv s0" "\<forall>i. \<not> used s0 i"
  shows "case alloc m s of (Some i, _) \<Rightarrow> i < limit \<and> i \<notin> held | (None, _) \<Rightarrow> held = {..<limit}"
proof (cases "alloc m s")
  case (Pair r s1)
  note held = pool_held [OF assms]
  show ?thesis
  proof (cases r)
    case None
    with Pair held alloc_None [of s m s1] show ?thesis by auto
  next
    case (Some i)
    with Pair held alloc_Some [of s m i s1] show ?thesis by auto
  qed
qed

end

end
