(* ===== verification/Cursor_Allocator.thy ===== *)
theory Cursor_Allocator
  imports Bits Id_Pool Wredit_Error
begin

text \<open>
  The cursor id allocator (\<open>crates/wredit/src/cursor_allocator.rs\<close>): a bitmap of
  \<open>MAX_CURSORS\<close> bits beside a cached population count. The invariant ties the count to the
  bitmap; under it the allocator is an \<^const>\<open>id_pool\<close>, allocation returns the lowest free id and
  its internal error never shows.
\<close>

section \<open>State and operations\<close>

definition max_cursors :: usize where
  "max_cursors = 0x2000"

definition bitmap_bytes :: usize where
  "bitmap_bytes = max_cursors div 8"

record cursor_allocator =
  ca_bits :: "u8 list"
  ca_count :: usize

definition ca_new :: cursor_allocator where
  "ca_new = \<lparr>ca_bits = replicate bitmap_bytes 0, ca_count = 0\<rparr>"

definition ca_is_full :: "cursor_allocator \<Rightarrow> bool" where
  "ca_is_full a \<longleftrightarrow> ca_count a = max_cursors"

definition ca_is_used :: "cursor_allocator \<Rightarrow> usize \<Rightarrow> bool" where
  "ca_is_used a cid =
     (if cid \<ge> max_cursors then False
      else let (byte, mask) = split_bit cid in ca_bits a ! byte AND mask \<noteq> 0)"

definition ca_set_used :: "usize \<Rightarrow> cursor_allocator \<Rightarrow> cursor_allocator" where
  "ca_set_used cid a =
     (let (byte, mask) = split_bit cid in
      a\<lparr>ca_bits := (ca_bits a)[byte := ca_bits a ! byte OR mask], ca_count := ca_count a + 1\<rparr>)"

fun ca_find_free_loop :: "usize \<Rightarrow> u8 list \<Rightarrow> usize option" where
  "ca_find_free_loop position [] = None"
| "ca_find_free_loop position (byte # bytes) =
     (if byte \<noteq> 0xFF
      then let cid = position * 8 + trailing_zeros (NOT byte) in
        if cid < max_cursors then Some cid else ca_find_free_loop (position + 1) bytes
      else ca_find_free_loop (position + 1) bytes)"

definition ca_find_free :: "cursor_allocator \<Rightarrow> usize option" where
  "ca_find_free a = ca_find_free_loop 0 (ca_bits a)"

definition ca_alloc :: "cursor_allocator \<Rightarrow> (wredit_error + usize) \<times> cursor_allocator" where
  "ca_alloc a =
     (if ca_is_full a then (Inl (DiskFull 0), a)
      else case ca_find_free a of
        None \<Rightarrow> (Inl (InvalidOperation ''allocator reported free cursors but none could be found''), a)
      | Some cid \<Rightarrow> (Inr cid, ca_set_used cid a))"

definition ca_free :: "usize \<Rightarrow> cursor_allocator \<Rightarrow> bool \<times> cursor_allocator" where
  "ca_free cid a =
     (if cid \<ge> max_cursors then (False, a)
      else let (byte, mask) = split_bit cid in
        if ca_bits a ! byte AND mask \<noteq> 0
        then (True, a\<lparr>ca_bits := (ca_bits a)[byte := ca_bits a ! byte AND NOT mask],
                       ca_count := ca_count a - 1\<rparr>)
        else (False, a))"

definition ca_clear :: "cursor_allocator \<Rightarrow> cursor_allocator" where
  "ca_clear a = a\<lparr>ca_bits := replicate bitmap_bytes 0, ca_count := 0\<rparr>"

section \<open>Invariant\<close>

definition ca_inv :: "cursor_allocator \<Rightarrow> bool" where
  "ca_inv a \<longleftrightarrow> length (ca_bits a) = bitmap_bytes \<and> ca_count a = card {i. ca_is_used a i}"

lemma max_cursors_bytes: "max_cursors = 8 * bitmap_bytes"
  by (simp add: max_cursors_def bitmap_bytes_def)

lemma byte_in_range: "cid < max_cursors \<longleftrightarrow> cid div 8 < bitmap_bytes"
  by (simp add: max_cursors_bytes div_less_iff_less_mult mult.commute)

lemma ca_is_used_bit:
  assumes "length (ca_bits a) = bitmap_bytes"
  shows "ca_is_used a i \<longleftrightarrow> bit_at (ca_bits a) i"
proof (cases "i < max_cursors")
  case True
  then have "i div 8 < length (ca_bits a)" using assms byte_in_range by simp
  then show ?thesis using True and_mask_bit [of "i mod 8" "ca_bits a ! (i div 8)"]
    by (simp add: ca_is_used_def split_bit_def bit_at_def)
next
  case False
  then show ?thesis using bit_at_bound [of "ca_bits a" i] assms max_cursors_bytes
    by (auto simp: ca_is_used_def)
qed

lemma ca_used_bound: "{i. ca_is_used a i} \<subseteq> {..<max_cursors}"
  by (auto simp: ca_is_used_def not_le split: if_splits)

lemma ca_used_finite [simp]: "finite {i. ca_is_used a i}"
  using ca_used_bound finite_subset by blast

lemma ca_is_used_set:
  assumes "length (ca_bits a) = bitmap_bytes" "i < max_cursors"
  shows "ca_is_used (ca_set_used i a) = (ca_is_used a)(i := True)"
proof
  fix j
  have "length (ca_bits (ca_set_used i a)) = bitmap_bytes"
    using assms by (simp add: ca_set_used_def split_bit_def)
  moreover have "i div 8 < length (ca_bits a)" using assms byte_in_range by simp
  ultimately show "ca_is_used (ca_set_used i a) j = ((ca_is_used a)(i := True)) j"
    using assms bit_at_set [of i "ca_bits a" j]
    by (simp add: ca_is_used_bit ca_set_used_def split_bit_def)
qed

lemma ca_set_used_inv:
  assumes "ca_inv a" "i < max_cursors" "\<not> ca_is_used a i"
  shows "ca_inv (ca_set_used i a)"
proof -
  have len: "length (ca_bits a) = bitmap_bytes" using assms by (simp add: ca_inv_def)
  have "{j. ca_is_used (ca_set_used i a) j} = insert i {j. ca_is_used a j}"
    using ca_is_used_set [OF len assms(2)] by auto
  then show ?thesis using assms
    by (simp add: ca_inv_def) (simp add: ca_set_used_def split_bit_def)
qed

text \<open>The scan finds the lowest free id.\<close>

lemma ca_find_free_loop_eq:
  assumes "bs = drop position ws" "position \<le> length ws" "length ws = bitmap_bytes"
    "\<forall>q < position. ws ! q = - 1"
  shows "case ca_find_free_loop position bs of
      None \<Rightarrow> \<forall>i < max_cursors. bit_at ws i
    | Some cid \<Rightarrow> cid < max_cursors \<and> \<not> bit_at ws cid \<and> (\<forall>i < cid. bit_at ws i)"
  using assms
proof (induction position bs rule: ca_find_free_loop.induct)
  case (1 position)
  then show ?case using full_words [of position ws] by (simp add: max_cursors_bytes mult.commute)
next
  case (2 position byte bytes)
  from 2(3,4) have pos: "position < length ws" by (cases "position = length ws") auto
  have b: "ws ! position = byte" and rest: "bytes = drop (position + 1) ws"
    using 2(3) pos by (simp_all add: Cons_nth_drop_Suc [symmetric])
  show ?case
  proof (cases "byte = - 1")
    case True
    then have "\<forall>q < position + 1. ws ! q = - 1" using 2(6) b by (auto simp: less_Suc_eq)
    from 2(2) [OF _ rest _ 2(5) this] True pos show ?thesis by simp
  next
    case False
    let ?n = "position * 8 + trailing_zeros (NOT byte)"
    have "\<not> bit_at ws ?n" "\<forall>i < ?n. bit_at ws i" "?n < Suc position * 8"
      using first_free_word [OF pos, unfolded b, OF False 2(6)] by simp_all
    moreover have "Suc position * 8 \<le> max_cursors" using pos 2(5) by (simp add: max_cursors_bytes)
    moreover have "byte \<noteq> 0xFF" using False by auto
    ultimately show ?thesis by simp
  qed
qed

lemma ca_find_free_eq:
  assumes "ca_inv a"
  shows "case ca_find_free a of
      None \<Rightarrow> \<forall>i < max_cursors. ca_is_used a i
    | Some cid \<Rightarrow> cid < max_cursors \<and> \<not> ca_is_used a cid \<and> (\<forall>i < cid. ca_is_used a i)"
proof -
  have len: "length (ca_bits a) = bitmap_bytes" using assms by (simp add: ca_inv_def)
  show ?thesis
    using ca_find_free_loop_eq [of "ca_bits a" 0 "ca_bits a"] len ca_is_used_bit [OF len]
    by (simp add: ca_find_free_def split: option.splits)
qed

lemma ca_is_full_iff:
  assumes "ca_inv a"
  shows "ca_is_full a \<longleftrightarrow> (\<forall>i < max_cursors. ca_is_used a i)"
proof -
  have "ca_count a = card {i. ca_is_used a i}" using assms by (simp add: ca_inv_def)
  then have "ca_is_full a \<longleftrightarrow> card {i. ca_is_used a i} = card {..<max_cursors}"
    by (simp add: ca_is_full_def)
  also have "\<dots> \<longleftrightarrow> {i. ca_is_used a i} = {..<max_cursors}"
    using card_subset_eq [OF finite_lessThan ca_used_bound] by auto
  also have "\<dots> \<longleftrightarrow> (\<forall>i < max_cursors. ca_is_used a i)" using ca_used_bound [of a] by auto
  finally show ?thesis .
qed

lemma ca_alloc_cases:
  assumes inv: "ca_inv a"
  obtains (full) "\<forall>i < max_cursors. ca_is_used a i" "ca_alloc a = (Inl (DiskFull 0), a)"
  | (lowest) cid where "cid < max_cursors" "\<not> ca_is_used a cid" "\<forall>i < cid. ca_is_used a i"
      "ca_alloc a = (Inr cid, ca_set_used cid a)" "ca_inv (ca_set_used cid a)"
      "ca_is_used (ca_set_used cid a) = (ca_is_used a)(cid := True)"
proof (cases "ca_is_full a")
  case True
  then show ?thesis using full ca_is_full_iff [OF inv] by (simp add: ca_alloc_def)
next
  case False
  then obtain cid where c: "ca_find_free a = Some cid"
    using ca_find_free_eq [OF inv] ca_is_full_iff [OF inv] by (cases "ca_find_free a") auto
  with ca_find_free_eq [OF inv] have i: "cid < max_cursors" "\<not> ca_is_used a cid"
    "\<forall>i < cid. ca_is_used a i" by auto
  have len: "length (ca_bits a) = bitmap_bytes" using inv by (simp add: ca_inv_def)
  show ?thesis using lowest [OF i _ ca_set_used_inv [OF inv i(1,2)] ca_is_used_set [OF len i(1)]]
    by (simp add: ca_alloc_def False c)
qed

lemma ca_free_eq:
  assumes inv: "ca_inv a"
  shows "fst (ca_free i a) = ca_is_used a i" "ca_inv (snd (ca_free i a))"
    "ca_is_used (snd (ca_free i a)) = (ca_is_used a)(i := False)"
proof -
  have len: "length (ca_bits a) = bitmap_bytes" and cnt: "ca_count a = card {j. ca_is_used a j}"
    using inv by (simp_all add: ca_inv_def)
  show "fst (ca_free i a) = ca_is_used a i" by (auto simp: ca_free_def ca_is_used_def Let_def)
  let ?a = "a\<lparr>ca_bits := (ca_bits a)[i div 8 := ca_bits a ! (i div 8) AND NOT (push_bit (i mod 8) 1)],
               ca_count := ca_count a - 1\<rparr>"
  have free: "snd (ca_free i a) = (if ca_is_used a i then ?a else a)"
    by (auto simp: ca_free_def ca_is_used_def split_bit_def Let_def)
  have used: "ca_is_used ?a = (ca_is_used a)(i := False)" if u: "ca_is_used a i"
  proof
    fix j
    have "i div 8 < length (ca_bits a)" using u len by (simp add: ca_is_used_bit bit_at_def)
    then show "ca_is_used ?a j = ((ca_is_used a)(i := False)) j"
      using bit_at_clear [of i "ca_bits a" j] len
      by (simp add: ca_is_used_bit del: push_bit_of_1)
  qed
  then show "ca_is_used (snd (ca_free i a)) = (ca_is_used a)(i := False)" unfolding free by (auto simp: fun_eq_iff)
  show "ca_inv (snd (ca_free i a))"
  proof (cases "ca_is_used a i")
    case True
    have "{j. ca_is_used ?a j} = {j. ca_is_used a j} - {i}" using used [OF True] by auto
    moreover have "card ({j. ca_is_used a j} - {i}) = ca_count a - 1"
      using True cnt by (simp add: card_Diff_singleton)
    ultimately show ?thesis using True len free by (simp add: ca_inv_def)
  qed (use inv free in simp)
qed

lemma ca_new_inv: "ca_inv ca_new" and ca_new_unused: "\<not> ca_is_used ca_new i"
proof -
  show u: "\<not> ca_is_used ca_new i" for i
    by (simp add: ca_is_used_bit ca_new_def)
  show "ca_inv ca_new" using u by (simp add: ca_inv_def) (simp add: ca_new_def)
qed

text \<open>The allocator as a pool of identifiers.\<close>

definition ca_take :: "cursor_allocator \<Rightarrow> usize option \<times> cursor_allocator" where
  "ca_take a = (case ca_alloc a of (Inl _, a') \<Rightarrow> (None, a') | (Inr i, a') \<Rightarrow> (Some i, a'))"

definition ca_give :: "usize \<Rightarrow> cursor_allocator \<Rightarrow> cursor_allocator" where
  "ca_give i a = snd (ca_free i a)"

interpretation cursors: id_pool ca_inv ca_is_used max_cursors "\<lambda>_ :: unit. ca_take" ca_give
proof
  fix a i a' assume inv: "ca_inv a"
  show "i < max_cursors \<and> \<not> ca_is_used a i \<and> ca_inv a' \<and> ca_is_used a' = (ca_is_used a)(i := True)"
    if "ca_take a = (Some i, a')"
    by (rule ca_alloc_cases [OF inv]) (use that in \<open>auto simp: ca_take_def\<close>)
  show "a' = a \<and> (\<forall>i < max_cursors. ca_is_used a i)" if "ca_take a = (None, a')"
    by (rule ca_alloc_cases [OF inv]) (use that in \<open>auto simp: ca_take_def\<close>)
  show "ca_inv (ca_give i a) \<and> ca_is_used (ca_give i a) = (ca_is_used a)(i := False)"
    using ca_free_eq [OF inv] by (simp add: ca_give_def)
qed

section \<open>Properties\<close>

lemma ca_alloc_correct:
  assumes inv: "ca_inv a"
  shows "if \<forall>i < max_cursors. ca_is_used a i then ca_alloc a = (Inl (DiskFull 0), a)
    else \<exists>cid a'. ca_alloc a = (Inr cid, a') \<and> ca_inv a' \<and> cid = (LEAST i. \<not> ca_is_used a i) \<and>
           ca_is_used a' = (ca_is_used a)(cid := True) \<and> ca_count a' = ca_count a + 1"
proof (rule ca_alloc_cases [OF inv])
  fix cid assume c: "cid < max_cursors" "\<not> ca_is_used a cid" "\<forall>i < cid. ca_is_used a i"
    "ca_alloc a = (Inr cid, ca_set_used cid a)" "ca_inv (ca_set_used cid a)"
    "ca_is_used (ca_set_used cid a) = (ca_is_used a)(cid := True)"
  have "(LEAST i. \<not> ca_is_used a i) = cid"
    using c(2,3) by (intro Least_equality) (auto simp: not_less [symmetric])
  moreover have "ca_count (ca_set_used cid a) = ca_count a + 1"
    by (simp add: ca_set_used_def split_bit_def)
  moreover have "\<not> (\<forall>i < max_cursors. ca_is_used a i)" using c(1,2) by blast
  ultimately show ?thesis using c(4-6) by auto
qed simp

lemma ca_alloc_correct_witness: "\<exists>a'. ca_alloc ca_new = (Inr 0, a') \<and> ca_inv a' \<and> ca_count a' = 1"
proof -
  have "\<not> (\<forall>i < max_cursors. ca_is_used ca_new i)" using ca_new_unused by (simp add: max_cursors_def exI [of _ 0])
  moreover have "(LEAST i. \<not> ca_is_used ca_new i) = 0" using ca_new_unused by (intro Least_equality) auto
  moreover have "ca_count ca_new = 0" by (simp add: ca_new_def)
  ultimately show ?thesis using ca_alloc_correct [OF ca_new_inv] by (simp only: if_False) auto
qed

text \<open>
  C26: In every history of allocations and frees, frees of ids that are not held or out of range
  included, the count is the number of ids held, an id is reported used exactly when it is held,
  a free answers true exactly for an id that is held, an allocation never returns one that is
  held, and it fails, with DiskFull, exactly when all are.
\<close>

lemma ca_no_double_alloc:
  assumes "pool_reach (\<lambda>_ :: unit. ca_take) ca_give ca_new a held"
  shows "ca_count a = card held \<and>
    (\<forall>i. ca_is_used a i \<longleftrightarrow> i \<in> held) \<and>
    (\<forall>i. fst (ca_free i a) \<longleftrightarrow> i \<in> held) \<and>
    (case ca_alloc a of
       (Inr cid, _) \<Rightarrow> cid < max_cursors \<and> cid \<notin> held
     | (Inl e, _) \<Rightarrow> e = DiskFull 0 \<and> held = {..<max_cursors})"
proof -
  have held: "ca_inv a" "\<forall>i. ca_is_used a i \<longleftrightarrow> i \<in> held"
    using cursors.pool_held [OF assms ca_new_inv] ca_new_unused by auto
  have "case ca_take a of (Some i, _) \<Rightarrow> i < max_cursors \<and> i \<notin> held | (None, _) \<Rightarrow> held = {..<max_cursors}"
    using cursors.pool_no_double_alloc [OF assms ca_new_inv] ca_new_unused by simp
  moreover have "ca_count a = card held" using held by (simp add: ca_inv_def)
  moreover have "fst (ca_free i a) \<longleftrightarrow> i \<in> held" for i using ca_free_eq(1) [OF held(1)] held(2) by simp
  ultimately show ?thesis
    using held(2) by (cases rule: ca_alloc_cases [OF held(1)]) (auto simp: ca_take_def)
qed

lemma ca_no_double_alloc_witness:
  "\<exists>a'. pool_reach (\<lambda>_ :: unit. ca_take) ca_give ca_new a' {0} \<and> ca_count a' = 1 \<and> \<not> fst (ca_free 5 a') \<and>
     (case ca_alloc a' of (Inr cid, _) \<Rightarrow> cid \<noteq> 0 | (Inl e, _) \<Rightarrow> False)"
proof -
  have "0 < max_cursors" by (simp add: max_cursors_def)
  then obtain b where b: "ca_alloc ca_new = (Inr 0, b)"
    using ca_new_unused by (metis ca_alloc_cases [OF ca_new_inv] gr0I)
  define a' where "a' = ca_give 5 b"
  have "pool_reach (\<lambda>_ :: unit. ca_take) ca_give ca_new b (insert 0 {})"
    by (rule pool_alloc [OF pool_start, where m = "()"]) (simp add: ca_take_def b)
  from pool_release [OF this, of 5] have r: "pool_reach (\<lambda>_ :: unit. ca_take) ca_give ca_new a' (insert 0 {})"
    by (simp add: a'_def)
  have ne: "insert 0 {} \<noteq> {..<max_cursors}"
  proof
    assume "insert 0 {} = {..<max_cursors}"
    then have "(1::nat) \<in> {0}" by (simp add: max_cursors_def)
    then show False by simp
  qed
  obtain r1 a1 where a1: "ca_alloc a' = (r1, a1)" by fastforce
  show ?thesis
    using ca_no_double_alloc [OF r] r ne by (intro exI [of _ a']) (cases r1; simp add: a1)
qed

end
