(* ===== verification/Fs_Block.thy ===== *)
theory Fs_Block
  imports Prelude Wredit_Error
begin

text \<open>
  Block devices (\<open>crates/wredit/src/fs_block.rs\<close>). The trait \<open>BlockDevice\<close> is the locale
  \<open>block_device\<close>: its laws say what a read returns after a write, and its lemmas are what the file
  system relies on. \<open>MemoryDisk\<close>, one vector of bytes, implements it.
\<close>

section \<open>The memory disk\<close>

definition block_size :: usize where
  "block_size = 4096"

definition max_blocks :: nat where
  "max_blocks = block_size * 8"

record memory_disk =
  md_blocks :: "u8 list"

text \<open>\<open>reserve\<close> says whether the allocation of the given number of bytes succeeds.\<close>

definition md_new :: "(usize \<Rightarrow> bool) \<Rightarrow> nat \<Rightarrow> wredit_error + memory_disk" where
  "md_new reserve block_count =
     (if block_count = 0 \<or> block_count > max_blocks then Inl (BlockOutOfRange block_count max_blocks)
      else let byte_len = block_count * block_size in
        if byte_len > usize_max then Inl (LimitExceeded ''memory disk size'')
        else if \<not> reserve byte_len then Inl (DiskFull 0)
        else Inr \<lparr>md_blocks = replicate byte_len 0\<rparr>)"

definition md_block_count :: "memory_disk \<Rightarrow> nat" where
  "md_block_count d = length (md_blocks d) div block_size"

definition md_byte_offset :: "memory_disk \<Rightarrow> nat \<Rightarrow> wredit_error + usize" where
  "md_byte_offset d index =
     (let count = md_block_count d in
      if index \<ge> count then Inl (BlockOutOfRange index count)
      else if index * block_size > usize_max then Inl (InvalidAddress index)
      else Inr (index * block_size))"

definition check_transfer :: "usize \<Rightarrow> wredit_error + unit" where
  "check_transfer len =
     (if len \<noteq> block_size then Inl (InvalidOperation ''block transfers must be exactly one block'')
      else Inr ())"

text \<open>\<open>read_block\<close> fills a buffer of \<open>out_len\<close> bytes; the model returns what it holds then.\<close>

definition md_read_block :: "memory_disk \<Rightarrow> nat \<Rightarrow> usize \<Rightarrow> (wredit_error + u8 list) option" where
  "md_read_block d index out_len =
     (case check_transfer out_len of
        Inl e \<Rightarrow> Some (Inl e)
      | Inr _ \<Rightarrow> (case md_byte_offset d index of
            Inl e \<Rightarrow> Some (Inl e)
          | Inr start \<Rightarrow> map_option Inr (mem_read (md_blocks d) start block_size)))"

definition md_write_block :: "nat \<Rightarrow> u8 list \<Rightarrow> memory_disk \<Rightarrow> (memory_disk, unit) wredit_op" where
  "md_write_block index data d =
     (case check_transfer (length data) of
        Inl e \<Rightarrow> Some (Inl e, d)
      | Inr _ \<Rightarrow> (case md_byte_offset d index of
            Inl e \<Rightarrow> Some (Inl e, d)
          | Inr start \<Rightarrow> do {
              blocks' \<leftarrow> mem_write (md_blocks d) start data;
              Some (Inr (), d\<lparr>md_blocks := blocks'\<rparr>) }))"

section \<open>The contract of a block device\<close>

locale block_device =
  fixes inv :: "'d \<Rightarrow> bool" and count :: "'d \<Rightarrow> nat"
    and rd :: "'d \<Rightarrow> nat \<Rightarrow> (wredit_error + u8 list) option"
    and wr :: "nat \<Rightarrow> u8 list \<Rightarrow> 'd \<Rightarrow> ('d, unit) wredit_op"
  assumes read_ok: "inv d \<Longrightarrow> i < count d \<Longrightarrow> \<exists>bs. rd d i = Some (Inr bs) \<and> length bs = block_size"
    and read_bad: "inv d \<Longrightarrow> count d \<le> i \<Longrightarrow> \<exists>e. rd d i = Some (Inl e)"
    and write_ok: "inv d \<Longrightarrow> i < count d \<Longrightarrow> length bs = block_size \<Longrightarrow>
      \<exists>d'. wr i bs d = Some (Inr (), d') \<and> inv d' \<and> count d' = count d \<and> rd d' i = Some (Inr bs) \<and>
           (\<forall>j. j \<noteq> i \<longrightarrow> rd d' j = rd d j)"
    and write_bad: "inv d \<Longrightarrow> count d \<le> i \<or> length bs \<noteq> block_size \<Longrightarrow> \<exists>e. wr i bs d = Some (Inl e, d)"
begin

text \<open>Writing back what was read changes no block, and a later write to a block wins.\<close>

lemma write_same:
  assumes "inv d" "i < count d" "rd d i = Some (Inr bs)"
  shows "\<exists>d'. wr i bs d = Some (Inr (), d') \<and> inv d' \<and> (\<forall>j. rd d' j = rd d j)"
proof -
  have "length bs = block_size" using read_ok [OF assms(1,2)] assms(3) by auto
  from write_ok [OF assms(1,2) this] show ?thesis using assms(3) by metis
qed

lemma write_twice:
  assumes "inv d" "i < count d" "length a = block_size" "length b = block_size"
  shows "\<exists>d1 d2. wr i a d = Some (Inr (), d1) \<and> wr i b d1 = Some (Inr (), d2) \<and> inv d2 \<and>
    rd d2 i = Some (Inr b) \<and> (\<forall>j. j \<noteq> i \<longrightarrow> rd d2 j = rd d j)"
proof -
  obtain d1 where d1: "wr i a d = Some (Inr (), d1)" "inv d1" "count d1 = count d"
    "\<forall>j. j \<noteq> i \<longrightarrow> rd d1 j = rd d j"
    using write_ok [OF assms(1,2,3)] by blast
  with assms(2) have "i < count d1" by simp
  from write_ok [OF d1(2) this assms(4)] d1(1,4) show ?thesis by metis
qed

text \<open>Writes to different blocks commute, as far as any read can tell.\<close>

lemma write_commute:
  assumes "inv d" "i < count d" "j < count d" "i \<noteq> j" "length a = block_size" "length b = block_size"
  shows "\<exists>d1 d2 e1 e2. wr i a d = Some (Inr (), d1) \<and> wr j b d1 = Some (Inr (), d2) \<and>
    wr j b d = Some (Inr (), e1) \<and> wr i a e1 = Some (Inr (), e2) \<and> (\<forall>k. rd d2 k = rd e2 k)"
proof -
  obtain d1 where d1: "wr i a d = Some (Inr (), d1)" "inv d1" "count d1 = count d"
    "rd d1 i = Some (Inr a)" "\<forall>k. k \<noteq> i \<longrightarrow> rd d1 k = rd d k"
    using write_ok [OF assms(1,2,5)] by blast
  obtain d2 where d2: "wr j b d1 = Some (Inr (), d2)" "rd d2 j = Some (Inr b)"
    "\<forall>k. k \<noteq> j \<longrightarrow> rd d2 k = rd d1 k"
    using write_ok [OF d1(2), of j b] assms(3,6) d1(3) by auto
  obtain e1 where e1: "wr j b d = Some (Inr (), e1)" "inv e1" "count e1 = count d"
    "rd e1 j = Some (Inr b)" "\<forall>k. k \<noteq> j \<longrightarrow> rd e1 k = rd d k"
    using write_ok [OF assms(1,3,6)] by blast
  obtain e2 where e2: "wr i a e1 = Some (Inr (), e2)" "rd e2 i = Some (Inr a)"
    "\<forall>k. k \<noteq> i \<longrightarrow> rd e2 k = rd e1 k"
    using write_ok [OF e1(2), of i a] assms(2,5) e1(3) by auto
  have "rd d2 k = rd e2 k" for k
    using d1(4,5) d2(2,3) e1(4,5) e2(2,3) assms(4) by (cases "k = i"; cases "k = j") auto
  with d1(1) d2(1) e1(1) e2(1) show ?thesis by blast
qed

end

section \<open>The memory disk is a block device\<close>

definition md_inv :: "memory_disk \<Rightarrow> bool" where
  "md_inv d \<longleftrightarrow> length (md_blocks d) = md_block_count d * block_size \<and> md_block_count d \<le> max_blocks"

abbreviation md_read :: "memory_disk \<Rightarrow> nat \<Rightarrow> (wredit_error + u8 list) option" where
  "md_read d i \<equiv> md_read_block d i block_size"

lemma block_size_pos [simp]: "0 < block_size"
  by (simp add: block_size_def)

lemma md_offset_ok:
  assumes "md_inv d" "i < md_block_count d"
  shows "md_byte_offset d i = Inr (i * block_size)" "i * block_size + block_size \<le> length (md_blocks d)"
proof -
  have le: "Suc i * block_size \<le> md_block_count d * block_size"
    using assms(2) by (intro mult_le_mono1) simp
  then show "i * block_size + block_size \<le> length (md_blocks d)" using assms(1) by (simp add: md_inv_def)
  have "md_block_count d * block_size \<le> max_blocks * block_size"
    using assms(1) by (simp add: md_inv_def)
  also have "\<dots> \<le> usize_max" by (simp add: max_blocks_def block_size_def usize_max_def)
  finally have "i * block_size \<le> usize_max" using le by simp
  then show "md_byte_offset d i = Inr (i * block_size)"
    using assms(2) by (simp add: md_byte_offset_def)
qed

lemma md_read_eq:
  assumes "md_inv d"
  shows "md_read d i = (if i < md_block_count d
    then Some (Inr (take block_size (drop (i * block_size) (md_blocks d))))
    else Some (Inl (BlockOutOfRange i (md_block_count d))))"
  using md_offset_ok [OF assms, of i]
  by (simp add: md_read_block_def check_transfer_def md_byte_offset_def mem_simps Let_def)

lemma md_write_eq:
  assumes "md_inv d" "i < md_block_count d" "length bs = block_size"
  shows "md_write_block i bs d = Some (Inr (), d\<lparr>md_blocks := take (i * block_size) (md_blocks d) @ bs
           @ drop (i * block_size + block_size) (md_blocks d)\<rparr>)"
  using md_offset_ok [OF assms(1,2)] assms(3)
  by (simp add: md_write_block_def check_transfer_def mem_simps)

interpretation disk: block_device md_inv md_block_count md_read md_write_block
proof
  fix d i assume inv: "md_inv d"
  show "\<exists>bs. md_read d i = Some (Inr bs) \<and> length bs = block_size" if "i < md_block_count d"
    using that md_offset_ok(2) [OF inv that] md_read_eq [OF inv] by simp
  show "\<exists>e. md_read d i = Some (Inl e)" if "md_block_count d \<le> i"
    using that md_read_eq [OF inv] by simp
next
  fix d :: memory_disk and i and bs :: "u8 list"
  assume inv: "md_inv d" and i: "i < md_block_count d" and len: "length bs = block_size"
  let ?B = "md_blocks d" and ?o = "i * block_size"
  let ?d = "d\<lparr>md_blocks := take ?o ?B @ bs @ drop (?o + block_size) ?B\<rparr>"
  note off = md_offset_ok(2) [OF inv i]
  have total: "length (md_blocks ?d) = length ?B" using off len by simp
  then have cnt: "md_block_count ?d = md_block_count d" by (simp add: md_block_count_def)
  have inv': "md_inv ?d" using inv cnt total by (simp add: md_inv_def)
  have same: "md_read ?d i = Some (Inr bs)" using md_read_eq [OF inv'] cnt i off len by simp
  have "md_read ?d j = md_read d j" if "j \<noteq> i" for j
  proof (cases "j < md_block_count d")
    case True
    let ?q = "j * block_size"
    have "?q + block_size \<le> ?o \<or> ?o + block_size \<le> ?q"
    proof (cases "j < i")
      case True
      then have "Suc j * block_size \<le> ?o" by (intro mult_le_mono1) simp
      then show ?thesis by simp
    next
      case False
      with that have "Suc i * block_size \<le> ?q" by (intro mult_le_mono1) simp
      then show ?thesis by simp
    qed
    then have "take block_size (drop ?q (take ?o ?B @ bs @ drop (?o + block_size) ?B)) = take block_size (drop ?q ?B)"
      using take_drop_frame [of ?q block_size ?o bs ?B] off len by simp
    then show ?thesis using md_read_eq [OF inv] md_read_eq [OF inv'] cnt by simp
  next
    case False
    then show ?thesis using md_read_eq [OF inv] md_read_eq [OF inv'] cnt by simp
  qed
  then show "\<exists>d'. md_write_block i bs d = Some (Inr (), d') \<and> md_inv d' \<and> md_block_count d' = md_block_count d \<and>
      md_read d' i = Some (Inr bs) \<and> (\<forall>j. j \<noteq> i \<longrightarrow> md_read d' j = md_read d j)"
    using md_write_eq [OF inv i len] inv' cnt same by (intro exI [of _ ?d]) simp
next
  fix d :: memory_disk and i and bs :: "u8 list"
  assume "md_inv d" "md_block_count d \<le> i \<or> length bs \<noteq> block_size"
  then show "\<exists>e. md_write_block i bs d = Some (Inl e, d)"
    by (auto simp: md_write_block_def check_transfer_def md_byte_offset_def)
qed

section \<open>Properties\<close>

lemma memory_disk_new:
  assumes "0 < n" "n \<le> max_blocks" "reserve (n * block_size)"
  shows "\<exists>d. md_new reserve n = Inr d \<and> md_inv d \<and> md_block_count d = n \<and>
    (\<forall>i < n. md_read d i = Some (Inr (replicate block_size 0)))"
proof -
  let ?d = "\<lparr>md_blocks = replicate (n * block_size) 0\<rparr>"
  have "n * block_size \<le> max_blocks * block_size" using assms(2) by simp
  also have "\<dots> \<le> usize_max" by (simp add: max_blocks_def block_size_def usize_max_def)
  finally have new: "md_new reserve n = Inr ?d" using assms by (simp add: md_new_def Let_def)
  have cnt: "md_block_count ?d = n" by (simp add: md_block_count_def)
  then have inv: "md_inv ?d" using assms(2) by (simp add: md_inv_def)
  have "md_read ?d i = Some (Inr (replicate block_size 0))" if "i < n" for i
    using md_read_eq [OF inv, of i] md_offset_ok(2) [OF inv, of i] that cnt by simp
  with new inv cnt show ?thesis by blast
qed

lemma memory_disk_new_witness:
  "\<exists>d. md_new (\<lambda>_. True) 4 = Inr d \<and> md_block_count d = 4 \<and> md_read d 3 = Some (Inr (replicate block_size 0))"
  using memory_disk_new [of 4 "\<lambda>_. True"] by (auto simp: max_blocks_def block_size_def)

lemma memory_disk_read_write:
  assumes "md_inv d" "i < md_block_count d" "length bs = block_size"
  shows "\<exists>d'. md_write_block i bs d = Some (Inr (), d') \<and> md_inv d' \<and> md_block_count d' = md_block_count d \<and>
    md_read d' i = Some (Inr bs) \<and> (\<forall>j. j \<noteq> i \<longrightarrow> md_read d' j = md_read d j)"
  using assms by (rule disk.write_ok)

lemma memory_disk_read_write_witness:
  "\<exists>d d'. md_new (\<lambda>_. True) 2 = Inr d \<and> md_write_block 1 (replicate block_size 7) d = Some (Inr (), d') \<and>
     md_read d' 1 = Some (Inr (replicate block_size 7)) \<and> md_read d' 0 = Some (Inr (replicate block_size 0))"
proof -
  let ?d = "\<lparr>md_blocks = replicate (2 * block_size) 0\<rparr>"
  have new: "md_new (\<lambda>_. True) 2 = Inr ?d"
    by (simp add: md_new_def max_blocks_def block_size_def usize_max_def)
  have cnt: "md_block_count ?d = 2" by (simp add: md_block_count_def)
  then have inv: "md_inv ?d" by (simp add: md_inv_def max_blocks_def block_size_def)
  have "md_read ?d 0 = Some (Inr (replicate block_size 0))"
    using md_read_eq [OF inv, of 0] cnt by (simp add: min_def)
  with memory_disk_read_write [OF inv, of 1 "replicate block_size 7"] new cnt show ?thesis by auto
qed

end
