(* ===== verification/Fs_Bitmap.thy ===== *)
theory Fs_Bitmap
  imports Bits Id_Pool Fs_Block
begin

text \<open>
  The block bitmap of the disk file system (\<open>crates/wredit/src/fs_bitmap.rs\<close>): one block of
  bytes read as a bit set. The searches work on 64-bit words and fall back to bytes and single
  bits at the end of the range; the lemmas show that they agree with the set of used indices.
\<close>

section \<open>Operations\<close>

type_synonym bitmap = "u8 list"

definition bm_new :: bitmap where
  "bm_new = replicate block_size 0"

definition bm_is_used :: "bitmap \<Rightarrow> nat \<Rightarrow> bool" where
  "bm_is_used b index =
     (let (byte, mask) = split_bit index in
      if byte < length b then b ! byte AND mask \<noteq> 0 else False)"

definition bm_set_used :: "nat \<Rightarrow> bitmap \<Rightarrow> bitmap" where
  "bm_set_used index b =
     (let (byte, mask) = split_bit index in
      if byte < length b then b[byte := b ! byte OR mask] else b)"

definition bm_set_free :: "nat \<Rightarrow> bitmap \<Rightarrow> bitmap" where
  "bm_set_free index b =
     (let (byte, mask) = split_bit index in
      if byte < length b then b[byte := b ! byte AND NOT mask] else b)"

fun words_of :: "u8 list \<Rightarrow> u64 list" where
  "words_of (b0 # b1 # b2 # b3 # b4 # b5 # b6 # b7 # bs) =
     from_le_bytes [b0, b1, b2, b3, b4, b5, b6, b7] # words_of bs"
| "words_of _ = []"

text \<open>The word loop of \<open>find_free\<close>: the candidate of the first word that is not full.\<close>

fun find_free_word :: "nat \<Rightarrow> u64 list \<Rightarrow> nat option" where
  "find_free_word position [] = None"
| "find_free_word position (w # ws) =
     (if w \<noteq> 0xFFFFFFFFFFFFFFFF then Some (position * 64 + trailing_zeros (NOT w))
      else find_free_word (position + 1) ws)"

function skip_used :: "bitmap \<Rightarrow> nat \<Rightarrow> nat \<Rightarrow> nat" where
  "skip_used b limit index =
     (if index < limit \<and> bm_is_used b index then skip_used b limit (index + 1) else index)"
  by pat_completeness auto
termination by (relation "measure (\<lambda>(b, limit, index). limit - index)") auto

declare skip_used.simps [simp del]

definition bm_find_free :: "bitmap \<Rightarrow> nat \<Rightarrow> nat option" where
  "bm_find_free b limit =
     (let words = limit div 64 in
      case find_free_word 0 (take words (words_of b)) of
        Some index \<Rightarrow> if index < limit then Some index else None
      | None \<Rightarrow> let index = skip_used b limit (words * 64) in
          if index < limit then Some index else None)"

text \<open>The three loops of \<open>count_used\<close>: whole words, whole bytes, single bits.\<close>

function count_bits_from :: "bitmap \<Rightarrow> nat \<Rightarrow> nat \<Rightarrow> nat \<Rightarrow> nat" where
  "count_bits_from b limit index count =
     (if index < limit
      then count_bits_from b limit (index + 1) (if bm_is_used b index then count + 1 else count)
      else count)"
  by pat_completeness auto
termination by (relation "measure (\<lambda>(b, limit, index, count). limit - index)") auto

declare count_bits_from.simps [simp del]

definition sat_add32 :: "nat \<Rightarrow> nat \<Rightarrow> nat" where
  "sat_add32 a b = min (a + b) (2 ^ 32 - 1)"

definition bm_count_used :: "bitmap \<Rightarrow> nat \<Rightarrow> nat option" where
  "bm_count_used b limit = do {
     let whole_words = limit div 64;
     let count = foldl (\<lambda>c w. sat_add32 c (count_ones w)) 0 (take whole_words (words_of b));
     let whole_bytes = limit div 8;
     bytes \<leftarrow> mem_read b (whole_words * 8) (whole_bytes - whole_words * 8);
     let count = foldl (\<lambda>c byte. sat_add32 c (count_ones byte)) count bytes;
     Some (count_bits_from b limit (whole_bytes * 8) count) }"

definition bm_count_free :: "bitmap \<Rightarrow> nat \<Rightarrow> nat option" where
  "bm_count_free b limit = map_option (\<lambda>used. limit - used) (bm_count_used b limit)"

definition bm_from_bytes :: "u8 list \<Rightarrow> wredit_error + bitmap" where
  "bm_from_bytes bytes =
     (if length bytes \<noteq> block_size
      then Inl (InvalidOperation ''a bitmap occupies exactly one block'')
      else Inr bytes)"

section \<open>The bit set\<close>

lemma bm_is_used_bit: "bm_is_used b i = bit_at b i"
  using and_mask_bit [of "i mod 8" "b ! (i div 8)"]
  by (simp add: bm_is_used_def split_bit_def bit_at_def)

lemma bm_set_used_eq:
  "i < 8 * length b \<Longrightarrow> bm_is_used (bm_set_used i b) = (bm_is_used b)(i := True)"
  using bit_at_set [of i b]
  by (auto simp: fun_eq_iff bm_is_used_bit bm_set_used_def split_bit_def div_less_iff_less_mult mult.commute)

lemma bm_set_free_eq: "bm_is_used (bm_set_free i b) = (bm_is_used b)(i := False)"
proof (cases "i div 8 < length b")
  case True
  then show ?thesis using bit_at_clear [of i b]
    by (auto simp: fun_eq_iff bm_is_used_bit bm_set_free_def split_bit_def)
next
  case False
  then show ?thesis by (auto simp: fun_eq_iff bm_is_used_bit bm_set_free_def split_bit_def bit_at_def)
qed

lemma bm_length [simp]: "length (bm_set_used i b) = length b" "length (bm_set_free i b) = length b"
  by (simp_all add: bm_set_used_def bm_set_free_def split_bit_def)

lemma length_words_of [simp]: "length (words_of bs) = length bs div 8"
  by (induction bs rule: words_of.induct) simp_all

lemma words_of_nth:
  "p < length bs div 8 \<Longrightarrow> words_of bs ! p = from_le_bytes (take 8 (drop (8 * p) bs))"
proof (induction bs arbitrary: p rule: words_of.induct)
  case (1 b0 b1 b2 b3 b4 b5 b6 b7 bs)
  show ?case
  proof (cases p)
    case 0
    then show ?thesis by (simp add: numeral_eq_Suc)
  next
    case (Suc q)
    have "drop (8 * p) (b0 # b1 # b2 # b3 # b4 # b5 # b6 # b7 # bs) = drop (8 * q) bs"
      by (simp add: Suc numeral_eq_Suc)
    moreover have "q < length bs div 8" using 1 Suc by simp
    ultimately show ?thesis using 1(1) Suc by simp
  qed
qed simp_all

lemma word_bit_words_of:
  assumes "i < length bs div 8 * 64"
  shows "word_bit (words_of bs) i = bit_at bs i"
proof -
  let ?p = "i div 64" and ?k = "i mod 64"
  have p: "?p < length bs div 8" using assms by (simp add: div_less_iff_less_mult)
  then have len: "8 * ?p + 8 \<le> length bs" by linarith
  have i: "i div 8 = 8 * ?p + ?k div 8" "i mod 8 = ?k mod 8"
    using mod_mult2_eq [of i 8 8] div_mult2_eq [of i 8 8] by simp_all
  have k: "?k div 8 < 8" by (simp add: div_less_iff_less_mult)
  have "bit (words_of bs ! ?p) ?k = bit (bs ! (8 * ?p + ?k div 8)) (?k mod 8)"
    unfolding words_of_nth [OF p] using len k by (simp add: bit_from_le_bytes)
  with p i len k show ?thesis by (simp add: word_bit_def)
qed

section \<open>Searching\<close>

lemma find_free_word_eq:
  assumes "vs = drop p ws" "p \<le> length ws" "\<forall>q < p. ws ! q = - 1"
  shows "case find_free_word p vs of
      None \<Rightarrow> \<forall>q < length ws. ws ! q = - 1
    | Some n \<Rightarrow> n < length ws * 64 \<and> \<not> word_bit ws n \<and> (\<forall>i < n. word_bit ws i)"
  using assms
proof (induction p vs rule: find_free_word.induct)
  case (1 p)
  then show ?case by simp
next
  case (2 p w vs)
  from 2(2,3) have pos: "p < length ws" by (cases "p = length ws") auto
  have w: "ws ! p = w" and rest: "vs = drop (p + 1) ws"
    using 2(2) pos by (simp_all add: Cons_nth_drop_Suc [symmetric])
  show ?case
  proof (cases "w = - 1")
    case True
    then have "\<forall>q < p + 1. ws ! q = - 1" using 2(4) w by (auto simp: less_Suc_eq)
    from 2(1) [OF _ rest _ this] True pos show ?thesis by simp
  next
    case False
    let ?n = "p * 64 + trailing_zeros (NOT w)"
    have n: "\<not> word_bit ws ?n" "\<forall>i < ?n. word_bit ws i" "?n < Suc p * 64"
      using first_free_word [OF pos, unfolded w, OF False 2(4)] by simp_all
    have "Suc p * 64 \<le> length ws * 64" using pos by (intro mult_le_mono1) simp
    with n(3) have "?n < length ws * 64" by linarith
    moreover have "w \<noteq> 0xFFFFFFFFFFFFFFFF" using False by auto
    ultimately show ?thesis using n(1,2) by simp
  qed
qed

lemma skip_used_eq:
  assumes "index \<le> limit"
  shows "index \<le> skip_used b limit index \<and> skip_used b limit index \<le> limit \<and>
    (\<forall>i. index \<le> i \<longrightarrow> i < skip_used b limit index \<longrightarrow> bm_is_used b i) \<and>
    (skip_used b limit index < limit \<longrightarrow> \<not> bm_is_used b (skip_used b limit index))"
  using assms
proof (induction b limit index rule: skip_used.induct)
  case (1 b limit index)
  show ?case
  proof (cases "index < limit \<and> bm_is_used b index")
    case True
    then have eq: "skip_used b limit index = skip_used b limit (index + 1)"
      by (subst skip_used.simps) simp
    have ih: "index + 1 \<le> skip_used b limit (index + 1) \<and> skip_used b limit (index + 1) \<le> limit \<and>
      (\<forall>i. index + 1 \<le> i \<longrightarrow> i < skip_used b limit (index + 1) \<longrightarrow> bm_is_used b i) \<and>
      (skip_used b limit (index + 1) < limit \<longrightarrow> \<not> bm_is_used b (skip_used b limit (index + 1)))"
      using 1(1) [OF True] True by simp
    have "bm_is_used b i" if "index \<le> i" "i < skip_used b limit (index + 1)" for i
      using ih True that by (cases "i = index") auto
    with ih show ?thesis unfolding eq by simp
  next
    case False
    then have "skip_used b limit index = index" by (subst skip_used.simps) (simp only: if_False)
    with False 1(2) show ?thesis by auto
  qed
qed

lemma word_bit_take_words:
  assumes "i < n * 64" "n \<le> length b div 8"
  shows "word_bit (take n (words_of b)) i = bm_is_used b i"
proof -
  have "i div 64 < n" using assms(1) by (simp add: div_less_iff_less_mult)
  then have "word_bit (take n (words_of b)) i = word_bit (words_of b) i"
    using assms(2) by (simp add: word_bit_def)
  also have "i < length b div 8 * 64" using assms by (meson less_le_trans mult_le_mono1)
  then have "word_bit (words_of b) i = bm_is_used b i" by (simp add: word_bit_words_of bm_is_used_bit)
  finally show ?thesis .
qed

lemma bm_find_free_eq:
  assumes "limit \<le> 8 * length b"
  shows "case bm_find_free b limit of
      None \<Rightarrow> \<forall>i < limit. bm_is_used b i
    | Some n \<Rightarrow> n < limit \<and> \<not> bm_is_used b n \<and> (\<forall>i < n. bm_is_used b i)"
proof -
  let ?n = "limit div 64" let ?ws = "take ?n (words_of b)"
  have "8 * length b div (8 * 8) = length b div 8" by (rule div_mult_mult1) simp
  then have n: "?n \<le> length b div 8" using div_le_mono [OF assms, of 64] by simp
  have len: "length ?ws = ?n" using n by simp
  have le: "?n * 64 \<le> limit" by simp
  note w = find_free_word_eq [of ?ws 0 ?ws, simplified]
  show ?thesis
  proof (cases "find_free_word 0 ?ws")
    case (Some m)
    with w len have m: "m < ?n * 64" "\<not> word_bit ?ws m" "\<forall>i < m. word_bit ?ws i" by auto
    have "bm_is_used b i" if "i < m" for i
      using word_bit_take_words [OF _ n, of i] m(1,3) that by simp
    moreover have "\<not> bm_is_used b m" using word_bit_take_words [OF m(1) n] m(2) by simp
    moreover have "m < limit" using m(1) le by linarith
    ultimately show ?thesis using Some by (simp add: bm_find_free_def)
  next
    case None
    with w have "\<forall>q < ?n. ?ws ! q = - 1" using len by simp
    then have "\<forall>i < ?n * 64. word_bit ?ws i" using full_words [of ?n ?ws] len by simp
    then have full: "\<forall>i < ?n * 64. bm_is_used b i" using word_bit_take_words [OF _ n] by blast
    note s = skip_used_eq [OF le, of b]
    have "bm_is_used b i" if "i < skip_used b limit (?n * 64)" for i
      using full s that by (cases "i < ?n * 64") (auto simp: not_less)
    with None s show ?thesis by (auto simp: bm_find_free_def Let_def)
  qed
qed

section \<open>Counting\<close>

lemma foldl_sat_add32:
  "c + sum_list (map f xs) < 2 ^ 32 \<Longrightarrow> foldl (\<lambda>c x. sat_add32 c (f x)) c xs = c + sum_list (map f xs)"
proof (induction xs arbitrary: c)
  case (Cons x xs)
  then have "sat_add32 c (f x) = c + f x" by (simp add: sat_add32_def)
  with Cons show ?case by simp
qed simp

lemma count_bits_from_eq:
  "count_bits_from b limit index count = count + card {i. index \<le> i \<and> i < limit \<and> bm_is_used b i}"
proof (induction b limit index count rule: count_bits_from.induct)
  case (1 b limit index count)
  show ?case
  proof (cases "index < limit")
    case True
    let ?A = "{i. index + 1 \<le> i \<and> i < limit \<and> bm_is_used b i}"
    have "{i. index \<le> i \<and> i < limit \<and> bm_is_used b i} = (if bm_is_used b index then insert index ?A else ?A)"
      using True by (auto simp: Suc_le_eq le_less)
    moreover have "card (insert index ?A) = Suc (card ?A)" by simp
    ultimately show ?thesis
      using 1 True by (subst count_bits_from.simps) (simp split: if_splits)
  next
    case False
    then have none: "{i. index \<le> i \<and> i < limit \<and> bm_is_used b i} = {}" by auto
    from False show ?thesis unfolding none by (subst count_bits_from.simps) simp
  qed
qed

lemma sum_count_take:
  "n \<le> length b \<Longrightarrow> sum_list (map count_ones (take n b)) = card {i. i < n * 8 \<and> bm_is_used b i}"
proof -
  assume n: "n \<le> length b"
  have "bit_at (take n b) i = bm_is_used b i" if "i < n * 8" for i
  proof -
    have "i div 8 < n" using that by (simp add: div_less_iff_less_mult)
    then show ?thesis using n by (simp add: bm_is_used_bit bit_at_def)
  qed
  then have "{i. i < n * 8 \<and> bit_at (take n b) i} = {i. i < n * 8 \<and> bm_is_used b i}" by auto
  then show ?thesis using sum_count_ones [of "take n b"] n by simp
qed

lemma sum_count_words:
  assumes "n \<le> length b div 8"
  shows "sum_list (map count_ones (take n (words_of b))) = sum_list (map count_ones (take (n * 8) b))"
proof -
  have "{i. i < n * 64 \<and> word_bit (take n (words_of b)) i} = {i. i < n * 8 * 8 \<and> bm_is_used b i}"
    using word_bit_take_words [OF _ assms] by auto
  moreover have "n * 8 \<le> length b" using assms by linarith
  ultimately show ?thesis
    using sum_count_ones [of "take n (words_of b)"] sum_count_take [of "n * 8" b] assms by simp
qed

lemma bm_count_used_eq:
  assumes len: "length b = block_size" and lim: "limit \<le> 8 * block_size"
  shows "bm_count_used b limit = Some (card {i. i < limit \<and> bm_is_used b i})"
proof -
  let ?w = "limit div 64" and ?y = "limit div 8"
  let ?bytes = "take (?y - ?w * 8) (drop (?w * 8) b)"
  have y: "?y \<le> length b" using lim len by (simp add: block_size_def)
  have w: "?w \<le> length b div 8" using lim len by (simp add: block_size_def)
  have wy: "?w * 8 \<le> ?y" by (simp add: div_mult2_eq [of limit 8 8, simplified])
  have split: "take ?y b = take (?w * 8) b @ ?bytes"
    using take_add [of "?w * 8" "?y - ?w * 8" b] wy by simp
  have bytes: "mem_read b (?w * 8) (?y - ?w * 8) = Some ?bytes" using y wy by (simp add: mem_simps)
  have total: "sum_list (map count_ones (take (?w * 8) b)) + sum_list (map count_ones ?bytes)
      = card {i. i < ?y * 8 \<and> bm_is_used b i}"
    using sum_count_take [OF y] by (simp add: split)
  have "card {i. i < ?y * 8 \<and> bm_is_used b i} \<le> card {..<?y * 8}" by (intro card_mono) auto
  then have small: "card {i. i < ?y * 8 \<and> bm_is_used b i} < 2 ^ 32" using y len by (simp add: block_size_def)
  have 1: "foldl (\<lambda>c w. sat_add32 c (count_ones w)) 0 (take ?w (words_of b))
      = sum_list (map count_ones (take (?w * 8) b))"
    using foldl_sat_add32 [of 0 count_ones "take ?w (words_of b)"] sum_count_words [OF w] total small by simp
  have 2: "foldl (\<lambda>c y. sat_add32 c (count_ones y)) (sum_list (map count_ones (take (?w * 8) b))) ?bytes
      = card {i. i < ?y * 8 \<and> bm_is_used b i}"
    using foldl_sat_add32 [of "sum_list (map count_ones (take (?w * 8) b))" count_ones ?bytes] total small by simp
  have "{i. i < limit \<and> bm_is_used b i}
      = {i. i < ?y * 8 \<and> bm_is_used b i} \<union> {i. ?y * 8 \<le> i \<and> i < limit \<and> bm_is_used b i}"
    using less_le_trans [of _ "?y * 8" limit] by auto
  moreover have "card ({i. i < ?y * 8 \<and> bm_is_used b i} \<union> {i. ?y * 8 \<le> i \<and> i < limit \<and> bm_is_used b i})
      = card {i. i < ?y * 8 \<and> bm_is_used b i} + card {i. ?y * 8 \<le> i \<and> i < limit \<and> bm_is_used b i}"
    by (intro card_Un_disjoint) auto
  ultimately show ?thesis
    unfolding bm_count_used_def Let_def 1 bytes bind.bind_lunit 2 count_bits_from_eq by simp
qed

section \<open>The bitmap as a pool of blocks\<close>

text \<open>
  Allocation as the file system does it: find a free block below \<open>limit\<close>, mark it used.
\<close>

definition bm_take :: "nat \<Rightarrow> bitmap \<Rightarrow> nat option \<times> bitmap" where
  "bm_take limit b =
     (case bm_find_free b limit of None \<Rightarrow> (None, b) | Some i \<Rightarrow> (Some i, bm_set_used i b))"

interpretation blocks: id_pool "\<lambda>b. length b = block_size" bm_is_used "8 * block_size"
  "\<lambda>_ :: unit. bm_take (8 * block_size)" bm_set_free
proof
  fix b :: bitmap and i b' assume len: "length b = block_size"
  note found = bm_find_free_eq [of "8 * block_size" b, unfolded len, OF order_refl]
  show "i < 8 * block_size \<and> \<not> bm_is_used b i \<and> length b' = block_size \<and>
      bm_is_used b' = (bm_is_used b)(i := True)" if "bm_take (8 * block_size) b = (Some i, b')"
    using that found len bm_set_used_eq [of i b] by (auto simp: bm_take_def split: option.splits)
  show "b' = b \<and> (\<forall>i < 8 * block_size. bm_is_used b i)" if "bm_take (8 * block_size) b = (None, b')"
    using that found by (auto simp: bm_take_def split: option.splits)
  show "length (bm_set_free i b) = block_size \<and> bm_is_used (bm_set_free i b) = (bm_is_used b)(i := False)"
    using len by (simp add: bm_set_free_eq)
qed

section \<open>Properties\<close>

text \<open>
  C27: The word-wise search of the block bitmap returns the least free index below the limit, or
  None exactly when all are used.
\<close>

lemma bm_find_free_correct:
  assumes "length b = block_size" "limit \<le> 8 * block_size"
  shows "bm_find_free b limit =
    (if \<forall>i < limit. bm_is_used b i then None else Some (LEAST i. \<not> bm_is_used b i))"
proof (cases "bm_find_free b limit")
  case None
  with bm_find_free_eq [of limit b] assms show ?thesis by simp
next
  case (Some n)
  with bm_find_free_eq [of limit b] assms have n: "n < limit" "\<not> bm_is_used b n" "\<forall>i < n. bm_is_used b i"
    by auto
  then have "(LEAST i. \<not> bm_is_used b i) = n" by (intro Least_equality) (auto simp: not_less [symmetric])
  with Some n show ?thesis by auto
qed

lemma bm_new_unused [simp]: "\<not> bm_is_used bm_new i"
  by (simp add: bm_is_used_bit bm_new_def)

lemma bm_find_free_correct_witness: "bm_find_free (bm_set_used 0 bm_new) 100 = Some 1"
proof -
  have len: "length (bm_set_used 0 bm_new) = block_size" by (simp add: bm_new_def)
  have u: "bm_is_used (bm_set_used 0 bm_new) = (bm_is_used bm_new)(0 := True)"
    by (rule bm_set_used_eq) (simp add: bm_new_def block_size_def)
  have "(LEAST i. \<not> bm_is_used (bm_set_used 0 bm_new) i) = 1"
    by (rule Least_equality) (auto simp: u split: if_splits)
  moreover have "\<not> (\<forall>i < 100. bm_is_used (bm_set_used 0 bm_new) i)" by (auto simp: u intro!: exI [of _ 1])
  moreover have "100 \<le> 8 * block_size" by (simp add: block_size_def)
  ultimately show ?thesis using bm_find_free_correct [OF len, of 100] by (simp only: if_False)
qed

lemma bm_count_used_correct:
  assumes "length b = block_size" "limit \<le> 8 * block_size"
  shows "bm_count_used b limit = Some (card {i. i < limit \<and> bm_is_used b i}) \<and>
    bm_count_free b limit = Some (card {i. i < limit \<and> \<not> bm_is_used b i})"
proof -
  have "{i. i < limit \<and> \<not> bm_is_used b i} = {..<limit} - {i. i < limit \<and> bm_is_used b i}" by auto
  then have "card {i. i < limit \<and> \<not> bm_is_used b i} = limit - card {i. i < limit \<and> bm_is_used b i}"
    by (simp add: card_Diff_subset subset_iff)
  then show ?thesis using bm_count_used_eq [OF assms] by (simp add: bm_count_free_def)
qed

lemma bm_count_used_correct_witness:
  "bm_count_used bm_new 1000 = Some 0 \<and> bm_count_free bm_new 1000 = Some 1000"
  using bm_count_used_correct [of bm_new 1000] by (simp add: bm_new_def [THEN arg_cong [of _ _ length]] block_size_def)

end
