(* ===== verification/Shared_Gap.thy ===== *)
theory Shared_Gap
  imports Bits Id_Pool
begin

text \<open>
  Shared gap slots (\<open>crates/wredit/src/shared_gap.rs\<close>): a 64-bit packed descriptor with five
  fields, and the ring of descriptors they are allocated from. \<open>SLOTS\<close> is the length of the slot
  list. The slot lemmas read every field after every update; the table is an \<^const>\<open>id_pool\<close>.
\<close>

unbundle bit_operations_syntax

section \<open>The packed descriptor\<close>

type_synonym shared_gap_slot = u64

definition slot_cursor_bits :: nat where "slot_cursor_bits = 16"

definition mask_mask :: u64 where "mask_mask = 0xFFFF"
definition mask_base :: u64 where "mask_base = push_bit 16 0xFFFF"
definition mask_size :: u64 where "mask_size = push_bit 32 0xFFFF"
definition mask_allocated :: u64 where "mask_allocated = push_bit 48 1"
definition mask_generation :: u64 where "mask_generation = push_bit 49 0x7F"

definition slot_max_base :: nat where "slot_max_base = 65535"
definition slot_max_size :: nat where "slot_max_size = 65535"

definition slot_free :: "u8 \<Rightarrow> shared_gap_slot" where
  "slot_free generation = push_bit 49 (ucast generation)"

definition slot_allocated :: "u16 \<Rightarrow> u16 \<Rightarrow> u16 \<Rightarrow> u8 \<Rightarrow> shared_gap_slot" where
  "slot_allocated cursor_mask base sz generation =
     push_bit 0 (ucast cursor_mask) OR push_bit 16 (ucast base) OR push_bit 32 (ucast sz)
     OR mask_allocated OR (push_bit 49 (ucast generation) AND mask_generation)"

definition slot_is_allocated :: "shared_gap_slot \<Rightarrow> bool" where
  "slot_is_allocated w \<longleftrightarrow> w AND mask_allocated \<noteq> 0"

definition slot_cursor_mask :: "shared_gap_slot \<Rightarrow> u16" where
  "slot_cursor_mask w = ucast (drop_bit 0 (w AND mask_mask))"

definition slot_base :: "shared_gap_slot \<Rightarrow> usize" where
  "slot_base w = unat (drop_bit 16 (w AND mask_base))"

definition slot_size :: "shared_gap_slot \<Rightarrow> usize" where
  "slot_size w = unat (drop_bit 32 (w AND mask_size))"

definition slot_generation :: "shared_gap_slot \<Rightarrow> u8" where
  "slot_generation w = ucast (drop_bit 49 (w AND mask_generation))"

definition slot_contains_cursor :: "shared_gap_slot \<Rightarrow> usize \<Rightarrow> bool" where
  "slot_contains_cursor w c =
     (if c \<ge> slot_cursor_bits then False else slot_cursor_mask w AND push_bit c 1 \<noteq> 0)"

definition slot_with_cursor :: "shared_gap_slot \<Rightarrow> usize \<Rightarrow> shared_gap_slot option" where
  "slot_with_cursor w c =
     (if c \<ge> slot_cursor_bits then None
      else let b = push_bit c 1 in
        if slot_cursor_mask w AND b \<noteq> 0 then None
        else Some ((w AND NOT mask_mask) OR ucast (slot_cursor_mask w OR b)))"

definition slot_without_cursor :: "shared_gap_slot \<Rightarrow> usize \<Rightarrow> shared_gap_slot" where
  "slot_without_cursor w c =
     (if c \<ge> slot_cursor_bits then w
      else (w AND NOT mask_mask) OR ucast (slot_cursor_mask w AND NOT (push_bit c 1)))"

definition slot_with_region :: "shared_gap_slot \<Rightarrow> usize \<Rightarrow> usize \<Rightarrow> shared_gap_slot" where
  "slot_with_region w base sz =
     (let base_clamped = (if base > slot_max_base then slot_max_base else base);
          size_clamped = (if sz > slot_max_size then slot_max_size else sz);
          base' = push_bit 16 (word_of_nat base_clamped);
          size' = push_bit 32 (word_of_nat size_clamped)
      in (w AND NOT (mask_base OR mask_size)) OR base' OR size')"

section \<open>The ring\<close>

record shared_gap_table =
  sg_slots :: "shared_gap_slot list"
  sg_head :: usize
  sg_count :: usize

definition sgt_new :: "usize \<Rightarrow> shared_gap_table" where
  "sgt_new slots = \<lparr>sg_slots = replicate slots (slot_free 0), sg_head = 0, sg_count = 0\<rparr>"

definition sgt_is_full :: "shared_gap_table \<Rightarrow> bool" where
  "sgt_is_full t \<longleftrightarrow> sg_count t \<ge> length (sg_slots t)"

definition sgt_slot :: "shared_gap_table \<Rightarrow> usize \<Rightarrow> shared_gap_slot option" where
  "sgt_slot t index = (if index < length (sg_slots t) then Some (sg_slots t ! index) else None)"

text \<open>The scan of \<open>alloc_slot\<close>: \<open>todo\<close> slots are left, starting at \<open>offset\<close>.\<close>

fun alloc_scan :: "u16 \<Rightarrow> nat \<Rightarrow> nat \<Rightarrow> shared_gap_table \<Rightarrow> usize option \<times> shared_gap_table" where
  "alloc_scan cursor_mask 0 offset t = (None, t)"
| "alloc_scan cursor_mask (Suc todo) offset t =
     (let slots = length (sg_slots t);
          index = (sg_head t + offset) mod slots;
          slot = sg_slots t ! index
      in if \<not> slot_is_allocated slot
         then (Some index,
               t\<lparr>sg_slots := (sg_slots t)[index := slot_allocated cursor_mask 0 0 (slot_generation slot)],
                 sg_head := (index + 1) mod slots, sg_count := sg_count t + 1\<rparr>)
         else alloc_scan cursor_mask todo (offset + 1) t)"

definition alloc_slot :: "u16 \<Rightarrow> shared_gap_table \<Rightarrow> usize option \<times> shared_gap_table" where
  "alloc_slot cursor_mask t =
     (if length (sg_slots t) = 0 \<or> sg_count t \<ge> length (sg_slots t) then (None, t)
      else alloc_scan cursor_mask (length (sg_slots t)) 0 t)"

definition free_slot :: "usize \<Rightarrow> shared_gap_table \<Rightarrow> bool \<times> shared_gap_table" where
  "free_slot index t =
     (if index \<ge> length (sg_slots t) then (False, t)
      else let slot = sg_slots t ! index in
        if \<not> slot_is_allocated slot then (False, t)
        else let generation = (slot_generation slot + 1) AND 0x7F in
          (True, t\<lparr>sg_slots := (sg_slots t)[index := slot_free generation], sg_count := sg_count t - 1\<rparr>))"

definition set_slot :: "usize \<Rightarrow> shared_gap_slot \<Rightarrow> shared_gap_table \<Rightarrow> bool \<times> shared_gap_table" where
  "set_slot index slot t =
     (if index \<ge> length (sg_slots t) then (False, t)
      else (True, t\<lparr>sg_slots := (sg_slots t)[index := slot]\<rparr>))"

definition set_region :: "usize \<Rightarrow> usize \<Rightarrow> usize \<Rightarrow> shared_gap_table \<Rightarrow> bool \<times> shared_gap_table" where
  "set_region index base sz t =
     (if index \<ge> length (sg_slots t) then (False, t)
      else let slot = sg_slots t ! index in
        if \<not> slot_is_allocated slot then (False, t)
        else (True, t\<lparr>sg_slots := (sg_slots t)[index := slot_with_region slot base sz]\<rparr>))"

definition is_cursor_in :: "shared_gap_table \<Rightarrow> usize \<Rightarrow> usize \<Rightarrow> bool" where
  "is_cursor_in t index c =
     (if index \<ge> length (sg_slots t) then False else slot_contains_cursor (sg_slots t ! index) c)"

definition join_cursor :: "usize \<Rightarrow> usize \<Rightarrow> shared_gap_table \<Rightarrow> bool \<times> shared_gap_table" where
  "join_cursor index c t =
     (if index \<ge> length (sg_slots t) then (False, t)
      else case slot_with_cursor (sg_slots t ! index) c of
        None \<Rightarrow> (False, t)
      | Some slot \<Rightarrow> (True, t\<lparr>sg_slots := (sg_slots t)[index := slot]\<rparr>))"

definition leave_cursor :: "usize \<Rightarrow> usize \<Rightarrow> shared_gap_table \<Rightarrow> bool \<times> shared_gap_table" where
  "leave_cursor index c t =
     (if \<not> is_cursor_in t index c then (False, t)
      else (True, t\<lparr>sg_slots := (sg_slots t)[index := slot_without_cursor (sg_slots t ! index) c]\<rparr>))"

fun first_slot_with :: "shared_gap_slot list \<Rightarrow> usize \<Rightarrow> usize \<Rightarrow> usize option" where
  "first_slot_with [] index c = None"
| "first_slot_with (slot # slots) index c =
     (if slot_contains_cursor slot c then Some index else first_slot_with slots (index + 1) c)"

definition slot_for_cursor :: "shared_gap_table \<Rightarrow> usize \<Rightarrow> usize option" where
  "slot_for_cursor t c =
     (if c \<ge> slot_cursor_bits then None else first_slot_with (sg_slots t) 0 c)"

section \<open>Bits of a descriptor\<close>

lemma mask_nums: "(0xFFFF :: u64) = mask 16" "(0x7F :: u64) = mask 7" "(0x7F :: u8) = mask 7"
  by (simp_all add: mask_eq_exp_minus_1)

lemmas slot_bit_simps = mask_mask_def mask_base_def mask_size_def mask_allocated_def
  mask_generation_def mask_nums bit_simps bit_ucast_iff

lemma bit_u64_bound: "bit (w :: u64) n \<Longrightarrow> n < 64"
  using bit_imp_le_length [of w n] by simp

lemma slot_is_allocated_bit: "slot_is_allocated w = bit w 48"
  by (simp add: slot_is_allocated_def mask_allocated_def bit_iff_and_push_bit_not_eq_0)

lemma bit_slot_cursor_mask: "bit (slot_cursor_mask w) n \<longleftrightarrow> n < 16 \<and> bit w n"
  by (auto simp: slot_cursor_mask_def slot_bit_simps)

lemma slot_contains_cursor_bit: "slot_contains_cursor w c \<longleftrightarrow> c < 16 \<and> bit w c"
  using bit_iff_and_push_bit_not_eq_0 [of "slot_cursor_mask w" c]
  by (auto simp: slot_contains_cursor_def slot_cursor_bits_def bit_slot_cursor_mask)

lemma slot_base_take: "slot_base w = unat (take_bit 16 (drop_bit 16 w))"
  unfolding slot_base_def
  by (rule arg_cong [where f = unat], rule bit_word_eqI) (auto simp: slot_bit_simps)

lemma slot_size_take: "slot_size w = unat (take_bit 16 (drop_bit 32 w))"
  unfolding slot_size_def
  by (rule arg_cong [where f = unat], rule bit_word_eqI) (auto simp: slot_bit_simps)

lemma bit_slot_generation: "bit (slot_generation w) n \<longleftrightarrow> n < 7 \<and> bit w (n + 49)"
  by (auto simp: slot_generation_def slot_bit_simps add.commute)

text \<open>Each field reads its own bits only.\<close>

lemma slot_field_cong:
  assumes "\<And>n. 16 \<le> n \<Longrightarrow> bit v n = bit w n"
  shows "slot_base v = slot_base w" "slot_size v = slot_size w"
    "slot_generation v = slot_generation w" "slot_is_allocated v = slot_is_allocated w"
proof -
  show "slot_base v = slot_base w" unfolding slot_base_take
    by (rule arg_cong [where f = unat], rule bit_word_eqI) (simp add: bit_simps assms)
  show "slot_size v = slot_size w" unfolding slot_size_take
    by (rule arg_cong [where f = unat], rule bit_word_eqI) (simp add: bit_simps assms)
  show "slot_generation v = slot_generation w"
    by (rule bit_word_eqI) (simp add: bit_slot_generation assms)
  show "slot_is_allocated v = slot_is_allocated w" by (simp add: slot_is_allocated_bit assms)
qed

lemma bit_slot_with_cursor:
  assumes "slot_with_cursor w c = Some v"
  shows "c < 16 \<and> \<not> bit w c \<and> (\<forall>n. bit v n \<longleftrightarrow> n = c \<or> bit w n)"
proof -
  have c: "c < 16" using assms by (auto simp: slot_with_cursor_def slot_cursor_bits_def split: if_splits)
  moreover have "\<not> bit w c" and v: "v = (w AND NOT mask_mask) OR ucast (slot_cursor_mask w OR push_bit c 1)"
    using assms c bit_iff_and_push_bit_not_eq_0 [of "slot_cursor_mask w" c]
    by (auto simp: slot_with_cursor_def Let_def bit_slot_cursor_mask split: if_splits)
  moreover have "bit v n \<longleftrightarrow> n = c \<or> bit w n" for n
    unfolding v using c bit_u64_bound [of w n]
    by (auto simp: slot_bit_simps bit_slot_cursor_mask bit_exp_iff)
  ultimately show ?thesis by blast
qed

lemma slot_with_cursor_None:
  "slot_with_cursor w c = None \<longleftrightarrow> c \<ge> 16 \<or> slot_contains_cursor w c"
  using bit_iff_and_push_bit_not_eq_0 [of "slot_cursor_mask w" c]
  by (auto simp: slot_with_cursor_def slot_cursor_bits_def Let_def slot_contains_cursor_bit bit_slot_cursor_mask)

lemma bit_slot_without_cursor:
  "bit (slot_without_cursor w c) n \<longleftrightarrow> bit w n \<and> (n \<noteq> c \<or> c \<ge> 16)"
  using bit_u64_bound [of w n]
  by (auto simp: slot_without_cursor_def slot_cursor_bits_def slot_bit_simps bit_slot_cursor_mask bit_exp_iff)

lemma bit_slot_free: "bit (slot_free g) n \<longleftrightarrow> 49 \<le> n \<and> n < 57 \<and> bit g (n - 49)"
  using bit_imp_le_length [of g "n - 49"] by (auto simp: slot_free_def slot_bit_simps)

lemma bit_field:
  fixes x :: "'a::len word"
  assumes "k + LENGTH('a) \<le> 64"
  shows "bit (push_bit k (ucast x) :: u64) n \<longleftrightarrow> k \<le> n \<and> n < k + LENGTH('a) \<and> bit x (n - k)"
  using assms bit_imp_le_length [of x "n - k"] by (auto simp: bit_simps bit_ucast_iff)

lemma bit_slot_allocated_or:
  "bit (slot_allocated m b s g) n \<longleftrightarrow>
     n < 16 \<and> bit m n \<or> 16 \<le> n \<and> n < 32 \<and> bit b (n - 16) \<or> 32 \<le> n \<and> n < 48 \<and> bit s (n - 32) \<or>
     n = 48 \<or> 49 \<le> n \<and> n < 56 \<and> bit g (n - 49)"
proof -
  have "bit (push_bit 0 (ucast m) :: u64) n \<longleftrightarrow> n < 16 \<and> bit m n"
    using bit_field [of 0 m n] by simp
  moreover have "bit (push_bit 16 (ucast b) :: u64) n \<longleftrightarrow> 16 \<le> n \<and> n < 32 \<and> bit b (n - 16)"
    using bit_field [of 16 b n] by simp
  moreover have "bit (push_bit 32 (ucast s) :: u64) n \<longleftrightarrow> 32 \<le> n \<and> n < 48 \<and> bit s (n - 32)"
    using bit_field [of 32 s n] by simp
  moreover have "bit mask_allocated n \<longleftrightarrow> n = 48"
    unfolding mask_allocated_def bit_push_bit_iff by (auto simp: bit_1_iff)
  moreover have "bit (push_bit 49 (ucast g) AND mask_generation) n \<longleftrightarrow> 49 \<le> n \<and> n < 56 \<and> bit g (n - 49)"
    using bit_field [of 49 g n] by (auto simp: bit_and_iff mask_generation_def mask_nums bit_push_bit_iff bit_mask_iff)
  ultimately show ?thesis unfolding slot_allocated_def bit_or_iff by blast
qed

lemma bit_slot_allocated:
  "bit (slot_allocated m b s g) n \<longleftrightarrow>
     (if n < 16 then bit m n else if n < 32 then bit b (n - 16) else if n < 48 then bit s (n - 32)
      else if n = 48 then True else n < 56 \<and> bit g (n - 49))"
  unfolding bit_slot_allocated_or by auto

lemma unat_ucast_u64:
  assumes "LENGTH('a::len) \<le> 64"
  shows "unat (ucast (x :: 'a word) :: u64) = unat x"
proof -
  have "unat x < 2 ^ LENGTH('a)" by (rule unsigned_less)
  also have "(2::nat) ^ LENGTH('a) \<le> 2 ^ 64" using assms by (intro power_increasing) simp_all
  finally show ?thesis by (simp add: unsigned_ucast_eq take_bit_nat_eq_self_iff)
qed

lemma bit_of_nat_word_iff: "bit (word_of_nat m :: 'a::len word) n \<longleftrightarrow> n < LENGTH('a) \<and> bit m n"
  by transfer (simp add: bit_of_nat_iff)

lemma bit_small_nat: "m < 2 ^ k \<Longrightarrow> bit (m::nat) n \<Longrightarrow> n < k"
  by (metis bit_take_bit_iff take_bit_nat_eq_self_iff)

lemma bit_slot_with_region:
  "bit (slot_with_region w base sz) n \<longleftrightarrow>
     (if 16 \<le> n \<and> n < 32 then bit (min base 65535) (n - 16)
      else if 32 \<le> n \<and> n < 48 then bit (min sz 65535) (n - 32) else bit w n)"
proof -
  have clamp: "(if x > 65535 then 65535 else x) = min x 65535" for x :: nat by simp
  have small: "bit (min x 65535) k \<Longrightarrow> k < 16" for x k :: nat
    by (rule bit_small_nat [of "min x 65535"]) simp_all
  have field: "bit (push_bit k (word_of_nat (min x 65535)) :: u64) n \<longleftrightarrow>
      k \<le> n \<and> n < k + 16 \<and> bit (min x 65535) (n - k)" if "k + 16 \<le> 64" for k x
    using small [of x "n - k"] that by (auto simp: bit_push_bit_iff bit_of_nat_word_iff)
  have mask: "bit (NOT (mask_base OR mask_size)) n \<longleftrightarrow> n < 64 \<and> \<not> (16 \<le> n \<and> n < 32) \<and> \<not> (32 \<le> n \<and> n < 48)"
    by (auto simp: bit_not_iff bit_or_iff bit_and_iff mask_base_def mask_size_def mask_nums bit_push_bit_iff bit_mask_iff)
  show ?thesis
    unfolding slot_with_region_def Let_def slot_max_base_def slot_max_size_def clamp bit_or_iff
      bit_and_iff mask using field [of 16 base] field [of 32 sz] bit_u64_bound [of w n] by auto
qed

section \<open>Fields after updates\<close>

lemma slot_free_fields:
  "\<not> slot_is_allocated (slot_free g)" "\<not> slot_contains_cursor (slot_free g) c"
  "slot_generation (slot_free g) = take_bit 7 g"
  by (auto simp: slot_is_allocated_bit slot_contains_cursor_bit bit_slot_free bit_slot_generation bit_simps
      intro!: bit_word_eqI)

lemma slot_allocated_fields:
  "slot_is_allocated (slot_allocated m b s g)" "slot_cursor_mask (slot_allocated m b s g) = m"
  "slot_base (slot_allocated m b s g) = unat b" "slot_size (slot_allocated m b s g) = unat s"
  "slot_generation (slot_allocated m b s g) = take_bit 7 g"
proof -
  show "slot_is_allocated (slot_allocated m b s g)" by (simp add: slot_is_allocated_bit bit_slot_allocated)
  show "slot_cursor_mask (slot_allocated m b s g) = m"
    by (rule bit_word_eqI) (simp add: bit_slot_cursor_mask bit_slot_allocated)
  have "take_bit 16 (drop_bit 16 (slot_allocated m b s g)) = ucast b"
    by (rule bit_word_eqI) (use bit_imp_le_length [of b] in \<open>auto simp: bit_simps bit_slot_allocated bit_ucast_iff\<close>)
  then show "slot_base (slot_allocated m b s g) = unat b" by (simp add: slot_base_take unat_ucast_u64)
  have "take_bit 16 (drop_bit 32 (slot_allocated m b s g)) = ucast s"
    by (rule bit_word_eqI) (use bit_imp_le_length [of s] in \<open>auto simp: bit_simps bit_slot_allocated bit_ucast_iff\<close>)
  then show "slot_size (slot_allocated m b s g) = unat s" by (simp add: slot_size_take unat_ucast_u64)
  show "slot_generation (slot_allocated m b s g) = take_bit 7 g"
    by (rule bit_word_eqI) (auto simp: bit_slot_generation bit_slot_allocated bit_simps)
qed

lemma slot_with_region_fields:
  "slot_base (slot_with_region w b s) = min b slot_max_base"
  "slot_size (slot_with_region w b s) = min s slot_max_size"
  "slot_cursor_mask (slot_with_region w b s) = slot_cursor_mask w"
  "slot_generation (slot_with_region w b s) = slot_generation w"
  "slot_is_allocated (slot_with_region w b s) = slot_is_allocated w"
proof -
  have small: "unat (word_of_nat (min x 65535) :: u64) = min x 65535" for x
    by (simp add: unsigned_of_nat take_bit_nat_eq_self_iff)
  have bound: "bit (min x 65535) k \<Longrightarrow> k < 16" for x k :: nat
    by (rule bit_small_nat [of "min x 65535"]) simp_all
  have "take_bit 16 (drop_bit 16 (slot_with_region w b s)) = word_of_nat (min b 65535)"
    by (rule bit_word_eqI)
      (use bound [of b] in \<open>auto simp: bit_take_bit_iff bit_drop_bit_eq bit_slot_with_region bit_of_nat_word_iff\<close>)
  then show "slot_base (slot_with_region w b s) = min b slot_max_base"
    by (simp add: slot_base_take small slot_max_base_def)
  have "take_bit 16 (drop_bit 32 (slot_with_region w b s)) = word_of_nat (min s 65535)"
    by (rule bit_word_eqI)
      (use bound [of s] in \<open>auto simp: bit_take_bit_iff bit_drop_bit_eq bit_slot_with_region bit_of_nat_word_iff\<close>)
  then show "slot_size (slot_with_region w b s) = min s slot_max_size"
    by (simp add: slot_size_take small slot_max_size_def)
  show "slot_cursor_mask (slot_with_region w b s) = slot_cursor_mask w"
    by (rule bit_word_eqI) (simp add: bit_slot_cursor_mask bit_slot_with_region)
  show "slot_generation (slot_with_region w b s) = slot_generation w"
    by (rule bit_word_eqI) (simp add: bit_slot_generation bit_slot_with_region)
  show "slot_is_allocated (slot_with_region w b s) = slot_is_allocated w"
    by (simp add: slot_is_allocated_bit bit_slot_with_region)
qed

lemma slot_with_cursor_fields:
  assumes "slot_with_cursor w c = Some v"
  shows "slot_contains_cursor v = (slot_contains_cursor w)(c := True)"
    "slot_base v = slot_base w" "slot_size v = slot_size w"
    "slot_generation v = slot_generation w" "slot_is_allocated v = slot_is_allocated w"
proof -
  note b = bit_slot_with_cursor [OF assms]
  show "slot_contains_cursor v = (slot_contains_cursor w)(c := True)"
    using b by (auto simp: fun_eq_iff slot_contains_cursor_bit)
  have hi: "\<And>n. 16 \<le> n \<Longrightarrow> bit v n = bit w n" using b by auto
  show "slot_base v = slot_base w" "slot_size v = slot_size w"
    "slot_generation v = slot_generation w" "slot_is_allocated v = slot_is_allocated w"
    by (rule slot_field_cong [OF hi], assumption)+
qed

lemma slot_without_cursor_fields:
  "slot_contains_cursor (slot_without_cursor w c) = (slot_contains_cursor w)(c := False)"
  "slot_base (slot_without_cursor w c) = slot_base w" "slot_size (slot_without_cursor w c) = slot_size w"
  "slot_generation (slot_without_cursor w c) = slot_generation w"
  "slot_is_allocated (slot_without_cursor w c) = slot_is_allocated w"
proof -
  show "slot_contains_cursor (slot_without_cursor w c) = (slot_contains_cursor w)(c := False)"
    by (auto simp: fun_eq_iff slot_contains_cursor_bit bit_slot_without_cursor)
  have hi: "\<And>n. 16 \<le> n \<Longrightarrow> bit (slot_without_cursor w c) n = bit w n"
    by (auto simp: bit_slot_without_cursor)
  show "slot_base (slot_without_cursor w c) = slot_base w"
    "slot_size (slot_without_cursor w c) = slot_size w"
    "slot_generation (slot_without_cursor w c) = slot_generation w"
    "slot_is_allocated (slot_without_cursor w c) = slot_is_allocated w"
    by (rule slot_field_cong [OF hi], assumption)+
qed

section \<open>The ring as a pool of slots\<close>

definition sgt_used :: "shared_gap_table \<Rightarrow> usize \<Rightarrow> bool" where
  "sgt_used t i \<longleftrightarrow> i < length (sg_slots t) \<and> slot_is_allocated (sg_slots t ! i)"

definition sgt_inv :: "usize \<Rightarrow> shared_gap_table \<Rightarrow> bool" where
  "sgt_inv slots t \<longleftrightarrow> length (sg_slots t) = slots \<and> sg_count t = card {i. sgt_used t i}"

lemma sgt_used_subset: "{i. sgt_used t i} \<subseteq> {..<length (sg_slots t)}"
  by (auto simp: sgt_used_def)

lemma sgt_used_finite [simp]: "finite {i. sgt_used t i}"
  using sgt_used_subset finite_subset by blast

lemma sgt_full_iff:
  assumes "sgt_inv n t"
  shows "sg_count t \<ge> n \<longleftrightarrow> (\<forall>i < n. sgt_used t i)"
proof -
  have n: "length (sg_slots t) = n" "sg_count t = card {i. sgt_used t i}"
    using assms by (simp_all add: sgt_inv_def)
  have sub: "{i. sgt_used t i} \<subseteq> {..<n}" using sgt_used_subset [of t] n(1) by simp
  have "card {i. sgt_used t i} \<le> n" using card_mono [OF finite_lessThan sub] by simp
  then have "sg_count t \<ge> n \<longleftrightarrow> card {i. sgt_used t i} = card {..<n}" unfolding n(2) by auto
  also have "\<dots> \<longleftrightarrow> {i. sgt_used t i} = {..<n}" 
    by (rule iffI, rule card_subset_eq [OF finite_lessThan sub]) simp_all
  also have "\<dots> \<longleftrightarrow> (\<forall>i < n. sgt_used t i)" using sub by auto
  finally show ?thesis .
qed

text \<open>The scan visits every slot of the ring once.\<close>

lemma ring_covers:
  assumes "(j::nat) < n"
  shows "\<exists>offset < n. (head + offset) mod n = j"
proof
  let ?o = "(j + (n - head mod n)) mod n"
  have "(head + ?o) mod n = (head mod n + (j + (n - head mod n))) mod n"
    by (metis mod_add_left_eq mod_add_right_eq)
  also have "head mod n \<le> n" using assms by (simp add: less_imp_le)
  then have "head mod n + (j + (n - head mod n)) = j + n" by simp
  finally show "?o < n \<and> (head + ?o) mod n = j" using assms by simp
qed

lemma alloc_scan_cases:
  assumes "alloc_scan m todo offset t = (r, t')"
  shows "case r of
      None \<Rightarrow> t' = t \<and> (\<forall>k < todo. slot_is_allocated (sg_slots t ! ((sg_head t + (offset + k)) mod length (sg_slots t))))
    | Some i \<Rightarrow> (\<exists>k. i = k mod length (sg_slots t)) \<and> \<not> slot_is_allocated (sg_slots t ! i) \<and>
        sg_slots t' = (sg_slots t)[i := slot_allocated m 0 0 (slot_generation (sg_slots t ! i))] \<and>
        sg_count t' = sg_count t + 1"
  using assms
proof (induction todo arbitrary: offset)
  case (Suc todo)
  let ?i = "(sg_head t + offset) mod length (sg_slots t)"
  show ?case
  proof (cases "slot_is_allocated (sg_slots t ! ?i)")
    case True
    with Suc.prems have "alloc_scan m todo (offset + 1) t = (r, t')" by (simp add: Let_def)
    from Suc.IH [OF this] True show ?thesis
      by (cases r) (auto simp: less_Suc_eq_0_disj)
  next
    case False
    with Suc.prems show ?thesis by (auto simp: Let_def)
  qed
qed simp

lemma sgt_used_upd:
  assumes "i < length (sg_slots t)" "sg_slots t' = (sg_slots t)[i := w]"
  shows "sgt_used t' = (sgt_used t)(i := slot_is_allocated w)"
  using assms by (auto simp: fun_eq_iff sgt_used_def nth_list_update)

lemma alloc_slot_cases:
  assumes inv: "sgt_inv n t" and a: "alloc_slot m t = (r, t')"
  shows "case r of
      None \<Rightarrow> t' = t \<and> (\<forall>i < n. sgt_used t i)
    | Some i \<Rightarrow> i < n \<and> \<not> sgt_used t i \<and> sgt_inv n t' \<and> sgt_used t' = (sgt_used t)(i := True) \<and>
        sg_slots t' = (sg_slots t)[i := slot_allocated m 0 0 (slot_generation (sg_slots t ! i))]"
proof (cases "n = 0 \<or> sg_count t \<ge> n")
  case True
  have n: "length (sg_slots t) = n" using inv by (simp add: sgt_inv_def)
  from True a n have "r = None" "t' = t" by (auto simp: alloc_slot_def)
  with True sgt_full_iff [OF inv] show ?thesis by auto
next
  case False
  have n: "length (sg_slots t) = n" "sg_count t = card {i. sgt_used t i}" using inv by (simp_all add: sgt_inv_def)
  have scan: "alloc_scan m n 0 t = (r, t')" using a False n by (simp add: alloc_slot_def)
  note c = alloc_scan_cases [OF scan, unfolded n(1)]
  show ?thesis
  proof (cases r)
    case None
    with c have all: "\<And>k. k < n \<Longrightarrow> slot_is_allocated (sg_slots t ! ((sg_head t + k) mod n))" by simp
    have "sgt_used t j" if "j < n" for j
      using ring_covers [OF that, of "sg_head t"] all n(1) that by (auto simp: sgt_used_def)
    with None c show ?thesis by simp
  next
    case (Some i)
    with c obtain k where i: "i = k mod n" "\<not> slot_is_allocated (sg_slots t ! i)"
      "sg_slots t' = (sg_slots t)[i := slot_allocated m 0 0 (slot_generation (sg_slots t ! i))]"
      "sg_count t' = sg_count t + 1" by auto
    have lt: "i < n" using i(1) False by simp
    have used: "sgt_used t' = (sgt_used t)(i := True)"
      using sgt_used_upd [of i t t', OF _ i(3)] lt n(1) by (simp add: slot_allocated_fields)
    moreover have free: "\<not> sgt_used t i" using i(2) by (simp add: sgt_used_def)
    moreover have "sgt_inv n t'"
    proof -
      have "{j. sgt_used t' j} = insert i {j. sgt_used t j}" using used by auto
      then show ?thesis using i(3,4) n free by (simp add: sgt_inv_def)
    qed
    ultimately show ?thesis using Some lt i(3) by simp
  qed
qed

lemma free_slot_eq:
  assumes inv: "sgt_inv n t"
  shows "fst (free_slot i t) = sgt_used t i" "sgt_inv n (snd (free_slot i t))"
    "sgt_used (snd (free_slot i t)) = (sgt_used t)(i := False)"
proof -
  have n: "length (sg_slots t) = n" "sg_count t = card {i. sgt_used t i}" using inv by (simp_all add: sgt_inv_def)
  show "fst (free_slot i t) = sgt_used t i" by (auto simp: free_slot_def sgt_used_def Let_def)
  let ?w = "slot_free ((slot_generation (sg_slots t ! i) + 1) AND 0x7F)"
  let ?t = "t\<lparr>sg_slots := (sg_slots t)[i := ?w], sg_count := sg_count t - 1\<rparr>"
  have free: "snd (free_slot i t) = (if sgt_used t i then ?t else t)"
    by (auto simp: free_slot_def sgt_used_def Let_def)
  have used: "sgt_used ?t = (sgt_used t)(i := False)" if "sgt_used t i"
    using sgt_used_upd [of i t ?t ?w] that by (simp add: sgt_used_def slot_free_fields)
  then show "sgt_used (snd (free_slot i t)) = (sgt_used t)(i := False)"
    unfolding free by (auto simp: fun_eq_iff)
  show "sgt_inv n (snd (free_slot i t))"
  proof (cases "sgt_used t i")
    case True
    have "{j. sgt_used ?t j} = {j. sgt_used t j} - {i}" using used [OF True] by auto
    moreover have "card ({j. sgt_used t j} - {i}) = sg_count t - 1"
      using True n(2) by (simp add: card_Diff_singleton)
    ultimately show ?thesis using True n(1) free by (simp add: sgt_inv_def)
  qed (use inv free in simp)
qed

lemma sgt_new_inv: "sgt_inv n (sgt_new n)" and sgt_new_unused: "\<not> sgt_used (sgt_new n) i"
proof -
  show u: "\<not> sgt_used (sgt_new n) i" for i by (simp add: sgt_used_def sgt_new_def slot_free_fields)
  show "sgt_inv n (sgt_new n)" using u by (simp add: sgt_inv_def) (simp add: sgt_new_def)
qed

definition sgt_give :: "usize \<Rightarrow> shared_gap_table \<Rightarrow> shared_gap_table" where
  "sgt_give i t = snd (free_slot i t)"

interpretation slots: id_pool "sgt_inv n" sgt_used n alloc_slot sgt_give for n
proof
  fix t m i t' assume inv: "sgt_inv n t"
  show "i < n \<and> \<not> sgt_used t i \<and> sgt_inv n t' \<and> sgt_used t' = (sgt_used t)(i := True)"
    if "alloc_slot m t = (Some i, t')"
    using alloc_slot_cases [OF inv that] by simp
  show "t' = t \<and> (\<forall>i < n. sgt_used t i)" if "alloc_slot m t = (None, t')"
    using alloc_slot_cases [OF inv that] by simp
  show "sgt_inv n (sgt_give i t) \<and> sgt_used (sgt_give i t) = (sgt_used t)(i := False)"
    using free_slot_eq [OF inv] by (simp add: sgt_give_def)
qed

section \<open>Properties\<close>

lemma shared_slot_fields_independent:
  "slot_cursor_mask (slot_allocated m b s g) = m \<and> slot_base (slot_allocated m b s g) = unat b \<and>
   slot_size (slot_allocated m b s g) = unat s \<and> slot_generation (slot_allocated m b s g) = take_bit 7 g \<and>
   slot_base (slot_with_region w base sz) = min base slot_max_base \<and>
   slot_size (slot_with_region w base sz) = min sz slot_max_size \<and>
   slot_cursor_mask (slot_with_region w base sz) = slot_cursor_mask w \<and>
   slot_generation (slot_with_region w base sz) = slot_generation w \<and>
   slot_is_allocated (slot_with_region w base sz) = slot_is_allocated w \<and>
   slot_contains_cursor (slot_without_cursor w c) = (slot_contains_cursor w)(c := False) \<and>
   slot_base (slot_without_cursor w c) = slot_base w \<and> slot_size (slot_without_cursor w c) = slot_size w"
  by (simp add: slot_allocated_fields slot_with_region_fields slot_without_cursor_fields)

lemma slot_reuse_bumps_generation:
  assumes inv: "sgt_inv n t" and held: "sgt_used t i" and free: "free_slot i t = (True, t1)"
    and again: "alloc_slot m t1 = (Some i, t2)"
  shows "slot_generation (sg_slots t2 ! i) = (slot_generation (sg_slots t ! i) + 1) AND 0x7F \<and>
    slot_generation (sg_slots t2 ! i) \<noteq> slot_generation (sg_slots t ! i) \<and>
    slot_cursor_mask (sg_slots t2 ! i) = m \<and> sg_count t2 = sg_count t"
proof -
  let ?g = "slot_generation (sg_slots t ! i)"
  have i: "i < length (sg_slots t)" using held by (simp add: sgt_used_def)
  have t1: "sg_slots t1 ! i = slot_free ((?g + 1) AND 0x7F)"
    using free i by (auto simp: free_slot_def Let_def split: if_splits)
  have inv1: "sgt_inv n t1" using free_slot_eq(2) [OF inv, of i] free by simp
  note a = alloc_slot_cases [OF inv1 again, simplified]
  have len1: "length (sg_slots t1) = length (sg_slots t)" using inv inv1 by (simp add: sgt_inv_def)
  have t2: "sg_slots t2 ! i = slot_allocated m 0 0 (slot_generation (sg_slots t1 ! i))"
    using a i len1 by simp
  have gen: "slot_generation (sg_slots t2 ! i) = (?g + 1) AND 0x7F"
    by (simp add: t2 t1 slot_allocated_fields slot_free_fields mask_nums take_bit_eq_mask and.assoc)
  have "bit ((?g + 1) AND 0x7F) 0 \<noteq> bit ?g 0" by (simp add: bit_0 even_and_iff)
  then have "(?g + 1) AND 0x7F \<noteq> ?g" by metis
  moreover have "sg_count t2 = sg_count t"
  proof -
    have "sgt_used t2 = sgt_used t"
      using a free_slot_eq(3) [OF inv, of i] free held by (auto simp: fun_eq_iff)
    then show ?thesis using a inv by (simp add: sgt_inv_def)
  qed
  ultimately show ?thesis using gen t2 by (simp add: slot_allocated_fields)
qed

lemma slot_reuse_bumps_generation_witness:
  "\<exists>t t1 t2. alloc_slot 1 (sgt_new 1) = (Some 0, t) \<and> free_slot 0 t = (True, t1) \<and>
     alloc_slot 3 t1 = (Some 0, t2) \<and> slot_generation (sg_slots t2 ! 0) \<noteq> slot_generation (sg_slots t ! 0)"
proof -
  have only: "\<exists>u'. alloc_slot m u = (Some 0, u') \<and> sgt_inv 1 u' \<and> sgt_used u' 0"
    if "sgt_inv 1 u" "\<not> sgt_used u 0" for m u
    using slots.alloc_total [OF that(1), of 0 m] that(2) alloc_slot_cases [OF that(1), of m] by fastforce
  obtain t where t: "alloc_slot 1 (sgt_new 1) = (Some 0, t)" "sgt_inv 1 t" "sgt_used t 0"
    using only [OF sgt_new_inv sgt_new_unused] by blast
  obtain t1 where t1: "free_slot 0 t = (True, t1)" "sgt_inv 1 t1" "\<not> sgt_used t1 0"
    using free_slot_eq [OF t(2), of 0] t(3) by (cases "free_slot 0 t") auto
  obtain t2 where t2: "alloc_slot 3 t1 = (Some 0, t2)" using only [OF t1(2,3)] by blast
  from slot_reuse_bumps_generation [OF t(2,3) t1(1) t2] t(1) t1(1) t2 show ?thesis by blast
qed

text \<open>
  C28: In every history of slot allocations, each with a cursor mask of its own, and frees of
  any index, held or not, the count is the number of slots held, a free answers true exactly for
  a slot that is held, an allocation never returns a held slot, and it fails exactly when all
  are held.
\<close>

lemma shared_slots_no_double_alloc:
  assumes "pool_reach alloc_slot sgt_give (sgt_new n) t held"
  shows "sg_count t = card held \<and>
    (\<forall>i. sgt_used t i \<longleftrightarrow> i \<in> held) \<and>
    (\<forall>i. fst (free_slot i t) \<longleftrightarrow> i \<in> held) \<and>
    (case alloc_slot m t of
       (Some i, _) \<Rightarrow> i < n \<and> i \<notin> held
     | (None, _) \<Rightarrow> held = {..<n})"
proof -
  have held: "sgt_inv n t" "\<forall>i. sgt_used t i \<longleftrightarrow> i \<in> held"
    using slots.pool_held [OF assms sgt_new_inv] sgt_new_unused by auto
  then have "sg_count t = card held" by (simp add: sgt_inv_def)
  moreover have "fst (free_slot i t) \<longleftrightarrow> i \<in> held" for i using free_slot_eq(1) [OF held(1)] held(2) by simp
  ultimately show ?thesis
    using slots.pool_no_double_alloc [OF assms sgt_new_inv] sgt_new_unused held(2) by simp
qed

lemma shared_slots_no_double_alloc_witness:
  "\<exists>t i. pool_reach alloc_slot sgt_give (sgt_new 2) t {i} \<and>
     sg_count t = 1 \<and> fst (free_slot i t) \<and> \<not> fst (free_slot 7 t) \<and>
     (case alloc_slot 2 t of (Some j, _) \<Rightarrow> j \<noteq> i | (None, _) \<Rightarrow> False)"
proof -
  obtain i u where u: "alloc_slot 1 (sgt_new 2) = (Some i, u)"
    using slots.alloc_total [OF sgt_new_inv, of 0 2 1] sgt_new_unused by auto
  have i: "i < 2" using alloc_slot_cases [OF sgt_new_inv u] by simp
  define t where "t = sgt_give 7 u"
  have "pool_reach alloc_slot sgt_give (sgt_new 2) u (insert i {})"
    by (rule pool_alloc [OF pool_start]) (rule u)
  from pool_release [OF this, of 7] i have r: "pool_reach alloc_slot sgt_give (sgt_new 2) t (insert i {})"
    by (simp add: t_def)
  have "card {..<(2::nat)} \<noteq> card (insert i {})" by simp
  then have "{..<2} \<noteq> insert i {}" by metis
  with shared_slots_no_double_alloc [OF r, of 2] r i show ?thesis
    by (intro exI [of _ t] exI [of _ i]) (auto split: prod.splits option.splits)
qed

lemma join_cursor_correct:
  assumes "i < length (sg_slots t)"
  shows "case join_cursor i c t of
      (True, t') \<Rightarrow> c < 16 \<and> \<not> is_cursor_in t i c \<and> is_cursor_in t' i = (is_cursor_in t i)(c := True) \<and>
        (\<forall>j. j \<noteq> i \<longrightarrow> is_cursor_in t' j = is_cursor_in t j) \<and> sgt_used t' = sgt_used t \<and>
        (case leave_cursor i c t' of (left, t'') \<Rightarrow> left \<and> is_cursor_in t'' = is_cursor_in t)
    | (False, t') \<Rightarrow> t' = t \<and> (c \<ge> 16 \<or> is_cursor_in t i c)"
proof (cases "slot_with_cursor (sg_slots t ! i) c")
  case None
  then have "join_cursor i c t = (False, t)" using assms by (simp add: join_cursor_def)
  with None assms slot_with_cursor_None [of "sg_slots t ! i" c] show ?thesis by (simp add: is_cursor_in_def)
next
  case (Some w)
  let ?t = "t\<lparr>sg_slots := (sg_slots t)[i := w]\<rparr>"
  have c: "c < 16" "\<not> slot_contains_cursor (sg_slots t ! i) c"
    using Some slot_with_cursor_None [of "sg_slots t ! i" c] by auto
  note w = slot_with_cursor_fields [OF Some]
  have join: "join_cursor i c t = (True, ?t)" using assms Some by (simp add: join_cursor_def)
  have "sgt_used ?t = sgt_used t" using sgt_used_upd [of i t ?t w] assms w(5) by (auto simp: fun_eq_iff sgt_used_def)
  moreover have mem: "is_cursor_in ?t j = (if j = i then (is_cursor_in t i)(c := True) else is_cursor_in t j)" for j
    using assms w(1) by (auto simp: fun_eq_iff is_cursor_in_def nth_list_update)
  moreover have "case leave_cursor i c ?t of (left, t'') \<Rightarrow> left \<and> is_cursor_in t'' = is_cursor_in t"
    using assms w(1) c(2)
    by (auto simp: leave_cursor_def is_cursor_in_def fun_eq_iff nth_list_update slot_without_cursor_fields)
  ultimately show ?thesis using c assms by (simp add: join is_cursor_in_def)
qed

lemma join_cursor_correct_witness:
  "fst (join_cursor 0 5 (sgt_new 2)) \<and> is_cursor_in (snd (join_cursor 0 5 (sgt_new 2))) 0 5"
proof -
  have "0 < length (sg_slots (sgt_new 2))" "\<not> is_cursor_in (sgt_new 2) 0 5"
    by (simp_all add: sgt_new_def is_cursor_in_def slot_free_fields)
  with join_cursor_correct [of 0 "sgt_new 2" 5] show ?thesis by (auto split: prod.splits bool.splits)
qed

lemma join_cursor_on_free_slot:
  "\<not> slot_is_allocated (sg_slots (sgt_new 2) ! 0) \<and> fst (join_cursor 0 5 (sgt_new 2)) \<and>
   slot_for_cursor (snd (join_cursor 0 5 (sgt_new 2))) 5 = Some 0 \<and> sg_count (snd (join_cursor 0 5 (sgt_new 2))) = 0"
  by code_simp

end
