(* ===== verification/Id_Compress.thy ===== *)
theory Id_Compress
  imports Prelude
begin

text \<open>
  Name compression of the disk file system (\<open>crates/wredit/src/fs_id_compress.rs\<close>) and its
  codebook (\<open>crates/wredit/src/codebook.rs\<close>). A name is coded as a sequence of codebook tokens and
  literal runs; the tables the search uses are built from the raw codebook bytes the way the
  source's constant expressions build them. The loops consume a name or a block from the front:
  the source's index into the slice is the position where the list argument starts.
\<close>

section \<open>The codebook\<close>

text \<open>One row of the table: the length byte, then the bytes of the entry.\<close>

definition row :: "nat \<Rightarrow> string \<Rightarrow> u8 list" where
  "row n s = word_of_nat n # map of_char s"

definition codebook_chars :: "u8 list list" where
  "codebook_chars =
    [row 1 ''a'', row 1 ''b'', row 1 ''c'', row 1 ''d'', row 1 ''e'', row 1 ''f'', row 1 ''g'',
     row 1 ''h'', row 1 ''i'', row 1 ''j'', row 1 ''k'', row 1 ''l'', row 1 ''m'', row 1 ''n'',
     row 1 ''o'', row 1 ''p'', row 1 ''q'', row 1 ''r'', row 1 ''s'', row 1 ''t'', row 1 ''u'',
     row 1 ''v'', row 1 ''w'', row 1 ''x'', row 1 ''y'', row 1 ''z'', row 1 ''A'', row 1 ''B'',
     row 1 ''C'', row 1 ''D'', row 1 ''E'', row 1 ''F'', row 1 ''G'', row 1 ''H'', row 1 ''I'',
     row 1 ''J'', row 1 ''K'', row 1 ''L'', row 1 ''M'', row 1 ''N'', row 1 ''O'', row 1 ''P'',
     row 1 ''Q'', row 1 ''R'', row 1 ''S'', row 1 ''T'', row 1 ''U'', row 1 ''V'', row 1 ''W'',
     row 1 ''X'', row 1 ''Y'', row 1 ''Z'', row 1 ''0'', row 1 ''1'', row 1 ''2'', row 1 ''3'',
     row 1 ''4'', row 1 ''5'', row 1 ''6'', row 1 ''7'', row 1 ''8'', row 1 ''9'', row 1 ''_'',
     row 1 ''-'', row 1 ''.'', row 1 ''/'', row 1 '' '', row 1 '','', row 1 '':'', row 1 '';'',
     row 1 ''='', row 1 ''('', row 1 '')'', row 1 ''['', row 1 '']'', row 1 ''{'', row 1 ''}'',
     row 1 ''<'', row 1 ''>'', row 1 ''&'', row 1 ''*'', row 1 ''#'', row 1 ''@'', row 1 ''!'',
     row 1 ''?'', row 1 ''|'', row 1 [CHR 0x22], row 1 [CHR 0x27], row 1 [CHR 0x5C],
     row 1 ''+'']"

definition codebook_exts :: "u8 list list" where
  "codebook_exts =
    [row 3 ''.rs'', row 5 ''.toml'', row 5 ''.lock'', row 2 ''.c'', row 2 ''.h'',
     row 4 ''.cpp'', row 4 ''.hpp'', row 3 ''.cc'', row 3 ''.hh'', row 3 ''.py'',
     row 4 ''.pyi'', row 3 ''.js'', row 4 ''.mjs'', row 4 ''.cjs'', row 3 ''.ts'',
     row 4 ''.tsx'', row 4 ''.jsx'', row 5 ''.json'', row 3 ''.md'', row 4 ''.txt'',
     row 5 ''.yaml'', row 4 ''.yml'', row 4 ''.xml'', row 5 ''.html'', row 4 ''.css'',
     row 5 ''.scss'', row 5 ''.wasm'', row 4 ''.wat'', row 3 ''.cl'', row 4 ''.spv'',
     row 5 ''.glsl'', row 3 ''.sh'', row 5 ''.bash'', row 4 ''.zsh'', row 4 ''.bat'',
     row 4 ''.ps1'', row 4 ''.ini'', row 4 ''.cfg'', row 5 ''.conf'', row 3 ''.mk'',
     row 6 ''.cmake'', row 5 ''.diff'', row 6 ''.patch'', row 4 ''.svg'', row 4 ''.png'',
     row 4 ''.jpg'', row 4 ''.gif'', row 4 ''.ico'', row 5 ''.woff'', row 6 ''.woff2'',
     row 4 ''.ttf'', row 4 ''.csv'', row 4 ''.tsv'', row 4 ''.log'', row 4 ''.tmp'',
     row 4 ''.bak'', row 2 ''.o'', row 2 ''.d'', row 2 ''.a'', row 3 ''.so'', row 4 ''.exe'',
     row 6 ''.jsonc'']"

definition codebook_names :: "u8 list list" where
  "codebook_names =
    [row 3 ''src'', row 3 ''lib'', row 3 ''bin'', row 4 ''test'', row 5 ''tests'',
     row 3 ''doc'', row 4 ''docs'', row 7 ''example'', row 8 ''examples'', row 5 ''bench'',
     row 7 ''benches'', row 5 ''build'', row 6 ''target'', row 7 ''include'', row 6 ''kernel'',
     row 7 ''kernels'', row 6 ''shader'', row 7 ''shaders'', row 7 ''storage'',
     row 6 ''engine'', row 6 ''editor'', row 6 ''render'', row 8 ''renderer'', row 6 ''assets'',
     row 9 ''component'', row 10 ''components'', row 7 ''fixture'', row 8 ''fixtures'',
     row 9 ''migration'', row 10 ''migrations'', row 6 ''plugin'', row 7 ''plugins'',
     row 7 ''scripts'', row 5 ''tools'', row 5 ''utils'', row 4 ''util'', row 3 ''api'',
     row 3 ''cli'', row 3 ''gui'', row 2 ''ui'', row 4 ''core'', row 3 ''net'', row 2 ''db'',
     row 5 ''cache'', row 4 ''dist'', row 7 ''release'', row 5 ''debug'', row 6 ''vendor'',
     row 11 ''third_party'', row 12 ''node_modules'', row 4 ''main'', row 3 ''mod'',
     row 4 ''impl'', row 3 ''pub'', row 3 ''use'', row 2 ''fn'', row 3 ''let'', row 3 ''mut'',
     row 4 ''self'', row 5 ''crate'', row 6 ''struct'', row 4 ''enum'', row 5 ''trait'',
     row 4 ''type'', row 5 ''const'', row 6 ''static'', row 6 ''readme'', row 8 ''makefile'',
     row 6 ''config'', row 5 ''index'', row 5 ''error'', row 7 ''codevar'', row 6 ''wredit'',
     row 5 ''cargo'', row 9 ''gitignore'', row 7 ''license'', row 9 ''changelog'',
     row 10 ''dockerfile'', row 8 ''justfile'', row 3 ''gen'', row 9 ''generated'',
     row 5 ''test_'', row 5 ''_test'', row 4 ''utf8'', row 5 ''utf16'', row 4 ''simd'',
     row 4 ''hash'', row 5 ''block'', row 6 ''buffer'', row 6 ''cursor'', row 8 ''writable'',
     row 8 ''readonly'', row 9 ''workspace'']"

definition codebook_rows :: "u8 list list" where
  "codebook_rows = codebook_chars @ codebook_exts @ codebook_names"

definition codebook :: "u8 list" where
  "codebook = concat codebook_rows"

definition codebook_entries :: nat where
  "codebook_entries = 245"

fun codebook_start_loop :: "nat \<Rightarrow> nat \<Rightarrow> nat list" where
  "codebook_start_loop 0 offset = []"
| "codebook_start_loop (Suc n) offset =
     offset # codebook_start_loop n (offset + (unat (codebook ! offset) + 1))"

definition codebook_start :: "nat list" where
  "codebook_start = codebook_start_loop codebook_entries 0"

definition codebook_entry :: "nat \<Rightarrow> u8 list option" where
  "codebook_entry code = do {
     start \<leftarrow> (if code < length codebook_start then Some (codebook_start ! code) else None);
     len \<leftarrow> (if start < length codebook then Some (unat (codebook ! start)) else None);
     mem_read codebook (start + 1) len }"

text \<open>The counting sort of the entries by first byte.\<close>

definition first_byte :: "nat \<Rightarrow> nat" where
  "first_byte index = unat (codebook ! (codebook_start ! index + 1))"

definition bump :: "nat list \<Rightarrow> nat \<Rightarrow> nat list" where
  "bump xs i = xs[i := xs ! i + 1]"

fun prefix_sums :: "nat list \<Rightarrow> nat list" where
  "prefix_sums (x # y # xs) = x # prefix_sums ((x + y) # xs)"
| "prefix_sums xs = xs"

definition bucket_bounds :: "nat list" where
  "bucket_bounds =
     prefix_sums (foldl (\<lambda>bounds index. bump bounds (first_byte index + 1)) (replicate 257 0)
       [0..<codebook_entries])"

definition codebook_bucket :: "u8 list" where
  "codebook_bucket =
     fst (foldl (\<lambda>(bucket, cursor) index.
            (bucket[cursor ! first_byte index := word_of_nat index], bump cursor (first_byte index)))
          (replicate codebook_entries 0, bucket_bounds) [0..<codebook_entries])"

section \<open>Compression\<close>

definition literal_byte :: u8 where "literal_byte = 0xFE"
definition literal_run :: u8 where "literal_run = 0xFF"
definition max_run :: nat where "max_run = 0x100"

definition starts_with :: "'a list \<Rightarrow> 'a list \<Rightarrow> bool" where
  "starts_with tail entry \<longleftrightarrow> take (length entry) tail = entry"

function flush_literals :: "u8 list \<Rightarrow> u8 list" where
  "flush_literals literals =
     (if literals = [] then []
      else if length literals = 1 then literal_byte # literals
      else let n = min (length literals) max_run in
        literal_run # word_of_nat (n - 1) # take n literals @ flush_literals (drop n literals))"
  by pat_completeness auto
termination by (relation "measure length") (auto simp: max_run_def)

declare flush_literals.simps [simp del]

text \<open>One step of the search over a bucket: a longer match replaces the best so far.\<close>

definition better :: "u8 list \<Rightarrow> nat \<times> u8 \<Rightarrow> u8 \<Rightarrow> nat \<times> u8" where
  "better tail best code =
     (case codebook_entry (unat code) of
        None \<Rightarrow> best
      | Some entry \<Rightarrow> if length entry > fst best \<and> starts_with tail entry then (length entry, code) else best)"

definition bucket_of :: "u8 \<Rightarrow> u8 list" where
  "bucket_of b =
     (let lo = bucket_bounds ! unat b; hi = bucket_bounds ! (unat b + 1)
      in take (hi - lo) (drop lo codebook_bucket))"

definition best_match :: "u8 list \<Rightarrow> nat \<times> u8" where
  "best_match tail = foldl (better tail) (0, 0) (bucket_of (hd tail))"

function compress_loop :: "u8 list \<Rightarrow> u8 list \<Rightarrow> u8 list \<Rightarrow> u8 list" where
  "compress_loop literals tail out =
     (if tail = [] then out @ flush_literals literals
      else let (best_len, best_token) = best_match tail in
        if best_len > 0
        then compress_loop [] (drop best_len tail) (out @ flush_literals literals @ [best_token])
        else compress_loop (literals @ [hd tail]) (tl tail) out)"
  by pat_completeness auto
termination by (relation "measure (\<lambda>(literals, tail, out). length tail)") (auto simp: Suc_le_eq)

declare compress_loop.simps [simp del]

definition compress_into :: "u8 list \<Rightarrow> u8 list \<Rightarrow> u8 list" where
  "compress_into name out = compress_loop [] name out"

definition compress :: "u8 list \<Rightarrow> u8 list" where
  "compress name = compress_into name []"

section \<open>Decompression\<close>

function decompress_loop :: "u8 list \<Rightarrow> u8 list \<Rightarrow> u8 list option" where
  "decompress_loop [] out = Some out"
| "decompress_loop (token # rest) out =
     (if token = literal_byte
      then case rest of [] \<Rightarrow> None | b # rest' \<Rightarrow> decompress_loop rest' (out @ [b])
      else if token = literal_run
      then case rest of
          [] \<Rightarrow> None
        | n # rest' \<Rightarrow>
            let len = unat n + 1 in
            if len \<le> length rest' then decompress_loop (drop len rest') (out @ take len rest') else None
      else case codebook_entry (unat token) of
          None \<Rightarrow> None
        | Some entry \<Rightarrow> decompress_loop rest (out @ entry))"
  by pat_completeness auto
termination by (relation "measure (\<lambda>(block, out). length block)") auto

definition decompress :: "u8 list \<Rightarrow> u8 list option" where
  "decompress block = decompress_loop block []"

definition compress_bounded :: "u8 list \<Rightarrow> u8 list \<Rightarrow> nat option \<times> u8 list" where
  "compress_bounded name out =
     (let packed = compress name in
      if length packed > length out then (None, out)
      else (Some (length packed), packed @ drop (length packed) out))"

section \<open>The entries of the codebook\<close>

definition row_ok :: "u8 list \<Rightarrow> bool" where
  "row_ok r \<longleftrightarrow> 2 \<le> length r \<and> unat (hd r) + 1 = length r"

lemma codebook_rows_ok: "list_all row_ok codebook_rows"
  by (simp add: codebook_rows_def codebook_chars_def codebook_exts_def codebook_names_def row_ok_def row_def)

lemma length_codebook_rows: "length codebook_rows = codebook_entries"
  by (simp add: codebook_rows_def codebook_chars_def codebook_exts_def codebook_names_def codebook_entries_def)

lemma codebook_start_loop_eq:
  "codebook = concat (pre @ rs @ post) \<Longrightarrow> list_all row_ok rs \<Longrightarrow>
   codebook_start_loop (length rs) (length (concat pre)) =
     map (\<lambda>i. length (concat (pre @ take i rs))) [0..<length rs]"
proof (induction rs arbitrary: pre)
  case (Cons r rs)
  have ok: "row_ok r" using Cons.prems by simp
  then have ne: "r \<noteq> []" by (auto simp: row_ok_def)
  have "codebook ! length (concat pre) = hd r"
    unfolding Cons.prems(1) using ne by (simp add: nth_append hd_conv_nth)
  then have step: "length (concat pre) + (unat (codebook ! length (concat pre)) + 1) = length (concat (pre @ [r]))"
    using ok by (simp add: row_ok_def)
  have "codebook_start_loop (length rs) (length (concat (pre @ [r])))
      = map (\<lambda>i. length (concat ((pre @ [r]) @ take i rs))) [0..<length rs]"
    using Cons by (intro Cons.IH) simp_all
  also have "\<dots> = map (\<lambda>i. length (concat (pre @ take (Suc i) (r # rs)))) [0..<length rs]" by simp
  finally have "codebook_start_loop (length (r # rs)) (length (concat pre))
      = length (concat pre) # map (\<lambda>i. length (concat (pre @ take (Suc i) (r # rs)))) [0..<length rs]"
    using step by (simp only: list.size codebook_start_loop.simps add_Suc_right add_0_right)
  also have "\<dots> = map (\<lambda>i. length (concat (pre @ take i (r # rs)))) (0 # map Suc [0..<length rs])"
    by (simp add: comp_def)
  also have "0 # map Suc [0..<length rs] = [0..<length (r # rs)]"
    unfolding map_Suc_upt by (simp add: upt_conv_Cons del: upt_Suc)
  finally show ?case .
qed simp

lemma codebook_start_eq:
  "codebook_start = map (\<lambda>i. length (concat (take i codebook_rows))) [0..<codebook_entries]"
  using codebook_start_loop_eq [of "[]" codebook_rows "[]"] codebook_rows_ok length_codebook_rows
  by (simp add: codebook_start_def codebook_def)

lemma length_codebook_start [simp]: "length codebook_start = codebook_entries"
  by (simp add: codebook_start_eq)

lemma codebook_at_row:
  assumes "i < codebook_entries"
  shows "codebook = concat (take i codebook_rows) @ codebook_rows ! i @ concat (drop (Suc i) codebook_rows)"
  using assms id_take_nth_drop [of i codebook_rows] length_codebook_rows
  by (metis codebook_def concat.simps(2) concat_append)

lemma codebook_row:
  assumes "i < codebook_entries"
  shows "row_ok (codebook_rows ! i)"
  using codebook_rows_ok assms length_codebook_rows by (simp add: list_all_length)

lemma codebook_split:
  "xs = p @ h # t @ q \<Longrightarrow> xs ! length p = h \<and> length p < length xs \<and>
   mem_read xs (length p + 1) (length t) = Some t"
  by (auto simp: mem_read_def)

lemma nth_second: "xs = p @ h # x # q \<Longrightarrow> xs ! (length p + 1) = x"
  by (auto simp: nth_append)

lemma codebook_entry_eq:
  "codebook_entry i = (if i < codebook_entries then Some (tl (codebook_rows ! i)) else None)"
proof (cases "i < codebook_entries")
  case True
  let ?r = "codebook_rows ! i" and ?pre = "concat (take i codebook_rows)"
  note b = codebook_at_row [OF True] and ok = codebook_row [OF True]
  have start: "codebook_start ! i = length ?pre" using True by (simp add: codebook_start_eq)
  have r: "?r = hd ?r # tl ?r" using ok by (cases ?r) (auto simp: row_ok_def)
  have "codebook = ?pre @ hd ?r # tl ?r @ concat (drop (Suc i) codebook_rows)"
    using b r by (metis append_Cons)
  from codebook_split [OF this] have "codebook ! length ?pre = hd ?r" "length ?pre < length codebook"
    "mem_read codebook (length ?pre + 1) (length (tl ?r)) = Some (tl ?r)"
    by blast+
  moreover have "unat (hd ?r) = length (tl ?r)" using ok unfolding row_ok_def length_tl by linarith
  ultimately show ?thesis using True start by (simp add: codebook_entry_def)
qed (simp add: codebook_entry_def)

lemma codebook_entryD:
  "codebook_entry (unat token) = Some e \<Longrightarrow> token \<noteq> literal_byte \<and> token \<noteq> literal_run \<and> e \<noteq> []"
  using codebook_row [of "unat token"]
  by (cases "codebook_rows ! unat token")
    (auto simp: codebook_entry_eq codebook_entries_def literal_byte_def literal_run_def row_ok_def
      split: if_splits)

section \<open>Round trip\<close>

lemma decompress_append:
  "decompress_loop a acc = Some x \<Longrightarrow> decompress_loop (a @ b) acc = decompress_loop b x"
proof (induction a acc rule: decompress_loop.induct)
  case (2 token rest out)
  then show ?case by (auto split: if_splits list.splits option.splits simp: Let_def)
qed simp

lemma flush_literals_decodes:
  "decompress_loop (flush_literals ls) acc = Some (acc @ ls)"
proof (induction ls arbitrary: acc rule: flush_literals.induct)
  case (1 ls)
  consider "ls = []" | "length ls = 1" | "1 < length ls" by (cases ls; cases "tl ls") auto
  then show ?case
  proof cases
    case 2
    then obtain b where "ls = [b]" by (cases ls) auto
    then show ?thesis by (simp add: flush_literals.simps [of "[b]"])
  next
    case 3
    let ?n = "min (length ls) max_run"
    have n: "1 < ?n" "?n \<le> 256" "?n \<le> length ls" using 3 by (auto simp: max_run_def)
    have "unat (word_of_nat m :: u8) = m" if "m < 256" for m
      using that by (simp add: unsigned_of_nat take_bit_nat_eq_self_iff)
    from this [of "?n - 1"] have u: "unat (word_of_nat (?n - 1) :: u8) + 1 = ?n" using n by linarith
    have "flush_literals ls = literal_run # word_of_nat (?n - 1) # take ?n ls @ flush_literals (drop ?n ls)"
      using 3 by (subst flush_literals.simps) (auto simp: Let_def)
    moreover have "decompress_loop (flush_literals (drop ?n ls)) (acc @ take ?n ls) = Some (acc @ ls)"
    proof -
      have "ls \<noteq> []" "length ls \<noteq> 1" using 3 by auto
      from 1 [OF this refl, of "acc @ take ?n ls"] show ?thesis by simp
    qed
    ultimately show ?thesis
      using n u by (simp add: Let_def literal_byte_def literal_run_def)
  qed (simp add: flush_literals.simps)
qed

text \<open>What the search has found so far is a codebook entry that starts the tail.\<close>

definition match_ok :: "u8 list \<Rightarrow> nat \<times> u8 \<Rightarrow> bool" where
  "match_ok tail best \<longleftrightarrow>
     fst best = 0 \<or> (\<exists>e. codebook_entry (unat (snd best)) = Some e \<and> length e = fst best \<and> starts_with tail e)"

lemma better_ok: "match_ok tail best \<Longrightarrow> match_ok tail (better tail best code)"
  by (auto simp: better_def match_ok_def split: option.splits)

lemma best_match_ok: "match_ok tail (best_match tail)"
proof -
  have "match_ok tail best \<Longrightarrow> match_ok tail (foldl (better tail) best codes)" for best codes
    by (induction codes arbitrary: best) (simp_all add: better_ok)
  then show ?thesis by (simp add: best_match_def match_ok_def)
qed

lemma best_match_decodes:
  assumes "best_match tail = (n, token)" "0 < n"
  shows "decompress_loop [token] acc = Some (acc @ take n tail)"
proof -
  obtain e where e: "codebook_entry (unat token) = Some e" "length e = n" "take n tail = e"
    using best_match_ok [of tail] assms by (auto simp: match_ok_def starts_with_def)
  with codebook_entryD [OF e(1)] show ?thesis by simp
qed

lemma compress_loop_decodes:
  "decompress_loop out [] = Some got \<Longrightarrow>
   decompress_loop (compress_loop literals tail out) [] = Some (got @ literals @ tail)"
proof (induction literals tail out arbitrary: got rule: compress_loop.induct)
  case (1 literals tail out)
  note flush = flush_literals_decodes [of literals]
  have out: "decompress_loop (out @ flush_literals literals) [] = Some (got @ literals)"
    using decompress_append [OF 1(3)] flush by simp
  show ?case
  proof (cases "tail = []")
    case True
    with out show ?thesis by (simp add: compress_loop.simps)
  next
    case False
    obtain n token where b: "best_match tail = (n, token)" by fastforce
    show ?thesis
    proof (cases "0 < n")
      case True
      have "decompress_loop (out @ flush_literals literals @ [token]) [] = Some (got @ literals @ take n tail)"
        using decompress_append [OF out, of "[token]"] best_match_decodes [OF b True] by simp
      from 1(1) [OF False b [symmetric] refl True this] show ?thesis
        using False b True by (subst compress_loop.simps) simp
    next
      case n0: False
      from 1(2) [OF False b [symmetric] refl n0 1(3)] show ?thesis
        using False b n0 by (subst compress_loop.simps) simp
    qed
  qed
qed

section \<open>The buckets hold every entry\<close>

text \<open>How many of the first \<open>k\<close> entries have the key \<open>b\<close>, and how many a smaller one.\<close>

definition key_count :: "(nat \<Rightarrow> nat) \<Rightarrow> nat \<Rightarrow> nat \<Rightarrow> nat" where
  "key_count f k b = length (filter (\<lambda>i. f i = b) [0..<k])"

definition key_below :: "(nat \<Rightarrow> nat) \<Rightarrow> nat \<Rightarrow> nat \<Rightarrow> nat" where
  "key_below f k b = length (filter (\<lambda>i. f i < b) [0..<k])"

lemma key_count_Suc: "key_count f (Suc k) b = key_count f k b + (if f k = b then 1 else 0)"
  by (simp add: key_count_def)

lemma key_below_Suc: "key_below f k (Suc b) = key_below f k b + key_count f k b"
  by (induction k) (auto simp: key_below_def key_count_def less_Suc_eq)

lemma key_below_mono: "b \<le> c \<Longrightarrow> key_below f k b \<le> key_below f k c"
  by (induction c rule: dec_induct) (simp_all add: key_below_Suc)

lemma key_below_le: "key_below f k b \<le> k"
  unfolding key_below_def by (rule order_trans [OF length_filter_le]) simp

lemma key_count_mono: "i \<le> k \<Longrightarrow> key_count f i b \<le> key_count f k b"
  by (induction k rule: dec_induct) (simp_all add: key_count_Suc)

text \<open>The position the sort gives entry \<open>i\<close>: no two entries share one, and all are in range.\<close>

definition key_pos :: "(nat \<Rightarrow> nat) \<Rightarrow> nat \<Rightarrow> nat \<Rightarrow> nat" where
  "key_pos f n i = key_below f n (f i) + key_count f i (f i)"

lemma key_rank: "i < n \<Longrightarrow> key_count f i (f i) < key_count f n (f i)"
  using key_count_mono [of "Suc i" n f "f i"] by (simp add: key_count_Suc)

lemma key_pos_range:
  assumes "i < n"
  shows "key_below f n (f i) \<le> key_pos f n i" "key_pos f n i < key_below f n (Suc (f i))" "key_pos f n i < n"
proof -
  show "key_below f n (f i) \<le> key_pos f n i" by (simp add: key_pos_def)
  show *: "key_pos f n i < key_below f n (Suc (f i))"
    using key_rank [OF assms, of f] by (simp add: key_pos_def key_below_Suc)
  show "key_pos f n i < n" using * key_below_le [of f n "Suc (f i)"] by linarith
qed

lemma key_pos_inj:
  assumes "i < k" "k < n"
  shows "key_pos f n i \<noteq> key_pos f n k"
proof -
  note i = key_pos_range [of i n f] and k = key_pos_range [of k n f]
  consider "f i = f k" | "f i < f k" | "f k < f i" by linarith
  then show ?thesis
  proof cases
    case 1
    then show ?thesis using key_rank [OF assms(1), of f] by (simp add: key_pos_def)
  next
    case 2
    then show ?thesis using i k assms key_below_mono [of "Suc (f i)" "f k" f n] by linarith
  next
    case 3
    then show ?thesis using i k assms key_below_mono [of "Suc (f k)" "f i" f n] by linarith
  qed
qed

lemma prefix_sums_nth:
  "length (prefix_sums xs) = length xs \<and> (\<forall>j < length xs. prefix_sums xs ! j = sum_list (take (Suc j) xs))"
proof (induction xs rule: prefix_sums.induct)
  case (1 x y xs)
  then show ?case by (auto simp: nth_Cons split: nat.splits)
qed auto

lemma key_counts:
  assumes "\<forall>i < k. f i < 256"
  defines "c \<equiv> foldl (\<lambda>bounds index. bump bounds (f index + 1)) (replicate 257 0) [0..<k]"
  shows "length c = 257 \<and> c ! 0 = 0 \<and> (\<forall>b < 256. c ! Suc b = key_count f k b)"
  using assms(1) unfolding c_def
proof (induction k)
  case 0
  then show ?case by (simp add: key_count_def nth_Cons')
next
  case (Suc k)
  then show ?case by (auto simp: bump_def nth_list_update key_count_Suc)
qed

lemma key_bounds:
  assumes "length c = 257" "c ! 0 = 0" "\<forall>b < 256. c ! Suc b = key_count f n b" "j \<le> 256"
  shows "prefix_sums c ! j = key_below f n j"
proof -
  have "sum_list (take (Suc j) c) = key_below f n j"
    using assms(4)
  proof (induction j)
    case 0
    then show ?case using assms(1,2) by (cases c) (simp_all add: key_below_def)
  next
    case (Suc j)
    then have "take (Suc (Suc j)) c = take (Suc j) c @ [c ! Suc j]"
      using assms(1) by (intro take_Suc_conv_app_nth) simp
    with Suc assms(3) show ?case by (simp add: key_below_Suc)
  qed
  with prefix_sums_nth [of c] assms(1,4) show ?thesis by simp
qed

lemma key_fill:
  fixes g :: "nat \<Rightarrow> 'b" and z :: 'b
  assumes f: "\<forall>i < n. f i < 256" and B: "length B = 257" "\<forall>j \<le> 256. B ! j = key_below f n j" and k: "k \<le> n"
  shows "case foldl (\<lambda>(bucket, cursor) index. (bucket[cursor ! f index := g index], bump cursor (f index)))
           (replicate n z, B) [0..<k] of
      (bucket, cursor) \<Rightarrow> length bucket = n \<and> length cursor = 257 \<and>
        (\<forall>b < 256. cursor ! b = key_below f n b + key_count f k b) \<and>
        (\<forall>i < k. bucket ! key_pos f n i = g i)"
  using k
proof (induction k)
  case 0
  then show ?case using B by (simp add: key_count_def)
next
  case (Suc k)
  obtain bucket cursor where st: "foldl (\<lambda>(bucket, cursor) index. (bucket[cursor ! f index := g index], bump cursor (f index)))
      (replicate n z, B) [0..<k] = (bucket, cursor)" by fastforce
  with Suc have ih: "length bucket = n" "length cursor = 257"
    "\<forall>b < 256. cursor ! b = key_below f n b + key_count f k b" "\<forall>i < k. bucket ! key_pos f n i = g i" by auto
  have fk: "f k < 256" "k < n" using f Suc.prems by auto
  have pos: "cursor ! f k = key_pos f n k" using ih(3) fk by (simp add: key_pos_def)
  have "bucket[key_pos f n k := g k] ! key_pos f n i = g i" if "i < Suc k" for i
  proof (cases "i = k")
    case True
    then show ?thesis using key_pos_range(3) [OF fk(2), of f] ih(1) by simp
  next
    case False
    with that have "i < k" by simp
    then show ?thesis using key_pos_inj [OF _ fk(2), of i f] ih(4) by simp
  qed
  moreover have "\<forall>b < 256. bump cursor (f k) ! b = key_below f n b + key_count f (Suc k) b"
    using ih(2,3) fk by (auto simp: bump_def nth_list_update key_count_Suc)
  ultimately show ?case using st ih(1,2) pos by (simp add: bump_def)
qed

lemma first_byte_less: "first_byte i < 256"
  using unsigned_less [of "codebook ! (codebook_start ! i + 1)"] by (simp add: first_byte_def)

lemma bucket_bounds_eq:
  "length bucket_bounds = 257" "j \<le> 256 \<Longrightarrow> bucket_bounds ! j = key_below first_byte codebook_entries j"
proof -
  let ?c = "foldl (\<lambda>bounds index. bump bounds (first_byte index + 1)) (replicate 257 0) [0..<codebook_entries]"
  have c: "length ?c = 257 \<and> ?c ! 0 = 0 \<and> (\<forall>b < 256. ?c ! Suc b = key_count first_byte codebook_entries b)"
    by (rule key_counts) (simp add: first_byte_less)
  then show "length bucket_bounds = 257" unfolding bucket_bounds_def using prefix_sums_nth [of ?c] by simp
  show "bucket_bounds ! j = key_below first_byte codebook_entries j" if "j \<le> 256"
    unfolding bucket_bounds_def using c that by (intro key_bounds) auto
qed

lemma codebook_bucket_eq:
  "length codebook_bucket = codebook_entries"
  "i < codebook_entries \<Longrightarrow> codebook_bucket ! key_pos first_byte codebook_entries i = word_of_nat i"
  using key_fill [of codebook_entries first_byte bucket_bounds codebook_entries
      "word_of_nat :: nat \<Rightarrow> u8" 0]
    bucket_bounds_eq first_byte_less
  by (auto simp: codebook_bucket_def split: prod.splits)

lemma bucket_of_complete:
  assumes "i < codebook_entries"
  shows "word_of_nat i \<in> set (bucket_of (word_of_nat (first_byte i)))"
proof -
  let ?b = "first_byte i" let ?p = "key_pos first_byte codebook_entries i"
  let ?lo = "key_below first_byte codebook_entries ?b" and ?hi = "key_below first_byte codebook_entries (Suc ?b)"
  have u: "unat (word_of_nat ?b :: u8) = ?b"
    using first_byte_less [of i] by (simp add: unsigned_of_nat take_bit_nat_eq_self_iff)
  have b: "bucket_bounds ! ?b = ?lo" "bucket_bounds ! Suc ?b = ?hi"
    using bucket_bounds_eq(2) first_byte_less [of i] by simp_all
  note r = key_pos_range [OF assms, of first_byte]
  have "take (?hi - ?lo) (drop ?lo codebook_bucket) ! (?p - ?lo) = codebook_bucket ! ?p"
    "?p - ?lo < length (take (?hi - ?lo) (drop ?lo codebook_bucket))"
    using r codebook_bucket_eq(1) key_below_le [of first_byte codebook_entries "Suc ?b"] by auto
  then have "codebook_bucket ! ?p \<in> set (take (?hi - ?lo) (drop ?lo codebook_bucket))" by (metis nth_mem)
  then show ?thesis using codebook_bucket_eq(2) [OF assms] by (simp add: bucket_of_def u b Let_def)
qed

section \<open>Longest match and size\<close>

lemma foldl_better_ge: "fst best \<le> fst (foldl (better tail) best codes)"
proof (induction codes arbitrary: best)
  case (Cons c codes)
  have "fst best \<le> fst (better tail best c)" by (simp add: better_def split: option.splits)
  also note Cons
  finally show ?case by simp
qed simp

lemma foldl_better_max:
  "c \<in> set codes \<Longrightarrow> codebook_entry (unat c) = Some e \<Longrightarrow> starts_with tail e \<Longrightarrow>
   length e \<le> fst (foldl (better tail) best codes)"
proof (induction codes arbitrary: best)
  case (Cons d codes)
  show ?case
  proof (cases "c = d")
    case True
    then have "length e \<le> fst (better tail best d)" using Cons.prems by (auto simp: better_def)
    also note foldl_better_ge [of _ tail codes]
    finally show ?thesis by simp
  qed (use Cons in simp)
qed simp

lemma flush_literals_length: "length (flush_literals ls) \<le> 2 * length ls"
proof (induction ls rule: flush_literals.induct)
  case (1 ls)
  show ?case
  proof (cases "length ls \<le> 1")
    case True
    then show ?thesis by (cases ls) (simp_all add: flush_literals.simps [of "[_]"] flush_literals.simps [of "[]"])
  next
    case False
    define n where "n = min (length ls) max_run"
    have ne: "ls \<noteq> []" "length ls \<noteq> 1" using False by auto
    have "flush_literals ls = literal_run # word_of_nat (n - 1) # take n ls @ flush_literals (drop n ls)"
      using ne by (subst flush_literals.simps) (simp add: Let_def n_def)
    then have "length (flush_literals ls) = 2 + n + length (flush_literals (drop n ls))"
      by (simp add: n_def)
    moreover have "length (flush_literals (drop n ls)) \<le> 2 * (length ls - n)"
      using 1 [OF ne refl] by (simp add: n_def)
    moreover have "2 \<le> n" "n \<le> length ls" using False by (simp_all add: n_def max_run_def)
    ultimately show ?thesis by linarith
  qed
qed

lemma compress_loop_length:
  "length (compress_loop literals tail out) \<le> length out + 2 * (length literals + length tail)"
proof (induction literals tail out rule: compress_loop.induct)
  case (1 literals tail out)
  note flush = flush_literals_length [of literals]
  show ?case
  proof (cases "tail = []")
    case True
    with flush show ?thesis by (simp add: compress_loop.simps)
  next
    case False
    obtain n token where b: "best_match tail = (n, token)" by fastforce
    show ?thesis
    proof (cases "0 < n")
      case True
      have "compress_loop literals tail out
          = compress_loop [] (drop n tail) (out @ flush_literals literals @ [token])"
        using False b True by (subst compress_loop.simps) simp
      moreover have "Suc (2 * (length tail - n)) \<le> 2 * length tail" using False True by (cases tail) auto
      ultimately show ?thesis using 1(1) [OF False b [symmetric] refl True] flush by simp
    next
      case n0: False
      have "compress_loop literals tail out = compress_loop (literals @ [hd tail]) (tl tail) out"
        using False b n0 by (subst compress_loop.simps) simp
      moreover have "Suc (Suc (2 * (length tail - 1))) = 2 * length tail" using False by (cases tail) auto
      ultimately show ?thesis using 1(2) [OF False b [symmetric] refl n0] by simp
    qed
  qed
qed

section \<open>Properties\<close>

lemma compress_decodes: "decompress (compress name) = Some name"
  using compress_loop_decodes [of "[]" "[]" "[]" name]
  by (simp add: decompress_def compress_def compress_into_def)

text \<open>
  C11: Decompressing a compressed name gives the name back, for every byte string.
\<close>

lemma decompress_compress: "decompress (compress name) = Some name"
  by (rule compress_decodes)

text \<open>
  C29: compress_bounded writes at most twice the name's length, within the output buffer, what
  it writes decompresses to the name, and it fails only when the compressed name does not fit,
  leaving the buffer alone.
\<close>

lemma compress_bounded_correct:
  "case compress_bounded name out of
     (Some n, out') \<Rightarrow> n \<le> length out \<and> n \<le> 2 * length name \<and> length out' = length out \<and>
       decompress (take n out') = Some name \<and> drop n out' = drop n out
   | (None, out') \<Rightarrow> out' = out \<and> length out < length (compress name) \<and> length out < 2 * length name"
proof -
  have "length (compress name) \<le> 2 * length name"
    using compress_loop_length [of "[]" name "[]"] by (simp add: compress_def compress_into_def)
  moreover have "decompress (compress name) = Some name"
    using compress_loop_decodes [of "[]" "[]" "[]" name]
    by (simp add: decompress_def compress_def compress_into_def)
  ultimately show ?thesis by (auto simp: compress_bounded_def Let_def)
qed

lemma best_match_longest:
  assumes "tail \<noteq> []" "i < codebook_entries" "starts_with tail (tl (codebook_rows ! i))"
  shows "length (tl (codebook_rows ! i)) \<le> fst (best_match tail)"
proof -
  let ?e = "tl (codebook_rows ! i)" and ?pre = "concat (take i codebook_rows)"
  have ok: "2 \<le> length (codebook_rows ! i)" using codebook_row [OF assms(2)] by (simp add: row_ok_def)
  then obtain h x xs where r: "codebook_rows ! i = h # x # xs"
    by (cases "codebook_rows ! i"; cases "tl (codebook_rows ! i)") auto
  have "codebook = ?pre @ h # x # xs @ concat (drop (Suc i) codebook_rows)"
    using codebook_at_row [OF assms(2)] r by (metis append_Cons)
  from nth_second [OF this] have "codebook ! (length ?pre + 1) = x" .
  moreover have "codebook_start ! i = length ?pre" using assms(2) by (simp add: codebook_start_eq)
  ultimately have "word_of_nat (first_byte i) = x" by (simp add: first_byte_def)
  moreover have "hd tail = x" using assms(1,3) r by (cases tail) (auto simp: starts_with_def)
  ultimately have "word_of_nat i \<in> set (bucket_of (hd tail))" using bucket_of_complete [OF assms(2)] by simp
  moreover have "unat (word_of_nat i :: u8) = i"
    using assms(2) by (simp add: unsigned_of_nat take_bit_nat_eq_self_iff codebook_entries_def)
  moreover have "codebook_entry i = Some ?e" using assms(2) by (simp add: codebook_entry_eq)
  ultimately show ?thesis
    unfolding best_match_def using foldl_better_max [of "word_of_nat i" _ ?e tail] assms(3) by simp
qed

lemma best_match_longest_witness: "3 \<le> fst (best_match (map of_char ''.rs''))"
proof -
  have "codebook_rows ! 90 = row 3 ''.rs''"
    by (simp add: codebook_rows_def codebook_chars_def codebook_exts_def nth_append)
  then have "tl (codebook_rows ! 90) = map of_char ''.rs''" by (simp add: row_def)
  then show ?thesis
    using best_match_longest [of "map of_char ''.rs''" 90] by (simp add: codebook_entries_def starts_with_def)
qed

end
