(* ===== verification/Raw_Buffer.thy ===== *)
theory Raw_Buffer
  imports Bits Wredit_Error
begin

text \<open>
  The raw document store: packed elements and the growable aligned buffer
  (\<open>crates/wredit/src/base.rs\<close>), and the two block writers that flush staged elements into it
  (\<open>crates/wredit/src/flush_writable.rs\<close>). \<open>Raw\<close> is \<open>u32\<close>.

  The memory of a buffer is the list of its cells, uninitialised ones included; its length is the
  \<open>allocated\<close> of the source. The allocator is an argument: it returns, for a number of cells,
  either nothing (a null pointer) or the arbitrary contents the new cells start with. The cache
  prefetches of the writers have no effect on memory and are left out.
\<close>

unbundle bit_operations_syntax

section \<open>Packed elements\<close>

definition shift_type :: nat where "shift_type = 28"
definition type_mask :: u32 where "type_mask = 0xF"
definition char_mask :: u32 where "char_mask = 0xFFFFFF"
definition common_mask :: u32 where "common_mask = 0xE"
definition merge_mask :: u32 where "merge_mask = 0xD"

definition make_packed :: "u32 \<Rightarrow> u32 \<Rightarrow> u32" where
  "make_packed character element_type =
     push_bit shift_type (element_type AND type_mask) OR (character AND char_mask)"

definition packed_char :: "u32 \<Rightarrow> u32" where
  "packed_char element = element AND char_mask"

definition packed_type :: "u32 \<Rightarrow> u32" where
  "packed_type element = drop_bit shift_type element AND type_mask"

datatype writable_gap_size = Gap128 | Gap256 | Gap512 | Gap1024

fun gap_size_as_usize :: "writable_gap_size \<Rightarrow> usize" where
  "gap_size_as_usize Gap128 = 128"
| "gap_size_as_usize Gap256 = 256"
| "gap_size_as_usize Gap512 = 512"
| "gap_size_as_usize Gap1024 = 1024"

section \<open>The aligned buffer\<close>

record 'a alloc_env =
  elem_size :: usize
  layout_align :: usize
  heap :: "usize \<Rightarrow> (nat \<Rightarrow> 'a) option"

record 'a aligned_ptr =
  ap_cells :: "'a list"
  ap_count :: usize

abbreviation ap_allocated :: "'a aligned_ptr \<Rightarrow> usize" where
  "ap_allocated r \<equiv> length (ap_cells r)"

definition ap_new :: "'a aligned_ptr" where
  "ap_new = \<lparr>ap_cells = [], ap_count = 0\<rparr>"

definition set_count :: "usize \<Rightarrow> 'a aligned_ptr \<Rightarrow> 'a aligned_ptr" where
  "set_count count r = r\<lparr>ap_count := min count (ap_allocated r)\<rparr>"

definition ap_slice :: "'a aligned_ptr \<Rightarrow> 'a list" where
  "ap_slice r = take (ap_count r) (ap_cells r)"

definition min_capacity :: usize where "min_capacity = 32"

definition ensure_merge_buffer :: "'a alloc_env \<Rightarrow> usize \<Rightarrow> wredit_error + 'a list" where
  "ensure_merge_buffer env capacity =
     (if capacity = 0 then Inl (InvalidGapSize 0)
      else if elem_size env * capacity + (layout_align env - 1) > isize_max
      then Inl (LimitExceeded ''writable buffer layout'')
      else case heap env capacity of
        None \<Rightarrow> Inl (CapacityExhausted capacity 0)
      | Some cells \<Rightarrow> Inr (map cells [0..<capacity]))"

definition saturating_mul :: "usize \<Rightarrow> usize \<Rightarrow> usize" where
  "saturating_mul a b = min (a * b) usize_max"

definition ensure_capacity ::
    "'a alloc_env \<Rightarrow> usize \<Rightarrow> 'a aligned_ptr \<Rightarrow> ('a aligned_ptr, unit) wredit_op" where
  "ensure_capacity env capacity r =
     (if capacity \<le> ap_allocated r then Some (Inr (), r)
      else let new_capacity = max (max capacity (saturating_mul (ap_allocated r) 2)) min_capacity in
        case ensure_merge_buffer env new_capacity of
          Inl e \<Rightarrow> Some (Inl e, r)
        | Inr cells \<Rightarrow> do {
            cells' \<leftarrow> mem_write cells 0 (ap_slice r);
            Some (Inr (), r\<lparr>ap_cells := cells'\<rparr>) })"

section \<open>Writing into the buffer\<close>

definition write_bytes_to_raw ::
    "'a alloc_env \<Rightarrow> 'a aligned_ptr \<Rightarrow> usize \<Rightarrow> usize \<Rightarrow> 'a list \<Rightarrow> (usize \<times> 'a aligned_ptr) option" where
  "write_bytes_to_raw env raw raw_length at src =
     (if src = [] then Some (raw_length, raw)
      else if at > raw_length then Some (raw_length, raw)
      else case checked_add raw_length (length src) of
        None \<Rightarrow> Some (raw_length, raw)
      | Some new_length \<Rightarrow> do {
          (res, raw1) \<leftarrow> ensure_capacity env new_length raw;
          case res of
            Inl _ \<Rightarrow> Some (raw_length, raw1)
          | Inr _ \<Rightarrow> do {
              c1 \<leftarrow> mem_move (ap_cells raw1) (at + length src) at (raw_length - at);
              c2 \<leftarrow> mem_write c1 at src;
              Some (new_length, set_count new_length (raw1\<lparr>ap_cells := c2\<rparr>)) } })"

definition flush_chunk :: usize where "flush_chunk = 0x40"

definition commit_pending :: "'a list \<Rightarrow> usize \<Rightarrow> usize \<Rightarrow> 'a list \<Rightarrow> (usize \<times> 'a list) option" where
  "commit_pending cells len at pending =
     (if pending = [] then Some (len, cells)
      else do {
        c1 \<leftarrow> mem_move cells (at + length pending) at (len - at);
        c2 \<leftarrow> mem_write c1 at pending;
        Some (len + length pending, c2) })"

fun flush_loop :: "u32 list \<Rightarrow> u32 list \<Rightarrow> usize \<Rightarrow> usize \<Rightarrow> u32 list \<Rightarrow> (usize \<times> u32 list) option" where
  "flush_loop [] cells len stream pending = commit_pending cells len stream pending"
| "flush_loop (value # values) cells len stream pending =
     (if packed_type value = merge_mask
      then do {
        (len1, c1) \<leftarrow> commit_pending cells len stream pending;
        let stream1 = stream + length pending;
        c2 \<leftarrow> mem_write c1 stream1 [make_packed (packed_char value) common_mask];
        if stream1 < len1 then flush_loop values c2 len1 (stream1 + 1) []
        else flush_loop values c2 (len1 + 1) (stream1 + 1) [] }
      else let pending1 = pending @ [value] in
        if length pending1 = flush_chunk
        then do {
          (len1, c1) \<leftarrow> commit_pending cells len stream pending1;
          flush_loop values c1 len1 (stream + length pending1) [] }
        else flush_loop values cells len stream pending1)"

definition flush_stream_write_scalar ::
    "u32 alloc_env \<Rightarrow> u32 aligned_ptr \<Rightarrow> usize \<Rightarrow> usize \<Rightarrow> u32 list \<Rightarrow> (usize option \<times> u32 aligned_ptr) option"
  where
  "flush_stream_write_scalar env raw raw_length at values =
     (if values = [] then Some (Some raw_length, raw)
      else if at > raw_length then Some (None, raw)
      else case checked_add raw_length (length values) of
        None \<Rightarrow> Some (None, raw)
      | Some worst_case \<Rightarrow> do {
          (res, raw1) \<leftarrow> ensure_capacity env worst_case raw;
          case res of
            Inl _ \<Rightarrow> Some (None, raw1)
          | Inr _ \<Rightarrow>
              if \<not> (\<exists>value \<in> set values. packed_type value = merge_mask)
              then do {
                c1 \<leftarrow> mem_move (ap_cells raw1) (at + length values) at (raw_length - at);
                c2 \<leftarrow> mem_write c1 at values;
                Some (Some worst_case, set_count worst_case (raw1\<lparr>ap_cells := c2\<rparr>)) }
              else do {
                (len, c) \<leftarrow> flush_loop values (ap_cells raw1) raw_length at [];
                Some (Some len, set_count len (raw1\<lparr>ap_cells := c\<rparr>)) } })"

text \<open>The staged run of a gap window; \<^const>\<open>None\<close> for \<open>buffer\<close> is the null pointer.\<close>

definition flush_gap_buffer_to_raw ::
    "u32 alloc_env \<Rightarrow> u32 aligned_ptr \<Rightarrow> usize \<Rightarrow> u32 list option \<Rightarrow> usize \<Rightarrow> usize \<Rightarrow>
     (usize option \<times> u32 aligned_ptr) option" where
  "flush_gap_buffer_to_raw env raw raw_length buffer staged at =
     (if staged = 0 then Some (Some raw_length, raw)
      else case buffer of
        None \<Rightarrow> Some (None, raw)
      | Some window \<Rightarrow> do {
          values \<leftarrow> mem_read window 0 staged;
          flush_stream_write_scalar env raw raw_length at values })"

section \<open>Packing\<close>

lemma packed_masks: "type_mask = mask 4" "char_mask = mask 24"
  by (simp_all add: type_mask_def char_mask_def mask_eq_exp_minus_1)

lemma packed_char_make: "packed_char (make_packed c t) = take_bit 24 c"
  by (rule bit_word_eqI)
    (auto simp: packed_char_def make_packed_def shift_type_def packed_masks bit_simps)

lemma packed_type_make: "packed_type (make_packed c t) = take_bit 4 t"
  by (rule bit_word_eqI)
    (auto simp: packed_type_def make_packed_def shift_type_def packed_masks bit_simps)

section \<open>Growing\<close>

definition ap_inv :: "'a aligned_ptr \<Rightarrow> bool" where
  "ap_inv r \<longleftrightarrow> ap_count r \<le> ap_allocated r"

lemma ensure_merge_buffer_length: "ensure_merge_buffer env n = Inr cells \<Longrightarrow> length cells = n"
  by (auto simp: ensure_merge_buffer_def split: if_splits option.splits)

lemma length_ap_slice [simp]: "ap_inv r \<Longrightarrow> length (ap_slice r) = ap_count r"
  by (simp add: ap_slice_def ap_inv_def)

lemma ensure_capacity_cases:
  assumes inv: "ap_inv r"
  obtains (failed) e where "ensure_capacity env n r = Some (Inl e, r)" "ap_allocated r < n"
  | (grown) r' where "ensure_capacity env n r = Some (Inr (), r')" "ap_inv r'" "n \<le> ap_allocated r'"
      "ap_count r' = ap_count r" "ap_slice r' = ap_slice r" "ap_allocated r \<le> ap_allocated r'"
proof (cases "n \<le> ap_allocated r")
  case True
  with inv show ?thesis by (intro grown [of r]) (simp_all add: ensure_capacity_def)
next
  case False
  let ?n = "max (max n (saturating_mul (ap_allocated r) 2)) min_capacity"
  show ?thesis
  proof (cases "ensure_merge_buffer env ?n")
    case (Inl e)
    with False show ?thesis by (intro failed [of e]) (simp_all add: ensure_capacity_def)
  next
    case (Inr cells)
    note len = ensure_merge_buffer_length [OF Inr]
    have fit: "ap_count r \<le> length cells" using inv False by (simp add: ap_inv_def len)
    let ?r = "r\<lparr>ap_cells := ap_slice r @ drop (ap_count r) cells\<rparr>"
    have "mem_write cells 0 (ap_slice r) = Some (ap_slice r @ drop (ap_count r) cells)"
      using inv fit by (simp add: mem_write_def)
    then have "ensure_capacity env n r = Some (Inr (), ?r)"
      using False Inr by (simp add: ensure_capacity_def Let_def)
    then show ?thesis
    proof (rule grown)
      show "ap_inv ?r" "n \<le> ap_allocated ?r" "ap_count ?r = ap_count r"
        using inv False fit by (simp_all add: ap_inv_def len)
      have "length (ap_slice r) = ap_count r" using inv by simp
      then show "ap_slice ?r = ap_slice r" by (simp add: ap_slice_def [of ?r])
      show "ap_allocated r \<le> ap_allocated ?r" using inv False fit by (simp add: len)
    qed
  qed
qed

section \<open>Inserting a block\<close>

lemma insert_block:
  assumes "at \<le> len" "len + length src \<le> length cells"
  obtains c1 c2 where "mem_move cells (at + length src) at (len - at) = Some c1"
    "mem_write c1 at src = Some c2" "length c2 = length cells"
    "take (len + length src) c2 = insert_at at src (take len cells)"
proof -
  define pre where "pre = take at cells"
  define tail where "tail = take (len - at) (drop at cells)"
  have len_pre: "length pre = at" and len_tail: "length tail = len - at"
    using assms by (simp_all add: pre_def tail_def)
  let ?c1 = "take (at + length src) cells @ tail @ drop (at + length src + (len - at)) cells"
  let ?c2 = "pre @ src @ tail @ drop (at + length src + (len - at)) cells"
  have 1: "mem_move cells (at + length src) at (len - at) = Some ?c1"
    using assms by (simp add: mem_move_Some tail_def)
  have l1: "length ?c1 = length cells" using assms len_tail by simp
  have "take at ?c1 = pre" using assms by (simp add: pre_def)
  moreover have "drop (at + length src) ?c1 = tail @ drop (at + length src + (len - at)) cells"
    using assms by simp
  ultimately have 2: "mem_write ?c1 at src = Some ?c2" using assms l1 by (simp add: mem_write_def)
  have "insert_at at src (take len cells) = pre @ src @ tail"
    using assms by (simp add: insert_at_def pre_def tail_def drop_take min_def)
  moreover have "len + length src = length (pre @ src @ tail)" using assms len_pre len_tail by simp
  then have "take (len + length src) ?c2 = pre @ src @ tail" by simp
  moreover have "length ?c2 = length cells" using assms len_pre len_tail by simp
  ultimately show ?thesis using that [OF 1 2] by simp
qed

lemma commit_pending_eq:
  assumes "at \<le> len" "len + length pending \<le> length cells"
  obtains c where "commit_pending cells len at pending = Some (len + length pending, c)"
    "length c = length cells" "take (len + length pending) c = insert_at at pending (take len cells)"
proof (cases "pending = []")
  case True
  then show ?thesis using that [of cells] by (simp add: commit_pending_def)
next
  case False
  obtain c1 c2 where c: "mem_move cells (at + length pending) at (len - at) = Some c1"
    "mem_write c1 at pending = Some c2" "length c2 = length cells"
    "take (len + length pending) c2 = insert_at at pending (take len cells)"
    by (rule insert_block [OF assms])
  then show ?thesis using that [of c2] False by (simp add: commit_pending_def)
qed

text \<open>
  The reference semantics of a flush, one element at a time: a MERGE element replaces the element
  it lands on (or extends the document at its end), every other element is inserted.
\<close>

fun apply_stream :: "u32 list \<Rightarrow> nat \<Rightarrow> u32 list \<Rightarrow> u32 list" where
  "apply_stream [] p doc = doc"
| "apply_stream (v # vs) p doc =
     (if packed_type v = merge_mask
      then let e = make_packed (packed_char v) common_mask in
        apply_stream vs (p + 1) (if p < length doc then doc[p := e] else doc @ [e])
      else apply_stream vs (p + 1) (insert_at p [v] doc))"

lemma flush_loop_eq:
  assumes "stream \<le> len" "len + length pending + length vals \<le> length cells"
  shows "\<exists>c len'. flush_loop vals cells len stream pending = Some (len', c) \<and> length c = length cells \<and>
    len' \<le> len + length pending + length vals \<and>
    take len' c = apply_stream vals (stream + length pending) (insert_at stream pending (take len cells))"
  using assms
proof (induction vals arbitrary: cells len stream pending)
  case Nil
  then show ?case using commit_pending_eq [of stream len pending cells] by fastforce
next
  case (Cons v vs)
  show ?case
  proof (cases "packed_type v = merge_mask")
    case True
    let ?e = "make_packed (packed_char v) common_mask" and ?p = "stream + length pending"
    let ?len = "len + length pending"
    obtain c where c: "commit_pending cells len stream pending = Some (?len, c)"
      "length c = length cells" "take ?len c = insert_at stream pending (take len cells)"
      by (rule commit_pending_eq [of stream len pending cells]) (use Cons.prems in auto)
    have w: "mem_write c ?p [?e] = Some (c[?p := ?e])"
      using Cons.prems c(2) by (simp add: mem_write_def upd_conv_take_nth_drop)
    let ?len' = "if ?p < ?len then ?len else ?len + 1"
    have "take ?len' (c[?p := ?e]) = (if ?p < ?len then (take ?len c)[?p := ?e] else take ?len c @ [?e])"
    proof (cases "?p < ?len")
      case False
      then have "?p = ?len" using Cons.prems by simp
      then show ?thesis using Cons.prems c(2) by (simp add: take_Suc_conv_app_nth)
    qed (simp add: take_update_swap)
    moreover have "length (insert_at stream pending (take len cells)) = ?len" using Cons.prems by simp
    moreover define l where "l = ?len'"
    have l: "?p + 1 \<le> l" "l + length vs \<le> length cells" "l \<le> ?len + 1"
      using Cons.prems by (auto simp: l_def)
    obtain c' len' where "flush_loop vs (c[?p := ?e]) l (?p + 1) [] = Some (len', c')"
      "length c' = length cells" "len' \<le> l + length vs"
      "take len' c' = apply_stream vs (?p + 1) (take l (c[?p := ?e]))"
      using Cons.IH [of "?p + 1" l "[]" "c[?p := ?e]"] l(1,2) c(2) by auto
    moreover from this(1) have "flush_loop (v # vs) cells len stream pending = Some (len', c')"
      using True c(1) w by (simp add: Let_def l_def split: if_splits)
    ultimately show ?thesis using True c(3) l(3) by (auto simp: Let_def l_def)
  next
    case False
    let ?pend = "pending @ [v]"
    have ins: "insert_at (stream + length pending) [v] (insert_at stream pending (take len cells))
        = insert_at stream ?pend (take len cells)"
      using Cons.prems by (simp add: insert_at_append_split)
    show ?thesis
    proof (cases "length ?pend = flush_chunk")
      case True
      let ?len = "len + length ?pend"
      obtain c where c: "commit_pending cells len stream ?pend = Some (?len, c)"
        "length c = length cells" "take ?len c = insert_at stream ?pend (take len cells)"
        by (rule commit_pending_eq [of stream len ?pend cells]) (use Cons.prems in auto)
      obtain c' len' where "flush_loop vs c ?len (stream + length ?pend) [] = Some (len', c')"
        "length c' = length cells" "len' \<le> ?len + length vs"
        "take len' c' = apply_stream vs (stream + length ?pend) (take ?len c)"
        using Cons.IH [of "stream + length ?pend" ?len "[]" c] Cons.prems c(2) by auto
      then show ?thesis using False c(1,3) ins by (simp add: Let_def True [symmetric])
    next
      case no: False
      then show ?thesis using False Cons.IH [of stream len ?pend cells] Cons.prems ins by (simp add: Let_def)
    qed
  qed
qed

lemma apply_stream_no_merge:
  "p \<le> length doc \<Longrightarrow> \<not> (\<exists>v \<in> set vs. packed_type v = merge_mask) \<Longrightarrow>
   apply_stream vs p doc = insert_at p vs doc"
proof (induction vs arbitrary: p doc)
  case (Cons v vs)
  then have "apply_stream (v # vs) p doc = insert_at (p + length [v]) vs (insert_at p [v] doc)" by simp
  also have "\<dots> = insert_at p ([v] @ vs) doc" using Cons.prems(1) by (rule insert_at_append_split)
  finally show ?case by simp
qed simp

text \<open>Taking the slice after a write: the count is set to the new length.\<close>

lemma set_count_slice:
  "n \<le> length c \<Longrightarrow> ap_slice (set_count n (r\<lparr>ap_cells := c\<rparr>)) = take n c \<and>
   ap_count (set_count n (r\<lparr>ap_cells := c\<rparr>)) = n \<and> ap_inv (set_count n (r\<lparr>ap_cells := c\<rparr>))"
  by (simp add: ap_slice_def set_count_def ap_inv_def)

lemma take_cells_slice: "ap_count r = n \<Longrightarrow> take n (ap_cells r) = ap_slice r"
  by (simp add: ap_slice_def)

section \<open>Properties\<close>

lemma packed_roundtrip:
  "packed_char (make_packed c t) = take_bit 24 c \<and> packed_type (make_packed c t) = take_bit 4 t \<and>
   make_packed (packed_char (make_packed c t)) (packed_type (make_packed c t)) = make_packed c t"
proof -
  have "make_packed (take_bit 24 c) (take_bit 4 t) = make_packed c t"
    by (simp add: make_packed_def packed_masks take_bit_eq_mask and.assoc)
  then show ?thesis by (simp add: packed_char_make packed_type_make)
qed

lemma write_bytes_to_raw_inserts:
  assumes inv: "ap_inv raw" and len: "ap_count raw = raw_length"
  shows "\<exists>n raw'. write_bytes_to_raw env raw raw_length at src = Some (n, raw') \<and> ap_inv raw' \<and>
    ap_count raw' = n \<and>
    (ap_slice raw' = ap_slice raw \<and> n = raw_length \<or>
     at \<le> raw_length \<and> n = raw_length + length src \<and> ap_slice raw' = insert_at at src (ap_slice raw)) \<and>
    (at \<le> raw_length \<and> raw_length + length src \<le> ap_allocated raw \<and> ap_allocated raw \<le> isize_max \<longrightarrow>
       ap_slice raw' = insert_at at src (ap_slice raw))"
proof (cases "src = [] \<or> at > raw_length \<or> checked_add raw_length (length src) = None")
  case True
  moreover have "raw_length + length src \<le> usize_max"
    if "raw_length + length src \<le> ap_allocated raw" "ap_allocated raw \<le> isize_max"
    using that isize_max_less by linarith
  ultimately show ?thesis using inv len
    by (auto simp: write_bytes_to_raw_def checked_add_def split: if_splits)
next
  case False
  then have at: "at \<le> raw_length" and ne: "src \<noteq> []"
    and add: "checked_add raw_length (length src) = Some (raw_length + length src)"
    by (auto simp: checked_add_def split: if_splits)
  show ?thesis
  proof (rule ensure_capacity_cases [OF inv, of env "raw_length + length src"])
    fix e assume "ensure_capacity env (raw_length + length src) raw = Some (Inl e, raw)"
      "ap_allocated raw < raw_length + length src"
    then show ?thesis using at ne add inv len by (simp add: write_bytes_to_raw_def)
  next
    fix r assume r: "ensure_capacity env (raw_length + length src) raw = Some (Inr (), r)" "ap_inv r"
      "raw_length + length src \<le> ap_allocated r" "ap_count r = ap_count raw" "ap_slice r = ap_slice raw"
    obtain c1 c2 where c: "mem_move (ap_cells r) (at + length src) at (raw_length - at) = Some c1"
      "mem_write c1 at src = Some c2" "length c2 = ap_allocated r"
      "take (raw_length + length src) c2 = insert_at at src (take raw_length (ap_cells r))"
      by (rule insert_block [OF at r(3)])
    have "take raw_length (ap_cells r) = ap_slice raw" using r(4,5) len by (simp add: take_cells_slice)
    moreover have "write_bytes_to_raw env raw raw_length at src
        = Some (raw_length + length src, set_count (raw_length + length src) (r\<lparr>ap_cells := c2\<rparr>))"
      using at ne add r(1) c(1,2) by (simp add: write_bytes_to_raw_def)
    ultimately show ?thesis
      using at c(3,4) r(3) set_count_slice [of "raw_length + length src" c2 r] by auto
  qed
qed

text \<open>
  C8: Flushing staged elements into the raw buffer never writes outside it and yields the
  document that the one-element-at-a-time reference gives: MERGE elements replace the element
  they land on, all others are inserted; when it returns None the document is unchanged.
\<close>

lemma flush_stream_refines:
  assumes inv: "ap_inv raw" and len: "ap_count raw = raw_length"
  shows "\<exists>res raw'. flush_stream_write_scalar env raw raw_length at vals = Some (res, raw') \<and> ap_inv raw' \<and>
    (case res of
       None \<Rightarrow> ap_slice raw' = ap_slice raw \<and> ap_count raw' = raw_length \<and> vals \<noteq> [] \<and>
         (raw_length < at \<or> ap_allocated raw < raw_length + length vals \<or> usize_max < raw_length + length vals)
     | Some n \<Rightarrow> n \<le> raw_length + length vals \<and> ap_count raw' = n \<and>
         ap_slice raw' = apply_stream vals at (ap_slice raw) \<and> (vals \<noteq> [] \<longrightarrow> at \<le> raw_length))"
proof (cases "vals = [] \<or> at > raw_length \<or> checked_add raw_length (length vals) = None")
  case True
  then show ?thesis using inv len
    by (auto simp: flush_stream_write_scalar_def checked_add_def split: if_splits)
next
  case False
  let ?n = "raw_length + length vals"
  from False have at: "at \<le> raw_length" and ne: "vals \<noteq> []" and add: "checked_add raw_length (length vals) = Some ?n"
    by (auto simp: checked_add_def split: if_splits)
  show ?thesis
  proof (rule ensure_capacity_cases [OF inv, of env ?n])
    fix e assume "ensure_capacity env ?n raw = Some (Inl e, raw)" "ap_allocated raw < ?n"
    then show ?thesis using at ne add inv len by (simp add: flush_stream_write_scalar_def)
  next
    fix r assume r: "ensure_capacity env ?n raw = Some (Inr (), r)" "ap_inv r"
      "?n \<le> ap_allocated r" "ap_count r = ap_count raw" "ap_slice r = ap_slice raw"
    have slice: "take raw_length (ap_cells r) = ap_slice raw" using r(4,5) len by (simp add: take_cells_slice)
    show ?thesis
    proof (cases "\<exists>value \<in> set vals. packed_type value = merge_mask")
      case True
      obtain c n where c: "flush_loop vals (ap_cells r) raw_length at [] = Some (n, c)"
        "length c = ap_allocated r" "n \<le> ?n" "take n c = apply_stream vals at (ap_slice raw)"
        using flush_loop_eq [of at raw_length "[]" vals "ap_cells r"] at r(3) slice by auto
      have "flush_stream_write_scalar env raw raw_length at vals = Some (Some n, set_count n (r\<lparr>ap_cells := c\<rparr>))"
        using at ne add r(1) c(1) True by (simp add: flush_stream_write_scalar_def)
      then show ?thesis using c(2-4) r(3) at set_count_slice [of n c r] by simp
    next
      case no: False
      obtain c1 c2 where c: "mem_move (ap_cells r) (at + length vals) at (raw_length - at) = Some c1"
        "mem_write c1 at vals = Some c2" "length c2 = ap_allocated r"
        "take ?n c2 = insert_at at vals (take raw_length (ap_cells r))"
        by (rule insert_block [OF at r(3)])
      have "flush_stream_write_scalar env raw raw_length at vals = Some (Some ?n, set_count ?n (r\<lparr>ap_cells := c2\<rparr>))"
        using at ne add r(1) c(1,2) no by (auto simp: flush_stream_write_scalar_def)
      moreover have "apply_stream vals at (ap_slice raw) = insert_at at vals (ap_slice raw)"
        using no at inv len by (intro apply_stream_no_merge) simp_all
      ultimately show ?thesis using c(3,4) r(3) at slice set_count_slice [of ?n c2 r] by simp
    qed
  qed
qed

text \<open>A concrete store: four cells, three of them in use, and an allocator that always succeeds.\<close>

definition demo_env :: "u32 alloc_env" where
  "demo_env = \<lparr>elem_size = 4, layout_align = 64, heap = \<lambda>n. Some (\<lambda>_. 0)\<rparr>"

definition demo_raw :: "u32 aligned_ptr" where
  "demo_raw = \<lparr>ap_cells = [65, 66, 67, 0], ap_count = 3\<rparr>"

lemma demo_raw_facts: "ap_inv demo_raw" "ap_count demo_raw = 3" "ap_slice demo_raw = [65, 66, 67]"
  "ap_allocated demo_raw = 4"
  by (simp_all add: demo_raw_def ap_inv_def ap_slice_def)

lemma write_bytes_to_raw_inserts_witness:
  "\<exists>raw'. write_bytes_to_raw demo_env demo_raw 3 1 [90] = Some (4, raw') \<and> ap_slice raw' = [65, 90, 66, 67]"
proof -
  have ins: "insert_at 1 [90] (ap_slice demo_raw) = [65, 90, 66, 67]"
    by (simp add: demo_raw_facts insert_at_def)
  have "(4::nat) \<le> isize_max" by (simp add: isize_max_def)
  then obtain n raw' where r: "write_bytes_to_raw demo_env demo_raw 3 1 [90] = Some (n, raw')" "ap_inv raw'"
    "ap_count raw' = n" "ap_slice raw' = insert_at 1 [90] (ap_slice demo_raw)"
    using write_bytes_to_raw_inserts [OF demo_raw_facts(1,2), of demo_env 1 "[90]"]
    by (auto simp: demo_raw_facts(4))
  have "n = length (ap_slice raw')" using r(2,3) by simp
  then have "n = 4" unfolding r(4) ins by simp
  with r ins show ?thesis by auto
qed

lemma flush_stream_refines_witness:
  "\<exists>raw'. flush_stream_write_scalar demo_env demo_raw 3 1 [make_packed 91 merge_mask] = Some (Some 3, raw') \<and>
     ap_slice raw' = [65, make_packed 91 common_mask, 67]"
proof -
  let ?v = "make_packed 91 merge_mask"
  have "packed_type ?v = merge_mask" "packed_char ?v = 91"
    by (simp_all add: packed_type_make packed_char_make merge_mask_def take_bit_eq_mask mask_eq_exp_minus_1)
  then have app: "apply_stream [?v] 1 (ap_slice demo_raw) = [65, make_packed 91 common_mask, 67]"
    by (simp add: demo_raw_facts Let_def)
  obtain res raw' where r: "flush_stream_write_scalar demo_env demo_raw 3 1 [?v] = Some (res, raw')" "ap_inv raw'"
    and c: "case res of
       None \<Rightarrow> ap_slice raw' = ap_slice demo_raw \<and> ap_count raw' = 3 \<and> [?v] \<noteq> [] \<and>
         (3 < (1::nat) \<or> ap_allocated demo_raw < 3 + length [?v] \<or> usize_max < 3 + length [?v])
     | Some n \<Rightarrow> n \<le> 3 + length [?v] \<and> ap_count raw' = n \<and>
         ap_slice raw' = apply_stream [?v] 1 (ap_slice demo_raw) \<and> ([?v] \<noteq> [] \<longrightarrow> (1::nat) \<le> 3)"
    using flush_stream_refines [OF demo_raw_facts(1,2), of demo_env 1 "[?v]"] by blast
  from c obtain n where n: "res = Some n" "ap_count raw' = n"
    "ap_slice raw' = [65, make_packed 91 common_mask, 67]"
    unfolding app by (cases res) (auto simp: demo_raw_facts(4) usize_max_def)
  have "n = length (ap_slice raw')" using n(2) r(2) by simp
  then have "n = 3" unfolding n(3) by simp
  with r n show ?thesis by auto
qed

end
