(* ===== verification/Writable_Gaps.thy ===== *)
theory Writable_Gaps
  imports Raw_Buffer Id_Pool
begin

text \<open>
  The private gap windows of a writable (\<open>crates/wredit/src/writable.rs\<close>): a window is allocated
  on the first push and filled from the front; the table hands out the windows by an occupancy
  mask. \<open>GAP_SIZE\<close> is the argument \<open>gap_size\<close>. The cursors \<open>gap_start\<close> and \<open>gap_end\<close> into a
  window are offsets from its base, \<^const>\<open>None\<close> is the null pointer.
\<close>

section \<open>One window\<close>

record 'a gap_window =
  gap_ptr :: usize
  gap_buff :: "'a list option"

record 'a writable_gap =
  gap_start :: "usize option"
  gap_end :: "usize option"
  gap_win :: "'a gap_window"
  gap_base :: usize

definition gap_ptr_new :: "'a gap_window" where
  "gap_ptr_new = \<lparr>gap_ptr = 0, gap_buff = None\<rparr>"

definition set_gap_ptr :: "usize \<Rightarrow> usize \<Rightarrow> 'a gap_window \<Rightarrow> 'a gap_window" where
  "set_gap_ptr gap_size offset w = w\<lparr>gap_ptr := min offset gap_size\<rparr>"

definition gap_allocate :: "'a alloc_env \<Rightarrow> usize \<Rightarrow> 'a gap_window \<Rightarrow> bool \<times> 'a gap_window" where
  "gap_allocate env gap_size w =
     (case gap_buff w of
        Some _ \<Rightarrow> (True, w)
      | None \<Rightarrow> (case ensure_merge_buffer env gap_size of
            Inl _ \<Rightarrow> (False, w)
          | Inr cells \<Rightarrow> (True, w\<lparr>gap_buff := Some cells\<rparr>)))"

definition gap_ptr_free :: "'a gap_window \<Rightarrow> 'a gap_window" where
  "gap_ptr_free w = w\<lparr>gap_ptr := 0, gap_buff := None\<rparr>"

definition gap_at :: "usize \<Rightarrow> 'a writable_gap" where
  "gap_at base = \<lparr>gap_start = None, gap_end = None, gap_win = gap_ptr_new, gap_base = base\<rparr>"

definition gap_staged :: "'a writable_gap \<Rightarrow> usize" where
  "gap_staged g = gap_ptr (gap_win g)"

definition gap_is_full :: "usize \<Rightarrow> 'a writable_gap \<Rightarrow> bool" where
  "gap_is_full gap_size g \<longleftrightarrow> gap_ptr (gap_win g) \<ge> gap_size"

definition gap_push ::
    "'a alloc_env \<Rightarrow> usize \<Rightarrow> 'a \<Rightarrow> 'a writable_gap \<Rightarrow> (bool \<times> 'a writable_gap) option" where
  "gap_push env gap_size value g =
     (let staged = gap_ptr (gap_win g) in
      if staged \<ge> gap_size then Some (False, g)
      else case gap_allocate env gap_size (gap_win g) of
        (False, w) \<Rightarrow> Some (False, g\<lparr>gap_win := w\<rparr>)
      | (True, w) \<Rightarrow> (case gap_buff w of
            None \<Rightarrow> None
          | Some cells \<Rightarrow> do {
              cells' \<leftarrow> mem_write cells staged [value];
              Some (True, g\<lparr>gap_start := Some (staged + 1), gap_end := Some gap_size,
                gap_win := set_gap_ptr gap_size (staged + 1) (w\<lparr>gap_buff := Some cells'\<rparr>)\<rparr>) }))"

definition gap_clear :: "usize \<Rightarrow> 'a writable_gap \<Rightarrow> 'a writable_gap" where
  "gap_clear gap_size g =
     (let w = set_gap_ptr gap_size 0 (gap_win g) in
      case gap_buff w of
        Some _ \<Rightarrow> g\<lparr>gap_win := w, gap_start := Some 0, gap_end := Some gap_size\<rparr>
      | None \<Rightarrow> g\<lparr>gap_win := w, gap_start := None, gap_end := None\<rparr>)"

section \<open>The table of windows\<close>

definition max_gaps :: usize where "max_gaps = 4"

record 'a writable_gaps =
  gaps :: "'a writable_gap list"
  occupied :: u8

definition gaps_new :: "'a writable_gaps" where
  "gaps_new = \<lparr>gaps = replicate max_gaps (gap_at 0), occupied = 0\<rparr>"

definition gaps_count :: "'a writable_gaps \<Rightarrow> usize" where
  "gaps_count t = count_ones (occupied t)"

definition gaps_is_full :: "'a writable_gaps \<Rightarrow> bool" where
  "gaps_is_full t \<longleftrightarrow> gaps_count t \<ge> max_gaps"

definition gaps_alloc :: "usize \<Rightarrow> usize \<Rightarrow> 'a writable_gaps \<Rightarrow> usize option \<times> 'a writable_gaps" where
  "gaps_alloc gap_size base t =
     (let limit = (if max_gaps \<ge> 8 then 0xFF else push_bit max_gaps 1 - 1);
          free = NOT (occupied t) AND limit
      in if free = 0 then (None, t)
         else let index = trailing_zeros free in
           (Some index,
            t\<lparr>gaps := (gaps t)[index := (gap_clear gap_size (gaps t ! index))\<lparr>gap_base := base\<rparr>],
              occupied := occupied t OR push_bit index 1\<rparr>))"

definition gaps_free :: "usize \<Rightarrow> usize \<Rightarrow> 'a writable_gaps \<Rightarrow> bool \<times> 'a writable_gaps" where
  "gaps_free gap_size index t =
     (if index \<ge> max_gaps \<or> occupied t AND push_bit index 1 = 0 then (False, t)
      else (True, t\<lparr>occupied := occupied t AND NOT (push_bit index 1),
                    gaps := (gaps t)[index := gap_clear gap_size (gaps t ! index)]\<rparr>))"

definition gaps_get :: "'a writable_gaps \<Rightarrow> usize \<Rightarrow> 'a writable_gap option" where
  "gaps_get t index =
     (if index < max_gaps \<and> occupied t AND push_bit index 1 \<noteq> 0
      then if index < length (gaps t) then Some (gaps t ! index) else None
      else None)"

definition gaps_occupied :: "'a writable_gaps \<Rightarrow> usize list" where
  "gaps_occupied t = mask_bits (occupied t)"

section \<open>Windows\<close>

definition window_inv :: "usize \<Rightarrow> 'a gap_window \<Rightarrow> bool" where
  "window_inv gap_size w \<longleftrightarrow> gap_ptr w \<le> gap_size \<and>
     (case gap_buff w of None \<Rightarrow> gap_ptr w = 0 | Some cells \<Rightarrow> length cells = gap_size)"

text \<open>What a window stages: its filled cells.\<close>

definition gap_content :: "'a writable_gap \<Rightarrow> 'a list" where
  "gap_content g = (case gap_buff (gap_win g) of None \<Rightarrow> [] | Some cells \<Rightarrow> take (gap_ptr (gap_win g)) cells)"

lemma gap_content_length: "window_inv n (gap_win g) \<Longrightarrow> length (gap_content g) = gap_staged g"
  by (auto simp: gap_content_def gap_staged_def window_inv_def split: option.splits)

lemma gap_content_rebase: "gap_content (g\<lparr>gap_base := b\<rparr>) = gap_content g"
  by (simp add: gap_content_def cong: option.case_cong)

lemma gap_push_cases:
  assumes inv: "window_inv n (gap_win g)"
  obtains (refused) g' where "gap_push env n v g = Some (False, g')" "gap_win g' = gap_win g"
      "gap_base g' = gap_base g" "n \<le> gap_staged g \<or> gap_buff (gap_win g) = None"
  | (pushed) g' where "gap_push env n v g = Some (True, g')" "window_inv n (gap_win g')"
      "gap_content g' = gap_content g @ [v]" "gap_base g' = gap_base g" "gap_staged g < n"
proof -
  let ?w = "gap_win g"
  have push: thesis if cells: "gap_allocate env n ?w = (True, w)" "gap_buff w = Some cells" "length cells = n"
    "gap_ptr w = gap_ptr ?w" "gap_ptr ?w < n" "take (gap_ptr ?w) cells = gap_content g" for w cells
  proof -
    let ?c = "cells[gap_ptr ?w := v]"
    have "mem_write cells (gap_ptr ?w) [v] = Some ?c"
      using cells by (simp add: mem_write_def upd_conv_take_nth_drop)
    then have p: "gap_push env n v g = Some (True, g\<lparr>gap_start := Some (gap_ptr ?w + 1), gap_end := Some n,
        gap_win := set_gap_ptr n (gap_ptr ?w + 1) (w\<lparr>gap_buff := Some ?c\<rparr>)\<rparr>)"
      using cells by (simp add: gap_push_def Let_def)
    have "take (Suc (gap_ptr ?w)) ?c = gap_content g @ [v]"
      using cells by (simp add: take_Suc_conv_app_nth)
    with cells show thesis
      by (intro pushed [OF p]) (auto simp: window_inv_def set_gap_ptr_def gap_content_def gap_staged_def min_def)
  qed
  show thesis
  proof (cases "n \<le> gap_ptr ?w")
    case True
    then show thesis by (intro refused) (simp_all add: gap_push_def gap_staged_def)
  next
    case False
    show thesis
    proof (cases "gap_buff ?w")
      case (Some cells)
      with inv False show thesis
        by (intro push [of ?w cells]) (auto simp: gap_allocate_def window_inv_def gap_content_def)
    next
      case None
      show thesis
      proof (cases "ensure_merge_buffer env n")
        case (Inl e)
        with None False show thesis by (intro refused) (simp_all add: gap_push_def gap_allocate_def Let_def)
      next
        case (Inr cells)
        with None False inv ensure_merge_buffer_length [OF Inr] show thesis
          by (intro push [of "?w\<lparr>gap_buff := Some cells\<rparr>" cells])
            (auto simp: gap_allocate_def window_inv_def gap_content_def)
      qed
    qed
  qed
qed

lemma gap_clear_eq:
  assumes "window_inv n (gap_win g)"
  shows "window_inv n (gap_win (gap_clear n g))" "gap_content (gap_clear n g) = []"
    "gap_base (gap_clear n g) = gap_base g"
  using assms
  by (auto simp: gap_clear_def set_gap_ptr_def window_inv_def gap_content_def Let_def split: option.splits)

section \<open>The table as a pool of windows\<close>

definition gap_used :: "'a writable_gaps \<Rightarrow> usize \<Rightarrow> bool" where
  "gap_used t i \<longleftrightarrow> bit (occupied t) i"

definition gaps_inv :: "usize \<Rightarrow> 'a writable_gaps \<Rightarrow> bool" where
  "gaps_inv gap_size t \<longleftrightarrow> length (gaps t) = max_gaps \<and> (\<forall>i. gap_used t i \<longrightarrow> i < max_gaps) \<and>
     (\<forall>g \<in> set (gaps t). window_inv gap_size (gap_win g))"

lemma and_push_bit: "(w :: u8) AND push_bit i 1 = 0 \<longleftrightarrow> \<not> bit w i"
  using bit_iff_and_push_bit_not_eq_0 [of w i] by blast

lemma bit_or_push: "bit ((w :: u8) OR push_bit i 1) n \<longleftrightarrow> bit w n \<or> n = i \<and> i < 8"
  by (auto simp: bit_or_iff bit_exp_iff)

lemma bit_and_not_push: "bit ((w :: u8) AND NOT (push_bit i 1)) n \<longleftrightarrow> bit w n \<and> n \<noteq> i"
  using bit_imp_le_length [of w n]
  by (auto simp: bit_and_iff bit_not_iff bit_exp_iff)

lemma bit_free_windows: "bit (NOT (w :: u8) AND (push_bit 4 1 - 1)) n \<longleftrightarrow> n < 4 \<and> \<not> bit w n"
proof -
  have "(push_bit 4 1 - 1 :: u8) = mask 4" by (simp add: mask_eq_exp_minus_1)
  then show ?thesis unfolding bit_and_iff bit_not_iff by (simp only: bit_mask_iff) auto
qed

lemma gaps_get_eq:
  "gaps_get t i = (if i < max_gaps \<and> gap_used t i \<and> i < length (gaps t) then Some (gaps t ! i) else None)"
  by (simp add: gaps_get_def and_push_bit gap_used_def del: push_bit_of_1)

lemma gaps_alloc_cases:
  assumes inv: "gaps_inv n t"
  obtains (full) "gaps_alloc n base t = (None, t)" "\<forall>i < max_gaps. gap_used t i"
  | (lowest) i t' where "gaps_alloc n base t = (Some i, t')" "i < max_gaps" "\<not> gap_used t i"
      "\<forall>j < i. gap_used t j" "gaps_inv n t'" "gap_used t' = (gap_used t)(i := True)"
      "\<exists>g. gaps_get t' i = Some g \<and> gap_content g = [] \<and> gap_base g = base"
      "\<forall>j. j \<noteq> i \<longrightarrow> gaps_get t' j = gaps_get t j"
proof -
  let ?free = "NOT (occupied t) AND (push_bit 4 1 - 1)"
  have len: "length (gaps t) = 4" using inv by (simp add: gaps_inv_def max_gaps_def)
  show thesis
  proof (cases "?free = 0")
    case True
    have "gap_used t i" if "i < max_gaps" for i
      using bit_free_windows [of "occupied t" i] that unfolding True by (simp add: gap_used_def max_gaps_def)
    with True show thesis by (intro full) (simp_all add: gaps_alloc_def max_gaps_def Let_def)
  next
    case False
    let ?i = "trailing_zeros ?free"
    obtain k: "bit ?free ?i" "\<forall>j < ?i. \<not> bit ?free j" using trailing_zeros_least [OF False] by blast
    have i: "?i < 4" "\<not> bit (occupied t) ?i" "\<forall>j < ?i. bit (occupied t) j"
      using k bit_free_windows [of "occupied t"] by auto
    define t' where "t' = t\<lparr>gaps := (gaps t)[?i := (gap_clear n (gaps t ! ?i))\<lparr>gap_base := base\<rparr>],
        occupied := occupied t OR push_bit ?i 1\<rparr>"
    have a: "gaps_alloc n base t = (Some ?i, t')" using False by (simp add: gaps_alloc_def max_gaps_def Let_def t'_def)
    have w: "window_inv n (gap_win (gaps t ! ?i))" using inv i(1) len by (simp add: gaps_inv_def)
    have used: "gap_used t' = (gap_used t)(?i := True)"
      using i(1) by (auto simp: fun_eq_iff gap_used_def t'_def bit_or_push simp del: push_bit_of_1)
    have "set (gaps t') \<subseteq> insert ((gap_clear n (gaps t ! ?i))\<lparr>gap_base := base\<rparr>) (set (gaps t))"
      by (simp add: t'_def set_update_subset_insert)
    then have inv': "gaps_inv n t'"
      using inv i(1) used gap_clear_eq(1) [OF w] by (auto simp: gaps_inv_def t'_def max_gaps_def)
    have "gaps_get t' ?i = Some ((gap_clear n (gaps t ! ?i))\<lparr>gap_base := base\<rparr>)"
      using i(1) len used by (simp add: gaps_get_eq t'_def max_gaps_def)
    then have got: "\<exists>g. gaps_get t' ?i = Some g \<and> gap_content g = [] \<and> gap_base g = base"
      using gap_clear_eq(2) [OF w] by (auto simp: gap_content_rebase)
    have "gaps_get t' j = gaps_get t j" if "j \<noteq> ?i" for j
      using that used by (simp add: gaps_get_eq) (simp add: t'_def)
    then show thesis
      using i by (intro lowest [OF a _ _ _ inv' used got]) (simp_all add: gap_used_def max_gaps_def)
  qed
qed

lemma gaps_free_eq:
  assumes inv: "gaps_inv n t"
  shows "fst (gaps_free n i t) = gap_used t i" "gaps_inv n (snd (gaps_free n i t))"
    "gap_used (snd (gaps_free n i t)) = (gap_used t)(i := False)"
proof -
  have bound: "gap_used t i \<Longrightarrow> i < max_gaps" using inv by (simp add: gaps_inv_def)
  let ?t = "t\<lparr>occupied := occupied t AND NOT (push_bit i 1),
      gaps := (gaps t)[i := gap_clear n (gaps t ! i)]\<rparr>"
  have free: "gaps_free n i t = (if gap_used t i then (True, ?t) else (False, t))"
    using bound by (auto simp: gaps_free_def gap_used_def and_push_bit simp del: push_bit_of_1)
  then show "fst (gaps_free n i t) = gap_used t i" by simp
  have used: "gap_used ?t = (gap_used t)(i := False)"
    by (auto simp: fun_eq_iff gap_used_def bit_and_not_push simp del: push_bit_of_1)
  then show "gap_used (snd (gaps_free n i t)) = (gap_used t)(i := False)"
    unfolding free by (auto simp: fun_eq_iff)
  have "gaps_inv n ?t" if u: "gap_used t i"
  proof -
    have "window_inv n (gap_win (gaps t ! i))" using inv bound [OF u] by (simp add: gaps_inv_def)
    note w = gap_clear_eq(1) [OF this]
    have "set (gaps ?t) \<subseteq> insert (gap_clear n (gaps t ! i)) (set (gaps t))"
      by (simp add: set_update_subset_insert)
    with inv w used show ?thesis by (auto simp: gaps_inv_def)
  qed
  then show "gaps_inv n (snd (gaps_free n i t))" unfolding free using inv by simp
qed

definition gaps_give :: "usize \<Rightarrow> usize \<Rightarrow> 'a writable_gaps \<Rightarrow> 'a writable_gaps" where
  "gaps_give gap_size i t = snd (gaps_free gap_size i t)"

interpretation windows: id_pool "gaps_inv n" gap_used max_gaps "gaps_alloc n" "gaps_give n" for n
proof
  fix t base i t' assume inv: "gaps_inv n t"
  show "i < max_gaps \<and> \<not> gap_used t i \<and> gaps_inv n t' \<and> gap_used t' = (gap_used t)(i := True)"
    if "gaps_alloc n base t = (Some i, t')"
    by (rule gaps_alloc_cases [OF inv, of base]) (use that in auto)
  show "t' = t \<and> (\<forall>i < max_gaps. gap_used t i)" if "gaps_alloc n base t = (None, t')"
    by (rule gaps_alloc_cases [OF inv, of base]) (use that in auto)
  show "gaps_inv n (gaps_give n i t) \<and> gap_used (gaps_give n i t) = (gap_used t)(i := False)"
    using gaps_free_eq [OF inv] by (simp add: gaps_give_def)
qed

section \<open>Properties\<close>

lemma gap_push_appends:
  assumes inv: "window_inv gap_size (gap_win g)"
  shows "\<exists>ok g'. gap_push env gap_size v g = Some (ok, g') \<and> window_inv gap_size (gap_win g') \<and>
    gap_base g' = gap_base g \<and>
    (if ok then gap_content g' = gap_content g @ [v] \<and> gap_staged g' = gap_staged g + 1 \<and> gap_staged g' \<le> gap_size
     else gap_content g' = gap_content g \<and> (gap_is_full gap_size g \<or> gap_buff (gap_win g) = None))"
proof (rule gap_push_cases [OF inv, of env v])
  fix g' assume "gap_push env gap_size v g = Some (False, g')" "gap_win g' = gap_win g"
    "gap_base g' = gap_base g" "gap_size \<le> gap_staged g \<or> gap_buff (gap_win g) = None"
  moreover from this have "gap_content g' = gap_content g" "window_inv gap_size (gap_win g')"
    using inv unfolding gap_content_def by (simp_all cong: option.case_cong)
  ultimately show ?thesis unfolding gap_is_full_def gap_staged_def by fastforce
next
  fix g' assume p: "gap_push env gap_size v g = Some (True, g')" "window_inv gap_size (gap_win g')"
    "gap_content g' = gap_content g @ [v]" "gap_base g' = gap_base g" "gap_staged g < gap_size"
  then have "gap_staged g' = gap_staged g + 1"
    using gap_content_length [OF inv] gap_content_length [OF p(2)] by simp
  with p show ?thesis by (intro exI [of _ True] exI [of _ g']) simp
qed

lemma gap_push_appends_witness:
  "\<exists>g'. gap_push demo_env 128 7 (gap_at 5) = Some (True, g') \<and> gap_content g' = [7] \<and> gap_base g' = 5"
proof -
  define g :: "u32 writable_gap" where "g = gap_at 5"
  have w: "window_inv 128 (gap_win g)" by (simp add: g_def window_inv_def gap_at_def gap_ptr_new_def)
  obtain ok g' where r: "gap_push demo_env 128 7 g = Some (ok, g')" "gap_base g' = gap_base g"
    "ok \<Longrightarrow> gap_content g' = gap_content g @ [7]"
    using gap_push_appends [OF w, of demo_env 7] by (auto split: if_splits)
  have ok
    using r(1) by (auto simp: g_def gap_push_def gap_at_def gap_ptr_new_def gap_allocate_def ensure_merge_buffer_def
        demo_env_def isize_max_def Let_def mem_write_def)
  moreover have "gap_content g = []" "gap_base g = 5" by (simp_all add: g_def gap_at_def gap_content_def gap_ptr_new_def)
  ultimately show ?thesis using r by (auto simp: g_def)
qed

lemma gaps_new_inv: "gaps_inv n gaps_new" and gaps_new_unused: "\<not> gap_used gaps_new i"
  by (simp_all add: gaps_inv_def gaps_new_def gap_used_def window_inv_def gap_at_def gap_ptr_new_def)

lemma gaps_alloc_correct:
  assumes inv: "gaps_inv n t"
  shows "case gaps_alloc n base t of
      (None, t') \<Rightarrow> t' = t \<and> gaps_is_full t
    | (Some i, t') \<Rightarrow> i < max_gaps \<and> gaps_get t i = None \<and> gaps_inv n t' \<and>
        (\<exists>g. gaps_get t' i = Some g \<and> gap_content g = [] \<and> gap_base g = base) \<and>
        (\<forall>j. j \<noteq> i \<longrightarrow> gaps_get t' j = gaps_get t j) \<and>
        gaps_occupied t' = filter (\<lambda>j. j = i \<or> gap_used t j) [0..<8]"
proof (rule gaps_alloc_cases [OF inv, of base])
  assume a: "gaps_alloc n base t = (None, t)" "\<forall>i < max_gaps. gap_used t i"
  have "{..<max_gaps} \<subseteq> {i. i < 8 \<and> bit (occupied t) i}"
    using a(2) by (auto simp: gap_used_def max_gaps_def)
  then have "card {..<max_gaps} \<le> gaps_count t"
    unfolding gaps_count_def count_ones_card by (intro card_mono) auto
  with a show ?thesis by (simp add: gaps_is_full_def)
next
  fix i t' assume a: "gaps_alloc n base t = (Some i, t')" "i < max_gaps" "\<not> gap_used t i"
    "gaps_inv n t'" "gap_used t' = (gap_used t)(i := True)"
    "\<exists>g. gaps_get t' i = Some g \<and> gap_content g = [] \<and> gap_base g = base"
    "\<forall>j. j \<noteq> i \<longrightarrow> gaps_get t' j = gaps_get t j"
  have "gaps_occupied t' = filter (gap_used t') [0..<8]"
    by (simp add: gaps_occupied_def mask_bits_eq gap_used_def [abs_def])
  also have "gap_used t' = (\<lambda>j. j = i \<or> gap_used t j)" using a(5) by (auto simp: fun_eq_iff)
  finally show ?thesis using a by (simp add: gaps_get_eq)
qed

lemma gaps_alloc_correct_witness:
  "\<exists>t'. gaps_alloc 128 3 (gaps_new :: u32 writable_gaps) = (Some 0, t') \<and> gaps_occupied t' = [0] \<and> gaps_get t' 1 = None"
proof -
  define t :: "u32 writable_gaps" where "t = gaps_new"
  have inv: "gaps_inv 128 t" and unused: "\<And>i. \<not> gap_used t i"
    by (simp_all add: t_def gaps_new_inv gaps_new_unused)
  have pos: "0 < max_gaps" by (simp add: max_gaps_def)
  obtain t' where a: "gaps_alloc 128 3 t = (Some 0, t')"
    using unused pos by (metis gaps_alloc_cases [OF inv] gr0I)
  have "gaps_get t 1 = None" using unused by (simp add: gaps_get_eq)
  moreover have "[0..<8] = [0, 1, 2, 3, 4, 5, 6, 7::nat]" by (simp add: upt_rec)
  ultimately show ?thesis
    using gaps_alloc_correct [OF inv, of 3] a unused by (auto simp: t_def [symmetric])
qed

end
