(* ===== verification/Bytes.thy ===== *)
theory Bytes
  imports Bits
begin

text \<open>
  Fixed byte layouts: a record is encoded by writing each field at its offset into a zeroed array,
  and decoded by reading the fields back. A layout whose fields lie inside the array and do not
  overlap can be read back field by field; the check of a concrete layout is a computation on its
  offsets.
\<close>

text \<open>\<open>out[off..][..n].copy_from_slice(bs)\<close>; a range outside the array is a panic.\<close>

definition peek :: "u8 list \<Rightarrow> nat \<Rightarrow> nat \<Rightarrow> u8 list" where
  "peek bs off n = take n (drop off bs)"

definition poke :: "nat \<times> u8 list \<Rightarrow> u8 list \<Rightarrow> u8 list" where
  "poke field bs = take (fst field) bs @ snd field @ drop (fst field + length (snd field)) bs"

definition encode :: "nat \<Rightarrow> (nat \<times> u8 list) list \<Rightarrow> u8 list" where
  "encode n fields = foldl (\<lambda>out field. poke field out) (replicate n 0) fields"

definition apart :: "nat \<times> u8 list \<Rightarrow> nat \<times> u8 list \<Rightarrow> bool" where
  "apart f g \<longleftrightarrow> fst f + length (snd f) \<le> fst g \<or> fst g + length (snd g) \<le> fst f"

definition layout_fits :: "nat \<Rightarrow> (nat \<times> u8 list) list \<Rightarrow> bool" where
  "layout_fits n fields \<longleftrightarrow>
     list_all (\<lambda>f. fst f + length (snd f) \<le> n) fields \<and> sorted_wrt apart fields"

lemma length_poke [simp]: "fst f + length (snd f) \<le> length bs \<Longrightarrow> length (poke f bs) = length bs"
  by (simp add: poke_def)

lemma peek_poke_same:
  "fst f + length (snd f) \<le> length bs \<Longrightarrow> peek (poke f bs) (fst f) (length (snd f)) = snd f"
  by (simp add: peek_def poke_def)

lemma nth_poke:
  "fst f + length (snd f) \<le> length bs \<Longrightarrow> i < length bs \<Longrightarrow>
   poke f bs ! i = (if fst f \<le> i \<and> i < fst f + length (snd f) then snd f ! (i - fst f) else bs ! i)"
  by (auto simp: poke_def nth_append min_def)

lemma peek_nth_eqI:
  assumes "off + n \<le> length bs" "length cs = length bs"
    "\<And>i. off \<le> i \<Longrightarrow> i < off + n \<Longrightarrow> cs ! i = bs ! i"
  shows "peek cs off n = peek bs off n"
  using assms by (intro nth_equalityI) (auto simp: peek_def)

lemma peek_poke_apart:
  assumes "fst f + length (snd f) \<le> length bs" "off + n \<le> length bs"
    "off + n \<le> fst f \<or> fst f + length (snd f) \<le> off"
  shows "peek (poke f bs) off n = peek bs off n"
  using assms by (intro peek_nth_eqI) (auto simp: nth_poke)

lemma encode_foldl:
  assumes "layout_fits (length bs) fields"
  shows "length (foldl (\<lambda>out field. poke field out) bs fields) = length bs \<and>
    (\<forall>f \<in> set fields. peek (foldl (\<lambda>out field. poke field out) bs fields) (fst f) (length (snd f)) = snd f) \<and>
    (\<forall>off n. off + n \<le> length bs \<longrightarrow> (\<forall>f \<in> set fields. apart (off, replicate n 0) f) \<longrightarrow>
       peek (foldl (\<lambda>out field. poke field out) bs fields) off n = peek bs off n)"
  using assms
proof (induction fields arbitrary: bs)
  case (Cons f fields)
  then have fit: "fst f + length (snd f) \<le> length bs" and rest: "layout_fits (length (poke f bs)) fields"
    and ap: "\<forall>g \<in> set fields. apart f g"
    by (auto simp: layout_fits_def)
  note ih = Cons.IH [OF rest]
  have len: "length (poke f bs) = length bs" using fit by simp
  have "peek (foldl (\<lambda>out field. poke field out) (poke f bs) fields) (fst f) (length (snd f)) = snd f"
    using ih fit ap len peek_poke_same [OF fit] by (simp add: apart_def)
  moreover have "peek (foldl (\<lambda>out field. poke field out) (poke f bs) fields) off n = peek bs off n"
    if "off + n \<le> length bs" "\<forall>g \<in> set (f # fields). apart (off, replicate n 0) g" for off n
    using ih that len peek_poke_apart [OF fit that(1)] by (auto simp: apart_def)
  ultimately show ?case using ih len by simp
qed simp

lemma length_encode: "layout_fits n fields \<Longrightarrow> length (encode n fields) = n"
  using encode_foldl [of "replicate n 0" fields] by (simp add: encode_def)

lemma peek_encode:
  "layout_fits n fields \<Longrightarrow> (off, bs) \<in> set fields \<Longrightarrow> peek (encode n fields) off (length bs) = bs"
  using encode_foldl [of "replicate n 0" fields] by (force simp: encode_def)

definition read_u32 :: "u8 list \<Rightarrow> nat \<Rightarrow> u32" where
  "read_u32 bytes off = from_le_bytes (peek bytes off 4)"

definition read_u16 :: "u8 list \<Rightarrow> nat \<Rightarrow> u16" where
  "read_u16 bytes off = from_le_bytes (peek bytes off 2)"

lemma read_u32_encode:
  "layout_fits n fields \<Longrightarrow> (off, to_le_bytes (w :: u32)) \<in> set fields \<Longrightarrow> read_u32 (encode n fields) off = w"
  using peek_encode [of n fields off "to_le_bytes w"] by (simp add: read_u32_def from_to_le_bytes)

lemma read_u16_encode:
  "layout_fits n fields \<Longrightarrow> (off, to_le_bytes (w :: u16)) \<in> set fields \<Longrightarrow> read_u16 (encode n fields) off = w"
  using peek_encode [of n fields off "to_le_bytes w"] by (simp add: read_u16_def from_to_le_bytes)

lemma nth_encode_byte:
  assumes "layout_fits n fields" "(off, [b]) \<in> set fields"
  shows "encode n fields ! off = b"
proof -
  have "off < n" using assms by (auto simp: layout_fits_def list_all_iff)
  moreover have "peek (encode n fields) off 1 = [b]" using peek_encode [OF assms] by simp
  ultimately show ?thesis using length_encode [OF assms(1)] by (simp add: peek_def take_Suc hd_drop_conv_nth)
qed

lemma read_u32_zeros: "read_u32 (replicate n 0) off = 0"
proof -
  have "bit (from_le_bytes (peek (replicate n (0::u8)) off 4) :: u32) i = False" if "i < 32" for i
    using that by (simp add: bit_from_le_bytes peek_def)
  then show ?thesis unfolding read_u32_def by (intro bit_word_eqI) simp
qed

end
