(* ===== verification/Fs_Image.thy ===== *)
theory Fs_Image
  imports Bytes Fs_Block
begin

text \<open>
  The records of a file system image (\<open>crates/wredit/src/fs.rs\<close>): superblock, inode and directory
  entry, each with its byte layout. Encoding and decoding are inverse, for every value of every
  field. \<open>hash_bytes\<close>, the name hash of \<open>simd.rs\<close>, is an argument of the operations that store it.
\<close>

section \<open>Superblock\<close>

definition super_magic :: u32 where "super_magic = 0xEF53"
definition inode_size :: nat where "inode_size = 0x80"
definition dirent_size :: nat where "dirent_size = 0x20"
definition direct_count :: nat where "direct_count = (0x36 - 0x0A) div 4"
definition name_max :: nat where "name_max = dirent_size - (0x08 + 0x04)"

record super_block =
  sb_block_count :: u32
  sb_inode_count :: u32
  sb_block_bitmap_block :: u32
  sb_inode_bitmap_block :: u32
  sb_inode_table_block :: u32
  sb_inode_table_blocks :: u32
  sb_root_inode :: u32
  sb_first_free_block :: u32
  sb_first_free_inode :: u32
  sb_state :: u32
  sb_name_head :: u32
  sb_name_tail :: u32

definition sb_fields :: "super_block \<Rightarrow> (nat \<times> u8 list) list" where
  "sb_fields sb =
     [(0x00, to_le_bytes super_magic), (0x04, to_le_bytes (sb_block_count sb)),
      (0x08, to_le_bytes (sb_inode_count sb)), (0x0C, to_le_bytes (sb_block_bitmap_block sb)),
      (0x10, to_le_bytes (sb_inode_bitmap_block sb)), (0x14, to_le_bytes (sb_inode_table_block sb)),
      (0x18, to_le_bytes (sb_inode_table_blocks sb)), (0x1C, to_le_bytes (sb_root_inode sb)),
      (0x20, to_le_bytes (sb_first_free_block sb)), (0x24, to_le_bytes (sb_first_free_inode sb)),
      (0x28, to_le_bytes (sb_state sb)), (0x2C, to_le_bytes (sb_name_head sb)),
      (0x30, to_le_bytes (sb_name_tail sb))]"

definition sb_to_bytes :: "super_block \<Rightarrow> u8 list" where
  "sb_to_bytes sb = encode block_size (sb_fields sb)"

definition sb_from_bytes :: "u8 list \<Rightarrow> wredit_error + super_block" where
  "sb_from_bytes bytes =
     (if length bytes \<noteq> block_size
      then Inl (InvalidOperation ''a superblock occupies exactly one block'')
      else let magic = read_u32 bytes 0x00 in
        if magic \<noteq> super_magic then Inl (CorruptImage ''bad superblock magic'')
        else Inr \<lparr>sb_block_count = read_u32 bytes 0x04, sb_inode_count = read_u32 bytes 0x08,
          sb_block_bitmap_block = read_u32 bytes 0x0C, sb_inode_bitmap_block = read_u32 bytes 0x10,
          sb_inode_table_block = read_u32 bytes 0x14, sb_inode_table_blocks = read_u32 bytes 0x18,
          sb_root_inode = read_u32 bytes 0x1C, sb_first_free_block = read_u32 bytes 0x20,
          sb_first_free_inode = read_u32 bytes 0x24, sb_state = read_u32 bytes 0x28,
          sb_name_head = read_u32 bytes 0x2C, sb_name_tail = read_u32 bytes 0x30\<rparr>)"

section \<open>Inode\<close>

record inode =
  i_mode :: u16
  i_size :: u32
  i_block_count :: u32
  i_direct :: "u32 list"
  i_indirect :: u32
  i_atime :: u32
  i_mtime :: u32
  i_ctime :: u32
  i_name_block :: u32
  i_name_off :: u16
  i_name_len :: u16

definition is_directory :: "inode \<Rightarrow> bool" where
  "is_directory i \<longleftrightarrow> i_mode i AND 0x4000 \<noteq> 0"

definition is_regular :: "inode \<Rightarrow> bool" where
  "is_regular i \<longleftrightarrow> i_mode i AND 0x8000 \<noteq> 0"

definition with_mode :: "u16 \<Rightarrow> inode" where
  "with_mode mode =
     \<lparr>i_mode = mode, i_size = 0, i_block_count = 0, i_direct = replicate direct_count 0, i_indirect = 0,
      i_atime = 0, i_mtime = 0, i_ctime = 0, i_name_block = 0, i_name_off = 0, i_name_len = 0\<rparr>"

definition inode_directory :: inode where "inode_directory = with_mode 0x4000"
definition inode_regular :: inode where "inode_regular = with_mode 0x8000"

definition inode_fields :: "inode \<Rightarrow> (nat \<times> u8 list) list" where
  "inode_fields i =
     [(0x00, to_le_bytes (i_mode i)), (0x02, to_le_bytes (i_size i)), (0x06, to_le_bytes (i_block_count i))]
     @ map (\<lambda>k. (0x0A + k * 4, to_le_bytes (i_direct i ! k))) [0..<length (i_direct i)]
     @ [(0x36, to_le_bytes (i_indirect i)), (0x3A, to_le_bytes (i_atime i)), (0x3E, to_le_bytes (i_mtime i)),
        (0x42, to_le_bytes (i_ctime i)), (0x46, to_le_bytes (i_name_block i)),
        (0x4A, to_le_bytes (i_name_off i)), (0x4C, to_le_bytes (i_name_len i))]"

definition inode_to_bytes :: "inode \<Rightarrow> u8 list" where
  "inode_to_bytes i = encode inode_size (inode_fields i)"

definition inode_from_bytes :: "u8 list \<Rightarrow> inode" where
  "inode_from_bytes bytes =
     \<lparr>i_mode = read_u16 bytes 0x00, i_size = read_u32 bytes 0x02, i_block_count = read_u32 bytes 0x06,
      i_direct = map (\<lambda>k. read_u32 bytes (0x0A + k * 4)) [0..<direct_count],
      i_indirect = read_u32 bytes 0x36, i_atime = read_u32 bytes 0x3A, i_mtime = read_u32 bytes 0x3E,
      i_ctime = read_u32 bytes 0x42, i_name_block = read_u32 bytes 0x46,
      i_name_off = read_u16 bytes 0x4A, i_name_len = read_u16 bytes 0x4C\<rparr>"

section \<open>Directory entry\<close>

datatype file_type = Unknown | Regular | Directory

fun file_type_byte :: "file_type \<Rightarrow> u8" where
  "file_type_byte Unknown = 0"
| "file_type_byte Regular = 1"
| "file_type_byte Directory = 2"

record dir_entry =
  de_inode :: u32
  de_rec_len :: u16
  de_name_len :: u8
  de_file_type :: u8
  de_name_hash :: u32
  de_name :: "u8 list"

definition de_unused :: dir_entry where
  "de_unused =
     \<lparr>de_inode = 0, de_rec_len = word_of_nat dirent_size, de_name_len = 0,
      de_file_type = file_type_byte Unknown, de_name_hash = 0, de_name = replicate name_max 0\<rparr>"

definition de_set_name :: "(u8 list \<Rightarrow> u32) \<Rightarrow> u8 list \<Rightarrow> dir_entry \<Rightarrow> bool \<times> dir_entry" where
  "de_set_name hash_bytes name e =
     (if length name > name_max then (False, e)
      else (True, e\<lparr>de_name := name @ replicate (name_max - length name) 0,
                     de_name_len := word_of_nat (length name), de_name_hash := hash_bytes name\<rparr>))"

definition de_fields :: "dir_entry \<Rightarrow> (nat \<times> u8 list) list" where
  "de_fields e =
     [(0, to_le_bytes (de_inode e)), (4, to_le_bytes (de_rec_len e)), (6, [de_name_len e]),
      (7, [de_file_type e]), (0x08, to_le_bytes (de_name_hash e)), (0x0C, de_name e)]"

definition de_to_bytes :: "dir_entry \<Rightarrow> u8 list" where
  "de_to_bytes e = encode dirent_size (de_fields e)"

definition de_from_bytes :: "u8 list \<Rightarrow> dir_entry" where
  "de_from_bytes bytes =
     \<lparr>de_inode = read_u32 bytes 0, de_rec_len = read_u16 bytes 4, de_name_len = bytes ! 6,
      de_file_type = bytes ! 7, de_name_hash = read_u32 bytes 0x08, de_name = peek bytes 0x0C name_max\<rparr>"

definition de_is_pooled :: "dir_entry \<Rightarrow> bool" where
  "de_is_pooled e \<longleftrightarrow> de_inode e \<noteq> 0 \<and> de_name_len e = 0"

definition de_matches :: "(u8 list \<Rightarrow> u32) \<Rightarrow> dir_entry \<Rightarrow> u8 list \<Rightarrow> bool" where
  "de_matches hash_bytes e name \<longleftrightarrow>
     name \<noteq> [] \<and> length name \<le> name_max \<and> unat (de_name_len e) = length name \<and>
     de_name_hash e = hash_bytes name \<and> take (length name) (de_name e) = name"

section \<open>Layouts\<close>

lemma sb_layout: "layout_fits block_size (sb_fields sb)"
  by (simp add: layout_fits_def sb_fields_def apart_def block_size_def)

lemma direct_count_eq: "direct_count = 11"
  by (simp add: direct_count_def)

lemma inode_layout: "length (i_direct i) = direct_count \<Longrightarrow> layout_fits inode_size (inode_fields i)"
  by (simp add: layout_fits_def inode_fields_def apart_def inode_size_def direct_count_eq upt_rec)

lemma de_layout: "length (de_name e) = name_max \<Longrightarrow> layout_fits dirent_size (de_fields e)"
  by (simp add: layout_fits_def de_fields_def apart_def dirent_size_def name_max_def)

lemma sb_from_to: "sb_from_bytes (sb_to_bytes sb) = Inr sb"
proof -
  have r: "(off, to_le_bytes w) \<in> set (sb_fields sb) \<Longrightarrow> read_u32 (sb_to_bytes sb) off = w" for off w
    unfolding sb_to_bytes_def by (rule read_u32_encode [OF sb_layout])
  have len: "length (sb_to_bytes sb) = block_size" unfolding sb_to_bytes_def by (rule length_encode [OF sb_layout])
  show ?thesis unfolding sb_from_bytes_def using len by (simp add: r sb_fields_def)
qed

lemma inode_from_to:
  assumes "length (i_direct i) = direct_count"
  shows "inode_from_bytes (inode_to_bytes i) = i"
proof -
  note lay = inode_layout [OF assms]
  have r: "(off, to_le_bytes w) \<in> set (inode_fields i) \<Longrightarrow> read_u32 (inode_to_bytes i) off = w" for off w
    unfolding inode_to_bytes_def by (rule read_u32_encode [OF lay])
  have h: "(off, to_le_bytes w) \<in> set (inode_fields i) \<Longrightarrow> read_u16 (inode_to_bytes i) off = w" for off w
    unfolding inode_to_bytes_def by (rule read_u16_encode [OF lay])
  have "read_u32 (inode_to_bytes i) (0x0A + k * 4) = i_direct i ! k" if "k < direct_count" for k
    using that assms by (intro r) (auto simp: inode_fields_def)
  then have "map (\<lambda>k. read_u32 (inode_to_bytes i) (0x0A + k * 4)) [0..<direct_count] = i_direct i"
    using assms by (intro nth_equalityI) simp_all
  then show ?thesis unfolding inode_from_bytes_def by (simp add: r h inode_fields_def)
qed

lemma de_from_to:
  assumes "length (de_name e) = name_max"
  shows "de_from_bytes (de_to_bytes e) = e"
proof -
  note lay = de_layout [OF assms]
  have "de_from_bytes (encode dirent_size (de_fields e)) =
      \<lparr>de_inode = de_inode e, de_rec_len = de_rec_len e, de_name_len = de_name_len e,
       de_file_type = de_file_type e, de_name_hash = de_name_hash e, de_name = de_name e\<rparr>"
    unfolding de_from_bytes_def
    using read_u32_encode [OF lay, of 0 "de_inode e"] read_u16_encode [OF lay, of 4 "de_rec_len e"]
      nth_encode_byte [OF lay, of 6 "de_name_len e"] nth_encode_byte [OF lay, of 7 "de_file_type e"]
      read_u32_encode [OF lay, of "0x08" "de_name_hash e"] peek_encode [OF lay, of "0x0C" "de_name e"] assms
    by (simp add: de_fields_def)
  then show ?thesis by (simp add: de_to_bytes_def)
qed

section \<open>Properties\<close>

lemma superblock_roundtrip: "sb_from_bytes (sb_to_bytes sb) = Inr sb"
  by (rule sb_from_to)

lemma inode_roundtrip:
  assumes "length (i_direct i) = direct_count"
  shows "inode_from_bytes (inode_to_bytes i) = i"
  using assms by (rule inode_from_to)

lemma inode_roundtrip_witness: "inode_from_bytes (inode_to_bytes inode_directory) = inode_directory"
  using inode_roundtrip [of inode_directory] by (simp add: inode_directory_def with_mode_def)

lemma dirent_roundtrip:
  assumes "length (de_name e) = name_max"
  shows "de_from_bytes (de_to_bytes e) = e"
  using assms by (rule de_from_to)

lemma dirent_roundtrip_witness: "de_from_bytes (de_to_bytes de_unused) = de_unused"
  using dirent_roundtrip [of de_unused] by (simp add: de_unused_def)

lemma dirent_name_matches:
  assumes "length name \<le> name_max" "name \<noteq> []" "length (de_name e) = name_max"
  shows "\<exists>e'. de_set_name hash_bytes name e = (True, e') \<and>
    de_matches hash_bytes (de_from_bytes (de_to_bytes e')) name \<and>
    \<not> de_is_pooled (de_from_bytes (de_to_bytes e')) \<and>
    (\<forall>other. de_matches hash_bytes e' other \<longleftrightarrow> other = name)"
proof -
  let ?e = "e\<lparr>de_name := name @ replicate (name_max - length name) 0,
      de_name_len := word_of_nat (length name), de_name_hash := hash_bytes name\<rparr>"
  have set: "de_set_name hash_bytes name e = (True, ?e)" using assms by (simp add: de_set_name_def)
  have len: "unat (word_of_nat (length name) :: u8) = length name"
    using assms(1) by (simp add: unsigned_of_nat take_bit_nat_eq_self_iff name_max_def dirent_size_def)
  have rt: "de_from_bytes (de_to_bytes ?e) = ?e" using assms(1) by (intro de_from_to) simp
  have "(word_of_nat (length name) :: u8) \<noteq> 0" using len assms(2) by (metis length_0_conv unsigned_0)
  then have "\<not> de_is_pooled ?e" by (simp add: de_is_pooled_def)
  moreover have "de_matches hash_bytes ?e other \<longleftrightarrow> other = name" for other
    using assms(1,2) len by (auto simp: de_matches_def)
  ultimately show ?thesis using set rt by auto
qed

lemma dirent_name_matches_witness:
  "\<exists>e. de_set_name (\<lambda>_. 5) [97, 98] de_unused = (True, e) \<and> de_matches (\<lambda>_. 5) e [97, 98]"
  using dirent_name_matches [of "[97, 98]" de_unused "\<lambda>_. 5"]
  by (auto simp: de_unused_def name_max_def dirent_size_def)

end
