(* ===== verification/Name_Hash.thy ===== *)
theory Name_Hash
  imports Bits
begin

text \<open>
  The polynomial name hash of the file system (\<open>crates/wredit/src/simd.rs\<close>): words of eight
  bytes, little endian, combined by Horner's rule modulo \<open>2^52\<close>. The source folds eight words at a
  time with precomputed powers; the lemmas show that this is the serial recurrence. The AVX-512
  kernel is modelled on its lanes, with the two instructions it uses as their documentation in
  \<open>core::arch\<close> defines them.
\<close>

section \<open>Chunks of a slice\<close>

function chunks_exact :: "nat \<Rightarrow> 'a list \<Rightarrow> 'a list list" where
  "chunks_exact n xs = (if n = 0 \<or> length xs < n then [] else take n xs # chunks_exact n (drop n xs))"
  by pat_completeness auto
termination by (relation "measure (\<lambda>(n, xs). length xs)") auto

declare chunks_exact.simps [simp del]

definition chunks_remainder :: "nat \<Rightarrow> 'a list \<Rightarrow> 'a list" where
  "chunks_remainder n xs = drop (n * (length xs div n)) xs"

section \<open>The hash\<close>

definition hash_mask :: u64 where "hash_mask = push_bit 52 1 - 1"
definition hash_prime :: u64 where "hash_prime = 0x1000001B3"
definition hash_fold_bytes :: nat where "hash_fold_bytes = 8 * 8"

text \<open>\<open>((a as u128 * b as u128) & HASH_MASK as u128) as u64\<close>\<close>

definition mul_mod :: "u64 \<Rightarrow> u64 \<Rightarrow> u64" where
  "mul_mod a b = ucast ((ucast a * ucast b :: 128 word) AND ucast hash_mask)"

function pow_mod_loop :: "u64 \<Rightarrow> u64 \<Rightarrow> nat \<Rightarrow> u64" where
  "pow_mod_loop result factor k =
     (if k > 0
      then pow_mod_loop (if k mod 2 = 1 then mul_mod result factor else result)
             (mul_mod factor factor) (k div 2)
      else result)"
  by pat_completeness auto
termination by (relation "measure (\<lambda>(result, factor, k). k)") auto

declare pow_mod_loop.simps [simp del]

definition pow_mod :: "u64 \<Rightarrow> nat \<Rightarrow> u64" where
  "pow_mod base e = pow_mod_loop 1 (base AND hash_mask) e"

definition lane_powers :: "u64 list" where
  "lane_powers = map (\<lambda>index. pow_mod hash_prime (7 - index)) [0..<8]"

definition hash_prime_pow8 :: u64 where
  "hash_prime_pow8 = pow_mod hash_prime 8"

definition word_of :: "u8 list \<Rightarrow> u64" where
  "word_of chunk =
     (let n = min (length chunk) 8 in
      from_le_bytes (take n chunk @ replicate (8 - n) 0) AND hash_mask)"

definition hash_step :: "u64 \<Rightarrow> u64 \<Rightarrow> u64" where
  "hash_step hash word = ((hash * hash_prime AND hash_mask) + word) AND hash_mask"

definition fold_block :: "u64 \<Rightarrow> u8 list \<Rightarrow> u64" where
  "fold_block hash block =
     (let folded = foldl (\<lambda>folded (lane, word). folded + word_of word * lane_powers ! lane) 0
                     (enumerate 0 (chunks_exact 8 block))
      in (hash * hash_prime_pow8 + folded) AND hash_mask)"

definition hash_state :: "u64 \<Rightarrow> u8 list \<Rightarrow> u64" where
  "hash_state hash bytes =
     (let h1 = foldl fold_block hash (chunks_exact hash_fold_bytes bytes);
          rest = chunks_remainder hash_fold_bytes bytes;
          h2 = foldl (\<lambda>h chunk. hash_step h (word_of chunk)) h1 (chunks_exact 8 rest);
          tail = chunks_remainder 8 rest
      in if tail \<noteq> [] then hash_step h2 (word_of tail) else h2)"

definition hash_bytes_scalar :: "u8 list \<Rightarrow> u32" where
  "hash_bytes_scalar bytes =
     (let hash = hash_state 0 bytes; folded = hash XOR drop_bit 32 hash in ucast folded)"

section \<open>The AVX-512 kernel\<close>

text \<open>
  One lane of \<open>_mm512_madd52lo_epu64(a, b, c)\<close>: the low 52 bits of the product of the low 52 bits of
  \<open>b\<close> and \<open>c\<close>, added to \<open>a\<close>.
\<close>

definition madd52lo :: "u64 \<Rightarrow> u64 \<Rightarrow> u64 \<Rightarrow> u64" where
  "madd52lo a b c =
     a + ucast (take_bit 52 (ucast (take_bit 52 b) * ucast (take_bit 52 c) :: 128 word))"

definition ifma_step :: "u64 \<Rightarrow> u8 list \<Rightarrow> u64" where
  "ifma_step hash chunk =
     (let words = map from_le_bytes (chunks_exact 8 chunk);
          products = map2 (\<lambda>word p. madd52lo word p 0) words lane_powers;
          lane_sum = sum_list products AND hash_mask;
          carried = map (\<lambda>_. madd52lo hash hash_prime_pow8 lane_sum) [0..<8]
      in carried ! 0 AND hash_mask)"

definition hash_state_ifma :: "u8 list \<Rightarrow> u64" where
  "hash_state_ifma bytes =
     (let hash = foldl ifma_step 0 (chunks_exact 64 bytes)
      in hash_state hash (chunks_remainder 64 bytes))"

definition hash_bytes_ifma :: "u8 list \<Rightarrow> u32" where
  "hash_bytes_ifma bytes =
     (let hash = hash_state_ifma bytes; folded = hash XOR drop_bit 32 hash in ucast folded)"

text \<open>The dispatcher: \<open>ifma\<close> says whether the processor has both AVX-512 features.\<close>

definition hash_bytes :: "bool \<Rightarrow> u8 list \<Rightarrow> u32" where
  "hash_bytes ifma bytes = (if ifma then hash_bytes_ifma bytes else hash_bytes_scalar bytes)"

definition hash_bytes_wide :: "bool \<Rightarrow> u8 list \<Rightarrow> u64" where
  "hash_bytes_wide ifma bytes = (if ifma then hash_state_ifma bytes else hash_state 0 bytes)"

section \<open>Arithmetic modulo \<open>2^52\<close>\<close>

definition lo52 :: "u64 \<Rightarrow> nat" where
  "lo52 w = unat w mod 2 ^ 52"

lemma hash_mask_eq: "hash_mask = mask 52"
  by (simp add: hash_mask_def mask_eq_exp_minus_1)

lemma unat_mask: "unat (w AND hash_mask) = lo52 w"
  unfolding hash_mask_eq take_bit_eq_mask [symmetric] lo52_def
  by (simp only: unsigned_take_bit_eq take_bit_nat_def)

lemma lo52_mask [simp]: "lo52 (w AND hash_mask) = lo52 w"
  unfolding lo52_def [of "w AND hash_mask"] unat_mask by (simp add: lo52_def)

lemma lo52_less: "lo52 w < 2 ^ 52"
  by (simp add: lo52_def)

lemma lo52_add: "lo52 (a + b) = (lo52 a + lo52 b) mod 2 ^ 52"
proof -
  have "(2::nat) ^ 52 dvd 2 ^ 64" by (rule le_imp_power_dvd) simp
  then show ?thesis by (simp add: lo52_def unat_word_ariths mod_mod_cancel mod_add_eq)
qed

lemma lo52_mult: "lo52 (a * b) = (lo52 a * lo52 b) mod 2 ^ 52"
proof -
  have "(2::nat) ^ 52 dvd 2 ^ 64" by (rule le_imp_power_dvd) simp
  then show ?thesis by (simp add: lo52_def unat_word_ariths mod_mod_cancel mod_mult_eq)
qed

lemma masked_eqI: "a AND hash_mask = a \<Longrightarrow> b AND hash_mask = b \<Longrightarrow> lo52 a = lo52 b \<Longrightarrow> a = b"
  by (metis unat_mask word_unat_eq_iff)

lemma unat_mul_mod: "unat (mul_mod a b) = unat a * unat b mod 2 ^ 52"
proof -
  have a: "unat a < 2 ^ 64" and b: "unat b < 2 ^ 64" using unsigned_less [of a] unsigned_less [of b] by simp_all
  have "unat a * unat b < 2 ^ 64 * 2 ^ 64" using a b by (intro mult_strict_mono) simp_all
  then have no: "unat a * unat b < 2 ^ 128" by simp
  have wide: "unat (ucast c :: 128 word) = unat c" if "unat c < 2 ^ 64" for c :: u64
    using that by (simp add: unsigned_ucast_eq take_bit_nat_eq_self_iff)
  have m: "(ucast hash_mask :: 128 word) = mask 52"
    by (rule bit_word_eqI) (auto simp: hash_mask_eq bit_ucast_iff bit_mask_iff)
  have "unat (ucast a * ucast b :: 128 word) = unat a * unat b"
    using no wide [OF a] wide [OF b] by (simp add: unat_word_ariths)
  then have "unat ((ucast a * ucast b :: 128 word) AND ucast hash_mask) = unat a * unat b mod 2 ^ 52"
    unfolding m take_bit_eq_mask [symmetric] by (simp only: unsigned_take_bit_eq take_bit_nat_def)
  moreover have "unat a * unat b mod 2 ^ 52 < 2 ^ 64" by (rule less_trans [of _ "2 ^ 52"]) simp_all
  ultimately show ?thesis unfolding mul_mod_def unsigned_ucast_eq by (simp add: take_bit_nat_eq_self_iff)
qed

lemma pow_mod_loop_eq:
  "unat result < 2 ^ 52 \<Longrightarrow>
   unat (pow_mod_loop result factor k) = unat result * unat factor ^ k mod 2 ^ 52"
proof (induction result factor k rule: pow_mod_loop.induct)
  case (1 result factor k)
  show ?case
  proof (cases "k > 0")
    case False
    with 1(2) show ?thesis by (simp add: pow_mod_loop.simps)
  next
    case True
    let ?r = "if k mod 2 = 1 then mul_mod result factor else result"
    have r: "unat ?r < 2 ^ 52" using 1(2) by (simp add: unat_mul_mod)
    have "unat (pow_mod_loop result factor k) = unat ?r * unat (mul_mod factor factor) ^ (k div 2) mod 2 ^ 52"
      using 1(1) [OF True r] True by (subst pow_mod_loop.simps) simp
    also have "\<dots> = unat ?r * (unat factor * unat factor) ^ (k div 2) mod 2 ^ 52"
      unfolding unat_mul_mod by (metis mod_mult_right_eq power_mod)
    also have "\<dots> = unat result * unat factor ^ k mod 2 ^ 52"
    proof (cases "k mod 2 = 1")
      case odd: True
      have "unat factor ^ k = unat factor * (unat factor * unat factor) ^ (k div 2)"
      proof -
        have "k = Suc (2 * (k div 2))" using odd by presburger
        then show ?thesis by (metis power_Suc power_mult power2_eq_square)
      qed
      then show ?thesis using odd by (simp add: unat_mul_mod mod_mult_left_eq mult.assoc)
    next
      case even: False
      then have "k = 2 * (k div 2)" by presburger
      then have "unat factor ^ k = (unat factor * unat factor) ^ (k div 2)"
        by (metis power_mult power2_eq_square)
      with even show ?thesis by simp
    qed
    finally show ?thesis .
  qed
qed

lemma lo52_pow_mod: "lo52 (pow_mod base e) = lo52 base ^ e mod 2 ^ 52"
proof -
  have "unat (pow_mod base e) = lo52 base ^ e mod 2 ^ 52"
    using pow_mod_loop_eq [of 1 "base AND hash_mask" e] by (simp add: pow_mod_def unat_mask)
  then show ?thesis unfolding lo52_def [of "pow_mod base e"] by simp
qed

section \<open>Folding eight words is eight steps\<close>

definition hp :: nat where "hp = lo52 hash_prime"

lemma horner_mod: "(x mod m * p + w) mod m = (x * p + w) mod (m::nat)"
  by (metis mod_add_left_eq mod_mult_left_eq)

lemma lo52_step: "lo52 (hash_step h w) = (lo52 h * hp + lo52 w) mod 2 ^ 52"
  by (simp add: hash_step_def lo52_add lo52_mult mod_simps hp_def)

lemma lo52_lane: "k < 8 \<Longrightarrow> lo52 (lane_powers ! k) = hp ^ (7 - k) mod 2 ^ 52"
  by (simp add: lane_powers_def lo52_pow_mod hp_def)

lemma lo52_prime8: "lo52 hash_prime_pow8 = hp ^ 8 mod 2 ^ 52"
  by (simp add: hash_prime_pow8_def lo52_pow_mod hp_def)

lemma lo52_horner8:
  "lo52 (foldl hash_step h [w0, w1, w2, w3, w4, w5, w6, w7]) =
     (lo52 h * hp ^ 8 + (lo52 w0 * hp ^ 7 + lo52 w1 * hp ^ 6 + lo52 w2 * hp ^ 5 + lo52 w3 * hp ^ 4
       + lo52 w4 * hp ^ 3 + lo52 w5 * hp ^ 2 + lo52 w6 * hp + lo52 w7)) mod 2 ^ 52"
proof -
  have "lo52 (foldl hash_step h [w0, w1, w2, w3, w4, w5, w6, w7]) =
      ((((((((lo52 h * hp + lo52 w0) * hp + lo52 w1) * hp + lo52 w2) * hp + lo52 w3) * hp + lo52 w4)
        * hp + lo52 w5) * hp + lo52 w6) * hp + lo52 w7) mod 2 ^ 52"
    by (simp only: foldl.simps lo52_step horner_mod)
  also have "(((((((lo52 h * p + lo52 w0) * p + lo52 w1) * p + lo52 w2) * p + lo52 w3) * p + lo52 w4)
        * p + lo52 w5) * p + lo52 w6) * p + lo52 w7
      = lo52 h * p ^ 8 + (lo52 w0 * p ^ 7 + lo52 w1 * p ^ 6 + lo52 w2 * p ^ 5 + lo52 w3 * p ^ 4
        + lo52 w4 * p ^ 3 + lo52 w5 * p ^ 2 + lo52 w6 * p + lo52 w7)" for p
    by (simp add: eval_nat_numeral algebra_simps)
  finally show ?thesis .
qed

definition lanes_sum :: "u64 list \<Rightarrow> nat \<Rightarrow> u64 \<Rightarrow> u64" where
  "lanes_sum ws k a = foldl (\<lambda>folded (lane, w). folded + w * lane_powers ! lane) a (enumerate k ws)"

lemma lanes_sum_simps:
  "lanes_sum [] k a = a"
  "lanes_sum (w # ws) k a = lanes_sum ws (Suc k) (a + w * lane_powers ! k)"
  by (simp_all add: lanes_sum_def)

lemma lo52_lane_term: "k < 8 \<Longrightarrow> lo52 (a + w * lane_powers ! k) = (lo52 a + lo52 w * hp ^ (7 - k)) mod 2 ^ 52"
  unfolding lo52_add lo52_mult lo52_lane by (simp only: mod_simps)

lemma mod_add_swap: "(a mod m + b) mod m = (a + b) mod (m::nat)"
  by (rule mod_add_left_eq)

lemma lo52_fold8:
  "lo52 (h * hash_prime_pow8 + lanes_sum [w0, w1, w2, w3, w4, w5, w6, w7] 0 0) =
     (lo52 h * hp ^ 8 + (lo52 w0 * hp ^ 7 + lo52 w1 * hp ^ 6 + lo52 w2 * hp ^ 5 + lo52 w3 * hp ^ 4
       + lo52 w4 * hp ^ 3 + lo52 w5 * hp ^ 2 + lo52 w6 * hp + lo52 w7)) mod 2 ^ 52"
proof -
  have "lo52 (lanes_sum [w0, w1, w2, w3, w4, w5, w6, w7] 0 0) =
      (lo52 0 + lo52 w0 * hp ^ (7 - 0) + lo52 w1 * hp ^ (7 - Suc 0) + lo52 w2 * hp ^ (7 - Suc (Suc 0))
       + lo52 w3 * hp ^ (7 - Suc (Suc (Suc 0))) + lo52 w4 * hp ^ (7 - Suc (Suc (Suc (Suc 0))))
       + lo52 w5 * hp ^ (7 - Suc (Suc (Suc (Suc (Suc 0)))))
       + lo52 w6 * hp ^ (7 - Suc (Suc (Suc (Suc (Suc (Suc 0))))))
       + lo52 w7 * hp ^ (7 - Suc (Suc (Suc (Suc (Suc (Suc (Suc 0)))))))) mod 2 ^ 52"
    unfolding lanes_sum_simps by (subst lo52_lane_term, simp)+ (simp only: mod_add_swap)
  then have lanes: "lo52 (lanes_sum [w0, w1, w2, w3, w4, w5, w6, w7] 0 0) =
      (lo52 w0 * hp ^ 7 + lo52 w1 * hp ^ 6 + lo52 w2 * hp ^ 5 + lo52 w3 * hp ^ 4
       + lo52 w4 * hp ^ 3 + lo52 w5 * hp ^ 2 + lo52 w6 * hp + lo52 w7) mod 2 ^ 52"
    by (simp add: lo52_def [of 0])
  show ?thesis unfolding lo52_add lo52_mult lanes lo52_prime8 by (simp only: mod_simps)
qed

lemma hash_step_masked: "hash_step h w AND hash_mask = hash_step h w"
  by (simp add: hash_step_def and.assoc)

lemma chunks_exact_step: "n \<le> length xs \<Longrightarrow> 0 < n \<Longrightarrow> chunks_exact n xs = take n xs # chunks_exact n (drop n xs)"
  by (subst chunks_exact.simps) simp

lemma chunks_exact_short: "length xs < n \<Longrightarrow> chunks_exact n xs = []"
  by (subst chunks_exact.simps) simp

lemma length_chunks_exact: "0 < n \<Longrightarrow> length (chunks_exact n xs) = length xs div n"
proof (induction n xs rule: chunks_exact.induct)
  case (1 n xs)
  show ?case
  proof (cases "length xs < n")
    case True
    then show ?thesis by (simp add: chunks_exact_short)
  next
    case False
    with 1 show ?thesis by (simp add: chunks_exact_step le_div_geq)
  qed
qed

lemma list_of_8: "length xs = 8 \<Longrightarrow> \<exists>a b c d e f g h. xs = [a, b, c, d, e, f, g, h]"
  by (auto simp: eval_nat_numeral length_Suc_conv)

lemma lanes_sum_map:
  "foldl (\<lambda>folded (lane, word). folded + word_of word * lane_powers ! lane) a (enumerate k cs)
     = lanes_sum (map word_of cs) k a"
  by (induction cs arbitrary: k a) (simp_all add: lanes_sum_simps)

lemma fold_block_eq:
  assumes "length block = 64"
  shows "fold_block h block = foldl hash_step h (map word_of (chunks_exact 8 block))"
proof -
  have "length (map word_of (chunks_exact 8 block)) = 8" using assms by (simp add: length_chunks_exact)
  then obtain w0 w1 w2 w3 w4 w5 w6 w7 where
    ws: "map word_of (chunks_exact 8 block) = [w0, w1, w2, w3, w4, w5, w6, w7]" using list_of_8 by metis
  show ?thesis
  proof (rule masked_eqI)
    show "fold_block h block AND hash_mask = fold_block h block"
      by (simp add: fold_block_def Let_def and.assoc)
    show "foldl hash_step h (map word_of (chunks_exact 8 block)) AND hash_mask
        = foldl hash_step h (map word_of (chunks_exact 8 block))"
      unfolding ws by (simp add: hash_step_masked)
    show "lo52 (fold_block h block) = lo52 (foldl hash_step h (map word_of (chunks_exact 8 block)))"
      unfolding fold_block_def Let_def lanes_sum_map lo52_mask ws lo52_fold8 lo52_horner8 ..
  qed
qed

section \<open>The hash is the serial recurrence\<close>

text \<open>\<open>chunks\<close> of the slice type: like \<open>chunks_exact\<close>, with the short tail as a last chunk.\<close>

function chunks :: "nat \<Rightarrow> 'a list \<Rightarrow> 'a list list" where
  "chunks n xs = (if n = 0 \<or> xs = [] then [] else take n xs # chunks n (drop n xs))"
  by pat_completeness auto
termination by (relation "measure (\<lambda>(n, xs). length xs)") auto

declare chunks.simps [simp del]

definition serial_hash :: "u64 \<Rightarrow> u8 list \<Rightarrow> u64" where
  "serial_hash h bytes = foldl hash_step h (map word_of (chunks 8 bytes))"

lemma chunks_remainder_step: "n \<le> length xs \<Longrightarrow> 0 < n \<Longrightarrow> chunks_remainder n (drop n xs) = chunks_remainder n xs"
  by (simp add: chunks_remainder_def le_div_geq add.commute)

lemma chunks_remainder_short: "length xs < n \<Longrightarrow> chunks_remainder n xs = xs"
  by (simp add: chunks_remainder_def)

lemma chunks_tail:
  "0 < n \<Longrightarrow> chunks n xs = chunks_exact n xs @ (if chunks_remainder n xs \<noteq> [] then [chunks_remainder n xs] else [])"
proof (induction n xs rule: chunks_exact.induct)
  case (1 n xs)
  show ?case
  proof (cases "length xs < n")
    case True
    then show ?thesis
      by (auto simp: chunks_exact_short chunks_remainder_short chunks.simps [of n xs] chunks.simps [of n "[]"])
  next
    case False
    then have "xs \<noteq> []" "n \<le> length xs" using 1 by auto
    with 1(1) [OF _ 1(2)] 1(2) False show ?thesis
      by (simp add: chunks.simps [of n xs] chunks_exact_step [of n xs] chunks_remainder_step)
  qed
qed

lemma chunks_append: "0 < n \<Longrightarrow> n dvd length xs \<Longrightarrow> chunks n (xs @ ys) = chunks n xs @ chunks n ys"
proof (induction n xs rule: chunks.induct)
  case (1 n xs)
  show ?case
  proof (cases "xs = []")
    case True
    then show ?thesis by (simp add: chunks.simps [of n "[]"])
  next
    case False
    with 1 have "n \<le> length xs" by (simp add: dvd_imp_le)
    with 1 False show ?thesis
      by (simp add: chunks.simps [of n xs] chunks.simps [of n "xs @ ys"])
  qed
qed

lemma serial_hash_append: "8 dvd length xs \<Longrightarrow> serial_hash h (xs @ ys) = serial_hash (serial_hash h xs) ys"
  by (simp add: serial_hash_def chunks_append)

lemma hash_state_short: "length bytes < 64 \<Longrightarrow> hash_state h bytes = serial_hash h bytes"
  by (simp add: hash_state_def serial_hash_def hash_fold_bytes_def chunks_exact_short
      chunks_remainder_short chunks_tail [of 8] foldl_map Let_def)

lemma fold_block_serial: "length block = 64 \<Longrightarrow> fold_block h block = serial_hash h block"
  by (simp add: fold_block_eq serial_hash_def chunks_tail [of 8] chunks_remainder_def)

lemma hash_state_step:
  "64 \<le> length bytes \<Longrightarrow> hash_state h bytes = hash_state (fold_block h (take 64 bytes)) (drop 64 bytes)"
  by (simp add: hash_state_def hash_fold_bytes_def chunks_exact_step [of 64 bytes]
      chunks_remainder_step [of 64 bytes])

lemma hash_state_eq: "hash_state h bytes = serial_hash h bytes"
proof (induction "length bytes" arbitrary: h bytes rule: less_induct)
  case less
  show ?case
  proof (cases "length bytes < 64")
    case True
    then show ?thesis by (rule hash_state_short)
  next
    case False
    let ?b = "take 64 bytes"
    have "hash_state h bytes = serial_hash (serial_hash h ?b) (drop 64 bytes)"
      using False by (simp add: hash_state_step less fold_block_serial)
    also have "\<dots> = serial_hash h (?b @ drop 64 bytes)"
      using False by (subst serial_hash_append) simp_all
    finally show ?thesis by simp
  qed
qed

text \<open>
  C30: The name hash, which folds eight words at a time with precomputed powers, is the serial
  recurrence h = (h * P + w) mod 2^52 over the words of eight bytes, the short tail padded with
  zeros.
\<close>

theorem hash_state_serial:
  "hash_state h bytes = foldl hash_step h (map word_of (chunks 8 bytes))
   \<and> unat (hash_step h w) = (unat h * unat hash_prime + unat w) mod 2 ^ 52"
proof
  show "hash_state h bytes = foldl hash_step h (map word_of (chunks 8 bytes))"
    using hash_state_eq by (simp add: serial_hash_def)
  show "unat (hash_step h w) = (unat h * unat hash_prime + unat w) mod 2 ^ 52"
    unfolding hash_step_def unat_mask unfolding lo52_add lo52_mask lo52_mult
    unfolding lo52_def by (simp only: mod_simps)
qed

theorem hash_state_incremental:
  "8 dvd length xs \<Longrightarrow> hash_state (hash_state h xs) ys = hash_state h (xs @ ys)"
  by (simp add: hash_state_eq serial_hash_append)

theorem hash_state_incremental_witness:
  "8 dvd length [1, 2, 3, 4, 5, 6, 7, 8 :: u8] \<and>
   hash_state (hash_state 0 [1, 2, 3, 4, 5, 6, 7, 8]) [9] = hash_state 0 [1, 2, 3, 4, 5, 6, 7, 8, 9]"
  using hash_state_incremental [of "[1, 2, 3, 4, 5, 6, 7, 8]" 0 "[9]"] by (simp add: eval_nat_numeral)

section \<open>The AVX-512 kernel on one block\<close>

lemma hash_prime_pow8_eval: "hash_prime_pow8 = 710151551011361"
  by code_simp

lemma chunks_exact_block:
  "chunks_exact 64 (1 # replicate 63 (0::u8)) = [1 # replicate 63 0]"
  "chunks_exact 8 (1 # replicate 63 (0::u8)) = (1 # replicate 7 0) # replicate 7 (replicate 8 0)"
  by code_simp+

lemma hash_prime_pow7_eval: "serial_hash 0 (1 # replicate 63 0) = 941290700395227"
  by code_simp

lemma madd52lo_zero: "madd52lo word p 0 = word"
  by (simp add: madd52lo_def)

lemma ifma_step_eq:
  "length chunk = 64 \<Longrightarrow>
   ifma_step h chunk =
     madd52lo h hash_prime_pow8 (sum_list (map from_le_bytes (chunks_exact 8 chunk)) AND hash_mask) AND hash_mask"
proof -
  assume "length chunk = 64"
  then have "length (map from_le_bytes (chunks_exact 8 chunk) :: u64 list) = length lane_powers"
    by (simp add: length_chunks_exact lane_powers_def)
  then have "map2 (\<lambda>word p. madd52lo word p 0) (map from_le_bytes (chunks_exact 8 chunk)) lane_powers
      = map from_le_bytes (chunks_exact 8 chunk)"
    by (simp only: madd52lo_zero) (simp add: case_prod_unfold)
  then show ?thesis by (simp add: ifma_step_def Let_def)
qed

lemma ifma_block_eval: "ifma_step 0 (1 # replicate 63 0) = 710151551011361"
proof -
  have "sum_list (map from_le_bytes (chunks_exact 8 (1 # replicate 63 (0::u8)))) = (1::u64)" by code_simp
  then show ?thesis
    by (simp only: ifma_step_eq hash_prime_pow8_eval length_Cons length_replicate) code_simp
qed

text \<open>The AVX-512 kernel gives another value on a block of 64 bytes.\<close>

text \<open>
  C31: The AVX-512 kernel of the name hash does not compute the scalar hash: on the block whose
  first byte is 1 and whose other bytes are 0 the two differ.
\<close>

theorem hash_ifma_differs:
  "hash_bytes_wide True (1 # replicate 63 0) \<noteq> hash_bytes_wide False (1 # replicate 63 0)"
proof -
  have "chunks_remainder 64 (1 # replicate 63 (0::u8)) = []" by (simp add: chunks_remainder_def)
  then have "hash_bytes_wide True (1 # replicate 63 0) = serial_hash 710151551011361 []"
    by (simp add: hash_bytes_wide_def hash_state_ifma_def chunks_exact_block ifma_block_eval hash_state_eq)
  then have "hash_bytes_wide True (1 # replicate 63 0) = 710151551011361"
    by (simp add: serial_hash_def chunks.simps)
  moreover have "hash_bytes_wide False (1 # replicate 63 0) = 941290700395227"
    by (simp add: hash_bytes_wide_def hash_state_eq hash_prime_pow7_eval)
  ultimately show ?thesis by simp
qed

end
