(* ===== verification/Op_Monad.thy ===== *)
theory Op_Monad
  imports Wredit_Error
begin

text \<open>
  The combinators the file system operations are written in: an operation maps the state of its
  receiver to a result and the state it leaves, as \<^typ>\<open>('s, 'a) wredit_op\<close> describes. \<open>op_bind\<close>
  is Rust's \<open>?\<close>: an error ends the operation and keeps the effects so far.
\<close>

type_synonym ('s, 'a) op = "'s \<Rightarrow> ('s, 'a) wredit_op"

named_theorems op_simps \<open>running operations\<close>

definition op_return :: "'a \<Rightarrow> ('s, 'a) op" where
  "op_return x s = Some (Inr x, s)"

definition op_fail :: "wredit_error \<Rightarrow> ('s, 'a) op" where
  "op_fail e s = Some (Inl e, s)"

definition op_panic :: "('s, 'a) op" where
  "op_panic s = None"

definition op_bind :: "('s, 'a) op \<Rightarrow> ('a \<Rightarrow> ('s, 'b) op) \<Rightarrow> ('s, 'b) op" where
  "op_bind m f s =
     (case m s of
        None \<Rightarrow> None
      | Some (Inl e, s') \<Rightarrow> Some (Inl e, s')
      | Some (Inr x, s') \<Rightarrow> f x s')"

definition op_get :: "('s \<Rightarrow> 'a) \<Rightarrow> ('s, 'a) op" where
  "op_get f s = Some (Inr (f s), s)"

definition op_modify :: "('s \<Rightarrow> 's) \<Rightarrow> ('s, unit) op" where
  "op_modify g s = Some (Inr (), g s)"

text \<open>A slice access that panics outside its array, and a pure function that returns a \<open>Result\<close>.\<close>

definition op_option :: "'a option \<Rightarrow> ('s, 'a) op" where
  "op_option v s = map_option (\<lambda>x. (Inr x, s)) v"

definition op_result :: "wredit_error + 'a \<Rightarrow> ('s, 'a) op" where
  "op_result r s = Some (r, s)"

lemma op_run [op_simps]:
  "op_return x s = Some (Inr x, s)"
  "op_fail e s = Some (Inl e, s)"
  "op_panic s = None"
  "op_get f s = Some (Inr (f s), s)"
  "op_modify g s = Some (Inr (), g s)"
  "op_option (Some x) s = Some (Inr x, s)"
  "op_option None s = None"
  "op_result r s = Some (r, s)"
  by (simp_all add: op_return_def op_fail_def op_panic_def op_get_def op_modify_def op_option_def op_result_def)

lemma op_bind_run [op_simps]:
  "m s = None \<Longrightarrow> op_bind m f s = None"
  "m s = Some (Inl e, s') \<Longrightarrow> op_bind m f s = Some (Inl e, s')"
  "m s = Some (Inr x, s') \<Longrightarrow> op_bind m f s = f x s'"
  by (simp_all add: op_bind_def)

text \<open>The ways an operation can end well: what a proof about a successful call starts from.\<close>

lemma op_bind_ok_iff:
  "op_bind m f s = Some (Inr y, t) \<longleftrightarrow> (\<exists>x s'. m s = Some (Inr x, s') \<and> f x s' = Some (Inr y, t))"
  by (auto simp: op_bind_def split: option.splits sum.splits prod.splits)

lemma op_ok_iff:
  "op_return x s = Some (Inr y, t) \<longleftrightarrow> y = x \<and> t = s"
  "op_fail e s = Some (Inr y, t) \<longleftrightarrow> False"
  "op_panic s = Some (Inr y, t) \<longleftrightarrow> False"
  "op_get f s = Some (Inr z, t) \<longleftrightarrow> z = f s \<and> t = s"
  "op_modify g s = Some (Inr u, t) \<longleftrightarrow> t = g s"
  "op_option v s = Some (Inr x, t) \<longleftrightarrow> v = Some x \<and> t = s"
  "op_result r s = Some (Inr x, t) \<longleftrightarrow> r = Inr x \<and> t = s"
  by (auto simp: op_return_def op_fail_def op_panic_def op_get_def op_modify_def op_option_def op_result_def)

lemmas op_ok = op_bind_ok_iff op_ok_iff

text \<open>An operation never panics when none of its parts does.\<close>

lemma op_bind_total:
  assumes "m s \<noteq> None" "\<And>x s'. m s = Some (Inr x, s') \<Longrightarrow> f x s' \<noteq> None"
  shows "op_bind m f s \<noteq> None"
  using assms by (auto simp: op_bind_def split: sum.splits prod.splits)

end
