(* ===== verification/Disk_Fs.thy ===== *)
theory Disk_Fs
  imports Fs_Image Fs_Bitmap Name_Hash Id_Compress Op_Monad
begin

text \<open>
  The disk file system (\<open>crates/wredit/src/fs.rs\<close>, \<open>DiskFs\<close>): superblock and the two bitmaps in
  memory, everything else on the block device. The source is generic in the device; here the
  device operations, and whether the processor has the AVX-512 features the name hash tests for,
  are the argument \<open>P\<close> of every operation that uses them. A path or a name is the list of its
  UTF-8 bytes.
\<close>

record 'd platform =
  dev_read :: "'d \<Rightarrow> nat \<Rightarrow> (wredit_error + u8 list) option"
  dev_write :: "nat \<Rightarrow> u8 list \<Rightarrow> 'd \<Rightarrow> ('d, unit) wredit_op"
  has_ifma :: bool

record 'd disk_fs =
  fs_device :: 'd
  fs_sb :: super_block
  fs_block_bitmap :: bitmap
  fs_inode_bitmap :: bitmap
  fs_sb_dirty :: bool
  fs_bb_dirty :: bool
  fs_ib_dirty :: bool

type_synonym ('d, 'a) fs_op = "('d disk_fs, 'a) op"

definition inodes_per_block :: nat where "inodes_per_block = block_size div inode_size"
definition dirents_per_block :: nat where "dirents_per_block = block_size div dirent_size"
definition indirect_ptrs :: nat where "indirect_ptrs = block_size div 4"
definition depth_max :: nat where "depth_max = 0x40"
definition max_name_len :: nat where "max_name_len = 0xFF"
definition u32_max :: nat where "u32_max = 2 ^ 32 - 1"

abbreviation name_hash :: "'d platform \<Rightarrow> u8 list \<Rightarrow> u32" where
  "name_hash P \<equiv> hash_bytes (has_ifma P)"

definition sat_inc :: "u32 \<Rightarrow> u32" where
  "sat_inc w = (if unat w + 1 > u32_max then word_of_nat u32_max else w + 1)"

definition div_ceil :: "nat \<Rightarrow> nat \<Rightarrow> nat" where
  "div_ceil a b = (a + b - 1) div b"

section \<open>The device\<close>

definition fs_read_block :: "'d platform \<Rightarrow> nat \<Rightarrow> ('d, u8 list) fs_op" where
  "fs_read_block P block s = map_option (\<lambda>r. (r, s)) (dev_read P (fs_device s) block)"

definition fs_write_block :: "'d platform \<Rightarrow> nat \<Rightarrow> u8 list \<Rightarrow> ('d, unit) fs_op" where
  "fs_write_block P block data s =
     map_option (\<lambda>(r, d). (r, s\<lparr>fs_device := d\<rparr>)) (dev_write P block data (fs_device s))"

section \<open>Flushing and opening\<close>

definition flush_part :: "'d platform \<Rightarrow> bool \<Rightarrow> nat \<Rightarrow> u8 list \<Rightarrow> ('d disk_fs \<Rightarrow> 'd disk_fs) \<Rightarrow> ('d, unit) fs_op" where
  "flush_part P dirty block data clean =
     (if dirty then op_bind (fs_write_block P block data) (\<lambda>_. op_modify clean) else op_return ())"

text \<open>
  \<open>as_bytes().try_into().unwrap_or([0; BLOCK_SIZE])\<close>: a bitmap that is not one block long would be
  written as zeros.
\<close>

definition bitmap_block :: "bitmap \<Rightarrow> u8 list" where
  "bitmap_block b = (if length b = block_size then b else replicate block_size 0)"

definition fs_flush :: "'d platform \<Rightarrow> ('d, unit) fs_op" where
  "fs_flush P =
     op_bind (\<lambda>s. flush_part P (fs_sb_dirty s) 0 (sb_to_bytes (fs_sb s)) (fs_sb_dirty_update (\<lambda>_. False)) s)
       (\<lambda>_. op_bind (\<lambda>s. flush_part P (fs_bb_dirty s) (unat (sb_block_bitmap_block (fs_sb s)))
              (bitmap_block (fs_block_bitmap s)) (fs_bb_dirty_update (\<lambda>_. False)) s)
         (\<lambda>_ s. flush_part P (fs_ib_dirty s) (unat (sb_inode_bitmap_block (fs_sb s)))
              (bitmap_block (fs_inode_bitmap s)) (fs_ib_dirty_update (\<lambda>_. False)) s))"

definition into_device :: "'d platform \<Rightarrow> 'd disk_fs \<Rightarrow> 'd option" where
  "into_device P s = map_option (\<lambda>(_, s'). fs_device s') (fs_flush P s)"

definition bad_geometry :: "super_block \<Rightarrow> bool" where
  "bad_geometry sb \<longleftrightarrow>
     sb_block_count sb = 0 \<or> unat (sb_block_count sb) > block_size * 8 \<or>
     sb_inode_count sb = 0 \<or> unat (sb_inode_count sb) > block_size * 8"

text \<open>\<open>open\<close> consumes the device; the operation runs on the device alone and returns the file system.\<close>

definition fs_open :: "'d platform \<Rightarrow> 'd \<Rightarrow> (wredit_error + 'd disk_fs) option" where
  "fs_open P device = map_option fst (
     op_bind (\<lambda>d. map_option (\<lambda>r. (r, d)) (dev_read P d 0)) (\<lambda>sb_block.
     op_bind (op_result (sb_from_bytes sb_block)) (\<lambda>sb.
     if bad_geometry sb then op_fail (CorruptImage ''bad superblock geometry'') else
     op_bind (\<lambda>d. map_option (\<lambda>r. (r, d)) (dev_read P d (unat (sb_block_bitmap_block sb)))) (\<lambda>bb_block.
     op_bind (op_result (bm_from_bytes bb_block)) (\<lambda>block_bitmap.
     op_bind (\<lambda>d. map_option (\<lambda>r. (r, d)) (dev_read P d (unat (sb_inode_bitmap_block sb)))) (\<lambda>ib_block.
     op_bind (op_result (bm_from_bytes ib_block)) (\<lambda>inode_bitmap.
     op_get (\<lambda>d. \<lparr>fs_device = d, fs_sb = sb, fs_block_bitmap = block_bitmap, fs_inode_bitmap = inode_bitmap,
               fs_sb_dirty = False, fs_bb_dirty = False, fs_ib_dirty = False\<rparr>))))))) device)"

section \<open>Allocation\<close>

text \<open>
  The argument of \<open>ok_or\<close> is evaluated before the search is looked at, so a panic of \<open>count_free\<close>
  would be one of the allocation.
\<close>

definition alloc_block :: "('d, u32) fs_op" where
  "alloc_block s =
     (let sb = fs_sb s; limit = unat (sb_block_count sb) in
      case bm_count_free (fs_block_bitmap s) limit of
        None \<Rightarrow> None
      | Some free \<Rightarrow> (case bm_find_free (fs_block_bitmap s) limit of
            None \<Rightarrow> Some (Inl (DiskFull free), s)
          | Some block \<Rightarrow>
              let s1 = s\<lparr>fs_block_bitmap := bm_set_used block (fs_block_bitmap s), fs_bb_dirty := True\<rparr>;
                  s2 = (if block + 1 > unat (sb_first_free_block sb)
                        then s1\<lparr>fs_sb := sb\<lparr>sb_first_free_block := word_of_nat (block + 1)\<rparr>, fs_sb_dirty := True\<rparr>
                        else s1)
              in Some (Inr (word_of_nat block), s2)))"

definition free_block :: "u32 \<Rightarrow> ('d, unit) fs_op" where
  "free_block block s =
     (let sb = fs_sb s in
      if block \<ge> sb_block_count sb
      then Some (Inl (BlockOutOfRange (unat block) (unat (sb_block_count sb))), s)
      else let s1 = s\<lparr>fs_block_bitmap := bm_set_free (unat block) (fs_block_bitmap s), fs_bb_dirty := True\<rparr>;
               s2 = (if block < sb_first_free_block sb
                     then s1\<lparr>fs_sb := sb\<lparr>sb_first_free_block := block\<rparr>, fs_sb_dirty := True\<rparr>
                     else s1)
        in Some (Inr (), s2))"

definition alloc_inode :: "('d, u32) fs_op" where
  "alloc_inode s =
     (let sb = fs_sb s; limit = unat (sb_inode_count sb) in
      case bm_count_free (fs_inode_bitmap s) limit of
        None \<Rightarrow> None
      | Some free \<Rightarrow> (case bm_find_free (fs_inode_bitmap s) limit of
            None \<Rightarrow> Some (Inl (DiskFull free), s)
          | Some inode \<Rightarrow>
              let s1 = s\<lparr>fs_inode_bitmap := bm_set_used inode (fs_inode_bitmap s), fs_ib_dirty := True\<rparr>;
                  s2 = (if inode + 1 > unat (sb_first_free_inode sb)
                        then s1\<lparr>fs_sb := sb\<lparr>sb_first_free_inode := word_of_nat (inode + 1)\<rparr>, fs_sb_dirty := True\<rparr>
                        else s1)
              in Some (Inr (word_of_nat inode), s2)))"

definition free_inode :: "u32 \<Rightarrow> ('d, unit) fs_op" where
  "free_inode inode s =
     (let sb = fs_sb s in
      if inode = 0 \<or> inode > sb_inode_count sb then Some (Inl (InvalidAddress (unat inode)), s)
      else let s1 = s\<lparr>fs_inode_bitmap := bm_set_free (unat inode) (fs_inode_bitmap s), fs_ib_dirty := True\<rparr>;
               s2 = (if inode < sb_first_free_inode sb
                     then s1\<lparr>fs_sb := sb\<lparr>sb_first_free_inode := inode\<rparr>, fs_sb_dirty := True\<rparr>
                     else s1)
        in Some (Inr (), s2))"

section \<open>Inodes\<close>

text \<open>
  The table block and byte offset of an inode. \<open>inode - 1\<close> and the block number are \<open>u32\<close>
  computations: an inode 0, or a table start so high that the sum leaves \<open>u32\<close>, is a panic.
\<close>

definition inode_place :: "super_block \<Rightarrow> u32 \<Rightarrow> (nat \<times> nat) option" where
  "inode_place sb inode =
     (if inode = 0 then None else
      let index = unat inode - 1;
          block = unat (sb_inode_table_block sb) + index div inodes_per_block;
          offset = (index mod inodes_per_block) * inode_size
      in if block > u32_max then None else Some (block, offset))"

definition read_inode :: "'d platform \<Rightarrow> u32 \<Rightarrow> ('d, inode) fs_op" where
  "read_inode P inode s =
     (if inode = 0 \<or> inode > sb_inode_count (fs_sb s) then Some (Inl (NotFound ''inode''), s)
      else op_bind (op_option (inode_place (fs_sb s) inode)) (\<lambda>(block, offset).
        op_bind (fs_read_block P block) (\<lambda>block_bytes.
        op_bind (op_option (mem_read block_bytes offset inode_size)) (\<lambda>inode_bytes.
        op_return (inode_from_bytes inode_bytes)))) s)"

definition write_inode_raw :: "'d platform \<Rightarrow> u32 \<Rightarrow> inode \<Rightarrow> ('d, unit) fs_op" where
  "write_inode_raw P inode value s =
     op_bind (op_option (inode_place (fs_sb s) inode)) (\<lambda>(block, offset).
       op_bind (fs_read_block P block) (\<lambda>block_bytes.
       op_bind (op_option (mem_write block_bytes offset (inode_to_bytes value))) (\<lambda>block_bytes'.
       fs_write_block P block block_bytes'))) s"

definition write_inode :: "'d platform \<Rightarrow> u32 \<Rightarrow> inode \<Rightarrow> ('d, unit) fs_op" where
  "write_inode P inode value s =
     (if inode = 0 \<or> inode > sb_inode_count (fs_sb s) then Some (Inl (InvalidAddress (unat inode)), s)
      else write_inode_raw P inode value s)"

section \<open>Formatting\<close>

definition dot_entry :: "'d platform \<Rightarrow> u8 list \<Rightarrow> dir_entry" where
  "dot_entry P name =
     snd (de_set_name (name_hash P) name
       (de_unused\<lparr>de_inode := 2, de_rec_len := word_of_nat dirent_size,
                  de_file_type := file_type_byte Directory\<rparr>))"

definition root_dir :: "nat \<Rightarrow> inode" where
  "root_dir root_block =
     inode_directory\<lparr>i_direct := (i_direct inode_directory)[0 := word_of_nat root_block], i_block_count := 1,
       i_size := word_of_nat (2 * dirent_size)\<rparr>"

definition fresh_fs :: "'d \<Rightarrow> nat \<Rightarrow> nat \<Rightarrow> nat \<Rightarrow> 'd disk_fs" where
  "fresh_fs device block_count inode_count inode_table_blocks =
     (let metadata_blocks = 3 + inode_table_blocks; root_block = metadata_blocks in
      \<lparr>fs_device = device,
       fs_sb = \<lparr>sb_block_count = word_of_nat block_count, sb_inode_count = word_of_nat inode_count,
         sb_block_bitmap_block = 1, sb_inode_bitmap_block = 2, sb_inode_table_block = 3,
         sb_inode_table_blocks = word_of_nat inode_table_blocks, sb_root_inode = 2,
         sb_first_free_block = word_of_nat root_block + 1, sb_first_free_inode = 3, sb_state = 1,
         sb_name_head = 0, sb_name_tail = 0\<rparr>,
       fs_block_bitmap = bm_set_used root_block (fold bm_set_used [0..<metadata_blocks] bm_new),
       fs_inode_bitmap = bm_set_used 2 (bm_set_used 1 (bm_set_used 0 bm_new)),
       fs_sb_dirty = True, fs_bb_dirty = True, fs_ib_dirty = True\<rparr>)"

definition fs_format :: "'d platform \<Rightarrow> 'd \<Rightarrow> nat \<Rightarrow> nat \<Rightarrow> (wredit_error + 'd disk_fs) option" where
  "fs_format P device block_count inode_count =
     (if block_count > u32_max then Some (Inl (LimitExceeded ''block count''))
      else if inode_count > u32_max then Some (Inl (LimitExceeded ''inode count''))
      else if block_count = 0 \<or> block_count > block_size * 8
      then Some (Inl (BlockOutOfRange block_count (block_size * 8)))
      else if inode_count = 0 \<or> inode_count > block_size * 8
      then Some (Inl (BlockOutOfRange inode_count (block_size * 8)))
      else
        let inode_table_blocks =
              saturating_add (min (inode_count * inode_size) usize_max) (block_size - 1) div block_size;
            metadata_blocks = 3 + inode_table_blocks in
        if block_count \<le> metadata_blocks then Some (Inl (DiskFull 0))
        else
          let root_block = metadata_blocks; fs = fresh_fs device block_count inode_count inode_table_blocks in
          map_option (\<lambda>(r, s). map_sum id (\<lambda>_. s) r)
            (op_bind (op_option (mem_write (replicate block_size 0) 0 (de_to_bytes (dot_entry P [0x2E])))) (\<lambda>dir_block.
             op_bind (op_option (mem_write dir_block dirent_size (de_to_bytes (dot_entry P [0x2E, 0x2E])))) (\<lambda>dir_block.
             op_bind (fs_write_block P root_block dir_block) (\<lambda>_.
             op_bind (write_inode_raw P 2 (root_dir root_block)) (\<lambda>_.
             fs_flush P)))) fs))"

section \<open>Blocks of the device\<close>

text \<open>The contents of a block, as a read of the device gives it.\<close>

definition blk :: "'d platform \<Rightarrow> 'd disk_fs \<Rightarrow> nat \<Rightarrow> u8 list" where
  "blk P s b = (case dev_read P (fs_device s) b of Some (Inr bs) \<Rightarrow> bs | _ \<Rightarrow> [])"

text \<open>The number of inode table blocks, and the first block that is neither bitmap nor table.\<close>

definition table_blocks :: "super_block \<Rightarrow> nat" where
  "table_blocks sb = (unat (sb_inode_count sb) * inode_size + (block_size - 1)) div block_size"

definition first_data :: "super_block \<Rightarrow> nat" where
  "first_data sb = 3 + table_blocks sb"

text \<open>
  The invariant of a mounted file system: the geometry \<open>format\<close> lays out, the metadata blocks marked
  used, and what is not marked dirty stands on the device.
\<close>

definition geometry_ok :: "super_block \<Rightarrow> bool" where
  "geometry_ok sb \<longleftrightarrow> \<not> bad_geometry sb \<and> sb_block_bitmap_block sb = 1 \<and> sb_inode_bitmap_block sb = 2 \<and>
     sb_inode_table_block sb = 3 \<and> first_data sb < unat (sb_block_count sb)"

definition synced :: "'d platform \<Rightarrow> 'd disk_fs \<Rightarrow> bool" where
  "synced P s \<longleftrightarrow>
     (fs_sb_dirty s \<or> blk P s 0 = sb_to_bytes (fs_sb s)) \<and>
     (fs_bb_dirty s \<or> blk P s 1 = fs_block_bitmap s) \<and>
     (fs_ib_dirty s \<or> blk P s 2 = fs_inode_bitmap s)"

definition fs_ok :: "('d \<Rightarrow> bool) \<Rightarrow> ('d \<Rightarrow> nat) \<Rightarrow> 'd platform \<Rightarrow> 'd disk_fs \<Rightarrow> bool" where
  "fs_ok dinv count P s \<longleftrightarrow>
     dinv (fs_device s) \<and> unat (sb_block_count (fs_sb s)) \<le> count (fs_device s) \<and> geometry_ok (fs_sb s) \<and>
     length (fs_block_bitmap s) = block_size \<and> length (fs_inode_bitmap s) = block_size \<and>
     (\<forall>b < first_data (fs_sb s). bm_is_used (fs_block_bitmap s) b) \<and> synced P s"

lemma blk_cong: "fs_device s' = fs_device s \<Longrightarrow> blk P s' = blk P s"
  by (simp add: blk_def fun_eq_iff)

lemma geometry_bounds:
  assumes "geometry_ok sb"
  shows "unat (sb_block_count sb) \<le> 8 * block_size" "unat (sb_inode_count sb) \<le> 8 * block_size"
    "0 < unat (sb_block_count sb)" "0 < unat (sb_inode_count sb)"
  using assms by (auto simp: geometry_ok_def bad_geometry_def unat_gt_0)

lemma inode_size_divides: "inodes_per_block * inode_size = block_size" "inodes_per_block = 32"
  by (simp_all add: inodes_per_block_def block_size_def inode_size_def)

lemma inode_place_eq:
  assumes "geometry_ok sb" "n \<noteq> 0" "n \<le> sb_inode_count sb"
  shows "inode_place sb n = Some (3 + (unat n - 1) div 32, (unat n - 1) mod 32 * inode_size)"
    "3 + (unat n - 1) div 32 < first_data sb" "(unat n - 1) mod 32 * inode_size + inode_size \<le> block_size"
proof -
  have n: "0 < unat n" "unat n \<le> unat (sb_inode_count sb)"
    using assms(2,3) by (simp_all add: unat_gt_0 word_le_nat_alt)
  show fd: "3 + (unat n - 1) div 32 < first_data sb"
    using n by (simp add: first_data_def table_blocks_def inode_size_def block_size_def)
  then have "3 + (unat n - 1) div 32 \<le> u32_max"
    using assms(1) geometry_bounds(1) [OF assms(1)] by (simp add: geometry_ok_def u32_max_def block_size_def)
  then show "inode_place sb n = Some (3 + (unat n - 1) div 32, (unat n - 1) mod 32 * inode_size)"
    using assms by (simp add: inode_place_def geometry_ok_def inode_size_divides(2) Let_def)
  have "(unat n - 1) mod 32 < 32" by simp
  then show "(unat n - 1) mod 32 * inode_size + inode_size \<le> block_size"
    by (simp add: inode_size_def block_size_def)
qed

section \<open>The file system on a correct device\<close>

locale fs_on_device = block_device inv count "dev_read P" "dev_write P"
  for inv :: "'d \<Rightarrow> bool" and count :: "'d \<Rightarrow> nat" and P :: "'d platform"
begin

lemma fs_read_run:
  assumes "inv (fs_device s)" "b < count (fs_device s)"
  shows "fs_read_block P b s = Some (Inr (blk P s b), s)" "length (blk P s b) = block_size"
  using read_ok [OF assms] by (auto simp: fs_read_block_def blk_def)

lemma fs_read_error:
  assumes "inv (fs_device s)" "count (fs_device s) \<le> b"
  shows "\<exists>e. fs_read_block P b s = Some (Inl e, s)"
  using read_bad [OF assms] by (auto simp: fs_read_block_def)

lemma fs_read_ok:
  assumes "inv (fs_device s)" "fs_read_block P b s = Some (Inr bs, t)"
  shows "t = s \<and> bs = blk P s b \<and> b < count (fs_device s) \<and> length bs = block_size"
proof -
  have "b < count (fs_device s)" using fs_read_error [OF assms(1), of b] assms(2) by (cases "b < count (fs_device s)") auto
  then show ?thesis using fs_read_run [OF assms(1), of b] assms(2) by auto
qed

lemma fs_write_run:
  assumes "inv (fs_device s)" "b < count (fs_device s)" "length bs = block_size"
  shows "\<exists>d. fs_write_block P b bs s = Some (Inr (), s\<lparr>fs_device := d\<rparr>) \<and> inv d \<and> count d = count (fs_device s) \<and>
    blk P (s\<lparr>fs_device := d\<rparr>) = (blk P s)(b := bs)"
proof -
  obtain d where "dev_write P b bs (fs_device s) = Some (Inr (), d)" "inv d" "count d = count (fs_device s)"
    "dev_read P d b = Some (Inr bs)" "\<forall>j. j \<noteq> b \<longrightarrow> dev_read P d j = dev_read P (fs_device s) j"
    using write_ok [OF assms] by blast
  then show ?thesis by (intro exI [of _ d]) (auto simp: fs_write_block_def blk_def fun_eq_iff)
qed

lemma fs_write_error:
  assumes "inv (fs_device s)" "count (fs_device s) \<le> b \<or> length bs \<noteq> block_size"
  shows "\<exists>e. fs_write_block P b bs s = Some (Inl e, s)"
  using write_bad [OF assms] by (auto simp: fs_write_block_def)

lemma fs_write_ok:
  assumes "inv (fs_device s)" "fs_write_block P b bs s = Some (Inr u, t)"
  shows "b < count (fs_device s) \<and> length bs = block_size \<and>
    (\<exists>d. t = s\<lparr>fs_device := d\<rparr> \<and> inv d \<and> count d = count (fs_device s) \<and> blk P t = (blk P s)(b := bs))"
proof -
  have ok: "b < count (fs_device s)" "length bs = block_size"
    using fs_write_error [OF assms(1), of b bs] assms(2) by (fastforce simp: not_less)+
  then show ?thesis using fs_write_run [OF assms(1) ok] assms(2) by auto
qed

end

end
