(* ===== verification/Disk_Fs_Core.thy ===== *)
theory Disk_Fs_Core
  imports Disk_Fs
begin

text \<open>
  The core of the file system: what flushing, opening, allocating and the inode table do to the
  invariant, the bitmaps and the blocks of the device. Proved once for every correct device, in the
  locale \<open>fs_on_device\<close>.
\<close>

section \<open>The fixed part of the superblock\<close>

definition sb_geom :: "super_block \<Rightarrow> u32 \<times> u32 \<times> u32 \<times> u32 \<times> u32" where
  "sb_geom sb = (sb_block_count sb, sb_inode_count sb, sb_block_bitmap_block sb, sb_inode_bitmap_block sb,
     sb_inode_table_block sb)"

lemma sb_geom_eqD:
  assumes "sb_geom sb' = sb_geom sb"
  shows "geometry_ok sb' = geometry_ok sb" "first_data sb' = first_data sb"
    "sb_block_count sb' = sb_block_count sb" "sb_inode_count sb' = sb_inode_count sb"
  using assms by (simp_all add: sb_geom_def geometry_ok_def bad_geometry_def first_data_def table_blocks_def)

lemma sb_geom_hint [simp]:
  "sb_geom (sb\<lparr>sb_first_free_block := f\<rparr>) = sb_geom sb" "sb_geom (sb\<lparr>sb_first_free_inode := f\<rparr>) = sb_geom sb"
  "sb_geom (sb\<lparr>sb_name_head := f\<rparr>) = sb_geom sb" "sb_geom (sb\<lparr>sb_name_tail := f\<rparr>) = sb_geom sb"
  by (simp_all add: sb_geom_def)

section \<open>Allocation\<close>

definition fs_used :: "'d disk_fs \<Rightarrow> nat \<Rightarrow> bool" where
  "fs_used s = bm_is_used (fs_block_bitmap s)"

lemma word_of_nat_u32 [simp]: "n \<le> u32_max \<Longrightarrow> unat (word_of_nat n :: u32) = n"
  by (simp add: u32_max_def unsigned_of_nat take_bit_nat_eq_self_iff)

text \<open>
  What \<open>alloc_block\<close> does on a well-formed state: the lowest free block, marked used, the device
  untouched and the superblock changed in its hint only; or the error that carries the number of
  free blocks, which is then 0.
\<close>

lemma alloc_block_cases:
  assumes len: "length (fs_block_bitmap s) = block_size" and geo: "geometry_ok (fs_sb s)"
  obtains (full) "alloc_block s = Some (Inl (DiskFull 0), s)" "\<forall>b < unat (sb_block_count (fs_sb s)). fs_used s b"
  | (block) b t where "alloc_block s = Some (Inr (word_of_nat b), t)"
      "b < unat (sb_block_count (fs_sb s))" "\<not> fs_used s b" "\<forall>c < b. fs_used s c"
      "fs_used t = (fs_used s)(b := True)" "fs_bb_dirty t" "length (fs_block_bitmap t) = block_size"
      "fs_device t = fs_device s" "fs_inode_bitmap t = fs_inode_bitmap s" "fs_ib_dirty t = fs_ib_dirty s"
      "\<exists>f. fs_sb t = fs_sb s\<lparr>sb_first_free_block := f\<rparr>"
      "fs_sb_dirty t \<or> fs_sb t = fs_sb s \<and> fs_sb_dirty t = fs_sb_dirty s"
proof -
  let ?n = "unat (sb_block_count (fs_sb s))"
  have n: "?n \<le> 8 * block_size" using geometry_bounds(1) [OF geo] .
  note ff = bm_find_free_eq [of ?n "fs_block_bitmap s", unfolded len, OF n]
  have cnt: "bm_count_free (fs_block_bitmap s) ?n = Some (?n - card {i. i < ?n \<and> bm_is_used (fs_block_bitmap s) i})"
    using bm_count_used_eq [OF len n] by (simp add: bm_count_free_def)
  show thesis
  proof (cases "bm_find_free (fs_block_bitmap s) ?n")
    case None
    then have used: "\<forall>b < ?n. bm_is_used (fs_block_bitmap s) b" using ff by simp
    then have "{i. i < ?n \<and> bm_is_used (fs_block_bitmap s) i} = {..<?n}" by auto
    then have "alloc_block s = Some (Inl (DiskFull 0), s)" using None cnt by (simp add: alloc_block_def Let_def)
    with used show thesis by (intro full) (simp_all add: fs_used_def)
  next
    case (Some b)
    with ff have b: "b < ?n" "\<not> fs_used s b" "\<forall>c < b. fs_used s c" by (auto simp: fs_used_def)
    have set: "bm_is_used (bm_set_used b (fs_block_bitmap s)) = (bm_is_used (fs_block_bitmap s))(b := True)"
      using b(1) n len by (intro bm_set_used_eq) simp
    let ?s1 = "s\<lparr>fs_block_bitmap := bm_set_used b (fs_block_bitmap s), fs_bb_dirty := True\<rparr>"
    let ?t = "if b + 1 > unat (sb_first_free_block (fs_sb s))
      then ?s1\<lparr>fs_sb := (fs_sb s)\<lparr>sb_first_free_block := word_of_nat (b + 1)\<rparr>, fs_sb_dirty := True\<rparr> else ?s1"
    have run: "alloc_block s = Some (Inr (word_of_nat b), ?t)"
      using Some cnt by (simp add: alloc_block_def Let_def)
    have "fs_used ?t = (fs_used s)(b := True)" using set by (simp add: fs_used_def)
    moreover have "\<exists>f. fs_sb ?t = fs_sb s\<lparr>sb_first_free_block := f\<rparr>"
      by (cases "b + 1 > unat (sb_first_free_block (fs_sb s))") (auto intro: exI [of _ "sb_first_free_block (fs_sb s)"])
    ultimately show thesis using run b len by (intro block [of b ?t]) simp_all
  qed
qed

section \<open>Effects on the invariant\<close>

text \<open>The inode the table holds under a number.\<close>

definition table_block :: "u32 \<Rightarrow> nat" where
  "table_block n = 3 + (unat n - 1) div 32"

definition table_offset :: "u32 \<Rightarrow> nat" where
  "table_offset n = (unat n - 1) mod 32 * inode_size"

definition inode_at :: "'d platform \<Rightarrow> 'd disk_fs \<Rightarrow> u32 \<Rightarrow> inode" where
  "inode_at P s n = inode_from_bytes (take inode_size (drop (table_offset n) (blk P s (table_block n))))"

definition valid_inode :: "'d disk_fs \<Rightarrow> u32 \<Rightarrow> bool" where
  "valid_inode s n \<longleftrightarrow> n \<noteq> 0 \<and> n \<le> sb_inode_count (fs_sb s)"

lemma inode_at_cong: "blk P t (table_block n) = blk P s (table_block n) \<Longrightarrow> inode_at P t n = inode_at P s n"
  by (simp add: inode_at_def)

lemma length_inode_bytes: "length (i_direct v) = direct_count \<Longrightarrow> length (inode_to_bytes v) = inode_size"
  unfolding inode_to_bytes_def by (rule length_encode [OF inode_layout])

lemma table_slots_apart:
  assumes "n \<noteq> 0" "m \<noteq> 0" "m \<noteq> n" "table_block m = table_block n"
  shows "table_offset m + inode_size \<le> table_offset n \<or> table_offset n + inode_size \<le> table_offset m"
proof -
  let ?i = "unat n - 1" and ?j = "unat m - 1"
  have "?i \<noteq> ?j" using assms(1-3) by (metis Suc_pred' unat_gt_0 word_unat_eq_iff)
  moreover have "?i div 32 = ?j div 32" using assms(4) by (simp add: table_block_def)
  ultimately have "?i mod 32 \<noteq> ?j mod 32" by (metis div_mult_mod_eq)
  then have "Suc (?i mod 32) * inode_size \<le> ?j mod 32 * inode_size \<or>
      Suc (?j mod 32) * inode_size \<le> ?i mod 32 * inode_size"
    by (metis Suc_leI linorder_neqE_nat mult_le_mono1)
  then show ?thesis by (auto simp: table_offset_def)
qed

context fs_on_device
begin

abbreviation ok :: "'d disk_fs \<Rightarrow> bool" where
  "ok \<equiv> fs_ok inv count P"

lemma ok_device: "ok s \<Longrightarrow> inv (fs_device s)" "ok s \<Longrightarrow> b < unat (sb_block_count (fs_sb s)) \<Longrightarrow> b < count (fs_device s)"
  "ok s \<Longrightarrow> geometry_ok (fs_sb s)" "ok s \<Longrightarrow> first_data (fs_sb s) < unat (sb_block_count (fs_sb s))"
  by (simp_all add: fs_ok_def geometry_ok_def)

lemma alloc_block_ok:
  assumes "ok s"
  obtains (full) "alloc_block s = Some (Inl (DiskFull 0), s)" "\<forall>b < unat (sb_block_count (fs_sb s)). fs_used s b"
  | (block) b t where "alloc_block s = Some (Inr (word_of_nat b), t)" "ok t"
      "first_data (fs_sb s) \<le> b" "b < unat (sb_block_count (fs_sb s))" "unat (word_of_nat b :: u32) = b"
      "\<not> fs_used s b" "\<forall>c < b. fs_used s c" "fs_used t = (fs_used s)(b := True)"
      "fs_device t = fs_device s" "sb_geom (fs_sb t) = sb_geom (fs_sb s)"
      "sb_name_head (fs_sb t) = sb_name_head (fs_sb s)" "sb_name_tail (fs_sb t) = sb_name_tail (fs_sb s)"
proof -
  have len: "length (fs_block_bitmap s) = block_size" and geo: "geometry_ok (fs_sb s)"
    using assms by (simp_all add: fs_ok_def)
  show thesis
  proof (cases rule: alloc_block_cases [OF len geo])
    case 1
    then show thesis by (rule full)
  next
    case (2 b t)
    then obtain f where sb: "fs_sb t = fs_sb s\<lparr>sb_first_free_block := f\<rparr>" by blast
    then have geom: "sb_geom (fs_sb t) = sb_geom (fs_sb s)" by simp
    have low: "first_data (fs_sb s) \<le> b" using assms 2(3) by (auto simp: fs_ok_def fs_used_def not_less [symmetric])
    have "b \<le> u32_max" using 2(2) geometry_bounds(1) [OF geo] by (simp add: u32_max_def block_size_def)
    have "synced P t"
      using assms 2(6,8-10,12) blk_cong [OF 2(8), of P] unfolding fs_ok_def synced_def by metis
    moreover have "\<forall>c < first_data (fs_sb t). bm_is_used (fs_block_bitmap t) c"
      using assms 2(5) sb_geom_eqD(2) [OF geom] by (simp add: fs_ok_def fs_used_def fun_eq_iff)
    ultimately have "ok t"
      using assms sb_geom_eqD(1,3) [OF geom] 2(7-9) by (simp add: fs_ok_def)
    with \<open>b \<le> u32_max\<close> show thesis using 2 geom low sb by (intro block [of b t]) simp_all
  qed
qed

lemma write_data_ok:
  assumes "ok s" "3 \<le> b" "b < unat (sb_block_count (fs_sb s))" "length bs = block_size"
  obtains d where "fs_write_block P b bs s = Some (Inr (), s\<lparr>fs_device := d\<rparr>)"
    "ok (s\<lparr>fs_device := d\<rparr>)" "blk P (s\<lparr>fs_device := d\<rparr>) = (blk P s)(b := bs)"
proof -
  obtain d where d: "fs_write_block P b bs s = Some (Inr (), s\<lparr>fs_device := d\<rparr>)" "inv d"
    "count d = count (fs_device s)" "blk P (s\<lparr>fs_device := d\<rparr>) = (blk P s)(b := bs)"
    using fs_write_run [OF ok_device(1) [OF assms(1)] ok_device(2) [OF assms(1,3)] assms(4)] by blast
  have "ok (s\<lparr>fs_device := d\<rparr>)" using assms(1,2) d by (simp add: fs_ok_def synced_def)
  with d show thesis using that by blast
qed

lemma ok_sb_update:
  assumes "ok s" "sb_geom sb = sb_geom (fs_sb s)"
  shows "ok (s\<lparr>fs_sb := sb, fs_sb_dirty := True\<rparr>)"
proof -
  have "blk P (s\<lparr>fs_sb := sb, fs_sb_dirty := True\<rparr>) = blk P s" by (rule blk_cong) simp
  then show ?thesis using assms(1) sb_geom_eqD(1-3) [OF assms(2)] by (simp add: fs_ok_def synced_def)
qed

lemma read_data_ok:
  assumes "ok s" "b < unat (sb_block_count (fs_sb s))"
  shows "fs_read_block P b s = Some (Inr (blk P s b), s)" "length (blk P s b) = block_size"
  using fs_read_run [OF ok_device(1) [OF assms(1)] ok_device(2) [OF assms]] by auto

lemma table_place:
  assumes "ok s" "valid_inode s n"
  shows "inode_place (fs_sb s) n = Some (table_block n, table_offset n)"
    "3 \<le> table_block n" "table_block n < first_data (fs_sb s)" "table_block n < unat (sb_block_count (fs_sb s))"
    "table_offset n + inode_size \<le> block_size"
  using inode_place_eq [OF ok_device(3) [OF assms(1)], of n] assms ok_device(4) [OF assms(1)]
  by (auto simp: valid_inode_def table_block_def table_offset_def)

lemma read_inode_run:
  assumes "ok s" "valid_inode s n"
  shows "read_inode P n s = Some (Inr (inode_at P s n), s)"
  using assms(2) table_place [OF assms] read_data_ok [OF assms(1), of "table_block n"]
  by (simp add: read_inode_def valid_inode_def op_simps mem_simps inode_at_def not_less [symmetric])

lemma write_inode_raw_run:
  assumes "ok s" "n \<noteq> 0" "length (i_direct v) = direct_count"
    and pl: "inode_place (fs_sb s) n = Some (table_block n, table_offset n)" "3 \<le> table_block n"
      "table_block n < unat (sb_block_count (fs_sb s))" "table_offset n + inode_size \<le> block_size"
  obtains d where "write_inode_raw P n v s = Some (Inr (), s\<lparr>fs_device := d\<rparr>)" "ok (s\<lparr>fs_device := d\<rparr>)"
    "inode_at P (s\<lparr>fs_device := d\<rparr>) n = v"
    "\<forall>m. m \<noteq> 0 \<longrightarrow> m \<noteq> n \<longrightarrow> inode_at P (s\<lparr>fs_device := d\<rparr>) m = inode_at P s m"
    "\<forall>b. b \<noteq> table_block n \<longrightarrow> blk P (s\<lparr>fs_device := d\<rparr>) b = blk P s b"
proof -
  let ?b = "table_block n" and ?o = "table_offset n"
  note len = length_inode_bytes [OF assms(3)] and rd = read_data_ok [OF assms(1) pl(3)]
  let ?new = "take ?o (blk P s ?b) @ inode_to_bytes v @ drop (?o + inode_size) (blk P s ?b)"
  have lnew: "length ?new = block_size" using pl(4) rd(2) len by simp
  obtain d where d: "fs_write_block P ?b ?new s = Some (Inr (), s\<lparr>fs_device := d\<rparr>)" "ok (s\<lparr>fs_device := d\<rparr>)"
    "blk P (s\<lparr>fs_device := d\<rparr>) = (blk P s)(?b := ?new)"
    using write_data_ok [OF assms(1) pl(2,3) lnew] by blast
  have run: "write_inode_raw P n v s = Some (Inr (), s\<lparr>fs_device := d\<rparr>)"
    using pl(1,4) rd len d(1) by (simp add: write_inode_raw_def op_simps mem_simps)
  have same: "inode_at P (s\<lparr>fs_device := d\<rparr>) n = v"
    using d(3) pl(4) rd(2) len inode_from_to [OF assms(3)] by (simp add: inode_at_def)
  have other: "inode_at P (s\<lparr>fs_device := d\<rparr>) m = inode_at P s m" if "m \<noteq> 0" "m \<noteq> n" for m
  proof (cases "table_block m = ?b")
    case True
    have "table_offset m + inode_size \<le> ?o \<or> ?o + inode_size \<le> table_offset m"
      using table_slots_apart [of n m] that True assms(2) by simp
    then have "take inode_size (drop (table_offset m) ?new) = take inode_size (drop (table_offset m) (blk P s ?b))"
      using take_drop_frame [of "table_offset m" inode_size ?o "inode_to_bytes v" "blk P s ?b"] len pl(4) rd(2) by simp
    with True d(3) show ?thesis by (simp add: inode_at_def)
  next
    case False
    then show ?thesis using d(3) by (intro inode_at_cong) simp
  qed
  show thesis using that [OF run d(2) same] other d(3) by simp
qed

lemma write_inode_run:
  assumes "ok s" "valid_inode s n" "length (i_direct v) = direct_count"
  obtains d where "write_inode P n v s = Some (Inr (), s\<lparr>fs_device := d\<rparr>)" "ok (s\<lparr>fs_device := d\<rparr>)"
    "inode_at P (s\<lparr>fs_device := d\<rparr>) n = v"
    "\<forall>m. m \<noteq> 0 \<longrightarrow> m \<noteq> n \<longrightarrow> inode_at P (s\<lparr>fs_device := d\<rparr>) m = inode_at P s m"
    "\<forall>b. b \<noteq> table_block n \<longrightarrow> blk P (s\<lparr>fs_device := d\<rparr>) b = blk P s b"
proof -
  note pl = table_place [OF assms(1,2)]
  have n: "n \<noteq> 0" "write_inode P n v s = write_inode_raw P n v s"
    using assms(2) by (simp_all add: valid_inode_def write_inode_def not_less [symmetric])
  show thesis using write_inode_raw_run [OF assms(1) n(1) assms(3) pl(1,2,4,5)] that n(2) by metis
qed

end

section \<open>Flush and open\<close>

context fs_on_device
begin

lemma flush_part_run:
  assumes "inv (fs_device s)" "b < count (fs_device s)" "length data = block_size"
    "dirty \<or> blk P s b = data" "\<not> dirty \<Longrightarrow> clean s = s"
  obtains d where "flush_part P dirty b data clean s = Some (Inr (), clean (s\<lparr>fs_device := d\<rparr>))"
    "inv d" "count d = count (fs_device s)" "blk P (s\<lparr>fs_device := d\<rparr>) = (blk P s)(b := data)"
proof (cases dirty)
  case True
  then show thesis using that fs_write_run [OF assms(1-3)] by (auto simp: flush_part_def op_simps)
next
  case False
  then show thesis using that [of "fs_device s"] assms by (simp add: flush_part_def op_simps fun_upd_idem)
qed

lemma open_run:
  assumes "inv d" "3 \<le> count d" "geometry_ok sb" "length bb = block_size" "length ib = block_size"
    and s: "s = \<lparr>fs_device = d, fs_sb = sb, fs_block_bitmap = bb, fs_inode_bitmap = ib,
               fs_sb_dirty = False, fs_bb_dirty = False, fs_ib_dirty = False\<rparr>"
    and blocks: "blk P s 0 = sb_to_bytes sb" "blk P s 1 = bb" "blk P s 2 = ib"
  shows "fs_open P d = Some (Inr s)"
proof -
  have rd: "dev_read P d b = Some (Inr (blk P s b))" if "b < 3" for b
    using read_ok [OF assms(1), of b] that assms(2) s by (auto simp: blk_def)
  have geo: "\<not> bad_geometry sb" "unat (sb_block_bitmap_block sb) = 1" "unat (sb_inode_bitmap_block sb) = 2"
    using assms(3) by (simp_all add: geometry_ok_def)
  show ?thesis
    using rd [of 0] rd [of 1] rd [of 2] geo assms(4,5) blocks sb_from_to [of sb]
    by (simp add: fs_open_def op_simps bm_from_bytes_def s)
qed

lemma flush_open_run:
  assumes "ok s"
  obtains d where
    "fs_flush P s = Some (Inr (), s\<lparr>fs_device := d, fs_sb_dirty := False, fs_bb_dirty := False, fs_ib_dirty := False\<rparr>)"
    "fs_open P d = Some (Inr (s\<lparr>fs_device := d, fs_sb_dirty := False, fs_bb_dirty := False, fs_ib_dirty := False\<rparr>))"
    "ok (s\<lparr>fs_device := d, fs_sb_dirty := False, fs_bb_dirty := False, fs_ib_dirty := False\<rparr>)"
    "\<forall>b \<ge> 3. blk P (s\<lparr>fs_device := d\<rparr>) b = blk P s b"
proof -
  let ?sb = "fs_sb s" and ?bb = "fs_block_bitmap s" and ?ib = "fs_inode_bitmap s"
  have inv0: "inv (fs_device s)" and geo: "geometry_ok ?sb" using assms by (simp_all add: fs_ok_def)
  have cnt: "3 < count (fs_device s)" using assms by (simp add: fs_ok_def geometry_ok_def first_data_def)
  have len: "length (sb_to_bytes ?sb) = block_size" "bitmap_block ?bb = ?bb" "bitmap_block ?ib = ?ib"
      "length ?bb = block_size" "length ?ib = block_size"
    using assms length_encode [OF sb_layout, of ?sb] by (simp_all add: fs_ok_def sb_to_bytes_def bitmap_block_def)
  have syn: "fs_sb_dirty s \<or> blk P s 0 = sb_to_bytes ?sb" "fs_bb_dirty s \<or> blk P s 1 = ?bb" "fs_ib_dirty s \<or> blk P s 2 = ?ib"
    using assms by (simp_all add: fs_ok_def synced_def)
  obtain d1 where d1: "flush_part P (fs_sb_dirty s) 0 (sb_to_bytes ?sb) (fs_sb_dirty_update (\<lambda>_. False)) s
      = Some (Inr (), s\<lparr>fs_device := d1, fs_sb_dirty := False\<rparr>)" "inv d1" "count d1 = count (fs_device s)"
    "blk P (s\<lparr>fs_device := d1\<rparr>) = (blk P s)(0 := sb_to_bytes ?sb)"
    using flush_part_run [OF inv0 _ len(1) syn(1), of "fs_sb_dirty_update (\<lambda>_. False)"] cnt by auto
  let ?s1 = "s\<lparr>fs_device := d1, fs_sb_dirty := False\<rparr>"
  have b1: "blk P ?s1 = (blk P s)(0 := sb_to_bytes ?sb)" using d1(4) blk_cong [of ?s1 "s\<lparr>fs_device := d1\<rparr>" P] by simp
  obtain d2 where d2: "flush_part P (fs_bb_dirty s) 1 ?bb (fs_bb_dirty_update (\<lambda>_. False)) ?s1
      = Some (Inr (), ?s1\<lparr>fs_device := d2, fs_bb_dirty := False\<rparr>)" "inv d2" "count d2 = count (fs_device s)"
    "blk P (?s1\<lparr>fs_device := d2\<rparr>) = (blk P ?s1)(1 := ?bb)"
    using flush_part_run [of ?s1 1 ?bb "fs_bb_dirty s" "fs_bb_dirty_update (\<lambda>_. False)"] d1 b1 cnt len syn(2) by auto
  let ?s2 = "?s1\<lparr>fs_device := d2, fs_bb_dirty := False\<rparr>"
  have b2: "blk P ?s2 = (blk P ?s1)(1 := ?bb)" using d2(4) blk_cong [of ?s2 "?s1\<lparr>fs_device := d2\<rparr>" P] by simp
  obtain d where d: "flush_part P (fs_ib_dirty s) 2 ?ib (fs_ib_dirty_update (\<lambda>_. False)) ?s2
      = Some (Inr (), ?s2\<lparr>fs_device := d, fs_ib_dirty := False\<rparr>)" "inv d" "count d = count (fs_device s)"
    "blk P (?s2\<lparr>fs_device := d\<rparr>) = (blk P ?s2)(2 := ?ib)"
    using flush_part_run [of ?s2 2 ?ib "fs_ib_dirty s" "fs_ib_dirty_update (\<lambda>_. False)"] d2 b1 b2 cnt len syn(3) by auto
  let ?t = "s\<lparr>fs_device := d, fs_sb_dirty := False, fs_bb_dirty := False, fs_ib_dirty := False\<rparr>"
  have b: "blk P ?t = (blk P s)(0 := sb_to_bytes ?sb, 1 := ?bb, 2 := ?ib)"
    using d(4) b1 b2 blk_cong [of ?t "?s2\<lparr>fs_device := d\<rparr>" P] by simp
  have "unat (sb_block_bitmap_block ?sb) = 1" "unat (sb_inode_bitmap_block ?sb) = 2"
    using geo by (simp_all add: geometry_ok_def)
  then have "fs_flush P s = Some (Inr (), ?t)" using d1(1) d2(1) d(1) len(2,3) by (simp add: fs_flush_def op_simps)
  moreover have "fs_open P d = Some (Inr ?t)"
    using d cnt geo len b by (intro open_run [where sb = ?sb and bb = ?bb and ib = ?ib]) simp_all
  moreover have "ok ?t" using assms d b by (simp add: fs_ok_def synced_def)
  moreover have "\<forall>b \<ge> 3. blk P (s\<lparr>fs_device := d\<rparr>) b = blk P s b"
    using b blk_cong [of "s\<lparr>fs_device := d\<rparr>" ?t P] by simp
  ultimately show thesis by (rule that)
qed

end

section \<open>The file system on a memory disk\<close>

definition mem_platform :: "bool \<Rightarrow> memory_disk platform" where
  "mem_platform ifma = \<lparr>dev_read = md_read, dev_write = md_write_block, has_ifma = ifma\<rparr>"

interpretation mem_fs: fs_on_device md_inv md_block_count "mem_platform ifma" for ifma
  by unfold_locales
    (use disk.read_ok disk.read_bad disk.write_ok disk.write_bad in \<open>auto simp: mem_platform_def\<close>)

abbreviation mem_ok :: "bool \<Rightarrow> memory_disk disk_fs \<Rightarrow> bool" where
  "mem_ok ifma \<equiv> fs_ok md_inv md_block_count (mem_platform ifma)"

section \<open>A formatted file system\<close>

lemma fold_set_used:
  assumes "length b = block_size" "n \<le> 8 * block_size"
  shows "length (fold bm_set_used [0..<n] b) = block_size \<and>
    bm_is_used (fold bm_set_used [0..<n] b) = (\<lambda>i. i < n \<or> bm_is_used b i)"
  using assms(2)
proof (induction n)
  case 0
  then show ?case using assms(1) by simp
next
  case (Suc n)
  then have ih: "length (fold bm_set_used [0..<n] b) = block_size"
    "bm_is_used (fold bm_set_used [0..<n] b) = (\<lambda>i. i < n \<or> bm_is_used b i)" by simp_all
  show ?case using Suc.prems ih bm_set_used_eq [of n "fold bm_set_used [0..<n] b"] by (auto simp: fun_eq_iff)
qed

definition format_data :: "nat \<Rightarrow> nat" where
  "format_data inode_count = 3 + (inode_count * inode_size + (block_size - 1)) div block_size"

definition format_ok :: "nat \<Rightarrow> nat \<Rightarrow> bool" where
  "format_ok block_count inode_count \<longleftrightarrow>
     block_count \<le> block_size * 8 \<and> 0 < inode_count \<and> inode_count \<le> block_size * 8 \<and>
     format_data inode_count < block_count"

lemma fresh_fs_sb:
  assumes "format_ok bc ic" "s = fresh_fs d bc ic ((ic * inode_size + (block_size - 1)) div block_size)"
  shows "unat (sb_block_count (fs_sb s)) = bc" "unat (sb_inode_count (fs_sb s)) = ic"
    "first_data (fs_sb s) = format_data ic" "geometry_ok (fs_sb s)" "fs_device s = d"
    "length (fs_block_bitmap s) = block_size" "length (fs_inode_bitmap s) = block_size"
    "fs_used s = (\<lambda>b. b \<le> format_data ic)" "fs_sb_dirty s" "fs_bb_dirty s" "fs_ib_dirty s"
proof -
  let ?m = "format_data ic"
  have u: "bc \<le> u32_max" "ic \<le> u32_max" "?m < 8 * block_size"
    using assms(1) by (simp_all add: format_ok_def u32_max_def block_size_def)
  show c: "unat (sb_block_count (fs_sb s)) = bc" "unat (sb_inode_count (fs_sb s)) = ic"
    using u by (simp_all add: assms(2) fresh_fs_def Let_def)
  show fd: "first_data (fs_sb s) = ?m" using c(2) by (simp add: first_data_def table_blocks_def format_data_def)
  have "sb_block_count (fs_sb s) \<noteq> 0" "sb_inode_count (fs_sb s) \<noteq> 0"
    using c assms(1) by (auto simp: format_ok_def simp flip: unat_gt_0)
  moreover have "?m < bc" using assms(1) by (simp add: format_ok_def)
  ultimately show "geometry_ok (fs_sb s)"
    using c fd assms(1) by (simp add: geometry_ok_def bad_geometry_def format_ok_def)
      (simp add: assms(2) fresh_fs_def Let_def)
  have bm: "length bm_new = block_size" "bm_is_used bm_new = (\<lambda>i. False)" by (simp add: bm_new_def, simp add: fun_eq_iff)
  note f = fold_set_used [OF bm(1), of ?m, unfolded bm(2)]
  have bb: "fs_block_bitmap s = bm_set_used ?m (fold bm_set_used [0..<?m] bm_new)"
    by (simp add: assms(2) fresh_fs_def format_data_def Let_def)
  show "length (fs_block_bitmap s) = block_size" using f u bb by simp
  show "length (fs_inode_bitmap s) = block_size" by (simp add: assms(2) fresh_fs_def bm(1) Let_def)
  show "fs_used s = (\<lambda>b. b \<le> ?m)"
    using f u bm_set_used_eq [of ?m "fold bm_set_used [0..<?m] bm_new"]
    by (auto simp: bb fs_used_def fun_eq_iff)
qed (simp_all add: assms(2) fresh_fs_def Let_def)

definition root_block_bytes :: "'d platform \<Rightarrow> u8 list" where
  "root_block_bytes P =
     de_to_bytes (dot_entry P [0x2E]) @ de_to_bytes (dot_entry P [0x2E, 0x2E])
       @ replicate (block_size - 2 * dirent_size) 0"

lemma length_de_to_bytes: "length (de_name e) = name_max \<Longrightarrow> length (de_to_bytes e) = dirent_size"
  unfolding de_to_bytes_def by (rule length_encode [OF de_layout])

lemma dot_entry_name: "length name \<le> name_max \<Longrightarrow> length (de_name (dot_entry P name)) = name_max"
  by (simp add: dot_entry_def de_set_name_def)

lemma root_dir_direct: "length (i_direct (root_dir b)) = direct_count"
  by (simp add: root_dir_def inode_directory_def with_mode_def)

context fs_on_device
begin

lemma format_run:
  assumes "inv d" "bc \<le> count d" "format_ok bc ic"
  obtains s where "fs_format P d bc ic = Some (Inr s)" "ok s"
    "unat (sb_block_count (fs_sb s)) = bc" "unat (sb_inode_count (fs_sb s)) = ic" "sb_root_inode (fs_sb s) = 2"
    "fs_used s = (\<lambda>b. b \<le> format_data ic)" "inode_at P s 2 = root_dir (format_data ic)"
    "blk P s (format_data ic) = root_block_bytes P"
    "\<forall>b > format_data ic. blk P s b = blk P (s\<lparr>fs_device := d\<rparr>) b"
    "sb_name_head (fs_sb s) = 0" "sb_name_tail (fs_sb s) = 0"
    "fs_inode_bitmap s = bm_set_used 2 (bm_set_used 1 (bm_set_used 0 bm_new))"
proof -
  let ?itb = "(ic * inode_size + (block_size - 1)) div block_size" and ?r = "format_data ic"
  define s0 where "s0 = fresh_fs d bc ic ?itb"
  note fresh = fresh_fs_sb [OF assms(3) s0_def]
  have r: "3 \<le> ?r" "?r < bc" "?r = 3 + ?itb"
    using assms(3) by (simp add: format_data_def, simp add: format_ok_def, simp only: format_data_def)
  have ok0: "ok s0"
    using fresh assms(1,2) by (simp add: fs_ok_def synced_def fs_used_def [symmetric])
  let ?a = "de_to_bytes (dot_entry P [0x2E])" and ?b = "de_to_bytes (dot_entry P [0x2E, 0x2E])"
  have la: "length ?a = dirent_size" "length ?b = dirent_size"
    by (intro length_de_to_bytes dot_entry_name; simp add: name_max_def dirent_size_def)+
  have sizes: "2 * dirent_size \<le> block_size" by (simp add: dirent_size_def block_size_def)
  have w1: "mem_write (replicate block_size 0) 0 ?a = Some (?a @ replicate (block_size - dirent_size) 0)"
    using la sizes by (simp add: mem_simps)
  have w2: "mem_write (?a @ replicate (block_size - dirent_size) 0) dirent_size ?b = Some (root_block_bytes P)"
    using la sizes by (simp add: mem_simps root_block_bytes_def mult_2)
  have lroot: "length (root_block_bytes P) = block_size" using la sizes by (simp add: root_block_bytes_def)
  obtain d1 where d1: "fs_write_block P ?r (root_block_bytes P) s0 = Some (Inr (), s0\<lparr>fs_device := d1\<rparr>)"
    "ok (s0\<lparr>fs_device := d1\<rparr>)" "blk P (s0\<lparr>fs_device := d1\<rparr>) = (blk P s0)(?r := root_block_bytes P)"
    using write_data_ok [OF ok0 r(1) _ lroot] fresh(1) r(2) by auto
  let ?s1 = "s0\<lparr>fs_device := d1\<rparr>"
  have place: "inode_place (fs_sb ?s1) 2 = Some (table_block 2, table_offset 2)" "table_block 2 = 3"
    "table_offset 2 + inode_size \<le> block_size"
    using fresh(4) by (simp_all add: inode_place_def geometry_ok_def table_block_def table_offset_def u32_max_def
      inode_size_divides inode_size_def block_size_def)
  obtain d2 where d2: "write_inode_raw P 2 (root_dir ?r) ?s1 = Some (Inr (), ?s1\<lparr>fs_device := d2\<rparr>)"
    "ok (?s1\<lparr>fs_device := d2\<rparr>)" "inode_at P (?s1\<lparr>fs_device := d2\<rparr>) 2 = root_dir ?r"
    "\<forall>b. b \<noteq> table_block 2 \<longrightarrow> blk P (?s1\<lparr>fs_device := d2\<rparr>) b = blk P ?s1 b"
  proof (rule write_inode_raw_run [OF d1(2) _ root_dir_direct place(1) _ _ place(3), of ?r])
    show "3 \<le> table_block 2" "table_block 2 < unat (sb_block_count (fs_sb ?s1))"
      using place(2) r(1,2) fresh(1) by simp_all
  qed auto
  let ?s2 = "?s1\<lparr>fs_device := d2\<rparr>"
  obtain d3 where d3: "fs_flush P ?s2 = Some (Inr (), ?s2\<lparr>fs_device := d3, fs_sb_dirty := False, fs_bb_dirty := False, fs_ib_dirty := False\<rparr>)"
    "ok (?s2\<lparr>fs_device := d3, fs_sb_dirty := False, fs_bb_dirty := False, fs_ib_dirty := False\<rparr>)"
    "\<forall>b \<ge> 3. blk P (?s2\<lparr>fs_device := d3\<rparr>) b = blk P ?s2 b"
    using flush_open_run [OF d2(2)] by blast
  let ?s = "?s2\<lparr>fs_device := d3, fs_sb_dirty := False, fs_bb_dirty := False, fs_ib_dirty := False\<rparr>"
  have b3: "blk P ?s b = blk P ?s2 b" if "3 \<le> b" for b
    using d3(3) that blk_cong [of ?s "?s2\<lparr>fs_device := d3\<rparr>" P] by simp
  have sat: "saturating_add (min (ic * inode_size) usize_max) (block_size - 1) = ic * inode_size + (block_size - 1)"
    using assms(3) by (simp add: format_ok_def saturating_add_def usize_max_def block_size_def inode_size_def)
  have "fs_format P d bc ic = Some (Inr ?s)"
  proof -
    have bounds: "\<not> bc > u32_max" "\<not> ic > u32_max" "\<not> (bc = 0 \<or> bc > block_size * 8)"
      "\<not> (ic = 0 \<or> ic > block_size * 8)" "\<not> bc \<le> ?r"
      using assms(3) r(2) by (simp_all add: format_ok_def u32_max_def block_size_def)
    show ?thesis
      unfolding fs_format_def sat Let_def s0_def [symmetric] r(3) [symmetric] if_not_P [OF bounds(1)]
        if_not_P [OF bounds(2)] if_not_P [OF bounds(3)] if_not_P [OF bounds(4)] if_not_P [OF bounds(5)]
      using w1 w2 d1(1) d2(1) d3(1) by (simp add: op_simps)
  qed
  moreover have "inode_at P ?s 2 = root_dir ?r"
    unfolding d2(3) [symmetric] by (intro inode_at_cong b3) (simp add: place(2))
  moreover have "0 < (ic * inode_size + (block_size - 1)) div block_size"
    using assms(3) by (intro div_greater_zero_iff [THEN iffD2]) (simp add: format_ok_def inode_size_def block_size_def)
  then have data: "blk P ?s b = ((blk P s0)(?r := root_block_bytes P)) b" if "?r \<le> b" for b
    using that b3 [of b] d2(4) d1(3) place(2) r(3) by simp
  have old: "blk P (?s\<lparr>fs_device := d\<rparr>) = blk P s0" using fresh(5) by (intro blk_cong) simp
  have "blk P ?s ?r = root_block_bytes P" "\<forall>b > ?r. blk P ?s b = blk P (?s\<lparr>fs_device := d\<rparr>) b"
    using data unfolding old by simp_all
  moreover have "unat (sb_block_count (fs_sb ?s)) = bc" "unat (sb_inode_count (fs_sb ?s)) = ic"
    "sb_root_inode (fs_sb ?s) = 2" "sb_name_head (fs_sb ?s) = 0" "sb_name_tail (fs_sb ?s) = 0" "fs_used ?s = (\<lambda>b. b \<le> ?r)"
    "fs_inode_bitmap ?s = bm_set_used 2 (bm_set_used 1 (bm_set_used 0 bm_new))"
    using fresh(1,2,8) by (simp_all add: fs_used_def s0_def fresh_fs_def Let_def)
  ultimately show thesis using that d3(2) by blast
qed

end

section \<open>Blocks in use\<close>

text \<open>A data block that the bitmap marks used.\<close>

definition owned :: "'d disk_fs \<Rightarrow> nat \<Rightarrow> bool" where
  "owned s b \<longleftrightarrow> first_data (fs_sb s) \<le> b \<and> b < unat (sb_block_count (fs_sb s)) \<and> fs_used s b"

lemma owned_mono:
  "owned s b \<Longrightarrow> sb_geom (fs_sb t) = sb_geom (fs_sb s) \<Longrightarrow> (\<And>c. fs_used s c \<Longrightarrow> fs_used t c) \<Longrightarrow> owned t b"
  by (auto simp: owned_def dest: sb_geom_eqD)

context fs_on_device
begin

lemma owned_read:
  assumes "ok s" "owned s b"
  shows "fs_read_block P b s = Some (Inr (blk P s b), s)" "length (blk P s b) = block_size" "3 \<le> b"
    "b < unat (sb_block_count (fs_sb s))"
  using read_data_ok [OF assms(1)] assms(2) by (auto simp: owned_def first_data_def)

lemma free_block_ok:
  assumes "ok s" "first_data (fs_sb s) \<le> unat b" "unat b < unat (sb_block_count (fs_sb s))"
  obtains t where "free_block b s = Some (Inr (), t)" "ok t" "fs_used t = (fs_used s)(unat b := False)"
    "fs_device t = fs_device s" "sb_geom (fs_sb t) = sb_geom (fs_sb s)"
proof -
  let ?s1 = "s\<lparr>fs_block_bitmap := bm_set_free (unat b) (fs_block_bitmap s), fs_bb_dirty := True\<rparr>"
  let ?t = "if b < sb_first_free_block (fs_sb s)
    then ?s1\<lparr>fs_sb := (fs_sb s)\<lparr>sb_first_free_block := b\<rparr>, fs_sb_dirty := True\<rparr> else ?s1"
  have run: "free_block b s = Some (Inr (), ?t)"
    using assms(3) by (simp add: free_block_def Let_def word_le_nat_alt)
  have geom: "sb_geom (fs_sb ?t) = sb_geom (fs_sb s)" by simp
  have dev: "fs_device ?t = fs_device s" by simp
  have used: "fs_used ?t = (fs_used s)(unat b := False)" by (simp add: fs_used_def bm_set_free_eq)
  have "ok ?t"
    using assms sb_geom_eqD(1-3) [OF geom] used blk_cong [OF dev, of P]
    by (cases "b < sb_first_free_block (fs_sb s)") (auto simp: fs_ok_def synced_def fs_used_def)
  with run used dev geom show thesis by (intro that [of ?t])
qed

end

section \<open>Properties of the core\<close>

abbreviation mem_read_inode :: "bool \<Rightarrow> u32 \<Rightarrow> (memory_disk, inode) fs_op" where
  "mem_read_inode ifma \<equiv> read_inode (mem_platform ifma)"

lemma demo_format:
  obtains d s where "md_new (\<lambda>_. True) 64 = Inr d" "md_inv d" "md_block_count d = 64"
    "fs_format (mem_platform False) d 64 32 = Some (Inr s)" "mem_ok False s"
    "unat (sb_block_count (fs_sb s)) = 64" "unat (sb_inode_count (fs_sb s)) = 32" "first_data (fs_sb s) = 4"
    "fs_used s = (\<lambda>b. b \<le> 4)" "inode_at (mem_platform False) s 2 = root_dir 4"
    "\<forall>b > 4. b < 64 \<longrightarrow> blk (mem_platform False) s b = replicate block_size 0"
    "sb_name_head (fs_sb s) = 0" "sb_name_tail (fs_sb s) = 0"
proof -
  let ?d = "\<lparr>md_blocks = replicate (64 * block_size) 0\<rparr>"
  have new: "md_new (\<lambda>_. True) 64 = Inr ?d"
    by (simp add: md_new_def max_blocks_def block_size_def usize_max_def)
  have cnt: "md_block_count ?d = 64" by (simp add: md_block_count_def)
  then have inv: "md_inv ?d" by (simp add: md_inv_def max_blocks_def block_size_def)
  have fd: "format_data 32 = 4" by (simp add: format_data_def inode_size_def block_size_def)
  have "format_ok 64 32" by (simp add: format_ok_def fd block_size_def)
  then obtain s where s: "fs_format (mem_platform False) ?d 64 32 = Some (Inr s)" "mem_ok False s"
    "unat (sb_block_count (fs_sb s)) = 64" "unat (sb_inode_count (fs_sb s)) = 32"
    "fs_used s = (\<lambda>b. b \<le> 4)" "inode_at (mem_platform False) s 2 = root_dir 4"
    "\<forall>b > 4. blk (mem_platform False) s b = blk (mem_platform False) (s\<lparr>fs_device := ?d\<rparr>) b"
    "sb_name_head (fs_sb s) = 0" "sb_name_tail (fs_sb s) = 0"
    using mem_fs.format_run [OF inv, of 64 32 False] cnt fd by auto
  have "md_read ?d b = Some (Inr (replicate block_size 0))" if "b < 64" for b
  proof -
    have "b * block_size + block_size \<le> 64 * block_size" using md_offset_ok(2) [OF inv, of b] that cnt by simp
    then have "min block_size (64 * block_size - b * block_size) = block_size" by linarith
    then show ?thesis using md_read_eq [OF inv, of b] that cnt by simp
  qed
  then have "\<forall>b > 4. b < 64 \<longrightarrow> blk (mem_platform False) s b = replicate block_size 0"
    using s(7) by (simp add: blk_def mem_platform_def)
  moreover have "first_data (fs_sb s) = 4"
    using s(4) fd by (simp add: first_data_def table_blocks_def format_data_def)
  ultimately show thesis using that new inv cnt s(1-6,8,9) by blast
qed

theorem format_correct:
  assumes "md_inv d" "bc \<le> md_block_count d" "format_ok bc ic"
  shows "\<exists>s. fs_format (mem_platform ifma) d bc ic = Some (Inr s) \<and> mem_ok ifma s \<and>
    (\<forall>b. fs_used s b \<longleftrightarrow> b \<le> format_data ic) \<and>
    blk (mem_platform ifma) s (format_data ic) = root_block_bytes (mem_platform ifma) \<and>
    mem_read_inode ifma 2 s = Some (if 2 \<le> ic then Inr (root_dir (format_data ic)) else Inl (NotFound ''inode''), s)"
proof -
  obtain s where s: "fs_format (mem_platform ifma) d bc ic = Some (Inr s)" "mem_ok ifma s"
    "unat (sb_inode_count (fs_sb s)) = ic" "fs_used s = (\<lambda>b. b \<le> format_data ic)"
    "inode_at (mem_platform ifma) s 2 = root_dir (format_data ic)"
    "blk (mem_platform ifma) s (format_data ic) = root_block_bytes (mem_platform ifma)"
    using mem_fs.format_run [OF assms] by metis
  have le: "(2::u32) \<le> sb_inode_count (fs_sb s) \<longleftrightarrow> 2 \<le> ic" using s(3) by (simp add: word_le_nat_alt)
  have "mem_read_inode ifma 2 s = Some (if 2 \<le> ic then Inr (root_dir (format_data ic)) else Inl (NotFound ''inode''), s)"
  proof (cases "2 \<le> ic")
    case True
    then show ?thesis using mem_fs.read_inode_run [OF s(2), of 2] le s(5) by (simp add: valid_inode_def)
  next
    case False
    then show ?thesis using le by (simp add: read_inode_def not_le)
  qed
  with s show ?thesis by auto
qed

theorem format_correct_witness:
  "\<exists>d s. md_new (\<lambda>_. True) 64 = Inr d \<and> fs_format (mem_platform False) d 64 32 = Some (Inr s) \<and>
     mem_read_inode False 2 s = Some (Inr (root_dir 4), s)"
proof -
  obtain d where d: "md_new (\<lambda>_. True) 64 = Inr d" "md_inv d" "md_block_count d = 64" by (rule demo_format)
  have fd: "format_data 32 = 4" by (simp add: format_data_def inode_size_def block_size_def)
  have "format_ok 64 32" by (simp add: format_ok_def fd block_size_def)
  with format_correct [OF d(2), of 64 32 False] d(1,3) fd show ?thesis by auto
qed

text \<open>
  C10: Flushing writes all dirty metadata: opening the device afterwards gives the very file
  system that was flushed, with no data block changed.
\<close>

theorem flush_then_open:
  assumes "mem_ok ifma s"
  shows "\<exists>t. fs_flush (mem_platform ifma) s = Some (Inr (), t) \<and> fs_open (mem_platform ifma) (fs_device t) = Some (Inr t) \<and>
    into_device (mem_platform ifma) s = Some (fs_device t) \<and>
    t = s\<lparr>fs_device := fs_device t, fs_sb_dirty := False, fs_bb_dirty := False, fs_ib_dirty := False\<rparr> \<and>
    (\<forall>b \<ge> 3. blk (mem_platform ifma) t b = blk (mem_platform ifma) s b)"
proof -
  let ?P = "mem_platform ifma"
  obtain d where d: "fs_flush ?P s = Some (Inr (), s\<lparr>fs_device := d, fs_sb_dirty := False, fs_bb_dirty := False, fs_ib_dirty := False\<rparr>)"
    "fs_open ?P d = Some (Inr (s\<lparr>fs_device := d, fs_sb_dirty := False, fs_bb_dirty := False, fs_ib_dirty := False\<rparr>))"
    "\<forall>b \<ge> 3. blk ?P (s\<lparr>fs_device := d\<rparr>) b = blk ?P s b"
    using mem_fs.flush_open_run [OF assms] by metis
  let ?t = "s\<lparr>fs_device := d, fs_sb_dirty := False, fs_bb_dirty := False, fs_ib_dirty := False\<rparr>"
  have "blk ?P ?t = blk ?P (s\<lparr>fs_device := d\<rparr>)" by (rule blk_cong) simp
  with d show ?thesis by (intro exI [of _ ?t]) (simp add: into_device_def)
qed

theorem flush_then_open_witness:
  "\<exists>d s t. md_new (\<lambda>_. True) 64 = Inr d \<and> fs_format (mem_platform False) d 64 32 = Some (Inr s) \<and>
     fs_flush (mem_platform False) s = Some (Inr (), t) \<and> fs_open (mem_platform False) (fs_device t) = Some (Inr t)"
proof -
  obtain d s where "md_new (\<lambda>_. True) 64 = Inr d" "fs_format (mem_platform False) d 64 32 = Some (Inr s)" "mem_ok False s"
    by (rule demo_format)
  with flush_then_open [of False s] show ?thesis by blast
qed

theorem write_inode_read_inode:
  assumes "mem_ok ifma s" "valid_inode s n" "length (i_direct v) = direct_count"
  shows "\<exists>t. write_inode (mem_platform ifma) n v s = Some (Inr (), t) \<and> mem_ok ifma t \<and>
    mem_read_inode ifma n t = Some (Inr v, t) \<and>
    (\<forall>m. valid_inode s m \<longrightarrow> m \<noteq> n \<longrightarrow> map_option fst (mem_read_inode ifma m t) = map_option fst (mem_read_inode ifma m s)) \<and>
    (\<forall>b \<ge> first_data (fs_sb s). blk (mem_platform ifma) t b = blk (mem_platform ifma) s b)"
proof -
  let ?P = "mem_platform ifma"
  obtain d where d: "write_inode ?P n v s = Some (Inr (), s\<lparr>fs_device := d\<rparr>)" "mem_ok ifma (s\<lparr>fs_device := d\<rparr>)"
    "inode_at ?P (s\<lparr>fs_device := d\<rparr>) n = v"
    "\<forall>m. m \<noteq> 0 \<longrightarrow> m \<noteq> n \<longrightarrow> inode_at ?P (s\<lparr>fs_device := d\<rparr>) m = inode_at ?P s m"
    "\<forall>b. b \<noteq> table_block n \<longrightarrow> blk ?P (s\<lparr>fs_device := d\<rparr>) b = blk ?P s b"
    using mem_fs.write_inode_run [OF assms] by metis
  let ?t = "s\<lparr>fs_device := d\<rparr>"
  have valid: "valid_inode ?t m \<longleftrightarrow> valid_inode s m" for m by (simp add: valid_inode_def)
  have rd: "mem_read_inode ifma m ?t = Some (Inr (inode_at ?P ?t m), ?t)" if "valid_inode s m" for m
    using mem_fs.read_inode_run [OF d(2)] that valid by blast
  moreover have "map_option fst (mem_read_inode ifma m ?t) = map_option fst (mem_read_inode ifma m s)"
    if "valid_inode s m" "m \<noteq> n" for m
    using rd [OF that(1)] mem_fs.read_inode_run [OF assms(1) that(1)] d(4) that by (simp add: valid_inode_def)
  moreover have "blk ?P ?t b = blk ?P s b" if "first_data (fs_sb s) \<le> b" for b
    using d(5) mem_fs.table_place(3) [OF assms(1,2)] that by simp
  ultimately show ?thesis using d(1-3) assms(2) by (intro exI [of _ ?t]) simp
qed

theorem write_inode_read_inode_witness:
  "\<exists>d s t. md_new (\<lambda>_. True) 64 = Inr d \<and> fs_format (mem_platform False) d 64 32 = Some (Inr s) \<and>
     write_inode (mem_platform False) 3 inode_regular s = Some (Inr (), t) \<and>
     mem_read_inode False 3 t = Some (Inr inode_regular, t) \<and>
     map_option fst (mem_read_inode False 2 t) = Some (Inr (root_dir 4))"
proof -
  obtain d s where ds: "md_new (\<lambda>_. True) 64 = Inr d" "fs_format (mem_platform False) d 64 32 = Some (Inr s)" "mem_ok False s"
    "unat (sb_inode_count (fs_sb s)) = 32" "inode_at (mem_platform False) s 2 = root_dir 4"
    by (rule demo_format)
  have v: "valid_inode s 3" "valid_inode s 2" using ds(4) by (simp_all add: valid_inode_def word_le_nat_alt)
  have len: "length (i_direct inode_regular) = direct_count" by (simp add: inode_regular_def with_mode_def)
  show ?thesis
    using write_inode_read_inode [OF ds(3) v(1) len] ds v(2) mem_fs.read_inode_run [OF ds(3) v(2)] by fastforce
qed

theorem alloc_block_correct:
  assumes "mem_ok ifma s"
  shows "if \<forall>b < unat (sb_block_count (fs_sb s)). fs_used s b
    then alloc_block s = Some (Inl (DiskFull 0), s)
    else \<exists>b t u. alloc_block s = Some (Inr b, t) \<and> mem_ok ifma t \<and> first_data (fs_sb s) \<le> unat b \<and>
      b < sb_block_count (fs_sb s) \<and> \<not> fs_used s (unat b) \<and> (\<forall>c < unat b. fs_used s c) \<and>
      fs_used t = (fs_used s)(unat b := True) \<and>
      fs_device t = fs_device s \<and> free_block b t = Some (Inr (), u) \<and> mem_ok ifma u \<and> fs_used u = fs_used s"
proof (cases rule: mem_fs.alloc_block_ok [OF assms])
  case 1
  then show ?thesis by simp
next
  case (2 b t)
  note geom = sb_geom_eqD [OF 2(10)]
  obtain u where u: "free_block (word_of_nat b) t = Some (Inr (), u)" "mem_ok ifma u" "fs_used u = (fs_used t)(b := False)"
    using mem_fs.free_block_ok [OF 2(2), of "word_of_nat b"] 2(3-5) geom by auto
  moreover have "fs_used u = fs_used s" using u(3) 2(6,8) by (simp add: fun_eq_iff)
  moreover have "(word_of_nat b :: u32) < sb_block_count (fs_sb s)" using 2(4,5) by (simp add: word_less_nat_alt)
  moreover have "\<not> (\<forall>b < unat (sb_block_count (fs_sb s)). fs_used s b)" using 2(4,6) by blast
  ultimately show ?thesis using 2 by auto
qed

theorem alloc_block_correct_witness:
  "\<exists>d s t. md_new (\<lambda>_. True) 64 = Inr d \<and> fs_format (mem_platform False) d 64 32 = Some (Inr s) \<and>
     alloc_block s = Some (Inr (5::u32), t)"
proof -
  obtain d s where ds: "md_new (\<lambda>_. True) 64 = Inr d" "fs_format (mem_platform False) d 64 32 = Some (Inr s)" "mem_ok False s"
    "unat (sb_block_count (fs_sb s)) = 64" "fs_used s = (\<lambda>b. b \<le> 4)"
    by (rule demo_format)
  have "\<not> (\<forall>b < unat (sb_block_count (fs_sb s)). fs_used s b)" using ds(4,5) by (auto intro!: exI [of _ 5])
  with alloc_block_correct [OF ds(3)] obtain b t where
    bt: "alloc_block s = Some (Inr b, t)" "\<not> fs_used s (unat b)" "\<forall>c < unat b. fs_used s c" by auto
  have "\<not> 5 < unat b" using bt(3) [rule_format, of 5] ds(5) by auto
  then have "b = 5" using bt(2) ds(5) by (simp add: word_unat_eq_iff)
  with bt(1) ds(1,2) show ?thesis by blast
qed

end
