(* ===== verification/Fs_Names.thy ===== *)
theory Fs_Names
  imports Disk_Fs_Core
begin

text \<open>
  The pool of long names (\<open>crates/wredit/src/fs.rs\<close>: \<open>pool_record\<close> to \<open>intern_name\<close>): a chain of blocks,
  each with a header (next block, bytes used) and records of original length, stored length, hash,
  flags and the stored, possibly compressed, name.
\<close>

section \<open>Records\<close>

definition pool_block_header :: nat where "pool_block_header = 6"
definition pool_next_offset :: nat where "pool_next_offset = 0"
definition pool_used_offset :: nat where "pool_used_offset = 4"
definition pool_record_header :: nat where "pool_record_header = 9"
definition pool_orig_len_offset :: nat where "pool_orig_len_offset = 0"
definition pool_stored_len_offset :: nat where "pool_stored_len_offset = 2"
definition pool_hash_offset :: nat where "pool_hash_offset = 4"
definition pool_flags_offset :: nat where "pool_flags_offset = 8"
definition pool_flag_compressed :: u8 where "pool_flag_compressed = 1"

lemmas pool_consts = pool_block_header_def pool_next_offset_def pool_used_offset_def pool_record_header_def
  pool_orig_len_offset_def pool_stored_len_offset_def pool_hash_offset_def pool_flags_offset_def

definition pool_record :: "u8 list \<Rightarrow> usize \<Rightarrow> wredit_error + (usize \<times> u8 \<times> u8 list)" where
  "pool_record block offset =
     (case checked_add offset pool_record_header of
        None \<Rightarrow> Inl (CorruptImage ''name pool record'')
      | Some header_end \<Rightarrow>
          if header_end > length block then Inl (CorruptImage ''name pool record header'')
          else
            let orig_len = unat (read_u16 block (offset + pool_orig_len_offset));
                stored_len = unat (read_u16 block (offset + pool_stored_len_offset));
                flags = block ! (offset + pool_flags_offset) in
            (case checked_add header_end stored_len of
               None \<Rightarrow> Inl (CorruptImage ''name pool record'')
             | Some end \<Rightarrow>
                 if end > length block then Inl (CorruptImage ''name pool record bytes'')
                 else Inr (orig_len, flags, take stored_len (drop header_end block))))"

definition pool_record_eq :: "u8 list \<Rightarrow> usize \<Rightarrow> u8 list \<Rightarrow> wredit_error + bool" where
  "pool_record_eq block offset name =
     (case pool_record block offset of
        Inl e \<Rightarrow> Inl e
      | Inr (orig_len, flags, stored) \<Rightarrow>
          if orig_len \<noteq> length name then Inr False
          else if flags AND pool_flag_compressed \<noteq> 0 then Inr (decompress stored = Some name)
          else Inr (stored = name))"

text \<open>The six writes into the block; inside the checked bound none of them leaves it.\<close>

definition write_pool_record :: "(u8 list \<Rightarrow> u32) \<Rightarrow> u8 list \<Rightarrow> usize \<Rightarrow> u8 list \<Rightarrow> u8 list \<Rightarrow> bool \<Rightarrow> wredit_error + u8 list" where
  "write_pool_record hash block offset name stored compressed =
     (case checked_add pool_record_header (length stored) of
        None \<Rightarrow> Inl (LimitExceeded ''name pool record'')
      | Some total_len \<Rightarrow>
          (case checked_add offset total_len of
             None \<Rightarrow> Inl (LimitExceeded ''name pool record'')
           | Some end \<Rightarrow>
               if end > length block then Inl (LimitExceeded ''name pool record'')
               else Inr (foldl (\<lambda>out field. poke field out) block
                 [(offset + pool_orig_len_offset, to_le_bytes (word_of_nat (length name) :: u16)),
                  (offset + pool_stored_len_offset, to_le_bytes (word_of_nat (length stored) :: u16)),
                  (offset + pool_hash_offset, to_le_bytes (hash name)),
                  (offset + pool_flags_offset, [if compressed then pool_flag_compressed else 0]),
                  (offset + pool_record_header, stored)])))"

section \<open>Searching and reading\<close>

text \<open>The records of one block, from \<open>offset\<close> on: the offset of the record that holds \<open>name\<close>.\<close>

function pool_scan :: "u8 list \<Rightarrow> usize \<Rightarrow> u8 list \<Rightarrow> u32 \<Rightarrow> usize \<Rightarrow> wredit_error + usize option" where
  "pool_scan block_buf used name wanted_hash offset =
     (if offset + pool_record_header \<le> used then
        let orig_len = unat (read_u16 block_buf (offset + pool_orig_len_offset)) in
        if orig_len = 0 then Inr None
        else
          let stored_len = unat (read_u16 block_buf (offset + pool_stored_len_offset));
              next = offset + (pool_record_header + stored_len) in
          if orig_len = length name \<and> read_u32 block_buf (offset + pool_hash_offset) = wanted_hash then
            (case pool_record_eq block_buf offset name of
               Inl e \<Rightarrow> Inl e
             | Inr found \<Rightarrow> if found then Inr (Some offset) else pool_scan block_buf used name wanted_hash next)
          else pool_scan block_buf used name wanted_hash next
      else Inr None)"
  by pat_completeness auto
termination
  by (relation "measure (\<lambda>(block_buf, used, name, wanted_hash, offset). Suc used - offset)")
    (auto simp: pool_record_header_def)

declare pool_scan.simps [simp del]

text \<open>
  The chain of pool blocks. On a corrupt image the links can form a cycle and the loop of the source
  does not end: the function is partial, and undefined there.
\<close>

partial_function (option) find_pool_loop ::
    "'d platform \<Rightarrow> 'd disk_fs \<Rightarrow> u8 list \<Rightarrow> u32 \<Rightarrow> u32 \<Rightarrow> (wredit_error + (u32 \<times> u16) option) option" where
  [code]: "find_pool_loop P s name wanted_hash block =
     (if block = 0 then Some (Inr None)
      else case dev_read P (fs_device s) (unat block) of
          None \<Rightarrow> None
        | Some (Inl e) \<Rightarrow> Some (Inl e)
        | Some (Inr block_buf) \<Rightarrow>
            (let used = min (unat (read_u16 block_buf pool_used_offset)) block_size in
             case pool_scan block_buf used name wanted_hash pool_block_header of
               Inl e \<Rightarrow> Some (Inl e)
             | Inr (Some offset) \<Rightarrow> Some (Inr (Some (block, word_of_nat offset)))
             | Inr None \<Rightarrow> find_pool_loop P s name wanted_hash (read_u32 block_buf pool_next_offset)))"

definition find_pool_record :: "'d platform \<Rightarrow> u8 list \<Rightarrow> u32 \<Rightarrow> ('d, (u32 \<times> u16) option) fs_op" where
  "find_pool_record P name wanted_hash s =
     map_option (\<lambda>r. (r, s)) (find_pool_loop P s name wanted_hash (sb_name_head (fs_sb s)))"

definition read_pool_name :: "'d platform \<Rightarrow> u32 \<Rightarrow> u16 \<Rightarrow> ('d, u8 list) fs_op" where
  "read_pool_name P block off =
     op_bind (fs_read_block P (unat block)) (\<lambda>block_buf.
     op_bind (op_result (pool_record block_buf (unat off))) (\<lambda>(orig_len, flags, stored).
     op_bind (if flags AND pool_flag_compressed \<noteq> 0
              then (case decompress stored of
                      None \<Rightarrow> op_fail (CorruptImage ''compressed name'')
                    | Some name \<Rightarrow> op_return name)
              else op_return stored) (\<lambda>name.
     if length name \<noteq> orig_len then op_fail (CorruptImage ''name length mismatch'')
     else op_return name)))"

section \<open>Interning\<close>

text \<open>A new record in a new block, linked from the old tail; \<open>block_buf\<close> still holds the tail block.\<close>

definition append_pool_block :: "'d platform \<Rightarrow> u8 list \<Rightarrow> u8 list \<Rightarrow> bool \<Rightarrow> u32 \<Rightarrow> u8 list \<Rightarrow> ('d, u32 \<times> u16) fs_op" where
  "append_pool_block P name stored compressed tail block_buf =
     op_bind alloc_block (\<lambda>block.
     op_bind (if tail \<noteq> 0 then
         op_bind (op_option (mem_write block_buf pool_next_offset (to_le_bytes block))) (\<lambda>block_buf.
         fs_write_block P (unat tail) block_buf)
       else op_return ()) (\<lambda>_.
     op_bind (op_result (write_pool_record (name_hash P) (replicate block_size 0) pool_block_header name stored compressed)) (\<lambda>block_buf.
     op_bind (op_option (mem_write block_buf pool_used_offset
         (to_le_bytes (word_of_nat (pool_block_header + (pool_record_header + length stored)) :: u16)))) (\<lambda>block_buf.
     op_bind (fs_write_block P (unat block) block_buf) (\<lambda>_.
     op_bind (op_modify (\<lambda>s. s\<lparr>fs_sb := (fs_sb s)\<lparr>sb_name_tail := block,
         sb_name_head := (if sb_name_head (fs_sb s) = 0 then block else sb_name_head (fs_sb s))\<rparr>, fs_sb_dirty := True\<rparr>)) (\<lambda>_.
     op_return (block, word_of_nat pool_block_header)))))))"

definition intern_name :: "'d platform \<Rightarrow> u8 list \<Rightarrow> ('d, u32 \<times> u16) fs_op" where
  "intern_name P name =
     (let packed = compress name; compressed = length packed < length name;
          stored = (if compressed then packed else name); wanted_hash = name_hash P name;
          total_len = pool_record_header + length stored in
      op_bind (find_pool_record P name wanted_hash) (\<lambda>found.
      case found of
        Some location \<Rightarrow> op_return location
      | None \<Rightarrow>
          op_bind (op_get (\<lambda>s. sb_name_tail (fs_sb s))) (\<lambda>tail.
          if tail \<noteq> 0 then
            op_bind (fs_read_block P (unat tail)) (\<lambda>block_buf.
            let used = unat (read_u16 block_buf pool_used_offset) in
            if (case checked_add used total_len of None \<Rightarrow> False | Some end \<Rightarrow> end \<le> block_size) then
              op_bind (op_result (write_pool_record (name_hash P) block_buf used name stored compressed)) (\<lambda>block_buf.
              op_bind (op_option (mem_write block_buf pool_used_offset (to_le_bytes (word_of_nat (used + total_len) :: u16)))) (\<lambda>block_buf.
              op_bind (fs_write_block P (unat tail) block_buf) (\<lambda>_.
              op_return (tail, word_of_nat used))))
            else append_pool_block P name stored compressed tail block_buf)
          else append_pool_block P name stored compressed tail (replicate block_size 0))))"

section \<open>Well-formed pool blocks\<close>

definition used_of :: "u8 list \<Rightarrow> nat" where
  "used_of bs = unat (read_u16 bs pool_used_offset)"

definition next_of :: "u8 list \<Rightarrow> u32" where
  "next_of bs = read_u32 bs pool_next_offset"

definition stored_len_at :: "u8 list \<Rightarrow> nat \<Rightarrow> nat" where
  "stored_len_at bs off = unat (read_u16 bs (off + pool_stored_len_offset))"

text \<open>
  Records from an offset up to the used bound, with the offset and the name of each: the name is not
  empty, the record compares equal to it and carries its hash.
\<close>

inductive recs_ok :: "(u8 list \<Rightarrow> u32) \<Rightarrow> u8 list \<Rightarrow> nat \<Rightarrow> nat \<Rightarrow> (nat \<times> u8 list) list \<Rightarrow> bool" for h bs used where
  recs_end: "recs_ok h bs used used []"
| recs_more: "off + (pool_record_header + stored_len_at bs off) \<le> used \<Longrightarrow> n \<noteq> [] \<Longrightarrow>
    pool_record_eq bs off n = Inr True \<Longrightarrow> read_u32 bs (off + pool_hash_offset) = h n \<Longrightarrow>
    recs_ok h bs used (off + (pool_record_header + stored_len_at bs off)) ns \<Longrightarrow> recs_ok h bs used off ((off, n) # ns)"

definition pool_block_ok :: "(u8 list \<Rightarrow> u32) \<Rightarrow> u8 list \<Rightarrow> (nat \<times> u8 list) list \<Rightarrow> bool" where
  "pool_block_ok h bs ns \<longleftrightarrow> length bs = block_size \<and> used_of bs \<le> block_size \<and> recs_ok h bs (used_of bs) pool_block_header ns"

lemma recs_ok_le: "recs_ok h bs used off ns \<Longrightarrow> off \<le> used"
  by (induction rule: recs_ok.induct) auto

lemma recs_ok_mem:
  "recs_ok h bs used off ns \<Longrightarrow> (o', n) \<in> set ns \<Longrightarrow> off \<le> o' \<and> o' < used \<and> n \<noteq> [] \<and> pool_record_eq bs o' n = Inr True"
proof (induction rule: recs_ok.induct)
  case (recs_more off m ns)
  then have "off < used" by (simp add: pool_record_header_def)
  with recs_more show ?case by auto
qed simp

text \<open>A record compares equal to one name only, whose length it carries.\<close>

lemma pool_record_eq_unique:
  assumes "pool_record_eq bs off n = Inr True"
  shows "unat (read_u16 bs (off + pool_orig_len_offset)) = length n" "pool_record_eq bs off m = Inr (m = n)"
  using assms
  by (auto simp: pool_record_eq_def pool_record_def Let_def split: sum.splits if_splits option.splits)

lemma pool_record_fits:
  assumes "off + (pool_record_header + stored_len_at bs off) \<le> length bs" "length bs = block_size"
  shows "pool_record bs off = Inr (unat (read_u16 bs (off + pool_orig_len_offset)), bs ! (off + pool_flags_offset),
    take (stored_len_at bs off) (drop (off + pool_record_header) bs))"
  using assms
  by (simp add: pool_record_def checked_add_def stored_len_at_def usize_max_def block_size_def Let_def add.assoc)

lemma pool_scan_eq:
  assumes "recs_ok h bs used off ns"
  shows "pool_scan bs used name (h name) off = Inr (map_option fst (find (\<lambda>(_, n). n = name) ns))"
  using assms
proof (induction rule: recs_ok.induct)
  case recs_end
  then show ?case by (simp add: pool_scan.simps pool_record_header_def)
next
  case (recs_more off n ns)
  note u = pool_record_eq_unique [OF recs_more(3)]
  have "pool_scan bs used name (h name) off = (if n = name then Inr (Some off)
      else pool_scan bs used name (h name) (off + (pool_record_header + stored_len_at bs off)))"
    using recs_more(1,2,4) u(1) u(2) [of name]
    by (subst pool_scan.simps) (auto simp: Let_def stored_len_at_def [symmetric])
  then show ?case using recs_more.IH by simp
qed

text \<open>A record that compares equal to a name reads back as that name.\<close>

lemma read_pool_name_eq:
  assumes "fs_read_block P (unat b) s = Some (Inr bs, s)" "pool_record_eq bs (unat off) name = Inr True"
  shows "read_pool_name P b off s = Some (Inr name, s)"
  using assms unfolding read_pool_name_def pool_record_eq_def
  by (auto simp: op_simps split: sum.splits if_splits option.splits)

section \<open>Writing a record\<close>

definition with_record :: "(u8 list \<Rightarrow> u32) \<Rightarrow> u8 list \<Rightarrow> nat \<Rightarrow> u8 list \<Rightarrow> u8 list \<Rightarrow> bool \<Rightarrow> u8 list" where
  "with_record hash bs off name stored compressed =
     foldl (\<lambda>out field. poke field out) bs
       [(off + pool_orig_len_offset, to_le_bytes (word_of_nat (length name) :: u16)),
        (off + pool_stored_len_offset, to_le_bytes (word_of_nat (length stored) :: u16)),
        (off + pool_hash_offset, to_le_bytes (hash name)),
        (off + pool_flags_offset, [if compressed then pool_flag_compressed else 0]),
        (off + pool_record_header, stored),
        (pool_used_offset, to_le_bytes (word_of_nat (off + (pool_record_header + length stored)) :: u16))]"

lemma mem_write_poke: "at + length ys \<le> length xs \<Longrightarrow> mem_write xs at ys = Some (poke (at, ys) xs)"
  by (simp add: mem_simps poke_def)

lemma write_record_run:
  assumes "off + (pool_record_header + length stored) \<le> length bs" "length bs = block_size"
  shows "op_bind (op_result (write_pool_record hash bs off name stored compressed)) (\<lambda>block_buf.
      op_bind (op_option (mem_write block_buf pool_used_offset
        (to_le_bytes (word_of_nat (off + (pool_record_header + length stored)) :: u16)))) f) s =
    f (with_record hash bs off name stored compressed) s"
proof -
  let ?fs = "[(off + pool_orig_len_offset, to_le_bytes (word_of_nat (length name) :: u16)),
    (off + pool_stored_len_offset, to_le_bytes (word_of_nat (length stored) :: u16)),
    (off + pool_hash_offset, to_le_bytes (hash name)),
    (off + pool_flags_offset, [if compressed then pool_flag_compressed else 0]), (off + pool_record_header, stored)]"
  have lay: "layout_fits (length bs) ?fs"
    using assms(1) by (simp add: layout_fits_def apart_def pool_consts)
  have len: "length (foldl (\<lambda>out field. poke field out) bs ?fs) = length bs"
    using encode_foldl [OF lay] by blast
  have "write_pool_record hash bs off name stored compressed = Inr (foldl (\<lambda>out field. poke field out) bs ?fs)"
    using assms by (simp add: write_pool_record_def checked_add_def usize_max_def block_size_def pool_record_header_def)
  moreover have "mem_write (foldl (\<lambda>out field. poke field out) bs ?fs) pool_used_offset
      (to_le_bytes (word_of_nat (off + (pool_record_header + length stored)) :: u16))
    = Some (with_record hash bs off name stored compressed)"
    unfolding with_record_def using len assms(2)
    by (subst mem_write_poke) (simp_all add: pool_used_offset_def block_size_def)
  ultimately show ?thesis by (simp add: op_simps)
qed

text \<open>The fields of a block after a record was written behind its used part.\<close>

lemma with_record_facts:
  assumes nb_def: "nb = with_record hash bs off name stored compressed"
    and fit: "off + (pool_record_header + length stored) \<le> block_size" "length bs = block_size" "pool_block_header \<le> off"
    and small: "length name < 2 ^ 16"
  shows "length nb = block_size" "used_of nb = off + (pool_record_header + length stored)"
    "unat (read_u16 nb (off + pool_orig_len_offset)) = length name" "stored_len_at nb off = length stored"
    "nb ! (off + pool_flags_offset) = (if compressed then pool_flag_compressed else 0)"
    "take (length stored) (drop (off + pool_record_header) nb) = stored"
    "\<And>q n. q + n \<le> off \<Longrightarrow> q + n \<le> pool_used_offset \<or> pool_block_header \<le> q \<Longrightarrow> peek nb q n = peek bs q n"
    "read_u32 nb (off + pool_hash_offset) = hash name"
proof -
  let ?fs = "[(off + pool_orig_len_offset, to_le_bytes (word_of_nat (length name) :: u16)),
    (off + pool_stored_len_offset, to_le_bytes (word_of_nat (length stored) :: u16)),
    (off + pool_hash_offset, to_le_bytes (hash name)),
    (off + pool_flags_offset, [if compressed then pool_flag_compressed else 0]), (off + pool_record_header, stored),
    (pool_used_offset, to_le_bytes (word_of_nat (off + (pool_record_header + length stored)) :: u16))]"
  have nb: "nb = foldl (\<lambda>out field. poke field out) bs ?fs" by (simp only: nb_def with_record_def)
  have lay: "layout_fits (length bs) ?fs"
    using fit by (simp add: layout_fits_def apart_def pool_consts block_size_def)
  note enc = encode_foldl [OF lay, folded nb]
  show len: "length nb = block_size" using enc fit(2) by simp
  have field: "peek nb (fst f) (length (snd f)) = snd f" if "f \<in> set ?fs" for f using enc that by blast
  have u16: "unat (word_of_nat k :: u16) = k" if "k \<le> block_size \<or> k < 2 ^ 16" for k
    using that by (auto simp: unsigned_of_nat take_bit_nat_eq_self_iff block_size_def)
  have r16: "read_u16 nb q = w" if "(q, to_le_bytes w) \<in> set ?fs" for q and w :: u16
    using field [OF that] by (simp add: read_u16_def from_to_le_bytes)
  show "used_of nb = off + (pool_record_header + length stored)"
  proof -
    have "read_u16 nb pool_used_offset = word_of_nat (off + (pool_record_header + length stored))"
      by (rule r16) (simp only: list.set insert_iff simp_thms)
    then show ?thesis unfolding used_of_def using u16 fit(1) by (simp del: of_nat_add)
  qed
  show "unat (read_u16 nb (off + pool_orig_len_offset)) = length name"
  proof -
    have "read_u16 nb (off + pool_orig_len_offset) = word_of_nat (length name)"
      by (rule r16) (simp only: list.set insert_iff simp_thms)
    then show ?thesis using u16 small by simp
  qed
  show "stored_len_at nb off = length stored"
  proof -
    have "read_u16 nb (off + pool_stored_len_offset) = word_of_nat (length stored)"
      by (rule r16) (simp only: list.set insert_iff simp_thms)
    then show ?thesis unfolding stored_len_at_def using u16 fit(1) by simp
  qed
  have "peek nb (off + pool_flags_offset) 1 = [if compressed then pool_flag_compressed else 0]"
    using field [of "(off + pool_flags_offset, [if compressed then pool_flag_compressed else 0])"] by simp
  moreover have "off + pool_flags_offset < length nb" using len fit(1) by (simp add: pool_consts)
  ultimately show "nb ! (off + pool_flags_offset) = (if compressed then pool_flag_compressed else 0)"
    by (simp add: peek_def take_Suc hd_drop_conv_nth)
  show "read_u32 nb (off + pool_hash_offset) = hash name"
    using field [of "(off + pool_hash_offset, to_le_bytes (hash name))"] by (simp add: read_u32_def from_to_le_bytes)
  show "take (length stored) (drop (off + pool_record_header) nb) = stored"
    using field [of "(off + pool_record_header, stored)"] by (simp add: peek_def)
  show "peek nb q n = peek bs q n" if "q + n \<le> off" "q + n \<le> pool_used_offset \<or> pool_block_header \<le> q" for q n
  proof -
    have "\<forall>f \<in> set ?fs. apart (q, replicate n 0) f" using that by (auto simp: apart_def pool_consts)
    moreover have "q + n \<le> length bs" using that(1) fit(1,2) by linarith
    ultimately show ?thesis using enc by blast
  qed
qed

text \<open>The new record holds the name.\<close>

lemma with_record_eq:
  assumes "off + (pool_record_header + length stored) \<le> block_size" "length bs = block_size" "pool_block_header \<le> off"
    "length name < 2 ^ 16" "if compressed then decompress stored = Some name else stored = name"
  shows "pool_record_eq (with_record hash bs off name stored compressed) off name = Inr True"
proof -
  let ?nb = "with_record hash bs off name stored compressed"
  note f = with_record_facts [OF refl assms(1-4), where hash = hash and compressed = compressed]
  have "pool_record ?nb off = Inr (length name, if compressed then pool_flag_compressed else 0, stored)"
    using pool_record_fits [of off ?nb] f assms(1) by simp
  then show ?thesis using assms(5) by (simp add: pool_record_eq_def pool_flag_compressed_def split: if_splits)
qed

text \<open>A record reads the same in a block that agrees with this one up to the end of the record.\<close>

lemma record_cong:
  assumes agree: "\<And>q n. q + n \<le> used \<Longrightarrow> pool_block_header \<le> q \<Longrightarrow> peek nb q n = peek bs q n"
    and len: "length nb = block_size" "length bs = block_size" "used \<le> block_size"
    and off: "pool_block_header \<le> off" "off + (pool_record_header + stored_len_at bs off) \<le> used"
  shows "stored_len_at nb off = stored_len_at bs off" "pool_record_eq nb off = pool_record_eq bs off"
    "read_u32 nb (off + pool_hash_offset) = read_u32 bs (off + pool_hash_offset)"
proof -
  have h: "off + 9 + stored_len_at bs off \<le> used" using off(2) by (simp add: pool_consts)
  show st: "stored_len_at nb off = stored_len_at bs off"
    using agree [of "off + pool_stored_len_offset" 2] h off(1) by (simp add: stored_len_at_def read_u16_def pool_consts)
  show "read_u32 nb (off + pool_hash_offset) = read_u32 bs (off + pool_hash_offset)"
    using agree [of "off + pool_hash_offset" 4] h off(1) by (simp add: read_u32_def pool_consts)
  have orig: "read_u16 nb (off + pool_orig_len_offset) = read_u16 bs (off + pool_orig_len_offset)"
    using agree [of "off + pool_orig_len_offset" 2] h off(1) by (simp add: read_u16_def pool_consts)
  have "peek nb (off + pool_flags_offset) 1 = peek bs (off + pool_flags_offset) 1"
    using agree h off(1) by (simp add: pool_consts)
  then have flags: "nb ! (off + pool_flags_offset) = bs ! (off + pool_flags_offset)"
    using h len by (simp add: peek_def take_Suc hd_drop_conv_nth pool_consts)
  have "peek nb (off + pool_record_header) (stored_len_at bs off) = peek bs (off + pool_record_header) (stored_len_at bs off)"
    using agree h off(1) by (simp add: pool_consts)
  then have "pool_record nb off = pool_record bs off"
    using pool_record_fits [of off nb] pool_record_fits [of off bs] len off(2) st orig flags by (simp add: peek_def)
  then show "pool_record_eq nb off = pool_record_eq bs off" by (simp add: fun_eq_iff pool_record_eq_def)
qed

lemma recs_ok_extend:
  assumes "recs_ok h bs used off ns" "pool_block_header \<le> off" "recs_ok h nb used' used ms"
    and agree: "\<And>q n. q + n \<le> used \<Longrightarrow> pool_block_header \<le> q \<Longrightarrow> peek nb q n = peek bs q n"
    and len: "length nb = block_size" "length bs = block_size" "used \<le> block_size" "used \<le> used'"
  shows "recs_ok h nb used' off (ns @ ms)"
  using assms(1,2)
proof (induction rule: recs_ok.induct)
  case recs_end
  then show ?case using assms(3) by simp
next
  case (recs_more off n ns)
  note same = record_cong [OF agree len(1-3) recs_more.prems recs_more(1)]
  show ?case unfolding append_Cons
    by (rule recs_ok.recs_more) (use recs_more same len(4) in auto)
qed

lemma recs_ok_new:
  assumes nb_def: "nb = with_record hash bs off name stored compressed"
    and fit: "off + (pool_record_header + length stored) \<le> block_size" "length bs = block_size" "pool_block_header \<le> off"
    and name: "length name < 2 ^ 16" "name \<noteq> []" "if compressed then decompress stored = Some name else stored = name"
  shows "recs_ok hash nb (used_of nb) off [(off, name)]"
proof -
  note f = with_record_facts [OF nb_def fit name(1)]
  have step: "off + (pool_record_header + stored_len_at nb off) = used_of nb" unfolding f(2,4) ..
  have "pool_record_eq nb off name = Inr True" unfolding nb_def by (rule with_record_eq [OF fit name(1,3)])
  then show ?thesis
    using name(2) f(8) step by (intro recs_ok.recs_more) (simp_all add: recs_ok.recs_end)
qed

lemma pool_block_extend:
  assumes "pool_block_ok hash bs ns" "used_of bs + (pool_record_header + length stored) \<le> block_size" "name \<noteq> []" "length name < 2 ^ 16"
    "if compressed then decompress stored = Some name else stored = name"
  shows "pool_block_ok hash (with_record hash bs (used_of bs) name stored compressed) (ns @ [(used_of bs, name)])"
    "next_of (with_record hash bs (used_of bs) name stored compressed) = next_of bs"
proof -
  let ?nb = "with_record hash bs (used_of bs) name stored compressed" and ?u = "used_of bs"
  have rec: "recs_ok hash bs ?u pool_block_header ns" and len: "length bs = block_size" and u: "?u \<le> block_size"
    using assms(1) by (simp_all add: pool_block_ok_def)
  have hdr: "pool_block_header \<le> ?u" using rec by (rule recs_ok_le)
  note f = with_record_facts [OF refl assms(2) len hdr assms(4), where hash = hash and compressed = compressed]
  have "recs_ok hash ?nb (used_of ?nb) pool_block_header (ns @ [(?u, name)])"
  proof (rule recs_ok_extend [OF rec order_refl _ _ f(1) len u])
    show "recs_ok hash ?nb (used_of ?nb) ?u [(?u, name)]"
      by (rule recs_ok_new [OF refl assms(2) len hdr assms(4,3,5)])
    show "peek ?nb q n = peek bs q n" if "q + n \<le> ?u" "pool_block_header \<le> q" for q n using f(7) that by simp
    show "?u \<le> used_of ?nb" unfolding f(2) by simp
  qed
  then show "pool_block_ok hash ?nb (ns @ [(?u, name)])" using f(1,2) assms(2) by (simp add: pool_block_ok_def)
  show "next_of ?nb = next_of bs"
    using f(7) [of pool_next_offset 4] hdr by (simp add: next_of_def read_u32_def pool_consts)
qed

end
