(* ===== verification/Fs_Intern.thy ===== *)
theory Fs_Intern
  imports Fs_Names
begin

text \<open>
  The chain of pool blocks and the interning of names. A well-formed pool represents a finite map from
  places to names; on it the search ends, an interned name is found again, and interning adds one
  place for a name that has none and keeps every other.
\<close>

section \<open>The chain\<close>

primrec pool_seg :: "'d platform \<Rightarrow> 'd disk_fs \<Rightarrow> u32 \<Rightarrow> nat list \<Rightarrow> u32 \<Rightarrow> bool" where
  "pool_seg P s b [] e \<longleftrightarrow> b = e"
| "pool_seg P s b (c # cs) e \<longleftrightarrow> b \<noteq> 0 \<and> unat b = c \<and> pool_seg P s (next_of (blk P s c)) cs e"

text \<open>The blocks \<open>cs\<close> of the pool, and the records \<open>f c\<close> of each.\<close>

definition pool_chain :: "'d platform \<Rightarrow> 'd disk_fs \<Rightarrow> nat list \<Rightarrow> (nat \<Rightarrow> (nat \<times> u8 list) list) \<Rightarrow> bool" where
  "pool_chain P s cs f \<longleftrightarrow> pool_seg P s (sb_name_head (fs_sb s)) cs 0 \<and> distinct cs \<and>
     (\<forall>c \<in> set cs. owned s c \<and> pool_block_ok (name_hash P) (blk P s c) (f c)) \<and>
     (if cs = [] then sb_name_tail (fs_sb s) = 0 else unat (sb_name_tail (fs_sb s)) = last cs)"

text \<open>The names in a pool: a map from places, a block and an offset, to names.\<close>

definition places :: "nat list \<Rightarrow> (nat \<Rightarrow> (nat \<times> u8 list) list) \<Rightarrow> (u32 \<times> u16 \<rightharpoonup> u8 list) \<Rightarrow> bool" where
  "places cs f M \<longleftrightarrow> (\<forall>b off n. M (b, off) = Some n \<longleftrightarrow> unat b \<in> set cs \<and> (unat off, n) \<in> set (f (unat b)))"

definition pool_rep :: "'d platform \<Rightarrow> 'd disk_fs \<Rightarrow> (u32 \<times> u16 \<rightharpoonup> u8 list) \<Rightarrow> bool" where
  "pool_rep P s M \<longleftrightarrow> (\<exists>cs f. pool_chain P s cs f \<and> places cs f M)"

lemma pool_seg_append: "pool_seg P s b (xs @ ys) e \<longleftrightarrow> (\<exists>m. pool_seg P s b xs m \<and> pool_seg P s m ys e)"
  by (induction xs arbitrary: b) auto

lemma pool_seg_cong:
  "(\<And>c. c \<in> set cs \<Longrightarrow> next_of (blk P t c) = next_of (blk P s c)) \<Longrightarrow> pool_seg P t b cs e = pool_seg P s b cs e"
  by (induction cs arbitrary: b) auto

text \<open>Linking a block to a new one changes its next field only.\<close>

lemma link_block:
  assumes "pool_block_ok h bs ns"
  shows "mem_write bs pool_next_offset (to_le_bytes (w :: u32)) = Some (poke (pool_next_offset, to_le_bytes w) bs)"
    "next_of (poke (pool_next_offset, to_le_bytes w) bs) = w" "pool_block_ok h (poke (pool_next_offset, to_le_bytes w) bs) ns"
proof -
  let ?f = "(pool_next_offset, to_le_bytes w)" let ?lb = "poke ?f bs" and ?u = "used_of bs"
  have len: "length bs = block_size" and u: "?u \<le> block_size" and rec: "recs_ok h bs ?u pool_block_header ns"
    using assms by (simp_all add: pool_block_ok_def)
  have fit: "fst ?f + length (snd ?f) \<le> length bs" using len by (simp add: pool_next_offset_def block_size_def)
  show "mem_write bs pool_next_offset (to_le_bytes w) = Some ?lb" using fit by (intro mem_write_poke) simp
  show "next_of ?lb = w" using peek_poke_same [OF fit] by (simp add: next_of_def read_u32_def from_to_le_bytes)
  have apart: "peek ?lb q n = peek bs q n" if "q + n \<le> length bs" "4 \<le> q" for q n
    using peek_poke_apart [OF fit that(1)] that(2) by (simp add: pool_next_offset_def)
  have used: "used_of ?lb = ?u"
    using apart [of pool_used_offset 2] len by (simp add: used_of_def read_u16_def pool_used_offset_def block_size_def)
  have "recs_ok h ?lb ?u pool_block_header (ns @ [])"
  proof (rule recs_ok_extend [OF rec order_refl recs_ok.recs_end _ _ len u order_refl])
    show "length ?lb = block_size" using len fit by simp
    show "peek ?lb q n = peek bs q n" if "q + n \<le> ?u" "pool_block_header \<le> q" for q n
      using apart [of q n] that u len by (simp add: pool_block_header_def)
  qed
  then show "pool_block_ok h ?lb ns" using used len u fit by (simp add: pool_block_ok_def)
qed

text \<open>The first record of a new block.\<close>

lemma first_record:
  assumes "length stored \<le> 255" "name \<noteq> []" "length name \<le> 255" "if compressed then decompress stored = Some name else stored = name"
  shows "pool_block_ok hash (with_record hash (replicate block_size 0) pool_block_header name stored compressed) [(pool_block_header, name)]"
    "next_of (with_record hash (replicate block_size 0) pool_block_header name stored compressed) = 0"
    "pool_block_header + (pool_record_header + length stored) \<le> block_size"
proof -
  let ?z = "replicate block_size (0::u8)" and ?h = pool_block_header
  let ?nb = "with_record hash ?z ?h name stored compressed"
  show fit: "?h + (pool_record_header + length stored) \<le> block_size"
    using assms(1) by (simp add: pool_consts block_size_def)
  have sm: "length name < 2 ^ 16" using assms(3) by simp
  note f = with_record_facts [OF refl fit length_replicate order_refl sm, where hash = hash and compressed = compressed]
  have "recs_ok hash ?nb (used_of ?nb) ?h [(?h, name)]"
    by (rule recs_ok_new [OF refl fit length_replicate order_refl sm assms(2,4)])
  moreover have "used_of ?nb \<le> block_size" unfolding f(2) by (rule fit)
  ultimately show "pool_block_ok hash ?nb [(?h, name)]" using f(1) by (simp add: pool_block_ok_def)
  have "peek ?nb pool_next_offset 4 = peek ?z pool_next_offset 4"
    by (rule f(7)) (simp_all add: pool_consts)
  then show "next_of ?nb = 0" using read_u32_zeros [of block_size pool_next_offset] by (simp add: next_of_def read_u32_def)
qed

text \<open>The records of a block lie behind its header and before its used bound.\<close>

lemma pool_block_mem:
  assumes "pool_block_ok h bs ns" "(o', n) \<in> set ns"
  shows "pool_block_header \<le> o'" "o' < used_of bs" "unat (word_of_nat o' :: u16) = o'" "pool_record_eq bs o' n = Inr True"
proof -
  have rec: "recs_ok h bs (used_of bs) pool_block_header ns" and u: "used_of bs \<le> block_size"
    using assms(1) by (simp_all add: pool_block_ok_def)
  show "pool_block_header \<le> o'" "o' < used_of bs" "pool_record_eq bs o' n = Inr True"
    using recs_ok_mem [OF rec assms(2)] by simp_all
  then show "unat (word_of_nat o' :: u16) = o'"
    using u by (simp add: unsigned_of_nat take_bit_nat_eq_self_iff block_size_def)
qed

lemma pool_used_u16: "pool_block_ok h bs ns \<Longrightarrow> unat (word_of_nat (used_of bs) :: u16) = used_of bs"
  by (simp add: pool_block_ok_def unsigned_of_nat take_bit_nat_eq_self_iff block_size_def)

text \<open>A record at a new place extends the map.\<close>

lemma places_new:
  assumes "places cs f M" "unat b \<in> set cs'" "set cs \<subseteq> set cs'" "\<And>c. c \<in> set cs' - set cs \<Longrightarrow> c = unat b"
    and "if unat b \<in> set cs then f' = f(unat b := f (unat b) @ [(unat off, name)]) else f' = f(unat b := [(unat off, name)])"
    and "\<And>n. unat b \<in> set cs \<Longrightarrow> (unat off, n) \<notin> set (f (unat b))"
  shows "M (b, off) = None" "places cs' f' (M((b, off) \<mapsto> name))"
proof -
  show none: "M (b, off) = None" using assms(1,6) unfolding places_def by (metis not_Some_eq)
  have "(unat b' \<in> set cs' \<and> (unat off', n) \<in> set (f' (unat b'))) \<longleftrightarrow>
      (unat b' \<in> set cs \<and> (unat off', n) \<in> set (f (unat b'))) \<or> b' = b \<and> off' = off \<and> n = name" for b' off' n
  proof (cases "b' = b")
    case True
    have "f' (unat b) = (if unat b \<in> set cs then f (unat b) @ [(unat off, name)] else [(unat off, name)])"
      using assms(5) by (cases "unat b \<in> set cs") simp_all
    with True assms(2) show ?thesis by (auto simp: word_unat_eq_iff [of off'])
  next
    case False
    then have ne: "unat b' \<noteq> unat b" by (simp add: word_unat_eq_iff)
    then have "f' (unat b') = f (unat b')" using assms(5) by (cases "unat b \<in> set cs") simp_all
    moreover have "unat b' \<in> set cs' \<longleftrightarrow> unat b' \<in> set cs" using assms(3,4) ne by blast
    ultimately show ?thesis using False by simp
  qed
  moreover have "(unat b' \<in> set cs \<and> (unat off', n) \<in> set (f (unat b'))) \<longleftrightarrow> M (b', off') = Some n" for b' off' n
    using assms(1) by (simp add: places_def)
  moreover have "(M((b, off) \<mapsto> name)) (b', off') = Some n \<longleftrightarrow> M (b', off') = Some n \<or> b' = b \<and> off' = off \<and> n = name" for b' off' n
    using none by auto
  ultimately show "places cs' f' (M((b, off) \<mapsto> name))" unfolding places_def by simp
qed

context fs_on_device
begin

lemma find_pool_run:
  assumes "ok s" "pool_seg P s b cs 0" "\<forall>c \<in> set cs. owned s c \<and> pool_block_ok (name_hash P) (blk P s c) (f c)"
  shows "find_pool_loop P s name (name_hash P name) b = Some (Inr None) \<and> (\<forall>c \<in> set cs. \<forall>o'. (o', name) \<notin> set (f c)) \<or>
    (\<exists>b' off. find_pool_loop P s name (name_hash P name) b = Some (Inr (Some (b', off))) \<and>
       unat b' \<in> set cs \<and> (unat off, name) \<in> set (f (unat b')))"
  using assms(2,3)
proof (induction cs arbitrary: b)
  case Nil
  then show ?case by (simp add: find_pool_loop.simps)
next
  case (Cons c cs)
  let ?bs = "blk P s c" let ?u = "used_of ?bs"
  let ?find = "find (\<lambda>(_, n). n = name) (f c)"
  have b: "b \<noteq> 0" "unat b = c" and rest: "pool_seg P s (next_of ?bs) cs 0" using Cons.prems by simp_all
  have own: "owned s c" and good: "pool_block_ok (name_hash P) ?bs (f c)" using Cons.prems by simp_all
  note rd = owned_read [OF assms(1) own]
  have dev: "dev_read P (fs_device s) (unat b) = Some (Inr ?bs)" using rd(1) b(2) by (auto simp: fs_read_block_def)
  have u: "min ?u block_size = ?u" and rec: "recs_ok (name_hash P) ?bs ?u pool_block_header (f c)"
    using good by (simp_all add: pool_block_ok_def)
  have unfold: "find_pool_loop P s name (name_hash P name) b = (case map_option fst ?find of
      Some offset \<Rightarrow> Some (Inr (Some (b, word_of_nat offset)))
    | None \<Rightarrow> find_pool_loop P s name (name_hash P name) (next_of ?bs))"
    using b(1) dev u pool_scan_eq [OF rec, of name] by (subst find_pool_loop.simps)
      (simp add: used_of_def next_of_def Let_def split: sum.split option.split)
  show ?case
  proof (cases ?find)
    case None
    then have "\<forall>o'. (o', name) \<notin> set (f c)" by (auto simp: find_None_iff)
    then show ?thesis unfolding unfold using None Cons.IH [OF rest] Cons.prems(2) by auto
  next
    case (Some x)
    then have "x \<in> set (f c)" "snd x = name" by (auto simp: find_Some_iff case_prod_unfold nth_mem)
    then obtain o' where o': "x = (o', name)" "(o', name) \<in> set (f c)" by (metis prod.collapse)
    then show ?thesis unfolding unfold using Some b(2) pool_block_mem(3) [OF good o'(2)] by simp
  qed
qed

lemma pool_rep_read:
  assumes "ok s" "pool_rep P s M" "M (b, off) = Some n"
  shows "read_pool_name P b off s = Some (Inr n, s)"
proof -
  obtain cs f where c: "pool_chain P s cs f" "unat b \<in> set cs" "(unat off, n) \<in> set (f (unat b))"
    using assms(2,3) unfolding pool_rep_def places_def by blast
  then have own: "owned s (unat b)" and good: "pool_block_ok (name_hash P) (blk P s (unat b)) (f (unat b))"
    by (auto simp: pool_chain_def)
  show ?thesis using owned_read(1) [OF assms(1) own] pool_block_mem(4) [OF good c(3)] by (rule read_pool_name_eq)
qed

end

section \<open>Interning a name\<close>

text \<open>A new last block, linked from the old one.\<close>

lemma pool_snoc:
  assumes chain: "pool_chain P s cs f" and b: "unat b \<notin> set cs" "b \<noteq> 0"
    and link: "cs \<noteq> [] \<Longrightarrow> next_of (blk P t (last cs)) = b \<and> pool_block_ok (name_hash P) (blk P t (last cs)) (f (last cs))"
    and frame: "\<And>c. c \<in> set (butlast cs) \<Longrightarrow> blk P t c = blk P s c"
    and new: "next_of (blk P t (unat b)) = 0" "pool_block_ok (name_hash P) (blk P t (unat b)) ns" "owned t (unat b)"
    and own: "\<And>c. owned s c \<Longrightarrow> owned t c"
    and sb: "sb_name_head (fs_sb t) = (if sb_name_head (fs_sb s) = 0 then b else sb_name_head (fs_sb s))" "sb_name_tail (fs_sb t) = b"
  shows "pool_chain P t (cs @ [unat b]) (f(unat b := ns))"
proof (cases cs rule: rev_cases)
  case Nil
  then have "pool_seg P t (sb_name_head (fs_sb t)) [unat b] 0" using chain b(2) sb(1) new(1) by (simp add: pool_chain_def)
  then show ?thesis using new(2,3) sb(2) Nil unfolding pool_chain_def by simp
next
  case (snoc xs c)
  let ?h = "sb_name_head (fs_sb s)"
  have seg: "pool_seg P s ?h cs 0" and good: "\<forall>c \<in> set cs. owned s c \<and> pool_block_ok (name_hash P) (blk P s c) (f c)"
    using chain by (simp_all add: pool_chain_def)
  have h: "?h \<noteq> 0" using seg snoc by (cases xs) auto
  have front: "pool_seg P t h' xs m = pool_seg P s h' xs m" for h' m
    using frame snoc by (intro pool_seg_cong) simp
  obtain m where m: "pool_seg P s ?h xs m" "pool_seg P s m [c] 0" using seg snoc by (auto simp: pool_seg_append)
  have "pool_seg P t ?h (cs @ [unat b]) 0"
    using m front link new(1) b(2) unfolding snoc by (auto simp: pool_seg_append)
  moreover have "\<forall>x \<in> set (cs @ [unat b]). owned t x \<and> pool_block_ok (name_hash P) (blk P t x) ((f(unat b := ns)) x)"
    using good own new(2,3) frame link b(1) unfolding snoc by auto
  ultimately show ?thesis using chain b(1) sb h unfolding pool_chain_def by simp
qed

text \<open>
  What interning a name that is not in the pool does: one new place, at most one block taken, and no
  used block but the old tail changes.
\<close>

definition interned :: "'d platform \<Rightarrow> 'd disk_fs \<Rightarrow> (u32 \<times> u16 \<rightharpoonup> u8 list) \<Rightarrow> u8 list \<Rightarrow> u32 \<times> u16 \<Rightarrow> 'd disk_fs \<Rightarrow> bool" where
  "interned P s M name loc t \<longleftrightarrow> M loc = None \<and> pool_rep P t (M(loc \<mapsto> name)) \<and>
     sb_geom (fs_sb t) = sb_geom (fs_sb s) \<and> (\<exists>c. fs_used t = fs_used s \<or> \<not> fs_used s c \<and> fs_used t = (fs_used s)(c := True)) \<and>
     (\<forall>c. fs_used s c \<longrightarrow> c \<noteq> unat (sb_name_tail (fs_sb s)) \<longrightarrow> blk P t c = blk P s c)"

context fs_on_device
begin

lemma append_pool_run:
  assumes "ok s" and chain: "pool_chain P s cs f" and M: "places cs f M"
    and tail: "tail = sb_name_tail (fs_sb s)" "cs \<noteq> [] \<Longrightarrow> buf = blk P s (last cs)"
    and name: "length stored \<le> 255" "name \<noteq> []" "length name \<le> 255"
      "if compressed then decompress stored = Some name else stored = name"
  shows "append_pool_block P name stored compressed tail buf s = Some (Inl (DiskFull 0), s) \<and>
      (\<forall>b < unat (sb_block_count (fs_sb s)). fs_used s b) \<or>
    (\<exists>loc t. append_pool_block P name stored compressed tail buf s = Some (Inr loc, t) \<and> ok t \<and> interned P s M name loc t)"
proof (cases rule: alloc_block_ok [OF assms(1)])
  case 1
  then show ?thesis by (simp add: append_pool_block_def op_simps)
next
  case (2 b t1)
  let ?b = "word_of_nat b :: u32"
  let ?nb = "with_record (name_hash P) (replicate block_size 0) pool_block_header name stored compressed"
  note first = first_record(1,2) [OF name, where hash = "name_hash P"] first_record(3) [OF name]
  note geom1 = sb_geom_eqD [OF 2(10)]
  have good: "\<forall>c \<in> set cs. owned s c \<and> pool_block_ok (name_hash P) (blk P s c) (f c)" and dist: "distinct cs"
    and last: "if cs = [] then tail = 0 else unat tail = last cs"
    using chain tail(1) by (simp_all add: pool_chain_def)
  have blk1: "blk P t1 = blk P s" using 2(9) by (rule blk_cong)
  have fresh: "b \<notin> set cs" using good 2(6) by (auto simp: owned_def)
  \<comment> \<open>the link from the old tail\<close>
  define link where "link = (if tail \<noteq> 0 then
      op_bind (op_option (mem_write buf pool_next_offset (to_le_bytes ?b))) (\<lambda>block_buf. fs_write_block P (unat tail) block_buf)
    else op_return ())"
  obtain d where d: "link t1 = Some (Inr (), t1\<lparr>fs_device := d\<rparr>)" "ok (t1\<lparr>fs_device := d\<rparr>)"
    "cs \<noteq> [] \<longrightarrow> next_of (blk P (t1\<lparr>fs_device := d\<rparr>) (last cs)) = ?b \<and> pool_block_ok (name_hash P) (blk P (t1\<lparr>fs_device := d\<rparr>) (last cs)) (f (last cs))"
    "\<forall>c. cs = [] \<or> c \<noteq> last cs \<longrightarrow> blk P (t1\<lparr>fs_device := d\<rparr>) c = blk P s c"
  proof (cases "cs = []")
    case True
    then show thesis using last 2(2) blk1 by (intro that [of "fs_device t1"]) (simp_all add: link_def op_simps)
  next
    case False
    then have tl: "unat tail = last cs" "buf = blk P s (last cs)" "owned s (last cs)" "pool_block_ok (name_hash P) buf (f (last cs))"
      using good last tail(2) by simp_all
    have t0: "tail \<noteq> 0" using tl(1,3) by (auto simp: owned_def first_data_def)
    note lb = link_block [OF tl(4), of ?b]
    have len: "length (poke (pool_next_offset, to_le_bytes ?b) buf) = block_size" using lb(3) by (simp add: pool_block_ok_def)
    note own = owned_read [OF assms(1) tl(3)]
    obtain d where d: "fs_write_block P (last cs) (poke (pool_next_offset, to_le_bytes ?b) buf) t1 = Some (Inr (), t1\<lparr>fs_device := d\<rparr>)"
      "ok (t1\<lparr>fs_device := d\<rparr>)"
      "blk P (t1\<lparr>fs_device := d\<rparr>) = (blk P t1)(last cs := poke (pool_next_offset, to_le_bytes ?b) buf)"
      using write_data_ok [OF 2(2) own(3) _ len] own(4) geom1(3) by auto
    have "link t1 = Some (Inr (), t1\<lparr>fs_device := d\<rparr>)" using t0 lb(1) d(1) tl(1) by (simp add: link_def op_simps)
    with d(2,3) lb(2,3) blk1 False show thesis by (intro that [of d]) simp_all
  qed
  let ?t2 = "t1\<lparr>fs_device := d\<rparr>"
  have b3: "3 \<le> b" using 2(3) by (simp add: first_data_def)
  have lnb: "length ?nb = block_size" using first(1) by (simp add: pool_block_ok_def)
  obtain d3 where d3: "fs_write_block P b ?nb ?t2 = Some (Inr (), ?t2\<lparr>fs_device := d3\<rparr>)" "ok (?t2\<lparr>fs_device := d3\<rparr>)"
    "blk P (?t2\<lparr>fs_device := d3\<rparr>) = (blk P ?t2)(b := ?nb)"
    using write_data_ok [OF d(2) b3 _ lnb] 2(4) geom1(3) by auto
  let ?t3 = "?t2\<lparr>fs_device := d3\<rparr>"
  define t where "t = ?t3\<lparr>fs_sb := (fs_sb ?t3)\<lparr>sb_name_tail := ?b,
    sb_name_head := (if sb_name_head (fs_sb ?t3) = 0 then ?b else sb_name_head (fs_sb ?t3))\<rparr>, fs_sb_dirty := True\<rparr>"
  have dev: "fs_device t = d3" and used: "fs_used t = (fs_used s)(b := True)" and geom: "sb_geom (fs_sb t) = sb_geom (fs_sb s)"
    using 2(8,10) by (simp_all add: t_def fs_used_def)
  have blkt: "blk P t = (blk P ?t2)(b := ?nb)" using d3(3) blk_cong [of t ?t3 P] dev by simp
  have run: "append_pool_block P name stored compressed tail buf s = Some (Inr (?b, word_of_nat pool_block_header), t)"
    unfolding append_pool_block_def using 2(1) d(1) d3(1) first(3) 2(5)
    by (simp add: op_simps link_def [symmetric] write_record_run t_def del: of_nat_add)
  have okt: "ok t" unfolding t_def by (rule ok_sb_update [OF d3(2)]) (simp add: sb_geom_def)
  have chain': "pool_chain P t (cs @ [unat ?b]) (f(unat ?b := [(pool_block_header, name)]))"
  proof (rule pool_snoc [OF chain, of ?b t])
    show "unat ?b \<notin> set cs" "owned t (unat ?b)"
      using fresh 2(3-5) used sb_geom_eqD(2,3) [OF geom] by (simp_all add: owned_def)
    show "?b \<noteq> 0" using b3 2(5) by auto
    show "next_of (blk P t (last cs)) = ?b \<and> pool_block_ok (name_hash P) (blk P t (last cs)) (f (last cs))" if "cs \<noteq> []"
      using that d(3) blkt fresh by auto
    show "blk P t c = blk P s c" if "c \<in> set (butlast cs)" for c
    proof -
      have "c \<in> set cs \<and> c \<noteq> last cs" using that dist by (cases cs rule: rev_cases) auto
      then show ?thesis using d(4) blkt fresh by auto
    qed
    show "next_of (blk P t (unat ?b)) = 0" "pool_block_ok (name_hash P) (blk P t (unat ?b)) [(pool_block_header, name)]"
      using blkt first(1,2) 2(5) by simp_all
    show "owned t c" if "owned s c" for c using that used sb_geom_eqD(2,3) [OF geom] by (simp add: owned_def)
    show "sb_name_head (fs_sb t) = (if sb_name_head (fs_sb s) = 0 then ?b else sb_name_head (fs_sb s))" "sb_name_tail (fs_sb t) = ?b"
      using 2(11) by (simp_all add: t_def)
  qed
  have hdr: "unat (word_of_nat pool_block_header :: u16) = pool_block_header" by (simp add: pool_block_header_def)
  note pl = places_new [OF M, of ?b "cs @ [unat ?b]" "f(unat ?b := [(pool_block_header, name)])" "word_of_nat pool_block_header" name]
  have "blk P t c = blk P s c" if "fs_used s c" "c \<noteq> unat (sb_name_tail (fs_sb s))" for c
    using that blkt d(4) 2(6) last tail(1) by (auto split: if_splits)
  then have "interned P s M name (?b, word_of_nat pool_block_header) t"
    unfolding interned_def pool_rep_def using pl chain' hdr fresh 2(5,6) used geom by auto
  then show ?thesis using run okt by blast
qed

text \<open>The record goes into the tail block when it fits there.\<close>

lemma tail_record_run:
  assumes "ok s" and chain: "pool_chain P s cs f" and M: "places cs f M" and cs: "cs \<noteq> []"
    and bs_def: "bs = blk P s (last cs)"
    and fit: "used_of bs + (pool_record_header + length stored) \<le> block_size"
    and name: "name \<noteq> []" "length name \<le> 255" "if compressed then decompress stored = Some name else stored = name"
  shows "\<exists>d. fs_write_block P (last cs) (with_record (name_hash P) bs (used_of bs) name stored compressed) s
        = Some (Inr (), s\<lparr>fs_device := d\<rparr>) \<and> ok (s\<lparr>fs_device := d\<rparr>) \<and>
      interned P s M name (sb_name_tail (fs_sb s), word_of_nat (used_of bs)) (s\<lparr>fs_device := d\<rparr>)"
proof -
  let ?nb = "with_record (name_hash P) bs (used_of bs) name stored compressed" and ?tail = "sb_name_tail (fs_sb s)"
  have own: "owned s (last cs)" and good: "pool_block_ok (name_hash P) bs (f (last cs))" and tail: "unat ?tail = last cs"
    using chain cs by (simp_all add: pool_chain_def bs_def)
  note rd = owned_read [OF assms(1) own]
  have sm: "length name < 2 ^ 16" using name(2) by simp
  note ext = pool_block_extend [OF good fit name(1) sm name(3)]
  have lnb: "length ?nb = block_size" using ext(1) by (simp add: pool_block_ok_def)
  obtain d where d: "fs_write_block P (last cs) ?nb s = Some (Inr (), s\<lparr>fs_device := d\<rparr>)" "ok (s\<lparr>fs_device := d\<rparr>)"
    "blk P (s\<lparr>fs_device := d\<rparr>) = (blk P s)(last cs := ?nb)"
    using write_data_ok [OF assms(1) rd(3,4) lnb] by blast
  let ?t = "s\<lparr>fs_device := d\<rparr>" and ?f = "f(last cs := f (last cs) @ [(used_of bs, name)])"
  have "pool_seg P ?t (sb_name_head (fs_sb ?t)) cs 0"
    using chain pool_seg_cong [of cs P ?t s] d(3) ext(2) by (simp add: pool_chain_def bs_def)
  moreover have "owned ?t c \<longleftrightarrow> owned s c" for c by (simp add: owned_def fs_used_def)
  ultimately have chain': "pool_chain P ?t cs ?f" using chain d(3) ext(1) unfolding pool_chain_def by simp
  have mem: "(used_of bs, n) \<notin> set (f (last cs))" for n using pool_block_mem(2) [OF good] by blast
  note pl = places_new [OF M, of ?tail cs ?f "word_of_nat (used_of bs)" name]
  have "interned P s M name (?tail, word_of_nat (used_of bs)) ?t"
    unfolding interned_def pool_rep_def
    using pl chain' mem tail cs pool_used_u16 [OF good] d(3) by (auto simp: fs_used_def)
  with d(1,2) show ?thesis by blast
qed

end

context fs_on_device
begin

lemma intern_run:
  assumes "ok s" "pool_rep P s M" "name \<noteq> []" "length name \<le> max_name_len"
  shows "\<exists>r t. intern_name P name s = Some (r, t) \<and> ok t \<and>
    (case r of
       Inl e \<Rightarrow> e = DiskFull 0 \<and> t = s \<and> name \<notin> ran M \<and> (\<forall>b < unat (sb_block_count (fs_sb s)). fs_used s b)
     | Inr loc \<Rightarrow> if name \<in> ran M then M loc = Some name \<and> t = s else interned P s M name loc t)"
proof -
  define compressed where "compressed = (length (compress name) < length name)"
  define stored where "stored = (if compressed then compress name else name)"
  have small: "length name \<le> 255" using assms(4) by (simp add: max_name_len_def)
  have st: "length stored \<le> 255" "if compressed then decompress stored = Some name else stored = name"
    using small by (auto simp: stored_def compressed_def compress_decodes)
  let ?total = "pool_record_header + length stored" and ?h = "name_hash P name"
  from assms(2) obtain cs f where chain: "pool_chain P s cs f" and M: "places cs f M" unfolding pool_rep_def by blast
  have cs: "pool_seg P s (sb_name_head (fs_sb s)) cs 0"
    "\<forall>c \<in> set cs. owned s c \<and> pool_block_ok (name_hash P) (blk P s c) (f c)"
    "if cs = [] then sb_name_tail (fs_sb s) = 0 else unat (sb_name_tail (fs_sb s)) = last cs"
    using chain by (simp_all add: pool_chain_def)
  let ?tail = "sb_name_tail (fs_sb s)"
  from find_pool_run [OF assms(1) cs(1,2), of name] show ?thesis
  proof
    assume "\<exists>b' off. find_pool_loop P s name ?h (sb_name_head (fs_sb s)) = Some (Inr (Some (b', off))) \<and>
      unat b' \<in> set cs \<and> (unat off, name) \<in> set (f (unat b'))"
    then obtain b' off where found: "find_pool_loop P s name ?h (sb_name_head (fs_sb s)) = Some (Inr (Some (b', off)))"
      "M (b', off) = Some name" using M unfolding places_def by blast
    then show ?thesis using assms(1) ranI [of M] by (auto simp: intern_name_def find_pool_record_def op_simps Let_def)
  next
    assume none: "find_pool_loop P s name ?h (sb_name_head (fs_sb s)) = Some (Inr None) \<and> (\<forall>c \<in> set cs. \<forall>o'. (o', name) \<notin> set (f c))"
    then have new: "name \<notin> ran M" using M unfolding places_def ran_def by fastforce
    show ?thesis
    proof (cases "cs = []")
      case True
      then have "intern_name P name s = append_pool_block P name stored compressed ?tail (replicate block_size 0) s"
        using none cs(3)
        by (simp add: intern_name_def find_pool_record_def op_simps Let_def stored_def compressed_def)
      then show ?thesis
        using append_pool_run [OF assms(1) chain M refl _ st(1) assms(3) small st(2), of "replicate block_size 0"]
          True new assms(1) by auto
    next
      case False
      let ?bs = "blk P s (last cs)" let ?u = "used_of ?bs"
      have own: "owned s (last cs)" and good: "pool_block_ok (name_hash P) ?bs (f (last cs))" and tail: "unat ?tail = last cs"
        using cs(2,3) False by simp_all
      note rd = owned_read [OF assms(1) own]
      have t0: "?tail \<noteq> 0" using tail rd(3) by auto
      have fits: "(case checked_add ?u ?total of None \<Rightarrow> False | Some end \<Rightarrow> end \<le> block_size) \<longleftrightarrow> ?u + ?total \<le> block_size"
        using good st(1) by (simp add: checked_add_def pool_block_ok_def usize_max_def block_size_def pool_record_header_def)
      have unfold: "intern_name P name s = (if ?u + ?total \<le> block_size then
          op_bind (op_result (write_pool_record (name_hash P) ?bs ?u name stored compressed)) (\<lambda>block_buf.
          op_bind (op_option (mem_write block_buf pool_used_offset (to_le_bytes (word_of_nat (?u + ?total) :: u16)))) (\<lambda>block_buf.
          op_bind (fs_write_block P (unat ?tail) block_buf) (\<lambda>_. op_return (?tail, word_of_nat ?u)))) s
        else append_pool_block P name stored compressed ?tail ?bs s)"
        unfolding intern_name_def Let_def compressed_def [symmetric] stored_def [symmetric]
        using none t0 rd(1) tail fits [unfolded used_of_def]
        by (simp add: find_pool_record_def op_simps used_of_def)
      show ?thesis
      proof (cases "?u + ?total \<le> block_size")
        case no: False
        then show ?thesis
          using append_pool_run [OF assms(1) chain M refl _ st(1) assms(3) small st(2), of ?bs] new assms(1)
          unfolding unfold by auto
      next
        case yes: True
        from tail_record_run [OF assms(1) chain M False refl yes assms(3) small st(2)] obtain d where
          d: "fs_write_block P (last cs) (with_record (name_hash P) ?bs ?u name stored compressed) s = Some (Inr (), s\<lparr>fs_device := d\<rparr>)"
            "ok (s\<lparr>fs_device := d\<rparr>)" "interned P s M name (?tail, word_of_nat ?u) (s\<lparr>fs_device := d\<rparr>)" by blast
        have "intern_name P name s = Some (Inr (?tail, word_of_nat ?u), s\<lparr>fs_device := d\<rparr>)"
          unfolding unfold using yes rd(2) d(1) tail by (simp add: write_record_run op_simps del: of_nat_add)
        with d(2,3) new show ?thesis by simp
      qed
    qed
  qed
qed

end

section \<open>Properties\<close>

text \<open>
  C13: On every well-formed name pool intern_name ends and acts on the map from places to names
  the pool stands for: a name that is in the pool is found again and nothing changes; a new name
  gets one new place, every other name stays at its place, at most one block is taken and no
  used block but the tail of the pool changes; DiskFull is reported only for a new name on a
  disk with no free block, with no change. Afterwards every name of the map, old and new, reads
  back from its place.
\<close>

theorem intern_name_correct:
  assumes "mem_ok ifma s" "pool_rep (mem_platform ifma) s M" "name \<noteq> []" "length name \<le> max_name_len"
  shows "\<exists>r t M'. intern_name (mem_platform ifma) name s = Some (r, t) \<and> mem_ok ifma t \<and> pool_rep (mem_platform ifma) t M' \<and>
    (\<forall>b off n. M' (b, off) = Some n \<longrightarrow> read_pool_name (mem_platform ifma) b off t = Some (Inr n, t)) \<and>
    (case r of
       Inl e \<Rightarrow> e = DiskFull 0 \<and> t = s \<and> M' = M \<and> name \<notin> ran M \<and> (\<forall>b < unat (sb_block_count (fs_sb s)). fs_used s b)
     | Inr loc \<Rightarrow>
         if name \<in> ran M then M loc = Some name \<and> t = s \<and> M' = M
         else M loc = None \<and> M' = M(loc \<mapsto> name) \<and>
           sb_geom (fs_sb t) = sb_geom (fs_sb s) \<and>
           (\<exists>c. fs_used t = fs_used s \<or> \<not> fs_used s c \<and> fs_used t = (fs_used s)(c := True)) \<and>
           (\<forall>c. fs_used s c \<longrightarrow> c \<noteq> unat (sb_name_tail (fs_sb s)) \<longrightarrow>
              blk (mem_platform ifma) t c = blk (mem_platform ifma) s c))"
proof -
  from mem_fs.intern_run [OF assms] obtain r t where run: "intern_name (mem_platform ifma) name s = Some (r, t)" "mem_ok ifma t"
    and r: "case r of
       Inl e \<Rightarrow> e = DiskFull 0 \<and> t = s \<and> name \<notin> ran M \<and> (\<forall>b < unat (sb_block_count (fs_sb s)). fs_used s b)
     | Inr loc \<Rightarrow> if name \<in> ran M then M loc = Some name \<and> t = s else interned (mem_platform ifma) s M name loc t" by blast
  define M' where "M' = (case r of Inl e \<Rightarrow> M | Inr loc \<Rightarrow> if name \<in> ran M then M else M(loc \<mapsto> name))"
  have rep: "pool_rep (mem_platform ifma) t M'"
    using r assms(2) by (cases r) (auto simp: M'_def interned_def split: if_splits)
  show ?thesis
    using run rep mem_fs.pool_rep_read [OF run(2) rep] r
    by (intro exI [of _ r] exI [of _ t] exI [of _ M']) (cases r; cases "name \<in> ran M"; simp add: M'_def interned_def)
qed

text \<open>Two names interned on a new disk: both places read back, and they differ.\<close>

theorem intern_name_correct_witness:
  "\<exists>d s loc t loc' t'. md_new (\<lambda>_. True) 64 = Inr d \<and> fs_format (mem_platform False) d 64 32 = Some (Inr s) \<and>
     intern_name (mem_platform False) (replicate 30 97) s = Some (Inr loc, t) \<and>
     intern_name (mem_platform False) (replicate 30 98) t = Some (Inr loc', t') \<and> loc \<noteq> loc' \<and>
     read_pool_name (mem_platform False) (fst loc) (snd loc) t' = Some (Inr (replicate 30 97), t') \<and>
     read_pool_name (mem_platform False) (fst loc') (snd loc') t' = Some (Inr (replicate 30 98), t')"
proof -
  let ?P = "mem_platform False" and ?a = "replicate 30 (97::u8)" and ?b = "replicate 30 (98::u8)"
  have sizes: "?a \<noteq> []" "length ?a \<le> max_name_len" "?b \<noteq> []" "length ?b \<le> max_name_len" "?a \<noteq> ?b"
    by (simp_all add: max_name_len_def)
  obtain d s where f: "md_new (\<lambda>_. True) 64 = Inr d" "fs_format ?P d 64 32 = Some (Inr s)" "mem_ok False s"
    "unat (sb_block_count (fs_sb s)) = 64" "fs_used s = (\<lambda>b. b \<le> 4)" "sb_name_head (fs_sb s) = 0" "sb_name_tail (fs_sb s) = 0"
    by (rule demo_format)
  have "pool_rep ?P s Map.empty"
    using f(6,7) unfolding pool_rep_def by (intro exI [of _ "[]"]) (simp add: pool_chain_def places_def)
  note one = intern_name_correct [OF f(3) this sizes(1,2)]
  have free: "\<not> (\<forall>b < unat (sb_block_count (fs_sb s)). fs_used s b)" unfolding f(4,5) by (auto intro: exI [of _ 5])
  obtain loc t c where t: "intern_name ?P ?a s = Some (Inr loc, t)" "mem_ok False t" "pool_rep ?P t [loc \<mapsto> ?a]"
    "sb_geom (fs_sb t) = sb_geom (fs_sb s)" "fs_used t = fs_used s \<or> fs_used t = (fs_used s)(c := True)"
  proof -
    from one obtain r t M' where r: "intern_name ?P ?a s = Some (r, t)" "mem_ok False t" "pool_rep ?P t M'"
      "case r of
         Inl e \<Rightarrow> \<forall>b < unat (sb_block_count (fs_sb s)). fs_used s b
       | Inr loc \<Rightarrow> M' = [loc \<mapsto> ?a] \<and> sb_geom (fs_sb t) = sb_geom (fs_sb s) \<and>
           (\<exists>c. fs_used t = fs_used s \<or> \<not> fs_used s c \<and> fs_used t = (fs_used s)(c := True))"
      by (fastforce split: sum.splits)
    with free show thesis by (cases r) (auto intro: that)
  qed
  define k :: nat where "k = (if c = 5 then 6 else 5)"
  have "k < unat (sb_block_count (fs_sb t))" "\<not> fs_used t k"
    using t(5) f(4) sb_geom_eqD(3) [OF t(4)] unfolding f(5) k_def by auto
  then have free': "\<not> (\<forall>b < unat (sb_block_count (fs_sb t)). fs_used t b)" by blast
  note two = intern_name_correct [OF t(2,3) sizes(3,4)]
  obtain loc' t' where t': "intern_name ?P ?b t = Some (Inr loc', t')" "[loc \<mapsto> ?a] loc' = None"
    "\<And>b off n. [loc \<mapsto> ?a, loc' \<mapsto> ?b] (b, off) = Some n \<Longrightarrow> read_pool_name ?P b off t' = Some (Inr n, t')"
  proof -
    have new: "?b \<notin> ran [loc \<mapsto> ?a]" using sizes(5) by auto
    from two obtain r t' M' where r: "intern_name ?P ?b t = Some (r, t')"
      "\<forall>b off n. M' (b, off) = Some n \<longrightarrow> read_pool_name ?P b off t' = Some (Inr n, t')"
      "case r of
         Inl e \<Rightarrow> \<forall>b < unat (sb_block_count (fs_sb t)). fs_used t b
       | Inr loc' \<Rightarrow> [loc \<mapsto> ?a] loc' = None \<and> M' = [loc \<mapsto> ?a, loc' \<mapsto> ?b]"
      unfolding if_not_P [OF new] by (fastforce split: sum.splits)
    with free' show thesis by (cases r) (auto intro: that)
  qed
  have ne: "loc \<noteq> loc'" using t'(2) by auto
  have "read_pool_name ?P (fst loc) (snd loc) t' = Some (Inr ?a, t')" "read_pool_name ?P (fst loc') (snd loc') t' = Some (Inr ?b, t')"
    using t'(3) [of "fst loc" "snd loc" ?a] t'(3) [of "fst loc'" "snd loc'" ?b] ne by simp_all
  with f(1,2) t(1) t'(1) ne show ?thesis by blast
qed

end
