(* ===== verification/Fs_Files.thy ===== *)
theory Fs_Files
  imports Disk_Fs_Core
begin

text \<open>
  Reading and writing the contents of a file (\<open>crates/wredit/src/fs.rs\<close>: \<open>block_for\<close>, \<open>read_at\<close>,
  \<open>write_at\<close>): eleven direct blocks and one block of indirect pointers. The specification is a
  function from byte positions to bytes.
\<close>

section \<open>Operations\<close>

text \<open>
  \<open>block_for\<close> updates the inode of its caller, which drops it on an error; the model returns the
  inode with the block.
\<close>

definition block_for :: "'d platform \<Rightarrow> inode \<Rightarrow> u32 \<Rightarrow> bool \<Rightarrow> ('d, u32 \<times> inode) fs_op" where
  "block_for P ino logical allocate =
     (if unat logical < direct_count then
        let slot = unat logical in
        if i_direct ino ! slot \<noteq> 0 then op_return (i_direct ino ! slot, ino)
        else if \<not> allocate then op_fail (BlockNotFound (unat logical))
        else op_bind alloc_block (\<lambda>block.
          op_return (block, ino\<lparr>i_direct := (i_direct ino)[slot := block],
                                i_block_count := sat_inc (i_block_count ino)\<rparr>))
      else
        let idx = unat logical - direct_count in
        if idx \<ge> indirect_ptrs then op_fail (LimitExceeded ''inode block pointers'')
        else if i_indirect ino = 0 then
          if \<not> allocate then op_fail (BlockNotFound (unat logical))
          else op_bind alloc_block (\<lambda>indirect_block.
            let ino' = ino\<lparr>i_indirect := indirect_block, i_block_count := sat_inc (i_block_count ino)\<rparr> in
            op_bind (fs_read_block P (unat indirect_block)) (\<lambda>block_bytes.
            op_bind alloc_block (\<lambda>data.
            op_bind (op_option (mem_write block_bytes (idx * 4) (to_le_bytes data))) (\<lambda>block_bytes'.
            op_bind (fs_write_block P (unat indirect_block) block_bytes') (\<lambda>_.
            op_return (data, ino'))))))
        else op_bind (fs_read_block P (unat (i_indirect ino))) (\<lambda>block_bytes.
          let data = read_u32 block_bytes (idx * 4) in
          if data \<noteq> 0 then op_return (data, ino)
          else if \<not> allocate then op_fail (BlockNotFound (unat logical))
          else op_bind alloc_block (\<lambda>block.
            op_bind (op_option (mem_write block_bytes (idx * 4) (to_le_bytes block))) (\<lambda>block_bytes'.
            op_bind (fs_write_block P (unat (i_indirect ino)) block_bytes') (\<lambda>_.
            op_return (block, ino))))))"

text \<open>
  \<open>(pos / BLOCK_SIZE) as u32\<close> and the offset inside that block. A position whose block number does not
  fit 32 bits leaves an offset beyond the block, and \<open>BLOCK_SIZE - skip\<close> panics.
\<close>

definition logical_of :: "nat \<Rightarrow> u32" where
  "logical_of pos = word_of_nat (pos div block_size)"

definition skip_of :: "nat \<Rightarrow> nat" where
  "skip_of pos = pos - unat (logical_of pos) * block_size"

function read_loop :: "'d platform \<Rightarrow> nat \<Rightarrow> usize \<Rightarrow> inode \<Rightarrow> usize \<Rightarrow> u8 list \<Rightarrow> ('d, usize \<times> u8 list) fs_op" where
  "read_loop P offset want ino read buf =
     (if read < want then
        let pos = offset + read in
        if pos > usize_max then op_panic else
        op_bind (block_for P ino (logical_of pos) False) (\<lambda>(block, ino').
        op_bind (fs_read_block P (unat block)) (\<lambda>block_buf.
        if skip_of pos \<ge> block_size then op_panic else
        let skip = skip_of pos; n = min (min want (block_size - skip)) (want - read) in
        op_bind (op_option (mem_read block_buf skip n)) (\<lambda>part.
        op_bind (op_option (mem_write buf read part)) (\<lambda>buf'.
        read_loop P offset want ino' (read + n) buf'))))
      else op_return (read, buf))"
  by pat_completeness auto
termination by (relation "measure (\<lambda>(P, offset, want, ino, read, buf). want - read)") auto

declare read_loop.simps [simp del]

text \<open>On success the number of bytes read and the buffer.\<close>

definition read_at :: "'d platform \<Rightarrow> u32 \<Rightarrow> nat \<Rightarrow> u8 list \<Rightarrow> ('d, usize \<times> u8 list) fs_op" where
  "read_at P inode offset buf =
     op_bind (read_inode P inode) (\<lambda>ino.
       if offset \<ge> unat (i_size ino) \<or> buf = [] then op_return (0, buf)
       else let want = min (length buf) (unat (i_size ino) - offset) in
         read_loop P offset want ino 0 buf)"

function write_loop :: "'d platform \<Rightarrow> nat \<Rightarrow> u8 list \<Rightarrow> inode \<Rightarrow> usize \<Rightarrow> ('d, usize \<times> inode) fs_op" where
  "write_loop P offset buf ino written =
     (if written < length buf then
        let pos = offset + written in
        if pos > usize_max then op_panic else
        op_bind (block_for P ino (logical_of pos) True) (\<lambda>(block, ino').
        if skip_of pos \<ge> block_size then op_panic else
        let skip = skip_of pos; n = min (length buf - written) (block_size - skip) in
        op_bind (if skip = 0 \<and> n = block_size then
            op_bind (op_option (mem_read buf written n)) (\<lambda>part. fs_write_block P (unat block) part)
          else
            op_bind (fs_read_block P (unat block)) (\<lambda>block_buf.
            op_bind (op_option (mem_read buf written n)) (\<lambda>part.
            op_bind (op_option (mem_write block_buf skip part)) (\<lambda>block_buf'.
            fs_write_block P (unat block) block_buf')))) (\<lambda>_.
        write_loop P offset buf ino' (written + n)))
      else op_return (written, ino))"
  by pat_completeness auto
termination by (relation "measure (\<lambda>(P, offset, buf, ino, written). length buf - written)") auto

declare write_loop.simps [simp del]

text \<open>
  \<open>offset + written\<close> past \<open>usize\<close> panics; \<open>last_logical + 1\<close> is a \<open>u32\<close> sum, and can only overflow when
  the file position is past \<open>2^44\<close>.
\<close>

definition write_at :: "'d platform \<Rightarrow> u32 \<Rightarrow> nat \<Rightarrow> u8 list \<Rightarrow> ('d, usize) fs_op" where
  "write_at P inode offset buf =
     (if buf = [] then op_return 0
      else op_bind (read_inode P inode) (\<lambda>ino.
        op_bind (write_loop P offset buf ino 0) (\<lambda>(written, ino).
        if offset + written > usize_max then op_panic else
        let new_size = word_of_nat (offset + written) :: u32;
            ino1 = (if new_size > i_size ino then ino\<lparr>i_size := new_size\<rparr> else ino);
            last_logical = logical_of (offset + written - 1) in
        if unat last_logical + 1 > u32_max then op_panic else
        let blocks_needed = min (unat last_logical + 1) (direct_count + indirect_ptrs);
            ino2 = ino1\<lparr>i_block_count := word_of_nat blocks_needed\<rparr> in
        op_bind (write_inode P inode ino2) (\<lambda>_. op_return written))))"

section \<open>The block map of a file\<close>

definition max_logical :: nat where
  "max_logical = direct_count + indirect_ptrs"

definition file_block :: "'d platform \<Rightarrow> 'd disk_fs \<Rightarrow> inode \<Rightarrow> nat \<Rightarrow> nat" where
  "file_block P s ino l =
     (if l < direct_count then unat (i_direct ino ! l)
      else if i_indirect ino = 0 then 0
      else unat (read_u32 (blk P s (unat (i_indirect ino))) ((l - direct_count) * 4)))"

text \<open>The pointers of a file are used data blocks, all different, and the indirect block is none of them.\<close>

definition file_ok :: "'d platform \<Rightarrow> 'd disk_fs \<Rightarrow> inode \<Rightarrow> bool" where
  "file_ok P s ino \<longleftrightarrow> length (i_direct ino) = direct_count \<and>
     (i_indirect ino \<noteq> 0 \<longrightarrow> owned s (unat (i_indirect ino))) \<and>
     (\<forall>l < max_logical. file_block P s ino l \<noteq> 0 \<longrightarrow>
        owned s (file_block P s ino l) \<and> file_block P s ino l \<noteq> unat (i_indirect ino) \<and>
        (\<forall>m < max_logical. file_block P s ino m = file_block P s ino l \<longrightarrow> m = l))"

text \<open>Free data blocks hold zeros, as on a new disk from which nothing was freed.\<close>

definition zero_free :: "'d platform \<Rightarrow> 'd disk_fs \<Rightarrow> bool" where
  "zero_free P s \<longleftrightarrow> (\<forall>b. first_data (fs_sb s) \<le> b \<longrightarrow> b < unat (sb_block_count (fs_sb s)) \<longrightarrow> \<not> fs_used s b \<longrightarrow>
     blk P s b = replicate block_size 0)"

lemma file_consts: "direct_count = 11" "indirect_ptrs = 1024" "max_logical = 1035" "indirect_ptrs * 4 = block_size"
  by (simp_all add: direct_count_eq indirect_ptrs_def max_logical_def block_size_def)

text \<open>Pointer slots of an indirect block.\<close>

lemma read_u32_slot:
  assumes "length bs = block_size" "i < indirect_ptrs" "j < indirect_ptrs"
  shows "read_u32 (take (i * 4) bs @ to_le_bytes (w :: u32) @ drop (i * 4 + 4) bs) (j * 4) =
    (if j = i then w else read_u32 bs (j * 4))"
proof -
  have fit: "i * 4 + 4 \<le> length bs" using assms(1,2) by (simp add: file_consts block_size_def)
  have len: "length (to_le_bytes w) = 4" by simp
  show ?thesis
  proof (cases "j = i")
    case True
    then show ?thesis using fit len by (simp add: read_u32_def peek_def from_to_le_bytes)
  next
    case False
    then have "j * 4 + 4 \<le> i * 4 \<or> i * 4 + 4 \<le> j * 4" by linarith
    then show ?thesis
      using False fit take_drop_frame [of "j * 4" 4 "i * 4" "to_le_bytes w" bs] by (simp add: read_u32_def peek_def len)
  qed
qed

lemma slot_write:
  assumes "length bs = block_size" "i < indirect_ptrs"
  shows "mem_write bs (i * 4) (to_le_bytes (w :: u32)) = Some (take (i * 4) bs @ to_le_bytes w @ drop (i * 4 + 4) bs)"
    "length (take (i * 4) bs @ to_le_bytes w @ drop (i * 4 + 4) bs) = block_size"
  using assms by (simp_all add: mem_simps file_consts block_size_def)

text \<open>The fields of an inode that growing a file leaves alone.\<close>

definition ino_rest :: "inode \<Rightarrow> inode" where
  "ino_rest ino = ino\<lparr>i_direct := [], i_indirect := 0, i_block_count := 0\<rparr>"

text \<open>
  The step that \<open>block_for\<close> makes: pointers are only added, and only to blocks that were free; no
  block other than the indirect one is written.
\<close>

definition grown :: "'d platform \<Rightarrow> 'd disk_fs \<Rightarrow> inode \<Rightarrow> 'd disk_fs \<Rightarrow> inode \<Rightarrow> bool" where
  "grown P s ino t ino' \<longleftrightarrow>
     file_ok P t ino' \<and> zero_free P t \<and> sb_geom (fs_sb t) = sb_geom (fs_sb s) \<and> ino_rest ino' = ino_rest ino \<and>
     (\<forall>c. fs_used s c \<longrightarrow> fs_used t c) \<and>
     (\<forall>c. c \<noteq> unat (i_indirect ino') \<longrightarrow> blk P t c = blk P s c) \<and>
     (\<forall>l < max_logical. file_block P t ino' l = file_block P s ino l \<or>
        file_block P s ino l = 0 \<and> \<not> fs_used s (file_block P t ino' l) \<and>
        blk P s (file_block P t ino' l) = replicate block_size 0) \<and>
     (i_indirect ino' = i_indirect ino \<or> i_indirect ino = 0 \<and> \<not> fs_used s (unat (i_indirect ino')))"

lemma grown_refl: "file_ok P s ino \<Longrightarrow> zero_free P s \<Longrightarrow> grown P s ino s ino"
  by (simp add: grown_def)

lemma grown_add:
  assumes s: "file_ok P s ino" "zero_free P s" and geom: "sb_geom (fs_sb t) = sb_geom (fs_sb s)"
    and used: "\<And>c. fs_used s c \<Longrightarrow> fs_used t c"
    and b: "\<not> fs_used s b" "owned t b"
    and map: "\<And>m. m < max_logical \<Longrightarrow> file_block P t ino' m = (if m = l then b else file_block P s ino m)"
    and l: "l < max_logical" "file_block P s ino l = 0"
    and frame: "\<And>c. c \<noteq> unat (i_indirect ino') \<Longrightarrow> blk P t c = blk P s c"
    and ind: "i_indirect ino' = i_indirect ino \<or>
      i_indirect ino = 0 \<and> \<not> fs_used s (unat (i_indirect ino')) \<and> owned t (unat (i_indirect ino')) \<and> unat (i_indirect ino') \<noteq> b"
    and ino: "length (i_direct ino') = direct_count" "ino_rest ino' = ino_rest ino"
  shows "grown P s ino t ino'"
proof -
  have pos: "0 < first_data (fs_sb s)" by (simp add: first_data_def)
  have old: "owned s (file_block P s ino m) \<and> file_block P s ino m \<noteq> unat (i_indirect ino) \<and>
      (\<forall>k < max_logical. file_block P s ino k = file_block P s ino m \<longrightarrow> k = m)"
    if "m < max_logical" "file_block P s ino m \<noteq> 0" for m
    using s(1) that unfolding file_ok_def by blast
  have b0: "b \<noteq> 0" using b(2) pos sb_geom_eqD(2) [OF geom] by (auto simp: owned_def)
  have own_ind: "owned t (unat (i_indirect ino'))" if "i_indirect ino' \<noteq> 0"
    using ind s(1) that owned_mono [OF _ geom used] unfolding file_ok_def by metis
  have b_ind: "b \<noteq> unat (i_indirect ino')"
  proof (cases "i_indirect ino' = 0")
    case True
    then show ?thesis using b(2) pos sb_geom_eqD(2) [OF geom] by (auto simp: owned_def)
  next
    case False
    then show ?thesis using ind b(1) s(1) unfolding file_ok_def owned_def by metis
  qed
  have "owned t (file_block P t ino' m) \<and> file_block P t ino' m \<noteq> unat (i_indirect ino') \<and>
      (\<forall>k < max_logical. file_block P t ino' k = file_block P t ino' m \<longrightarrow> k = m)"
    if m: "m < max_logical" "file_block P t ino' m \<noteq> 0" for m
  proof (cases "m = l")
    case True
    have "k = l" if "k < max_logical" "file_block P t ino' k = b" for k
      using that old [of k] b b0 map [of k] by (cases "k = l") (auto simp: owned_def)
    moreover have fb: "file_block P t ino' m = b" using map [OF m(1)] True by simp
    ultimately show ?thesis unfolding fb using True b(2) b_ind by blast
  next
    case False
    with m map have fb: "file_block P t ino' m = file_block P s ino m" "file_block P s ino m \<noteq> 0" by simp_all
    note o = old [OF m(1) fb(2)]
    have "owned t (file_block P s ino m)" using owned_mono [OF _ geom used] o by blast
    moreover have "file_block P s ino m \<noteq> unat (i_indirect ino')" using o ind by (auto simp: owned_def)
    moreover have "k = m" if "k < max_logical" "file_block P t ino' k = file_block P s ino m" for k
      using that o b(1) map [of k] by (cases "k = l") (auto simp: owned_def)
    ultimately show ?thesis unfolding fb(1) by blast
  qed
  then have fok: "file_ok P t ino'" using own_ind ino(1) unfolding file_ok_def by blast
  have zf: "zero_free P t"
    unfolding zero_free_def
  proof (intro allI impI)
    fix c assume c: "first_data (fs_sb t) \<le> c" "c < unat (sb_block_count (fs_sb t))" "\<not> fs_used t c"
    have "c \<noteq> unat (i_indirect ino')"
      using own_ind c pos sb_geom_eqD(2) [OF geom] by (cases "i_indirect ino' = 0") (auto simp: owned_def)
    with c used frame s(2) sb_geom_eqD(2,3) [OF geom] show "blk P t c = replicate block_size 0"
      unfolding zero_free_def by metis
  qed
  have "blk P s b = replicate block_size 0"
    using s(2) b sb_geom_eqD(2,3) [OF geom] by (simp add: zero_free_def owned_def)
  then have "file_block P t ino' m = file_block P s ino m \<or> file_block P s ino m = 0 \<and>
      \<not> fs_used s (file_block P t ino' m) \<and> blk P s (file_block P t ino' m) = replicate block_size 0"
    if "m < max_logical" for m using that map [OF that] l(2) b(1) by simp
  with fok zf geom used frame ind ino(2) show ?thesis unfolding grown_def by blast
qed

section \<open>Free blocks\<close>

definition free_blocks :: "'d disk_fs \<Rightarrow> nat" where
  "free_blocks s = card {b. b < unat (sb_block_count (fs_sb s)) \<and> \<not> fs_used s b}"

text \<open>How many blocks \<open>block_for\<close> takes from the bitmap for a logical block.\<close>

definition new_blocks :: "'d platform \<Rightarrow> 'd disk_fs \<Rightarrow> inode \<Rightarrow> nat \<Rightarrow> nat" where
  "new_blocks P s ino l =
     (if file_block P s ino l \<noteq> 0 then 0 else if direct_count \<le> l \<and> i_indirect ino = 0 then 2 else 1)"

lemma free_blocks_none: "\<forall>b < unat (sb_block_count (fs_sb s)). fs_used s b \<Longrightarrow> free_blocks s = 0"
  by (simp add: free_blocks_def)

lemma free_blocks_take:
  assumes "b < unat (sb_block_count (fs_sb s))" "\<not> fs_used s b" "fs_used t = (fs_used s)(b := True)"
    "sb_geom (fs_sb t) = sb_geom (fs_sb s)"
  shows "free_blocks t + 1 = free_blocks s"
proof -
  let ?A = "{c. c < unat (sb_block_count (fs_sb t)) \<and> \<not> fs_used t c}"
  have "{c. c < unat (sb_block_count (fs_sb s)) \<and> \<not> fs_used s c} = insert b ?A" "b \<notin> ?A"
    using assms sb_geom_eqD(3) [OF assms(4)] by auto
  then show ?thesis by (simp add: free_blocks_def)
qed

lemma free_blocks_cong:
  "fs_used t = fs_used s \<Longrightarrow> sb_geom (fs_sb t) = sb_geom (fs_sb s) \<Longrightarrow> free_blocks t = free_blocks s"
  using sb_geom_eqD(3) [of "fs_sb t" "fs_sb s"] by (simp add: free_blocks_def)

section \<open>What \<open>block_for\<close> does\<close>

lemma file_block_cong:
  "i_direct ino' = i_direct ino \<Longrightarrow> i_indirect ino' = i_indirect ino \<Longrightarrow>
   (i_indirect ino \<noteq> 0 \<Longrightarrow> blk P t (unat (i_indirect ino)) = blk P s (unat (i_indirect ino))) \<Longrightarrow>
   file_block P t ino' = file_block P s ino"
  by (simp add: file_block_def fun_eq_iff)

context fs_on_device
begin

text \<open>A mapped block is found without a change.\<close>

lemma block_for_mapped:
  assumes "ok s" "file_ok P s ino" "unat l < max_logical" "file_block P s ino (unat l) \<noteq> 0"
  shows "\<exists>b. block_for P ino l a s = Some (Inr (b, ino), s) \<and> unat b = file_block P s ino (unat l)"
proof (cases "unat l < direct_count")
  case True
  then show ?thesis using assms(4) by (auto simp: block_for_def file_block_def op_simps unat_gt_0)
next
  case False
  with assms(4) have ind: "i_indirect ino \<noteq> 0" by (auto simp: file_block_def)
  then have rd: "fs_read_block P (unat (i_indirect ino)) s = Some (Inr (blk P s (unat (i_indirect ino))), s)"
    using owned_read(1) [OF assms(1)] assms(2) by (simp add: file_ok_def)
  show ?thesis
    using False ind rd assms(3,4) by (auto simp: block_for_def file_block_def op_simps max_logical_def Let_def unat_gt_0)
qed

text \<open>A hole is reported when nothing may be allocated.\<close>

lemma block_for_hole:
  assumes "ok s" "file_ok P s ino" "unat l < max_logical" "file_block P s ino (unat l) = 0"
  shows "block_for P ino l False s = Some (Inl (BlockNotFound (unat l)), s)"
proof (cases "unat l < direct_count \<or> i_indirect ino = 0")
  case True
  then show ?thesis
    using assms(3,4) by (cases "unat l < direct_count")
      (auto simp: block_for_def file_block_def op_simps max_logical_def Let_def unat_eq_zero)
next
  case False
  then have rd: "fs_read_block P (unat (i_indirect ino)) s = Some (Inr (blk P s (unat (i_indirect ino))), s)"
    using owned_read(1) [OF assms(1)] assms(2) by (simp add: file_ok_def)
  show ?thesis
    using False rd assms(3,4) by (auto simp: block_for_def file_block_def op_simps max_logical_def Let_def unat_eq_zero)
qed

text \<open>A missing block is allocated: directly, through the indirect block, or with a new indirect block.\<close>

lemma block_for_direct_new:
  assumes "ok s" "file_ok P s ino" "zero_free P s" "unat l < direct_count" "file_block P s ino (unat l) = 0"
  shows "block_for P ino l True s = Some (Inl (DiskFull 0), s) \<and> free_blocks s = 0 \<or>
    (\<exists>b ino' t. block_for P ino l True s = Some (Inr (b, ino'), t) \<and> ok t \<and> grown P s ino t ino' \<and>
       file_block P t ino' (unat l) = unat b \<and> unat b \<noteq> 0 \<and> free_blocks t + 1 = free_blocks s)"
proof (cases rule: alloc_block_ok [OF assms(1)])
  case 1
  then show ?thesis
    using assms(4,5) by (simp add: block_for_def file_block_def op_simps unat_eq_zero free_blocks_none)
next
  case (2 b t)
  let ?ino = "ino\<lparr>i_direct := (i_direct ino)[unat l := word_of_nat b], i_block_count := sat_inc (i_block_count ino)\<rparr>"
  have run: "block_for P ino l True s = Some (Inr (word_of_nat b, ?ino), t)"
    using assms(4,5) 2(1) by (simp add: block_for_def file_block_def op_simps unat_eq_zero Let_def)
  have len: "length (i_direct ino) = direct_count" using assms(2) by (simp add: file_ok_def)
  have blks: "blk P t = blk P s" using 2(9) by (rule blk_cong)
  have map: "file_block P t ?ino m = (if m = unat l then b else file_block P s ino m)" for m
    using assms(4) len 2(5) blks by (simp add: file_block_def nth_list_update)
  have own: "owned t b" using 2(3,4,8) sb_geom_eqD(2,3) [OF 2(10)] by (simp add: owned_def)
  have "grown P s ino t ?ino"
  proof (rule grown_add [OF assms(2,3) 2(10) _ 2(6) own map])
    show "unat l < max_logical" using assms(4) by (simp add: max_logical_def)
  qed (use 2(8) assms(5) blks len in \<open>auto simp: ino_rest_def\<close>)
  moreover have "b \<noteq> 0" using 2(3) by (simp add: first_data_def)
  ultimately show ?thesis
    using run 2(2,5) map [of "unat l"] free_blocks_take [OF 2(4,6,8,10)] by auto
qed

end

lemma file_block_slot:
  assumes "length (blk P s (unat i)) = block_size" "direct_count \<le> l" "l < max_logical" "i \<noteq> 0"
    and "i_direct ino' = i_direct ino" "i_indirect ino' = i"
    and "blk P u (unat i) = take ((l - direct_count) * 4) (blk P s (unat i)) @ to_le_bytes (w :: u32)
           @ drop ((l - direct_count) * 4 + 4) (blk P s (unat i))"
    and m: "m < max_logical" "m \<ge> direct_count \<Longrightarrow> m \<noteq> l \<Longrightarrow> unat (read_u32 (blk P s (unat i)) ((m - direct_count) * 4)) = file_block P s ino m"
  shows "file_block P u ino' m = (if m = l then unat w else file_block P s ino m)"
proof (cases "m < direct_count")
  case True
  then show ?thesis using assms(2,5) by (auto simp: file_block_def)
next
  case False
  then have idx: "l - direct_count < indirect_ptrs" "m - direct_count < indirect_ptrs" "m - direct_count = l - direct_count \<longleftrightarrow> m = l"
    using assms(2,3) m(1) by (auto simp: max_logical_def)
  show ?thesis
    using False m(2) assms(4,6,7) read_u32_slot [OF assms(1) idx(1,2), of w] idx(3) by (auto simp: file_block_def)
qed

context fs_on_device
begin

lemma block_for_indirect_new:
  assumes "ok s" "file_ok P s ino" "zero_free P s" "direct_count \<le> unat l" "unat l < max_logical"
    "i_indirect ino \<noteq> 0" "file_block P s ino (unat l) = 0"
  shows "block_for P ino l True s = Some (Inl (DiskFull 0), s) \<and> free_blocks s = 0 \<or>
    (\<exists>b ino' t. block_for P ino l True s = Some (Inr (b, ino'), t) \<and> ok t \<and> grown P s ino t ino' \<and>
       file_block P t ino' (unat l) = unat b \<and> unat b \<noteq> 0 \<and> free_blocks t + 1 = free_blocks s)"
proof -
  let ?i = "unat (i_indirect ino)" and ?k = "unat l - direct_count"
  have own: "owned s ?i" using assms(2,6) by (simp add: file_ok_def)
  note rd = owned_read [OF assms(1) own]
  have k: "?k < indirect_ptrs" using assms(4,5) by (simp add: max_logical_def)
  have hole: "read_u32 (blk P s ?i) (?k * 4) = 0" using assms(4,6,7) by (simp add: file_block_def unat_eq_zero)
  have unfold: "block_for P ino l True s = op_bind alloc_block (\<lambda>block.
      op_bind (op_option (mem_write (blk P s ?i) (?k * 4) (to_le_bytes block))) (\<lambda>block_bytes'.
      op_bind (fs_write_block P ?i block_bytes') (\<lambda>_. op_return (block, ino)))) s"
    using assms(4,6) k rd(1) hole by (simp add: block_for_def op_simps Let_def)
  show ?thesis
  proof (cases rule: alloc_block_ok [OF assms(1)])
    case 1
    then show ?thesis unfolding unfold by (simp add: op_simps free_blocks_none)
  next
    case (2 b t)
    let ?w = "word_of_nat b :: u32"
    let ?new = "take (?k * 4) (blk P s ?i) @ to_le_bytes ?w @ drop (?k * 4 + 4) (blk P s ?i)"
    note geom = sb_geom_eqD [OF 2(10)]
    have blks: "blk P t = blk P s" using 2(9) by (rule blk_cong)
    note sw = slot_write [OF rd(2) k, of ?w]
    obtain d where d: "fs_write_block P ?i ?new t = Some (Inr (), t\<lparr>fs_device := d\<rparr>)" "ok (t\<lparr>fs_device := d\<rparr>)"
      "blk P (t\<lparr>fs_device := d\<rparr>) = (blk P s)(?i := ?new)"
      using write_data_ok [OF 2(2) rd(3) _ sw(2)] rd(4) geom(3) blks by auto
    let ?u = "t\<lparr>fs_device := d\<rparr>"
    have run: "block_for P ino l True s = Some (Inr (?w, ino), ?u)"
      unfolding unfold using 2(1) sw(1) d(1) by (simp add: op_simps)
    have used: "fs_used ?u = (fs_used s)(b := True)" using 2(8) by (simp add: fs_used_def)
    have own': "owned ?u b" using 2(3,4) used geom(2,3) by (simp add: owned_def)
    have map: "file_block P ?u ino m = (if m = unat l then b else file_block P s ino m)" if "m < max_logical" for m
      using file_block_slot [OF rd(2) assms(4,5,6), of ino ino ?u ?w m] that d(3) 2(5) assms(6)
      by (simp add: file_block_def)
    have "grown P s ino ?u ino"
      by (rule grown_add [OF assms(2,3) _ _ 2(6) own' map assms(5,7)])
        (use used 2(10) d(3) assms(2) in \<open>auto simp: file_ok_def\<close>)
    moreover have "free_blocks ?u + 1 = free_blocks s"
      using free_blocks_take [OF 2(4,6) used] 2(10) by simp
    moreover have "b \<noteq> 0" using 2(3) by (simp add: first_data_def)
    ultimately show ?thesis using run d(2) 2(5) map [OF assms(5)] by auto
  qed
qed

end

context fs_on_device
begin

lemma block_for_first_indirect:
  assumes "ok s" "file_ok P s ino" "zero_free P s" "direct_count \<le> unat l" "unat l < max_logical" "i_indirect ino = 0"
  shows "(\<exists>t. block_for P ino l True s = Some (Inl (DiskFull 0), t) \<and> ok t \<and> free_blocks s < 2) \<or>
    (\<exists>b ino' t. block_for P ino l True s = Some (Inr (b, ino'), t) \<and> ok t \<and> grown P s ino t ino' \<and>
       file_block P t ino' (unat l) = unat b \<and> unat b \<noteq> 0 \<and> free_blocks t + 2 = free_blocks s \<and> i_indirect ino' \<noteq> 0)"
proof -
  let ?k = "unat l - direct_count"
  have k: "?k < indirect_ptrs" using assms(4,5) by (simp add: max_logical_def)
  have hole: "file_block P s ino m = 0" if "direct_count \<le> m" for m using that assms(6) by (simp add: file_block_def)
  show ?thesis
  proof (cases rule: alloc_block_ok [OF assms(1)])
    case 1
    then have "block_for P ino l True s = Some (Inl (DiskFull 0), s)"
      using assms(4,6) k by (simp add: block_for_def op_simps Let_def)
    then show ?thesis using assms(1) free_blocks_none [OF 1(2)] by simp
  next
    case (2 ib t1)
    note geom1 = sb_geom_eqD [OF 2(10)]
    let ?ib = "word_of_nat ib :: u32"
    let ?ino = "ino\<lparr>i_indirect := ?ib, i_block_count := sat_inc (i_block_count ino)\<rparr>"
    have b1: "blk P t1 = blk P s" using 2(9) by (rule blk_cong)
    have zero: "blk P s ib = replicate block_size 0" using assms(3) 2(3,4,6) by (simp add: zero_free_def)
    have rd: "fs_read_block P ib t1 = Some (Inr (blk P s ib), t1)" "length (blk P s ib) = block_size"
      using read_data_ok [OF 2(2), of ib] 2(4) geom1(3) b1 zero by simp_all
    have ib0: "?ib \<noteq> 0" using 2(3,5) by (metis first_data_def le_zero_eq add_is_0 unsigned_0 zero_neq_numeral)
    have free1: "free_blocks t1 + 1 = free_blocks s" using free_blocks_take [OF 2(4,6,8,10)] .
    have unfold: "block_for P ino l True s = op_bind alloc_block (\<lambda>data.
        op_bind (op_option (mem_write (blk P s ib) (?k * 4) (to_le_bytes data))) (\<lambda>block_bytes'.
        op_bind (fs_write_block P ib block_bytes') (\<lambda>_. op_return (data, ?ino)))) t1"
      using assms(4,6) k 2(1,5) rd(1) by (simp add: block_for_def op_simps Let_def)
    show ?thesis
    proof (cases rule: alloc_block_ok [OF 2(2)])
      case full: 1
      then show ?thesis unfolding unfold using 2(2) free1 by (simp add: op_simps free_blocks_none)
    next
      case new: (2 b t2)
      note geom2 = sb_geom_eqD [OF new(10)]
      let ?w = "word_of_nat b :: u32"
      let ?new = "take (?k * 4) (blk P s ib) @ to_le_bytes ?w @ drop (?k * 4 + 4) (blk P s ib)"
      note sw = slot_write [OF rd(2) k, of ?w]
      have b2: "blk P t2 = blk P s" using blk_cong [OF new(9)] b1 by simp
      have ib3: "3 \<le> ib" using 2(3) by (simp add: first_data_def)
      obtain d where d: "fs_write_block P ib ?new t2 = Some (Inr (), t2\<lparr>fs_device := d\<rparr>)" "ok (t2\<lparr>fs_device := d\<rparr>)"
        "blk P (t2\<lparr>fs_device := d\<rparr>) = (blk P s)(ib := ?new)"
        using write_data_ok [OF new(2) ib3 _ sw(2)] 2(4) geom1(3) geom2(3) b2 by auto
      let ?u = "t2\<lparr>fs_device := d\<rparr>"
      have run: "block_for P ino l True s = Some (Inr (?w, ?ino), ?u)"
        unfolding unfold using new(1) sw(1) d(1) by (simp add: op_simps)
      have used: "fs_used ?u = (fs_used s)(ib := True, b := True)" using 2(8) new(8) by (simp add: fs_used_def)
      have fresh: "\<not> fs_used s b" "b \<noteq> ib" using new(6) 2(8) by (auto split: if_splits)
      have own: "owned ?u b" "owned ?u ib"
        using 2(3,4) new(3,4) used geom1(2,3) geom2(2,3) by (simp_all add: owned_def)
      have map: "file_block P ?u ?ino m = (if m = unat l then b else file_block P s ino m)" if "m < max_logical" for m
        using file_block_slot [of P s ?ib "unat l" ?ino ino ?u ?w m] that d(3) 2(5) new(5) rd(2) assms(4,5) ib0 hole zero
        by (simp add: read_u32_zeros)
      have "grown P s ino ?u ?ino"
        by (rule grown_add [OF assms(2,3) _ _ fresh(1) own(1) map assms(5) hole [OF assms(4)]])
          (use used 2(5,6,10) new(10) d(3) own(2) fresh(2) assms(2,6) in \<open>auto simp: file_ok_def ino_rest_def\<close>)
      moreover have "free_blocks ?u + 1 = free_blocks t1"
        using free_blocks_take [OF new(4,6), of ?u] new(8,10) by (simp add: fs_used_def)
      moreover have "b \<noteq> 0" using new(3) by (simp add: first_data_def)
      ultimately show ?thesis using run d(2) new(5) map [OF assms(5)] free1 ib0 by auto
    qed
  qed
qed

text \<open>All cases together: the blocks it takes from the bitmap decide between success and \<open>DiskFull\<close>.\<close>

lemma block_for_alloc:
  assumes "ok s" "file_ok P s ino" "zero_free P s" "unat l < max_logical"
  obtains (full) t where "block_for P ino l True s = Some (Inl (DiskFull 0), t)" "ok t"
      "free_blocks s < new_blocks P s ino (unat l)"
  | (block) b ino' t where "block_for P ino l True s = Some (Inr (b, ino'), t)" "ok t" "grown P s ino t ino'"
      "file_block P t ino' (unat l) = unat b" "unat b \<noteq> 0"
      "free_blocks t + new_blocks P s ino (unat l) = free_blocks s"
      "new_blocks P s ino (unat l) \<le> 1 \<or> i_indirect ino = 0 \<and> i_indirect ino' \<noteq> 0"
proof (cases "file_block P s ino (unat l) = 0")
  case False
  then show thesis
    using block_for_mapped [OF assms(1,2,4), of True] grown_refl [OF assms(2,3)] assms(1)
    by (auto intro!: block simp: new_blocks_def)
next
  case hole: True
  show thesis
  proof (cases "unat l < direct_count")
    case True
    then have "new_blocks P s ino (unat l) = 1" using hole by (simp add: new_blocks_def)
    then show thesis using block_for_direct_new [OF assms(1-3) True hole] assms(1) full block by force
  next
    case False
    then have dc: "direct_count \<le> unat l" by simp
    show thesis
    proof (cases "i_indirect ino = 0")
      case True
      then have "new_blocks P s ino (unat l) = 2" using hole dc by (simp add: new_blocks_def)
      then show thesis using block_for_first_indirect [OF assms(1-3) dc assms(4) True] True full block by force
    next
      case False
      then have "new_blocks P s ino (unat l) = 1" using hole by (simp add: new_blocks_def)
      then show thesis using block_for_indirect_new [OF assms(1-3) dc assms(4) False hole] assms(1) full block by force
    qed
  qed
qed

end

end
