(* ===== verification/Fs_Dirs.thy ===== *)
theory Fs_Dirs
  imports Fs_Intern Fs_Files
begin

text \<open>
  Directories (\<open>crates/wredit/src/fs.rs\<close>: \<open>find_dirent\<close>, \<open>add_dirent\<close>, \<open>lookup\<close>, \<open>create\<close>, \<open>mkdir\<close>,
  \<open>unlink\<close>): blocks of 128 entries of 32 bytes, a short name in the entry itself, a long one in the
  pool, found through the inode of the entry.
\<close>

section \<open>Blocks of a directory\<close>

definition block_for_direct :: "'d platform \<Rightarrow> inode \<Rightarrow> u32 \<Rightarrow> ('d, u32 option) fs_op" where
  "block_for_direct P ino logical s =
     (if unat logical < direct_count then
        let block = i_direct ino ! unat logical in Some (Inr (if block \<noteq> 0 then Some block else None), s)
      else if i_indirect ino = 0 then Some (Inr None, s)
      else let idx = unat logical - direct_count in
        if idx \<ge> indirect_ptrs then Some (Inr None, s)
        else case fs_read_block P (unat (i_indirect ino)) s of
            None \<Rightarrow> None
          | Some (Inl e, s) \<Rightarrow> Some (Inr None, s)
          | Some (Inr block_bytes, s) \<Rightarrow>
              let block = read_u32 block_bytes (idx * 4) in Some (Inr (if block \<noteq> 0 then Some block else None), s))"

definition block_for_direct_alloc :: "'d platform \<Rightarrow> inode \<Rightarrow> u32 \<Rightarrow> u32 \<Rightarrow> ('d, inode) fs_op" where
  "block_for_direct_alloc P ino logical block =
     (if unat logical < direct_count then
        op_return (ino\<lparr>i_direct := (i_direct ino)[unat logical := block], i_block_count := sat_inc (i_block_count ino)\<rparr>)
      else if i_indirect ino = 0 then op_fail (InvalidOperation ''no indirect block to append into'')
      else let idx = unat logical - direct_count in
        op_bind (fs_read_block P (unat (i_indirect ino))) (\<lambda>block_bytes.
        op_bind (op_option (mem_write block_bytes (idx * 4) (to_le_bytes block))) (\<lambda>block_bytes.
        op_bind (fs_write_block P (unat (i_indirect ino)) block_bytes) (\<lambda>_.
        op_return ino))))"

definition dirent_at :: "u8 list \<Rightarrow> nat \<Rightarrow> dir_entry" where
  "dirent_at block_buf e = de_from_bytes (take dirent_size (drop (e * dirent_size) block_buf))"

section \<open>Finding an entry\<close>

definition entry_name_matches :: "'d platform \<Rightarrow> dir_entry \<Rightarrow> u8 list \<Rightarrow> ('d, bool) fs_op" where
  "entry_name_matches P entry name =
     (if \<not> de_is_pooled entry then
        op_return (length name \<le> name_max \<and> unat (de_name_len entry) = length name \<and>
                   take (length name) (de_name entry) = name)
      else op_bind (read_inode P (de_inode entry)) (\<lambda>ino.
        if i_name_block ino = 0 then op_return False
        else op_bind (read_pool_name P (i_name_block ino) (i_name_off ino)) (\<lambda>stored.
          op_return (stored = name))))"

primrec find_in_block :: "'d platform \<Rightarrow> u8 list \<Rightarrow> u32 \<Rightarrow> u8 list \<Rightarrow> nat list \<Rightarrow> ('d, u32 option) fs_op" where
  "find_in_block P name wanted_hash block_buf [] = op_return None"
| "find_in_block P name wanted_hash block_buf (e # es) =
     (let entry = dirent_at block_buf e in
      if de_inode entry = 0 \<or> de_name_hash entry \<noteq> wanted_hash then find_in_block P name wanted_hash block_buf es
      else op_bind (entry_name_matches P entry name) (\<lambda>found.
        if found then op_return (Some (de_inode entry)) else find_in_block P name wanted_hash block_buf es))"

primrec find_in_dir :: "'d platform \<Rightarrow> inode \<Rightarrow> u8 list \<Rightarrow> u32 \<Rightarrow> nat list \<Rightarrow> ('d, u32) fs_op" where
  "find_in_dir P ino name wanted_hash [] = op_fail (NotFound ''directory entry'')"
| "find_in_dir P ino name wanted_hash (b # bs) =
     op_bind (block_for_direct P ino (word_of_nat b)) (\<lambda>slot.
     case slot of
       None \<Rightarrow> find_in_dir P ino name wanted_hash bs
     | Some block \<Rightarrow>
         op_bind (fs_read_block P (unat block)) (\<lambda>block_buf.
         op_bind (find_in_block P name wanted_hash block_buf [0..<dirents_per_block]) (\<lambda>found.
         case found of
           Some inode \<Rightarrow> op_return inode
         | None \<Rightarrow> find_in_dir P ino name wanted_hash bs)))"

definition find_dirent :: "'d platform \<Rightarrow> u32 \<Rightarrow> u8 list \<Rightarrow> ('d, u32) fs_op" where
  "find_dirent P dir_inode name =
     op_bind (read_inode P dir_inode) (\<lambda>ino.
     if \<not> is_directory ino then op_fail (NotADirectory ''path component'')
     else if length name > max_name_len then op_fail (NameTooLong (length name))
     else if name = [] then op_fail (NotFound ''directory entry'')
     else find_in_dir P ino name (name_hash P name) [0..<div_ceil (unat (i_size ino)) block_size])"

section \<open>Adding an entry\<close>

primrec free_entry_in :: "u8 list \<Rightarrow> nat list \<Rightarrow> nat option" where
  "free_entry_in block_buf [] = None"
| "free_entry_in block_buf (e # es) =
     (if de_inode (dirent_at block_buf e) = 0 then Some e else free_entry_in block_buf es)"

primrec find_free_entry :: "'d platform \<Rightarrow> inode \<Rightarrow> nat list \<Rightarrow> ('d, inode \<times> (u32 \<times> nat) option) fs_op" where
  "find_free_entry P ino [] = op_return (ino, None)"
| "find_free_entry P ino (b # bs) =
     op_bind (block_for_direct P ino (word_of_nat b)) (\<lambda>slot.
     op_bind (case slot of
         Some block \<Rightarrow> op_return (block, ino)
       | None \<Rightarrow> op_bind alloc_block (\<lambda>block.
           op_bind (block_for_direct_alloc P ino (word_of_nat b) block) (\<lambda>ino.
           op_return (block, ino)))) (\<lambda>(block, ino).
     op_bind (fs_read_block P (unat block)) (\<lambda>block_buf.
     case free_entry_in block_buf [0..<dirents_per_block] of
       Some e \<Rightarrow> op_return (ino, Some (block, e))
     | None \<Rightarrow> find_free_entry P ino bs)))"

text \<open>The new entry, and the pool record of a long name through the inode it names.\<close>

definition fill_entry :: "'d platform \<Rightarrow> u8 list \<Rightarrow> u32 \<Rightarrow> file_type \<Rightarrow> ('d, dir_entry) fs_op" where
  "fill_entry P name inode file_type =
     (let entry = de_unused\<lparr>de_inode := inode, de_rec_len := word_of_nat dirent_size,
                            de_file_type := file_type_byte file_type\<rparr> in
      if length name \<le> name_max then
        (let (done, entry) = de_set_name (name_hash P) name entry in
         if \<not> done then op_fail (NameTooLong (length name)) else op_return entry)
      else
        op_bind (intern_name P name) (\<lambda>(pool_block, pool_off).
        let entry = entry\<lparr>de_name_hash := name_hash P name\<rparr> in
        op_bind (read_inode P inode) (\<lambda>target.
        op_bind (write_inode P inode (target\<lparr>i_name_block := pool_block, i_name_off := pool_off,
                                             i_name_len := word_of_nat (length name)\<rparr>)) (\<lambda>_.
        op_return entry))))"

definition add_dirent :: "'d platform \<Rightarrow> u32 \<Rightarrow> u8 list \<Rightarrow> u32 \<Rightarrow> file_type \<Rightarrow> ('d, unit) fs_op" where
  "add_dirent P parent name inode file_type =
     op_bind (read_inode P parent) (\<lambda>ino.
     if \<not> is_directory ino then op_fail (NotADirectory ''parent directory'')
     else if name = [] then op_fail (InvalidOperation ''empty name'')
     else if length name > max_name_len then op_fail (NameTooLong (length name))
     else
       let blocks = div_ceil (unat (i_size ino)) block_size in
       op_bind (find_free_entry P ino [0..<blocks]) (\<lambda>(ino, free_entry_index).
       op_bind (case free_entry_index of
           Some v \<Rightarrow> op_return (v, ino)
         | None \<Rightarrow> op_bind alloc_block (\<lambda>block.
             op_bind (block_for_direct_alloc P ino (word_of_nat blocks) block) (\<lambda>ino.
             if blocks + 1 > u32_max \<or> (blocks + 1) * block_size > u32_max then op_panic
             else op_return ((block, 0), ino\<lparr>i_size := word_of_nat ((blocks + 1) * block_size),
                                             i_block_count := word_of_nat (blocks + 1)\<rparr>)))) (\<lambda>((block, entry_index), ino).
       op_bind (fs_read_block P (unat block)) (\<lambda>block_buf.
       op_bind (fill_entry P name inode file_type) (\<lambda>entry.
       op_bind (op_option (mem_write block_buf (entry_index * dirent_size) (de_to_bytes entry))) (\<lambda>block_buf.
       op_bind (fs_write_block P (unat block) block_buf) (\<lambda>_.
       write_inode P parent ino)))))))"

section \<open>Paths\<close>

definition first_component :: "u8 list \<Rightarrow> u8 list" where
  "first_component rest = takeWhile (\<lambda>c. c \<noteq> 0x2F) rest"

definition after_component :: "u8 list \<Rightarrow> u8 list" where
  "after_component rest = drop (length (first_component rest) + 1) rest"

lemma after_component_shorter: "rest \<noteq> [] \<Longrightarrow> length (after_component rest) < length rest"
  by (cases rest) (simp_all add: after_component_def)

lemma after_rest_shorter:
  "dropWhile (\<lambda>c. c = 0x2F) path \<noteq> [] \<Longrightarrow> length (after_component (dropWhile (\<lambda>c. c = 0x2F) path)) < length path"
  by (rule less_le_trans [OF after_component_shorter length_dropWhile_le])

function lookup_loop :: "'d platform \<Rightarrow> u32 list \<Rightarrow> nat \<Rightarrow> u32 \<Rightarrow> u8 list \<Rightarrow> ('d, u32) fs_op" where
  "lookup_loop P dir_stack depth current path =
     (let rest = dropWhile (\<lambda>c. c = 0x2F) path in
      if rest = [] then op_return current
      else
        let comp = first_component rest; after = after_component rest in
        if comp = [0x2E] then lookup_loop P dir_stack depth current after
        else if comp = [0x2E, 0x2E] then
          (if depth > 0 then lookup_loop P dir_stack (depth - 1) (dir_stack ! (depth - 1)) after
           else lookup_loop P dir_stack depth current after)
        else
          op_bind (find_dirent P current comp) (\<lambda>next.
          op_bind (read_inode P next) (\<lambda>next_ino.
          if after = [] then op_return next
          else if \<not> is_directory next_ino then op_fail (NotADirectory ''path component'')
          else if depth \<ge> depth_max then op_fail (LimitExceeded ''directory nesting'')
          else lookup_loop P (dir_stack[depth := current]) (depth + 1) next after)))"
  by pat_completeness auto

termination
  by (relation "measure (\<lambda>(P, dir_stack, depth, current, path). length path)") (auto intro: after_rest_shorter)

declare lookup_loop.simps [simp del]

definition fs_lookup :: "'d platform \<Rightarrow> u8 list \<Rightarrow> u32 \<Rightarrow> ('d, u32) fs_op" where
  "fs_lookup P path start_inode = lookup_loop P (replicate depth_max 0) 0 start_inode path"

section \<open>Creating and removing\<close>

text \<open>\<open>find_dirent(..).is_ok()\<close>: any error of the search counts as absence.\<close>

definition name_present :: "'d platform \<Rightarrow> u32 \<Rightarrow> u8 list \<Rightarrow> ('d, bool) fs_op" where
  "name_present P parent name s =
     (case find_dirent P parent name s of
        None \<Rightarrow> None
      | Some (Inl e, s) \<Rightarrow> Some (Inr False, s)
      | Some (Inr inode, s) \<Rightarrow> Some (Inr True, s))"

definition fs_create :: "'d platform \<Rightarrow> u32 \<Rightarrow> u8 list \<Rightarrow> u16 \<Rightarrow> ('d, u32) fs_op" where
  "fs_create P parent name mode =
     (if name = [] then op_fail (InvalidOperation ''empty name'')
      else op_bind (name_present P parent name) (\<lambda>present.
        if present then op_fail (AlreadyExists ''name'')
        else op_bind alloc_inode (\<lambda>inode.
          let new_ino = (if mode AND 0x4000 \<noteq> 0 then inode_directory else inode_regular) in
          op_bind (write_inode P inode new_ino) (\<lambda>_.
          let file_type = (if is_directory new_ino then Directory else Regular) in
          op_bind (add_dirent P parent name inode file_type) (\<lambda>_.
          op_return inode)))))"

definition fs_mkdir :: "'d platform \<Rightarrow> u32 \<Rightarrow> u8 list \<Rightarrow> ('d, u32) fs_op" where
  "fs_mkdir P parent name = fs_create P parent name 0x4000"

primrec unlink_in_block :: "'d platform \<Rightarrow> u32 \<Rightarrow> u8 list \<Rightarrow> u32 \<Rightarrow> u32 \<Rightarrow> u8 list \<Rightarrow> nat list \<Rightarrow> ('d, bool) fs_op" where
  "unlink_in_block P target name wanted_hash block block_buf [] = op_return False"
| "unlink_in_block P target name wanted_hash block block_buf (e # es) =
     (let entry = dirent_at block_buf e in
      if de_inode entry = target \<and> de_name_hash entry = wanted_hash then
        op_bind (entry_name_matches P entry name) (\<lambda>found.
        if found then
          let blank = de_unused\<lparr>de_rec_len := word_of_nat dirent_size\<rparr> in
          op_bind (op_option (mem_write block_buf (e * dirent_size) (de_to_bytes blank))) (\<lambda>block_buf.
          op_bind (fs_write_block P (unat block) block_buf) (\<lambda>_.
          op_return True))
        else unlink_in_block P target name wanted_hash block block_buf es)
      else unlink_in_block P target name wanted_hash block block_buf es)"

primrec unlink_in_dir :: "'d platform \<Rightarrow> inode \<Rightarrow> u32 \<Rightarrow> u8 list \<Rightarrow> u32 \<Rightarrow> nat list \<Rightarrow> ('d, unit) fs_op" where
  "unlink_in_dir P ino target name wanted_hash [] = op_fail (NotFound ''directory entry'')"
| "unlink_in_dir P ino target name wanted_hash (b # bs) =
     op_bind (block_for_direct P ino (word_of_nat b)) (\<lambda>slot.
     case slot of
       None \<Rightarrow> unlink_in_dir P ino target name wanted_hash bs
     | Some block \<Rightarrow>
         op_bind (fs_read_block P (unat block)) (\<lambda>block_buf.
         op_bind (unlink_in_block P target name wanted_hash block block_buf [0..<dirents_per_block]) (\<lambda>done.
         if done then op_return () else unlink_in_dir P ino target name wanted_hash bs)))"

definition fs_unlink :: "'d platform \<Rightarrow> u32 \<Rightarrow> u8 list \<Rightarrow> ('d, unit) fs_op" where
  "fs_unlink P parent name =
     op_bind (find_dirent P parent name) (\<lambda>target.
     op_bind (read_inode P parent) (\<lambda>ino.
     unlink_in_dir P ino target name (name_hash P name) [0..<div_ceil (unat (i_size ino)) block_size]))"

definition fs_block_count :: "'d disk_fs \<Rightarrow> u32" where
  "fs_block_count s = sb_block_count (fs_sb s)"

definition fs_root_inode :: "'d disk_fs \<Rightarrow> u32" where
  "fs_root_inode s = sb_root_inode (fs_sb s)"

end
