(* ===== verification/Fs_Content.thy ===== *)
theory Fs_Content
  imports Fs_Files
begin

text \<open>
  The contents of a file as a function from positions to bytes, and the two loops of \<open>read_at\<close> and
  \<open>write_at\<close> against it: a write overrides a range of that function and nothing else, a read
  returns a range of it.
\<close>

section \<open>Contents\<close>

definition max_file :: nat where
  "max_file = max_logical * block_size"

definition file_byte :: "'d platform \<Rightarrow> 'd disk_fs \<Rightarrow> inode \<Rightarrow> nat \<Rightarrow> u8" where
  "file_byte P s ino p =
     (let b = file_block P s ino (p div block_size) in if b = 0 then 0 else blk P s b ! (p mod block_size))"

definition overlay :: "nat \<Rightarrow> 'a list \<Rightarrow> (nat \<Rightarrow> 'a) \<Rightarrow> nat \<Rightarrow> 'a" where
  "overlay a xs f p = (if a \<le> p \<and> p < a + length xs then xs ! (p - a) else f p)"

definition file_set :: "'d platform \<Rightarrow> 'd disk_fs \<Rightarrow> inode \<Rightarrow> nat set" where
  "file_set P s ino = {c. c \<noteq> 0 \<and> ((\<exists>l < max_logical. file_block P s ino l = c) \<or> unat (i_indirect ino) = c)}"

text \<open>The effect of writing \<open>data\<close> at position \<open>a\<close>.\<close>

definition wrote :: "'d platform \<Rightarrow> 'd disk_fs \<Rightarrow> inode \<Rightarrow> nat \<Rightarrow> u8 list \<Rightarrow> 'd disk_fs \<Rightarrow> inode \<Rightarrow> bool" where
  "wrote P s ino a data t ino' \<longleftrightarrow>
     file_ok P t ino' \<and> zero_free P t \<and> sb_geom (fs_sb t) = sb_geom (fs_sb s) \<and> ino_rest ino' = ino_rest ino \<and>
     (\<forall>c. fs_used s c \<longrightarrow> fs_used t c) \<and>
     file_set P t ino' \<subseteq> file_set P s ino \<union> {c. \<not> fs_used s c} \<and>
     (\<forall>l < max_logical. file_block P s ino l \<noteq> 0 \<longrightarrow> file_block P t ino' l = file_block P s ino l) \<and>
     (\<forall>c > 0. fs_used s c \<longrightarrow> c \<notin> file_set P s ino \<longrightarrow> blk P t c = blk P s c) \<and>
     (\<forall>p < max_file. file_byte P t ino' p = overlay a data (file_byte P s ino) p) \<and>
     (\<forall>p. a \<le> p \<longrightarrow> p < a + length data \<longrightarrow> file_block P t ino' (p div block_size) \<noteq> 0)"

lemma wroteD:
  assumes "wrote P s ino a data t ino'"
  shows "file_ok P t ino'" "zero_free P t" "sb_geom (fs_sb t) = sb_geom (fs_sb s)" "ino_rest ino' = ino_rest ino"
    "\<forall>c. fs_used s c \<longrightarrow> fs_used t c" "file_set P t ino' \<subseteq> file_set P s ino \<union> {c. \<not> fs_used s c}"
    "\<forall>l < max_logical. file_block P s ino l \<noteq> 0 \<longrightarrow> file_block P t ino' l = file_block P s ino l"
    "\<forall>c > 0. fs_used s c \<longrightarrow> c \<notin> file_set P s ino \<longrightarrow> blk P t c = blk P s c"
    "\<forall>p < max_file. file_byte P t ino' p = overlay a data (file_byte P s ino) p"
    "\<forall>p. a \<le> p \<longrightarrow> p < a + length data \<longrightarrow> file_block P t ino' (p div block_size) \<noteq> 0"
  using assms unfolding wrote_def by - (elim conjE, assumption)+

lemma overlay_append: "overlay (a + length xs) ys (overlay a xs f) = overlay a (xs @ ys) f"
  by (auto simp: overlay_def fun_eq_iff nth_append)

lemma overlay_Nil [simp]: "overlay a [] f = f"
  by (auto simp: overlay_def fun_eq_iff)

lemma max_file_div: "p < max_file \<Longrightarrow> p div block_size < max_logical"
  by (simp add: max_file_def div_less_iff_less_mult)

lemma grown_set:
  assumes "grown P s ino t ino'"
  shows "file_set P t ino' \<subseteq> file_set P s ino \<union> {c. \<not> fs_used s c}"
proof
  fix c assume "c \<in> file_set P t ino'"
  then consider l where "l < max_logical" "file_block P t ino' l = c" "c \<noteq> 0" | "unat (i_indirect ino') = c" "c \<noteq> 0"
    by (auto simp: file_set_def)
  then show "c \<in> file_set P s ino \<union> {c. \<not> fs_used s c}"
  proof cases
    case 1
    then have "file_block P s ino l = c \<or> \<not> fs_used s c" using assms unfolding grown_def by metis
    then show ?thesis using 1 by (auto simp: file_set_def)
  next
    case 2
    then have "unat (i_indirect ino) = c \<or> \<not> fs_used s c" using assms unfolding grown_def by metis
    then show ?thesis using 2 by (auto simp: file_set_def)
  qed
qed

lemma grown_byte:
  assumes "grown P s ino t ino'" "p < max_file"
  shows "file_byte P t ino' p = file_byte P s ino p"
proof -
  let ?l = "p div block_size" let ?b = "file_block P t ino' ?l"
  have l: "?l < max_logical" using assms(2) by (rule max_file_div)
  have same: "blk P t ?b = blk P s ?b" if "?b \<noteq> 0"
    using assms(1) l that unfolding grown_def file_ok_def by blast
  from assms(1) l have "?b = file_block P s ino ?l \<or>
      file_block P s ino ?l = 0 \<and> blk P s ?b = replicate block_size 0" unfolding grown_def by blast
  then show ?thesis
  proof
    assume "?b = file_block P s ino ?l"
    then show ?thesis using same by (simp add: file_byte_def Let_def)
  next
    assume "file_block P s ino ?l = 0 \<and> blk P s ?b = replicate block_size 0"
    then show ?thesis using same by (simp add: file_byte_def Let_def)
  qed
qed

lemma grown_wrote:
  assumes "grown P s ino t ino'"
  shows "wrote P s ino a [] t ino'"
proof -
  have "blk P t c = blk P s c" if "0 < c" "fs_used s c" "c \<notin> file_set P s ino" for c
  proof -
    have "c \<noteq> unat (i_indirect ino')" using assms that by (auto simp: grown_def file_set_def)
    then show ?thesis using assms by (simp add: grown_def)
  qed
  moreover have "file_block P t ino' l = file_block P s ino l" if "l < max_logical" "file_block P s ino l \<noteq> 0" for l
    using assms that unfolding grown_def by metis
  moreover have "file_byte P t ino' p = overlay a [] (file_byte P s ino) p" if "p < max_file" for p
    using grown_byte [OF assms that] by simp
  moreover have "file_ok P t ino'" "zero_free P t" "sb_geom (fs_sb t) = sb_geom (fs_sb s)" "ino_rest ino' = ino_rest ino"
    "\<forall>c. fs_used s c \<longrightarrow> fs_used t c"
    using assms unfolding grown_def by blast+
  ultimately show ?thesis using grown_set [OF assms] unfolding wrote_def by simp
qed

lemma wrote_trans:
  assumes st: "wrote P s ino a xs t ino1" and tu: "wrote P t ino1 (a + length xs) ys u ino2" and fit: "a + length xs \<le> max_file"
  shows "wrote P s ino a (xs @ ys) u ino2"
proof -
  note s = wroteD [OF st] and t = wroteD [OF tu]
  have set: "file_set P u ino2 \<subseteq> file_set P s ino \<union> {c. \<not> fs_used s c}"
    using s(5,6) t(6) by blast
  have frame: "blk P u c = blk P s c" if "0 < c" "fs_used s c" "c \<notin> file_set P s ino" for c
  proof -
    have "fs_used t c" "c \<notin> file_set P t ino1" "blk P t c = blk P s c" using s(5,6,8) that by blast+
    then show ?thesis using t(8) that(1) by simp
  qed
  have bytes: "file_byte P u ino2 p = overlay a (xs @ ys) (file_byte P s ino) p" if "p < max_file" for p
    using s(9) t(9) that unfolding overlay_append [symmetric] by (simp add: overlay_def)
  have keep: "file_block P u ino2 l = file_block P t ino1 l" if "l < max_logical" "file_block P t ino1 l \<noteq> 0" for l
    using t(7) that by blast
  have keep2: "file_block P u ino2 l = file_block P s ino l" if "l < max_logical" "file_block P s ino l \<noteq> 0" for l
    using s(7) keep [OF that(1)] that by simp
  have mapped: "file_block P u ino2 (p div block_size) \<noteq> 0" if "a \<le> p" "p < a + length (xs @ ys)" for p
  proof (cases "p < a + length xs")
    case True
    then have "file_block P t ino1 (p div block_size) \<noteq> 0" using s(10) that(1) by blast
    then show ?thesis using keep [of "p div block_size"] max_file_div [of p] True fit by simp
  next
    case False
    then show ?thesis using t(10) that by simp
  qed
  show ?thesis
    unfolding wrote_def using s(3,4,5) t(1-5) set frame bytes keep2 mapped by (intro conjI) simp_all
qed

section \<open>Writing one block\<close>

lemma logical_of_eq: "p < max_file \<Longrightarrow> unat (logical_of p) = p div block_size" "p < max_file \<Longrightarrow> skip_of p = p mod block_size"
proof -
  assume p: "p < max_file"
  then have "p div block_size \<le> u32_max" using max_file_div [OF p] by (simp add: file_consts u32_max_def)
  then show l: "unat (logical_of p) = p div block_size" by (simp add: logical_of_def)
  show "skip_of p = p mod block_size" unfolding skip_of_def l by (simp add: minus_div_mult_eq_mod)
qed

lemma file_okD:
  assumes "file_ok P s ino" "l < max_logical" "file_block P s ino l \<noteq> 0"
  shows "owned s (file_block P s ino l)" "file_block P s ino l \<noteq> unat (i_indirect ino)"
    "\<forall>m < max_logical. file_block P s ino m = file_block P s ino l \<longrightarrow> m = l"
  using assms unfolding file_ok_def by simp_all

lemma file_ok_cong:
  assumes "file_ok P t ino" "file_block P u ino = file_block P t ino" "fs_used u = fs_used t" "fs_sb u = fs_sb t"
  shows "file_ok P u ino"
  using assms by (simp add: file_ok_def owned_def)

text \<open>The bytes of a block after part of it was replaced.\<close>

lemma patch_byte:
  assumes "length old = block_size" "skip + length part \<le> block_size" "p div block_size = l"
  shows "(take skip old @ part @ drop (skip + length part) old) ! (p mod block_size) =
    overlay (l * block_size + skip) part (\<lambda>p. old ! (p mod block_size)) p"
proof -
  define j where "j = p mod block_size"
  have p: "p = l * block_size + j" unfolding j_def assms(3) [symmetric] by simp
  have j: "j < block_size" by (simp add: j_def)
  have range: "l * block_size + skip \<le> p \<longleftrightarrow> skip \<le> j" "p < l * block_size + skip + length part \<longleftrightarrow> j < skip + length part"
    "p - (l * block_size + skip) = j - skip"
    unfolding p by (simp_all only: add.assoc nat_add_left_cancel_le nat_add_left_cancel_less diff_cancel)
  show ?thesis
    unfolding overlay_def range j_def [symmetric] using assms(1,2) j by (auto simp: nth_append min_def)
qed

context fs_on_device
begin

lemma data_write:
  assumes "ok t" "file_ok P t ino" "zero_free P t" "l < max_logical" "file_block P t ino l = b" "b \<noteq> 0"
    and part: "skip + length part \<le> block_size"
  obtains d where
    "fs_write_block P b (take skip (blk P t b) @ part @ drop (skip + length part) (blk P t b)) t = Some (Inr (), t\<lparr>fs_device := d\<rparr>)"
    "ok (t\<lparr>fs_device := d\<rparr>)" "wrote P t ino (l * block_size + skip) part (t\<lparr>fs_device := d\<rparr>) ino"
proof -
  let ?new = "take skip (blk P t b) @ part @ drop (skip + length part) (blk P t b)"
  have own: "owned t b" and ind: "b \<noteq> unat (i_indirect ino)" and inj: "\<forall>m < max_logical. file_block P t ino m = b \<longrightarrow> m = l"
    using file_okD [OF assms(2,4)] assms(5,6) by auto
  note rd = owned_read [OF assms(1) own]
  have len: "length ?new = block_size" using part rd(2) by simp
  obtain d where d: "fs_write_block P b ?new t = Some (Inr (), t\<lparr>fs_device := d\<rparr>)" "ok (t\<lparr>fs_device := d\<rparr>)"
    "blk P (t\<lparr>fs_device := d\<rparr>) = (blk P t)(b := ?new)"
    using write_data_ok [OF assms(1) rd(3,4) len] by blast
  let ?u = "t\<lparr>fs_device := d\<rparr>"
  have map: "file_block P ?u ino = file_block P t ino" using d(3) ind by (intro file_block_cong) auto
  have used: "fs_used ?u = fs_used t" by (simp add: fs_used_def)
  have "file_ok P ?u ino" using assms(2) map used by (rule file_ok_cong) simp
  moreover have "zero_free P ?u"
    using assms(3) own d(3) by (auto simp: zero_free_def owned_def fs_used_def)
  moreover have "file_byte P ?u ino p = overlay (l * block_size + skip) part (file_byte P t ino) p" if p: "p < max_file" for p
  proof (cases "p div block_size = l")
    case True
    then show ?thesis
      using patch_byte [OF rd(2) part True] assms(5,6) map d(3) by (simp add: file_byte_def overlay_def Let_def)
  next
    case False
    have "\<not> (l * block_size + skip \<le> p \<and> p < l * block_size + skip + length part)"
    proof
      assume "l * block_size + skip \<le> p \<and> p < l * block_size + skip + length part"
      with part have "l * block_size \<le> p" "p < Suc l * block_size" by simp_all
      then have "p div block_size = l" by (metis div_nat_eqI mult.commute)
      with False show False by simp
    qed
    moreover have "file_block P t ino (p div block_size) \<noteq> b" using inj max_file_div [OF p] False by blast
    ultimately show ?thesis using map d(3) by (auto simp: file_byte_def overlay_def Let_def)
  qed
  moreover have "file_set P ?u ino = file_set P t ino" using map by (simp add: file_set_def)
  moreover have "b \<in> file_set P t ino" using assms(4-6) by (auto simp: file_set_def)
  moreover have "file_block P t ino (p div block_size) \<noteq> 0"
    if "l * block_size + skip \<le> p" "p < l * block_size + skip + length part" for p
  proof -
    have "l * block_size \<le> p" "p < Suc l * block_size" using that part by simp_all
    then have "p div block_size = l" by (metis div_nat_eqI mult.commute)
    then show ?thesis using assms(5,6) by simp
  qed
  ultimately have "wrote P t ino (l * block_size + skip) part ?u ino"
    using used map d(3) by (auto simp: wrote_def)
  with d(1,2) show thesis by (intro that)
qed

end

section \<open>The write loop\<close>

text \<open>The number of logical blocks a write still touches, and one for the indirect block.\<close>

definition write_need :: "nat \<Rightarrow> nat \<Rightarrow> nat \<Rightarrow> inode \<Rightarrow> nat" where
  "write_need offset len written ino =
     (if written < len then (offset + len - 1) div block_size - (offset + written) div block_size + 1 else 0)
     + (if i_indirect ino = 0 then 1 else 0)"

lemma write_need_step:
  assumes "written < len" "n = min (len - written) (block_size - (offset + written) mod block_size)"
    "new \<le> 1 \<or> new \<le> 2 \<and> i_indirect ino = 0 \<and> i_indirect ino' \<noteq> 0" "i_indirect ino \<noteq> 0 \<Longrightarrow> i_indirect ino' \<noteq> 0"
  shows "write_need offset len (written + n) ino' + new \<le> write_need offset len written ino"
proof -
  let ?p = "offset + written"
  have le: "?p div block_size \<le> (offset + len - 1) div block_size" using assms(1) by (intro div_le_mono) simp
  show ?thesis
  proof (cases "written + n < len")
    case True
    then have n: "n = block_size - ?p mod block_size" using assms(1,2) by auto
    have "(?p + n) div block_size = Suc (?p div block_size)"
    proof -
      have "?p + n = Suc (?p div block_size) * block_size"
        using n mod_less_divisor [OF block_size_pos, of ?p] div_mult_mod_eq [of ?p block_size]
        unfolding mult_Suc by linarith
      then show ?thesis by simp
    qed
    moreover have "(?p + n) div block_size \<le> (offset + len - 1) div block_size"
      using True by (intro div_le_mono) simp
    ultimately show ?thesis using True assms(1,3,4) by (auto simp: write_need_def add.assoc)
  next
    case False
    then show ?thesis using assms(1,3,4) by (auto simp: write_need_def)
  qed
qed

lemma new_blocks_bound: "new_blocks P s ino l \<le> write_need offset len written ino" if "written < len"
  using that by (auto simp: new_blocks_def write_need_def)

context fs_on_device
begin

lemma write_part_run:
  assumes "ok t" "file_ok P t ino" "zero_free P t" "p < max_file" "file_block P t ino (p div block_size) = unat b" "unat b \<noteq> 0"
    and n: "0 < n" "written + n \<le> length buf" "p mod block_size + n \<le> block_size"
  obtains d where
    "(if p mod block_size = 0 \<and> n = block_size then
        op_bind (op_option (mem_read buf written n)) (\<lambda>part. fs_write_block P (unat b) part)
      else op_bind (fs_read_block P (unat b)) (\<lambda>block_buf.
        op_bind (op_option (mem_read buf written n)) (\<lambda>part.
        op_bind (op_option (mem_write block_buf (p mod block_size) part)) (\<lambda>block_buf'.
        fs_write_block P (unat b) block_buf')))) t = Some (Inr (), t\<lparr>fs_device := d\<rparr>)"
    "ok (t\<lparr>fs_device := d\<rparr>)" "wrote P t ino p (take n (drop written buf)) (t\<lparr>fs_device := d\<rparr>) ino"
proof -
  let ?part = "take n (drop written buf)" and ?skip = "p mod block_size" and ?l = "p div block_size"
  let ?old = "blk P t (unat b)"
  have l: "?l < max_logical" using assms(4) by (rule max_file_div)
  have len: "length ?part = n" using n(2) by simp
  have "owned t (unat b)" using file_okD(1) [OF assms(2) l] assms(5,6) by simp
  note rd = owned_read [OF assms(1) this]
  obtain d where d: "fs_write_block P (unat b) (take ?skip ?old @ ?part @ drop (?skip + n) ?old) t = Some (Inr (), t\<lparr>fs_device := d\<rparr>)"
    "ok (t\<lparr>fs_device := d\<rparr>)" "wrote P t ino (?l * block_size + ?skip) ?part (t\<lparr>fs_device := d\<rparr>) ino"
    using data_write [OF assms(1-3) l assms(5,6), of ?skip ?part] n(3) len by auto
  have whole: "take ?skip ?old @ ?part @ drop (?skip + n) ?old = ?part" if "?skip = 0" "n = block_size"
    using that rd(2) by simp
  have "?l * block_size + ?skip = p" by simp
  with d show thesis
    using whole rd(1,2) n(2,3) len by (intro that [of d]) (auto simp: op_simps mem_simps)
qed

end

context fs_on_device
begin

lemma write_loop_run:
  assumes "ok s" "file_ok P s ino" "zero_free P s" "offset + length buf \<le> max_file" "written \<le> length buf"
  shows "(\<exists>t. write_loop P offset buf ino written s = Some (Inl (DiskFull 0), t) \<and> ok t \<and>
            free_blocks s < write_need offset (length buf) written ino) \<or>
    (\<exists>t ino'. write_loop P offset buf ino written s = Some (Inr (length buf, ino'), t) \<and> ok t \<and>
       wrote P s ino (offset + written) (drop written buf) t ino')"
  using assms
proof (induction "length buf - written" arbitrary: s ino written rule: less_induct)
  case less
  show ?case
  proof (cases "written < length buf")
    case False
    then show ?thesis
      using less.prems grown_wrote [OF grown_refl [OF less.prems(2,3)]] by (simp add: write_loop.simps op_simps)
  next
    case True
    let ?p = "offset + written"
    define n where "n = min (length buf - written) (block_size - ?p mod block_size)"
    have p: "?p < max_file" using True less.prems(4) by simp
    have lim: "\<not> ?p > usize_max"
      using p by (simp add: max_file_def file_consts block_size_def usize_max_def)
    have skip: "?p mod block_size < block_size" by simp
    have n: "0 < n" "written + n \<le> length buf" "?p mod block_size + n \<le> block_size"
      using True skip unfolding n_def by linarith+
    have l: "unat (logical_of ?p) < max_logical" "unat (logical_of ?p) = ?p div block_size"
      using logical_of_eq(1) [OF p] max_file_div [OF p] by simp_all
    show ?thesis
    proof (cases rule: block_for_alloc [OF less.prems(1-3) l(1)])
      case (1 t)
      have "write_loop P offset buf ino written s = Some (Inl (DiskFull 0), t)"
        using True lim 1(1) by (simp add: write_loop.simps [of P offset buf ino written] op_simps Let_def)
      then show ?thesis
        using 1(2,3) new_blocks_bound [OF True, of P s ino "unat (logical_of ?p)" offset] by (intro disjI1) force
    next
      case (2 b ino1 t)
      have t: "file_ok P t ino1" "zero_free P t" using 2(3) by (simp_all add: grown_def)
      obtain d where d: "(if ?p mod block_size = 0 \<and> n = block_size then
            op_bind (op_option (mem_read buf written n)) (\<lambda>part. fs_write_block P (unat b) part)
          else op_bind (fs_read_block P (unat b)) (\<lambda>block_buf.
            op_bind (op_option (mem_read buf written n)) (\<lambda>part.
            op_bind (op_option (mem_write block_buf (?p mod block_size) part)) (\<lambda>block_buf'.
            fs_write_block P (unat b) block_buf')))) t = Some (Inr (), t\<lparr>fs_device := d\<rparr>)"
        "ok (t\<lparr>fs_device := d\<rparr>)" "wrote P t ino1 ?p (take n (drop written buf)) (t\<lparr>fs_device := d\<rparr>) ino1"
        using write_part_run [OF 2(2) t p _ 2(5) n] 2(4) l(2) by metis
      let ?u = "t\<lparr>fs_device := d\<rparr>"
      have step: "write_loop P offset buf ino written s = write_loop P offset buf ino1 (written + n) ?u"
      proof -
        have "\<not> block_size \<le> ?p mod block_size" unfolding not_le by (rule skip)
        then show ?thesis
          unfolding write_loop.simps [of P offset buf ino written] Let_def if_P [OF True] if_not_P [OF lim]
            op_bind_run(3) [of "block_for P ino (logical_of ?p) True", OF 2(1)] prod.case logical_of_eq(2) [OF p]
            n_def [symmetric]
          using d(1) by (simp only: op_bind_run(3) if_False)
      qed
      have w: "wrote P s ino ?p (take n (drop written buf)) ?u ino1"
        using wrote_trans [OF grown_wrote [OF 2(3), of ?p], of "take n (drop written buf)" ?u ino1] d(3) p by simp
      have u: "file_ok P ?u ino1" "zero_free P ?u" using d(3) by (simp_all add: wrote_def)
      have free: "free_blocks ?u = free_blocks t" by (rule free_blocks_cong) (simp_all add: fs_used_def)
      have new: "new_blocks P s ino (unat (logical_of ?p)) \<le> 1 \<or>
          new_blocks P s ino (unat (logical_of ?p)) \<le> 2 \<and> i_indirect ino = 0 \<and> i_indirect ino1 \<noteq> 0"
        using 2(7) by (auto simp: new_blocks_def)
      have ind: "i_indirect ino \<noteq> 0 \<Longrightarrow> i_indirect ino1 \<noteq> 0" using 2(3) by (auto simp: grown_def)
      have need: "write_need offset (length buf) (written + n) ino1 + new_blocks P s ino (unat (logical_of ?p))
          \<le> write_need offset (length buf) written ino"
        using write_need_step [OF True _ new ind] n_def by simp
      have "length buf - (written + n) < length buf - written" using n(1) True by linarith
      from less.hyps [OF this d(2) u less.prems(4) n(2)] show ?thesis
      proof
        assume "\<exists>v. write_loop P offset buf ino1 (written + n) ?u = Some (Inl (DiskFull 0), v) \<and> ok v \<and>
          free_blocks ?u < write_need offset (length buf) (written + n) ino1"
        then show ?thesis unfolding step using free 2(6) need by (intro disjI1) force
      next
        assume "\<exists>v ino'. write_loop P offset buf ino1 (written + n) ?u = Some (Inr (length buf, ino'), v) \<and> ok v \<and>
          wrote P ?u ino1 (offset + (written + n)) (drop (written + n) buf) v ino'"
        then obtain v ino' where v: "write_loop P offset buf ino1 (written + n) ?u = Some (Inr (length buf, ino'), v)"
          "ok v" "wrote P ?u ino1 (?p + n) (drop (written + n) buf) v ino'" by (auto simp: add.assoc)
        have "length (take n (drop written buf)) = n" "take n (drop written buf) @ drop (written + n) buf = drop written buf"
          using n(2) by (simp_all add: add.commute flip: drop_drop)
        then have "wrote P s ino ?p (drop written buf) v ino'"
          using wrote_trans [OF w, of "drop (written + n) buf" v ino'] v(3) n(2) less.prems(4) by simp
        with v(1,2) show ?thesis unfolding step by blast
      qed
    qed
  qed
qed

end

end
