(* ===== verification/Fs_Read_Write.thy ===== *)
theory Fs_Read_Write
  imports Fs_Content
begin

text \<open>
  The read loop, the two operations \<open>read_at\<close> and \<open>write_at\<close> as a whole, and their properties on a
  memory disk.
\<close>

section \<open>The read loop\<close>

lemma block_part_bytes:
  assumes "length bs = block_size" "p mod block_size + n \<le> block_size" "blk P s (file_block P s ino (p div block_size)) = bs"
    "file_block P s ino (p div block_size) \<noteq> 0"
  shows "take n (drop (p mod block_size) bs) = map (file_byte P s ino) [p..<p + n]"
proof (rule nth_equalityI)
  fix i assume "i < length (take n (drop (p mod block_size) bs))"
  then have i: "i < n" by simp
  define q where "q = p div block_size"
  define r where "r = p mod block_size"
  have pq: "p = q * block_size + r" unfolding q_def r_def by simp
  have ri: "r + i < block_size" using i assms(2) unfolding r_def by linarith
  have sum: "p + i = r + i + q * block_size" using pq by simp
  have "(p + i) div block_size = q" "(p + i) mod block_size = r + i"
    unfolding sum using ri by (simp_all add: div_mult_self1)
  then show "take n (drop (p mod block_size) bs) ! i = map (file_byte P s ino) [p..<p + n] ! i"
    using i assms ri unfolding q_def [symmetric] r_def [symmetric] by (simp add: file_byte_def)
qed (use assms in simp)

context fs_on_device
begin

lemma read_loop_run:
  assumes "ok s" "file_ok P s ino" "offset + want \<le> max_file" "want \<le> length buf" "read \<le> want"
    "\<forall>p. offset + read \<le> p \<longrightarrow> p < offset + want \<longrightarrow> file_block P s ino (p div block_size) \<noteq> 0"
  shows "read_loop P offset want ino read buf s =
    Some (Inr (want, take read buf @ map (file_byte P s ino) [offset + read..<offset + want] @ drop want buf), s)"
  using assms(4-6)
proof (induction "want - read" arbitrary: read buf rule: less_induct)
  case less
  show ?case
  proof (cases "read < want")
    case False
    then show ?thesis using less.prems by (simp add: read_loop.simps op_simps)
  next
    case True
    let ?p = "offset + read"
    define n where "n = min (min want (block_size - ?p mod block_size)) (want - read)"
    have p: "?p < max_file" using True assms(3) by simp
    have lim: "\<not> ?p > usize_max" using p by (simp add: max_file_def file_consts block_size_def usize_max_def)
    have skip: "?p mod block_size < block_size" by simp
    have n: "0 < n" "read + n \<le> want" "?p mod block_size + n \<le> block_size"
      using True skip unfolding n_def by linarith+
    have l: "unat (logical_of ?p) < max_logical" "unat (logical_of ?p) = ?p div block_size"
      using logical_of_eq(1) [OF p] max_file_div [OF p] by simp_all
    have mapped: "file_block P s ino (?p div block_size) \<noteq> 0" using less.prems(3) True by simp
    obtain b where b: "block_for P ino (logical_of ?p) False s = Some (Inr (b, ino), s)"
      "unat b = file_block P s ino (?p div block_size)"
      using block_for_mapped [OF assms(1,2) l(1), of False] mapped l(2) by auto
    have own: "owned s (unat b)" using file_okD(1) [OF assms(2) _ mapped] l b(2) by simp
    note rd = owned_read [OF assms(1) own]
    have part: "take n (drop (?p mod block_size) (blk P s (unat b))) = map (file_byte P s ino) [?p..<?p + n]"
      using block_part_bytes [OF rd(2) n(3)] mapped b(2) by metis
    let ?buf = "take read buf @ map (file_byte P s ino) [?p..<?p + n] @ drop (read + n) buf"
    have step: "read_loop P offset want ino read buf s = read_loop P offset want ino (read + n) ?buf s"
    proof -
      have ns: "\<not> block_size \<le> ?p mod block_size" unfolding not_le by (rule skip)
      have mr: "mem_read (blk P s (unat b)) (?p mod block_size) n = Some (map (file_byte P s ino) [?p..<?p + n])"
        using rd(2) n(3) part by (simp add: mem_simps)
      have mw: "mem_write buf read (map (file_byte P s ino) [?p..<?p + n]) = Some ?buf"
        using n(2) less.prems(1) by (simp add: mem_simps)
      show ?thesis
        unfolding read_loop.simps [of P offset want ino read buf] Let_def if_P [OF True] if_not_P [OF lim]
          op_bind_run(3) [of "block_for P ino (logical_of ?p) False", OF b(1)] prod.case
          op_bind_run(3) [of "fs_read_block P (unat b)", OF rd(1)] logical_of_eq(2) [OF p] if_not_P [OF ns] n_def [symmetric]
        using mr mw by (simp add: op_simps)
    qed
    have "length ?buf = length buf" using n(2) less.prems(1) by simp
    moreover have "want - (read + n) < want - read" using n(1) True by linarith
    ultimately have ih: "read_loop P offset want ino (read + n) ?buf s =
        Some (Inr (want, take (read + n) ?buf @ map (file_byte P s ino) [offset + (read + n)..<offset + want] @ drop want ?buf), s)"
      using less.hyps [of "read + n" ?buf] less.prems n(2) by simp
    have "take (read + n) ?buf = take read buf @ map (file_byte P s ino) [?p..<?p + n]" "drop want ?buf = drop want buf"
      using n(2) less.prems(1) by simp_all
    moreover have "[?p..<offset + want] = [?p..<?p + n] @ [?p + n..<offset + want]"
      using n(2) by (metis add.assoc add_left_mono le_add1 upt_add_eq_append le_Suc_ex)
    ultimately show ?thesis unfolding step ih by (simp add: add.assoc)
  qed
qed

end

section \<open>Writing a file\<close>

lemma max_file_bound: "p \<le> max_file \<Longrightarrow> p \<le> u32_max" "p \<le> max_file \<Longrightarrow> p \<le> usize_max"
  by (simp_all add: max_file_def file_consts block_size_def usize_max_def u32_max_def)

text \<open>What a successful write of \<open>buf\<close> at \<open>offset\<close> into inode \<open>n\<close> leaves.\<close>

definition file_written :: "'d platform \<Rightarrow> 'd disk_fs \<Rightarrow> u32 \<Rightarrow> nat \<Rightarrow> u8 list \<Rightarrow> 'd disk_fs \<Rightarrow> bool" where
  "file_written P s n offset buf t \<longleftrightarrow>
     file_ok P t (inode_at P t n) \<and> zero_free P t \<and> valid_inode t n \<and>
     unat (i_size (inode_at P t n)) = max (unat (i_size (inode_at P s n))) (offset + length buf) \<and>
     (\<forall>p < max_file. file_byte P t (inode_at P t n) p = overlay offset buf (file_byte P s (inode_at P s n)) p) \<and>
     (\<forall>p. offset \<le> p \<longrightarrow> p < offset + length buf \<longrightarrow> file_block P t (inode_at P t n) (p div block_size) \<noteq> 0) \<and>
     (\<forall>m. valid_inode s m \<longrightarrow> m \<noteq> n \<longrightarrow> inode_at P t m = inode_at P s m) \<and>
     (\<forall>c \<ge> first_data (fs_sb s). fs_used s c \<longrightarrow> c \<notin> file_set P s (inode_at P s n) \<longrightarrow> blk P t c = blk P s c)"

context fs_on_device
begin

lemma file_set_data:
  assumes "file_ok P s ino" "c \<in> file_set P s ino"
  shows "first_data (fs_sb s) \<le> c"
  using assms file_okD(1) [OF assms(1)] by (auto simp: file_set_def file_ok_def owned_def unat_eq_zero)

lemma table_not_file:
  assumes "ok s" "valid_inode s m" "file_ok P s ino"
  shows "0 < table_block m" "fs_used s (table_block m)" "table_block m \<notin> file_set P s ino"
  using table_place(2,3) [OF assms(1,2)] assms(1) file_set_data [OF assms(3)]
  by (auto simp: fs_ok_def fs_used_def simp flip: not_less)

lemma save_inode:
  assumes "ok u" "valid_inode u n" "file_ok P u ino1" "i_direct ino2 = i_direct ino1" "i_indirect ino2 = i_indirect ino1"
  obtains d where "write_inode P n ino2 u = Some (Inr (), u\<lparr>fs_device := d\<rparr>)" "ok (u\<lparr>fs_device := d\<rparr>)"
    "inode_at P (u\<lparr>fs_device := d\<rparr>) n = ino2" "file_ok P (u\<lparr>fs_device := d\<rparr>) ino2"
    "file_block P (u\<lparr>fs_device := d\<rparr>) ino2 = file_block P u ino1"
    "\<And>p. p < max_file \<Longrightarrow> file_byte P (u\<lparr>fs_device := d\<rparr>) ino2 p = file_byte P u ino1 p"
    "\<And>m. m \<noteq> 0 \<Longrightarrow> m \<noteq> n \<Longrightarrow> inode_at P (u\<lparr>fs_device := d\<rparr>) m = inode_at P u m"
    "\<And>b. first_data (fs_sb u) \<le> b \<Longrightarrow> blk P (u\<lparr>fs_device := d\<rparr>) b = blk P u b"
proof -
  have len: "length (i_direct ino2) = direct_count" using assms(3,4) by (simp add: file_ok_def)
  obtain d where d: "write_inode P n ino2 u = Some (Inr (), u\<lparr>fs_device := d\<rparr>)" "ok (u\<lparr>fs_device := d\<rparr>)"
    "inode_at P (u\<lparr>fs_device := d\<rparr>) n = ino2"
    "\<forall>m. m \<noteq> 0 \<longrightarrow> m \<noteq> n \<longrightarrow> inode_at P (u\<lparr>fs_device := d\<rparr>) m = inode_at P u m"
    "\<forall>b. b \<noteq> table_block n \<longrightarrow> blk P (u\<lparr>fs_device := d\<rparr>) b = blk P u b"
    using write_inode_run [OF assms(1,2) len] by metis
  let ?t = "u\<lparr>fs_device := d\<rparr>"
  have data: "blk P ?t b = blk P u b" if "first_data (fs_sb u) \<le> b" for b
    using d(5) table_place(3) [OF assms(1,2)] that by simp
  have map: "file_block P ?t ino2 = file_block P u ino1"
    using assms(3-5) data by (intro file_block_cong) (simp_all add: file_ok_def owned_def)
  have fok: "file_ok P ?t ino2"
    using assms(3-5) map by (simp add: file_ok_def owned_def fs_used_def)
  have "file_byte P ?t ino2 p = file_byte P u ino1 p" if "p < max_file" for p
  proof -
    have "first_data (fs_sb u) \<le> file_block P u ino1 (p div block_size)" if "file_block P u ino1 (p div block_size) \<noteq> 0"
      using file_okD(1) [OF assms(3) max_file_div [OF \<open>p < max_file\<close>] that] by (simp add: owned_def)
    then show ?thesis using map data by (auto simp: file_byte_def Let_def)
  qed
  with that d data map fok show thesis by blast
qed

lemma write_at_run:
  assumes ino_def: "ino = inode_at P s n"
    and "ok s" "valid_inode s n" "file_ok P s ino" "zero_free P s" "buf \<noteq> []" "offset + length buf \<le> max_file"
  shows "(\<exists>t. write_at P n offset buf s = Some (Inl (DiskFull 0), t) \<and> ok t \<and>
            free_blocks s < write_need offset (length buf) 0 ino) \<or>
    (\<exists>t. write_at P n offset buf s = Some (Inr (length buf), t) \<and> ok t \<and> file_written P s n offset buf t)"
proof -
  have rd: "read_inode P n s = Some (Inr ino, s)" using read_inode_run [OF assms(2,3)] by (simp add: ino_def)
  from write_loop_run [OF assms(2,4,5,7) le0] show ?thesis
  proof
    assume "\<exists>t. write_loop P offset buf ino 0 s = Some (Inl (DiskFull 0), t) \<and> ok t \<and>
      free_blocks s < write_need offset (length buf) 0 ino"
    then show ?thesis using rd assms(6) by (auto simp: write_at_def op_simps)
  next
    assume "\<exists>t ino'. write_loop P offset buf ino 0 s = Some (Inr (length buf, ino'), t) \<and> ok t \<and>
      wrote P s ino (offset + 0) (drop 0 buf) t ino'"
    then obtain u ino1 where u: "write_loop P offset buf ino 0 s = Some (Inr (length buf, ino1), u)" "ok u"
      and w: "wrote P s ino offset buf u ino1" by auto
    let ?size = "word_of_nat (offset + length buf) :: u32"
    define ino2 where "ino2 = (if ?size > i_size ino1 then ino1\<lparr>i_size := ?size\<rparr> else ino1)
      \<lparr>i_block_count := word_of_nat (min (unat (logical_of (offset + length buf - 1)) + 1) (direct_count + indirect_ptrs))\<rparr>"
    note bound = max_file_bound [OF assms(7)]
    have geom: "sb_geom (fs_sb u) = sb_geom (fs_sb s)" and fok: "file_ok P u ino1" using w by (simp_all add: wrote_def)
    have valid: "valid_inode u m \<longleftrightarrow> valid_inode s m" for m
      using sb_geom_eqD(4) [OF geom] by (simp add: valid_inode_def)
    have ptr: "i_direct ino2 = i_direct ino1" "i_indirect ino2 = i_indirect ino1" by (simp_all add: ino2_def)
    have valid_u: "valid_inode u n" using valid assms(3) by simp
    from save_inode [OF u(2) valid_u fok ptr] obtain d where
      d: "write_inode P n ino2 u = Some (Inr (), u\<lparr>fs_device := d\<rparr>)" "ok (u\<lparr>fs_device := d\<rparr>)"
        "inode_at P (u\<lparr>fs_device := d\<rparr>) n = ino2" "file_ok P (u\<lparr>fs_device := d\<rparr>) ino2"
        "file_block P (u\<lparr>fs_device := d\<rparr>) ino2 = file_block P u ino1"
      and dbyte: "\<And>p. p < max_file \<Longrightarrow> file_byte P (u\<lparr>fs_device := d\<rparr>) ino2 p = file_byte P u ino1 p"
      and dino: "\<And>m. m \<noteq> 0 \<Longrightarrow> m \<noteq> n \<Longrightarrow> inode_at P (u\<lparr>fs_device := d\<rparr>) m = inode_at P u m"
      and dblk: "\<And>b. first_data (fs_sb u) \<le> b \<Longrightarrow> blk P (u\<lparr>fs_device := d\<rparr>) b = blk P u b" by metis
    let ?t = "u\<lparr>fs_device := d\<rparr>"
    have last: "\<not> unat (logical_of (offset + length buf - 1)) + 1 > u32_max"
      using logical_of_eq(1) [of "offset + length buf - 1"] max_file_div [of "offset + length buf - 1"] assms(6,7)
      by (cases buf) (simp_all add: file_consts u32_max_def)
    have run: "write_at P n offset buf s = Some (Inr (length buf), ?t)"
    proof -
      have "\<not> offset + length buf > usize_max" using bound(2) by simp
      then have "write_at P n offset buf s = op_bind (write_inode P n ino2) (\<lambda>_. op_return (length buf)) u"
        unfolding write_at_def if_not_P [OF assms(6)] op_bind_run(3) [of "read_inode P n", OF rd]
          op_bind_run(3) [of "write_loop P offset buf ino 0", OF u(1)] prod.case Let_def ino2_def [symmetric] if_not_P [OF last]
        by (simp only: if_False)
      then show ?thesis using d(1) by (simp add: op_simps)
    qed
    have size: "i_size ino1 = i_size ino" using w by (auto simp: wrote_def ino_rest_def dest!: arg_cong [of _ _ i_size])
    have "unat (i_size ino2) = max (unat (i_size ino)) (offset + length buf)"
      using size word_of_nat_u32 [OF bound(1)] by (auto simp: ino2_def word_less_nat_alt max_def simp del: of_nat_add)
    moreover have "zero_free P ?t"
      using w dblk by (auto simp: wrote_def zero_free_def fs_used_def)
    moreover have "inode_at P ?t m = inode_at P s m" if "valid_inode s m" "m \<noteq> n" for m
    proof -
      have "inode_at P u m = inode_at P s m"
        using w table_not_file [OF assms(2) that(1) assms(4)] by (intro inode_at_cong) (simp add: wrote_def)
      then show ?thesis using dino [of m] that by (simp add: valid_inode_def)
    qed
    moreover have "blk P ?t c = blk P s c" if "first_data (fs_sb s) \<le> c" "fs_used s c" "c \<notin> file_set P s ino" for c
    proof -
      have "0 < c" using that(1) by (simp add: first_data_def)
      then show ?thesis using w that dblk [of c] sb_geom_eqD(2) [OF geom] by (simp add: wrote_def)
    qed
    moreover have "valid_inode ?t n" using valid_u by (simp add: valid_inode_def)
    ultimately have "file_written P s n offset buf ?t"
      using w d(3-5) dbyte unfolding file_written_def wrote_def ino_def [symmetric] by simp
    with run d(2) show ?thesis by blast
  qed
qed

end

context fs_on_device
begin

lemma read_at_run:
  assumes "ok s" "valid_inode s n" "ino = inode_at P s n" "file_ok P s ino" "unat (i_size ino) \<le> max_file"
    "\<forall>p. offset \<le> p \<longrightarrow> p < offset + length buf \<longrightarrow> p < unat (i_size ino) \<longrightarrow> file_block P s ino (p div block_size) \<noteq> 0"
  shows "read_at P n offset buf s =
    (let want = min (length buf) (unat (i_size ino) - offset)
     in Some (Inr (want, map (file_byte P s ino) [offset..<offset + want] @ drop want buf), s))"
proof (cases "offset \<ge> unat (i_size ino) \<or> buf = []")
  case True
  then have "read_at P n offset buf s = Some (Inr (0, buf), s)"
    using read_inode_run [OF assms(1,2)] assms(3) by (auto simp: read_at_def op_simps)
  moreover have "min (length buf) (unat (i_size ino) - offset) = 0" using True by auto
  ultimately show ?thesis by simp
next
  case False
  let ?want = "min (length buf) (unat (i_size ino) - offset)"
  have "read_at P n offset buf s = read_loop P offset ?want ino 0 buf s"
    using False read_inode_run [OF assms(1,2)] assms(3) by (simp add: read_at_def op_simps Let_def)
  also have "\<dots> = Some (Inr (?want, take 0 buf @ map (file_byte P s ino) [offset + 0..<offset + ?want] @ drop ?want buf), s)"
    using assms(4-6) False by (intro read_loop_run [OF assms(1,4)]) auto
  finally show ?thesis by (simp add: Let_def)
qed

text \<open>Reading back what was just written.\<close>

lemma read_written:
  assumes "ok t" "file_written P s n offset buf t" "offset + length buf \<le> max_file"
    "unat (i_size (inode_at P s n)) \<le> max_file" "length out = length buf"
  shows "read_at P n offset out t = Some (Inr (length buf, buf), t)"
proof -
  let ?ino = "inode_at P t n"
  have w: "file_ok P t ?ino" "valid_inode t n"
    "unat (i_size ?ino) = max (unat (i_size (inode_at P s n))) (offset + length buf)"
    "\<forall>p < max_file. file_byte P t ?ino p = overlay offset buf (file_byte P s (inode_at P s n)) p"
    "\<forall>p. offset \<le> p \<longrightarrow> p < offset + length buf \<longrightarrow> file_block P t ?ino (p div block_size) \<noteq> 0"
    using assms(2) unfolding file_written_def by simp_all
  have want: "min (length out) (unat (i_size ?ino) - offset) = length buf" using w(3) assms(5) by simp
  have "map (file_byte P t ?ino) [offset..<offset + length buf] = buf"
    using w(4) assms(3) by (intro nth_equalityI) (simp_all add: overlay_def)
  then show ?thesis
    using read_at_run [OF assms(1) w(2) refl w(1), of offset out] w(3,5) assms(3-5)
    unfolding want Let_def by simp
qed

lemma written_other_file:
  assumes "ok s" "file_written P s n offset buf t" "valid_inode s m" "m \<noteq> n" "file_ok P s (inode_at P s m)"
    "file_set P s (inode_at P s m) \<inter> file_set P s (inode_at P s n) = {}" "p < max_file"
  shows "file_byte P t (inode_at P t m) p = file_byte P s (inode_at P s m) p"
proof -
  let ?ino = "inode_at P s m"
  have same: "inode_at P t m = ?ino"
    "\<forall>c \<ge> first_data (fs_sb s). fs_used s c \<longrightarrow> c \<notin> file_set P s (inode_at P s n) \<longrightarrow> blk P t c = blk P s c"
    using assms(2-4) unfolding file_written_def by simp_all
  have mine: "blk P t c = blk P s c" if "c \<in> file_set P s ?ino" "fs_used s c" for c
    using same(2) file_set_data [OF assms(5) that(1)] that assms(6) by blast
  have ind: "unat (i_indirect ?ino) \<in> file_set P s ?ino" "fs_used s (unat (i_indirect ?ino))" if "i_indirect ?ino \<noteq> 0"
    using that assms(5) by (simp_all add: file_set_def file_ok_def owned_def unat_gt_0)
  have map: "file_block P t ?ino = file_block P s ?ino" using mine ind by (intro file_block_cong) simp_all
  let ?l = "p div block_size"
  have "blk P t (file_block P s ?ino ?l) = blk P s (file_block P s ?ino ?l)" if "file_block P s ?ino ?l \<noteq> 0"
    using mine [of "file_block P s ?ino ?l"] file_okD(1) [OF assms(5) max_file_div [OF assms(7)] that] max_file_div [OF assms(7)] that
    by (auto simp: file_set_def owned_def)
  then show ?thesis unfolding same(1) using map by (auto simp: file_byte_def Let_def)
qed

end

section \<open>Properties\<close>

lemma fresh_file_ok:
  assumes "i_direct ino = replicate direct_count 0" "i_indirect ino = 0"
  shows "file_ok P s ino"
  using assms by (auto simp: file_ok_def file_block_def)

lemma root_dir_blocks: "b \<le> u32_max \<Longrightarrow> file_block P s (root_dir b) l = (if l = 0 then b else 0)" if "l < max_logical"
  by (cases l) (simp_all add: file_block_def root_dir_def inode_directory_def with_mode_def direct_count_eq nth_Cons')

lemma demo_file:
  obtains d s0 s where "md_new (\<lambda>_. True) 64 = Inr d" "fs_format (mem_platform False) d 64 32 = Some (Inr s0)"
    "write_inode (mem_platform False) 3 inode_regular s0 = Some (Inr (), s)" "mem_ok False s"
    "valid_inode s 3" "inode_at (mem_platform False) s 3 = inode_regular"
    "file_ok (mem_platform False) s inode_regular" "zero_free (mem_platform False) s" "free_blocks s = 59"
    "valid_inode s 2" "inode_at (mem_platform False) s 2 = root_dir 4" "file_ok (mem_platform False) s (root_dir 4)"
proof -
  let ?P = "mem_platform False"
  obtain d s0 where f: "md_new (\<lambda>_. True) 64 = Inr d" "fs_format ?P d 64 32 = Some (Inr s0)" "mem_ok False s0"
    "unat (sb_block_count (fs_sb s0)) = 64" "unat (sb_inode_count (fs_sb s0)) = 32" "first_data (fs_sb s0) = 4"
    "fs_used s0 = (\<lambda>b. b \<le> 4)" "\<forall>b > 4. b < 64 \<longrightarrow> blk ?P s0 b = replicate block_size 0"
    "inode_at ?P s0 2 = root_dir 4"
    by (rule demo_format)
  have v: "valid_inode s0 3" "valid_inode s0 2" using f(5) by (simp_all add: valid_inode_def word_le_nat_alt)
  have len: "length (i_direct inode_regular) = direct_count" by (simp add: inode_regular_def with_mode_def)
  obtain d1 where d1: "write_inode ?P 3 inode_regular s0 = Some (Inr (), s0\<lparr>fs_device := d1\<rparr>)"
    "mem_ok False (s0\<lparr>fs_device := d1\<rparr>)" "inode_at ?P (s0\<lparr>fs_device := d1\<rparr>) 3 = inode_regular"
    "\<forall>b. b \<noteq> table_block 3 \<longrightarrow> blk ?P (s0\<lparr>fs_device := d1\<rparr>) b = blk ?P s0 b"
    "\<forall>m. m \<noteq> 0 \<longrightarrow> m \<noteq> 3 \<longrightarrow> inode_at ?P (s0\<lparr>fs_device := d1\<rparr>) m = inode_at ?P s0 m"
    using mem_fs.write_inode_run [OF f(3) v(1) len] by metis
  let ?s = "s0\<lparr>fs_device := d1\<rparr>"
  have "table_block 3 = 3" by (simp add: table_block_def)
  then have "zero_free ?P ?s" using d1(4) f(4,6-8) by (auto simp: zero_free_def fs_used_def fun_eq_iff)
  moreover have "free_blocks ?s = 59"
  proof -
    have "{b. b < 64 \<and> \<not> b \<le> 4} = {5..<64::nat}" by auto
    then show ?thesis using f(4,7) by (simp add: free_blocks_def fs_used_def fun_eq_iff)
  qed
  moreover have "file_ok ?P ?s inode_regular" by (rule fresh_file_ok) (simp_all add: inode_regular_def with_mode_def)
  moreover have "valid_inode ?s 3" "valid_inode ?s 2" using v by (simp_all add: valid_inode_def)
  moreover have "inode_at ?P ?s 2 = root_dir 4" using d1(5) f(9) by simp
  moreover have "file_ok ?P ?s (root_dir 4)"
  proof -
    have "owned ?s 4" using f(4,6,7) by (simp add: owned_def fs_used_def fun_eq_iff)
    moreover have "i_indirect (root_dir 4) = 0" by (simp add: root_dir_def inode_directory_def with_mode_def)
    ultimately show ?thesis
      using root_dir_direct by (auto simp: file_ok_def root_dir_blocks u32_max_def split: if_splits)
  qed
  ultimately show thesis using that f(1,2) d1(1-3) by blast
qed

text \<open>
  C7: On a disk whose free blocks hold zeros, a successful write_at stores every byte: the file
  then reads as its old bytes overlaid with the written ones, its size covers the write, and
  reading the range back gives the bytes; when the disk is too full it reports DiskFull.
\<close>

theorem write_at_correct:
  assumes "mem_ok ifma s" "valid_inode s n" "file_ok (mem_platform ifma) s (inode_at (mem_platform ifma) s n)"
    "zero_free (mem_platform ifma) s" "buf \<noteq> []" "offset + length buf \<le> max_file"
    "unat (i_size (inode_at (mem_platform ifma) s n)) \<le> max_file" "length out = length buf"
  shows "\<exists>r t. write_at (mem_platform ifma) n offset buf s = Some (r, t) \<and> mem_ok ifma t \<and>
    (r = Inl (DiskFull 0) \<or>
     r = Inr (length buf) \<and> file_written (mem_platform ifma) s n offset buf t \<and>
     read_at (mem_platform ifma) n offset out t = Some (Inr (length buf, buf), t))"
proof -
  have "read_at (mem_platform ifma) n offset out t = Some (Inr (length buf, buf), t)"
    if "mem_ok ifma t" "file_written (mem_platform ifma) s n offset buf t" for t
    using mem_fs.read_written [OF that assms(6-8)] .
  with mem_fs.write_at_run [OF refl assms(1-6)] show ?thesis by blast
qed

text \<open>
  C20: With enough free blocks, all holding zeros, for the data and the pointer block, write_at
  succeeds and writes the whole buffer.
\<close>

theorem write_at_succeeds:
  assumes "mem_ok ifma s" "valid_inode s n" "file_ok (mem_platform ifma) s (inode_at (mem_platform ifma) s n)"
    "zero_free (mem_platform ifma) s" "offset + length buf \<le> max_file"
    "(offset + length buf - 1) div block_size - offset div block_size + 2 \<le> free_blocks s"
  shows "\<exists>t. write_at (mem_platform ifma) n offset buf s = Some (Inr (length buf), t)"
proof (cases "buf = []")
  case True
  then show ?thesis by (simp add: write_at_def op_simps)
next
  case False
  have "write_need offset (length buf) 0 ino \<le> free_blocks s" for ino
    using assms(6) by (simp add: write_need_def)
  with mem_fs.write_at_run [OF refl assms(1-4) False assms(5)] show ?thesis by (meson not_less)
qed

theorem write_at_succeeds_witness:
  "\<exists>d s0 s t. md_new (\<lambda>_. True) 64 = Inr d \<and> fs_format (mem_platform False) d 64 32 = Some (Inr s0) \<and>
     write_inode (mem_platform False) 3 inode_regular s0 = Some (Inr (), s) \<and>
     write_at (mem_platform False) 3 45000 [1, 2, 3] s = Some (Inr 3, t)"
proof -
  obtain d s0 s where f: "md_new (\<lambda>_. True) 64 = Inr d" "fs_format (mem_platform False) d 64 32 = Some (Inr s0)"
    "write_inode (mem_platform False) 3 inode_regular s0 = Some (Inr (), s)" "mem_ok False s"
    "valid_inode s 3" "inode_at (mem_platform False) s 3 = inode_regular"
    "file_ok (mem_platform False) s inode_regular" "zero_free (mem_platform False) s" "free_blocks s = 59"
    by (rule demo_file)
  from write_at_succeeds [OF f(4,5) _ f(8), of 45000 "[1, 2, 3]"] f show ?thesis
    by (fastforce simp: max_file_def file_consts block_size_def)
qed

theorem write_at_correct_witness:
  "\<exists>d s0 s t. md_new (\<lambda>_. True) 64 = Inr d \<and> fs_format (mem_platform False) d 64 32 = Some (Inr s0) \<and>
     write_inode (mem_platform False) 3 inode_regular s0 = Some (Inr (), s) \<and>
     write_at (mem_platform False) 3 45000 [1, 2, 3] s = Some (Inr 3, t) \<and>
     read_at (mem_platform False) 3 45000 [0, 0, 0] t = Some (Inr (3, [1, 2, 3]), t)"
proof -
  obtain d s0 s where f: "md_new (\<lambda>_. True) 64 = Inr d" "fs_format (mem_platform False) d 64 32 = Some (Inr s0)"
    "write_inode (mem_platform False) 3 inode_regular s0 = Some (Inr (), s)" "mem_ok False s"
    "valid_inode s 3" "inode_at (mem_platform False) s 3 = inode_regular"
    "file_ok (mem_platform False) s inode_regular" "zero_free (mem_platform False) s" "free_blocks s = 59"
    by (rule demo_file)
  have size: "unat (i_size inode_regular) = 0" by (simp add: inode_regular_def with_mode_def)
  have fit: "45000 + length [1, 2, 3 :: u8] \<le> max_file" by (simp add: max_file_def file_consts block_size_def)
  have "\<not> free_blocks s < write_need 45000 (length [1, 2, 3 :: u8]) 0 inode_regular"
    using f(9) by (simp add: write_need_def block_size_def)
  then obtain t where "write_at (mem_platform False) 3 45000 [1, 2, 3] s = Some (Inr 3, t)"
    using mem_fs.write_at_run [OF refl f(4,5) _ f(8) _ fit] f(6,7) by fastforce
  with write_at_correct [OF f(4,5) _ f(8) _ fit, of "[0, 0, 0]"] f size show ?thesis by fastforce
qed

text \<open>
  C19: On a disk whose free blocks hold zeros, writing to one file changes no byte of another
  file that shares no block with it.
\<close>

theorem write_at_keeps_other_files:
  assumes "mem_ok ifma s" "valid_inode s n" "file_ok (mem_platform ifma) s (inode_at (mem_platform ifma) s n)"
    "zero_free (mem_platform ifma) s" "offset + length buf \<le> max_file"
    "write_at (mem_platform ifma) n offset buf s = Some (Inr k, t)"
    "valid_inode s m" "m \<noteq> n" "file_ok (mem_platform ifma) s (inode_at (mem_platform ifma) s m)"
    "file_set (mem_platform ifma) s (inode_at (mem_platform ifma) s m) \<inter>
       file_set (mem_platform ifma) s (inode_at (mem_platform ifma) s n) = {}" "p < max_file"
  shows "file_byte (mem_platform ifma) t (inode_at (mem_platform ifma) t m) p =
    file_byte (mem_platform ifma) s (inode_at (mem_platform ifma) s m) p"
proof (cases "buf = []")
  case True
  then show ?thesis using assms(6) by (simp add: write_at_def op_simps)
next
  case False
  have "file_written (mem_platform ifma) s n offset buf t"
    using mem_fs.write_at_run [OF refl assms(1-4) False assms(5)] assms(6) by auto
  from mem_fs.written_other_file [OF assms(1) this assms(7-11)] show ?thesis .
qed

theorem write_at_keeps_other_files_witness:
  "\<exists>d s0 s t. md_new (\<lambda>_. True) 64 = Inr d \<and> fs_format (mem_platform False) d 64 32 = Some (Inr s0) \<and>
     write_inode (mem_platform False) 3 inode_regular s0 = Some (Inr (), s) \<and>
     write_at (mem_platform False) 3 0 [7] s = Some (Inr 1, t) \<and>
     file_byte (mem_platform False) t (inode_at (mem_platform False) t 2) 6 =
       file_byte (mem_platform False) s (root_dir 4) 6"
proof -
  obtain d s0 s where f: "md_new (\<lambda>_. True) 64 = Inr d" "fs_format (mem_platform False) d 64 32 = Some (Inr s0)"
    "write_inode (mem_platform False) 3 inode_regular s0 = Some (Inr (), s)" "mem_ok False s"
    "valid_inode s 3" "inode_at (mem_platform False) s 3 = inode_regular"
    "file_ok (mem_platform False) s inode_regular" "zero_free (mem_platform False) s" "free_blocks s = 59"
    "valid_inode s 2" "inode_at (mem_platform False) s 2 = root_dir 4" "file_ok (mem_platform False) s (root_dir 4)"
    by (rule demo_file)
  have fit: "0 + length [7 :: u8] \<le> max_file" "6 < max_file" by (simp_all add: max_file_def file_consts block_size_def)
  have "\<not> free_blocks s < write_need 0 (length [7 :: u8]) 0 inode_regular"
    using f(9) by (simp add: write_need_def block_size_def)
  then obtain t where t: "write_at (mem_platform False) 3 0 [7] s = Some (Inr 1, t)"
    using mem_fs.write_at_run [OF refl f(4,5) _ f(8) _ fit(1)] f(6,7) by fastforce
  have "file_set (mem_platform False) s inode_regular = {}"
    by (auto simp: file_set_def file_block_def inode_regular_def with_mode_def split: if_splits)
  with write_at_keeps_other_files [OF f(4,5) _ f(8) fit(1) t f(10) _ _ _ fit(2)] f show ?thesis
    using t by fastforce
qed

end
