(* ===== verification/Fs_Dir_Props.thy ===== *)
theory Fs_Dir_Props
  imports Fs_Dirs Fs_Read_Write
begin

text \<open>
  A directory as a finite map from short names to inodes: finding is looking up, creating is adding
  one name, the other names keep their inodes.
\<close>

section \<open>Allocating an inode\<close>

definition inode_used :: "'d disk_fs \<Rightarrow> nat \<Rightarrow> bool" where
  "inode_used s = bm_is_used (fs_inode_bitmap s)"

context fs_on_device
begin

lemma alloc_inode_ok:
  assumes "ok s"
  obtains (full) "alloc_inode s = Some (Inl (DiskFull 0), s)" "\<forall>n < unat (sb_inode_count (fs_sb s)). inode_used s n"
  | (inode) n t where "alloc_inode s = Some (Inr (word_of_nat n), t)" "ok t"
      "n < unat (sb_inode_count (fs_sb s))" "unat (word_of_nat n :: u32) = n" "\<not> inode_used s n"
      "inode_used t = (inode_used s)(n := True)" "fs_used t = fs_used s"
      "fs_device t = fs_device s" "sb_geom (fs_sb t) = sb_geom (fs_sb s)"
proof -
  let ?b = "fs_inode_bitmap s" and ?n = "unat (sb_inode_count (fs_sb s))"
  have len: "length ?b = block_size" and geo: "geometry_ok (fs_sb s)" using assms by (simp_all add: fs_ok_def)
  have n: "?n \<le> 8 * block_size" using geometry_bounds(2) [OF geo] .
  note ff = bm_find_free_eq [of ?n ?b, unfolded len, OF n]
  have cnt: "bm_count_free ?b ?n = Some (?n - card {i. i < ?n \<and> bm_is_used ?b i})"
    using bm_count_used_eq [OF len n] by (simp add: bm_count_free_def)
  show thesis
  proof (cases "bm_find_free ?b ?n")
    case None
    then have used: "\<forall>i < ?n. bm_is_used ?b i" using ff by simp
    then have "{i. i < ?n \<and> bm_is_used ?b i} = {..<?n}" by auto
    then have "alloc_inode s = Some (Inl (DiskFull 0), s)" using None cnt by (simp add: alloc_inode_def Let_def)
    with used show thesis by (intro full) (simp_all add: inode_used_def)
  next
    case (Some i)
    with ff have i: "i < ?n" "\<not> inode_used s i" by (auto simp: inode_used_def)
    have set: "bm_is_used (bm_set_used i ?b) = (bm_is_used ?b)(i := True)"
      using i(1) n len by (intro bm_set_used_eq) simp
    let ?s1 = "s\<lparr>fs_inode_bitmap := bm_set_used i ?b, fs_ib_dirty := True\<rparr>"
    define t where "t = (if i + 1 > unat (sb_first_free_inode (fs_sb s))
      then ?s1\<lparr>fs_sb := (fs_sb s)\<lparr>sb_first_free_inode := word_of_nat (i + 1)\<rparr>, fs_sb_dirty := True\<rparr> else ?s1)"
    have run: "alloc_inode s = Some (Inr (word_of_nat i), t)"
      using Some cnt by (simp add: alloc_inode_def Let_def t_def)
    have "ok ?s1" using assms len blk_cong [of ?s1 s P] by (simp add: fs_ok_def synced_def)
    then have "ok t" unfolding t_def
      using ok_sb_update [of ?s1 "(fs_sb s)\<lparr>sb_first_free_inode := word_of_nat (i + 1)\<rparr>"] by simp
    moreover have "i \<le> u32_max" using i(1) n by (simp add: u32_max_def block_size_def)
    ultimately show thesis using run i set by (intro inode [of i t]) (simp_all add: t_def inode_used_def fs_used_def)
  qed
qed

end

section \<open>Searching a directory\<close>

text \<open>The entry test for short names, and a directory whose entries all carry short names.\<close>

definition entry_hit :: "u8 list \<Rightarrow> u32 \<Rightarrow> dir_entry \<Rightarrow> bool" where
  "entry_hit name h e \<longleftrightarrow> de_inode e \<noteq> 0 \<and> de_name_hash e = h \<and> length name \<le> name_max \<and>
     unat (de_name_len e) = length name \<and> take (length name) (de_name e) = name"

definition plain_entry :: "dir_entry \<Rightarrow> bool" where
  "plain_entry e \<longleftrightarrow> de_inode e = 0 \<or> de_name_len e \<noteq> 0"

definition block_entries :: "u8 list \<Rightarrow> dir_entry list" where
  "block_entries bs = map (dirent_at bs) [0..<dirents_per_block]"

definition dir_blocks :: "inode \<Rightarrow> nat" where
  "dir_blocks ino = div_ceil (unat (i_size ino)) block_size"

definition dir_entries :: "'d platform \<Rightarrow> 'd disk_fs \<Rightarrow> inode \<Rightarrow> dir_entry list" where
  "dir_entries P s ino = concat (map (\<lambda>l. block_entries (blk P s (file_block P s ino l))) [0..<dir_blocks ino])"

definition dir_ok :: "'d platform \<Rightarrow> 'd disk_fs \<Rightarrow> inode \<Rightarrow> bool" where
  "dir_ok P s ino \<longleftrightarrow> is_directory ino \<and> file_ok P s ino \<and> i_indirect ino = 0 \<and> dir_blocks ino \<le> direct_count \<and>
     (\<forall>l < direct_count. file_block P s ino l \<noteq> 0 \<longleftrightarrow> l < dir_blocks ino) \<and>
     (\<forall>e \<in> set (dir_entries P s ino). plain_entry e)"

lemma find_in_block_plain:
  "\<forall>e \<in> set es. plain_entry (dirent_at bs e) \<Longrightarrow>
   find_in_block P name h bs es s = Some (Inr (map_option de_inode (find (entry_hit name h) (map (dirent_at bs) es))), s)"
proof (induction es)
  case Nil
  then show ?case by (simp add: op_simps)
next
  case (Cons e es)
  let ?e = "dirent_at bs e"
  have match: "entry_name_matches P ?e name s = Some (Inr (length name \<le> name_max \<and> unat (de_name_len ?e) = length name \<and>
      take (length name) (de_name ?e) = name), s)" if "de_inode ?e \<noteq> 0"
    using Cons.prems that by (simp add: entry_name_matches_def de_is_pooled_def plain_entry_def op_simps)
  show ?case
  proof (cases "de_inode ?e = 0 \<or> de_name_hash ?e \<noteq> h")
    case True
    then show ?thesis using Cons by (auto simp: Let_def entry_hit_def)
  next
    case False
    then show ?thesis using Cons match by (simp add: Let_def entry_hit_def op_simps)
  qed
qed

lemma find_append: "find p (xs @ ys) = (case find p xs of None \<Rightarrow> find p ys | Some x \<Rightarrow> Some x)"
  by (induction xs) auto

lemma find_concat_none: "find p xs = None \<Longrightarrow> find p (xs @ ys) = find p ys"
  by (simp add: find_append)

context fs_on_device
begin

lemma block_for_direct_run:
  assumes "ok s" "file_ok P s ino" "unat l < direct_count"
  shows "block_for_direct P ino l s = Some (Inr (if file_block P s ino (unat l) = 0 then None else Some (i_direct ino ! unat l)), s)"
  using assms(3) by (simp add: block_for_direct_def file_block_def Let_def unat_eq_zero)

lemma find_in_dir_plain:
  assumes "ok s" "file_ok P s ino" "\<forall>l \<in> set ls. l < direct_count \<and> file_block P s ino l \<noteq> 0"
    "\<forall>l \<in> set ls. \<forall>e \<in> set (block_entries (blk P s (file_block P s ino l))). plain_entry e"
  shows "find_in_dir P ino name h ls s =
    (case find (entry_hit name h) (concat (map (\<lambda>l. block_entries (blk P s (file_block P s ino l))) ls)) of
       None \<Rightarrow> Some (Inl (NotFound ''directory entry''), s)
     | Some e \<Rightarrow> Some (Inr (de_inode e), s))"
  using assms(3,4)
proof (induction ls)
  case Nil
  then show ?case by (simp add: op_simps)
next
  case (Cons l ls)
  have l: "l < direct_count" "file_block P s ino l \<noteq> 0" using Cons.prems by simp_all
  have lw: "unat (word_of_nat l :: u32) = l" using l(1) by (intro word_of_nat_u32) (simp add: file_consts u32_max_def)
  have fb: "unat (i_direct ino ! l) = file_block P s ino l" using l(1) by (simp add: file_block_def)
  let ?bs = "blk P s (file_block P s ino l)"
  have lm: "l < max_logical" using l(1) by (simp add: max_logical_def)
  note rd = owned_read [OF assms(1) file_okD(1) [OF assms(2) lm l(2)]]
  have slot: "block_for_direct P ino (word_of_nat l) s = Some (Inr (Some (i_direct ino ! l)), s)"
    using block_for_direct_run [OF assms(1,2), of "word_of_nat l"] l lw by simp
  have "find_in_block P name h ?bs [0..<dirents_per_block] s =
      Some (Inr (map_option de_inode (find (entry_hit name h) (block_entries ?bs))), s)"
    using find_in_block_plain [of "[0..<dirents_per_block]" ?bs P name h s] Cons.prems(2) by (simp add: block_entries_def)
  then show ?case
    using slot rd(1) fb Cons.IH Cons.prems by (simp add: op_simps find_append split: option.splits)
qed

lemma find_dirent_plain:
  assumes "ok s" "valid_inode s p" "ino = inode_at P s p" "dir_ok P s ino" "name \<noteq> []" "length name \<le> max_name_len"
  shows "find_dirent P p name s =
    (case find (entry_hit name (name_hash P name)) (dir_entries P s ino) of
       None \<Rightarrow> Some (Inl (NotFound ''directory entry''), s)
     | Some e \<Rightarrow> Some (Inr (de_inode e), s))"
proof -
  have d: "is_directory ino" "file_ok P s ino" "dir_blocks ino \<le> direct_count"
    "\<forall>l < direct_count. file_block P s ino l \<noteq> 0 \<longleftrightarrow> l < dir_blocks ino" "\<forall>e \<in> set (dir_entries P s ino). plain_entry e"
    using assms(4) by (simp_all add: dir_ok_def)
  have "find_in_dir P ino name (name_hash P name) [0..<dir_blocks ino] s =
    (case find (entry_hit name (name_hash P name)) (dir_entries P s ino) of
       None \<Rightarrow> Some (Inl (NotFound ''directory entry''), s)
     | Some e \<Rightarrow> Some (Inr (de_inode e), s))"
    unfolding dir_entries_def
    by (rule find_in_dir_plain [OF assms(1) d(2)]) (use d(3-5) in \<open>auto simp: dir_entries_def\<close>)
  then show ?thesis
    using read_inode_run [OF assms(1,2)] assms(3,5,6) d(1) by (simp add: find_dirent_def op_simps dir_blocks_def)
qed

end

section \<open>One entry more\<close>

definition entries_added :: "dir_entry list \<Rightarrow> dir_entry \<Rightarrow> dir_entry list \<Rightarrow> bool" where
  "entries_added xs entry ys \<longleftrightarrow> (\<exists>A B C i. i < length B \<and> de_inode (B ! i) = 0 \<and> ys = A @ B[i := entry] @ C \<and>
     (xs = A @ B @ C \<or> xs = A \<and> C = [] \<and> (\<forall>e \<in> set B. de_inode e = 0)))"

lemma find_update_other:
  "i < length xs \<Longrightarrow> \<not> q (xs ! i) \<Longrightarrow> \<not> q x \<Longrightarrow> find q (xs[i := x]) = find q xs"
proof (induction xs arbitrary: i)
  case (Cons a xs)
  then show ?case by (cases i) auto
qed simp

lemma find_update_hit:
  "i < length xs \<Longrightarrow> find q xs = None \<Longrightarrow> q x \<Longrightarrow> find q (xs[i := x]) = Some x"
proof (induction xs arbitrary: i)
  case (Cons a xs)
  then show ?case by (cases i) (auto split: if_splits)
qed simp

lemma entries_added_find:
  assumes "entries_added xs entry ys" "\<And>e. q e \<Longrightarrow> de_inode e \<noteq> 0"
  shows "\<not> q entry \<Longrightarrow> find q ys = find q xs" "find q xs = None \<Longrightarrow> q entry \<Longrightarrow> find q ys = Some entry"
proof -
  from assms(1) obtain A B C i where d: "i < length B" "de_inode (B ! i) = 0" "ys = A @ B[i := entry] @ C"
    "xs = A @ B @ C \<or> xs = A \<and> C = [] \<and> (\<forall>e \<in> set B. de_inode e = 0)" unfolding entries_added_def by blast
  have nB: "\<not> q (B ! i)" using assms(2) d(2) by blast
  have none: "find q B = None" if "\<forall>e \<in> set B. de_inode e = 0" using that assms(2) by (auto simp: find_None_iff)
  show "find q ys = find q xs" if "\<not> q entry"
    using d(3,4) find_update_other [of i B q entry, OF d(1) nB that] none by (auto simp: find_append split: option.splits)
  show "find q ys = Some entry" if "find q xs = None" "q entry"
  proof -
    have "find q A = None" "find q B = None" using d(4) none that(1) by (auto simp: find_append split: option.splits)
    then show ?thesis using find_update_hit [of i B q entry, OF d(1) _ that(2)] d(3) by (simp add: find_append)
  qed
qed

lemma entries_added_plain:
  assumes "entries_added xs entry ys" "\<forall>e \<in> set xs. plain_entry e" "plain_entry entry"
  shows "\<forall>e \<in> set ys. plain_entry e"
proof -
  from assms(1) obtain A B C i where d: "ys = A @ B[i := entry] @ C"
    "xs = A @ B @ C \<or> xs = A \<and> C = [] \<and> (\<forall>e \<in> set B. de_inode e = 0)" unfolding entries_added_def by blast
  have "\<forall>e \<in> set B. plain_entry e" using d(2) assms(2) by (auto simp: plain_entry_def)
  then have "\<forall>e \<in> set (B[i := entry]). plain_entry e" using assms(3) set_update_subset_insert [of B i entry] by auto
  with d assms(2) show ?thesis by auto
qed

text \<open>Writing one entry into a block.\<close>

lemma dirents_consts: "dirents_per_block = 128" "dirents_per_block * dirent_size = block_size"
  by (simp_all add: dirents_per_block_def dirent_size_def block_size_def)

lemma entry_write:
  assumes "length bs = block_size" "e < dirents_per_block" "length (de_name entry) = name_max"
  shows "mem_write bs (e * dirent_size) (de_to_bytes entry) =
      Some (take (e * dirent_size) bs @ de_to_bytes entry @ drop (e * dirent_size + dirent_size) bs)"
    "length (take (e * dirent_size) bs @ de_to_bytes entry @ drop (e * dirent_size + dirent_size) bs) = block_size"
    "block_entries (take (e * dirent_size) bs @ de_to_bytes entry @ drop (e * dirent_size + dirent_size) bs) = (block_entries bs)[e := entry]"
proof -
  let ?new = "take (e * dirent_size) bs @ de_to_bytes entry @ drop (e * dirent_size + dirent_size) bs"
  have len: "length (de_to_bytes entry) = dirent_size" using assms(3) by (rule length_de_to_bytes)
  have fit: "e * dirent_size + dirent_size \<le> length bs"
    using assms(1,2) by (simp add: dirents_consts dirent_size_def block_size_def)
  show "mem_write bs (e * dirent_size) (de_to_bytes entry) = Some ?new" using fit len by (simp add: mem_simps)
  show "length ?new = block_size" using fit len assms(1) by simp
  have at: "dirent_at ?new j = (if j = e then entry else dirent_at bs j)" for j
  proof (cases "j = e")
    case True
    then show ?thesis using fit len de_from_to [OF assms(3)] by (simp add: dirent_at_def)
  next
    case False
    then have "j * dirent_size + dirent_size \<le> e * dirent_size \<or> e * dirent_size + dirent_size \<le> j * dirent_size"
      by (simp add: dirent_size_def) linarith
    then show ?thesis
      using False take_drop_frame [of "j * dirent_size" dirent_size "e * dirent_size" "de_to_bytes entry" bs] fit len
      by (simp add: dirent_at_def)
  qed
  show "block_entries ?new = (block_entries bs)[e := entry]"
    by (rule nth_equalityI) (simp_all add: block_entries_def at nth_list_update)
qed

lemma zero_block_entries: "e \<in> set (block_entries (replicate block_size 0)) \<Longrightarrow> de_inode e = 0"
  by (auto simp: block_entries_def dirent_at_def de_from_bytes_def read_u32_zeros)

lemma length_block_entries [simp]: "length (block_entries bs) = dirents_per_block"
  by (simp add: block_entries_def)

text \<open>The entry that is written for a short name.\<close>

definition new_entry :: "'d platform \<Rightarrow> u8 list \<Rightarrow> u32 \<Rightarrow> file_type \<Rightarrow> dir_entry" where
  "new_entry P name n ft =
     snd (de_set_name (name_hash P) name (de_unused\<lparr>de_inode := n, de_rec_len := word_of_nat dirent_size,
       de_file_type := file_type_byte ft\<rparr>))"

lemma fill_entry_short:
  "length name \<le> name_max \<Longrightarrow> fill_entry P name n ft s = Some (Inr (new_entry P name n ft), s)"
  by (simp add: fill_entry_def new_entry_def de_set_name_def op_simps Let_def)

lemma new_entry_facts:
  assumes "length name \<le> name_max" "name \<noteq> []" "n \<noteq> 0"
  shows "length (de_name (new_entry P name n ft)) = name_max" "de_inode (new_entry P name n ft) = n"
    "plain_entry (new_entry P name n ft)"
    "entry_hit other (name_hash P other) (new_entry P name n ft) \<longleftrightarrow> other = name"
proof -
  have len: "unat (word_of_nat (length name) :: u8) = length name"
    using assms(1) by (simp add: unsigned_of_nat take_bit_nat_eq_self_iff name_max_def dirent_size_def)
  show "length (de_name (new_entry P name n ft)) = name_max" "de_inode (new_entry P name n ft) = n"
    using assms(1) by (simp_all add: new_entry_def de_set_name_def)
  have "(word_of_nat (length name) :: u8) \<noteq> 0" using len assms(2) by (metis length_0_conv unsigned_0)
  then show "plain_entry (new_entry P name n ft)"
    using assms(1) by (simp add: plain_entry_def new_entry_def de_set_name_def)
  show "entry_hit other (name_hash P other) (new_entry P name n ft) \<longleftrightarrow> other = name"
    using assms len by (auto simp: entry_hit_def new_entry_def de_set_name_def)
qed

section \<open>Adding an entry\<close>

lemma free_entry_in_cases:
  "case free_entry_in bs es of
     None \<Rightarrow> \<forall>e \<in> set es. de_inode (dirent_at bs e) \<noteq> 0
   | Some e \<Rightarrow> e \<in> set es \<and> de_inode (dirent_at bs e) = 0"
  by (induction es) (auto split: option.splits)

context fs_on_device
begin

lemma find_free_entry_run:
  assumes "ok s" "file_ok P s ino" "\<forall>l \<in> set ls. l < direct_count \<and> file_block P s ino l \<noteq> 0"
  shows "(\<exists>l e. l \<in> set ls \<and> e < dirents_per_block \<and> de_inode (dirent_at (blk P s (file_block P s ino l)) e) = 0 \<and>
            find_free_entry P ino ls s = Some (Inr (ino, Some (i_direct ino ! l, e)), s)) \<or>
    find_free_entry P ino ls s = Some (Inr (ino, None), s) \<and>
      (\<forall>l \<in> set ls. \<forall>e < dirents_per_block. de_inode (dirent_at (blk P s (file_block P s ino l)) e) \<noteq> 0)"
  using assms(3)
proof (induction ls)
  case Nil
  then show ?case by (simp add: op_simps)
next
  case (Cons l ls)
  have l: "l < direct_count" "file_block P s ino l \<noteq> 0" using Cons.prems by simp_all
  have lw: "unat (word_of_nat l :: u32) = l" using l(1) by (intro word_of_nat_u32) (simp add: file_consts u32_max_def)
  have fb: "unat (i_direct ino ! l) = file_block P s ino l" using l(1) by (simp add: file_block_def)
  have lm: "l < max_logical" using l(1) by (simp add: max_logical_def)
  note rd = owned_read [OF assms(1) file_okD(1) [OF assms(2) lm l(2)]]
  have slot: "block_for_direct P ino (word_of_nat l) s = Some (Inr (Some (i_direct ino ! l)), s)"
    using block_for_direct_run [OF assms(1,2), of "word_of_nat l"] l lw by simp
  note fe = free_entry_in_cases [where bs = "blk P s (file_block P s ino l)" and es = "[0..<dirents_per_block]"]
  show ?case
  proof (cases "free_entry_in (blk P s (file_block P s ino l)) [0..<dirents_per_block]")
    case None
    then have step: "find_free_entry P ino (l # ls) s = find_free_entry P ino ls s"
      using slot rd(1) fb by (simp add: op_simps)
    have "\<forall>e < dirents_per_block. de_inode (dirent_at (blk P s (file_block P s ino l)) e) \<noteq> 0" using fe None by simp
    with Cons show ?thesis unfolding step by auto
  next
    case (Some e)
    then have "find_free_entry P ino (l # ls) s = Some (Inr (ino, Some (i_direct ino ! l, e)), s)"
      using slot rd(1) fb by (simp add: op_simps)
    with fe Some show ?thesis by auto
  qed
qed

text \<open>What a successful call leaves.\<close>

definition dirent_added :: "'d disk_fs \<Rightarrow> u32 \<Rightarrow> dir_entry \<Rightarrow> 'd disk_fs \<Rightarrow> bool" where
  "dirent_added s p entry t \<longleftrightarrow> ok t \<and> dir_ok P t (inode_at P t p) \<and> zero_free P t \<and> sb_geom (fs_sb t) = sb_geom (fs_sb s) \<and>
     inode_used t = inode_used s \<and>
     entries_added (dir_entries P s (inode_at P s p)) entry (dir_entries P t (inode_at P t p)) \<and>
     (\<forall>m. valid_inode s m \<longrightarrow> m \<noteq> p \<longrightarrow> inode_at P t m = inode_at P s m)"

text \<open>The tail of \<open>add_dirent\<close>: the entry goes into a block of the directory, the inode is saved.\<close>

lemma put_entry:
  assumes "ok s" "valid_inode s p" "file_ok P s ino" "i_indirect ino = 0" "l < direct_count" "file_block P s ino l \<noteq> 0"
    "e < dirents_per_block" "length (de_name entry) = name_max" "zero_free P s"
  obtains d where
    "op_bind (op_option (mem_write (blk P s (file_block P s ino l)) (e * dirent_size) (de_to_bytes entry))) (\<lambda>block_buf.
       op_bind (fs_write_block P (file_block P s ino l) block_buf) (\<lambda>_. write_inode P p ino)) s = Some (Inr (), s\<lparr>fs_device := d\<rparr>)"
    "ok (s\<lparr>fs_device := d\<rparr>)" "inode_at P (s\<lparr>fs_device := d\<rparr>) p = ino" "file_ok P (s\<lparr>fs_device := d\<rparr>) ino"
    "zero_free P (s\<lparr>fs_device := d\<rparr>)" "file_block P (s\<lparr>fs_device := d\<rparr>) ino = file_block P s ino"
    "\<forall>m < direct_count. file_block P s ino m \<noteq> 0 \<longrightarrow>
       block_entries (blk P (s\<lparr>fs_device := d\<rparr>) (file_block P s ino m)) =
         (if m = l then (block_entries (blk P s (file_block P s ino m)))[e := entry] else block_entries (blk P s (file_block P s ino m)))"
    "\<forall>m. valid_inode s m \<longrightarrow> m \<noteq> p \<longrightarrow> inode_at P (s\<lparr>fs_device := d\<rparr>) m = inode_at P s m"
proof -
  let ?b = "file_block P s ino l" let ?bs = "blk P s ?b"
  have lm: "l < max_logical" using assms(5) by (simp add: max_logical_def)
  note fok = file_okD [OF assms(3) lm assms(6)]
  note rd = owned_read [OF assms(1) fok(1)]
  note ew = entry_write [OF rd(2) assms(7,8)]
  let ?new = "take (e * dirent_size) ?bs @ de_to_bytes entry @ drop (e * dirent_size + dirent_size) ?bs"
  obtain d1 where d1: "fs_write_block P ?b ?new s = Some (Inr (), s\<lparr>fs_device := d1\<rparr>)" "ok (s\<lparr>fs_device := d1\<rparr>)"
    "blk P (s\<lparr>fs_device := d1\<rparr>) = (blk P s)(?b := ?new)"
    using write_data_ok [OF assms(1) rd(3,4) ew(2)] by blast
  let ?u = "s\<lparr>fs_device := d1\<rparr>"
  have map: "file_block P ?u ino = file_block P s ino" using assms(4) by (intro file_block_cong) simp_all
  have fu: "file_ok P ?u ino" using assms(3) map by (rule file_ok_cong) (simp_all add: fs_used_def)
  have vu: "valid_inode ?u p" using assms(2) by (simp add: valid_inode_def)
  from save_inode [OF d1(2) vu fu refl refl] obtain d where
    d: "write_inode P p ino ?u = Some (Inr (), ?u\<lparr>fs_device := d\<rparr>)" "ok (?u\<lparr>fs_device := d\<rparr>)"
      "inode_at P (?u\<lparr>fs_device := d\<rparr>) p = ino" "file_ok P (?u\<lparr>fs_device := d\<rparr>) ino"
      "file_block P (?u\<lparr>fs_device := d\<rparr>) ino = file_block P ?u ino"
    and dino: "\<And>m. m \<noteq> 0 \<Longrightarrow> m \<noteq> p \<Longrightarrow> inode_at P (?u\<lparr>fs_device := d\<rparr>) m = inode_at P ?u m"
    and dblk: "\<And>b. first_data (fs_sb ?u) \<le> b \<Longrightarrow> blk P (?u\<lparr>fs_device := d\<rparr>) b = blk P ?u b" by metis
  have run: "op_bind (op_option (mem_write ?bs (e * dirent_size) (de_to_bytes entry))) (\<lambda>block_buf.
      op_bind (fs_write_block P ?b block_buf) (\<lambda>_. write_inode P p ino)) s = Some (Inr (), s\<lparr>fs_device := d\<rparr>)"
    using ew(1) d1(1) d(1) by (simp add: op_simps)
  have data: "first_data (fs_sb s) \<le> file_block P s ino m" if "m < direct_count" "file_block P s ino m \<noteq> 0" for m
    using file_okD(1) [OF assms(3) _ that(2)] that(1) by (simp add: owned_def max_logical_def)
  have ents: "block_entries (blk P (s\<lparr>fs_device := d\<rparr>) (file_block P s ino m)) =
      (if m = l then (block_entries (blk P s (file_block P s ino m)))[e := entry] else block_entries (blk P s (file_block P s ino m)))"
    if "m < direct_count" "file_block P s ino m \<noteq> 0" for m
  proof -
    have "file_block P s ino m = ?b \<longleftrightarrow> m = l" using fok(3) that(1) by (auto simp: max_logical_def)
    then show ?thesis using dblk [of "file_block P s ino m"] data [OF that] d1(3) ew(3) by auto
  qed
  have ino: "inode_at P (s\<lparr>fs_device := d\<rparr>) m = inode_at P s m" if "valid_inode s m" "m \<noteq> p" for m
  proof -
    have "table_block m \<noteq> ?b" using table_place(3) [OF assms(1) that(1)] data [OF assms(5,6)] by simp
    then have "inode_at P ?u m = inode_at P s m" using d1(3) by (intro inode_at_cong) simp
    then show ?thesis using dino [of m] that by (simp add: valid_inode_def)
  qed
  have zf: "zero_free P (s\<lparr>fs_device := d\<rparr>)"
    using assms(9) dblk d1(3) fok(1) by (auto simp: zero_free_def fs_used_def owned_def)
  show thesis using that [of d, OF run _ _ _ zf] ents ino d(2-5) map by simp
qed

end

lemma div_ceil_mult: "div_ceil (n * block_size) block_size = n"
  by (simp add: div_ceil_def block_size_def)

lemma upt_split3: "l < n \<Longrightarrow> [0..<n] = [0..<l] @ l # [Suc l..<n]"
  by (metis less_imp_le_nat upt_add_eq_append upt_conv_Cons le_add_diff_inverse zero_le)

context fs_on_device
begin

lemma entries_added_at:
  assumes "l < n" "i < dirents_per_block" "de_inode (f l ! i) = 0" "\<And>m. m < n \<Longrightarrow> length (f m) = dirents_per_block"
    "\<And>m. m < n \<Longrightarrow> g m = (if m = l then (f m)[i := entry] else f m)"
  shows "entries_added (concat (map f [0..<n])) entry (concat (map g [0..<n]))"
proof -
  have eq: "map g [0..<l] = map f [0..<l]" "map g [Suc l..<n] = map f [Suc l..<n]" using assms(1,5) by simp_all
  have "concat (map g [0..<n]) = concat (map f [0..<l]) @ (f l)[i := entry] @ concat (map f [Suc l..<n])"
    "concat (map f [0..<n]) = concat (map f [0..<l]) @ f l @ concat (map f [Suc l..<n])"
    using assms(1,5) unfolding upt_split3 [OF assms(1)] map_append list.map eq by simp_all
  then show ?thesis
    unfolding entries_added_def
    by (intro exI [of _ "concat (map f [0..<l])"] exI [of _ "f l"] exI [of _ "concat (map f [Suc l..<n])"] exI [of _ i])
      (use assms(1-4) in simp)
qed

lemma add_dirent_free:
  assumes "ok s" "valid_inode s p" "ino = inode_at P s p" "dir_ok P s ino" "zero_free P s" "length (de_name entry) = name_max"
    "plain_entry entry" "l < dir_blocks ino" "e < dirents_per_block" "de_inode (dirent_at (blk P s (file_block P s ino l)) e) = 0"
  shows "\<exists>t. op_bind (op_option (mem_write (blk P s (file_block P s ino l)) (e * dirent_size) (de_to_bytes entry))) (\<lambda>block_buf.
       op_bind (fs_write_block P (file_block P s ino l) block_buf) (\<lambda>_. write_inode P p ino)) s = Some (Inr (), t) \<and>
     dirent_added s p entry t"
proof -
  have d: "is_directory ino" "file_ok P s ino" "i_indirect ino = 0" "dir_blocks ino \<le> direct_count"
    "\<forall>l < direct_count. file_block P s ino l \<noteq> 0 \<longleftrightarrow> l < dir_blocks ino" "\<forall>e \<in> set (dir_entries P s ino). plain_entry e"
    using assms(4) by (simp_all add: dir_ok_def)
  have l: "l < direct_count" "file_block P s ino l \<noteq> 0" using d(4,5) assms(8) by simp_all
  obtain dv where t: "op_bind (op_option (mem_write (blk P s (file_block P s ino l)) (e * dirent_size) (de_to_bytes entry))) (\<lambda>block_buf.
       op_bind (fs_write_block P (file_block P s ino l) block_buf) (\<lambda>_. write_inode P p ino)) s = Some (Inr (), s\<lparr>fs_device := dv\<rparr>)"
    "ok (s\<lparr>fs_device := dv\<rparr>)" "inode_at P (s\<lparr>fs_device := dv\<rparr>) p = ino" "file_ok P (s\<lparr>fs_device := dv\<rparr>) ino"
    "zero_free P (s\<lparr>fs_device := dv\<rparr>)" "file_block P (s\<lparr>fs_device := dv\<rparr>) ino = file_block P s ino"
    and ents: "\<forall>m < direct_count. file_block P s ino m \<noteq> 0 \<longrightarrow>
       block_entries (blk P (s\<lparr>fs_device := dv\<rparr>) (file_block P s ino m)) =
         (if m = l then (block_entries (blk P s (file_block P s ino m)))[e := entry] else block_entries (blk P s (file_block P s ino m)))"
    and inos: "\<forall>m. valid_inode s m \<longrightarrow> m \<noteq> p \<longrightarrow> inode_at P (s\<lparr>fs_device := dv\<rparr>) m = inode_at P s m"
    by (rule put_entry [OF assms(1,2) d(2,3) l assms(9,6,5)])
  let ?t = "s\<lparr>fs_device := dv\<rparr>"
  have added: "entries_added (dir_entries P s ino) entry (dir_entries P ?t ino)"
    unfolding dir_entries_def
  proof (rule entries_added_at [OF assms(8,9)])
    show "de_inode (block_entries (blk P s (file_block P s ino l)) ! e) = 0"
      using assms(9,10) by (simp add: block_entries_def)
    show "block_entries (blk P ?t (file_block P ?t ino m)) =
        (if m = l then (block_entries (blk P s (file_block P s ino m)))[e := entry] else block_entries (blk P s (file_block P s ino m)))"
      if "m < dir_blocks ino" for m using ents d(4,5) that t(6) by simp
  qed simp
  have "dir_ok P ?t ino"
    using d t(4,6) entries_added_plain [OF added d(6) assms(7)] by (simp add: dir_ok_def)
  then show ?thesis
    using t added inos assms(3) by (intro exI [of _ ?t]) (simp add: dirent_added_def inode_used_def)
qed

lemma add_dirent_extend:
  assumes "ok s" "valid_inode s p" "ino = inode_at P s p" "dir_ok P s ino" "zero_free P s" "length (de_name entry) = name_max"
    "plain_entry entry" "dir_blocks ino < direct_count" "alloc_block s = Some (Inr (word_of_nat b), t1)" "ok t1"
    "first_data (fs_sb s) \<le> b" "b < unat (sb_block_count (fs_sb s))" "unat (word_of_nat b :: u32) = b" "\<not> fs_used s b"
    "fs_used t1 = (fs_used s)(b := True)" "fs_device t1 = fs_device s" "sb_geom (fs_sb t1) = sb_geom (fs_sb s)" "inode_used t1 = inode_used s"
    and ino': "ino' = ino\<lparr>i_direct := (i_direct ino)[dir_blocks ino := word_of_nat b],
      i_size := word_of_nat ((dir_blocks ino + 1) * block_size), i_block_count := c\<rparr>"
  shows "\<exists>t. op_bind (op_option (mem_write (blk P t1 b) 0 (de_to_bytes entry))) (\<lambda>block_buf.
       op_bind (fs_write_block P b block_buf) (\<lambda>_. write_inode P p ino')) t1 = Some (Inr (), t) \<and>
     dirent_added s p entry t"
proof -
  let ?n = "dir_blocks ino"
  have d: "is_directory ino" "file_ok P s ino" "i_indirect ino = 0"
    "\<forall>l < direct_count. file_block P s ino l \<noteq> 0 \<longleftrightarrow> l < ?n" "\<forall>e \<in> set (dir_entries P s ino). plain_entry e"
    using assms(4) by (simp_all add: dir_ok_def)
  let ?ino1 = "ino\<lparr>i_direct := (i_direct ino)[?n := word_of_nat b]\<rparr>"
  have len: "length (i_direct ino) = direct_count" using d(2) by (simp add: file_ok_def)
  have b1: "blk P t1 = blk P s" using assms(16) by (rule blk_cong)
  have n: "?n < max_logical" "file_block P s ino ?n = 0" using assms(8) d(4) by (auto simp: max_logical_def)
  have map1: "file_block P t1 ?ino1 m = (if m = ?n then b else file_block P s ino m)" for m
    using assms(8,13) len b1 by (simp add: file_block_def nth_list_update)
  have own: "owned t1 b" using assms(11,12,15) sb_geom_eqD(2,3) [OF assms(17)] by (simp add: owned_def)
  have grown: "grown P s ino t1 ?ino1"
    by (rule grown_add [OF d(2) assms(5,17) _ assms(14) own map1 n]) (use assms(15) b1 len in \<open>auto simp: ino_rest_def\<close>)
  have ptr: "i_direct ino' = i_direct ?ino1" "i_indirect ino' = i_indirect ?ino1" by (simp_all add: ino')
  have fb: "file_block P t1 ino' = file_block P t1 ?ino1" using ptr by (intro file_block_cong) simp_all
  have f1: "file_ok P t1 ino'" "zero_free P t1"
    using grown ptr fb by (simp_all add: grown_def file_ok_def)
  have vt: "valid_inode t1 p" using assms(2) sb_geom_eqD(4) [OF assms(17)] by (simp add: valid_inode_def)
  have zero: "blk P t1 b = replicate block_size 0" using assms(5,11,12,14) b1 by (simp add: zero_free_def)
  have b0: "b \<noteq> 0" using assms(11) by (simp add: first_data_def)
  have i0: "i_indirect ino' = 0" using d(3) by (simp add: ino')
  have at: "file_block P t1 ino' ?n = b" using fb map1 [of ?n] by simp
  have at0: "file_block P t1 ino' ?n \<noteq> 0" using at b0 by simp
  have e0: "0 < dirents_per_block" by (simp add: dirents_consts)
  obtain dv where t: "op_bind (op_option (mem_write (blk P t1 (file_block P t1 ino' ?n)) (0 * dirent_size) (de_to_bytes entry))) (\<lambda>block_buf.
       op_bind (fs_write_block P (file_block P t1 ino' ?n) block_buf) (\<lambda>_. write_inode P p ino')) t1 = Some (Inr (), t1\<lparr>fs_device := dv\<rparr>)"
    "ok (t1\<lparr>fs_device := dv\<rparr>)" "inode_at P (t1\<lparr>fs_device := dv\<rparr>) p = ino'" "file_ok P (t1\<lparr>fs_device := dv\<rparr>) ino'"
    "zero_free P (t1\<lparr>fs_device := dv\<rparr>)" "file_block P (t1\<lparr>fs_device := dv\<rparr>) ino' = file_block P t1 ino'"
    and ents: "\<forall>m < direct_count. file_block P t1 ino' m \<noteq> 0 \<longrightarrow>
       block_entries (blk P (t1\<lparr>fs_device := dv\<rparr>) (file_block P t1 ino' m)) =
         (if m = ?n then (block_entries (blk P t1 (file_block P t1 ino' m)))[0 := entry] else block_entries (blk P t1 (file_block P t1 ino' m)))"
    and inos: "\<forall>m. valid_inode t1 m \<longrightarrow> m \<noteq> p \<longrightarrow> inode_at P (t1\<lparr>fs_device := dv\<rparr>) m = inode_at P t1 m"
    by (rule put_entry [OF assms(10) vt f1(1) i0 assms(8) at0 e0 assms(6) f1(2)])
  let ?t = "t1\<lparr>fs_device := dv\<rparr>"
  have blocks: "dir_blocks ino' = ?n + 1"
  proof -
    have "(?n + 1) * block_size \<le> u32_max" using assms(8) by (simp add: file_consts block_size_def u32_max_def)
    then have "unat (i_size ino') = (?n + 1) * block_size" unfolding ino' using word_of_nat_u32 by (simp del: of_nat_mult of_nat_add)
    then show ?thesis by (simp only: dir_blocks_def div_ceil_mult)
  qed
  have old: "block_entries (blk P ?t (file_block P ?t ino' m)) = block_entries (blk P s (file_block P s ino m))" if "m < ?n" for m
  proof -
    have m: "m < direct_count" "file_block P t1 ino' m = file_block P s ino m" "file_block P s ino m \<noteq> 0"
      using that assms(8) fb map1 [of m] d(4) by simp_all
    then show ?thesis using ents [rule_format, OF m(1)] t(6) that b1 by simp
  qed
  have new: "block_entries (blk P ?t (file_block P ?t ino' ?n)) = (block_entries (replicate block_size 0))[0 := entry]"
    using ents [rule_format, OF assms(8)] t(6) at b0 zero by simp
  have eq: "map (\<lambda>l. block_entries (blk P ?t (file_block P ?t ino' l))) [0..<?n] =
      map (\<lambda>l. block_entries (blk P s (file_block P s ino l))) [0..<?n]" using old by simp
  have ext: "dir_entries P ?t ino' = dir_entries P s ino @ (block_entries (replicate block_size 0))[0 := entry]"
  proof -
    have "[0..<?n + 1] = [0..<?n] @ [?n]" by simp
    then show ?thesis unfolding dir_entries_def blocks by (simp only: map_append concat_append list.map concat.simps append_Nil2 eq new)
  qed
  have added: "entries_added (dir_entries P s ino) entry (dir_entries P ?t ino')"
    unfolding entries_added_def ext
    by (rule exI [of _ "dir_entries P s ino"], rule exI [of _ "block_entries (replicate block_size 0)"], rule exI [of _ "[]"],
        rule exI [of _ 0]) (use zero_block_entries e0 in \<open>auto simp del: replicate.simps\<close>)
  have "dir_ok P ?t ino'"
    unfolding dir_ok_def
  proof (intro conjI allI impI)
    show "is_directory ino'" using d(1) by (simp add: is_directory_def ino')
    show "dir_blocks ino' \<le> direct_count" using blocks assms(8) by simp
    show "(file_block P ?t ino' l \<noteq> 0) = (l < dir_blocks ino')" if "l < direct_count" for l
      using that t(6) fb map1 [of l] d(4) b0 blocks by auto
    show "\<forall>e \<in> set (dir_entries P ?t ino'). plain_entry e" by (rule entries_added_plain [OF added d(5) assms(7)])
  qed (use t(4) i0 in auto)
  moreover have "inode_at P ?t m = inode_at P s m" if "valid_inode s m" "m \<noteq> p" for m
  proof -
    have "valid_inode t1 m" using that(1) sb_geom_eqD(4) [OF assms(17)] by (simp add: valid_inode_def)
    then show ?thesis using inos that(2) b1 by (simp add: inode_at_def)
  qed
  ultimately have "dirent_added s p entry ?t"
    using t added assms(3,17,18) by (simp add: dirent_added_def inode_used_def)
  with t(1) at show ?thesis by auto
qed

end

context fs_on_device
begin

text \<open>
  Every way \<open>add_dirent\<close> can end for a short name: it adds the entry, or the directory is full (its
  eleven direct blocks hold no free entry), or the disk is.
\<close>

lemma alloc_block_inodes: "alloc_block s = Some (r, t) \<Longrightarrow> inode_used t = inode_used s"
  by (auto simp: alloc_block_def Let_def inode_used_def split: option.splits if_splits)

lemma add_dirent_run:
  assumes "ok s" "valid_inode s p" "ino = inode_at P s p" "dir_ok P s ino" "zero_free P s"
    "name \<noteq> []" "length name \<le> name_max" "n \<noteq> 0"
  shows "(\<exists>t. add_dirent P p name n ft s = Some (Inr (), t) \<and> dirent_added s p (new_entry P name n ft) t) \<or>
    (\<exists>e t. add_dirent P p name n ft s = Some (Inl e, t) \<and> ok t \<and>
       (\<forall>x \<in> set (dir_entries P s ino). de_inode x \<noteq> 0) \<and>
       (e = DiskFull 0 \<or> e = InvalidOperation ''no indirect block to append into'' \<and> dir_blocks ino = direct_count))"
proof -
  have d: "is_directory ino" "file_ok P s ino" "i_indirect ino = 0" "dir_blocks ino \<le> direct_count"
    "\<forall>l < direct_count. file_block P s ino l \<noteq> 0 \<longleftrightarrow> l < dir_blocks ino"
    using assms(4) by (simp_all add: dir_ok_def)
  let ?n = "dir_blocks ino" and ?entry = "new_entry P name n ft"
  note ne = new_entry_facts [OF assms(7,6,8), where P = P and ft = ft]
  have mapped: "\<forall>l \<in> set [0..<?n]. l < direct_count \<and> file_block P s ino l \<noteq> 0" using d(4,5) by auto
  have "name_max \<le> max_name_len" by (simp add: name_max_def dirent_size_def max_name_len_def)
  then have short: "\<not> length name > max_name_len" using assms(7) by simp
  note rd = read_inode_run [OF assms(1,2)]
  from find_free_entry_run [OF assms(1) d(2) mapped] show ?thesis
  proof
    assume "\<exists>l e. l \<in> set [0..<?n] \<and> e < dirents_per_block \<and> de_inode (dirent_at (blk P s (file_block P s ino l)) e) = 0 \<and>
      find_free_entry P ino [0..<?n] s = Some (Inr (ino, Some (i_direct ino ! l, e)), s)"
    then obtain l e where le: "l < ?n" "e < dirents_per_block" "de_inode (dirent_at (blk P s (file_block P s ino l)) e) = 0"
      "find_free_entry P ino [0..<?n] s = Some (Inr (ino, Some (i_direct ino ! l, e)), s)" by auto
    have l: "l < direct_count" "file_block P s ino l \<noteq> 0" "unat (i_direct ino ! l) = file_block P s ino l"
      using le(1) d(4,5) by (simp_all add: file_block_def)
    have lm: "l < max_logical" using l(1) by (simp add: max_logical_def)
    note own = owned_read [OF assms(1) file_okD(1) [OF d(2) lm l(2)]]
    have "add_dirent P p name n ft s =
        op_bind (op_option (mem_write (blk P s (file_block P s ino l)) (e * dirent_size) (de_to_bytes ?entry))) (\<lambda>block_buf.
        op_bind (fs_write_block P (file_block P s ino l) block_buf) (\<lambda>_. write_inode P p ino)) s"
      using rd assms(3,6,7) d(1) short le(4) own(1) l(3) fill_entry_short [OF assms(7), of P n ft s]
      by (simp add: add_dirent_def op_simps Let_def dir_blocks_def [symmetric])
    then show ?thesis using add_dirent_free [OF assms(1-5) ne(1,3) le(1-3)] by auto
  next
    assume no: "find_free_entry P ino [0..<?n] s = Some (Inr (ino, None), s) \<and>
      (\<forall>l \<in> set [0..<?n]. \<forall>e < dirents_per_block. de_inode (dirent_at (blk P s (file_block P s ino l)) e) \<noteq> 0)"
    then have all: "\<forall>x \<in> set (dir_entries P s ino). de_inode x \<noteq> 0" by (auto simp: dir_entries_def block_entries_def)
    have un: "?n + 1 \<le> u32_max" "(?n + 1) * block_size \<le> u32_max" "?n \<le> u32_max"
      using d(4) by (simp_all add: file_consts block_size_def u32_max_def)
    show ?thesis
    proof (cases rule: alloc_block_ok [OF assms(1)])
      case 1
      then have "add_dirent P p name n ft s = Some (Inl (DiskFull 0), s)"
        using rd assms(3,6) d(1) short no by (simp add: add_dirent_def op_simps Let_def dir_blocks_def [symmetric])
      then show ?thesis using assms(1) all by blast
    next
      case (2 b t1)
      show ?thesis
      proof (cases "?n < direct_count")
        case False
        then have "?n = direct_count" using d(4) by simp
        moreover have "add_dirent P p name n ft s = Some (Inl (InvalidOperation ''no indirect block to append into''), t1)"
          using rd assms(3,6) d(1,3) short no 2(1) False un(3)
          by (simp add: add_dirent_def op_simps Let_def dir_blocks_def [symmetric] block_for_direct_alloc_def)
        ultimately show ?thesis using 2(2) all by blast
      next
        case True
        define ino' where "ino' = ino\<lparr>i_direct := (i_direct ino)[?n := word_of_nat b],
          i_size := word_of_nat ((?n + 1) * block_size), i_block_count := word_of_nat (?n + 1)\<rparr>"
        have rb: "fs_read_block P b t1 = Some (Inr (blk P t1 b), t1)"
          using read_data_ok(1) [OF 2(2), of b] 2(4) sb_geom_eqD(3) [OF 2(10)] by simp
        have "add_dirent P p name n ft s =
            op_bind (op_option (mem_write (blk P t1 b) 0 (de_to_bytes ?entry))) (\<lambda>block_buf.
            op_bind (fs_write_block P b block_buf) (\<lambda>_. write_inode P p ino')) t1"
          using rd assms(3,6,7) d(1) short no 2(1,5) True un fill_entry_short [OF assms(7), of P n ft t1] rb
          by (simp add: add_dirent_def op_simps Let_def dir_blocks_def [symmetric] block_for_direct_alloc_def ino'_def)
        then show ?thesis
          using add_dirent_extend [OF assms(1-5) ne(1,3) True 2(1-6,8-10) alloc_block_inodes [OF 2(1)] ino'_def] by auto
      qed
    qed
  qed
qed

end

end
