(* ===== verification/Fs_Create.thy ===== *)
theory Fs_Create
  imports Fs_Dir_Props
begin

text \<open>
  What \<open>create\<close>, \<open>mkdir\<close> and \<open>unlink\<close> (\<open>crates/wredit/src/fs.rs\<close>) do to a directory, seen as the map
  from short names to inodes that \<open>find_dirent\<close> reads.
\<close>

section \<open>Writing an inode leaves the directories\<close>

definition new_file_inode :: "u16 \<Rightarrow> inode" where
  "new_file_inode mode = (if mode AND 0x4000 \<noteq> 0 then inode_directory else inode_regular)"

lemma new_file_direct [simp]: "length (i_direct (new_file_inode mode)) = direct_count"
  by (simp add: new_file_inode_def inode_directory_def inode_regular_def with_mode_def)

lemma dir_ok_cong:
  assumes "dir_ok P s ino" "sb_geom (fs_sb t) = sb_geom (fs_sb s)" "fs_used t = fs_used s"
    "\<And>b. first_data (fs_sb s) \<le> b \<Longrightarrow> blk P t b = blk P s b"
  shows "dir_ok P t ino" "dir_entries P t ino = dir_entries P s ino"
proof -
  have d: "file_ok P s ino" "i_indirect ino = 0" "dir_blocks ino \<le> direct_count"
    "\<forall>l < direct_count. file_block P s ino l \<noteq> 0 \<longleftrightarrow> l < dir_blocks ino"
    using assms(1) by (simp_all add: dir_ok_def)
  have fb: "file_block P t ino = file_block P s ino" using d(2) by (intro file_block_cong) simp_all
  have own: "owned t b" if "owned s b" for b using owned_mono [OF that assms(2)] assms(3) by simp
  have fok: "file_ok P t ino" using d(1) own by (simp add: file_ok_def fb)
  have "blk P t (file_block P s ino l) = blk P s (file_block P s ino l)" if "l < dir_blocks ino" for l
  proof -
    have "l < direct_count" using that d(3) by simp
    then have "l < max_logical" "file_block P s ino l \<noteq> 0" using that d(4) by (simp_all add: max_logical_def)
    then have "owned s (file_block P s ino l)" using file_okD(1) [OF d(1)] by blast
    then show ?thesis using assms(4) by (simp add: owned_def)
  qed
  then show ents: "dir_entries P t ino = dir_entries P s ino"
    unfolding dir_entries_def fb by (intro arg_cong [of _ _ concat] map_cong) simp_all
  show "dir_ok P t ino" using assms(1) fok fb ents by (simp add: dir_ok_def)
qed

lemma zero_free_cong:
  assumes "zero_free P s" "sb_geom (fs_sb t) = sb_geom (fs_sb s)" "fs_used t = fs_used s"
    "\<And>b. first_data (fs_sb s) \<le> b \<Longrightarrow> blk P t b = blk P s b"
  shows "zero_free P t"
  using assms(1,3,4) sb_geom_eqD(2,3) [OF assms(2)] by (simp add: zero_free_def)

section \<open>Names that occur once\<close>

definition name_hit :: "'d platform \<Rightarrow> u8 list \<Rightarrow> dir_entry \<Rightarrow> bool" where
  "name_hit P name = entry_hit name (name_hash P name)"

definition unique_names :: "'d platform \<Rightarrow> dir_entry list \<Rightarrow> bool" where
  "unique_names P xs \<longleftrightarrow> (\<forall>name. length (filter (name_hit P name) xs) \<le> 1)"

lemma name_hit_live: "name_hit P name e \<Longrightarrow> de_inode e \<noteq> 0"
  by (simp add: name_hit_def entry_hit_def)

lemma name_hit_inj: "name_hit P name e \<Longrightarrow> name_hit P other e \<Longrightarrow> other = name"
  by (simp add: name_hit_def entry_hit_def)

lemma length_filter_update:
  "i < length xs \<Longrightarrow> length (filter q (xs[i := x])) + (if q (xs ! i) then 1 else 0) =
     length (filter q xs) + (if q x then 1 else 0)"
proof (induction xs arbitrary: i)
  case (Cons a xs)
  then show ?case by (cases i) auto
qed simp

lemma unique_added:
  assumes "unique_names P xs" "entries_added xs entry ys" "find (name_hit P name) xs = None"
    "\<And>other. name_hit P other entry \<longleftrightarrow> other = name"
  shows "unique_names P ys"
  unfolding unique_names_def
proof
  fix other
  let ?q = "name_hit P other"
  from assms(2) obtain A B C i where d: "i < length B" "de_inode (B ! i) = 0" "ys = A @ B[i := entry] @ C"
    "xs = A @ B @ C \<or> xs = A \<and> C = [] \<and> (\<forall>e \<in> set B. de_inode e = 0)" unfolding entries_added_def by blast
  have "\<not> ?q (B ! i)" using name_hit_live d(2) by blast
  then have B: "length (filter ?q (B[i := entry])) = length (filter ?q B) + (if ?q entry then 1 else 0)"
    using length_filter_update [OF d(1), of ?q entry] by simp
  have "filter ?q B = []" if "\<forall>e \<in> set B. de_inode e = 0" using that name_hit_live by (auto simp: filter_empty_conv)
  then have "length (filter ?q ys) = length (filter ?q xs) + (if ?q entry then 1 else 0)"
    using d(3,4) B by auto
  moreover have "length (filter ?q xs) \<le> 1" using assms(1) by (simp add: unique_names_def)
  moreover have "filter ?q xs = []" if "?q entry" using assms(3,4) that by (auto simp: find_None_iff filter_empty_conv)
  ultimately show "length (filter ?q ys) \<le> 1" by (cases "?q entry") auto
qed

section \<open>Creating a file\<close>

text \<open>What a successful \<open>create\<close> leaves: the new name, a new inode, everything else as it was.\<close>

definition created :: "'d platform \<Rightarrow> 'd disk_fs \<Rightarrow> u32 \<Rightarrow> u8 list \<Rightarrow> u16 \<Rightarrow> u32 \<Rightarrow> 'd disk_fs \<Rightarrow> bool" where
  "created P s p name mode n t \<longleftrightarrow>
     dir_ok P t (inode_at P t p) \<and> zero_free P t \<and> sb_geom (fs_sb t) = sb_geom (fs_sb s) \<and>
     (unique_names P (dir_entries P s (inode_at P s p)) \<longrightarrow> unique_names P (dir_entries P t (inode_at P t p))) \<and>
     \<not> inode_used s (unat n) \<and> inode_used t = (inode_used s)(unat n := True) \<and>
     valid_inode t n \<and> inode_at P t n = new_file_inode mode \<and>
     find_dirent P p name t = Some (Inr n, t) \<and>
     (\<forall>other. other \<noteq> [] \<longrightarrow> length other \<le> max_name_len \<longrightarrow> other \<noteq> name \<longrightarrow>
        map_option fst (find_dirent P p other t) = map_option fst (find_dirent P p other s)) \<and>
     (\<forall>m. valid_inode s m \<longrightarrow> m \<noteq> p \<longrightarrow> m \<noteq> n \<longrightarrow> inode_at P t m = inode_at P s m)"

context fs_on_device
begin

lemma new_inode_run:
  assumes "ok s" "valid_inode s p" "dir_ok P s (inode_at P s p)" "zero_free P s" "inode_used s 0" "inode_used s (unat p)"
    "alloc_inode s = Some (Inr (word_of_nat n), t)" "ok t"
      "n < unat (sb_inode_count (fs_sb s))" "unat (word_of_nat n :: u32) = n" "\<not> inode_used s n"
      "inode_used t = (inode_used s)(n := True)" "fs_used t = fs_used s"
      "fs_device t = fs_device s" "sb_geom (fs_sb t) = sb_geom (fs_sb s)"
    "length (i_direct v) = direct_count"
  shows "\<exists>u. write_inode P (word_of_nat n) v t = Some (Inr (), u) \<and> ok u \<and> word_of_nat n \<noteq> (0 :: u32) \<and> word_of_nat n \<noteq> p \<and>
    valid_inode u (word_of_nat n) \<and> inode_at P u (word_of_nat n) = v \<and> inode_at P u p = inode_at P s p \<and>
    (\<forall>m. valid_inode s m \<longrightarrow> m \<noteq> word_of_nat n \<longrightarrow> inode_at P u m = inode_at P s m) \<and>
    dir_ok P u (inode_at P s p) \<and> dir_entries P u (inode_at P s p) = dir_entries P s (inode_at P s p) \<and> zero_free P u \<and>
    inode_used u = (inode_used s)(n := True) \<and> sb_geom (fs_sb u) = sb_geom (fs_sb s)"
proof -
  let ?n = "word_of_nat n :: u32"
  have n0: "?n \<noteq> 0" "?n \<noteq> p" using assms(5,6,10,11) by auto
  have valid: "valid_inode t ?n"
    using n0(1) assms(9,10) sb_geom_eqD(4) [OF assms(15)] by (simp add: valid_inode_def word_le_nat_alt)
  obtain d where d: "write_inode P ?n v t = Some (Inr (), t\<lparr>fs_device := d\<rparr>)" "ok (t\<lparr>fs_device := d\<rparr>)"
    "inode_at P (t\<lparr>fs_device := d\<rparr>) ?n = v"
    "\<forall>m. m \<noteq> 0 \<longrightarrow> m \<noteq> ?n \<longrightarrow> inode_at P (t\<lparr>fs_device := d\<rparr>) m = inode_at P t m"
    "\<forall>b. b \<noteq> table_block ?n \<longrightarrow> blk P (t\<lparr>fs_device := d\<rparr>) b = blk P t b"
    using write_inode_run [OF assms(8) valid assms(16)] by metis
  let ?u = "t\<lparr>fs_device := d\<rparr>"
  have bt: "blk P t = blk P s" using assms(14) by (rule blk_cong)
  have data: "blk P ?u b = blk P s b" if "first_data (fs_sb s) \<le> b" for b
    using d(5) table_place(3) [OF assms(8) valid] that bt sb_geom_eqD(2) [OF assms(15)] by (metis leD)
  have same: "sb_geom (fs_sb ?u) = sb_geom (fs_sb s)" "fs_used ?u = fs_used s"
    using assms(13,15) by (simp_all add: fs_used_def)
  have inos: "inode_at P ?u m = inode_at P s m" if "valid_inode s m" "m \<noteq> ?n" for m
    using d(4) that bt by (simp add: valid_inode_def inode_at_def)
  have "inode_at P ?u p = inode_at P s p" using inos assms(2) n0(2) by metis
  moreover note dir_ok_cong [OF assms(3) same data] zero_free_cong [OF assms(4) same data]
  ultimately show ?thesis
    using d(1-3) n0 valid inos same(1) assms(12)
    by (intro exI [of _ ?u]) (simp add: valid_inode_def inode_used_def)
qed

lemma created_from:
  assumes "ok s" "valid_inode s p" "dir_ok P s (inode_at P s p)" "name \<noteq> []" "length name \<le> name_max"
    "find (entry_hit name (name_hash P name)) (dir_entries P s (inode_at P s p)) = None"
    "n \<noteq> 0" "n \<noteq> p" "valid_inode u n" "inode_at P u n = new_file_inode mode" "inode_at P u p = inode_at P s p"
    "\<forall>m. valid_inode s m \<longrightarrow> m \<noteq> n \<longrightarrow> inode_at P u m = inode_at P s m"
    "dir_ok P u (inode_at P s p)" "dir_entries P u (inode_at P s p) = dir_entries P s (inode_at P s p)" "zero_free P u"
    "inode_used u = (inode_used s)(k := True)" "sb_geom (fs_sb u) = sb_geom (fs_sb s)" "unat n = k" "\<not> inode_used s k"
    "dirent_added u p (new_entry P name n ft) w"
  shows "ok w \<and> created P s p name mode n w"
proof -
  let ?entry = "new_entry P name n ft"
  have w: "ok w" "dir_ok P w (inode_at P w p)" "zero_free P w" "sb_geom (fs_sb w) = sb_geom (fs_sb s)"
    "inode_used w = (inode_used s)(k := True)"
    "entries_added (dir_entries P s (inode_at P s p)) ?entry (dir_entries P w (inode_at P w p))"
    "\<forall>m. valid_inode u m \<longrightarrow> m \<noteq> p \<longrightarrow> inode_at P w m = inode_at P u m"
    using assms(20) by (simp_all add: dirent_added_def assms(11,14,16,17))
  have valid: "valid_inode u m = valid_inode s m" "valid_inode w m = valid_inode s m" for m
    using sb_geom_eqD(4) [OF assms(17)] sb_geom_eqD(4) [OF w(4)] by (simp_all add: valid_inode_def)
  have vp: "valid_inode w p" using valid assms(2) by simp
  note ne = new_entry_facts [OF assms(5,4,7), where P = P and ft = ft]
  note search = find_dirent_plain [OF w(1) vp refl w(2)]
  have max: "length name \<le> max_name_len" using assms(5) by (simp add: name_max_def dirent_size_def max_name_len_def)
  have hit: "entry_hit other h e \<Longrightarrow> de_inode e \<noteq> 0" for other h e by (simp add: entry_hit_def)
  have "find_dirent P p name w = Some (Inr n, w)"
    using search [OF assms(4) max] entries_added_find(2) [OF w(6) hit assms(6)] ne(2) ne(4) [of name] by simp
  moreover have "map_option fst (find_dirent P p other w) = map_option fst (find_dirent P p other s)"
    if "other \<noteq> []" "length other \<le> max_name_len" "other \<noteq> name" for other
    using search [OF that(1,2)] find_dirent_plain [OF assms(1,2) refl assms(3) that(1,2)]
      entries_added_find(1) [OF w(6), where q = "entry_hit other (name_hash P other)"] hit ne(4) [of other] that(3)
    by (simp split: option.splits)
  moreover have "unique_names P (dir_entries P w (inode_at P w p))" if "unique_names P (dir_entries P s (inode_at P s p))"
    by (rule unique_added [OF that w(6)]) (use assms(6) ne(4) in \<open>simp_all add: name_hit_def\<close>)
  ultimately show ?thesis using w assms(8-10,12,18,19) valid by (simp add: created_def)
qed

lemma create_run:
  assumes "ok s" "valid_inode s p" "dir_ok P s (inode_at P s p)" "zero_free P s" "inode_used s 0" "inode_used s (unat p)"
    "name \<noteq> []" "length name \<le> name_max"
  shows "(\<exists>n. find_dirent P p name s = Some (Inr n, s) \<and> fs_create P p name mode s = Some (Inl (AlreadyExists ''name''), s)) \<or>
    (\<exists>n t. fs_create P p name mode s = Some (Inr n, t) \<and> ok t \<and> created P s p name mode n t) \<or>
    (\<exists>e t. fs_create P p name mode s = Some (Inl e, t) \<and> ok t \<and>
       (e = DiskFull 0 \<or> e = InvalidOperation ''no indirect block to append into'') \<and>
       ((\<forall>n < unat (sb_inode_count (fs_sb s)). inode_used s n) \<or> (\<forall>x \<in> set (dir_entries P s (inode_at P s p)). de_inode x \<noteq> 0)))"
proof -
  have long: "length name \<le> max_name_len" using assms(8) by (simp add: name_max_def dirent_size_def max_name_len_def)
  note fd = find_dirent_plain [OF assms(1,2) refl assms(3,7) long]
  show ?thesis
  proof (cases "find (entry_hit name (name_hash P name)) (dir_entries P s (inode_at P s p))")
    case (Some e)
    then show ?thesis using fd assms(7) by (simp add: fs_create_def name_present_def op_simps)
  next
    case None
    then have no: "name_present P p name s = Some (Inr False, s)" using fd by (simp add: name_present_def)
    show ?thesis
    proof (cases rule: alloc_inode_ok [OF assms(1)])
      case 1
      then show ?thesis using no assms(1,7) by (simp add: fs_create_def op_simps)
    next
      case (2 n t)
      let ?n = "word_of_nat n :: u32" and ?v = "new_file_inode mode"
      let ?ft = "if is_directory ?v then Directory else Regular"
      obtain u where u: "write_inode P ?n ?v t = Some (Inr (), u)" "ok u" "?n \<noteq> 0" "?n \<noteq> p" "valid_inode u ?n"
        "inode_at P u ?n = ?v" "inode_at P u p = inode_at P s p"
        "\<forall>m. valid_inode s m \<longrightarrow> m \<noteq> ?n \<longrightarrow> inode_at P u m = inode_at P s m"
        "dir_ok P u (inode_at P s p)" "dir_entries P u (inode_at P s p) = dir_entries P s (inode_at P s p)" "zero_free P u"
        "inode_used u = (inode_used s)(n := True)" "sb_geom (fs_sb u) = sb_geom (fs_sb s)"
        using new_inode_run [OF assms(1-6) 2 new_file_direct [of mode]] by blast
      have run: "fs_create P p name mode s = op_bind (add_dirent P p name ?n ?ft) (\<lambda>_. op_return ?n) u"
        using no assms(7) 2(1) u(1) by (simp add: fs_create_def op_simps Let_def new_file_inode_def)
      have vp: "valid_inode u p" using assms(2) sb_geom_eqD(4) [OF u(13)] by (simp add: valid_inode_def)
      have dir: "dir_ok P u (inode_at P u p)" using u(7,9) by simp
      from add_dirent_run [OF u(2) vp refl dir u(11) assms(7,8) u(3), of ?ft] show ?thesis
      proof
        assume "\<exists>w. add_dirent P p name ?n ?ft u = Some (Inr (), w) \<and> dirent_added u p (new_entry P name ?n ?ft) w"
        then obtain w where w: "add_dirent P p name ?n ?ft u = Some (Inr (), w)" "dirent_added u p (new_entry P name ?n ?ft) w" by blast
        have "ok w" "created P s p name mode ?n w"
          using created_from [OF assms(1-3,7,8) None u(3-13) 2(4,5) w(2)] by blast+
        then show ?thesis using run w(1) by (auto simp: op_simps)
      next
        assume "\<exists>e w. add_dirent P p name ?n ?ft u = Some (Inl e, w) \<and> ok w \<and>
          (\<forall>x \<in> set (dir_entries P u (inode_at P u p)). de_inode x \<noteq> 0) \<and>
          (e = DiskFull 0 \<or> e = InvalidOperation ''no indirect block to append into'' \<and> dir_blocks (inode_at P u p) = direct_count)"
        then obtain e w where w: "add_dirent P p name ?n ?ft u = Some (Inl e, w)" "ok w"
          "\<forall>x \<in> set (dir_entries P s (inode_at P s p)). de_inode x \<noteq> 0"
          "e = DiskFull 0 \<or> e = InvalidOperation ''no indirect block to append into''" using u(7,10) by auto
        have "fs_create P p name mode s = Some (Inl e, w)" using run w(1) by (simp add: op_simps)
        with w show ?thesis by blast
      qed
    qed
  qed
qed

end

end
