(* ===== verification/Fs_Unlink.thy ===== *)
theory Fs_Unlink
  imports Fs_Create
begin

text \<open>
  \<open>unlink\<close> (\<open>crates/wredit/src/fs.rs\<close>) blanks the entry that \<open>find_dirent\<close> finds; a directory in
  which every name occurs at most once stays so, and the name is gone.
\<close>

section \<open>Blank entries\<close>

definition blank_entry :: dir_entry where
  "blank_entry = de_unused\<lparr>de_rec_len := word_of_nat dirent_size\<rparr>"

lemma blank_facts: "\<not> name_hit P name blank_entry" "plain_entry blank_entry" "length (de_name blank_entry) = name_max"
  by (simp_all add: blank_entry_def name_hit_def entry_hit_def plain_entry_def de_unused_def)

lemma unique_blanked:
  assumes "unique_names P xs" "i < length xs" "name_hit P name (xs ! i)"
  shows "unique_names P (xs[i := blank_entry])" "find (name_hit P name) (xs[i := blank_entry]) = None"
    "other \<noteq> name \<Longrightarrow> find (name_hit P other) (xs[i := blank_entry]) = find (name_hit P other) xs"
proof -
  note len = length_filter_update [OF assms(2), of "name_hit P other" blank_entry for other]
  show "unique_names P (xs[i := blank_entry])"
    unfolding unique_names_def
  proof
    fix n
    have "length (filter (name_hit P n) xs) \<le> 1" using assms(1) by (simp add: unique_names_def)
    then show "length (filter (name_hit P n) (xs[i := blank_entry])) \<le> 1"
      using len [of n] blank_facts(1) [of P n] by simp
  qed
  have "length (filter (name_hit P name) xs) \<le> 1" using assms(1) by (simp add: unique_names_def)
  then have "length (filter (name_hit P name) (xs[i := blank_entry])) = 0"
    using len [of name] assms(3) blank_facts(1) [of P name] by (simp del: length_0_conv)
  then show "find (name_hit P name) (xs[i := blank_entry]) = None" by (simp add: find_None_iff filter_empty_conv)
  show "find (name_hit P other) (xs[i := blank_entry]) = find (name_hit P other) xs" if "other \<noteq> name"
    using find_update_other [OF assms(2)] name_hit_inj [OF assms(3)] that blank_facts(1) by metis
qed

section \<open>Where the entry is\<close>

lemma find_nth: "find q xs = Some x \<Longrightarrow> \<exists>i < length xs. xs ! i = x \<and> q x \<and> (\<forall>j < i. \<not> q (xs ! j))"
  by (auto simp: find_Some_iff)

lemma find_concat:
  "find q (concat (map f [0..<n])) = Some x \<Longrightarrow>
   \<exists>l < n. find q (f l) = Some x \<and> (\<forall>m < l. find q (f m) = None)"
proof (induction n)
  case (Suc n)
  show ?case
  proof (cases "find q (concat (map f [0..<n]))")
    case None
    then have "find q (f n) = Some x" "\<forall>m < n. find q (f m) = None"
      using Suc.prems by (simp add: find_append, fastforce simp: find_None_iff)
    then show ?thesis by blast
  next
    case (Some y)
    then show ?thesis using Suc by (auto simp: find_append less_Suc_eq)
  qed
qed simp

lemma concat_update:
  assumes "l < n" "i < length (f l)" "\<And>m. m < n \<Longrightarrow> g m = (if m = l then (f m)[i := x] else f m)"
  shows "\<exists>k < length (concat (map f [0..<n])). concat (map f [0..<n]) ! k = f l ! i \<and>
    concat (map g [0..<n]) = (concat (map f [0..<n]))[k := x]"
proof -
  let ?A = "concat (map f [0..<l])" and ?C = "concat (map f [Suc l..<n])"
  have eq: "map g [0..<l] = map f [0..<l]" "map g [Suc l..<n] = map f [Suc l..<n]" using assms(1,3) by simp_all
  have xs: "concat (map f [0..<n]) = ?A @ f l @ ?C" unfolding upt_split3 [OF assms(1)] by simp
  have ys: "concat (map g [0..<n]) = ?A @ (f l)[i := x] @ ?C"
    using assms(1,3) unfolding upt_split3 [OF assms(1)] map_append list.map eq by simp
  show ?thesis unfolding xs ys
    by (rule exI [of _ "length ?A + i"]) (use assms(2) in \<open>simp add: nth_append list_update_append\<close>)
qed

lemma unlink_in_block_none:
  assumes "\<forall>e \<in> set es. \<not> entry_hit name h (dirent_at bs e) \<and> plain_entry (dirent_at bs e)" "target \<noteq> 0"
  shows "unlink_in_block P target name h b bs es s = Some (Inr False, s)"
  using assms(1)
proof (induction es)
  case (Cons e es)
  then show ?case
    using assms(2) by (auto simp: Let_def op_simps entry_name_matches_def de_is_pooled_def plain_entry_def entry_hit_def)
qed (simp add: op_simps)

lemma unlink_in_block_hit:
  assumes "\<forall>e \<in> set es. \<not> entry_hit name h (dirent_at bs e) \<and> plain_entry (dirent_at bs e)"
    "entry_hit name h (dirent_at bs e)" "plain_entry (dirent_at bs e)" "de_inode (dirent_at bs e) = target"
  shows "unlink_in_block P target name h b bs (es @ e # fs) s =
    op_bind (op_option (mem_write bs (e * dirent_size) (de_to_bytes blank_entry))) (\<lambda>block_buf.
    op_bind (fs_write_block P (unat b) block_buf) (\<lambda>_. op_return True)) s"
  using assms(1)
proof (induction es)
  case Nil
  have "de_inode (dirent_at bs e) \<noteq> 0" using assms(2) by (simp add: entry_hit_def)
  then have "entry_name_matches P (dirent_at bs e) name s = Some (Inr True, s)"
    using assms(2,3) by (simp add: op_simps entry_name_matches_def de_is_pooled_def plain_entry_def entry_hit_def)
  moreover have "de_name_hash (dirent_at bs e) = h" using assms(2) by (simp add: entry_hit_def)
  ultimately show ?case
    using assms(4) by (simp add: Let_def op_bind_run(3) [of "entry_name_matches P (dirent_at bs e) name"] blank_entry_def)
next
  case (Cons x es)
  have "target \<noteq> 0" using assms(2,4) by (auto simp: entry_hit_def)
  with Cons show ?case
    by (auto simp: Let_def op_simps entry_name_matches_def de_is_pooled_def plain_entry_def entry_hit_def)
qed

section \<open>Unlinking\<close>

text \<open>What a successful \<open>unlink\<close> leaves: the name is gone, every inode and every other name stays.\<close>

definition unlinked :: "'d platform \<Rightarrow> 'd disk_fs \<Rightarrow> u32 \<Rightarrow> u8 list \<Rightarrow> 'd disk_fs \<Rightarrow> bool" where
  "unlinked P s p name t \<longleftrightarrow>
     dir_ok P t (inode_at P t p) \<and> unique_names P (dir_entries P t (inode_at P t p)) \<and> zero_free P t \<and>
     fs_sb t = fs_sb s \<and> inode_used t = inode_used s \<and> fs_used t = fs_used s \<and>
     (\<forall>m. valid_inode s m \<longrightarrow> inode_at P t m = inode_at P s m) \<and>
     find_dirent P p name t = Some (Inl (NotFound ''directory entry''), t) \<and>
     (\<forall>other. other \<noteq> [] \<longrightarrow> length other \<le> max_name_len \<longrightarrow> other \<noteq> name \<longrightarrow>
        map_option fst (find_dirent P p other t) = map_option fst (find_dirent P p other s))"

context fs_on_device
begin

lemma dir_block_read:
  assumes "ok s" "dir_ok P s ino" "l < dir_blocks ino"
  shows "block_for_direct P ino (word_of_nat l) s = Some (Inr (Some (i_direct ino ! l)), s)"
    "unat (i_direct ino ! l) = file_block P s ino l"
    "fs_read_block P (file_block P s ino l) s = Some (Inr (blk P s (file_block P s ino l)), s)"
    "length (blk P s (file_block P s ino l)) = block_size" "owned s (file_block P s ino l)"
    "e \<in> set (block_entries (blk P s (file_block P s ino l))) \<Longrightarrow> plain_entry e"
proof -
  have d: "file_ok P s ino" "l < direct_count" "file_block P s ino l \<noteq> 0" "\<forall>e \<in> set (dir_entries P s ino). plain_entry e"
    using assms(2,3) by (auto simp: dir_ok_def)
  have lw: "unat (word_of_nat l :: u32) = l" using d(2) by (intro word_of_nat_u32) (simp add: file_consts u32_max_def)
  show "block_for_direct P ino (word_of_nat l) s = Some (Inr (Some (i_direct ino ! l)), s)"
    using block_for_direct_run [OF assms(1) d(1), of "word_of_nat l"] d(2,3) lw by simp
  show "unat (i_direct ino ! l) = file_block P s ino l" using d(2) by (simp add: file_block_def)
  have "l < max_logical" using d(2) by (simp add: max_logical_def)
  from file_okD(1) [OF d(1) this d(3)] show own: "owned s (file_block P s ino l)" .
  from owned_read [OF assms(1) own] show "fs_read_block P (file_block P s ino l) s = Some (Inr (blk P s (file_block P s ino l)), s)"
    "length (blk P s (file_block P s ino l)) = block_size" by blast+
  show "plain_entry e" if "e \<in> set (block_entries (blk P s (file_block P s ino l)))"
    using d(4) assms(3) that by (auto simp: dir_entries_def)
qed

lemma unlink_in_dir_hit:
  assumes "ok s" "dir_ok P s ino" "l < dir_blocks ino" "target \<noteq> 0"
    "\<forall>m < l. find (entry_hit name h) (block_entries (blk P s (file_block P s ino m))) = None"
    "unlink_in_block P target name h (i_direct ino ! l) (blk P s (file_block P s ino l)) [0..<dirents_per_block] s = Some (Inr True, t)"
  shows "m \<le> l \<Longrightarrow> unlink_in_dir P ino target name h [m..<dir_blocks ino] s = Some (Inr (), t)"
proof (induction m rule: inc_induct)
  case base
  note rd = dir_block_read [OF assms(1-3)]
  show ?case using rd(1-3) assms(3,6) by (simp add: upt_conv_Cons op_simps)
next
  case (step m)
  then have m: "m < dir_blocks ino" using assms(3) by simp
  note rd = dir_block_read [OF assms(1,2) m]
  let ?bs = "blk P s (file_block P s ino m)"
  have "\<forall>e \<in> set [0..<dirents_per_block]. \<not> entry_hit name h (dirent_at ?bs e) \<and> plain_entry (dirent_at ?bs e)"
    using assms(5) step(2) rd(6) by (auto simp: block_entries_def find_None_iff)
  then have none: "unlink_in_block P target name h (i_direct ino ! m) ?bs [0..<dirents_per_block] s = Some (Inr False, s)"
    using assms(4) by (rule unlink_in_block_none)
  show ?case
    using rd(1-3) m step(3) by (simp add: upt_conv_Cons op_simps op_bind_run(3) [of "unlink_in_block P target name h (i_direct ino ! m) ?bs [0..<dirents_per_block]", OF none])
qed

lemma blank_at:
  assumes "ok s" "dir_ok P s ino" "zero_free P s" "l < dir_blocks ino" "e < dirents_per_block"
  shows "\<exists>t. op_bind (op_option (mem_write (blk P s (file_block P s ino l)) (e * dirent_size) (de_to_bytes blank_entry))) (\<lambda>block_buf.
      op_bind (fs_write_block P (file_block P s ino l) block_buf) (\<lambda>_. op_return True)) s = Some (Inr True, t) \<and> ok t \<and>
    fs_sb t = fs_sb s \<and> inode_used t = inode_used s \<and> fs_used t = fs_used s \<and> zero_free P t \<and>
    (\<forall>m. valid_inode s m \<longrightarrow> inode_at P t m = inode_at P s m) \<and> dir_ok P t ino \<and>
    (\<exists>k < length (dir_entries P s ino). dir_entries P s ino ! k = dirent_at (blk P s (file_block P s ino l)) e \<and>
       dir_entries P t ino = (dir_entries P s ino)[k := blank_entry])"
proof -
  let ?b = "file_block P s ino l" let ?bs = "blk P s ?b"
  note rd = dir_block_read [OF assms(1,2,4)]
  have d: "file_ok P s ino" "i_indirect ino = 0" "dir_blocks ino \<le> direct_count" "\<forall>e \<in> set (dir_entries P s ino). plain_entry e"
    "\<forall>l < direct_count. file_block P s ino l \<noteq> 0 \<longleftrightarrow> l < dir_blocks ino"
    using assms(2) by (simp_all add: dir_ok_def)
  note ew = entry_write [OF rd(4) assms(5) blank_facts(3)]
  let ?new = "take (e * dirent_size) ?bs @ de_to_bytes blank_entry @ drop (e * dirent_size + dirent_size) ?bs"
  have b: "3 \<le> ?b" "?b < unat (sb_block_count (fs_sb s))" using owned_read [OF assms(1) rd(5)] by blast+
  obtain dv where t: "fs_write_block P ?b ?new s = Some (Inr (), s\<lparr>fs_device := dv\<rparr>)" "ok (s\<lparr>fs_device := dv\<rparr>)"
    "blk P (s\<lparr>fs_device := dv\<rparr>) = (blk P s)(?b := ?new)"
    using write_data_ok [OF assms(1) b ew(2)] by blast
  let ?t = "s\<lparr>fs_device := dv\<rparr>"
  have fb: "file_block P ?t ino = file_block P s ino" using d(2) by (intro file_block_cong) simp_all
  have fok: "file_ok P ?t ino" using d(1) fb by (rule file_ok_cong) (simp_all add: fs_used_def)
  have same: "file_block P s ino m = ?b \<longleftrightarrow> m = l" if "m < dir_blocks ino" for m
    using file_okD(3) [OF d(1)] that assms(4) d(3,5) by (auto simp: max_logical_def)
  have ents: "\<exists>k < length (dir_entries P s ino). dir_entries P s ino ! k = block_entries ?bs ! e \<and>
      dir_entries P ?t ino = (dir_entries P s ino)[k := blank_entry]"
    unfolding dir_entries_def fb
    by (rule concat_update [OF assms(4)]) (use assms(5) same t(3) ew(3) in auto)
  have "dir_ok P ?t ino"
  proof -
    have "\<forall>e \<in> set (dir_entries P ?t ino). plain_entry e"
      using ents d(4) blank_facts(2) set_update_subset_insert by fastforce
    then show ?thesis using assms(2) fok fb by (simp add: dir_ok_def)
  qed
  moreover have "inode_at P ?t m = inode_at P s m" if "valid_inode s m" for m
    using table_place(3) [OF assms(1) that] rd(5) t(3) by (intro inode_at_cong) (simp add: owned_def)
  moreover have "zero_free P ?t" using assms(3) rd(5) t(3) by (auto simp: zero_free_def fs_used_def owned_def)
  moreover have "block_entries ?bs ! e = dirent_at ?bs e" using assms(5) by (simp add: block_entries_def)
  ultimately show ?thesis
    using t(1,2) ew(1) ents by (intro exI [of _ ?t]) (simp add: op_simps inode_used_def fs_used_def)
qed

lemma unlink_run:
  assumes "ok s" "valid_inode s p" "dir_ok P s (inode_at P s p)" "unique_names P (dir_entries P s (inode_at P s p))"
    "zero_free P s" "name \<noteq> []" "length name \<le> max_name_len"
  shows "(find_dirent P p name s = Some (Inl (NotFound ''directory entry''), s) \<and>
      fs_unlink P p name s = Some (Inl (NotFound ''directory entry''), s)) \<or>
    (\<exists>n t. find_dirent P p name s = Some (Inr n, s) \<and> fs_unlink P p name s = Some (Inr (), t) \<and> ok t \<and> unlinked P s p name t)"
proof -
  let ?ino = "inode_at P s p" and ?h = "name_hash P name"
  note fd = find_dirent_plain [OF assms(1,2) refl assms(3)]
  show ?thesis
  proof (cases "find (entry_hit name ?h) (dir_entries P s ?ino)")
    case None
    then show ?thesis using fd [OF assms(6,7)] by (simp add: fs_unlink_def op_simps)
  next
    case (Some x)
    let ?f = "\<lambda>l. block_entries (blk P s (file_block P s ?ino l))"
    from find_concat [of _ ?f, OF Some [unfolded dir_entries_def]] obtain l where
      l: "l < dir_blocks ?ino" "find (entry_hit name ?h) (?f l) = Some x" "\<forall>m < l. find (entry_hit name ?h) (?f m) = None" by blast
    let ?b = "file_block P s ?ino l" let ?bs = "blk P s ?b"
    from find_nth [OF l(2)] obtain e where
      e: "e < dirents_per_block" "dirent_at ?bs e = x" "entry_hit name ?h x" "\<forall>j < e. \<not> entry_hit name ?h (dirent_at ?bs j)"
      by (auto simp: block_entries_def)
    note rd = dir_block_read [OF assms(1,3) l(1)]
    have plain: "plain_entry (dirent_at ?bs j)" if "j < dirents_per_block" for j
      using rd(6) that by (simp add: block_entries_def)
    obtain t k where t: "op_bind (op_option (mem_write ?bs (e * dirent_size) (de_to_bytes blank_entry))) (\<lambda>block_buf.
        op_bind (fs_write_block P ?b block_buf) (\<lambda>_. op_return True)) s = Some (Inr True, t)" "ok t"
      "fs_sb t = fs_sb s" "inode_used t = inode_used s" "fs_used t = fs_used s" "zero_free P t"
      "\<forall>m. valid_inode s m \<longrightarrow> inode_at P t m = inode_at P s m" "dir_ok P t ?ino"
      "k < length (dir_entries P s ?ino)" "dir_entries P s ?ino ! k = x" "dir_entries P t ?ino = (dir_entries P s ?ino)[k := blank_entry]"
      using blank_at [OF assms(1,3,5) l(1) e(1)] e(2) by metis
    have upt: "[0..<dirents_per_block] = [0..<e] @ e # [Suc e..<dirents_per_block]" using e(1) by (rule upt_split3)
    have "unlink_in_block P (de_inode x) name ?h (i_direct ?ino ! l) ?bs [0..<dirents_per_block] s = Some (Inr True, t)"
      unfolding upt using e plain t(1) rd(2) by (subst unlink_in_block_hit) auto
    moreover have x0: "de_inode x \<noteq> 0" using e(3) by (simp add: entry_hit_def)
    ultimately have "unlink_in_dir P ?ino (de_inode x) name ?h [0..<dir_blocks ?ino] s = Some (Inr (), t)"
      using unlink_in_dir_hit [OF assms(1,3) l(1) _ l(3)] by simp
    then have run: "find_dirent P p name s = Some (Inr (de_inode x), s)" "fs_unlink P p name s = Some (Inr (), t)"
      using fd [OF assms(6,7)] Some read_inode_run [OF assms(1,2)] by (simp_all add: fs_unlink_def op_simps dir_blocks_def)
    have vt: "valid_inode t p" using assms(2) t(3) by (simp add: valid_inode_def)
    have it: "inode_at P t p = ?ino" using t(7) assms(2) by simp
    note ft = find_dirent_plain [OF t(2) vt it [symmetric] t(8)]
    have hit: "name_hit P name (dir_entries P s ?ino ! k)" using t(10) e(3) by (simp add: name_hit_def)
    note ub = unique_blanked [OF assms(4) t(9) hit, folded t(11)]
    have "find_dirent P p name t = Some (Inl (NotFound ''directory entry''), t)"
      using ft [OF assms(6,7)] ub(2) by (simp add: name_hit_def)
    moreover have "map_option fst (find_dirent P p other t) = map_option fst (find_dirent P p other s)"
      if "other \<noteq> []" "length other \<le> max_name_len" "other \<noteq> name" for other
      using ft [OF that(1,2)] fd [OF that(1,2)] ub(3) [OF that(3)] by (simp add: name_hit_def split: option.splits)
    ultimately have "unlinked P s p name t" using t(3-8) ub(1) it by (simp add: unlinked_def)
    with run t(2) show ?thesis by blast
  qed
qed

end

end
