(* ===== verification/Fs_Directory.thy ===== *)
theory Fs_Directory
  imports Fs_Unlink
begin

text \<open>
  The directory operations of \<open>crates/wredit/src/fs.rs\<close> on a memory disk: the root that \<open>format\<close>
  makes, and what \<open>create\<close>, \<open>mkdir\<close> and \<open>unlink\<close> do to the names that \<open>find_dirent\<close> sees.
\<close>

section \<open>The root directory of a new disk\<close>

lemma dot_entry_eq: "dot_entry P name = new_entry P name 2 Directory"
  by (simp add: dot_entry_def new_entry_def)

definition root_entries :: "'d platform \<Rightarrow> dir_entry list" where
  "root_entries P = (block_entries (replicate block_size 0))[0 := dot_entry P [0x2E], 1 := dot_entry P [0x2E, 0x2E]]"

lemma dot_names: "length [0x2E :: u8] \<le> name_max" "length [0x2E, 0x2E :: u8] \<le> name_max" "(2 :: u32) \<noteq> 0"
  by (simp_all add: name_max_def dirent_size_def)

lemma root_block_entries: "block_entries (root_block_bytes P) = root_entries P"
proof -
  let ?a = "dot_entry P [0x2E]" and ?b = "dot_entry P [0x2E, 0x2E]" and ?z = "replicate block_size (0 :: u8)"
  have len: "length (de_name ?a) = name_max" "length (de_name ?b) = name_max"
    unfolding dot_entry_eq by (rule new_entry_facts(1), use dot_names in simp_all)+
  have e: "0 < dirents_per_block" "1 < dirents_per_block" by (simp_all add: dirents_consts)
  have sz: "dirent_size \<le> block_size" "dirent_size + dirent_size \<le> block_size" by (simp_all add: dirent_size_def block_size_def)
  note w1 = entry_write [OF length_replicate e(1) len(1)]
  let ?m = "take (0 * dirent_size) ?z @ de_to_bytes ?a @ drop (0 * dirent_size + dirent_size) ?z"
  note w2 = entry_write [OF w1(2) e(2) len(2)]
  have "take (1 * dirent_size) ?m @ de_to_bytes ?b @ drop (1 * dirent_size + dirent_size) ?m = root_block_bytes P"
    using sz length_de_to_bytes [OF len(1)] by (simp add: root_block_bytes_def mult_2)
  then show ?thesis using w1(3) w2(3) unfolding root_entries_def by metis
qed

lemma zero_none: "find (name_hit P name) (block_entries (replicate block_size 0)) = None"
  using zero_block_entries name_hit_live by (fastforce simp: find_None_iff)

lemma hit_dot: "name_hit P other (dot_entry P [0x2E]) \<longleftrightarrow> other = [0x2E]"
    "name_hit P other (dot_entry P [0x2E, 0x2E]) \<longleftrightarrow> other = [0x2E, 0x2E]"
  unfolding dot_entry_eq name_hit_def by (rule new_entry_facts(4), use dot_names in simp_all)+

lemma root_entries_added:
  "entries_added (block_entries (replicate block_size 0)) (dot_entry P [0x2E])
     ((block_entries (replicate block_size 0))[0 := dot_entry P [0x2E]])"
  "entries_added ((block_entries (replicate block_size 0))[0 := dot_entry P [0x2E]]) (dot_entry P [0x2E, 0x2E]) (root_entries P)"
proof -
  let ?z = "block_entries (replicate block_size 0)"
  have z: "de_inode (?z ! i) = 0" if "i < dirents_per_block" for i using zero_block_entries nth_mem that by simp
  have e: "0 < dirents_per_block" "1 < dirents_per_block" by (simp_all add: dirents_consts)
  have add: "entries_added xs entry (xs[i := entry])" if "i < length xs" "de_inode (xs ! i) = 0" for xs entry i
    unfolding entries_added_def using that by (intro exI [of _ "[]"] exI [of _ xs] exI [of _ i]) simp
  show "entries_added ?z (dot_entry P [0x2E]) (?z[0 := dot_entry P [0x2E]])" using add z e by simp
  show "entries_added (?z[0 := dot_entry P [0x2E]]) (dot_entry P [0x2E, 0x2E]) (root_entries P)"
    unfolding root_entries_def using add z e by simp
qed

lemma root_entries_facts:
  "unique_names P (root_entries P)" "\<forall>e \<in> set (root_entries P). plain_entry e"
  "find (name_hit P name) (root_entries P) =
     (if name = [0x2E] then Some (dot_entry P [0x2E]) else if name = [0x2E, 0x2E] then Some (dot_entry P [0x2E, 0x2E]) else None)"
proof -
  let ?z = "block_entries (replicate block_size 0)" let ?m = "?z[0 := dot_entry P [0x2E]]"
  note add = root_entries_added [of P]
  have plain: "plain_entry (dot_entry P [0x2E])" "plain_entry (dot_entry P [0x2E, 0x2E])"
    unfolding dot_entry_eq by (rule new_entry_facts(3), use dot_names in simp_all)+
  have "\<forall>e \<in> set ?z. plain_entry e" using zero_block_entries by (simp add: plain_entry_def)
  from entries_added_plain [OF add(2) entries_added_plain [OF add(1) this plain(1)] plain(2)]
  show "\<forall>e \<in> set (root_entries P). plain_entry e" .
  have m: "find (name_hit P n) ?m = (if n = [0x2E] then Some (dot_entry P [0x2E]) else None)" for n
    using entries_added_find [OF add(1), where q = "name_hit P n"] name_hit_live hit_dot(1) [of P n] zero_none by metis
  moreover have live: "name_hit P name e \<Longrightarrow> de_inode e \<noteq> 0" for e by (rule name_hit_live)
  ultimately show "find (name_hit P name) (root_entries P) =
      (if name = [0x2E] then Some (dot_entry P [0x2E]) else if name = [0x2E, 0x2E] then Some (dot_entry P [0x2E, 0x2E]) else None)"
    using entries_added_find [OF add(2) live] hit_dot(2) [of P name] by (cases "name = [0x2E, 0x2E]") simp_all
  have "filter (name_hit P n) ?z = []" for n using zero_none [of P n] by (auto simp: find_None_iff filter_empty_conv)
  then have "unique_names P ?z" by (simp add: unique_names_def)
  then have "unique_names P ?m" by (rule unique_added [OF _ add(1) zero_none hit_dot(1)])
  then show "unique_names P (root_entries P)" by (rule unique_added [OF _ add(2) _ hit_dot(2)]) (simp add: m)
qed

lemma root_dir_one_block: "dir_blocks (root_dir r) = 1"
  by (simp add: dir_blocks_def root_dir_def div_ceil_def dirent_size_def block_size_def)

lemma root_dir_facts: "is_directory (root_dir r)" "i_indirect (root_dir r) = 0"
  by (simp_all add: is_directory_def root_dir_def inode_directory_def with_mode_def)

context fs_on_device
begin

text \<open>After \<open>format\<close> the root is a directory with the two dot entries.\<close>

lemma format_root:
  assumes "inv d" "bc \<le> count d" "format_ok bc ic" "2 \<le> ic"
  obtains s where "fs_format P d bc ic = Some (Inr s)" "ok s" "valid_inode s 2" "dir_ok P s (inode_at P s 2)"
    "dir_entries P s (inode_at P s 2) = root_entries P" "inode_used s = (\<lambda>n. n \<le> 2)"
    "unat (sb_inode_count (fs_sb s)) = ic" "unat (sb_block_count (fs_sb s)) = bc" "fs_used s = (\<lambda>b. b \<le> format_data ic)"
    "first_data (fs_sb s) = format_data ic" "\<forall>b > format_data ic. blk P s b = blk P (s\<lparr>fs_device := d\<rparr>) b"
proof -
  let ?r = "format_data ic"
  obtain s where s: "fs_format P d bc ic = Some (Inr s)" "ok s"
    "unat (sb_block_count (fs_sb s)) = bc" "unat (sb_inode_count (fs_sb s)) = ic" "sb_root_inode (fs_sb s) = 2"
    "fs_used s = (\<lambda>b. b \<le> ?r)" "inode_at P s 2 = root_dir ?r" "blk P s ?r = root_block_bytes P"
    "\<forall>b > ?r. blk P s b = blk P (s\<lparr>fs_device := d\<rparr>) b" "sb_name_head (fs_sb s) = 0" "sb_name_tail (fs_sb s) = 0"
    "fs_inode_bitmap s = bm_set_used 2 (bm_set_used 1 (bm_set_used 0 bm_new))"
    by (rule format_run [OF assms(1-3)])
  have fd: "first_data (fs_sb s) = ?r" using s(4) by (simp add: first_data_def table_blocks_def format_data_def)
  have r: "?r < bc" "bc \<le> u32_max" "?r \<noteq> 0" using assms(3) by (simp_all add: format_ok_def format_data_def u32_max_def block_size_def)
  have ru: "unat (word_of_nat ?r :: u32) = ?r" using r by (intro word_of_nat_u32) simp
  have fb: "file_block P s (root_dir ?r) l = (if l = 0 then ?r else 0)" if "l < max_logical" for l
    using that ru by (auto simp: file_block_def root_dir_def inode_directory_def with_mode_def nth_list_update file_consts)
  have "owned s ?r" using fd r s(3,6) by (simp add: owned_def)
  then have fok: "file_ok P s (root_dir ?r)"
    using fb r(3) root_dir_direct by (auto simp: file_ok_def root_dir_def inode_directory_def with_mode_def split: if_splits)
  have ents: "dir_entries P s (root_dir ?r) = root_entries P"
    using fb [of 0] s(8) root_block_entries by (simp add: dir_entries_def root_dir_one_block file_consts)
  have "file_block P s (root_dir ?r) l \<noteq> 0 \<longleftrightarrow> l < 1" if "l < direct_count" for l
    using fb [of l] that r(3) by (simp add: max_logical_def)
  then have dir: "dir_ok P s (root_dir ?r)"
    using fok ents root_entries_facts(2)
    by (simp add: dir_ok_def root_dir_one_block root_dir_facts file_consts)
  have n: "bm_is_used bm_new = (\<lambda>_. False)" "length bm_new = block_size" by (simp add: fun_eq_iff, simp add: bm_new_def)
  have "inode_used s = (\<lambda>n. n \<le> 2)"
    unfolding inode_used_def s(12)
    by (simp add: bm_set_used_eq n block_size_def) (auto simp: fun_eq_iff)
  moreover have "valid_inode s 2" using s(4) assms(4) by (simp add: valid_inode_def word_le_nat_alt)
  ultimately show thesis using that [of s] s(1-4,6,7,9) dir ents fd by simp
qed

end

section \<open>A disk to show it on\<close>

text \<open>A new disk of 64 blocks and 32 inodes, its free blocks zero.\<close>

lemma demo_root:
  obtains d s where "md_new (\<lambda>_. True) 64 = Inr d" "fs_format (mem_platform False) d 64 32 = Some (Inr s)" "mem_ok False s"
    "valid_inode s 2" "dir_ok (mem_platform False) s (inode_at (mem_platform False) s 2)" "zero_free (mem_platform False) s"
    "dir_entries (mem_platform False) s (inode_at (mem_platform False) s 2) = root_entries (mem_platform False)"
    "inode_used s = (\<lambda>n. n \<le> 2)" "unat (sb_inode_count (fs_sb s)) = 32"
proof -
  let ?P = "mem_platform False"
  obtain d s where s: "md_new (\<lambda>_. True) 64 = Inr d" "md_inv d" "md_block_count d = 64" "fs_format ?P d 64 32 = Some (Inr s)" "mem_ok False s"
    "unat (sb_block_count (fs_sb s)) = 64" "unat (sb_inode_count (fs_sb s)) = 32" "first_data (fs_sb s) = 4"
    "fs_used s = (\<lambda>b. b \<le> 4)" "inode_at ?P s 2 = root_dir 4" "\<forall>b > 4. b < 64 \<longrightarrow> blk ?P s b = replicate block_size 0"
    "sb_name_head (fs_sb s) = 0" "sb_name_tail (fs_sb s) = 0"
    by (rule demo_format)
  have "format_ok 64 32" by (simp add: format_ok_def format_data_def inode_size_def block_size_def)
  then obtain s' where s': "fs_format ?P d 64 32 = Some (Inr s')" "valid_inode s' 2" "dir_ok ?P s' (inode_at ?P s' 2)"
    "dir_entries ?P s' (inode_at ?P s' 2) = root_entries ?P" "inode_used s' = (\<lambda>n. n \<le> 2)"
    using mem_fs.format_root [OF s(2), of 64 32 False] s(3) by (metis numeral_le_iff order_refl semiring_norm(68) semiring_norm(71))
  have "s' = s" using s(4) s'(1) by simp
  moreover have "zero_free ?P s" using s(6,8,9,11) by (simp add: zero_free_def)
  ultimately show thesis using that s(1,4,5,7) s'(2-5) by blast
qed

section \<open>The directory operations\<close>

theorem format_root_directory:
  assumes "md_inv d" "bc \<le> md_block_count d" "format_ok bc ic" "2 \<le> ic" "name \<noteq> []" "length name \<le> max_name_len"
  shows "\<exists>s. fs_format (mem_platform ifma) d bc ic = Some (Inr s) \<and> mem_ok ifma s \<and>
    dir_ok (mem_platform ifma) s (inode_at (mem_platform ifma) s 2) \<and>
    find_dirent (mem_platform ifma) 2 name s =
      Some (if name = [0x2E] \<or> name = [0x2E, 0x2E] then Inr 2 else Inl (NotFound ''directory entry''), s)"
proof -
  let ?P = "mem_platform ifma"
  obtain s where s: "fs_format ?P d bc ic = Some (Inr s)" "mem_ok ifma s" "valid_inode s 2" "dir_ok ?P s (inode_at ?P s 2)"
    "dir_entries ?P s (inode_at ?P s 2) = root_entries ?P"
    using mem_fs.format_root [OF assms(1-4)] by metis
  have "de_inode (dot_entry ?P [0x2E]) = 2" "de_inode (dot_entry ?P [0x2E, 0x2E]) = 2"
    unfolding dot_entry_eq by (rule new_entry_facts(2), use dot_names in simp_all)+
  then have "find_dirent ?P 2 name s =
      Some (if name = [0x2E] \<or> name = [0x2E, 0x2E] then Inr 2 else Inl (NotFound ''directory entry''), s)"
    using mem_fs.find_dirent_plain [OF s(2,3) refl s(4) assms(5,6)] root_entries_facts(3) [of ?P name] s(5)
    by (simp add: name_hit_def)
  with s(1,2,4) show ?thesis by blast
qed

theorem format_root_directory_witness:
  "\<exists>d s. md_new (\<lambda>_. True) 64 = Inr d \<and> fs_format (mem_platform False) d 64 32 = Some (Inr s) \<and>
     find_dirent (mem_platform False) 2 [0x2E] s = Some (Inr 2, s)"
proof -
  obtain d where d: "md_new (\<lambda>_. True) 64 = Inr d" "md_inv d" "md_block_count d = 64" by (rule demo_format)
  have "format_ok 64 32" by (simp add: format_ok_def format_data_def inode_size_def block_size_def)
  with format_root_directory [OF d(2), of 64 32 "[0x2E]" False] d(1,3) show ?thesis by (auto simp: max_name_len_def)
qed

text \<open>
  C9: In a directory whose entries all have short inline names, on a disk whose free blocks hold
  zeros, create of a short name refuses a name that is present, otherwise adds exactly that name
  with a new inode of the asked kind, keeping every other name and inode; it fails only when the
  inodes or the entries of the directory are used up.
\<close>

theorem create_correct:
  assumes "mem_ok ifma s" "valid_inode s p" "dir_ok (mem_platform ifma) s (inode_at (mem_platform ifma) s p)"
    "zero_free (mem_platform ifma) s" "inode_used s 0" "inode_used s (unat p)" "name \<noteq> []" "length name \<le> name_max"
  shows "(\<exists>n. find_dirent (mem_platform ifma) p name s = Some (Inr n, s) \<and>
       fs_create (mem_platform ifma) p name mode s = Some (Inl (AlreadyExists ''name''), s)) \<or>
    (\<exists>n t. fs_create (mem_platform ifma) p name mode s = Some (Inr n, t) \<and> mem_ok ifma t \<and>
       created (mem_platform ifma) s p name mode n t) \<or>
    (\<exists>e t. fs_create (mem_platform ifma) p name mode s = Some (Inl e, t) \<and> mem_ok ifma t \<and>
       (e = DiskFull 0 \<or> e = InvalidOperation ''no indirect block to append into'') \<and>
       ((\<forall>n < unat (sb_inode_count (fs_sb s)). inode_used s n) \<or>
        (\<forall>x \<in> set (dir_entries (mem_platform ifma) s (inode_at (mem_platform ifma) s p)). de_inode x \<noteq> 0)))"
  by (rule mem_fs.create_run [OF assms])

theorem create_correct_witness:
  "\<exists>d s n t. md_new (\<lambda>_. True) 64 = Inr d \<and> fs_format (mem_platform False) d 64 32 = Some (Inr s) \<and>
     fs_create (mem_platform False) 2 [0x61] 0 s = Some (Inr n, t) \<and>
     find_dirent (mem_platform False) 2 [0x61] t = Some (Inr n, t)"
proof -
  let ?P = "mem_platform False"
  obtain d s where s: "md_new (\<lambda>_. True) 64 = Inr d" "fs_format ?P d 64 32 = Some (Inr s)" "mem_ok False s"
    "valid_inode s 2" "dir_ok ?P s (inode_at ?P s 2)" "zero_free ?P s" "dir_entries ?P s (inode_at ?P s 2) = root_entries ?P"
    "inode_used s = (\<lambda>n. n \<le> 2)" "unat (sb_inode_count (fs_sb s)) = 32" by (rule demo_root)
  have "find (entry_hit [0x61] (name_hash ?P [0x61])) (root_entries ?P) = None"
    using root_entries_facts(3) [of ?P "[0x61]"] by (simp add: name_hit_def)
  then have no: "find_dirent ?P 2 [0x61] s = Some (Inl (NotFound ''directory entry''), s)"
    using mem_fs.find_dirent_plain [OF s(3,4) refl s(5), of "[0x61]"] s(7) by (simp add: max_name_len_def)
  have "root_entries ?P ! 2 \<in> set (root_entries ?P)" by (rule nth_mem) (simp add: root_entries_def dirents_consts)
  moreover have "de_inode (root_entries ?P ! 2) = 0"
    using zero_block_entries [of "block_entries (replicate block_size 0) ! 2"] by (simp add: root_entries_def dirents_consts)
  ultimately have free: "\<not> (\<forall>x \<in> set (dir_entries ?P s (inode_at ?P s 2)). de_inode x \<noteq> 0)" using s(7) by metis
  have "\<not> (\<forall>n < unat (sb_inode_count (fs_sb s)). inode_used s n)" using s(8,9) by (auto intro!: exI [of _ 3])
  then show ?thesis
    using create_correct [OF s(3-6), of "[0x61]" 0] s(1,2,8) no free
    by (auto simp: created_def name_max_def dirent_size_def)
qed

text \<open>
  C12: In a directory whose entries all have short inline names, no two the same, on a disk
  whose free blocks hold zeros, unlink removes exactly the name: it is no longer found, every
  other name, every inode and the bitmaps stay, and a missing name is NotFound with no change.
  Directories with names in the pool are not covered.
\<close>

theorem unlink_correct:
  assumes "mem_ok ifma s" "valid_inode s p" "dir_ok (mem_platform ifma) s (inode_at (mem_platform ifma) s p)"
    "unique_names (mem_platform ifma) (dir_entries (mem_platform ifma) s (inode_at (mem_platform ifma) s p))"
    "zero_free (mem_platform ifma) s" "name \<noteq> []" "length name \<le> max_name_len"
  shows "(find_dirent (mem_platform ifma) p name s = Some (Inl (NotFound ''directory entry''), s) \<and>
      fs_unlink (mem_platform ifma) p name s = Some (Inl (NotFound ''directory entry''), s)) \<or>
    (\<exists>n t. find_dirent (mem_platform ifma) p name s = Some (Inr n, s) \<and>
      fs_unlink (mem_platform ifma) p name s = Some (Inr (), t) \<and> mem_ok ifma t \<and> unlinked (mem_platform ifma) s p name t)"
  by (rule mem_fs.unlink_run [OF assms])

theorem unlink_correct_witness:
  "\<exists>d s t. md_new (\<lambda>_. True) 64 = Inr d \<and> fs_format (mem_platform False) d 64 32 = Some (Inr s) \<and>
     find_dirent (mem_platform False) 2 [0x2E] s = Some (Inr 2, s) \<and>
     fs_unlink (mem_platform False) 2 [0x2E] s = Some (Inr (), t) \<and>
     find_dirent (mem_platform False) 2 [0x2E] t = Some (Inl (NotFound ''directory entry''), t)"
proof -
  let ?P = "mem_platform False"
  obtain d s where s: "md_new (\<lambda>_. True) 64 = Inr d" "fs_format ?P d 64 32 = Some (Inr s)" "mem_ok False s"
    "valid_inode s 2" "dir_ok ?P s (inode_at ?P s 2)" "zero_free ?P s" "dir_entries ?P s (inode_at ?P s 2) = root_entries ?P"
    "inode_used s = (\<lambda>n. n \<le> 2)" "unat (sb_inode_count (fs_sb s)) = 32" by (rule demo_root)
  have "de_inode (dot_entry ?P [0x2E]) = 2" unfolding dot_entry_eq by (rule new_entry_facts(2)) (use dot_names in simp_all)
  then have "find_dirent ?P 2 [0x2E] s = Some (Inr 2, s)"
    using mem_fs.find_dirent_plain [OF s(3,4) refl s(5), of "[0x2E]"] root_entries_facts(3) [of ?P "[0x2E]"] s(7)
    by (simp add: name_hit_def max_name_len_def)
  with unlink_correct [OF s(3-5) _ s(6), of "[0x2E]"] s(1,2,7) root_entries_facts(1) [of ?P] show ?thesis
    by (fastforce simp: max_name_len_def unlinked_def)
qed

end
