(* ===== verification/Werc_Coder.thy ===== *)
theory Werc_Coder
  imports Bits
begin

text \<open>
  The binary arithmetic coder of the WEZC codec (\<open>crates/wredit-werc/src/coder.rs\<close>): the interval
  \<open>[x1, x2]\<close> of 32-bit words is narrowed around each bit, and a byte leaves whenever both ends agree
  in their top byte. The renormalisation loop ends because every pass makes the eight bits it shifts
  in settled: zeros below, ones above.
\<close>

unbundle bit_operations_syntax

section \<open>Encoder and decoder\<close>

definition flush_bytes :: usize where "flush_bytes = 4"

definition top_byte :: u32 where "top_byte = 0xFF000000"

definition mid :: "u32 \<Rightarrow> u32 \<Rightarrow> u32 \<Rightarrow> u32" where
  "mid x1 x2 p = x1 + drop_bit 12 (x2 - x1) * p"

definition payload_byte :: "u8 list \<Rightarrow> usize \<Rightarrow> u32" where
  "payload_byte payload i = (if i < length payload then ucast (payload ! i) else 0)"

record encoder =
  e_x1 :: u32
  e_x2 :: u32
  e_out :: "u8 list"

record decoder =
  d_x1 :: u32
  d_x2 :: u32
  d_x :: u32
  d_payload :: "u8 list"
  d_pos :: usize

definition encoder_new :: encoder where
  "encoder_new = \<lparr>e_x1 = 0, e_x2 = - 1, e_out = []\<rparr>"

text \<open>The bits of the interval ends that a shift has not settled yet.\<close>

definition unsettled :: "u32 \<Rightarrow> u32 \<Rightarrow> nat set" where
  "unsettled x1 x2 = {i. i < 32 \<and> (bit x1 i \<or> \<not> bit x2 i)}"

lemma top_byte_bits: "(x1 XOR x2) AND top_byte = 0 \<longleftrightarrow> (\<forall>i. 24 \<le> i \<longrightarrow> i < 32 \<longrightarrow> bit x1 i = bit (x2 :: u32) i)"
proof -
  have top: "top_byte = push_bit 24 (mask 8)" by (simp add: top_byte_def mask_eq_exp_minus_1 push_bit_eq_mult)
  have "bit top_byte i \<longleftrightarrow> 24 \<le> i \<and> i < 32" for i
    unfolding top bit_push_bit_iff bit_mask_iff by auto
  then show ?thesis by (auto simp: bit_eq_iff bit_and_iff bit_xor_iff)
qed

lemma unsettled_shift:
  assumes "(x1 XOR x2) AND top_byte = 0"
  shows "card (unsettled (push_bit 8 x1) (push_bit 8 x2 OR 0xFF)) + 8 \<le> card (unsettled x1 x2)"
proof -
  let ?top = "{24..<32} :: nat set"
  have ff: "(0xFF :: u32) = mask 8" by (simp add: mask_eq_exp_minus_1)
  have fin: "finite (unsettled x1 x2)" by (simp add: unsettled_def)
  have top: "?top \<subseteq> unsettled x1 x2" using assms by (auto simp: top_byte_bits unsettled_def)
  have "unsettled (push_bit 8 x1) (push_bit 8 x2 OR 0xFF) \<subseteq> (\<lambda>i. i + 8) ` (unsettled x1 x2 - ?top)"
  proof
    fix i assume "i \<in> unsettled (push_bit 8 x1) (push_bit 8 x2 OR 0xFF)"
    then have "i < 32" "8 \<le> i" "bit x1 (i - 8) \<or> \<not> bit x2 (i - 8)"
      by (auto simp: unsettled_def ff bit_or_iff bit_push_bit_iff bit_mask_iff)
    then show "i \<in> (\<lambda>i. i + 8) ` (unsettled x1 x2 - ?top)"
      by (intro image_eqI [of _ _ "i - 8"]) (auto simp: unsettled_def)
  qed
  then have "card (unsettled (push_bit 8 x1) (push_bit 8 x2 OR 0xFF)) \<le> card ((\<lambda>i. i + 8) ` (unsettled x1 x2 - ?top))"
    using fin by (intro card_mono) simp_all
  also have "\<dots> \<le> card (unsettled x1 x2 - ?top)" using fin by (intro card_image_le) simp
  also have "\<dots> = card (unsettled x1 x2) - 8" using top by (simp add: card_Diff_subset)
  finally have le: "card (unsettled (push_bit 8 x1) (push_bit 8 x2 OR 0xFF)) \<le> card (unsettled x1 x2) - 8" .
  moreover have "card ?top \<le> card (unsettled x1 x2)" using fin top by (rule card_mono)
  ultimately show ?thesis by simp
qed

lemma unsettled_less:
  "(x1 XOR x2) AND top_byte = 0 \<Longrightarrow>
   card (unsettled (push_bit 8 x1) (push_bit 8 x2 OR 0xFF)) < card (unsettled x1 x2)"
  using unsettled_shift [of x1 x2] by simp

function enc_renorm :: "encoder \<Rightarrow> encoder" where
  "enc_renorm e =
     (if (e_x1 e XOR e_x2 e) AND top_byte = 0
      then enc_renorm (e\<lparr>e_x1 := push_bit 8 (e_x1 e), e_x2 := push_bit 8 (e_x2 e) OR 0xFF,
                         e_out := e_out e @ [ucast (drop_bit 24 (e_x1 e))]\<rparr>)
      else e)"
  by pat_completeness auto
termination by (relation "measure (\<lambda>e. card (unsettled (e_x1 e) (e_x2 e)))") (auto intro: unsettled_less)

declare enc_renorm.simps [simp del]

definition encode_bit :: "u32 \<Rightarrow> bool \<Rightarrow> encoder \<Rightarrow> encoder" where
  "encode_bit p b e =
     (let split = mid (e_x1 e) (e_x2 e) p in
      enc_renorm (if b then e\<lparr>e_x2 := split\<rparr> else e\<lparr>e_x1 := split + 1\<rparr>))"

definition enc_finish :: "encoder \<Rightarrow> encoder" where
  "enc_finish e =
     foldl (\<lambda>e _. e\<lparr>e_out := e_out e @ [ucast (drop_bit 24 (e_x1 e))], e_x1 := push_bit 8 (e_x1 e)\<rparr>) e [0..<flush_bytes]"

definition decoder_new :: "u8 list \<Rightarrow> decoder" where
  "decoder_new payload =
     \<lparr>d_x1 = 0, d_x2 = - 1, d_x = foldl (\<lambda>acc i. push_bit 8 acc OR payload_byte payload i) 0 [0..<flush_bytes],
      d_payload = payload, d_pos = flush_bytes\<rparr>"

function dec_renorm :: "decoder \<Rightarrow> decoder" where
  "dec_renorm d =
     (if (d_x1 d XOR d_x2 d) AND top_byte = 0
      then dec_renorm (d\<lparr>d_x1 := push_bit 8 (d_x1 d), d_x2 := push_bit 8 (d_x2 d) OR 0xFF,
                         d_x := push_bit 8 (d_x d) OR payload_byte (d_payload d) (d_pos d), d_pos := d_pos d + 1\<rparr>)
      else d)"
  by pat_completeness auto
termination by (relation "measure (\<lambda>d. card (unsettled (d_x1 d) (d_x2 d)))") (auto intro: unsettled_less)

declare dec_renorm.simps [simp del]

definition decode_bit :: "u32 \<Rightarrow> decoder \<Rightarrow> bool \<times> decoder" where
  "decode_bit p d =
     (let split = mid (d_x1 d) (d_x2 d) p; b = (d_x d \<le> split) in
      (b, dec_renorm (if b then d\<lparr>d_x2 := split\<rparr> else d\<lparr>d_x1 := split + 1\<rparr>)))"

section \<open>Numbers\<close>

text \<open>The four bytes a decoder sees at the front of a byte string, zeros past its end.\<close>

definition byte_at :: "u8 list \<Rightarrow> nat \<Rightarrow> nat" where
  "byte_at bs i = (if i < length bs then unat (bs ! i) else 0)"

definition window :: "u8 list \<Rightarrow> nat" where
  "window bs = ((byte_at bs 0 * 256 + byte_at bs 1) * 256 + byte_at bs 2) * 256 + byte_at bs 3"

lemma byte_at_less: "byte_at bs i < 256"
  using unsigned_less [of "bs ! i :: u8", where ?'a = nat] by (simp add: byte_at_def)

lemma byte_at_Cons [simp]: "byte_at (b # bs) 0 = unat b" "byte_at (b # bs) (Suc i) = byte_at bs i"
  by (simp_all add: byte_at_def)

lemma window_Cons: "window (b # bs) = unat b * 2 ^ 24 + window bs div 256"
proof -
  let ?y = "(byte_at bs 0 * 256 + byte_at bs 1) * 256 + byte_at bs 2"
  have "(?y * 256 + byte_at bs 3) div 256 = ?y" using byte_at_less [of bs 3] by simp
  then have "window bs div 256 = ?y" by (simp only: window_def)
  moreover have "window (b # bs) = unat b * 2 ^ 24 + ?y"
    by (simp add: window_def byte_at_def nth_Cons')
  ultimately show ?thesis by simp
qed

lemma window_less: "window bs < 2 ^ 32"
  using byte_at_less [of bs 0] byte_at_less [of bs 1] byte_at_less [of bs 2] byte_at_less [of bs 3]
  by (simp add: window_def)

lemma unat_push8: "unat (push_bit 8 w :: u32) = unat w mod 2 ^ 24 * 256"
proof -
  have "unat (push_bit 8 w :: u32) = unat w * 256 mod 2 ^ 32"
    by (simp add: push_bit_eq_mult unat_word_ariths mult.commute)
  also have "\<dots> = unat w mod 2 ^ 24 * 256" by (simp add: mult_mod_left)
  finally show ?thesis .
qed

lemma unat_push8_or:
  assumes "unat c < 256"
  shows "unat (push_bit 8 w OR c :: u32) = unat w mod 2 ^ 24 * 256 + unat c"
proof -
  have "push_bit 8 w AND c = 0"
  proof (rule bit_word_eqI)
    fix i assume "i < LENGTH(32)"
    have "\<not> bit c i" if "8 \<le> i"
    proof -
      have "(256 :: nat) \<le> 2 ^ i" using power_increasing [OF that, of "2 :: nat"] by simp
      then have "unat c div 2 ^ i = 0" using assms by simp
      then have "\<not> bit (unat c) i" by (simp add: bit_iff_odd)
      then show ?thesis by (auto simp: bit_unsigned_iff dest: bit_imp_le_length)
    qed
    then show "bit (push_bit 8 w AND c) i = bit (0 :: u32) i" by (auto simp: bit_and_iff bit_push_bit_iff)
  qed
  then have "push_bit 8 w OR c = push_bit 8 w + c" by (simp add: disjunctive_add_eq_or)
  moreover have "unat (push_bit 8 w) + unat c < 2 ^ 32" using assms by (simp add: unat_push8) 
  ultimately show ?thesis using unat_push8 by (simp add: unat_word_ariths unat_push8)
qed

lemma unat_top: "unat (ucast (drop_bit 24 w :: u32) :: u8) = unat w div 2 ^ 24"
proof -
  have "unat (drop_bit 24 w :: u32) = unat w div 2 ^ 24" unfolding unat_drop_bit_eq by (simp add: drop_bit_eq_div)
  moreover have "unat w div 2 ^ 24 < 256" using unsigned_less [of w, where ?'a = nat] by (simp add: less_mult_imp_div_less)
  ultimately show ?thesis by (simp add: unsigned_ucast_eq take_bit_nat_eq_self)
qed

lemma top_byte_eq: "(x1 XOR x2) AND top_byte = 0 \<longleftrightarrow> unat x1 div 2 ^ 24 = unat x2 div 2 ^ 24"
proof -
  have "unat x1 div 2 ^ 24 = unat x2 div 2 ^ 24 \<longleftrightarrow> drop_bit 24 x1 = drop_bit 24 x2"
    unfolding word_unat_eq_iff [of "drop_bit 24 x1"] unat_drop_bit_eq by (simp add: drop_bit_eq_div)
  also have "\<dots> \<longleftrightarrow> (\<forall>i < 8. bit x1 (24 + i) = bit x2 (24 + i))"
  proof -
    have "\<not> bit x (24 + i)" if "8 \<le> i" for i and x :: u32 using that bit_imp_le_length [of x "24 + i"] by auto
    then show ?thesis by (auto simp: bit_eq_iff bit_drop_bit_eq) (metis not_less)+
  qed
  also have "\<dots> \<longleftrightarrow> (x1 XOR x2) AND top_byte = 0"
    unfolding top_byte_bits by (auto simp: le_iff_add)
  finally show ?thesis by simp
qed

section \<open>The interval\<close>

definition enc_ok :: "encoder \<Rightarrow> bool" where
  "enc_ok e \<longleftrightarrow> unat (e_x1 e) div 2 ^ 24 < unat (e_x2 e) div 2 ^ 24"

definition probability :: "u32 \<Rightarrow> bool" where
  "probability p \<longleftrightarrow> 1 \<le> unat p \<and> unat p \<le> 4095"

lemma encoder_new_ok: "enc_ok encoder_new"
  by (simp add: enc_ok_def encoder_new_def unsigned_minus_1_eq_mask mask_eq_exp_minus_1)

lemma enc_ok_less: "enc_ok e \<Longrightarrow> unat (e_x1 e) < unat (e_x2 e)"
  unfolding enc_ok_def by (metis div_le_mono leD leI)

text \<open>The split point lies in the interval and below its upper end.\<close>

lemma mid_between:
  assumes "unat x1 < unat x2" "probability p"
  shows "unat x1 \<le> unat (mid x1 x2 p)" "unat (mid x1 x2 p) < unat x2" "unat (mid x1 x2 p + 1) = unat (mid x1 x2 p) + 1"
proof -
  let ?r = "unat x2 - unat x1"
  have r: "unat (x2 - x1) = ?r" using assms(1) by (intro unat_sub) (simp add: word_le_nat_alt)
  have dr: "unat (drop_bit 12 (x2 - x1)) = ?r div 4096"
    unfolding unat_drop_bit_eq r by (simp add: drop_bit_eq_div)
  have "?r div 4096 * unat p \<le> ?r div 4096 * 4095" using assms(2) by (simp add: probability_def)
  moreover have "q * 4095 < r" if "0 < r" "q * 4096 \<le> r" for q r :: nat using that by (cases "q = 0") simp_all
  then have "?r div 4096 * 4095 < ?r" using assms(1) by simp
  ultimately have lt: "?r div 4096 * unat p < ?r" by (rule le_less_trans)
  have x2: "unat x2 < 2 ^ 32" using unsigned_less [of x2, where ?'a = nat] by simp
  have "unat (drop_bit 12 (x2 - x1) * p) = ?r div 4096 * unat p"
    using dr lt x2 by (simp add: unat_word_ariths)
  then have "unat (mid x1 x2 p) = unat x1 + ?r div 4096 * unat p"
    using lt x2 assms(1) by (simp add: mid_def unat_word_ariths)
  with lt x2 assms(1) show "unat x1 \<le> unat (mid x1 x2 p)" "unat (mid x1 x2 p) < unat x2"
    "unat (mid x1 x2 p + 1) = unat (mid x1 x2 p) + 1"
    by (simp_all add: unat_word_ariths)
qed

text \<open>A payload covers an encoder state when what follows the bytes already out lies in the interval.\<close>

definition covers :: "u8 list \<Rightarrow> encoder \<Rightarrow> bool" where
  "covers payload e \<longleftrightarrow> (\<exists>r. payload = e_out e @ r \<and> unat (e_x1 e) \<le> window r \<and> window r \<le> unat (e_x2 e))"

lemma covers_shift:
  assumes "(e_x1 e XOR e_x2 e) AND top_byte = 0"
    "covers payload (e\<lparr>e_x1 := push_bit 8 (e_x1 e), e_x2 := push_bit 8 (e_x2 e) OR 0xFF,
       e_out := e_out e @ [ucast (drop_bit 24 (e_x1 e))]\<rparr>)"
  shows "covers payload e"
proof -
  let ?b = "ucast (drop_bit 24 (e_x1 e)) :: u8"
  from assms(2) obtain r where r: "payload = e_out e @ ?b # r" "unat (push_bit 8 (e_x1 e)) \<le> window r"
    "window r \<le> unat (push_bit 8 (e_x2 e) OR 0xFF)" by (auto simp: covers_def)
  have lo: "unat (e_x1 e) mod 2 ^ 24 \<le> window r div 256" using r(2) unfolding unat_push8 by (metis div_le_mono nonzero_mult_div_cancel_right zero_neq_numeral)
  have "window r \<le> unat (e_x2 e) mod 2 ^ 24 * 256 + 255" using r(3) by (simp add: unat_push8_or)
  then have hi: "window r div 256 \<le> unat (e_x2 e) mod 2 ^ 24"
    using div_le_mono [of "window r" "unat (e_x2 e) mod 2 ^ 24 * 256 + 255" 256] by simp
  have w: "window (?b # r) = unat (e_x1 e) div 2 ^ 24 * 2 ^ 24 + window r div 256" by (simp add: window_Cons unat_top)
  have eq: "unat (e_x1 e) div 2 ^ 24 = unat (e_x2 e) div 2 ^ 24" using assms(1) by (simp only: top_byte_eq)
  have "unat (e_x1 e) \<le> window (?b # r)"
    using lo unfolding w by (metis add_le_cancel_left div_mult_mod_eq)
  moreover have "window (?b # r) \<le> unat (e_x2 e)"
    using hi unfolding w eq by (metis add_le_cancel_left div_mult_mod_eq)
  ultimately show ?thesis using r(1) by (auto simp: covers_def)
qed

lemma covers_renorm: "covers payload (enc_renorm e) \<Longrightarrow> covers payload e"
proof (induction e rule: enc_renorm.induct)
  case (1 e)
  then show ?case
    using covers_shift [of e payload] by (cases "(e_x1 e XOR e_x2 e) AND top_byte = 0") (simp_all add: enc_renorm.simps [of e])
qed

lemma enc_renorm_ok: "unat (e_x1 e) \<le> unat (e_x2 e) \<Longrightarrow> enc_ok (enc_renorm e)"
proof (induction e rule: enc_renorm.induct)
  case (1 e)
  let ?e = "e\<lparr>e_x1 := push_bit 8 (e_x1 e), e_x2 := push_bit 8 (e_x2 e) OR 0xFF,
    e_out := e_out e @ [ucast (drop_bit 24 (e_x1 e))]\<rparr>"
  show ?case
  proof (cases "(e_x1 e XOR e_x2 e) AND top_byte = 0")
    case True
    then have "unat (e_x1 e) div 2 ^ 24 = unat (e_x2 e) div 2 ^ 24" by (simp only: top_byte_eq)
    then have "unat (e_x1 e) mod 2 ^ 24 \<le> unat (e_x2 e) mod 2 ^ 24"
      using 1(2) by (metis add_le_cancel_left div_mult_mod_eq)
    then have "unat (e_x1 ?e) \<le> unat (e_x2 ?e)" by (simp add: unat_push8 unat_push8_or)
    with True 1(1) show ?thesis by (simp add: enc_renorm.simps [of e])
  next
    case False
    then have "unat (e_x1 e) div 2 ^ 24 \<noteq> unat (e_x2 e) div 2 ^ 24" by (simp only: top_byte_eq not_False_eq_True)
    with False 1(2) show ?thesis by (simp add: enc_renorm.simps [of e] enc_ok_def div_le_mono le_neq_implies_less)
  qed
qed

lemma encode_bit_ok:
  assumes "enc_ok e" "probability p"
  shows "enc_ok (encode_bit p b e)"
  using mid_between [OF enc_ok_less [OF assms(1)] assms(2)]
  unfolding encode_bit_def Let_def by (intro enc_renorm_ok) auto

text \<open>The payload of a later state covers the earlier one.\<close>

lemma covers_back:
  assumes "enc_ok e" "probability p" "covers payload (encode_bit p b e)"
  shows "covers payload e" "covers payload (if b then e\<lparr>e_x2 := mid (e_x1 e) (e_x2 e) p\<rparr> else e\<lparr>e_x1 := mid (e_x1 e) (e_x2 e) p + 1\<rparr>)"
proof -
  note m = mid_between [OF enc_ok_less [OF assms(1)] assms(2)]
  show c: "covers payload (if b then e\<lparr>e_x2 := mid (e_x1 e) (e_x2 e) p\<rparr> else e\<lparr>e_x1 := mid (e_x1 e) (e_x2 e) p + 1\<rparr>)"
    using assms(3) unfolding encode_bit_def Let_def by (rule covers_renorm)
  then show "covers payload e" using m unfolding covers_def by (cases b) fastforce+
qed

text \<open>The four bytes of \<open>finish\<close> are the lower end of the interval.\<close>

lemma window_top:
  assumes "window r = unat (push_bit 8 w :: u32)"
  shows "window (ucast (drop_bit 24 w) # r) = unat w"
proof -
  have "window r div 256 = unat w mod 2 ^ 24" using assms by (simp add: unat_push8)
  then show ?thesis by (simp add: window_Cons unat_top)
qed

lemma finish_covers:
  assumes "unat (e_x1 e) \<le> unat (e_x2 e)"
  shows "covers (e_out (enc_finish e)) e"
proof -
  let ?s = "push_bit 8 :: u32 \<Rightarrow> u32" and ?t = "\<lambda>w :: u32. ucast (drop_bit 24 w) :: u8" and ?x = "e_x1 e"
  have out: "e_out (enc_finish e) = e_out e @ [?t ?x, ?t (?s ?x), ?t (?s (?s ?x)), ?t (?s (?s (?s ?x)))]"
    by (simp add: enc_finish_def flush_bytes_def upt_rec numeral_eq_Suc)
  have "window [] = unat (?s (?s (?s (?s ?x))))" by (simp add: window_def byte_at_def push_bit_push_bit)
  then have "window [?t ?x, ?t (?s ?x), ?t (?s (?s ?x)), ?t (?s (?s (?s ?x)))] = unat ?x" by (intro window_top)
  with assms show ?thesis unfolding covers_def out by auto
qed

section \<open>The decoder follows the encoder\<close>

definition synced :: "u8 list \<Rightarrow> encoder \<Rightarrow> decoder \<Rightarrow> bool" where
  "synced payload e d \<longleftrightarrow> d_x1 d = e_x1 e \<and> d_x2 d = e_x2 e \<and> d_payload d = payload \<and>
     d_pos d = length (e_out e) + 4 \<and> unat (d_x d) = window (drop (length (e_out e)) payload)"

lemma window_drop: "window (drop (Suc n) bs) = window (drop n bs) mod 2 ^ 24 * 256 + byte_at bs (n + 4)"
proof -
  have at: "byte_at (drop n bs) i = byte_at bs (n + i)" for n i by (auto simp: byte_at_def less_diff_conv add.commute)
  let ?b = "\<lambda>i. byte_at bs (n + i)"
  have "((?b 0 * 256 + ?b 1) * 256 + ?b 2) * 256 + ?b 3 = ?b 0 * 2 ^ 24 + ((?b 1 * 256 + ?b 2) * 256 + ?b 3)" by simp
  moreover have "(?b 1 * 256 + ?b 2) * 256 + ?b 3 < 2 ^ 24"
    using byte_at_less [of bs "n + 1"] byte_at_less [of bs "n + 2"] byte_at_less [of bs "n + 3"] by simp
  moreover have "(a * 2 ^ 24 + v) mod 2 ^ 24 = v" if "v < 2 ^ 24" for a v :: nat using that by simp
  ultimately have "window (drop n bs) mod 2 ^ 24 = (?b 1 * 256 + ?b 2) * 256 + ?b 3" unfolding window_def at by metis
  moreover have "Suc n + 0 = n + 1" "Suc n + 1 = n + 2" "Suc n + 2 = n + 3" "Suc n + 3 = n + 4" by simp_all
  then have "window (drop (Suc n) bs) = ((?b 1 * 256 + ?b 2) * 256 + ?b 3) * 256 + ?b 4"
    unfolding window_def at by (simp only:)
  ultimately show ?thesis by (simp only:)
qed

lemma unat_payload_byte: "unat (payload_byte bs i) = byte_at bs i"
proof -
  have "unat (ucast b :: u32) = unat b" for b :: u8 by (simp add: unsigned_ucast_eq take_bit_nat_eq_self_iff less_le_trans [OF unsigned_less])
  then show ?thesis by (simp add: payload_byte_def byte_at_def)
qed

lemma synced_new: "synced payload encoder_new (decoder_new payload)"
proof -
  let ?b = "payload_byte payload"
  have c: "unat (?b i) < 256" for i using byte_at_less by (simp add: unat_payload_byte)
  have ix: "[0..<flush_bytes] = [0, 1, 2, 3]" by (simp add: flush_bytes_def upt_rec)
  have 0: "unat (push_bit 8 0 OR ?b 0) = byte_at payload 0" using unat_push8_or [OF c, of 0] by (simp add: unat_payload_byte)
  have 1: "unat (push_bit 8 (push_bit 8 0 OR ?b 0) OR ?b 1) = byte_at payload 0 * 256 + byte_at payload 1"
    unfolding unat_push8_or [OF c] 0 using byte_at_less [of payload 0] by (simp add: unat_payload_byte)
  have 2: "unat (push_bit 8 (push_bit 8 (push_bit 8 0 OR ?b 0) OR ?b 1) OR ?b 2) =
      (byte_at payload 0 * 256 + byte_at payload 1) * 256 + byte_at payload 2"
    unfolding unat_push8_or [OF c, of "push_bit 8 (push_bit 8 0 OR ?b 0) OR ?b 1"] 1
    using byte_at_less [of payload 0] byte_at_less [of payload 1] by (simp add: unat_payload_byte)
  have "unat (d_x (decoder_new payload)) = window payload"
    unfolding decoder_new_def ix foldl.simps decoder.simps
      unat_push8_or [OF c, of "push_bit 8 (push_bit 8 (push_bit 8 0 OR ?b 0) OR ?b 1) OR ?b 2"] 2
    using byte_at_less [of payload 0] byte_at_less [of payload 1] byte_at_less [of payload 2]
    by (simp add: unat_payload_byte window_def)
  then show ?thesis by (simp add: synced_def encoder_new_def decoder_new_def flush_bytes_def)
qed

lemma synced_shift:
  assumes "synced payload e d"
  shows "synced payload (e\<lparr>e_x1 := push_bit 8 (e_x1 e), e_x2 := push_bit 8 (e_x2 e) OR 0xFF, e_out := e_out e @ [b]\<rparr>)
    (d\<lparr>d_x1 := push_bit 8 (d_x1 d), d_x2 := push_bit 8 (d_x2 d) OR 0xFF,
       d_x := push_bit 8 (d_x d) OR payload_byte (d_payload d) (d_pos d), d_pos := d_pos d + 1\<rparr>)"
  using assms byte_at_less
  by (simp add: synced_def unat_push8_or unat_payload_byte window_drop)

lemma synced_renorm: "synced payload e d \<Longrightarrow> synced payload (enc_renorm e) (dec_renorm d)"
proof (induction d arbitrary: e rule: dec_renorm.induct)
  case (1 d)
  then have x: "d_x1 d = e_x1 e" "d_x2 d = e_x2 e" by (simp_all add: synced_def)
  show ?case
  proof (cases "(d_x1 d XOR d_x2 d) AND top_byte = 0")
    case True
    from 1(1) [OF True synced_shift [OF 1(2)]] show ?thesis
      using True x by (simp add: enc_renorm.simps [of e] dec_renorm.simps [of d])
  next
    case False
    with 1(2) x show ?thesis by (simp add: enc_renorm.simps [of e] dec_renorm.simps [of d])
  qed
qed

text \<open>One bit: the decoder reads the bit the encoder wrote and stays in step.\<close>

lemma decode_step:
  assumes "synced payload e d" "enc_ok e" "probability p" "covers payload (encode_bit p b e)"
  shows "fst (decode_bit p d) = b" "synced payload (encode_bit p b e) (snd (decode_bit p d))"
proof -
  let ?m = "mid (e_x1 e) (e_x2 e) p"
  have x: "d_x1 d = e_x1 e" "d_x2 d = e_x2 e" "unat (d_x d) = window (drop (length (e_out e)) payload)"
    using assms(1) by (simp_all add: synced_def)
  from covers_back(2) [OF assms(2-4)] obtain r where r: "payload = e_out e @ r"
    "if b then window r \<le> unat ?m else unat ?m < window r"
    using mid_between(3) [OF enc_ok_less [OF assms(2)] assms(3)] by (auto simp: covers_def split: if_splits)
  then have "d_x d \<le> ?m \<longleftrightarrow> b" using x(3) by (simp add: word_le_nat_alt split: if_splits)
  then show b: "fst (decode_bit p d) = b" by (simp add: decode_bit_def x Let_def)
  have "synced payload (if b then e\<lparr>e_x2 := ?m\<rparr> else e\<lparr>e_x1 := ?m + 1\<rparr>) (if b then d\<lparr>d_x2 := ?m\<rparr> else d\<lparr>d_x1 := ?m + 1\<rparr>)"
    using assms(1) by (simp add: synced_def)
  from synced_renorm [OF this] show "synced payload (encode_bit p b e) (snd (decode_bit p d))"
    using b by (simp add: encode_bit_def decode_bit_def Let_def x)
qed

section \<open>Streams of bits\<close>

text \<open>A bit costs at most four bytes.\<close>

lemma enc_renorm_length: "8 * length (e_out (enc_renorm e)) \<le> 8 * length (e_out e) + card (unsettled (e_x1 e) (e_x2 e))"
proof (induction e rule: enc_renorm.induct)
  case (1 e)
  show ?case
  proof (cases "(e_x1 e XOR e_x2 e) AND top_byte = 0")
    case True
    with 1 unsettled_shift [OF True] show ?thesis by (simp add: enc_renorm.simps [of e])
  next
    case False
    then show ?thesis by (simp add: enc_renorm.simps [of e])
  qed
qed

lemma encode_bit_length: "length (e_out (encode_bit p b e)) \<le> length (e_out e) + 4"
proof -
  define e' where "e' = (if b then e\<lparr>e_x2 := mid (e_x1 e) (e_x2 e) p\<rparr> else e\<lparr>e_x1 := mid (e_x1 e) (e_x2 e) p + 1\<rparr>)"
  have "card (unsettled (e_x1 e') (e_x2 e')) \<le> card {..<32 :: nat}" by (rule card_mono) (auto simp: unsettled_def)
  moreover have "e_out e' = e_out e" by (simp add: e'_def)
  ultimately have "8 * length (e_out (enc_renorm e')) \<le> 8 * length (e_out e) + 32"
    using enc_renorm_length [of e'] by simp
  then have "length (e_out (enc_renorm e')) \<le> length (e_out e) + 4" by linarith
  then show ?thesis by (simp add: encode_bit_def Let_def e'_def)
qed

lemma enc_finish_length: "length (e_out (enc_finish e)) = length (e_out e) + 4"
proof -
  have "[0..<flush_bytes] = [0, 1, 2, 3]" by (simp add: flush_bytes_def upt_rec)
  then show ?thesis by (simp add: enc_finish_def)
qed

fun encode_bits :: "(u32 \<times> bool) list \<Rightarrow> encoder \<Rightarrow> encoder" where
  "encode_bits [] e = e"
| "encode_bits ((p, b) # pbs) e = encode_bits pbs (encode_bit p b e)"

fun decode_bits :: "u32 list \<Rightarrow> decoder \<Rightarrow> bool list" where
  "decode_bits [] d = []"
| "decode_bits (p # ps) d = fst (decode_bit p d) # decode_bits ps (snd (decode_bit p d))"

lemma encode_bits_ok:
  "enc_ok e \<Longrightarrow> \<forall>(p, b) \<in> set pbs. probability p \<Longrightarrow>
   enc_ok (encode_bits pbs e) \<and> (covers payload (encode_bits pbs e) \<longrightarrow> covers payload e)"
proof (induction pbs arbitrary: e)
  case (Cons pb pbs)
  obtain p b where pb: "pb = (p, b)" by (cases pb)
  then have p: "probability p" using Cons.prems(2) by auto
  from Cons.IH [OF encode_bit_ok [OF Cons.prems(1) p]] Cons.prems(2) covers_back(1) [OF Cons.prems(1) p] show ?case
    unfolding pb by auto
qed simp

lemma decode_bits_eq:
  "synced payload e d \<Longrightarrow> enc_ok e \<Longrightarrow> \<forall>(p, b) \<in> set pbs. probability p \<Longrightarrow> covers payload (encode_bits pbs e) \<Longrightarrow>
   decode_bits (map fst pbs) d = map snd pbs"
proof (induction pbs arbitrary: e d)
  case (Cons pb pbs)
  obtain p b where pb: "pb = (p, b)" by (cases pb)
  then have p: "probability p" "\<forall>(p, b) \<in> set pbs. probability p" using Cons.prems(3) by auto
  have ok: "enc_ok (encode_bit p b e)" using encode_bit_ok [OF Cons.prems(2) p(1)] .
  have last: "covers payload (encode_bits pbs (encode_bit p b e))" using Cons.prems(4) pb by simp
  have "covers payload (encode_bit p b e)" using encode_bits_ok [OF ok p(2)] last by blast
  note step = decode_step [OF Cons.prems(1,2) p(1) this]
  from Cons.IH [OF step(2) ok p(2) last] step(1) show ?case unfolding pb by simp
qed simp

text \<open>
  C14: The arithmetic decoder, given the probabilities the encoder used, reads back every bit,
  for every sequence of bits and probabilities between 1 and 4095 of 4096.
\<close>

theorem coder_roundtrip:
  assumes "\<forall>(p, b) \<in> set pbs. probability p"
  shows "decode_bits (map fst pbs) (decoder_new (e_out (enc_finish (encode_bits pbs encoder_new)))) = map snd pbs"
proof -
  let ?e = "encode_bits pbs encoder_new"
  have "enc_ok ?e" using encode_bits_ok [OF encoder_new_ok assms] by blast
  then have "covers (e_out (enc_finish ?e)) ?e" by (intro finish_covers) (simp add: enc_ok_less less_imp_le)
  from decode_bits_eq [OF synced_new encoder_new_ok assms this] show ?thesis .
qed

theorem coder_roundtrip_witness:
  "decode_bits [2048, 1, 4095] (decoder_new (e_out (enc_finish (encode_bits [(2048, True), (1, True), (4095, False)] encoder_new)))) =
     [True, True, False]"
  using coder_roundtrip [of "[(2048, True), (1, True), (4095, False)]"] by (simp add: probability_def)

end
