(* ===== verification/Werc_Tables.thy ===== *)
theory Werc_Tables
  imports Bits
begin

text \<open>
  The tables of the WEZC model (\<open>crates/wredit-werc/src\<close>: \<open>tables.rs\<close>, \<open>tables_data.rs\<close>): squash and
  stretch between logits and 12-bit probabilities, the transitions of a bit history, the rate of a
  state map and its first probabilities. An \<open>i32\<close> and an \<open>i64\<close> are words, read signed.
\<close>

unbundle bit_operations_syntax

type_synonym i32 = "32 word"
type_synonym i64 = "64 word"

section \<open>Squash and stretch\<close>

text \<open>The rows of \<open>SQ\<close> and \<open>ST\<close> as the source lists them.\<close>

definition sq_low :: "int list list" where
  "sq_low = [
    [1, 1, 1, 1, 1, 1, 1, 1, 1, 1, 1, 1, 1, 1, 1, 1],
    [1, 1, 1, 1, 1, 1, 1, 1, 1, 1, 1, 1, 1, 1, 1, 1],
    [1, 1, 1, 1, 1, 1, 1, 1, 1, 1, 1, 1, 1, 1, 1, 1],
    [1, 1, 1, 1, 1, 1, 1, 1, 1, 1, 1, 1, 1, 1, 1, 1],
    [1, 1, 1, 1, 1, 1, 1, 1, 1, 1, 1, 1, 1, 1, 1, 1],
    [1, 1, 1, 1, 1, 1, 1, 1, 1, 1, 1, 1, 1, 1, 1, 1],
    [1, 1, 1, 1, 1, 1, 1, 1, 1, 1, 1, 1, 1, 1, 1, 1],
    [1, 1, 1, 1, 1, 1, 1, 1, 1, 1, 1, 1, 1, 1, 1, 1],
    [1, 1, 1, 1, 1, 1, 1, 1, 1, 1, 1, 1, 1, 1, 1, 1],
    [1, 1, 1, 1, 1, 1, 1, 1, 1, 1, 1, 1, 1, 1, 1, 1],
    [1, 1, 1, 1, 1, 1, 1, 1, 1, 1, 1, 1, 1, 1, 1, 1],
    [1, 1, 1, 1, 1, 1, 1, 1, 1, 1, 1, 1, 1, 1, 1, 1],
    [1, 1, 1, 1, 1, 1, 1, 1, 1, 1, 1, 1, 1, 1, 1, 1],
    [1, 1, 1, 1, 1, 1, 1, 1, 1, 1, 1, 1, 1, 1, 1, 1],
    [1, 1, 1, 1, 1, 1, 1, 1, 1, 1, 1, 1, 1, 1, 1, 1],
    [1, 1, 1, 1, 1, 1, 1, 1, 1, 1, 1, 1, 1, 1, 1, 1],
    [1, 1, 1, 1, 1, 1, 1, 1, 1, 1, 1, 1, 1, 1, 1, 1],
    [1, 1, 1, 1, 1, 1, 1, 1, 1, 1, 1, 1, 1, 1, 1, 1],
    [1, 1, 1, 1, 1, 1, 1, 1, 1, 1, 1, 1, 1, 1, 1, 1],
    [1, 1, 1, 1, 1, 1, 1, 1, 1, 1, 1, 1, 1, 1, 1, 1],
    [1, 1, 1, 1, 1, 1, 1, 1, 1, 1, 1, 1, 1, 1, 1, 1],
    [1, 1, 1, 1, 1, 1, 1, 1, 1, 1, 1, 1, 1, 1, 1, 1],
    [1, 1, 1, 1, 1, 1, 1, 1, 1, 1, 1, 1, 1, 1, 1, 1],
    [1, 1, 1, 1, 1, 1, 1, 1, 1, 1, 1, 1, 1, 1, 1, 1],
    [1, 1, 1, 1, 1, 1, 1, 1, 1, 1, 1, 1, 1, 1, 1, 1],
    [1, 1, 1, 1, 1, 1, 1, 1, 1, 1, 1, 1, 1, 1, 1, 1],
    [1, 1, 1, 1, 1, 1, 1, 1, 1, 1, 1, 1, 1, 1, 1, 1],
    [1, 1, 1, 1, 1, 1, 1, 1, 1, 1, 1, 1, 1, 1, 1, 1],
    [1, 1, 1, 1, 1, 1, 1, 1, 1, 1, 1, 1, 1, 1, 1, 1],
    [1, 1, 1, 1, 1, 1, 1, 1, 1, 1, 1, 1, 1, 1, 1, 1],
    [1, 1, 1, 1, 1, 1, 1, 1, 1, 1, 1, 1, 1, 1, 1, 1],
    [1, 1, 1, 1, 1, 1, 1, 1, 1, 1, 1, 1, 1, 1, 1, 1],
    [1, 1, 1, 1, 1, 1, 1, 1, 1, 1, 1, 1, 1, 1, 1, 1],
    [1, 1, 1, 1, 1, 1, 1, 1, 1, 1, 1, 1, 1, 1, 1, 1],
    [1, 1, 1, 1, 1, 1, 1, 1, 1, 1, 1, 1, 1, 1, 1, 1],
    [1, 1, 1, 1, 1, 1, 1, 1, 1, 1, 1, 1, 1, 1, 1, 1],
    [1, 1, 1, 1, 1, 1, 1, 1, 1, 1, 1, 1, 1, 1, 1, 1],
    [1, 1, 1, 1, 1, 1, 1, 1, 1, 1, 1, 1, 1, 1, 1, 1],
    [1, 1, 1, 1, 1, 1, 1, 1, 1, 1, 1, 1, 1, 1, 1, 1],
    [1, 1, 1, 1, 1, 1, 1, 1, 1, 1, 1, 1, 1, 1, 1, 1],
    [1, 1, 1, 1, 1, 1, 1, 1, 1, 1, 1, 1, 1, 1, 1, 1],
    [1, 1, 1, 1, 1, 1, 1, 1, 1, 1, 1, 1, 1, 1, 1, 1],
    [1, 1, 1, 1, 1, 1, 1, 1, 1, 1, 1, 1, 1, 1, 1, 1],
    [1, 1, 1, 1, 1, 1, 1, 1, 1, 1, 1, 1, 1, 1, 1, 1],
    [1, 1, 1, 1, 1, 1, 1, 1, 1, 1, 1, 1, 1, 1, 1, 1],
    [1, 1, 1, 1, 1, 1, 1, 1, 1, 1, 1, 1, 1, 1, 1, 1],
    [1, 1, 1, 1, 1, 1, 1, 1, 1, 1, 1, 1, 1, 1, 1, 1],
    [1, 1, 1, 1, 1, 1, 1, 1, 1, 1, 1, 1, 1, 1, 1, 1],
    [1, 1, 1, 1, 1, 1, 1, 1, 1, 1, 1, 1, 1, 1, 1, 1],
    [1, 1, 1, 1, 1, 1, 1, 1, 1, 1, 1, 1, 1, 1, 1, 1],
    [1, 1, 1, 1, 1, 1, 1, 1, 1, 1, 1, 1, 1, 1, 1, 1],
    [1, 1, 1, 1, 1, 1, 1, 1, 1, 1, 1, 1, 1, 1, 1, 1],
    [1, 1, 1, 1, 1, 1, 1, 1, 1, 1, 1, 1, 1, 1, 1, 1],
    [1, 1, 1, 1, 1, 1, 1, 1, 1, 1, 1, 1, 1, 1, 1, 1],
    [1, 1, 1, 1, 1, 1, 1, 1, 1, 1, 1, 1, 1, 1, 1, 1],
    [1, 1, 1, 1, 1, 1, 1, 1, 1, 1, 1, 1, 1, 1, 1, 1],
    [1, 1, 1, 1, 1, 1, 1, 1, 1, 1, 1, 1, 1, 1, 1, 1],
    [1, 1, 1, 1, 1, 1, 1, 1, 1, 1, 1, 1, 1, 1, 1, 1],
    [1, 1, 1, 1, 1, 1, 1, 1, 1, 1, 1, 1, 1, 1, 1, 1],
    [1, 1, 1, 1, 1, 1, 1, 1, 1, 1, 1, 1, 1, 1, 1, 1],
    [1, 1, 1, 1, 1, 1, 1, 1, 1, 1, 1, 1, 1, 1, 1, 1],
    [1, 1, 1, 1, 1, 1, 1, 1, 1, 1, 1, 1, 1, 1, 1, 1],
    [1, 1, 1, 1, 1, 1, 1, 1, 1, 1, 1, 1, 1, 1, 1, 1],
    [1, 1, 1, 1, 1, 1, 1, 1, 1, 1, 1, 1, 1, 1, 1, 1],
    [1, 1, 1, 1, 1, 1, 1, 1, 1, 1, 1, 2, 2, 2, 2, 2],
    [2, 2, 2, 2, 2, 2, 2, 2, 2, 2, 2, 2, 2, 2, 2, 2],
    [2, 2, 2, 2, 2, 2, 2, 2, 2, 2, 2, 2, 2, 2, 2, 2],
    [2, 2, 2, 2, 2, 2, 2, 2, 2, 2, 2, 2, 2, 2, 2, 2],
    [2, 2, 2, 2, 2, 2, 2, 2, 2, 2, 2, 2, 3, 3, 3, 3],
    [3, 3, 3, 3, 3, 3, 3, 3, 3, 3, 3, 3, 3, 3, 3, 3],
    [3, 3, 3, 3, 3, 3, 3, 3, 3, 3, 3, 3, 3, 3, 3, 3],
    [3, 3, 3, 3, 3, 3, 3, 4, 4, 4, 4, 4, 4, 4, 4, 4],
    [4, 4, 4, 4, 4, 4, 4, 4, 4, 4, 4, 4, 4, 4, 4, 4],
    [4, 4, 4, 4, 4, 4, 4, 5, 5, 5, 5, 5, 5, 5, 5, 5],
    [5, 5, 5, 5, 5, 5, 5, 5, 5, 5, 5, 5, 5, 5, 5, 5],
    [5, 6, 6, 6, 6, 6, 6, 6, 6, 6, 6, 6, 6, 6, 6, 6],
    [6, 6, 6, 6, 6, 6, 6, 7, 7, 7, 7, 7, 7, 7, 7, 7],
    [7, 7, 7, 7, 7, 7, 7, 7, 7, 8, 8, 8, 8, 8, 8, 8],
    [8, 8, 8, 8, 8, 8, 8, 8, 8, 9, 9, 9, 9, 9, 9, 9],
    [9, 9, 9, 9, 9, 9, 9, 10, 10, 10, 10, 10, 10, 10, 10, 10],
    [10, 10, 10, 10, 11, 11, 11, 11, 11, 11, 11, 11, 11, 11, 11, 11],
    [12, 12, 12, 12, 12, 12, 12, 12, 12, 12, 12, 13, 13, 13, 13, 13],
    [13, 13, 13, 13, 14, 14, 14, 14, 14, 14, 14, 14, 14, 14, 15, 15],
    [15, 15, 15, 15, 15, 15, 16, 16, 16, 16, 16, 16, 16, 16, 17, 17],
    [17, 17, 17, 17, 17, 17, 18, 18, 18, 18, 18, 18, 18, 19, 19, 19],
    [19, 19, 19, 19, 20, 20, 20, 20, 20, 20, 21, 21, 21, 21, 21, 21],
    [22, 22, 22, 22, 22, 22, 23, 23, 23, 23, 23, 23, 24, 24, 24, 24],
    [24, 25, 25, 25, 25, 25, 26, 26, 26, 26, 26, 27, 27, 27, 27, 27],
    [28, 28, 28, 28, 28, 29, 29, 29, 29, 30, 30, 30, 30, 31, 31, 31],
    [31, 32, 32, 32, 32, 33, 33, 33, 33, 34, 34, 34, 34, 35, 35, 35],
    [35, 36, 36, 36, 37, 37, 37, 37, 38, 38, 38, 39, 39, 39, 39, 40],
    [40, 40, 41, 41, 41, 42, 42, 42, 43, 43, 43, 44, 44, 44, 45, 45],
    [45, 46, 46, 46, 47, 47, 48, 48, 48, 49, 49, 49, 50, 50, 51, 51],
    [51, 52, 52, 53, 53, 53, 54, 54, 55, 55, 55, 56, 56, 57, 57, 58],
    [58, 58, 59, 59, 60, 60, 61, 61, 62, 62, 63, 63, 64, 64, 65, 65],
    [66, 66, 67, 67, 68, 68, 69, 69, 70, 70, 71, 71, 72, 73, 73, 74],
    [74, 75, 75, 76, 77, 77, 78, 78, 79, 80, 80, 81, 81, 82, 83, 83],
    [84, 85, 85, 86, 87, 87, 88, 89, 89, 90, 91, 91, 92, 93, 93, 94],
    [95, 96, 96, 97, 98, 99, 99, 100, 101, 102, 102, 103, 104, 105, 106, 106],
    [107, 108, 109, 110, 110, 111, 112, 113, 114, 115, 116, 116, 117, 118, 119, 120],
    [121, 122, 123, 124, 125, 126, 127, 128, 129, 130, 130, 131, 132, 133, 135, 136],
    [137, 138, 139, 140, 141, 142, 143, 144, 145, 146, 147, 148, 149, 151, 152, 153],
    [154, 155, 156, 158, 159, 160, 161, 162, 164, 165, 166, 167, 169, 170, 171, 172],
    [174, 175, 176, 178, 179, 180, 182, 183, 184, 186, 187, 189, 190, 191, 193, 194],
    [196, 197, 199, 200, 202, 203, 205, 206, 208, 209, 211, 212, 214, 216, 217, 219],
    [220, 222, 224, 225, 227, 229, 230, 232, 234, 235, 237, 239, 241, 243, 244, 246],
    [248, 250, 252, 253, 255, 257, 259, 261, 263, 265, 267, 269, 271, 273, 275, 277],
    [279, 281, 283, 285, 287, 289, 291, 293, 295, 298, 300, 302, 304, 306, 308, 311],
    [313, 315, 318, 320, 322, 324, 327, 329, 332, 334, 336, 339, 341, 344, 346, 349],
    [351, 354, 356, 359, 361, 364, 366, 369, 372, 374, 377, 380, 382, 385, 388, 391],
    [393, 396, 399, 402, 405, 407, 410, 413, 416, 419, 422, 425, 428, 431, 434, 437],
    [440, 443, 446, 449, 452, 456, 459, 462, 465, 468, 472, 475, 478, 482, 485, 488],
    [492, 495, 498, 502, 505, 509, 512, 516, 519, 523, 526, 530, 534, 537, 541, 545],
    [548, 552, 556, 560, 563, 567, 571, 575, 579, 583, 586, 590, 594, 598, 602, 606],
    [610, 615, 619, 623, 627, 631, 635, 639, 644, 648, 652, 656, 661, 665, 669, 674],
    [678, 683, 687, 692, 696, 701, 705, 710, 714, 719, 724, 728, 733, 738, 742, 747],
    [752, 757, 762, 766, 771, 776, 781, 786, 791, 796, 801, 806, 811, 816, 821, 827],
    [832, 837, 842, 847, 853, 858, 863, 869, 874, 879, 885, 890, 896, 901, 907, 912],
    [918, 923, 929, 935, 940, 946, 952, 957, 963, 969, 975, 980, 986, 992, 998, 1004],
    [1010, 1016, 1022, 1028, 1034, 1040, 1046, 1052, 1058, 1064, 1070, 1077, 1083, 1089, 1095, 1102],
    [1108, 1114, 1121, 1127, 1133, 1140, 1146, 1153, 1159, 1166, 1172, 1179, 1185, 1192, 1198, 1205],
    [1212, 1218, 1225, 1232, 1239, 1245, 1252, 1259, 1266, 1273, 1279, 1286, 1293, 1300, 1307, 1314],
    [1321, 1328, 1335, 1342, 1349, 1356, 1363, 1370, 1378, 1385, 1392, 1399, 1406, 1414, 1421, 1428],
    [1435, 1443, 1450, 1457, 1465, 1472, 1479, 1487, 1494, 1502, 1509, 1516, 1524, 1531, 1539, 1546],
    [1554, 1561, 1569, 1577, 1584, 1592, 1599, 1607, 1615, 1622, 1630, 1638, 1645, 1653, 1661, 1668],
    [1676, 1684, 1692, 1699, 1707, 1715, 1723, 1731, 1738, 1746, 1754, 1762, 1770, 1778, 1785, 1793],
    [1801, 1809, 1817, 1825, 1833, 1841, 1849, 1857, 1864, 1872, 1880, 1888, 1896, 1904, 1912, 1920],
    [1928, 1936, 1944, 1952, 1960, 1968, 1976, 1984, 1992, 2000, 2008, 2016, 2024, 2032, 2040, 2048]]"

definition sq_high :: "int list list" where
  "sq_high = [
    [2056, 2064, 2072, 2080, 2088, 2096, 2104, 2112, 2120, 2128, 2136, 2144, 2152, 2160, 2168, 2176],
    [2184, 2192, 2200, 2208, 2216, 2224, 2232, 2239, 2247, 2255, 2263, 2271, 2279, 2287, 2295, 2303],
    [2311, 2318, 2326, 2334, 2342, 2350, 2358, 2365, 2373, 2381, 2389, 2397, 2404, 2412, 2420, 2428],
    [2435, 2443, 2451, 2458, 2466, 2474, 2481, 2489, 2497, 2504, 2512, 2519, 2527, 2535, 2542, 2550],
    [2557, 2565, 2572, 2580, 2587, 2594, 2602, 2609, 2617, 2624, 2631, 2639, 2646, 2653, 2661, 2668],
    [2675, 2682, 2690, 2697, 2704, 2711, 2718, 2726, 2733, 2740, 2747, 2754, 2761, 2768, 2775, 2782],
    [2789, 2796, 2803, 2810, 2817, 2823, 2830, 2837, 2844, 2851, 2857, 2864, 2871, 2878, 2884, 2891],
    [2898, 2904, 2911, 2917, 2924, 2930, 2937, 2943, 2950, 2956, 2963, 2969, 2975, 2982, 2988, 2994],
    [3001, 3007, 3013, 3019, 3026, 3032, 3038, 3044, 3050, 3056, 3062, 3068, 3074, 3080, 3086, 3092],
    [3098, 3104, 3110, 3116, 3121, 3127, 3133, 3139, 3144, 3150, 3156, 3161, 3167, 3173, 3178, 3184],
    [3189, 3195, 3200, 3206, 3211, 3217, 3222, 3227, 3233, 3238, 3243, 3249, 3254, 3259, 3264, 3269],
    [3275, 3280, 3285, 3290, 3295, 3300, 3305, 3310, 3315, 3320, 3325, 3330, 3334, 3339, 3344, 3349],
    [3354, 3358, 3363, 3368, 3372, 3377, 3382, 3386, 3391, 3395, 3400, 3404, 3409, 3413, 3418, 3422],
    [3427, 3431, 3435, 3440, 3444, 3448, 3452, 3457, 3461, 3465, 3469, 3473, 3477, 3481, 3486, 3490],
    [3494, 3498, 3502, 3506, 3510, 3513, 3517, 3521, 3525, 3529, 3533, 3536, 3540, 3544, 3548, 3551],
    [3555, 3559, 3562, 3566, 3570, 3573, 3577, 3580, 3584, 3587, 3591, 3594, 3598, 3601, 3604, 3608],
    [3611, 3614, 3618, 3621, 3624, 3628, 3631, 3634, 3637, 3640, 3644, 3647, 3650, 3653, 3656, 3659],
    [3662, 3665, 3668, 3671, 3674, 3677, 3680, 3683, 3686, 3689, 3691, 3694, 3697, 3700, 3703, 3705],
    [3708, 3711, 3714, 3716, 3719, 3722, 3724, 3727, 3730, 3732, 3735, 3737, 3740, 3742, 3745, 3747],
    [3750, 3752, 3755, 3757, 3760, 3762, 3764, 3767, 3769, 3772, 3774, 3776, 3778, 3781, 3783, 3785],
    [3788, 3790, 3792, 3794, 3796, 3798, 3801, 3803, 3805, 3807, 3809, 3811, 3813, 3815, 3817, 3819],
    [3821, 3823, 3825, 3827, 3829, 3831, 3833, 3835, 3837, 3839, 3841, 3843, 3844, 3846, 3848, 3850],
    [3852, 3853, 3855, 3857, 3859, 3861, 3862, 3864, 3866, 3867, 3869, 3871, 3872, 3874, 3876, 3877],
    [3879, 3880, 3882, 3884, 3885, 3887, 3888, 3890, 3891, 3893, 3894, 3896, 3897, 3899, 3900, 3902],
    [3903, 3905, 3906, 3907, 3909, 3910, 3912, 3913, 3914, 3916, 3917, 3918, 3920, 3921, 3922, 3924],
    [3925, 3926, 3927, 3929, 3930, 3931, 3932, 3934, 3935, 3936, 3937, 3938, 3940, 3941, 3942, 3943],
    [3944, 3945, 3947, 3948, 3949, 3950, 3951, 3952, 3953, 3954, 3955, 3956, 3957, 3958, 3959, 3960],
    [3961, 3963, 3964, 3965, 3966, 3966, 3967, 3968, 3969, 3970, 3971, 3972, 3973, 3974, 3975, 3976],
    [3977, 3978, 3979, 3980, 3980, 3981, 3982, 3983, 3984, 3985, 3986, 3986, 3987, 3988, 3989, 3990],
    [3990, 3991, 3992, 3993, 3994, 3994, 3995, 3996, 3997, 3997, 3998, 3999, 4000, 4000, 4001, 4002],
    [4003, 4003, 4004, 4005, 4005, 4006, 4007, 4007, 4008, 4009, 4009, 4010, 4011, 4011, 4012, 4013],
    [4013, 4014, 4015, 4015, 4016, 4016, 4017, 4018, 4018, 4019, 4019, 4020, 4021, 4021, 4022, 4022],
    [4023, 4023, 4024, 4025, 4025, 4026, 4026, 4027, 4027, 4028, 4028, 4029, 4029, 4030, 4030, 4031],
    [4031, 4032, 4032, 4033, 4033, 4034, 4034, 4035, 4035, 4036, 4036, 4037, 4037, 4038, 4038, 4038],
    [4039, 4039, 4040, 4040, 4041, 4041, 4041, 4042, 4042, 4043, 4043, 4043, 4044, 4044, 4045, 4045],
    [4045, 4046, 4046, 4047, 4047, 4047, 4048, 4048, 4048, 4049, 4049, 4050, 4050, 4050, 4051, 4051],
    [4051, 4052, 4052, 4052, 4053, 4053, 4053, 4054, 4054, 4054, 4055, 4055, 4055, 4056, 4056, 4056],
    [4057, 4057, 4057, 4057, 4058, 4058, 4058, 4059, 4059, 4059, 4059, 4060, 4060, 4060, 4061, 4061],
    [4061, 4061, 4062, 4062, 4062, 4062, 4063, 4063, 4063, 4063, 4064, 4064, 4064, 4064, 4065, 4065],
    [4065, 4065, 4066, 4066, 4066, 4066, 4067, 4067, 4067, 4067, 4068, 4068, 4068, 4068, 4068, 4069],
    [4069, 4069, 4069, 4069, 4070, 4070, 4070, 4070, 4070, 4071, 4071, 4071, 4071, 4071, 4072, 4072],
    [4072, 4072, 4072, 4073, 4073, 4073, 4073, 4073, 4073, 4074, 4074, 4074, 4074, 4074, 4074, 4075],
    [4075, 4075, 4075, 4075, 4075, 4076, 4076, 4076, 4076, 4076, 4076, 4077, 4077, 4077, 4077, 4077],
    [4077, 4077, 4078, 4078, 4078, 4078, 4078, 4078, 4078, 4079, 4079, 4079, 4079, 4079, 4079, 4079],
    [4079, 4080, 4080, 4080, 4080, 4080, 4080, 4080, 4080, 4081, 4081, 4081, 4081, 4081, 4081, 4081],
    [4081, 4082, 4082, 4082, 4082, 4082, 4082, 4082, 4082, 4082, 4082, 4083, 4083, 4083, 4083, 4083],
    [4083, 4083, 4083, 4083, 4084, 4084, 4084, 4084, 4084, 4084, 4084, 4084, 4084, 4084, 4084, 4085],
    [4085, 4085, 4085, 4085, 4085, 4085, 4085, 4085, 4085, 4085, 4085, 4086, 4086, 4086, 4086, 4086],
    [4086, 4086, 4086, 4086, 4086, 4086, 4086, 4086, 4087, 4087, 4087, 4087, 4087, 4087, 4087, 4087],
    [4087, 4087, 4087, 4087, 4087, 4087, 4088, 4088, 4088, 4088, 4088, 4088, 4088, 4088, 4088, 4088],
    [4088, 4088, 4088, 4088, 4088, 4088, 4089, 4089, 4089, 4089, 4089, 4089, 4089, 4089, 4089, 4089],
    [4089, 4089, 4089, 4089, 4089, 4089, 4089, 4089, 4090, 4090, 4090, 4090, 4090, 4090, 4090, 4090],
    [4090, 4090, 4090, 4090, 4090, 4090, 4090, 4090, 4090, 4090, 4090, 4090, 4090, 4090, 4091, 4091],
    [4091, 4091, 4091, 4091, 4091, 4091, 4091, 4091, 4091, 4091, 4091, 4091, 4091, 4091, 4091, 4091],
    [4091, 4091, 4091, 4091, 4091, 4091, 4091, 4091, 4092, 4092, 4092, 4092, 4092, 4092, 4092, 4092],
    [4092, 4092, 4092, 4092, 4092, 4092, 4092, 4092, 4092, 4092, 4092, 4092, 4092, 4092, 4092, 4092],
    [4092, 4092, 4092, 4092, 4092, 4092, 4092, 4092, 4093, 4093, 4093, 4093, 4093, 4093, 4093, 4093],
    [4093, 4093, 4093, 4093, 4093, 4093, 4093, 4093, 4093, 4093, 4093, 4093, 4093, 4093, 4093, 4093],
    [4093, 4093, 4093, 4093, 4093, 4093, 4093, 4093, 4093, 4093, 4093, 4093, 4093, 4093, 4093, 4093],
    [4093, 4093, 4093, 4094, 4094, 4094, 4094, 4094, 4094, 4094, 4094, 4094, 4094, 4094, 4094, 4094],
    [4094, 4094, 4094, 4094, 4094, 4094, 4094, 4094, 4094, 4094, 4094, 4094, 4094, 4094, 4094, 4094],
    [4094, 4094, 4094, 4094, 4094, 4094, 4094, 4094, 4094, 4094, 4094, 4094, 4094, 4094, 4094, 4094],
    [4094, 4094, 4094, 4094, 4094, 4094, 4094, 4094, 4094, 4094, 4094, 4094, 4094, 4094, 4094, 4094],
    [4094, 4094, 4094, 4094, 4095, 4095, 4095, 4095, 4095, 4095, 4095, 4095, 4095, 4095, 4095, 4095],
    [4095, 4095, 4095, 4095, 4095, 4095, 4095, 4095, 4095, 4095, 4095, 4095, 4095, 4095, 4095, 4095],
    [4095, 4095, 4095, 4095, 4095, 4095, 4095, 4095, 4095, 4095, 4095, 4095, 4095, 4095, 4095, 4095],
    [4095, 4095, 4095, 4095, 4095, 4095, 4095, 4095, 4095, 4095, 4095, 4095, 4095, 4095, 4095, 4095],
    [4095, 4095, 4095, 4095, 4095, 4095, 4095, 4095, 4095, 4095, 4095, 4095, 4095, 4095, 4095, 4095],
    [4095, 4095, 4095, 4095, 4095, 4095, 4095, 4095, 4095, 4095, 4095, 4095, 4095, 4095, 4095, 4095],
    [4095, 4095, 4095, 4095, 4095, 4095, 4095, 4095, 4095, 4095, 4095, 4095, 4095, 4095, 4095, 4095],
    [4095, 4095, 4095, 4095, 4095, 4095, 4095, 4095, 4095, 4095, 4095, 4095, 4095, 4095, 4095, 4095],
    [4095, 4095, 4095, 4095, 4095, 4095, 4095, 4095, 4095, 4095, 4095, 4095, 4095, 4095, 4095, 4095],
    [4095, 4095, 4095, 4095, 4095, 4095, 4095, 4095, 4095, 4095, 4095, 4095, 4095, 4095, 4095, 4095],
    [4095, 4095, 4095, 4095, 4095, 4095, 4095, 4095, 4095, 4095, 4095, 4095, 4095, 4095, 4095, 4095],
    [4095, 4095, 4095, 4095, 4095, 4095, 4095, 4095, 4095, 4095, 4095, 4095, 4095, 4095, 4095, 4095],
    [4095, 4095, 4095, 4095, 4095, 4095, 4095, 4095, 4095, 4095, 4095, 4095, 4095, 4095, 4095, 4095],
    [4095, 4095, 4095, 4095, 4095, 4095, 4095, 4095, 4095, 4095, 4095, 4095, 4095, 4095, 4095, 4095],
    [4095, 4095, 4095, 4095, 4095, 4095, 4095, 4095, 4095, 4095, 4095, 4095, 4095, 4095, 4095, 4095],
    [4095, 4095, 4095, 4095, 4095, 4095, 4095, 4095, 4095, 4095, 4095, 4095, 4095, 4095, 4095, 4095],
    [4095, 4095, 4095, 4095, 4095, 4095, 4095, 4095, 4095, 4095, 4095, 4095, 4095, 4095, 4095, 4095],
    [4095, 4095, 4095, 4095, 4095, 4095, 4095, 4095, 4095, 4095, 4095, 4095, 4095, 4095, 4095, 4095],
    [4095, 4095, 4095, 4095, 4095, 4095, 4095, 4095, 4095, 4095, 4095, 4095, 4095, 4095, 4095, 4095],
    [4095, 4095, 4095, 4095, 4095, 4095, 4095, 4095, 4095, 4095, 4095, 4095, 4095, 4095, 4095, 4095],
    [4095, 4095, 4095, 4095, 4095, 4095, 4095, 4095, 4095, 4095, 4095, 4095, 4095, 4095, 4095, 4095],
    [4095, 4095, 4095, 4095, 4095, 4095, 4095, 4095, 4095, 4095, 4095, 4095, 4095, 4095, 4095, 4095],
    [4095, 4095, 4095, 4095, 4095, 4095, 4095, 4095, 4095, 4095, 4095, 4095, 4095, 4095, 4095, 4095],
    [4095, 4095, 4095, 4095, 4095, 4095, 4095, 4095, 4095, 4095, 4095, 4095, 4095, 4095, 4095, 4095],
    [4095, 4095, 4095, 4095, 4095, 4095, 4095, 4095, 4095, 4095, 4095, 4095, 4095, 4095, 4095, 4095],
    [4095, 4095, 4095, 4095, 4095, 4095, 4095, 4095, 4095, 4095, 4095, 4095, 4095, 4095, 4095, 4095],
    [4095, 4095, 4095, 4095, 4095, 4095, 4095, 4095, 4095, 4095, 4095, 4095, 4095, 4095, 4095, 4095],
    [4095, 4095, 4095, 4095, 4095, 4095, 4095, 4095, 4095, 4095, 4095, 4095, 4095, 4095, 4095, 4095],
    [4095, 4095, 4095, 4095, 4095, 4095, 4095, 4095, 4095, 4095, 4095, 4095, 4095, 4095, 4095, 4095],
    [4095, 4095, 4095, 4095, 4095, 4095, 4095, 4095, 4095, 4095, 4095, 4095, 4095, 4095, 4095, 4095],
    [4095, 4095, 4095, 4095, 4095, 4095, 4095, 4095, 4095, 4095, 4095, 4095, 4095, 4095, 4095, 4095],
    [4095, 4095, 4095, 4095, 4095, 4095, 4095, 4095, 4095, 4095, 4095, 4095, 4095, 4095, 4095, 4095],
    [4095, 4095, 4095, 4095, 4095, 4095, 4095, 4095, 4095, 4095, 4095, 4095, 4095, 4095, 4095, 4095],
    [4095, 4095, 4095, 4095, 4095, 4095, 4095, 4095, 4095, 4095, 4095, 4095, 4095, 4095, 4095, 4095],
    [4095, 4095, 4095, 4095, 4095, 4095, 4095, 4095, 4095, 4095, 4095, 4095, 4095, 4095, 4095, 4095],
    [4095, 4095, 4095, 4095, 4095, 4095, 4095, 4095, 4095, 4095, 4095, 4095, 4095, 4095, 4095, 4095],
    [4095, 4095, 4095, 4095, 4095, 4095, 4095, 4095, 4095, 4095, 4095, 4095, 4095, 4095, 4095, 4095],
    [4095, 4095, 4095, 4095, 4095, 4095, 4095, 4095, 4095, 4095, 4095, 4095, 4095, 4095, 4095, 4095],
    [4095, 4095, 4095, 4095, 4095, 4095, 4095, 4095, 4095, 4095, 4095, 4095, 4095, 4095, 4095, 4095],
    [4095, 4095, 4095, 4095, 4095, 4095, 4095, 4095, 4095, 4095, 4095, 4095, 4095, 4095, 4095, 4095],
    [4095, 4095, 4095, 4095, 4095, 4095, 4095, 4095, 4095, 4095, 4095, 4095, 4095, 4095, 4095, 4095],
    [4095, 4095, 4095, 4095, 4095, 4095, 4095, 4095, 4095, 4095, 4095, 4095, 4095, 4095, 4095, 4095],
    [4095, 4095, 4095, 4095, 4095, 4095, 4095, 4095, 4095, 4095, 4095, 4095, 4095, 4095, 4095, 4095],
    [4095, 4095, 4095, 4095, 4095, 4095, 4095, 4095, 4095, 4095, 4095, 4095, 4095, 4095, 4095, 4095],
    [4095, 4095, 4095, 4095, 4095, 4095, 4095, 4095, 4095, 4095, 4095, 4095, 4095, 4095, 4095, 4095],
    [4095, 4095, 4095, 4095, 4095, 4095, 4095, 4095, 4095, 4095, 4095, 4095, 4095, 4095, 4095, 4095],
    [4095, 4095, 4095, 4095, 4095, 4095, 4095, 4095, 4095, 4095, 4095, 4095, 4095, 4095, 4095, 4095],
    [4095, 4095, 4095, 4095, 4095, 4095, 4095, 4095, 4095, 4095, 4095, 4095, 4095, 4095, 4095, 4095],
    [4095, 4095, 4095, 4095, 4095, 4095, 4095, 4095, 4095, 4095, 4095, 4095, 4095, 4095, 4095, 4095],
    [4095, 4095, 4095, 4095, 4095, 4095, 4095, 4095, 4095, 4095, 4095, 4095, 4095, 4095, 4095, 4095],
    [4095, 4095, 4095, 4095, 4095, 4095, 4095, 4095, 4095, 4095, 4095, 4095, 4095, 4095, 4095, 4095],
    [4095, 4095, 4095, 4095, 4095, 4095, 4095, 4095, 4095, 4095, 4095, 4095, 4095, 4095, 4095, 4095],
    [4095, 4095, 4095, 4095, 4095, 4095, 4095, 4095, 4095, 4095, 4095, 4095, 4095, 4095, 4095, 4095],
    [4095, 4095, 4095, 4095, 4095, 4095, 4095, 4095, 4095, 4095, 4095, 4095, 4095, 4095, 4095, 4095],
    [4095, 4095, 4095, 4095, 4095, 4095, 4095, 4095, 4095, 4095, 4095, 4095, 4095, 4095, 4095, 4095],
    [4095, 4095, 4095, 4095, 4095, 4095, 4095, 4095, 4095, 4095, 4095, 4095, 4095, 4095, 4095, 4095],
    [4095, 4095, 4095, 4095, 4095, 4095, 4095, 4095, 4095, 4095, 4095, 4095, 4095, 4095, 4095, 4095],
    [4095, 4095, 4095, 4095, 4095, 4095, 4095, 4095, 4095, 4095, 4095, 4095, 4095, 4095, 4095, 4095],
    [4095, 4095, 4095, 4095, 4095, 4095, 4095, 4095, 4095, 4095, 4095, 4095, 4095, 4095, 4095, 4095],
    [4095, 4095, 4095, 4095, 4095, 4095, 4095, 4095, 4095, 4095, 4095, 4095, 4095, 4095, 4095, 4095],
    [4095, 4095, 4095, 4095, 4095, 4095, 4095, 4095, 4095, 4095, 4095, 4095, 4095, 4095, 4095, 4095],
    [4095, 4095, 4095, 4095, 4095, 4095, 4095, 4095, 4095, 4095, 4095, 4095, 4095, 4095, 4095, 4095],
    [4095, 4095, 4095, 4095, 4095, 4095, 4095, 4095, 4095, 4095, 4095, 4095, 4095, 4095, 4095, 4095],
    [4095, 4095, 4095, 4095, 4095, 4095, 4095, 4095, 4095, 4095, 4095, 4095, 4095, 4095, 4095, 4095],
    [4095, 4095, 4095, 4095, 4095, 4095, 4095, 4095, 4095, 4095, 4095, 4095, 4095, 4095, 4095]]"

definition st_low :: "int list list" where
  "st_low = [
    [0, - 1065, - 976, - 924, - 887, - 859, - 835, - 815, - 798, - 783, - 770, - 757, - 746, - 736, - 726, - 718],
    [- 709, - 701, - 694, - 687, - 681, - 674, - 668, - 663, - 657, - 652, - 647, - 642, - 637, - 633, - 628, - 624],
    [- 620, - 616, - 612, - 608, - 605, - 601, - 598, - 595, - 591, - 588, - 585, - 582, - 579, - 576, - 573, - 570],
    [- 568, - 565, - 562, - 560, - 557, - 555, - 552, - 550, - 548, - 545, - 543, - 541, - 539, - 537, - 534, - 532],
    [- 530, - 528, - 526, - 524, - 522, - 521, - 519, - 517, - 515, - 513, - 511, - 510, - 508, - 506, - 505, - 503],
    [- 501, - 500, - 498, - 496, - 495, - 493, - 492, - 490, - 489, - 487, - 486, - 484, - 483, - 482, - 480, - 479],
    [- 477, - 476, - 475, - 473, - 472, - 471, - 469, - 468, - 467, - 466, - 464, - 463, - 462, - 461, - 460, - 458],
    [- 457, - 456, - 455, - 454, - 453, - 451, - 450, - 449, - 448, - 447, - 446, - 445, - 444, - 443, - 442, - 441],
    [- 440, - 439, - 438, - 436, - 435, - 434, - 433, - 433, - 432, - 431, - 430, - 429, - 428, - 427, - 426, - 425],
    [- 424, - 423, - 422, - 421, - 420, - 419, - 419, - 418, - 417, - 416, - 415, - 414, - 413, - 412, - 412, - 411],
    [- 410, - 409, - 408, - 407, - 407, - 406, - 405, - 404, - 403, - 403, - 402, - 401, - 400, - 400, - 399, - 398],
    [- 397, - 396, - 396, - 395, - 394, - 393, - 393, - 392, - 391, - 391, - 390, - 389, - 388, - 388, - 387, - 386],
    [- 386, - 385, - 384, - 383, - 383, - 382, - 381, - 381, - 380, - 379, - 379, - 378, - 377, - 377, - 376, - 375],
    [- 375, - 374, - 374, - 373, - 372, - 372, - 371, - 370, - 370, - 369, - 368, - 368, - 367, - 367, - 366, - 365],
    [- 365, - 364, - 364, - 363, - 362, - 362, - 361, - 361, - 360, - 359, - 359, - 358, - 358, - 357, - 357, - 356],
    [- 355, - 355, - 354, - 354, - 353, - 353, - 352, - 352, - 351, - 350, - 350, - 349, - 349, - 348, - 348, - 347],
    [- 347, - 346, - 346, - 345, - 345, - 344, - 343, - 343, - 342, - 342, - 341, - 341, - 340, - 340, - 339, - 339],
    [- 338, - 338, - 337, - 337, - 336, - 336, - 335, - 335, - 334, - 334, - 333, - 333, - 332, - 332, - 331, - 331],
    [- 330, - 330, - 330, - 329, - 329, - 328, - 328, - 327, - 327, - 326, - 326, - 325, - 325, - 324, - 324, - 323],
    [- 323, - 323, - 322, - 322, - 321, - 321, - 320, - 320, - 319, - 319, - 319, - 318, - 318, - 317, - 317, - 316],
    [- 316, - 315, - 315, - 315, - 314, - 314, - 313, - 313, - 312, - 312, - 312, - 311, - 311, - 310, - 310, - 310],
    [- 309, - 309, - 308, - 308, - 307, - 307, - 307, - 306, - 306, - 305, - 305, - 305, - 304, - 304, - 303, - 303],
    [- 303, - 302, - 302, - 301, - 301, - 301, - 300, - 300, - 299, - 299, - 299, - 298, - 298, - 298, - 297, - 297],
    [- 296, - 296, - 296, - 295, - 295, - 294, - 294, - 294, - 293, - 293, - 293, - 292, - 292, - 291, - 291, - 291],
    [- 290, - 290, - 290, - 289, - 289, - 289, - 288, - 288, - 287, - 287, - 287, - 286, - 286, - 286, - 285, - 285],
    [- 285, - 284, - 284, - 284, - 283, - 283, - 282, - 282, - 282, - 281, - 281, - 281, - 280, - 280, - 280, - 279],
    [- 279, - 279, - 278, - 278, - 278, - 277, - 277, - 277, - 276, - 276, - 276, - 275, - 275, - 275, - 274, - 274],
    [- 274, - 273, - 273, - 273, - 272, - 272, - 272, - 271, - 271, - 271, - 270, - 270, - 270, - 269, - 269, - 269],
    [- 268, - 268, - 268, - 267, - 267, - 267, - 267, - 266, - 266, - 266, - 265, - 265, - 265, - 264, - 264, - 264],
    [- 263, - 263, - 263, - 262, - 262, - 262, - 262, - 261, - 261, - 261, - 260, - 260, - 260, - 259, - 259, - 259],
    [- 258, - 258, - 258, - 258, - 257, - 257, - 257, - 256, - 256, - 256, - 255, - 255, - 255, - 255, - 254, - 254],
    [- 254, - 253, - 253, - 253, - 253, - 252, - 252, - 252, - 251, - 251, - 251, - 251, - 250, - 250, - 250, - 249],
    [- 249, - 249, - 249, - 248, - 248, - 248, - 247, - 247, - 247, - 247, - 246, - 246, - 246, - 245, - 245, - 245],
    [- 245, - 244, - 244, - 244, - 243, - 243, - 243, - 243, - 242, - 242, - 242, - 242, - 241, - 241, - 241, - 240],
    [- 240, - 240, - 240, - 239, - 239, - 239, - 239, - 238, - 238, - 238, - 237, - 237, - 237, - 237, - 236, - 236],
    [- 236, - 236, - 235, - 235, - 235, - 235, - 234, - 234, - 234, - 234, - 233, - 233, - 233, - 232, - 232, - 232],
    [- 232, - 231, - 231, - 231, - 231, - 230, - 230, - 230, - 230, - 229, - 229, - 229, - 229, - 228, - 228, - 228],
    [- 228, - 227, - 227, - 227, - 227, - 226, - 226, - 226, - 226, - 225, - 225, - 225, - 225, - 224, - 224, - 224],
    [- 224, - 223, - 223, - 223, - 223, - 222, - 222, - 222, - 222, - 221, - 221, - 221, - 221, - 220, - 220, - 220],
    [- 220, - 219, - 219, - 219, - 219, - 218, - 218, - 218, - 218, - 218, - 217, - 217, - 217, - 217, - 216, - 216],
    [- 216, - 216, - 215, - 215, - 215, - 215, - 214, - 214, - 214, - 214, - 214, - 213, - 213, - 213, - 213, - 212],
    [- 212, - 212, - 212, - 211, - 211, - 211, - 211, - 210, - 210, - 210, - 210, - 210, - 209, - 209, - 209, - 209],
    [- 208, - 208, - 208, - 208, - 208, - 207, - 207, - 207, - 207, - 206, - 206, - 206, - 206, - 205, - 205, - 205],
    [- 205, - 205, - 204, - 204, - 204, - 204, - 203, - 203, - 203, - 203, - 203, - 202, - 202, - 202, - 202, - 201],
    [- 201, - 201, - 201, - 201, - 200, - 200, - 200, - 200, - 200, - 199, - 199, - 199, - 199, - 198, - 198, - 198],
    [- 198, - 198, - 197, - 197, - 197, - 197, - 196, - 196, - 196, - 196, - 196, - 195, - 195, - 195, - 195, - 195],
    [- 194, - 194, - 194, - 194, - 194, - 193, - 193, - 193, - 193, - 192, - 192, - 192, - 192, - 192, - 191, - 191],
    [- 191, - 191, - 191, - 190, - 190, - 190, - 190, - 190, - 189, - 189, - 189, - 189, - 189, - 188, - 188, - 188],
    [- 188, - 187, - 187, - 187, - 187, - 187, - 186, - 186, - 186, - 186, - 186, - 185, - 185, - 185, - 185, - 185],
    [- 184, - 184, - 184, - 184, - 184, - 183, - 183, - 183, - 183, - 183, - 182, - 182, - 182, - 182, - 182, - 181],
    [- 181, - 181, - 181, - 181, - 180, - 180, - 180, - 180, - 180, - 179, - 179, - 179, - 179, - 179, - 178, - 178],
    [- 178, - 178, - 178, - 177, - 177, - 177, - 177, - 177, - 177, - 176, - 176, - 176, - 176, - 176, - 175, - 175],
    [- 175, - 175, - 175, - 174, - 174, - 174, - 174, - 174, - 173, - 173, - 173, - 173, - 173, - 172, - 172, - 172],
    [- 172, - 172, - 172, - 171, - 171, - 171, - 171, - 171, - 170, - 170, - 170, - 170, - 170, - 169, - 169, - 169],
    [- 169, - 169, - 168, - 168, - 168, - 168, - 168, - 168, - 167, - 167, - 167, - 167, - 167, - 166, - 166, - 166],
    [- 166, - 166, - 166, - 165, - 165, - 165, - 165, - 165, - 164, - 164, - 164, - 164, - 164, - 163, - 163, - 163],
    [- 163, - 163, - 163, - 162, - 162, - 162, - 162, - 162, - 161, - 161, - 161, - 161, - 161, - 161, - 160, - 160],
    [- 160, - 160, - 160, - 159, - 159, - 159, - 159, - 159, - 159, - 158, - 158, - 158, - 158, - 158, - 158, - 157],
    [- 157, - 157, - 157, - 157, - 156, - 156, - 156, - 156, - 156, - 156, - 155, - 155, - 155, - 155, - 155, - 155],
    [- 154, - 154, - 154, - 154, - 154, - 153, - 153, - 153, - 153, - 153, - 153, - 152, - 152, - 152, - 152, - 152],
    [- 152, - 151, - 151, - 151, - 151, - 151, - 150, - 150, - 150, - 150, - 150, - 150, - 149, - 149, - 149, - 149],
    [- 149, - 149, - 148, - 148, - 148, - 148, - 148, - 148, - 147, - 147, - 147, - 147, - 147, - 147, - 146, - 146],
    [- 146, - 146, - 146, - 146, - 145, - 145, - 145, - 145, - 145, - 144, - 144, - 144, - 144, - 144, - 144, - 143],
    [- 143, - 143, - 143, - 143, - 143, - 142, - 142, - 142, - 142, - 142, - 142, - 141, - 141, - 141, - 141, - 141],
    [- 141, - 140, - 140, - 140, - 140, - 140, - 140, - 139, - 139, - 139, - 139, - 139, - 139, - 138, - 138, - 138],
    [- 138, - 138, - 138, - 137, - 137, - 137, - 137, - 137, - 137, - 136, - 136, - 136, - 136, - 136, - 136, - 136],
    [- 135, - 135, - 135, - 135, - 135, - 135, - 134, - 134, - 134, - 134, - 134, - 134, - 133, - 133, - 133, - 133],
    [- 133, - 133, - 132, - 132, - 132, - 132, - 132, - 132, - 131, - 131, - 131, - 131, - 131, - 131, - 130, - 130],
    [- 130, - 130, - 130, - 130, - 130, - 129, - 129, - 129, - 129, - 129, - 129, - 128, - 128, - 128, - 128, - 128],
    [- 128, - 127, - 127, - 127, - 127, - 127, - 127, - 127, - 126, - 126, - 126, - 126, - 126, - 126, - 125, - 125],
    [- 125, - 125, - 125, - 125, - 124, - 124, - 124, - 124, - 124, - 124, - 124, - 123, - 123, - 123, - 123, - 123],
    [- 123, - 122, - 122, - 122, - 122, - 122, - 122, - 121, - 121, - 121, - 121, - 121, - 121, - 121, - 120, - 120],
    [- 120, - 120, - 120, - 120, - 119, - 119, - 119, - 119, - 119, - 119, - 119, - 118, - 118, - 118, - 118, - 118],
    [- 118, - 117, - 117, - 117, - 117, - 117, - 117, - 117, - 116, - 116, - 116, - 116, - 116, - 116, - 115, - 115],
    [- 115, - 115, - 115, - 115, - 115, - 114, - 114, - 114, - 114, - 114, - 114, - 114, - 113, - 113, - 113, - 113],
    [- 113, - 113, - 112, - 112, - 112, - 112, - 112, - 112, - 112, - 111, - 111, - 111, - 111, - 111, - 111, - 111],
    [- 110, - 110, - 110, - 110, - 110, - 110, - 109, - 109, - 109, - 109, - 109, - 109, - 109, - 108, - 108, - 108],
    [- 108, - 108, - 108, - 108, - 107, - 107, - 107, - 107, - 107, - 107, - 106, - 106, - 106, - 106, - 106, - 106],
    [- 106, - 105, - 105, - 105, - 105, - 105, - 105, - 105, - 104, - 104, - 104, - 104, - 104, - 104, - 104, - 103],
    [- 103, - 103, - 103, - 103, - 103, - 103, - 102, - 102, - 102, - 102, - 102, - 102, - 102, - 101, - 101, - 101],
    [- 101, - 101, - 101, - 100, - 100, - 100, - 100, - 100, - 100, - 100, - 99, - 99, - 99, - 99, - 99, - 99],
    [- 99, - 98, - 98, - 98, - 98, - 98, - 98, - 98, - 97, - 97, - 97, - 97, - 97, - 97, - 97, - 96],
    [- 96, - 96, - 96, - 96, - 96, - 96, - 95, - 95, - 95, - 95, - 95, - 95, - 95, - 94, - 94, - 94],
    [- 94, - 94, - 94, - 94, - 93, - 93, - 93, - 93, - 93, - 93, - 93, - 92, - 92, - 92, - 92, - 92],
    [- 92, - 92, - 91, - 91, - 91, - 91, - 91, - 91, - 91, - 90, - 90, - 90, - 90, - 90, - 90, - 90],
    [- 89, - 89, - 89, - 89, - 89, - 89, - 89, - 88, - 88, - 88, - 88, - 88, - 88, - 88, - 88, - 87],
    [- 87, - 87, - 87, - 87, - 87, - 87, - 86, - 86, - 86, - 86, - 86, - 86, - 86, - 85, - 85, - 85],
    [- 85, - 85, - 85, - 85, - 84, - 84, - 84, - 84, - 84, - 84, - 84, - 83, - 83, - 83, - 83, - 83],
    [- 83, - 83, - 82, - 82, - 82, - 82, - 82, - 82, - 82, - 82, - 81, - 81, - 81, - 81, - 81, - 81],
    [- 81, - 80, - 80, - 80, - 80, - 80, - 80, - 80, - 79, - 79, - 79, - 79, - 79, - 79, - 79, - 78],
    [- 78, - 78, - 78, - 78, - 78, - 78, - 78, - 77, - 77, - 77, - 77, - 77, - 77, - 77, - 76, - 76],
    [- 76, - 76, - 76, - 76, - 76, - 75, - 75, - 75, - 75, - 75, - 75, - 75, - 75, - 74, - 74, - 74],
    [- 74, - 74, - 74, - 74, - 73, - 73, - 73, - 73, - 73, - 73, - 73, - 73, - 72, - 72, - 72, - 72],
    [- 72, - 72, - 72, - 71, - 71, - 71, - 71, - 71, - 71, - 71, - 70, - 70, - 70, - 70, - 70, - 70],
    [- 70, - 70, - 69, - 69, - 69, - 69, - 69, - 69, - 69, - 68, - 68, - 68, - 68, - 68, - 68, - 68],
    [- 68, - 67, - 67, - 67, - 67, - 67, - 67, - 67, - 66, - 66, - 66, - 66, - 66, - 66, - 66, - 66],
    [- 65, - 65, - 65, - 65, - 65, - 65, - 65, - 64, - 64, - 64, - 64, - 64, - 64, - 64, - 64, - 63],
    [- 63, - 63, - 63, - 63, - 63, - 63, - 62, - 62, - 62, - 62, - 62, - 62, - 62, - 62, - 61, - 61],
    [- 61, - 61, - 61, - 61, - 61, - 60, - 60, - 60, - 60, - 60, - 60, - 60, - 60, - 59, - 59, - 59],
    [- 59, - 59, - 59, - 59, - 58, - 58, - 58, - 58, - 58, - 58, - 58, - 58, - 57, - 57, - 57, - 57],
    [- 57, - 57, - 57, - 57, - 56, - 56, - 56, - 56, - 56, - 56, - 56, - 55, - 55, - 55, - 55, - 55],
    [- 55, - 55, - 55, - 54, - 54, - 54, - 54, - 54, - 54, - 54, - 54, - 53, - 53, - 53, - 53, - 53],
    [- 53, - 53, - 52, - 52, - 52, - 52, - 52, - 52, - 52, - 52, - 51, - 51, - 51, - 51, - 51, - 51],
    [- 51, - 51, - 50, - 50, - 50, - 50, - 50, - 50, - 50, - 49, - 49, - 49, - 49, - 49, - 49, - 49],
    [- 49, - 48, - 48, - 48, - 48, - 48, - 48, - 48, - 48, - 47, - 47, - 47, - 47, - 47, - 47, - 47],
    [- 47, - 46, - 46, - 46, - 46, - 46, - 46, - 46, - 45, - 45, - 45, - 45, - 45, - 45, - 45, - 45],
    [- 44, - 44, - 44, - 44, - 44, - 44, - 44, - 44, - 43, - 43, - 43, - 43, - 43, - 43, - 43, - 43],
    [- 42, - 42, - 42, - 42, - 42, - 42, - 42, - 41, - 41, - 41, - 41, - 41, - 41, - 41, - 41, - 40],
    [- 40, - 40, - 40, - 40, - 40, - 40, - 40, - 39, - 39, - 39, - 39, - 39, - 39, - 39, - 39, - 38],
    [- 38, - 38, - 38, - 38, - 38, - 38, - 38, - 37, - 37, - 37, - 37, - 37, - 37, - 37, - 36, - 36],
    [- 36, - 36, - 36, - 36, - 36, - 36, - 35, - 35, - 35, - 35, - 35, - 35, - 35, - 35, - 34, - 34],
    [- 34, - 34, - 34, - 34, - 34, - 34, - 33, - 33, - 33, - 33, - 33, - 33, - 33, - 33, - 32, - 32],
    [- 32, - 32, - 32, - 32, - 32, - 32, - 31, - 31, - 31, - 31, - 31, - 31, - 31, - 31, - 30, - 30],
    [- 30, - 30, - 30, - 30, - 30, - 30, - 29, - 29, - 29, - 29, - 29, - 29, - 29, - 28, - 28, - 28],
    [- 28, - 28, - 28, - 28, - 28, - 27, - 27, - 27, - 27, - 27, - 27, - 27, - 27, - 26, - 26, - 26],
    [- 26, - 26, - 26, - 26, - 26, - 25, - 25, - 25, - 25, - 25, - 25, - 25, - 25, - 24, - 24, - 24],
    [- 24, - 24, - 24, - 24, - 24, - 23, - 23, - 23, - 23, - 23, - 23, - 23, - 23, - 22, - 22, - 22],
    [- 22, - 22, - 22, - 22, - 22, - 21, - 21, - 21, - 21, - 21, - 21, - 21, - 21, - 20, - 20, - 20],
    [- 20, - 20, - 20, - 20, - 20, - 19, - 19, - 19, - 19, - 19, - 19, - 19, - 19, - 18, - 18, - 18],
    [- 18, - 18, - 18, - 18, - 18, - 17, - 17, - 17, - 17, - 17, - 17, - 17, - 17, - 16, - 16, - 16],
    [- 16, - 16, - 16, - 16, - 16, - 15, - 15, - 15, - 15, - 15, - 15, - 15, - 15, - 14, - 14, - 14],
    [- 14, - 14, - 14, - 14, - 14, - 13, - 13, - 13, - 13, - 13, - 13, - 13, - 13, - 12, - 12, - 12],
    [- 12, - 12, - 12, - 12, - 12, - 11, - 11, - 11, - 11, - 11, - 11, - 11, - 11, - 10, - 10, - 10],
    [- 10, - 10, - 10, - 10, - 10, - 9, - 9, - 9, - 9, - 9, - 9, - 9, - 9, - 8, - 8, - 8],
    [- 8, - 8, - 8, - 8, - 8, - 7, - 7, - 7, - 7, - 7, - 7, - 7, - 7, - 6, - 6, - 6],
    [- 6, - 6, - 6, - 6, - 6, - 5, - 5, - 5, - 5, - 5, - 5, - 5, - 5, - 4, - 4, - 4],
    [- 4, - 4, - 4, - 4, - 4, - 3, - 3, - 3, - 3, - 3, - 3, - 3, - 3, - 2, - 2, - 2],
    [- 2, - 2, - 2, - 2, - 2, - 1, - 1, - 1, - 1, - 1, - 1, - 1, - 1, 0, 0, 0]]"

definition st_high :: "int list list" where
  "st_high = [
    [0, 0, 0, 0, 1, 1, 1, 1, 1, 1, 1, 1, 2, 2, 2, 2],
    [2, 2, 2, 2, 3, 3, 3, 3, 3, 3, 3, 3, 4, 4, 4, 4],
    [4, 4, 4, 4, 5, 5, 5, 5, 5, 5, 5, 5, 6, 6, 6, 6],
    [6, 6, 6, 6, 7, 7, 7, 7, 7, 7, 7, 7, 8, 8, 8, 8],
    [8, 8, 8, 8, 9, 9, 9, 9, 9, 9, 9, 9, 10, 10, 10, 10],
    [10, 10, 10, 10, 11, 11, 11, 11, 11, 11, 11, 11, 12, 12, 12, 12],
    [12, 12, 12, 12, 13, 13, 13, 13, 13, 13, 13, 13, 14, 14, 14, 14],
    [14, 14, 14, 14, 15, 15, 15, 15, 15, 15, 15, 15, 16, 16, 16, 16],
    [16, 16, 16, 16, 17, 17, 17, 17, 17, 17, 17, 17, 18, 18, 18, 18],
    [18, 18, 18, 18, 19, 19, 19, 19, 19, 19, 19, 19, 20, 20, 20, 20],
    [20, 20, 20, 20, 21, 21, 21, 21, 21, 21, 21, 21, 22, 22, 22, 22],
    [22, 22, 22, 22, 23, 23, 23, 23, 23, 23, 23, 23, 24, 24, 24, 24],
    [24, 24, 24, 24, 25, 25, 25, 25, 25, 25, 25, 25, 26, 26, 26, 26],
    [26, 26, 26, 26, 27, 27, 27, 27, 27, 27, 27, 27, 28, 28, 28, 28],
    [28, 28, 28, 28, 29, 29, 29, 29, 29, 29, 29, 30, 30, 30, 30, 30],
    [30, 30, 30, 31, 31, 31, 31, 31, 31, 31, 31, 32, 32, 32, 32, 32],
    [32, 32, 32, 33, 33, 33, 33, 33, 33, 33, 33, 34, 34, 34, 34, 34],
    [34, 34, 34, 35, 35, 35, 35, 35, 35, 35, 35, 36, 36, 36, 36, 36],
    [36, 36, 36, 37, 37, 37, 37, 37, 37, 37, 38, 38, 38, 38, 38, 38],
    [38, 38, 39, 39, 39, 39, 39, 39, 39, 39, 40, 40, 40, 40, 40, 40],
    [40, 40, 41, 41, 41, 41, 41, 41, 41, 41, 42, 42, 42, 42, 42, 42],
    [42, 43, 43, 43, 43, 43, 43, 43, 43, 44, 44, 44, 44, 44, 44, 44],
    [44, 45, 45, 45, 45, 45, 45, 45, 45, 46, 46, 46, 46, 46, 46, 46],
    [47, 47, 47, 47, 47, 47, 47, 47, 48, 48, 48, 48, 48, 48, 48, 48],
    [49, 49, 49, 49, 49, 49, 49, 49, 50, 50, 50, 50, 50, 50, 50, 51],
    [51, 51, 51, 51, 51, 51, 51, 52, 52, 52, 52, 52, 52, 52, 52, 53],
    [53, 53, 53, 53, 53, 53, 54, 54, 54, 54, 54, 54, 54, 54, 55, 55],
    [55, 55, 55, 55, 55, 55, 56, 56, 56, 56, 56, 56, 56, 57, 57, 57],
    [57, 57, 57, 57, 57, 58, 58, 58, 58, 58, 58, 58, 58, 59, 59, 59],
    [59, 59, 59, 59, 60, 60, 60, 60, 60, 60, 60, 60, 61, 61, 61, 61],
    [61, 61, 61, 62, 62, 62, 62, 62, 62, 62, 62, 63, 63, 63, 63, 63],
    [63, 63, 64, 64, 64, 64, 64, 64, 64, 64, 65, 65, 65, 65, 65, 65],
    [65, 66, 66, 66, 66, 66, 66, 66, 66, 67, 67, 67, 67, 67, 67, 67],
    [68, 68, 68, 68, 68, 68, 68, 68, 69, 69, 69, 69, 69, 69, 69, 70],
    [70, 70, 70, 70, 70, 70, 70, 71, 71, 71, 71, 71, 71, 71, 72, 72],
    [72, 72, 72, 72, 72, 73, 73, 73, 73, 73, 73, 73, 73, 74, 74, 74],
    [74, 74, 74, 74, 75, 75, 75, 75, 75, 75, 75, 75, 76, 76, 76, 76],
    [76, 76, 76, 77, 77, 77, 77, 77, 77, 77, 78, 78, 78, 78, 78, 78],
    [78, 78, 79, 79, 79, 79, 79, 79, 79, 80, 80, 80, 80, 80, 80, 80],
    [81, 81, 81, 81, 81, 81, 81, 82, 82, 82, 82, 82, 82, 82, 82, 83],
    [83, 83, 83, 83, 83, 83, 84, 84, 84, 84, 84, 84, 84, 85, 85, 85],
    [85, 85, 85, 85, 86, 86, 86, 86, 86, 86, 86, 87, 87, 87, 87, 87],
    [87, 87, 88, 88, 88, 88, 88, 88, 88, 88, 89, 89, 89, 89, 89, 89],
    [89, 90, 90, 90, 90, 90, 90, 90, 91, 91, 91, 91, 91, 91, 91, 92],
    [92, 92, 92, 92, 92, 92, 93, 93, 93, 93, 93, 93, 93, 94, 94, 94],
    [94, 94, 94, 94, 95, 95, 95, 95, 95, 95, 95, 96, 96, 96, 96, 96],
    [96, 96, 97, 97, 97, 97, 97, 97, 97, 98, 98, 98, 98, 98, 98, 98],
    [99, 99, 99, 99, 99, 99, 99, 100, 100, 100, 100, 100, 100, 100, 101, 101],
    [101, 101, 101, 101, 102, 102, 102, 102, 102, 102, 102, 103, 103, 103, 103, 103],
    [103, 103, 104, 104, 104, 104, 104, 104, 104, 105, 105, 105, 105, 105, 105, 105],
    [106, 106, 106, 106, 106, 106, 106, 107, 107, 107, 107, 107, 107, 108, 108, 108],
    [108, 108, 108, 108, 109, 109, 109, 109, 109, 109, 109, 110, 110, 110, 110, 110],
    [110, 111, 111, 111, 111, 111, 111, 111, 112, 112, 112, 112, 112, 112, 112, 113],
    [113, 113, 113, 113, 113, 114, 114, 114, 114, 114, 114, 114, 115, 115, 115, 115],
    [115, 115, 115, 116, 116, 116, 116, 116, 116, 117, 117, 117, 117, 117, 117, 117],
    [118, 118, 118, 118, 118, 118, 119, 119, 119, 119, 119, 119, 119, 120, 120, 120],
    [120, 120, 120, 121, 121, 121, 121, 121, 121, 121, 122, 122, 122, 122, 122, 122],
    [123, 123, 123, 123, 123, 123, 124, 124, 124, 124, 124, 124, 124, 125, 125, 125],
    [125, 125, 125, 126, 126, 126, 126, 126, 126, 127, 127, 127, 127, 127, 127, 127],
    [128, 128, 128, 128, 128, 128, 129, 129, 129, 129, 129, 129, 130, 130, 130, 130],
    [130, 130, 130, 131, 131, 131, 131, 131, 131, 132, 132, 132, 132, 132, 132, 133],
    [133, 133, 133, 133, 133, 134, 134, 134, 134, 134, 134, 135, 135, 135, 135, 135],
    [135, 136, 136, 136, 136, 136, 136, 136, 137, 137, 137, 137, 137, 137, 138, 138],
    [138, 138, 138, 138, 139, 139, 139, 139, 139, 139, 140, 140, 140, 140, 140, 140],
    [141, 141, 141, 141, 141, 141, 142, 142, 142, 142, 142, 142, 143, 143, 143, 143],
    [143, 143, 144, 144, 144, 144, 144, 144, 145, 145, 145, 145, 145, 146, 146, 146],
    [146, 146, 146, 147, 147, 147, 147, 147, 147, 148, 148, 148, 148, 148, 148, 149],
    [149, 149, 149, 149, 149, 150, 150, 150, 150, 150, 150, 151, 151, 151, 151, 151],
    [152, 152, 152, 152, 152, 152, 153, 153, 153, 153, 153, 153, 154, 154, 154, 154],
    [154, 155, 155, 155, 155, 155, 155, 156, 156, 156, 156, 156, 156, 157, 157, 157],
    [157, 157, 158, 158, 158, 158, 158, 158, 159, 159, 159, 159, 159, 159, 160, 160],
    [160, 160, 160, 161, 161, 161, 161, 161, 161, 162, 162, 162, 162, 162, 163, 163],
    [163, 163, 163, 163, 164, 164, 164, 164, 164, 165, 165, 165, 165, 165, 166, 166],
    [166, 166, 166, 166, 167, 167, 167, 167, 167, 168, 168, 168, 168, 168, 168, 169],
    [169, 169, 169, 169, 170, 170, 170, 170, 170, 171, 171, 171, 171, 171, 172, 172],
    [172, 172, 172, 172, 173, 173, 173, 173, 173, 174, 174, 174, 174, 174, 175, 175],
    [175, 175, 175, 176, 176, 176, 176, 176, 177, 177, 177, 177, 177, 177, 178, 178],
    [178, 178, 178, 179, 179, 179, 179, 179, 180, 180, 180, 180, 180, 181, 181, 181],
    [181, 181, 182, 182, 182, 182, 182, 183, 183, 183, 183, 183, 184, 184, 184, 184],
    [184, 185, 185, 185, 185, 185, 186, 186, 186, 186, 186, 187, 187, 187, 187, 187],
    [188, 188, 188, 188, 189, 189, 189, 189, 189, 190, 190, 190, 190, 190, 191, 191],
    [191, 191, 191, 192, 192, 192, 192, 192, 193, 193, 193, 193, 194, 194, 194, 194],
    [194, 195, 195, 195, 195, 195, 196, 196, 196, 196, 196, 197, 197, 197, 197, 198],
    [198, 198, 198, 198, 199, 199, 199, 199, 200, 200, 200, 200, 200, 201, 201, 201],
    [201, 201, 202, 202, 202, 202, 203, 203, 203, 203, 203, 204, 204, 204, 204, 205],
    [205, 205, 205, 205, 206, 206, 206, 206, 207, 207, 207, 207, 208, 208, 208, 208],
    [208, 209, 209, 209, 209, 210, 210, 210, 210, 210, 211, 211, 211, 211, 212, 212],
    [212, 212, 213, 213, 213, 213, 214, 214, 214, 214, 214, 215, 215, 215, 215, 216],
    [216, 216, 216, 217, 217, 217, 217, 218, 218, 218, 218, 218, 219, 219, 219, 219],
    [220, 220, 220, 220, 221, 221, 221, 221, 222, 222, 222, 222, 223, 223, 223, 223],
    [224, 224, 224, 224, 225, 225, 225, 225, 226, 226, 226, 226, 227, 227, 227, 227],
    [228, 228, 228, 228, 229, 229, 229, 229, 230, 230, 230, 230, 231, 231, 231, 231],
    [232, 232, 232, 232, 233, 233, 233, 234, 234, 234, 234, 235, 235, 235, 235, 236],
    [236, 236, 236, 237, 237, 237, 237, 238, 238, 238, 239, 239, 239, 239, 240, 240],
    [240, 240, 241, 241, 241, 242, 242, 242, 242, 243, 243, 243, 243, 244, 244, 244],
    [245, 245, 245, 245, 246, 246, 246, 247, 247, 247, 247, 248, 248, 248, 249, 249],
    [249, 249, 250, 250, 250, 251, 251, 251, 251, 252, 252, 252, 253, 253, 253, 253],
    [254, 254, 254, 255, 255, 255, 255, 256, 256, 256, 257, 257, 257, 258, 258, 258],
    [258, 259, 259, 259, 260, 260, 260, 261, 261, 261, 262, 262, 262, 262, 263, 263],
    [263, 264, 264, 264, 265, 265, 265, 266, 266, 266, 267, 267, 267, 267, 268, 268],
    [268, 269, 269, 269, 270, 270, 270, 271, 271, 271, 272, 272, 272, 273, 273, 273],
    [274, 274, 274, 275, 275, 275, 276, 276, 276, 277, 277, 277, 278, 278, 278, 279],
    [279, 279, 280, 280, 280, 281, 281, 281, 282, 282, 282, 283, 283, 284, 284, 284],
    [285, 285, 285, 286, 286, 286, 287, 287, 287, 288, 288, 289, 289, 289, 290, 290],
    [290, 291, 291, 291, 292, 292, 293, 293, 293, 294, 294, 294, 295, 295, 296, 296],
    [296, 297, 297, 298, 298, 298, 299, 299, 299, 300, 300, 301, 301, 301, 302, 302],
    [303, 303, 303, 304, 304, 305, 305, 305, 306, 306, 307, 307, 307, 308, 308, 309],
    [309, 310, 310, 310, 311, 311, 312, 312, 312, 313, 313, 314, 314, 315, 315, 315],
    [316, 316, 317, 317, 318, 318, 319, 319, 319, 320, 320, 321, 321, 322, 322, 323],
    [323, 323, 324, 324, 325, 325, 326, 326, 327, 327, 328, 328, 329, 329, 330, 330],
    [330, 331, 331, 332, 332, 333, 333, 334, 334, 335, 335, 336, 336, 337, 337, 338],
    [338, 339, 339, 340, 340, 341, 341, 342, 342, 343, 343, 344, 345, 345, 346, 346],
    [347, 347, 348, 348, 349, 349, 350, 350, 351, 352, 352, 353, 353, 354, 354, 355],
    [355, 356, 357, 357, 358, 358, 359, 359, 360, 361, 361, 362, 362, 363, 364, 364],
    [365, 365, 366, 367, 367, 368, 368, 369, 370, 370, 371, 372, 372, 373, 374, 374],
    [375, 375, 376, 377, 377, 378, 379, 379, 380, 381, 381, 382, 383, 383, 384, 385],
    [386, 386, 387, 388, 388, 389, 390, 391, 391, 392, 393, 393, 394, 395, 396, 396],
    [397, 398, 399, 400, 400, 401, 402, 403, 403, 404, 405, 406, 407, 407, 408, 409],
    [410, 411, 412, 412, 413, 414, 415, 416, 417, 418, 419, 419, 420, 421, 422, 423],
    [424, 425, 426, 427, 428, 429, 430, 431, 432, 433, 433, 434, 435, 436, 438, 439],
    [440, 441, 442, 443, 444, 445, 446, 447, 448, 449, 450, 451, 453, 454, 455, 456],
    [457, 458, 460, 461, 462, 463, 464, 466, 467, 468, 469, 471, 472, 473, 475, 476],
    [477, 479, 480, 482, 483, 484, 486, 487, 489, 490, 492, 493, 495, 496, 498, 500],
    [501, 503, 505, 506, 508, 510, 511, 513, 515, 517, 519, 521, 522, 524, 526, 528],
    [530, 532, 534, 537, 539, 541, 543, 545, 548, 550, 552, 555, 557, 560, 562, 565],
    [568, 570, 573, 576, 579, 582, 585, 588, 591, 595, 598, 601, 605, 608, 612, 616],
    [620, 624, 628, 633, 637, 642, 647, 652, 657, 663, 668, 674, 681, 687, 694, 701],
    [709, 718, 726, 736, 746, 757, 770, 783, 798, 815, 835, 859, 887, 924, 976, 1065]]"

definition sq :: "int list" where
  "sq = concat (sq_low @ sq_high)"

definition st_table :: "int list" where
  "st_table = concat (st_low @ st_high)"

definition logit_min :: i32 where "logit_min = - 2047"
definition logit_max :: i32 where "logit_max = 2047"

definition clamp12 :: "i32 \<Rightarrow> i32" where
  "clamp12 p = (if sint p < 1 then 1 else if sint p > 4095 then 4095 else p)"

definition clamplog :: "i32 \<Rightarrow> i32" where
  "clamplog x = (if sint x < sint logit_min then logit_min else if sint x > sint logit_max then logit_max else x)"

text \<open>Both indices are in range whatever the argument: \<open>squash_index\<close> and \<open>stretch_index\<close> below.\<close>

definition squash :: "i32 \<Rightarrow> i32" where
  "squash x = word_of_int (sq ! unat (clamplog x - logit_min))"

definition stretch :: "i32 \<Rightarrow> i32" where
  "stretch p = word_of_int (st_table ! unat (clamp12 p))"

definition clamp16 :: "i32 \<Rightarrow> i32" where
  "clamp16 p = (if sint p < 1 then 1 else if sint p > 65534 then 65534 else p)"

section \<open>Built tables\<close>

definition nx_one :: "nat \<Rightarrow> u8" where
  "nx_one state =
     (let n0 = drop_bit 5 state AND 7; n1 = drop_bit 2 state AND 7;
          zeros = n0; ones = (if n1 < 7 then n1 + 1 else 7);
          zeros = (if zeros > 3 \<and> zeros + ones > 7 then zeros - 1 else zeros)
      in word_of_nat (push_bit 5 zeros OR push_bit 2 ones OR 1))"

definition nx_zero :: "nat \<Rightarrow> u8" where
  "nx_zero state =
     (let n0 = drop_bit 5 state AND 7; n1 = drop_bit 2 state AND 7;
          zeros = (if n0 < 7 then n0 + 1 else 7); ones = n1;
          ones = (if ones > 3 \<and> zeros + ones > 7 then ones - 1 else ones)
      in word_of_nat (push_bit 5 zeros OR push_bit 2 ones))"

definition nx :: "u8 list" where
  "nx = concat (map (\<lambda>state. [nx_zero state, nx_one state]) [0..<256])"

definition invr :: "u16 list" where
  "invr = map (\<lambda>visits. let denom = 2 * visits + 3 in word_of_nat ((262144 + denom) div (2 * denom))) [0..<256]"

definition sm0 :: "u32 list" where
  "sm0 = map (\<lambda>state.
     let n0 = drop_bit 5 state AND 7; n1 = drop_bit 2 state AND 7;
         num = 65536 * (2 * n1 + 1); denom = 2 * (n0 + n1 + 1);
         p = clamp16 (word_of_nat ((2 * num + denom) div (2 * denom)))
     in push_bit 8 p) [0..<256]"

section \<open>Lengths and ranges\<close>

text \<open>Each table is checked row by row.\<close>

definition full_row :: "int list \<Rightarrow> bool" where
  "full_row r \<longleftrightarrow> length r = 16"

definition probability_row :: "int list \<Rightarrow> bool" where
  "probability_row r \<longleftrightarrow> list_all (\<lambda>p. 1 \<le> p \<and> p \<le> 4095) r"

lemma sq_low_length: "length sq_low = 128"
  unfolding sq_low_def by simp

lemma sq_low_full: "list_all full_row sq_low"
  unfolding sq_low_def by (simp add: full_row_def)

lemma sq_low_probability: "list_all probability_row sq_low"
  unfolding sq_low_def by (simp add: probability_row_def)

lemma sq_high_length: "length (concat sq_high) = 2047"
  unfolding sq_high_def by simp

lemma sq_high_probability: "list_all probability_row sq_high"
  unfolding sq_high_def by (simp add: probability_row_def)

lemma st_low_length: "length st_low = 128"
  unfolding st_low_def by simp

lemma st_low_full: "list_all full_row st_low"
  unfolding st_low_def by (simp add: full_row_def)

lemma st_high_length: "length st_high = 128"
  unfolding st_high_def by simp

lemma st_high_full: "list_all full_row st_high"
  unfolding st_high_def by (simp add: full_row_def)

lemma length_concat_rows: "list_all full_row rs \<Longrightarrow> length (concat rs) = length rs * 16"
  by (induction rs) (auto simp: full_row_def)

lemma length_sq: "length sq = 4095"
  using length_concat_rows [OF sq_low_full] sq_low_length sq_high_length by (simp add: sq_def)

lemma sq_probability:
  assumes "p \<in> set sq"
  shows "1 \<le> p" "p \<le> 4095"
proof -
  from assms obtain r where "p \<in> set r" "r \<in> set sq_low \<or> r \<in> set sq_high" by (force simp: sq_def)
  then show "1 \<le> p" "p \<le> 4095"
    using sq_low_probability sq_high_probability by (auto simp: list_all_iff probability_row_def)
qed

lemma length_st_table: "length st_table = 4096"
  using length_concat_rows [OF st_low_full] length_concat_rows [OF st_high_full] st_low_length st_high_length
  by (simp add: st_table_def)

lemma length_tables [simp]: "length nx = 512" "length invr = 256" "length sm0 = 256"
  by (simp_all add: nx_def invr_def sm0_def length_concat comp_def sum_list_triv)

lemma uint_of_small:
  assumes "0 \<le> z" "z < 2 ^ 32"
  shows "uint (word_of_int z :: 32 word) = z"
  using assms by (simp add: uint_word_of_int)

lemma uint_nonneg:
  assumes "0 \<le> sint (w :: i32)" "sint w < 2 ^ 31"
  shows "uint w = sint w"
  using uint_of_small [of "sint w"] assms by simp

lemma squash_index: "unat (clamplog x - logit_min) < length sq"
proof -
  have l: "sint logit_min = - 2047" "sint logit_max = 2047" by (simp_all add: logit_min_def logit_max_def)
  have c: "- 2047 \<le> sint (clamplog x)" "sint (clamplog x) \<le> 2047" using l by (simp_all add: clamplog_def)
  have "clamplog x - logit_min = word_of_int (sint (clamplog x)) + word_of_int 2047" by (simp add: logit_min_def)
  then have "clamplog x - logit_min = word_of_int (sint (clamplog x) + 2047)" by (simp only: of_int_add)
  then have "uint (clamplog x - logit_min) = sint (clamplog x) + 2047"
    using uint_of_small [of "sint (clamplog x) + 2047"] c by (simp only:) simp
  then have "int (unat (clamplog x - logit_min)) \<le> 4094" using c by simp
  then show ?thesis using length_sq by linarith
qed

lemma stretch_index: "unat (clamp12 p) < length st_table"
proof -
  have "1 \<le> sint (clamp12 p)" "sint (clamp12 p) \<le> 4095" by (simp_all add: clamp12_def)
  then have "int (unat (clamp12 p)) \<le> 4095" using uint_nonneg [of "clamp12 p"] by simp
  then show ?thesis using length_st_table by linarith
qed

lemma squash_range: "1 \<le> unat (squash x)" "unat (squash x) \<le> 4095"
proof -
  define v where "v = sq ! unat (clamplog x - logit_min)"
  have v: "1 \<le> v" "v \<le> 4095" using sq_probability [OF nth_mem [OF squash_index [of x]]] by (simp_all only: v_def)
  have "uint (squash x) = v" using uint_of_small [of v] v by (simp add: squash_def v_def [symmetric])
  with v show "1 \<le> unat (squash x)" "unat (squash x) \<le> 4095" by (simp_all add: unat_eq_nat_uint le_nat_iff)
qed

end
