(* ===== verification/Werc_Plane.thy ===== *)
theory Werc_Plane
  imports Bits
begin

text \<open>
  Stage 1 of the WEZC codec (\<open>crates/wredit-werc/src\<close>: \<open>element.rs\<close>, \<open>error.rs\<close>, \<open>plane.rs\<close> and the
  plane kernels of \<open>simd.rs\<close>): the array of packed elements is split into byte planes, and planes
  that are zero everywhere are left out. A vector register is the list of its lanes; a kernel that
  would touch memory outside its buffers is \<^const>\<open>None\<close>. Which kernel runs is a property of the
  machine, the parameter \<open>level\<close>.
\<close>

unbundle bit_operations_syntax

section \<open>Errors and elements\<close>

datatype werc_error =
    OutputTooSmall usize usize
  | InputTooShort usize usize
  | NotWezc
  | Unsupported string
  | TruncatedPayload

fun size_hint :: "werc_error \<Rightarrow> usize option" where
  "size_hint (OutputTooSmall needed available) = Some needed"
| "size_hint (InputTooShort needed available) = Some needed"
| "size_hint NotWezc = None"
| "size_hint TruncatedPayload = None"
| "size_hint (Unsupported field) = None"

fun error_label :: "werc_error \<Rightarrow> string" where
  "error_label (OutputTooSmall needed available) = ''output buffer too small''"
| "error_label (InputTooShort needed available) = ''input buffer too short''"
| "error_label NotWezc = ''not a wezc container''"
| "error_label (Unsupported field) = ''unsupported stream parameter''"
| "error_label TruncatedPayload = ''truncated payload''"

definition el_shift_type :: nat where "el_shift_type = 28"
definition el_type_mask :: u32 where "el_type_mask = 0xF"
definition el_char_mask :: u32 where "el_char_mask = 0xFFFFFF"
definition element_bytes :: usize where "element_bytes = 4"

definition pack :: "u32 \<Rightarrow> u32 \<Rightarrow> u32" where
  "pack ch element_type = push_bit el_shift_type (element_type AND el_type_mask) OR (ch AND el_char_mask)"

definition char_of :: "u32 \<Rightarrow> u32" where
  "char_of element = element AND el_char_mask"

definition type_of :: "u32 \<Rightarrow> u32" where
  "type_of element = drop_bit el_shift_type element AND el_type_mask"

definition plane_mask :: "usize \<Rightarrow> u32 option" where
  "plane_mask plane = (if plane \<ge> 4 then None else Some (push_bit (8 * plane) 0xFF))"

section \<open>The scalar loops\<close>

fun write_shifted :: "u32 list \<Rightarrow> u8 list \<Rightarrow> nat \<Rightarrow> u8 list" where
  "write_shifted (e # es) (d # ds) shift = ucast (drop_bit shift e) # write_shifted es ds shift"
| "write_shifted es ds shift = ds"

fun read_shifted :: "u8 list \<Rightarrow> u32 list \<Rightarrow> nat \<Rightarrow> u32 list" where
  "read_shifted (b # bs) (d # ds) shift = (d OR push_bit shift (ucast b)) # read_shifted bs ds shift"
| "read_shifted bs ds shift = ds"

fun assign_shifted :: "u8 list \<Rightarrow> u32 list \<Rightarrow> nat \<Rightarrow> u32 list" where
  "assign_shifted (b # bs) (d # ds) shift = push_bit shift (ucast b) # assign_shifted bs ds shift"
| "assign_shifted bs ds shift = ds"

definition scalar_read :: "bool \<Rightarrow> u8 list \<Rightarrow> u32 list \<Rightarrow> nat \<Rightarrow> u32 list" where
  "scalar_read assign plane out shift = (if assign then assign_shifted plane out shift else read_shifted plane out shift)"

section \<open>The vector kernels\<close>

datatype simd_level = Scalar | Avx2 | Avx512

definition chunk_512 :: usize where "chunk_512 = 16"
definition chunk_256 :: usize where "chunk_256 = 8"

text \<open>Lane-wise meaning of the instructions the kernels use, on little-endian bytes and 32-bit lanes.\<close>

definition shuffle_epi8 :: "u8 list \<Rightarrow> u8 list \<Rightarrow> u8 list" where
  "shuffle_epi8 src table =
     map (\<lambda>i. if bit (table ! i) 7 then 0 else src ! (16 * (i div 16) + unat (table ! i AND 15))) [0..<32]"

definition permutevar8x32 :: "u8 list \<Rightarrow> nat list \<Rightarrow> u8 list" where
  "permutevar8x32 src idx = concat (map (\<lambda>j. take 4 (drop (4 * (j mod 8)) src)) idx)"

definition gather_table :: "usize \<Rightarrow> u8 list" where
  "gather_table plane =
     foldl (\<lambda>table j. table[j := word_of_nat (4 * j + plane), 16 + j := word_of_nat (4 * j + plane)]) (replicate 32 (- 1)) [0..<4]"

definition write_group_avx2 :: "nat \<Rightarrow> u32 list \<Rightarrow> u8 list" where
  "write_group_avx2 shift words =
     (let grouped = shuffle_epi8 (concat (map to_le_bytes words)) (gather_table (shift div 8));
          packed = permutevar8x32 grouped [0, 4, 0, 0, 0, 0, 0, 0]
      in take 8 packed)"

definition write_group_avx512 :: "nat \<Rightarrow> u32 list \<Rightarrow> u8 list" where
  "write_group_avx512 shift words = map (\<lambda>w. ucast (drop_bit shift w)) words"

definition read_group_avx2 :: "nat \<Rightarrow> u8 list \<Rightarrow> u32 list \<Rightarrow> u32 list" where
  "read_group_avx2 shift bytes acc = map2 (\<lambda>a b. a OR push_bit shift (ucast b)) acc bytes"

text \<open>\<open>_mm512_cvtepi8_epi32\<close> extends the sign of a byte.\<close>

definition read_group_avx512 :: "nat \<Rightarrow> u8 list \<Rightarrow> u32 list \<Rightarrow> u32 list" where
  "read_group_avx512 shift bytes acc = map2 (\<lambda>a b. a OR push_bit shift (scast b)) acc bytes"

definition write_chunks :: "usize \<Rightarrow> (u32 list \<Rightarrow> u8 list) \<Rightarrow> u32 list \<Rightarrow> u8 list \<Rightarrow> nat \<Rightarrow> u8 list option" where
  "write_chunks n lanes elements plane shift =
     (let chunks = length elements div n; fin = chunks * n in
      do {
        plane \<leftarrow> foldl (\<lambda>plane c. do {
            plane \<leftarrow> plane;
            words \<leftarrow> mem_read elements (c * n) n;
            mem_write plane (c * n) (lanes words)
          }) (Some plane) [0..<chunks];
        rest \<leftarrow> mem_read plane fin (length plane - fin);
        mem_write plane fin (write_shifted (drop fin elements) rest shift)
      })"

definition read_chunks :: "usize \<Rightarrow> (u8 list \<Rightarrow> u32 list \<Rightarrow> u32 list) \<Rightarrow> u8 list \<Rightarrow> u32 list \<Rightarrow> nat \<Rightarrow> bool \<Rightarrow> u32 list option" where
  "read_chunks n lanes plane out shift assign =
     (let chunks = length plane div n; fin = chunks * n in
      do {
        out \<leftarrow> foldl (\<lambda>out c. do {
            out \<leftarrow> out;
            bytes \<leftarrow> mem_read plane (c * n) n;
            acc \<leftarrow> (if assign then Some (replicate n 0) else mem_read out (c * n) n);
            mem_write out (c * n) (lanes bytes acc)
          }) (Some out) [0..<chunks];
        rest \<leftarrow> mem_read out fin (length out - fin);
        mem_write out fin (scalar_read assign (drop fin plane) rest shift)
      })"

definition plane_shift :: "nat \<Rightarrow> bool" where
  "plane_shift shift \<longleftrightarrow> shift = 0 \<or> shift = 8 \<or> shift = 16 \<or> shift = 24"

definition write_plane_avx512 :: "u32 list \<Rightarrow> u8 list \<Rightarrow> nat \<Rightarrow> u8 list option" where
  "write_plane_avx512 elements plane shift =
     (if plane_shift shift then write_chunks chunk_512 (write_group_avx512 shift) elements plane shift
      else Some (write_shifted elements plane shift))"

definition write_plane_avx2 :: "u32 list \<Rightarrow> u8 list \<Rightarrow> nat \<Rightarrow> u8 list option" where
  "write_plane_avx2 elements plane shift = write_chunks chunk_256 (write_group_avx2 shift) elements plane shift"

definition read_plane_avx512 :: "u8 list \<Rightarrow> u32 list \<Rightarrow> nat \<Rightarrow> bool \<Rightarrow> u32 list option" where
  "read_plane_avx512 plane out shift assign =
     (if plane_shift shift then read_chunks chunk_512 (read_group_avx512 shift) plane out shift assign
      else Some (scalar_read assign plane out shift))"

definition read_plane_avx2 :: "u8 list \<Rightarrow> u32 list \<Rightarrow> nat \<Rightarrow> bool \<Rightarrow> u32 list option" where
  "read_plane_avx2 plane out shift assign =
     (if plane_shift shift then read_chunks chunk_256 (read_group_avx2 shift) plane out shift assign
      else Some (scalar_read assign plane out shift))"

definition write_plane :: "simd_level \<Rightarrow> u32 list \<Rightarrow> u8 list \<Rightarrow> nat \<Rightarrow> u8 list option" where
  "write_plane level elements plane shift =
     (case level of
        Avx512 \<Rightarrow> write_plane_avx512 elements plane shift
      | Avx2 \<Rightarrow> write_plane_avx2 elements plane shift
      | Scalar \<Rightarrow> Some (write_shifted elements plane shift))"

definition read_plane :: "simd_level \<Rightarrow> u8 list \<Rightarrow> u32 list \<Rightarrow> nat \<Rightarrow> bool \<Rightarrow> u32 list option" where
  "read_plane level plane out shift assign =
     (case level of
        Avx512 \<Rightarrow> read_plane_avx512 plane out shift assign
      | Avx2 \<Rightarrow> read_plane_avx2 plane out shift assign
      | Scalar \<Rightarrow> Some (scalar_read assign plane out shift))"

section \<open>Splitting and joining\<close>

definition flag_plane1 :: u8 where "flag_plane1 = 2"
definition flag_plane2 :: u8 where "flag_plane2 = 4"
definition flag_plane3 :: u8 where "flag_plane3 = 8"
definition flags_mask :: u8 where "flags_mask = flag_plane1 OR flag_plane2 OR flag_plane3"

definition presence :: "u32 list \<Rightarrow> u8" where
  "presence elements =
     (let acc = foldl (OR) 0 elements;
          flags = foldl (\<lambda>flags plane.
            if acc AND (case plane_mask plane of Some m \<Rightarrow> m | None \<Rightarrow> 0) \<noteq> 0 then flags OR push_bit plane 1 else flags)
            0 [1..<element_bytes]
      in flags AND flags_mask)"

text \<open>The bits of the counting loop are 1, 2, 4 and 8.\<close>

definition plane_count :: "u8 \<Rightarrow> usize option" where
  "plane_count flags =
     (if flags AND NOT flags_mask \<noteq> 0 then None
      else Some (foldl (\<lambda>count i. if flags AND push_bit i 1 \<noteq> 0 then count + 1 else count) 1 [0..<4]))"

definition checked_mul :: "usize \<Rightarrow> usize \<Rightarrow> usize option" where
  "checked_mul a b = (if a * b \<le> usize_max then Some (a * b) else None)"

definition body_len :: "usize \<Rightarrow> u8 \<Rightarrow> usize option" where
  "body_len count flags = do { planes \<leftarrow> plane_count flags; checked_mul count planes }"

definition write_slice :: "simd_level \<Rightarrow> u32 list \<Rightarrow> u8 list \<Rightarrow> usize \<Rightarrow> nat \<Rightarrow> u8 list option" where
  "write_slice level elements planes cursor shift =
     do { slot \<leftarrow> mem_read planes cursor (length elements);
          slot \<leftarrow> write_plane level elements slot shift;
          mem_write planes cursor slot }"

definition split_plane :: "simd_level \<Rightarrow> u32 list \<Rightarrow> u8 \<Rightarrow> u8 \<Rightarrow> nat \<Rightarrow> usize \<times> u8 list \<Rightarrow> (usize \<times> u8 list) option" where
  "split_plane level elements flags flag shift = (\<lambda>(cursor, planes).
     if flags AND flag \<noteq> 0
     then do { planes \<leftarrow> write_slice level elements planes cursor shift; Some (cursor + length elements, planes) }
     else Some (cursor, planes))"

definition split :: "simd_level \<Rightarrow> u32 list \<Rightarrow> u8 \<Rightarrow> u8 list \<Rightarrow> (werc_error + usize \<times> u8 list) option" where
  "split level elements flags planes =
     (case body_len (length elements) flags of
        None \<Rightarrow> Some (Inl (Unsupported ''flags''))
      | Some needed \<Rightarrow>
          if length planes < needed then Some (Inl (OutputTooSmall needed (length planes)))
          else do {
            planes \<leftarrow> write_slice level elements planes 0 0;
            st \<leftarrow> split_plane level elements flags flag_plane1 8 (length elements, planes);
            st \<leftarrow> split_plane level elements flags flag_plane2 16 st;
            st \<leftarrow> split_plane level elements flags flag_plane3 24 st;
            Some (Inr (needed, snd st)) })"

definition join_plane :: "simd_level \<Rightarrow> u8 list \<Rightarrow> u8 \<Rightarrow> u8 \<Rightarrow> nat \<Rightarrow> usize \<times> u32 list \<Rightarrow> (usize \<times> u32 list) option" where
  "join_plane level planes flags flag shift = (\<lambda>(cursor, out).
     if flags AND flag \<noteq> 0
     then do { slot \<leftarrow> mem_read planes cursor (length out);
               out' \<leftarrow> read_plane level slot out shift False;
               Some (cursor + length out, out') }
     else Some (cursor, out))"

definition join :: "simd_level \<Rightarrow> u8 \<Rightarrow> u8 list \<Rightarrow> u32 list \<Rightarrow> (werc_error + usize \<times> u32 list) option" where
  "join level flags planes out =
     (case body_len (length out) flags of
        None \<Rightarrow> Some (Inl (Unsupported ''flags''))
      | Some needed \<Rightarrow>
          if length planes < needed then Some (Inl (InputTooShort needed (length planes)))
          else do {
            slot \<leftarrow> mem_read planes 0 (length out);
            out' \<leftarrow> read_plane level slot out 0 True;
            st \<leftarrow> join_plane level planes flags flag_plane1 8 (length out, out');
            st \<leftarrow> join_plane level planes flags flag_plane2 16 st;
            st \<leftarrow> join_plane level planes flags flag_plane3 24 st;
            Some (Inr (length out, snd st)) })"

section \<open>Every write kernel computes the scalar loop\<close>

definition plane_byte :: "nat \<Rightarrow> u32 \<Rightarrow> u8" where
  "plane_byte shift e = ucast (drop_bit shift e)"

lemma write_shifted_eq: "length ds = length es \<Longrightarrow> write_shifted es ds shift = map (plane_byte shift) es"
  by (induction es ds shift rule: write_shifted.induct) (simp_all add: plane_byte_def)

lemma mem_write_run:
  "length ys = n \<Longrightarrow> k + n \<le> length zs \<Longrightarrow> k = length xs \<Longrightarrow>
   mem_write (xs @ drop k zs) k ys = Some (xs @ ys @ drop (k + n) zs)"
  by (simp add: mem_write_def add.commute)

lemma write_chunks_eq:
  assumes "length plane = length elements" "\<And>words. length words = n \<Longrightarrow> lanes words = map (plane_byte shift) words"
  shows "write_chunks n lanes elements plane shift = Some (map (plane_byte shift) elements)"
proof -
  let ?f = "plane_byte shift" and ?k = "length elements div n"
  let ?step = "\<lambda>plane c. do { plane \<leftarrow> plane; words \<leftarrow> mem_read elements (c * n) n; mem_write plane (c * n) (lanes words) }"
  have loop: "foldl ?step (Some plane) [0..<c] = Some (map ?f (take (c * n) elements) @ drop (c * n) plane)" if "c \<le> ?k" for c
    using that
  proof (induction c)
    case (Suc c)
    have "Suc c * n \<le> ?k * n" using Suc.prems by (rule mult_le_mono1)
    then have fit: "c * n + n \<le> length elements"
      using le_trans [OF _ div_times_less_eq_dividend [of "length elements" n]] by (simp add: add.commute)
    have rd: "mem_read elements (c * n) n = Some (take n (drop (c * n) elements))" using fit by (simp add: mem_read_def)
    have "mem_write (map ?f (take (c * n) elements) @ drop (c * n) plane) (c * n) (lanes (take n (drop (c * n) elements))) =
        Some (map ?f (take (c * n) elements) @ lanes (take n (drop (c * n) elements)) @ drop (c * n + n) plane)"
      by (rule mem_write_run) (use fit assms in simp_all)
    moreover have "map ?f (take (c * n) elements) @ map ?f (take n (drop (c * n) elements)) = map ?f (take (c * n + n) elements)"
      by (simp add: take_add)
    ultimately show ?case using Suc fit rd assms(2) by (simp add: add.commute)
  qed simp
  let ?d = "?k * n"
  have d: "?d \<le> length elements" by simp
  have rest: "mem_read (map ?f (take ?d elements) @ drop ?d plane) ?d (length plane - ?d) = Some (drop ?d plane)"
    using d assms(1) by (simp add: mem_read_def)
  have "mem_write (map ?f (take ?d elements) @ drop ?d plane) ?d (map ?f (drop ?d elements)) =
      Some (map ?f (take ?d elements) @ map ?f (drop ?d elements) @ drop (?d + (length elements - ?d)) plane)"
    by (rule mem_write_run) (use d assms(1) in simp_all)
  also have "\<dots> = Some (map ?f elements)" using assms(1) by (simp flip: map_append)
  finally show ?thesis
    using loop [of ?k] rest assms(1) d by (simp add: write_chunks_def Let_def write_shifted_eq)
qed

lemma plane_byte_le: "shift = 8 * k \<Longrightarrow> k < 4 \<Longrightarrow> plane_byte shift w = to_le_bytes w ! k"
  by (simp add: plane_byte_def to_le_bytes_def)

lemma nth_concat_four:
  "(\<And>x. x \<in> set xs \<Longrightarrow> length (f x) = 4) \<Longrightarrow> j < length xs \<Longrightarrow> r < 4 \<Longrightarrow> concat (map f xs) ! (4 * j + r) = f (xs ! j) ! r"
proof (induction xs arbitrary: j)
  case (Cons x xs)
  then show ?case by (cases j) (simp_all add: nth_append)
qed simp

lemma gather_nth:
  assumes "j < 4"
  shows "gather_table k ! j = word_of_nat (4 * j + k)" "gather_table k ! (16 + j) = word_of_nat (4 * j + k)"
proof -
  have ix: "[0..<4] = [0, 1, 2, 3 :: nat]" by (simp add: upt_rec)
  have j: "j = 0 \<or> j = 1 \<or> j = 2 \<or> j = 3" using assms by auto
  show "gather_table k ! j = word_of_nat (4 * j + k)" "gather_table k ! (16 + j) = word_of_nat (4 * j + k)"
    using j by (auto simp: gather_table_def ix nth_list_update)
qed

lemma gather_index:
  assumes "j < 4" "k < 4"
  shows "\<not> bit (word_of_nat (4 * j + k) :: u8) 7" "unat (word_of_nat (4 * j + k) AND 15 :: u8) = 4 * j + k"
proof -
  have small: "4 * j + k < 16" using assms by simp
  have w: "unat (word_of_nat (4 * j + k) :: u8) = 4 * j + k"
    using small by (simp add: unsigned_of_nat take_bit_nat_eq_self_iff del: of_nat_add of_nat_mult)
  show "\<not> bit (word_of_nat (4 * j + k) :: u8) 7"
    using small w by (intro not_bit_small) simp
  have "word_of_nat (4 * j + k) AND (15 :: u8) = take_bit 4 (word_of_nat (4 * j + k))"
    by (simp add: take_bit_eq_mask mask_eq_exp_minus_1)
  then show "unat (word_of_nat (4 * j + k) AND 15 :: u8) = 4 * j + k"
    using small w by (simp add: unsigned_take_bit_eq take_bit_nat_eq_self_iff)
qed

lemma write_group_avx2_eq:
  assumes "length words = 8" "plane_shift shift"
  shows "write_group_avx2 shift words = map (plane_byte shift) words"
proof -
  let ?k = "shift div 8" and ?src = "concat (map to_le_bytes words)"
  have k: "shift = 8 * ?k" "?k < 4" using assms(2) by (auto simp: plane_shift_def)
  let ?g = "shuffle_epi8 ?src (gather_table ?k)"
  have src: "?src ! (4 * m + ?k) = plane_byte shift (words ! m)" if "m < 8" for m
    using nth_concat_four [of words to_le_bytes m ?k] that assms(1) k(2) plane_byte_le [OF k] by simp
  have at: "?g ! j = plane_byte shift (words ! j)" "?g ! (16 + j) = plane_byte shift (words ! (4 + j))" if "j < 4" for j
  proof -
    have "(16 + j) div 16 = 1" using that by simp
    then have "?g ! j = ?src ! (4 * j + ?k)" "?g ! (16 + j) = ?src ! (4 * (4 + j) + ?k)"
      using that gather_nth [OF that, of ?k] gather_index [OF that k(2)] by (simp_all add: shuffle_epi8_def add.assoc)
    then show "?g ! j = plane_byte shift (words ! j)" "?g ! (16 + j) = plane_byte shift (words ! (4 + j))"
      using src [of j] src [of "4 + j"] that by simp_all
  qed
  have len: "length ?g = 32" by (simp add: shuffle_epi8_def)
  have "take 4 ?g = map (plane_byte shift) (take 4 words)"
    by (rule nth_equalityI) (use len assms(1) at(1) in auto)
  moreover have "take 4 (drop 16 ?g) = map (plane_byte shift) (drop 4 words)"
    by (rule nth_equalityI) (use len assms(1) at(2) in auto)
  moreover have "take 8 (permutevar8x32 ?g [0, 4, 0, 0, 0, 0, 0, 0]) = take 4 ?g @ take 4 (drop 16 ?g)"
    using len by (simp add: permutevar8x32_def)
  ultimately show ?thesis
    unfolding write_group_avx2_def Let_def by (simp flip: map_append)
qed

lemma write_plane_eq:
  assumes "length plane = length elements" "plane_shift shift"
  shows "write_plane level elements plane shift = Some (map (plane_byte shift) elements)"
proof (cases level)
  case Avx2
  then show ?thesis using assms write_chunks_eq [OF assms(1)] write_group_avx2_eq
    by (simp add: write_plane_def write_plane_avx2_def chunk_256_def)
next
  case Avx512
  have "write_chunks chunk_512 (write_group_avx512 shift) elements plane shift = Some (map (plane_byte shift) elements)"
    by (rule write_chunks_eq [OF assms(1)]) (simp add: write_group_avx512_def plane_byte_def fun_eq_iff)
  with Avx512 assms show ?thesis by (simp add: write_plane_def write_plane_avx512_def)
qed (use assms in \<open>simp add: write_plane_def write_shifted_eq\<close>)

section \<open>The read kernels\<close>

definition join_byte :: "bool \<Rightarrow> nat \<Rightarrow> u8 \<Rightarrow> u32 \<Rightarrow> u32" where
  "join_byte assign shift b d = (if assign then 0 else d) OR push_bit shift (ucast b)"

lemma scalar_read_eq: "length plane = length out \<Longrightarrow> scalar_read assign plane out shift = map2 (join_byte assign shift) plane out"
proof (induction plane out rule: list_induct2)
  case (Cons b bs d ds)
  then show ?case by (cases assign) (simp_all add: scalar_read_def join_byte_def)
qed (simp add: scalar_read_def)

lemma read_chunks_eq:
  assumes "length plane = length out"
    "\<And>bytes acc. length bytes = n \<Longrightarrow> length acc = n \<Longrightarrow> lanes bytes acc = map2 (\<lambda>a b. a OR push_bit shift (ucast b)) acc bytes"
  shows "read_chunks n lanes plane out shift assign = Some (map2 (join_byte assign shift) plane out)"
proof -
  let ?f = "map2 (join_byte assign shift)" and ?k = "length plane div n"
  let ?step = "\<lambda>out c. do { out \<leftarrow> out; bytes \<leftarrow> mem_read plane (c * n) n;
    acc \<leftarrow> (if assign then Some (replicate n 0) else mem_read out (c * n) n); mem_write out (c * n) (lanes bytes acc) }"
  have loop: "foldl ?step (Some out) [0..<c] = Some (?f (take (c * n) plane) (take (c * n) out) @ drop (c * n) out)" if "c \<le> ?k" for c
    using that
  proof (induction c)
    case (Suc c)
    have "Suc c * n \<le> ?k * n" using Suc.prems by (rule mult_le_mono1)
    then have fit: "c * n + n \<le> length plane"
      using le_trans [OF _ div_times_less_eq_dividend [of "length plane" n]] by (simp add: add.commute)
    let ?pre = "?f (take (c * n) plane) (take (c * n) out)" and ?b = "take n (drop (c * n) plane)" and ?a = "take n (drop (c * n) out)"
    have rd: "mem_read plane (c * n) n = Some ?b" "mem_read (?pre @ drop (c * n) out) (c * n) n = Some ?a"
      using fit assms(1) by (simp_all add: mem_read_def)
    have ba: "length ?b = n" "length ?a = n" using fit assms(1) by simp_all
    have gen: "map2 (\<lambda>a b. a OR push_bit shift (ucast b)) (replicate (length as) 0) bs = map2 (join_byte True shift) bs as"
      "map2 (\<lambda>a b. a OR push_bit shift (ucast b)) as bs = map2 (join_byte False shift) bs as" if "length as = length bs" for as bs
      using that by (induction as bs rule: list_induct2) (simp_all add: join_byte_def)
    have kern: "lanes ?b (if assign then replicate n 0 else ?a) = ?f ?b ?a"
      using assms(2) [OF ba(1), of "if assign then replicate n 0 else ?a"] gen [of ?a ?b] ba by (cases assign) simp_all
    have "mem_write (?pre @ drop (c * n) out) (c * n) (?f ?b ?a) = Some (?pre @ ?f ?b ?a @ drop (c * n + n) out)"
      by (rule mem_write_run) (use fit assms(1) ba in simp_all)
    moreover have "?pre @ ?f ?b ?a = ?f (take (c * n + n) plane) (take (c * n + n) out)"
      using fit assms(1) by (simp add: take_add zip_append)
    ultimately show ?case using Suc rd kern by (cases assign) (simp_all add: add.commute)
  qed simp
  let ?d = "?k * n" and ?pre = "?f (take (?k * n) plane) (take (?k * n) out)"
  have d: "?d \<le> length plane" by simp
  have rest: "mem_read (?pre @ drop ?d out) ?d (length out - ?d) = Some (drop ?d out)"
    using d assms(1) by (simp add: mem_read_def)
  have "mem_write (?pre @ drop ?d out) ?d (?f (drop ?d plane) (drop ?d out)) =
      Some (?pre @ ?f (drop ?d plane) (drop ?d out) @ drop (?d + (length out - ?d)) out)"
    by (rule mem_write_run) (use d assms(1) in simp_all)
  also have "\<dots> = Some (?f plane out)" using assms(1) d by (simp flip: map_append add: zip_append [symmetric])
  finally show ?thesis
    using loop [of ?k] rest assms(1) d by (simp add: read_chunks_def Let_def scalar_read_eq)
qed

lemma read_plane_eq:
  assumes "length plane = length out" "plane_shift shift" "level \<noteq> Avx512"
  shows "read_plane level plane out shift assign = Some (map2 (join_byte assign shift) plane out)"
proof (cases level)
  case Avx2
  have "read_chunks chunk_256 (read_group_avx2 shift) plane out shift assign = Some (map2 (join_byte assign shift) plane out)"
    by (rule read_chunks_eq [OF assms(1)]) (simp add: read_group_avx2_def)
  with Avx2 assms(2) show ?thesis by (simp add: read_plane_def read_plane_avx2_def)
qed (use assms in \<open>simp_all add: read_plane_def scalar_read_eq\<close>)

section \<open>Joining what was split\<close>

text \<open>The planes a stream carries, and the element that a byte of each plane makes up.\<close>

definition plane_shifts :: "u8 \<Rightarrow> nat list" where
  "plane_shifts flags = 0 # filter (\<lambda>shift. bit flags (shift div 8)) [8, 16, 24]"

definition plane_bytes :: "u32 list \<Rightarrow> u8 \<Rightarrow> u8 list" where
  "plane_bytes elements flags = concat (map (\<lambda>shift. map (plane_byte shift) elements) (plane_shifts flags))"

lemma flag_bits: "flags AND flag_plane1 \<noteq> 0 \<longleftrightarrow> bit flags 1" "flags AND flag_plane2 \<noteq> 0 \<longleftrightarrow> bit flags 2"
  "flags AND flag_plane3 \<noteq> 0 \<longleftrightarrow> bit flags 3" "flags AND push_bit i 1 \<noteq> 0 \<longleftrightarrow> i < 8 \<and> bit (flags :: u8) i"
proof -
  have g: "flags AND push_bit i 1 \<noteq> 0 \<longleftrightarrow> i < 8 \<and> bit flags i" for i
    unfolding word_nonzero_bit bit_and_iff bit_push_bit_iff bit_1_iff by (auto dest: bit_imp_le_length)
  show "flags AND push_bit i 1 \<noteq> 0 \<longleftrightarrow> i < 8 \<and> bit flags i" by (rule g)
  have "flag_plane1 = push_bit 1 1" "flag_plane2 = push_bit 2 1" "flag_plane3 = push_bit 3 1"
    by (simp_all add: flag_plane1_def flag_plane2_def flag_plane3_def push_bit_eq_mult)
  then show "flags AND flag_plane1 \<noteq> 0 \<longleftrightarrow> bit flags 1" "flags AND flag_plane2 \<noteq> 0 \<longleftrightarrow> bit flags 2"
    "flags AND flag_plane3 \<noteq> 0 \<longleftrightarrow> bit flags 3" using g [of 1] g [of 2] g [of 3] by (simp_all only:) auto
qed

lemma bit_flags_mask: "bit flags_mask i \<longleftrightarrow> i = 1 \<or> i = 2 \<or> i = 3"
proof -
  have eq: "flags_mask = push_bit 1 1 OR push_bit 2 1 OR push_bit 3 1"
    by (simp add: flags_mask_def flag_plane1_def flag_plane2_def flag_plane3_def push_bit_eq_mult)
  show ?thesis unfolding eq bit_or_iff bit_push_bit_iff bit_1_iff by auto
qed

lemma bit_foldl_or: "bit (foldl (OR) a es) i \<longleftrightarrow> bit a i \<or> (\<exists>e \<in> set es. bit (e :: u32) i)"
  by (induction es arbitrary: a) (auto simp: bit_or_iff)

lemma bit_presence:
  "bit (presence elements) k \<longleftrightarrow> k \<in> {1, 2, 3} \<and> (\<exists>e \<in> set elements. plane_byte (8 * k) e \<noteq> 0)"
proof -
  let ?acc = "foldl (OR) 0 elements :: u32"
  have hit: "?acc AND push_bit (8 * k) 0xFF \<noteq> 0 \<longleftrightarrow> (\<exists>e \<in> set elements. plane_byte (8 * k) e \<noteq> 0)" if "k < 4" for k
  proof -
    have ff: "(0xFF :: u32) = mask 8" by (simp add: mask_eq_exp_minus_1)
    have "?acc AND push_bit (8 * k) 0xFF \<noteq> 0 \<longleftrightarrow> (\<exists>i < 8. bit ?acc (8 * k + i))"
    proof
      assume "?acc AND push_bit (8 * k) 0xFF \<noteq> 0"
      then obtain n where "n < 32" "bit ?acc n" "8 * k \<le> n" "n - 8 * k < 8"
        unfolding word_nonzero_bit ff bit_and_iff bit_push_bit_iff bit_mask_iff by auto
      then show "\<exists>i < 8. bit ?acc (8 * k + i)" by (intro exI [of _ "n - 8 * k"]) simp
    next
      assume "\<exists>i < 8. bit ?acc (8 * k + i)"
      then obtain i where "i < 8" "bit ?acc (8 * k + i)" by blast
      then show "?acc AND push_bit (8 * k) 0xFF \<noteq> 0"
        unfolding word_nonzero_bit ff bit_and_iff bit_push_bit_iff bit_mask_iff
        using that by (intro exI [of _ "8 * k + i"]) simp
    qed
    also have "\<dots> \<longleftrightarrow> (\<exists>e \<in> set elements. \<exists>i < 8. bit e (8 * k + i))" by (auto simp: bit_foldl_or)
    also have "\<dots> \<longleftrightarrow> (\<exists>e \<in> set elements. plane_byte (8 * k) e \<noteq> 0)"
      using that unfolding plane_byte_def word_nonzero_bit by (auto simp: bit_ucast_iff bit_drop_bit_eq)
    finally show ?thesis .
  qed
  have ix: "[1..<element_bytes] = [1, 2, 3]" by (simp add: element_bytes_def upt_rec)
  have pm: "plane_mask 1 = Some (push_bit (8 * 1) 0xFF)" "plane_mask 2 = Some (push_bit (8 * 2) 0xFF)" "plane_mask 3 = Some (push_bit (8 * 3) 0xFF)"
    by (simp_all add: plane_mask_def)
  show ?thesis
    unfolding presence_def Let_def ix foldl.simps pm option.case
    using hit [of 1] hit [of 2] hit [of 3]
    by (auto simp: bit_and_iff bit_flags_mask bit_or_iff bit_push_bit_iff bit_1_iff)
qed

lemma write_slice_run:
  assumes "plane_shift shift" "k = length xs" "k + length elements \<le> length zs"
  shows "write_slice level elements (xs @ drop k zs) k shift =
    Some (xs @ map (plane_byte shift) elements @ drop (k + length elements) zs)"
proof -
  have "mem_read (xs @ drop k zs) k (length elements) = Some (take (length elements) (drop k zs))"
    using assms(2,3) by (simp add: mem_read_def)
  moreover have "write_plane level elements (take (length elements) (drop k zs)) shift = Some (map (plane_byte shift) elements)"
    using assms by (intro write_plane_eq) simp_all
  ultimately show ?thesis
    using mem_write_run [OF _ assms(3,2), of "map (plane_byte shift) elements"] by (simp add: write_slice_def)
qed

lemma plane_count_eq:
  "plane_count flags = (if flags AND NOT flags_mask \<noteq> 0 then None else Some (length (plane_shifts flags)))"
proof -
  have ix: "[0..<4] = [0, 1, 2, 3 :: nat]" by (simp add: upt_rec)
  have "\<not> bit flags 0" if "flags AND NOT flags_mask = 0"
  proof
    assume "bit flags 0"
    then have "bit (flags AND NOT flags_mask) 0" by (simp add: bit_and_iff bit_not_iff bit_flags_mask)
    with that show False by simp
  qed
  then show ?thesis
    unfolding plane_count_def ix foldl.simps flag_bits(4) by (simp add: plane_shifts_def)
qed

lemma presence_flags: "presence elements AND NOT flags_mask = 0"
proof (rule bit_word_eqI)
  fix i
  show "bit (presence elements AND NOT flags_mask) i = bit (0 :: u8) i"
    by (auto simp: bit_and_iff bit_not_iff bit_flags_mask bit_presence)
qed

lemma length_plane_shifts: "1 \<le> length (plane_shifts flags)" "length (plane_shifts flags) \<le> 4"
  by (simp_all add: plane_shifts_def)

lemma length_plane_bytes: "length (plane_bytes elements flags) = length elements * length (plane_shifts flags)"
  by (simp add: plane_bytes_def length_concat comp_def sum_list_triv)

lemma body_len_eq:
  "flags AND NOT flags_mask = 0 \<Longrightarrow> count * 4 \<le> usize_max \<Longrightarrow> body_len count flags = Some (count * length (plane_shifts flags))"
  using le_trans [OF mult_le_mono2 [OF length_plane_shifts(2) [of flags], of count]]
  by (simp add: body_len_def plane_count_eq checked_mul_def)

text \<open>One optional plane, written behind what is there and read from where it stands.\<close>

definition optional_plane :: "u32 list \<Rightarrow> u8 \<Rightarrow> nat \<Rightarrow> u8 list" where
  "optional_plane elements flags k = (if bit flags k then map (plane_byte (8 * k)) elements else [])"

lemma plane_bytes_eq:
  "plane_bytes elements flags =
     map (plane_byte 0) elements @ optional_plane elements flags 1 @ optional_plane elements flags 2 @ optional_plane elements flags 3"
  by (simp add: plane_bytes_def plane_shifts_def optional_plane_def)

lemma split_plane_run:
  assumes "flags AND flag \<noteq> 0 \<longleftrightarrow> bit flags k" "k < 4" "length xs + length (optional_plane elements flags k) \<le> length zs"
  shows "split_plane level elements flags flag (8 * k) (length xs, xs @ drop (length xs) zs) =
    Some (length (xs @ optional_plane elements flags k),
      (xs @ optional_plane elements flags k) @ drop (length (xs @ optional_plane elements flags k)) zs)"
proof (cases "bit flags k")
  case True
  have "plane_shift (8 * k)" using assms(2) by (auto simp: plane_shift_def)
  from write_slice_run [OF this refl, of xs elements zs level] show ?thesis
    using True assms(1,3) by (simp add: split_plane_def optional_plane_def)
next
  case False
  then show ?thesis using assms(1) by (simp add: split_plane_def optional_plane_def)
qed

lemma split_run:
  assumes "flags AND NOT flags_mask = 0" "length elements * 4 \<le> usize_max"
    "length planes = length elements * length (plane_shifts flags)"
  shows "split level elements flags planes = Some (Inr (length planes, plane_bytes elements flags))"
proof -
  let ?p = "map (plane_byte 0) elements" and ?o = "optional_plane elements flags"
  have total: "length planes = length (?p @ ?o 1 @ ?o 2 @ ?o 3)"
    using assms(3) length_plane_bytes [of elements flags] by (simp only: plane_bytes_eq)
  have 0: "write_slice level elements planes 0 0 = Some (?p @ drop (length ?p) planes)"
    using write_slice_run [of 0 0 "[]" elements planes level] total by (simp add: plane_shift_def)
  have 1: "split_plane level elements flags flag_plane1 (8 * 1) (length ?p, ?p @ drop (length ?p) planes) =
      Some (length (?p @ ?o 1), (?p @ ?o 1) @ drop (length (?p @ ?o 1)) planes)"
    by (rule split_plane_run) (use total flag_bits in simp_all)
  have 2: "split_plane level elements flags flag_plane2 (8 * 2) (length (?p @ ?o 1), (?p @ ?o 1) @ drop (length (?p @ ?o 1)) planes) =
      Some (length ((?p @ ?o 1) @ ?o 2), ((?p @ ?o 1) @ ?o 2) @ drop (length ((?p @ ?o 1) @ ?o 2)) planes)"
    by (rule split_plane_run) (use total flag_bits in simp_all)
  have 3: "split_plane level elements flags flag_plane3 (8 * 3)
      (length ((?p @ ?o 1) @ ?o 2), ((?p @ ?o 1) @ ?o 2) @ drop (length ((?p @ ?o 1) @ ?o 2)) planes) =
      Some (length (((?p @ ?o 1) @ ?o 2) @ ?o 3), (((?p @ ?o 1) @ ?o 2) @ ?o 3) @ drop (length (((?p @ ?o 1) @ ?o 2) @ ?o 3)) planes)"
    by (rule split_plane_run) (use total flag_bits in simp_all)
  show ?thesis
    using body_len_eq [OF assms(1,2)] assms(3) 0 1 2 3 total by (simp add: split_def plane_bytes_eq)
qed

text \<open>The bytes of an element, put back in their place.\<close>

definition part :: "nat \<Rightarrow> u32 \<Rightarrow> u32" where
  "part k e = push_bit (8 * k) (ucast (plane_byte (8 * k) e))"

definition optional_part :: "u8 \<Rightarrow> nat \<Rightarrow> u32 \<Rightarrow> u32" where
  "optional_part flags k e = (if bit flags k then part k e else 0)"

lemma parts_or: "part 0 e OR part 1 e OR part 2 e OR part 3 e = e"
proof (rule bit_word_eqI)
  fix i assume i: "i < LENGTH(32)"
  have b: "bit (part k e) i \<longleftrightarrow> 8 * k \<le> i \<and> i < 8 * k + 8 \<and> bit e i" for k
    using i by (auto simp: part_def plane_byte_def bit_push_bit_iff bit_ucast_iff bit_drop_bit_eq)
  have "i < 8 \<or> 8 \<le> i \<and> i < 16 \<or> 16 \<le> i \<and> i < 24 \<or> 24 \<le> i \<and> i < 32" using i by auto
  then show "bit (part 0 e OR part 1 e OR part 2 e OR part 3 e) i = bit e i" by (auto simp: bit_or_iff b)
qed

lemma presence_part:
  assumes "e \<in> set elements" "k \<in> {1, 2, 3}"
  shows "optional_part (presence elements) k e = part k e"
  using assms by (auto simp: optional_part_def bit_presence part_def)

lemma join_plane_run:
  assumes "flags AND flag \<noteq> 0 \<longleftrightarrow> bit flags k" "k < 4" "planes = xs @ optional_plane elements flags k @ ys" "level \<noteq> Avx512"
  shows "join_plane level planes flags flag (8 * k) (length xs, map h elements) =
    Some (length (xs @ optional_plane elements flags k), map (\<lambda>e. h e OR optional_part flags k e) elements)"
proof (cases "bit flags k")
  case True
  have sh: "plane_shift (8 * k)" using assms(2) by (auto simp: plane_shift_def)
  let ?p = "map (plane_byte (8 * k)) elements"
  have "mem_read planes (length xs) (length (map h elements)) = Some ?p"
    using assms(3) True by (simp add: mem_read_def optional_plane_def)
  moreover have "read_plane level ?p (map h elements) (8 * k) False = Some (map2 (join_byte False (8 * k)) ?p (map h elements))"
    by (rule read_plane_eq [OF _ sh assms(4)]) simp
  moreover have "map2 (join_byte False (8 * k)) ?p (map h elements) = map (\<lambda>e. h e OR optional_part flags k e) elements"
    using True by (induction elements) (simp_all add: join_byte_def optional_part_def part_def)
  ultimately show ?thesis using True assms(1) by (simp add: join_plane_def optional_plane_def)
next
  case False
  then show ?thesis using assms(1) by (simp add: join_plane_def optional_plane_def optional_part_def)
qed

lemma join_run:
  assumes "length out = length elements" "length elements * 4 \<le> usize_max" "level \<noteq> Avx512"
  shows "join level (presence elements) (plane_bytes elements (presence elements)) out = Some (Inr (length elements, elements))"
proof -
  let ?f = "presence elements" let ?p = "map (plane_byte 0) elements" and ?o = "optional_plane elements ?f" and ?planes = "plane_bytes elements ?f"
  have rd: "mem_read ?planes 0 (length out) = Some ?p" using assms(1) by (simp add: mem_read_def plane_bytes_eq)
  have "read_plane level ?p out 0 True = Some (map2 (join_byte True 0) ?p out)"
    by (rule read_plane_eq) (use assms in \<open>simp_all add: plane_shift_def\<close>)
  moreover have "map2 (join_byte True 0) ?p out = map (part 0) elements"
    using assms(1) [symmetric] by (induction elements out rule: list_induct2) (simp_all add: join_byte_def part_def)
  ultimately have 0: "read_plane level ?p out 0 True = Some (map (part 0) elements)" by simp
  have 1: "join_plane level ?planes ?f flag_plane1 (8 * 1) (length ?p, map (part 0) elements) =
      Some (length (?p @ ?o 1), map (\<lambda>e. part 0 e OR optional_part ?f 1 e) elements)"
    by (rule join_plane_run [where ys = "?o 2 @ ?o 3"]) (use flag_bits assms(3) in \<open>simp_all add: plane_bytes_eq\<close>)
  have 2: "join_plane level ?planes ?f flag_plane2 (8 * 2) (length (?p @ ?o 1), map (\<lambda>e. part 0 e OR optional_part ?f 1 e) elements) =
      Some (length ((?p @ ?o 1) @ ?o 2), map (\<lambda>e. (part 0 e OR optional_part ?f 1 e) OR optional_part ?f 2 e) elements)"
    by (rule join_plane_run [where ys = "?o 3"]) (use flag_bits assms(3) in \<open>simp_all add: plane_bytes_eq\<close>)
  have 3: "join_plane level ?planes ?f flag_plane3 (8 * 3)
      (length ((?p @ ?o 1) @ ?o 2), map (\<lambda>e. (part 0 e OR optional_part ?f 1 e) OR optional_part ?f 2 e) elements) =
      Some (length (((?p @ ?o 1) @ ?o 2) @ ?o 3),
        map (\<lambda>e. ((part 0 e OR optional_part ?f 1 e) OR optional_part ?f 2 e) OR optional_part ?f 3 e) elements)"
    by (rule join_plane_run [where ys = "[]"]) (use flag_bits assms(3) in \<open>simp_all add: plane_bytes_eq\<close>)
  have "map (\<lambda>e. ((part 0 e OR optional_part ?f 1 e) OR optional_part ?f 2 e) OR optional_part ?f 3 e) elements = map (\<lambda>e. e) elements"
    by (rule map_cong [OF refl]) (use parts_or in \<open>simp add: presence_part or.assoc\<close>)
  moreover have "body_len (length out) ?f = Some (length ?planes)"
    using body_len_eq [OF presence_flags assms(2)] assms(1) length_plane_bytes by simp
  ultimately show ?thesis using rd 0 1 2 3 assms(1) by (simp add: join_def)
qed

section \<open>Joining any planes\<close>

text \<open>Whatever the bytes of the planes and whichever the kernel, a join stays inside its buffers.\<close>

lemma mem_write_fits: "i + length v \<le> length m \<Longrightarrow> \<exists>m'. mem_write m i v = Some m' \<and> length m' = length m"
  by (simp add: mem_write_def)

lemma length_scalar_read: "length plane = length out \<Longrightarrow> length (scalar_read assign plane out shift) = length out"
  by (simp add: scalar_read_eq)

lemma read_chunks_total:
  assumes "length plane = length out" "\<And>bytes acc. length bytes = n \<Longrightarrow> length acc = n \<Longrightarrow> length (lanes bytes acc) = n"
  shows "\<exists>out'. read_chunks n lanes plane out shift assign = Some out' \<and> length out' = length out"
proof -
  let ?k = "length plane div n"
  let ?step = "\<lambda>out c. do { out \<leftarrow> out; bytes \<leftarrow> mem_read plane (c * n) n;
    acc \<leftarrow> (if assign then Some (replicate n 0) else mem_read out (c * n) n); mem_write out (c * n) (lanes bytes acc) }"
  have loop: "\<exists>out'. foldl ?step (Some out) [0..<c] = Some out' \<and> length out' = length out" if "c \<le> ?k" for c
    using that
  proof (induction c)
    case (Suc c)
    then obtain o1 where o1: "foldl ?step (Some out) [0..<c] = Some o1" "length o1 = length out" by auto
    have "Suc c * n \<le> ?k * n" using Suc.prems by (rule mult_le_mono1)
    then have fit: "c * n + n \<le> length plane"
      using le_trans [OF _ div_times_less_eq_dividend [of "length plane" n]] by (simp add: add.commute)
    let ?b = "take n (drop (c * n) plane)" and ?a = "if assign then replicate n 0 else take n (drop (c * n) o1)"
    have "length (lanes ?b ?a) = n" using fit assms(1) o1(2) by (intro assms(2)) simp_all
    then have "\<exists>o2. mem_write o1 (c * n) (lanes ?b ?a) = Some o2 \<and> length o2 = length o1"
      using fit assms(1) o1(2) by (intro mem_write_fits) simp
    then show ?case using o1 fit assms(1) by (cases assign) (simp_all add: mem_read_def)
  qed simp
  from loop [of ?k] obtain o1 where o1: "foldl ?step (Some out) [0..<?k] = Some o1" "length o1 = length out" by auto
  have "?k * n \<le> length plane" by simp
  then have "\<exists>o2. mem_write o1 (?k * n) (scalar_read assign (drop (?k * n) plane) (drop (?k * n) o1) shift) = Some o2 \<and> length o2 = length o1"
    using o1(2) assms(1) by (intro mem_write_fits) (simp add: length_scalar_read)
  then show ?thesis using o1 assms(1) by (simp add: read_chunks_def Let_def mem_read_def)
qed

lemma read_plane_total:
  assumes "length plane = length out"
  shows "\<exists>out'. read_plane level plane out shift assign = Some out' \<and> length out' = length out"
proof -
  have "\<exists>out'. read_chunks chunk_512 (read_group_avx512 shift) plane out shift assign = Some out' \<and> length out' = length out"
    "\<exists>out'. read_chunks chunk_256 (read_group_avx2 shift) plane out shift assign = Some out' \<and> length out' = length out"
    by (rule read_chunks_total [OF assms]; simp add: read_group_avx512_def read_group_avx2_def)+
  then show ?thesis
    using assms by (cases level) (simp_all add: read_plane_def read_plane_avx512_def read_plane_avx2_def length_scalar_read)
qed

lemma join_plane_total:
  assumes "cursor + length out * of_bool (flags AND flag \<noteq> 0) \<le> length planes"
  shows "\<exists>out'. join_plane level planes flags flag shift (cursor, out) =
    Some (cursor + length out * of_bool (flags AND flag \<noteq> 0), out') \<and> length out' = length out"
proof (cases "flags AND flag = 0")
  case False
  then have "cursor + length out \<le> length planes" using assms by simp
  then have "mem_read planes cursor (length out) = Some (take (length out) (drop cursor planes))" "length (take (length out) (drop cursor planes)) = length out"
    by (simp_all add: mem_read_def)
  with False read_plane_total [of "take (length out) (drop cursor planes)" out level shift False] show ?thesis
    by (auto simp: join_plane_def)
qed (simp add: join_plane_def)

lemma join_total:
  assumes "body_len (length out) flags = Some (length planes)"
  shows "\<exists>out'. join level flags planes out = Some (Inr (length out, out')) \<and> length out' = length out"
proof -
  let ?l = "length out" and ?o = "\<lambda>flag. length out * of_bool (flags AND flag \<noteq> 0)"
  have n: "length planes = ?l * length (plane_shifts flags)"
    using assms by (simp add: body_len_def checked_mul_def plane_count_eq split: if_splits)
  have total: "length planes = ?l + ?o flag_plane1 + ?o flag_plane2 + ?o flag_plane3"
    unfolding n plane_shifts_def flag_bits by (simp add: algebra_simps)
  have "mem_read planes 0 ?l = Some (take ?l planes)" "length (take ?l planes) = ?l" using total by (simp_all add: mem_read_def)
  moreover from read_plane_total [of "take ?l planes" out level 0 True] this(2) obtain o1 where
    1: "read_plane level (take ?l planes) out 0 True = Some o1" "length o1 = ?l" by auto
  moreover from join_plane_total [of ?l o1 flags flag_plane1 planes level 8] 1(2) total obtain o2 where
    2: "join_plane level planes flags flag_plane1 8 (?l, o1) = Some (?l + ?o flag_plane1, o2)" "length o2 = ?l" by auto
  moreover from join_plane_total [of "?l + ?o flag_plane1" o2 flags flag_plane2 planes level 16] 2(2) total obtain o3 where
    3: "join_plane level planes flags flag_plane2 16 (?l + ?o flag_plane1, o2) = Some (?l + ?o flag_plane1 + ?o flag_plane2, o3)" "length o3 = ?l" by auto
  moreover from join_plane_total [of "?l + ?o flag_plane1 + ?o flag_plane2" o3 flags flag_plane3 planes level 24] 3(2) total obtain o4 where
    4: "join_plane level planes flags flag_plane3 24 (?l + ?o flag_plane1 + ?o flag_plane2, o3) =
      Some (?l + ?o flag_plane1 + ?o flag_plane2 + ?o flag_plane3, o4)" "length o4 = ?l" by auto
  ultimately show ?thesis using assms by (simp add: join_def)
qed

section \<open>Properties\<close>



lemma accent_planes:
  "presence (replicate 16 0xE00000E9) = 8" "plane_bytes (replicate 16 0xE00000E9) 8 = replicate 16 0xE9 @ replicate 16 0xE0"
proof -
  have pb: "plane_byte 0 0xE00000E9 = 0xE9" "plane_byte 8 0xE00000E9 = 0" "plane_byte 16 0xE00000E9 = 0" "plane_byte 24 0xE00000E9 = 0xE0"
    by code_simp+
  have bits: "bit (8 :: u8) k \<longleftrightarrow> k = 3" for k
    using bit_push_bit_iff [of 3 "1 :: u8" k] by (auto simp: push_bit_eq_mult bit_1_iff)
  show "presence (replicate 16 0xE00000E9) = 8"
  proof (rule bit_word_eqI)
    fix i assume "i < LENGTH(8)"
    have "i = 1 \<Longrightarrow> plane_byte (8 * i) 0xE00000E9 = 0" "i = 2 \<Longrightarrow> plane_byte (8 * i) 0xE00000E9 = 0"
      "i = 3 \<Longrightarrow> plane_byte (8 * i) 0xE00000E9 \<noteq> 0" using pb by simp_all
    then show "bit (presence (replicate 16 0xE00000E9)) i = bit (8 :: u8) i" unfolding bit_presence bits by auto
  qed
  show "plane_bytes (replicate 16 0xE00000E9) 8 = replicate 16 0xE9 @ replicate 16 0xE0"
    unfolding plane_bytes_eq optional_plane_def bits map_replicate pb by (simp add: pb)
qed

text \<open>
  C33: The AVX-512 kernel does not join what was split: sixteen elements with the character 0xE9
  come back different, because it extends the sign of the plane bytes.
\<close>

theorem avx512_join_corrupts:
  "\<exists>planes. split Scalar (replicate 16 0xE00000E9) (presence (replicate 16 0xE00000E9)) (replicate 32 0) = Some (Inr (32, planes)) \<and>
   join Scalar (presence (replicate 16 0xE00000E9)) planes (replicate 16 0) = Some (Inr (16, replicate 16 0xE00000E9)) \<and>
   join Avx512 (presence (replicate 16 0xE00000E9)) planes (replicate 16 0) = Some (Inr (16, replicate 16 0xFFFFFFE9))"
proof -
  let ?es = "replicate 16 (0xE00000E9 :: u32)"
  let ?planes = "replicate 16 (0xE9 :: u8) @ replicate 16 0xE0"
  have small: "length ?es * 4 \<le> usize_max" by (simp add: usize_max_def)
  have f: "(8 :: u8) AND NOT flags_mask = 0" using presence_flags [of ?es] by (simp only: accent_planes)
  have two: "length (plane_shifts 8) = 2" using length_plane_bytes [of ?es 8] by (simp add: accent_planes)
  have "split Scalar ?es 8 (replicate 32 0) = Some (Inr (32, ?planes))"
    using split_run [OF f small, where planes = "replicate 32 0" and level = Scalar] two by (simp add: accent_planes)
  moreover have "join Scalar 8 ?planes (replicate 16 0) = Some (Inr (16, ?es))"
    using join_run [OF _ small, of "replicate 16 0" Scalar] by (simp add: accent_planes)
  moreover have "join Avx512 8 ?planes (replicate 16 0) = Some (Inr (16, replicate 16 0xFFFFFFE9))"
  proof -
    have k: "read_chunks chunk_512 (read_group_avx512 shift) (replicate 16 b) (replicate 16 d) shift assign =
        Some (replicate 16 ((if assign then 0 else d) OR push_bit shift (scast b)))" for shift b d assign
      by (simp add: read_chunks_def chunk_512_def mem_read_def mem_write_def read_group_avx512_def scalar_read_def Let_def zip_replicate map_replicate)
    have lane: "0 OR push_bit 0 (scast (0xE9 :: u8)) = (0xFFFFFFE9 :: u32)"
      "0xFFFFFFE9 OR push_bit 24 (scast (0xE0 :: u8)) = (0xFFFFFFE9 :: u32)" by code_simp+
    have bits: "(8 :: u8) AND flag_plane1 = 0" "(8 :: u8) AND flag_plane2 = 0" "(8 :: u8) AND flag_plane3 \<noteq> 0"
      by (simp_all add: flag_plane1_def flag_plane2_def flag_plane3_def)
    show ?thesis
      using body_len_eq [OF f small] two lane
      by (simp add: join_def join_plane_def bits mem_read_def read_plane_def read_plane_avx512_def plane_shift_def k)
  qed
  ultimately show ?thesis unfolding accent_planes(1) by blast
qed

end
