(* ===== verification/Werc_Model.thy ===== *)
theory Werc_Model
  imports Werc_Tables Werc_Plane
begin

text \<open>
  The context-mixing model of the WEZC codec (\<open>crates/wredit-werc/src/model.rs\<close> and the mixer kernel
  of \<open>simd.rs\<close>). An array index outside its table is \<^const>\<open>None\<close>, Rust's panic. Sums and products
  wrap at the width of their type, as they do in the release profile of the workspace, which turns
  overflow checks off; prefetches (\<open>simd::touch\<close>) have no effect on the state.
\<close>

section \<open>Indexed access\<close>

definition get_at :: "'a list \<Rightarrow> nat \<Rightarrow> 'a option" where
  "get_at xs i = (if i < length xs then Some (xs ! i) else None)"

definition set_at :: "'a list \<Rightarrow> nat \<Rightarrow> 'a \<Rightarrow> 'a list option" where
  "set_at xs i v = (if i < length xs then Some (xs[i := v]) else None)"

section \<open>State\<close>

definition nctx :: usize where "nctx = 8"
definition nm :: usize where "nm = nctx + 1"
definition nw :: usize where "nw = nm + 1"
definition nsel :: usize where "nsel = 2"
definition nmx :: usize where "nmx = 3"
definition nw2 :: usize where "nw2 = nmx + 1"
definition nwr :: "usize list" where "nwr = [8 * nsel, 8 * nsel * 16, 8 * nsel * 256]"
definition m2rows :: usize where "m2rows = 8 * nsel"
definition mt_len :: usize where "mt_len = 4096"
definition mt_init :: u16 where "mt_init = 32768"
definition phi :: u32 where "phi = 0x9E3779B9"
definition bias :: i32 where "bias = 256"
definition match_max :: usize where "match_max = 16"
definition w_in :: i64 where "w_in = word_of_nat (0x10000 div nm)"
definition w_out :: i64 where "w_out = word_of_nat (0x10000 div nmx)"

record model =
  mem_bits :: nat
  sse_bits :: nat
  lr_shift :: nat
  m_mask :: usize
  m_buf :: "u8 list"
  m_h :: "u32 list"
  m_word :: u32
  m_sp :: u32
  m_tc :: "u8 list list"
  m_sm :: "u32 list list"
  m_m1 :: "i64 list list"
  m_m2 :: "i64 list"
  m_sse :: "i32 list"
  m_mm :: "u32 list"
  m_mt :: "u16 list"
  m_rows :: "usize list"
  m_row2 :: usize
  m_s2 :: "i32 list"
  m_st :: "i32 list"
  m_sn :: "u8 list"
  m_idx :: "usize list"
  m_sidx :: usize
  m_pr :: i32
  m_mptr :: usize
  m_mlen :: usize
  m_miss :: bool

definition model_new :: "nat \<Rightarrow> nat \<Rightarrow> nat \<Rightarrow> werc_error + model" where
  "model_new mbits sbits lr =
     (if \<not> (8 \<le> mbits \<and> mbits \<le> 26) then Inl (Unsupported ''mem_bits'')
      else if \<not> (4 \<le> sbits \<and> sbits \<le> 24) then Inl (Unsupported ''sse_bits'')
      else if \<not> (9 \<le> lr \<and> lr \<le> 24) then Inl (Unsupported ''lr_shift'')
      else
        let size = 2 ^ mbits in
        Inr \<lparr>mem_bits = mbits, sse_bits = sbits, lr_shift = lr, m_mask = size - 1, m_buf = [],
          m_h = replicate nctx 0, m_word = 0, m_sp = 0, m_tc = replicate nctx (replicate size 0),
          m_sm = replicate nctx sm0,
          m_m1 = map (\<lambda>rows. concat (replicate rows (replicate nm w_in @ replicate (nw - nm) 0))) nwr,
          m_m2 = concat (replicate m2rows (replicate nmx w_out @ replicate (nw2 - nmx) 0)),
          m_sse = replicate (2 ^ sbits) 0, m_mm = replicate size 0, m_mt = replicate mt_len mt_init,
          m_rows = replicate nmx 0, m_row2 = 0, m_s2 = replicate nmx 0, m_st = (replicate nw 0)[nm := bias],
          m_sn = replicate nctx 0, m_idx = replicate nctx 0, m_sidx = 0, m_pr = 2048, m_mptr = 0, m_mlen = 0,
          m_miss = False\<rparr>)"

definition memory_bytes :: "model \<Rightarrow> usize" where
  "memory_bytes m =
     (let size = 2 ^ mem_bits m; contexts = nctx * size + nctx * length sm0 * 4;
          mixer = sum_list (map (\<lambda>rows. rows * nw * 8) nwr) + m2rows * nw2 * 8
      in contexts + size * 4 + mt_len * 2 + mixer + 2 ^ sse_bits m * 4)"

section \<open>A byte\<close>

definition is_word_byte :: "u8 \<Rightarrow> bool" where
  "is_word_byte b \<longleftrightarrow> (0x30 \<le> b \<and> b \<le> 0x39) \<or> (0x41 \<le> b \<and> b \<le> 0x5A) \<or> (0x61 \<le> b \<and> b \<le> 0x7A) \<or> b = 0x5F"

definition byte_of :: "u32 \<Rightarrow> u8" where
  "byte_of value = ucast value"

definition grow_match :: "u32 \<Rightarrow> model \<Rightarrow> model" where
  "grow_match c m =
     (if m_mlen m \<noteq> 0 then
        if m_mptr m < length (m_buf m) \<and> m_buf m ! m_mptr m = byte_of c
        then m\<lparr>m_mptr := m_mptr m + 1, m_mlen := m_mlen m + 1\<rparr>
        else m\<lparr>m_mlen := 0\<rparr>
      else m)"

definition match_key :: "model \<Rightarrow> usize option" where
  "match_key m = do {
     h0 \<leftarrow> get_at (m_h m) 0; h1 \<leftarrow> get_at (m_h m) 1; h2 \<leftarrow> get_at (m_h m) 2; h3 \<leftarrow> get_at (m_h m) 3;
     Some (unat (h0 XOR push_bit 1 h1 XOR push_bit 2 h2 XOR push_bit 3 h3) AND m_mask m) }"

definition try_match :: "u32 \<Rightarrow> usize \<Rightarrow> model \<Rightarrow> model option" where
  "try_match c cand m = do {
     last \<leftarrow> get_at (m_buf m) (cand - 1);
     if last = byte_of c then do {
       h1 \<leftarrow> get_at (m_h m) 1;
       before \<leftarrow> get_at (m_buf m) (cand - 2);
       Some (if before = byte_of (drop_bit 8 h1 AND 0xFF) then m\<lparr>m_mptr := cand, m_mlen := 1\<rparr> else m)
     } else Some m }"

definition extend_match :: "u32 \<Rightarrow> model \<Rightarrow> model option" where
  "extend_match c m0 =
     (let m = grow_match c m0 in
      if m_mlen m \<ge> 6 then Some m
      else do {
        key \<leftarrow> match_key m;
        let position = (word_of_nat (length (m_buf m)) :: u32);
        cand \<leftarrow> map_option unat (get_at (m_mm m) key);
        mm \<leftarrow> set_at (m_mm m) key position;
        let m = m\<lparr>m_mm := mm\<rparr>;
        if cand \<noteq> 0 \<and> cand \<noteq> unat position \<and> cand \<ge> 2 then try_match c cand m else Some m
      })"

definition shift_contexts :: "u32 \<Rightarrow> u32 list \<Rightarrow> u32 list option" where
  "shift_contexts c h0s = do {
     h0 \<leftarrow> get_at h0s 0; h1 \<leftarrow> get_at h0s 1; h2 \<leftarrow> get_at h0s 2; h3 \<leftarrow> get_at h0s 3; h4 \<leftarrow> get_at h0s 4;
     h \<leftarrow> set_at h0s 5 (h4 * phi XOR (c + 0x2A6B2E3D));
     h \<leftarrow> set_at h 4 (h3 * phi XOR (c + 0x0076B149));
     h \<leftarrow> set_at h 3 (push_bit 8 h2 OR c);
     h \<leftarrow> set_at h 2 (push_bit 8 h1 OR c);
     h \<leftarrow> set_at h 1 ((push_bit 8 h0 OR c) AND 0xFFFF);
     set_at h 0 c }"

definition byte_update :: "u8 \<Rightarrow> model \<Rightarrow> model option" where
  "byte_update byte m0 =
     (let c = ucast byte :: u32; buf = m_buf m0 @ [byte]; n = length buf in
      do {
        h \<leftarrow> shift_contexts c (m_h m0);
        let word = (if is_word_byte byte then push_bit 5 (m_word m0) + m_word m0 + c else 0);
        let sp = (if n \<ge> 4
          then push_bit 16 (ucast (buf ! (n - 1))) OR push_bit 8 (ucast (buf ! (n - 3))) OR ucast (buf ! (n - 4)) else 0);
        m \<leftarrow> extend_match c (m0\<lparr>m_buf := buf, m_h := h, m_word := word, m_sp := sp\<rparr>);
        Some (m\<lparr>m_miss := False\<rparr>)
      })"

definition reset_history :: "model \<Rightarrow> model" where
  "reset_history m = m\<lparr>m_buf := [], m_mm := map (\<lambda>_. 0) (m_mm m), m_mlen := 0, m_mptr := 0, m_miss := False\<rparr>"

section \<open>Predicting a bit\<close>

definition clamplog64 :: "i64 \<Rightarrow> i32" where
  "clamplog64 x = (if sint x < sint logit_min then logit_min else if sint x > sint logit_max then logit_max else ucast x)"

definition squash64 :: "i64 \<Rightarrow> i32" where
  "squash64 x = squash (clamplog64 x)"

definition match_input :: "u32 \<Rightarrow> nat \<Rightarrow> model \<Rightarrow> (i32 \<times> model) option" where
  "match_input c0 nbits m =
     (if m_mlen m = 0 \<or> m_miss m \<or> m_mptr m \<ge> length (m_buf m) then Some (0, m)
      else
        let predicted = ucast (m_buf m ! m_mptr m) :: u32; sofar = c0 XOR push_bit nbits 1 in
        if nbits \<noteq> 0 \<and> drop_bit (8 - nbits) predicted \<noteq> sofar then Some (0, m\<lparr>m_miss := True\<rparr>)
        else
          let b = drop_bit (7 - nbits) predicted AND 1;
              bucket = (if m_mlen m < match_max then m_mlen m else match_max);
              i = (push_bit 4 (push_bit 4 bucket OR push_bit 1 nbits OR unat b) OR unat (sofar AND 15)) AND (mt_len - 1)
          in do {
            seen \<leftarrow> map_option (\<lambda>w. ucast w :: u32) (get_at (m_mt m) i);
            let step = signed_drop_bit 6 (push_bit 16 b - seen);
            let updated = (ucast (clamp16 (seen + step)) :: u16);
            mt \<leftarrow> set_at (m_mt m) i updated;
            Some (stretch (clamp12 (drop_bit 4 seen)), m\<lparr>m_mt := mt\<rparr>)
          })"

definition read_slot :: "nat \<times> usize \<Rightarrow> model \<Rightarrow> model option" where
  "read_slot = (\<lambda>(k, i) m. do {
     idx \<leftarrow> set_at (m_idx m) k i;
     tc \<leftarrow> get_at (m_tc m) k;
     state \<leftarrow> get_at tc i;
     sn \<leftarrow> set_at (m_sn m) k state;
     sm \<leftarrow> get_at (m_sm m) k;
     entry \<leftarrow> get_at sm (unat state);
     st \<leftarrow> set_at (m_st m) k (stretch (drop_bit 12 entry));
     Some (m\<lparr>m_idx := idx, m_sn := sn, m_st := st\<rparr>)
   })"

definition dot_scalar :: "i64 list \<Rightarrow> i32 list \<Rightarrow> i64" where
  "dot_scalar row st = foldl (\<lambda>acc (w, s). acc + w * scast s) 0 (zip row st)"

definition weight_rows :: "model \<Rightarrow> i64 list list option" where
  "weight_rows m = do {
     t0 \<leftarrow> get_at (m_m1 m) 0; t1 \<leftarrow> get_at (m_m1 m) 1; t2 \<leftarrow> get_at (m_m1 m) 2;
     r0 \<leftarrow> get_at (m_rows m) 0; r1 \<leftarrow> get_at (m_rows m) 1; r2 \<leftarrow> get_at (m_rows m) 2;
     w0 \<leftarrow> mem_read t0 (r0 * nw) nw; w1 \<leftarrow> mem_read t1 (r1 * nw) nw; w2 \<leftarrow> mem_read t2 (r2 * nw) nw;
     Some [w0, w1, w2] }"

definition mixer_dots_scalar :: "i64 list list \<Rightarrow> i32 list \<Rightarrow> i64 list" where
  "mixer_dots_scalar rows st = map (\<lambda>row. dot_scalar row st) rows"

definition fit_hi :: i64 where "fit_hi = 0x80000000"
definition fit_lo :: i64 where "fit_lo = - 0x80000001"

text \<open>\<open>_mm256_mul_epi32\<close>: the signed product of the low halves of two lanes.\<close>

definition mul_epi32 :: "i64 \<Rightarrow> i64 \<Rightarrow> i64" where
  "mul_epi32 a b = scast (ucast a :: 32 word) * scast (ucast b :: 32 word)"

definition dot_avx2 :: "i64 list \<Rightarrow> i32 list \<Rightarrow> i64" where
  "dot_avx2 row st =
     (let s0 = map scast (take 4 st); s1 = map scast (take 4 (drop 4 st)); s2 = map scast (take 2 (drop 8 st));
          w0 = take 4 row; w1 = take 4 (drop 4 row); wx = take 2 (drop 8 row);
          p = map2 (+) (map2 mul_epi32 w0 s0) (map2 mul_epi32 w1 s1);
          px = map2 mul_epi32 wx s2 @ [0, 0];
          t = map2 (+) p px;
          fold = map2 (+) (take 2 t) (drop 2 t)
      in fold ! 0 + fold ! 1)"

definition fits_avx2 :: "i64 list \<Rightarrow> bool" where
  "fits_avx2 row \<longleftrightarrow> list_all (\<lambda>w. sint fit_hi > sint w \<and> sint w > sint fit_lo) row"

definition mixer_dots_avx2 :: "i64 list list \<Rightarrow> i32 list \<Rightarrow> i64 list option" where
  "mixer_dots_avx2 rows st = (if list_all fits_avx2 rows then Some (map (\<lambda>row. dot_avx2 row st) rows) else None)"

definition mixer_dots :: "simd_level \<Rightarrow> i64 list list \<Rightarrow> i32 list \<Rightarrow> i64 list option" where
  "mixer_dots level rows st = (case level of Scalar \<Rightarrow> None | _ \<Rightarrow> mixer_dots_avx2 rows st)"

definition mix_step :: "usize \<Rightarrow> nat \<times> i64 \<Rightarrow> i64 \<times> model \<Rightarrow> (i64 \<times> model) option" where
  "mix_step base = (\<lambda>(j, dot) (dot2, m). do {
     let mixed = stretch (squash64 (signed_drop_bit 16 dot));
     s2 \<leftarrow> set_at (m_s2 m) j mixed;
     w \<leftarrow> get_at (m_m2 m) (base + j);
     Some (dot2 + w * scast mixed, m\<lparr>m_s2 := s2\<rparr>) })"

definition context_slots :: "u32 \<Rightarrow> model \<Rightarrow> usize list" where
  "context_slots pc0 m =
     map (\<lambda>h. unat ((h XOR pc0) * phi) AND m_mask m) (take 6 (m_h m))
       @ [unat (m_word m XOR pc0) AND m_mask m, unat (m_sp m XOR pc0) AND m_mask m]"

definition predict :: "simd_level \<Rightarrow> u32 \<Rightarrow> nat \<Rightarrow> model \<Rightarrow> (i32 \<times> model) option" where
  "predict level c0 nbits0 m0 = do {
     let nbits = nbits0 AND 7;
     let pc0 = c0 * phi;
     let sel = (if m_mlen m0 \<noteq> 0 \<and> \<not> m_miss m0 then 1 else 0);
     let row = nbits * nsel + sel;
     prev \<leftarrow> map_option (\<lambda>h. unat (h AND 0xFF)) (get_at (m_h m0) 0);
     let m = m0\<lparr>m_row2 := row, m_rows := [row, push_bit 4 row OR drop_bit 4 prev, push_bit 8 row OR prev]\<rparr>;
     m \<leftarrow> fold_opt read_slot (enumerate 0 (context_slots pc0 m)) m;
     (input, m) \<leftarrow> match_input c0 nbits m;
     st \<leftarrow> set_at (m_st m) nctx input;
     let m = m\<lparr>m_st := st\<rparr>;
     rows \<leftarrow> weight_rows m;
     let dots = (case mixer_dots level rows (m_st m) of Some dots \<Rightarrow> dots | None \<Rightarrow> mixer_dots_scalar rows (m_st m));
     let base = row * nw2;
     (dot2, m) \<leftarrow> fold_opt (mix_step base) (enumerate 0 dots) (0, m);
     w \<leftarrow> get_at (m_m2 m) (base + nmx);
     let logit = clamplog64 (signed_drop_bit 16 (dot2 + push_bit 8 w));
     let mixed = squash logit;
     i1 \<leftarrow> get_at (m_idx m) 1;
     let sidx = (drop_bit 4 i1 XOR unat (signed_drop_bit 6 mixed)) AND (length (m_sse m) - 1);
     cell \<leftarrow> get_at (m_sse m) sidx;
     let correction = (scast (signed_drop_bit 6 cell) :: i64);
     let pr = squash64 (scast logit + correction);
     Some (pr, m\<lparr>m_sidx := sidx, m_pr := pr\<rparr>) }"

section \<open>Learning a bit\<close>

definition learn_out :: "i32 \<Rightarrow> usize \<Rightarrow> nat \<Rightarrow> model \<Rightarrow> model option" where
  "learn_out err base j m = do {
     s \<leftarrow> get_at (m_s2 m) j;
     w \<leftarrow> get_at (m_m2 m) (base + j);
     m2 \<leftarrow> set_at (m_m2 m) (base + j) (w + signed_drop_bit (lr_shift m) (scast err * scast s));
     Some (m\<lparr>m_m2 := m2\<rparr>) }"

definition learn_weight :: "i64 \<Rightarrow> nat \<Rightarrow> usize \<Rightarrow> nat \<Rightarrow> model \<Rightarrow> model option" where
  "learn_weight e1 j row i m = do {
     s \<leftarrow> get_at (m_st m) i;
     table \<leftarrow> get_at (m_m1 m) j;
     w \<leftarrow> get_at table (row + i);
     table \<leftarrow> set_at table (row + i) (w + signed_drop_bit (lr_shift m) (e1 * scast s));
     m1 \<leftarrow> set_at (m_m1 m) j table;
     Some (m\<lparr>m_m1 := m1\<rparr>) }"

definition learn_row :: "i32 \<Rightarrow> usize \<Rightarrow> nat \<Rightarrow> model \<Rightarrow> model option" where
  "learn_row err base j m = do {
     w \<leftarrow> get_at (m_m2 m) (base + j);
     let e1 = signed_drop_bit 16 (scast err * w);
     if e1 = 0 then Some m
     else do {
       r \<leftarrow> get_at (m_rows m) j;
       fold_opt (learn_weight e1 j (r * nw)) [0..<nw] m } }"

definition learn_context :: "u32 \<Rightarrow> nat \<Rightarrow> model \<Rightarrow> model option" where
  "learn_context b k m = do {
     state \<leftarrow> map_option unat (get_at (m_sn m) k);
     sm \<leftarrow> get_at (m_sm m) k;
     entry \<leftarrow> get_at sm state;
     let p = drop_bit 8 entry;
     let visits = unat (entry AND 255);
     rate \<leftarrow> get_at invr visits;
     let step = (signed_drop_bit 16 ((push_bit 16 (ucast b) - scast p) * ucast rate) :: i64);
     let p = clamp16 (p + ucast step);
     sm \<leftarrow> set_at sm state (push_bit 8 p OR word_of_nat (visits + (if visits < 255 then 1 else 0)));
     sms \<leftarrow> set_at (m_sm m) k sm;
     tc \<leftarrow> get_at (m_tc m) k;
     i \<leftarrow> get_at (m_idx m) k;
     next_state \<leftarrow> get_at nx (push_bit 1 state OR unat b);
     tc \<leftarrow> set_at tc i next_state;
     tcs \<leftarrow> set_at (m_tc m) k tc;
     Some (m\<lparr>m_sm := sms, m_tc := tcs\<rparr>) }"

definition model_update :: "u32 \<Rightarrow> model \<Rightarrow> model option" where
  "model_update bit0 m0 = do {
     let b = bit0 AND 1;
     let err = push_bit 12 b - m_pr m0;
     let base = m_row2 m0 * nw2;
     m \<leftarrow> fold_opt (learn_out err base) [0..<nmx] m0;
     w \<leftarrow> get_at (m_m2 m) (base + nmx);
     m2 \<leftarrow> set_at (m_m2 m) (base + nmx) (w + signed_drop_bit (lr_shift m - 8) (scast err));
     m \<leftarrow> fold_opt (learn_row err base) [0..<nmx] (m\<lparr>m_m2 := m2\<rparr>);
     m \<leftarrow> fold_opt (learn_context b) [0..<nctx] m;
     cell \<leftarrow> get_at (m_sse m) (m_sidx m);
     sse \<leftarrow> set_at (m_sse m) (m_sidx m) (cell + signed_drop_bit 5 err);
     Some (m\<lparr>m_sse := sse\<rparr>) }"

end
