(* ===== verification/Werc_Codec.thy ===== *)
theory Werc_Codec
  imports Werc_Coder Werc_Model
begin

text \<open>
  The WEZC container and codec (\<open>crates/wredit-werc/src\<close>: \<open>frame.rs\<close>, \<open>codec.rs\<close>). The outer
  \<^typ>\<open>'a option\<close> of a result is \<^const>\<open>None\<close> where the code would panic; \<open>level\<close> is the vector
  level the machine offers, which the encoding and the decoding machine need not share.
\<close>

section \<open>The container\<close>

definition wezc_magic :: "u8 list" where "wezc_magic = [0x57, 0x45, 0x5A, 0x43, 0x01]"

definition header_size :: usize where "header_size = 17"

record params =
  pm_mem_bits :: u8
  pm_sse_bits :: u8
  pm_lr_shift :: u8

definition params_default :: params where
  "params_default = \<lparr>pm_mem_bits = 22, pm_sse_bits = 16, pm_lr_shift = 11\<rparr>"

definition params_minimal :: params where
  "params_minimal = \<lparr>pm_mem_bits = 8, pm_sse_bits = 4, pm_lr_shift = 11\<rparr>"

definition params_model :: "params \<Rightarrow> werc_error + model" where
  "params_model p = model_new (unat (pm_mem_bits p)) (unat (pm_sse_bits p)) (unat (pm_lr_shift p))"

record wezc_header =
  hd_params :: params
  hd_flags :: u8
  hd_count :: u32
  hd_payload_len :: u32

definition header_body_len :: "wezc_header \<Rightarrow> usize option" where
  "header_body_len h = body_len (unat (hd_count h)) (hd_flags h)"

definition header_write_to :: "wezc_header \<Rightarrow> u8 list \<Rightarrow> werc_error + usize \<times> u8 list" where
  "header_write_to h out =
     (if length out < header_size then Inl (OutputTooSmall header_size (length out))
      else Inr (header_size,
        wezc_magic @ [pm_mem_bits (hd_params h), pm_sse_bits (hd_params h), pm_lr_shift (hd_params h), hd_flags h]
          @ to_le_bytes (hd_count h) @ to_le_bytes (hd_payload_len h) @ drop header_size out))"

definition header_parse :: "u8 list \<Rightarrow> werc_error + wezc_header" where
  "header_parse bytes =
     (if length bytes < header_size then Inl (InputTooShort header_size (length bytes))
      else if take (length wezc_magic) bytes \<noteq> wezc_magic then Inl NotWezc
      else
        let h = \<lparr>hd_params = \<lparr>pm_mem_bits = bytes ! 5, pm_sse_bits = bytes ! 6, pm_lr_shift = bytes ! 7\<rparr>,
                 hd_flags = bytes ! 8,
                 hd_count = from_le_bytes [bytes ! 9, bytes ! 10, bytes ! 11, bytes ! 12],
                 hd_payload_len = from_le_bytes [bytes ! 13, bytes ! 14, bytes ! 15, bytes ! 16]\<rparr>
        in if plane_count (hd_flags h) = None then Inl (Unsupported ''flags'')
           else if header_body_len h = None then Inl (Unsupported ''count'')
           else Inr h)"

section \<open>The modelling run\<close>

datatype side = Encode encoder | Decode decoder

definition side_code :: "u32 \<Rightarrow> u32 \<Rightarrow> bool \<Rightarrow> side \<Rightarrow> u32 \<times> side" where
  "side_code p b priming side =
     (if priming then (b, side)
      else case side of
        Encode coder \<Rightarrow> (b, Encode (encode_bit p (b \<noteq> 0) coder))
      | Decode coder \<Rightarrow> let (b', coder') = decode_bit p coder in (of_bool b', Decode coder'))"

definition side_finish :: "side \<Rightarrow> u8 list" where
  "side_finish side = (case side of Encode coder \<Rightarrow> e_out (enc_finish coder) | Decode _ \<Rightarrow> [])"

record block =
  bk_source :: "u8 list"
  bk_len :: usize
  bk_priming :: bool

definition priming_block :: "u8 list \<Rightarrow> block" where
  "priming_block source = \<lparr>bk_source = source, bk_len = length source, bk_priming = True\<rparr>"

definition data_block :: "u8 list \<Rightarrow> block" where
  "data_block source = \<lparr>bk_source = source, bk_len = length source, bk_priming = False\<rparr>"

definition to_decode :: "usize \<Rightarrow> block" where
  "to_decode len = \<lparr>bk_source = [], bk_len = len, bk_priming = False\<rparr>"

text \<open>The loop over the bits of a byte carries \<open>c0\<close>, \<open>byte_out\<close>, the model and the side.\<close>

definition run_bit :: "simd_level \<Rightarrow> u8 \<Rightarrow> bool \<Rightarrow> nat \<Rightarrow> (u32 \<times> u8 \<times> model) \<times> side \<Rightarrow> ((u32 \<times> u8 \<times> model) \<times> side) option" where
  "run_bit level byte_in priming nbits = (\<lambda>((c0, byte_out, m), side). do {
     (p, m) \<leftarrow> predict level c0 nbits m;
     let (b, side) = side_code p (drop_bit (7 - nbits) (ucast byte_in) AND 1) priming side;
     m \<leftarrow> model_update b m;
     Some ((push_bit 1 c0 OR b, push_bit 1 byte_out OR ucast b, m), side) })"

definition run_byte :: "simd_level \<Rightarrow> block \<Rightarrow> bool \<Rightarrow> usize \<Rightarrow> (model \<times> u8 list) \<times> side \<Rightarrow> ((model \<times> u8 list) \<times> side) option" where
  "run_byte level block from_input i = (\<lambda>((m, out), side). do {
     let byte_in = (if i < length (bk_source block) then bk_source block ! i else 0);
     ((c0, byte_out, m), side) \<leftarrow> fold_opt (run_bit level byte_in (bk_priming block)) [0..<8] ((1, 0, m), side);
     let out = (if from_input then out else out @ [byte_out]);
     m \<leftarrow> byte_update (if from_input then byte_in else byte_out) m;
     Some ((m, out), side) })"

definition run_block :: "simd_level \<Rightarrow> block \<Rightarrow> (model \<times> u8 list) \<times> side \<Rightarrow> ((model \<times> u8 list) \<times> side) option" where
  "run_block level block = (\<lambda>((m, out), side). do {
     let from_input = ((case side of Encode _ \<Rightarrow> True | Decode _ \<Rightarrow> False) \<or> bk_priming block);
     ((m, out), side) \<leftarrow> fold_opt (run_byte level block from_input) [0..<bk_len block] ((m, out), side);
     Some ((if bk_priming block then reset_history m else m, out), side) })"

definition codec_run :: "simd_level \<Rightarrow> block list \<Rightarrow> (model \<times> u8 list) \<times> side \<Rightarrow> ((model \<times> u8 list) \<times> side) option" where
  "codec_run level blocks = fold_opt (run_block level) blocks"

section \<open>Encoding and decoding\<close>

definition plane_body :: "simd_level \<Rightarrow> u32 list \<Rightarrow> string \<Rightarrow> (werc_error + u8 list) option" where
  "plane_body level elements field =
     (let flags = presence elements in
      case body_len (length elements) flags of
        None \<Rightarrow> Some (Inl (Unsupported field))
      | Some len \<Rightarrow> do {
          r \<leftarrow> split level elements flags (replicate len 0);
          Some (case r of Inl err \<Rightarrow> Inl err | Inr (written, planes) \<Rightarrow> Inr (take written planes)) })"

definition dictionary_planes :: "simd_level \<Rightarrow> u32 list \<Rightarrow> (werc_error + u8 list) option" where
  "dictionary_planes level dictionary = (if dictionary = [] then Some (Inr []) else plane_body level dictionary ''dictionary'')"

text \<open>The payload of the encoded planes, once the elements are split and the dictionary primed.\<close>

definition encode_planes :: "simd_level \<Rightarrow> params \<Rightarrow> u8 list \<Rightarrow> u8 list \<Rightarrow> (werc_error + u8 list) option" where
  "encode_planes level ps dict planes =
     (case params_model ps of
        Inl err \<Rightarrow> Some (Inl err)
      | Inr m \<Rightarrow> do {
          (_, side) \<leftarrow> codec_run level [priming_block dict, data_block planes] ((m, []), Encode encoder_new);
          Some (Inr (side_finish side)) })"

definition wezc_encode :: "simd_level \<Rightarrow> params \<Rightarrow> u32 list \<Rightarrow> u32 list \<Rightarrow> (werc_error + u8 list) option" where
  "wezc_encode level ps dictionary elements =
     (if length elements \<ge> 2 ^ 32 then Some (Inl (Unsupported ''count''))
      else do {
        r \<leftarrow> plane_body level elements ''count'';
        case r of
          Inl err \<Rightarrow> Some (Inl err)
        | Inr planes \<Rightarrow> do {
            r \<leftarrow> dictionary_planes level dictionary;
            case r of
              Inl err \<Rightarrow> Some (Inl err)
            | Inr dict \<Rightarrow> do {
                r \<leftarrow> encode_planes level ps dict planes;
                Some (case r of
                    Inl err \<Rightarrow> Inl err
                  | Inr payload \<Rightarrow>
                      if length payload \<ge> 2 ^ 32 then Inl (Unsupported ''payload'')
                      else
                        let h = \<lparr>hd_params = ps, hd_flags = presence elements, hd_count = word_of_nat (length elements),
                                 hd_payload_len = word_of_nat (length payload)\<rparr>
                        in case header_write_to h (replicate header_size 0) of
                             Inl err \<Rightarrow> Inl err
                           | Inr (_, head) \<Rightarrow> Inr (head @ payload)) } } })"

definition decode_planes :: "simd_level \<Rightarrow> params \<Rightarrow> u8 list \<Rightarrow> u8 list \<Rightarrow> usize \<Rightarrow> (werc_error + u8 list) option" where
  "decode_planes level ps dict payload len =
     (case params_model ps of
        Inl err \<Rightarrow> Some (Inl err)
      | Inr m \<Rightarrow> do {
          ((_, planes), _) \<leftarrow> codec_run level [priming_block dict, to_decode len] ((m, []), Decode (decoder_new payload));
          Some (Inr planes) })"

text \<open>The result of a successful decode is the count and the caller's slice with its first elements filled.\<close>

definition wezc_decode :: "simd_level \<Rightarrow> u8 list \<Rightarrow> u32 list \<Rightarrow> u32 list \<Rightarrow> (werc_error + usize \<times> u32 list) option" where
  "wezc_decode level blob dictionary elements =
     (case header_parse blob of
        Inl err \<Rightarrow> Some (Inl err)
      | Inr h \<Rightarrow>
          (case header_body_len h of
             None \<Rightarrow> Some (Inl (Unsupported ''count''))
           | Some len \<Rightarrow>
               let needed = header_size + unat (hd_payload_len h); count = unat (hd_count h) in
               if length blob < needed then Some (Inl (InputTooShort needed (length blob)))
               else if length elements < count then Some (Inl (OutputTooSmall count (length elements)))
               else do {
                 r \<leftarrow> dictionary_planes level dictionary;
                 case r of
                   Inl err \<Rightarrow> Some (Inl err)
                 | Inr dict \<Rightarrow> do {
                     r \<leftarrow> decode_planes level (hd_params h) dict (take (needed - header_size) (drop header_size blob)) len;
                     case r of
                       Inl err \<Rightarrow> Some (Inl err)
                     | Inr planes \<Rightarrow> do {
                         r \<leftarrow> join level (hd_flags h) planes (take count elements);
                         Some (case r of
                             Inl err \<Rightarrow> Inl err
                           | Inr (n, es) \<Rightarrow> Inr (n, es @ drop count elements)) } } }))"

end
