(* ===== verification/Werc_Interface.thy ===== *)
theory Werc_Interface
  imports Werc_Coder
begin

text \<open>
  What the WEZC codec relies on in its model: in every state the model keeps, each of the four calls
  returns, a prediction is a probability the coder can split an interval by, and neither the number
  nor the state it leaves depends on the kernel that computed it.
\<close>

locale bit_predictor =
  fixes ok :: "'m \<Rightarrow> bool" and pred :: "'l \<Rightarrow> u32 \<Rightarrow> nat \<Rightarrow> 'm \<Rightarrow> (u32 \<times> 'm) option"
    and learn :: "u32 \<Rightarrow> 'm \<Rightarrow> 'm option" and close_byte :: "u8 \<Rightarrow> 'm \<Rightarrow> 'm option" and forget :: "'m \<Rightarrow> 'm"
  assumes pred_ok: "ok m \<Longrightarrow> \<exists>p m'. (\<forall>level. pred level c0 nbits m = Some (p, m')) \<and> ok m' \<and> probability p"
    and learn_ok: "ok m \<Longrightarrow> \<exists>m'. learn b m = Some m' \<and> ok m'"
    and close_byte_ok: "ok m \<Longrightarrow> \<exists>m'. close_byte byte m = Some m' \<and> ok m'"
    and forget_ok: "ok m \<Longrightarrow> ok (forget m)"
begin

text \<open>One coded bit: whatever the bit turns out to be, the model learns it.\<close>

lemma coded_bit:
  assumes "ok m"
  shows "\<exists>p m'. (\<forall>level. pred level c0 nbits m = Some (p, m')) \<and> probability p \<and> (\<forall>b. \<exists>m''. learn b m' = Some m'' \<and> ok m'')"
  using pred_ok [OF assms, of c0 nbits] learn_ok by blast

end

end
