(* ===== verification/Werc_Model_Props.thy ===== *)
theory Werc_Model_Props
  imports Werc_Model Werc_Interface
begin

text \<open>
  The model never indexes outside its tables: every table keeps its size, every index that is kept
  between calls stays in range, and the match table points into the history. A prediction is a
  probability the coder accepts.
\<close>

section \<open>Indices\<close>

lemma get_at_Some [simp]: "i < length xs \<Longrightarrow> get_at xs i = Some (xs ! i)"
  by (simp add: get_at_def)

lemma set_at_Some [simp]: "i < length xs \<Longrightarrow> set_at xs i v = Some (xs[i := v])"
  by (simp add: set_at_def)

lemma nat_and_le: "(a AND b :: nat) \<le> b"
proof -
  have "int (a AND b) = int a AND int b" by (simp add: of_nat_and_eq)
  also have "\<dots> \<le> int b" by (rule AND_upper2) simp
  finally show ?thesis by simp
qed

lemma nat_or_less: "a < 2 ^ k \<Longrightarrow> b < 2 ^ k \<Longrightarrow> (a OR b :: nat) < 2 ^ k"
  using take_bit_or [of k a b] by (simp add: take_bit_nat_eq_self_iff flip: take_bit_nat_eq_self_iff)

lemma unat_and_upper: "unat (w AND v :: 'a::len word) \<le> unat v"
  using word_and_le1 [of w v] by (simp add: word_le_nat_alt)

section \<open>The invariant\<close>

definition model_shape :: "model \<Rightarrow> bool" where
  "model_shape m \<longleftrightarrow>
     length (m_h m) = 8 \<and>
     length (m_tc m) = 8 \<and> (\<forall>k < 8. length (m_tc m ! k) = m_mask m + 1) \<and>
     length (m_sm m) = 8 \<and> (\<forall>k < 8. length (m_sm m ! k) = 256) \<and>
     length (m_m1 m) = 3 \<and> length (m_m1 m ! 0) = 16 * nw \<and> length (m_m1 m ! 1) = 256 * nw \<and> length (m_m1 m ! 2) = 4096 * nw \<and>
     length (m_m2 m) = 16 * nw2 \<and> 0 < length (m_sse m) \<and> length (m_mm m) = m_mask m + 1 \<and> length (m_mt m) = mt_len \<and>
     length (m_s2 m) = 3 \<and> length (m_st m) = nw \<and> length (m_sn m) = 8 \<and> length (m_idx m) = 8"

definition model_refs :: "model \<Rightarrow> bool" where
  "model_refs m \<longleftrightarrow>
     length (m_rows m) = 3 \<and> m_rows m ! 0 < 16 \<and> m_rows m ! 1 < 256 \<and> m_rows m ! 2 < 4096 \<and> m_row2 m < 16 \<and>
     (\<forall>k < 8. m_idx m ! k \<le> m_mask m) \<and> m_sidx m < length (m_sse m)"

definition match_refs :: "model \<Rightarrow> bool" where
  "match_refs m \<longleftrightarrow> (\<forall>i \<le> m_mask m. unat (m_mm m ! i) \<le> length (m_buf m))"

definition model_inv :: "model \<Rightarrow> bool" where
  "model_inv m \<longleftrightarrow> model_shape m \<and> model_refs m \<and> match_refs m"

lemmas model_consts = nctx_def nm_def nw_def nmx_def nw2_def nsel_def

lemma length_chunks: "length (concat (replicate n xs)) = n * length xs"
  by (induction n) simp_all

lemma model_new_inv:
  assumes "model_new mbits sbits lr = Inr m"
  shows "model_inv m"
proof -
  have "(i :: nat) \<le> 2 ^ n - Suc 0 \<longleftrightarrow> i < 2 ^ n" for i n
    using Suc_pred' [of "2 ^ n"] by (simp flip: less_Suc_eq_le)
  then show ?thesis
    using assms by (auto simp: model_new_def Let_def model_inv_def model_shape_def model_refs_def match_refs_def model_consts nwr_def
      m2rows_def mt_len_def length_chunks split: if_splits)
qed

section \<open>Bytes\<close>

lemma grow_match_inv: "model_inv m \<Longrightarrow> model_inv (grow_match c m)"
  by (auto simp: grow_match_def model_inv_def model_shape_def model_refs_def match_refs_def)

lemma match_found_inv: "model_inv m \<Longrightarrow> model_inv (m\<lparr>m_mptr := p, m_mlen := n\<rparr>)"
  by (simp add: model_inv_def model_shape_def model_refs_def match_refs_def)

lemma position_inv:
  assumes "model_inv m" "key \<le> m_mask m"
  shows "model_inv (m\<lparr>m_mm := (m_mm m)[key := word_of_nat (length (m_buf m))]\<rparr>)"
proof -
  have "unat (word_of_nat n :: u32) \<le> n" for n by (simp add: unsigned_of_nat)
  then show ?thesis
    using assms by (auto simp: model_inv_def model_shape_def model_refs_def match_refs_def nth_list_update)
qed

lemma match_key_run:
  assumes "model_inv m"
  shows "\<exists>key \<le> m_mask m. match_key m = Some key"
proof -
  have "length (m_h m) = 8" using assms by (simp add: model_inv_def model_shape_def)
  then show ?thesis using nat_and_le [of _ "m_mask m"] by (simp add: match_key_def)
qed

lemma try_match_inv:
  assumes "model_inv m" "cand \<le> length (m_buf m)" "cand \<ge> 2"
  shows "\<exists>m'. try_match c cand m = Some m' \<and> model_inv m'"
proof -
  have "length (m_h m) = 8" using assms(1) by (simp add: model_inv_def model_shape_def)
  moreover have "cand - 1 < length (m_buf m)" "cand - 2 < length (m_buf m)" using assms(2,3) by auto
  ultimately show ?thesis using assms(1) match_found_inv [OF assms(1), of 1 cand] by (simp add: try_match_def)
qed

lemma extend_match_inv:
  assumes "model_inv m0"
  shows "\<exists>m. extend_match c m0 = Some m \<and> model_inv m"
proof -
  define m where "m = grow_match c m0"
  have inv: "model_inv m" unfolding m_def using assms by (rule grow_match_inv)
  from match_key_run [OF inv] obtain key where key: "key \<le> m_mask m" "match_key m = Some key" by blast
  let ?m = "m\<lparr>m_mm := (m_mm m)[key := word_of_nat (length (m_buf m))]\<rparr>" and ?cand = "unat (m_mm m ! key)"
  have mm: "key < length (m_mm m)" using inv key(1) by (simp add: model_inv_def model_shape_def)
  have cand: "?cand \<le> length (m_buf ?m)" using inv key(1) by (simp add: model_inv_def match_refs_def)
  have inv': "model_inv ?m" using inv key(1) by (rule position_inv)
  have "extend_match c m0 = (if m_mlen m \<ge> 6 then Some m
      else if ?cand \<noteq> 0 \<and> ?cand \<noteq> unat (word_of_nat (length (m_buf m)) :: u32) \<and> ?cand \<ge> 2 then try_match c ?cand ?m else Some ?m)"
    using key(2) mm by (simp add: extend_match_def m_def [symmetric] Let_def)
  then show ?thesis using inv inv' try_match_inv [OF inv' cand] by auto
qed

lemma shift_contexts_run: "length h = 8 \<Longrightarrow> \<exists>h'. shift_contexts c h = Some h' \<and> length h' = 8"
  by (simp add: shift_contexts_def)

lemma byte_update_inv:
  assumes "model_inv m"
  shows "\<exists>m'. byte_update b m = Some m' \<and> model_inv m'"
proof -
  have "length (m_h m) = 8" using assms by (simp add: model_inv_def model_shape_def)
  then obtain h where h: "shift_contexts (ucast b) (m_h m) = Some h" "length h = 8" using shift_contexts_run by blast
  have inv: "model_inv (m\<lparr>m_buf := m_buf m @ [b], m_h := h, m_word := w, m_sp := s\<rparr>)" for w s
    using assms h(2) by (auto simp: model_inv_def model_shape_def model_refs_def match_refs_def intro: le_SucI)
  have miss: "model_inv (m'\<lparr>m_miss := False\<rparr>)" if "model_inv m'" for m'
    using that by (simp add: model_inv_def model_shape_def model_refs_def match_refs_def)
  have "\<exists>m'. do { m' \<leftarrow> extend_match (ucast b) (m\<lparr>m_buf := m_buf m @ [b], m_h := h, m_word := w, m_sp := s\<rparr>); Some (m'\<lparr>m_miss := False\<rparr>) } =
      Some m' \<and> model_inv m'" for w s
    using extend_match_inv [OF inv [of s w], of "ucast b"] miss by fastforce
  then show ?thesis unfolding byte_update_def Let_def h(1) by simp
qed

lemma reset_history_inv: "model_inv m \<Longrightarrow> model_inv (reset_history m)"
  by (simp add: reset_history_def model_inv_def model_shape_def model_refs_def match_refs_def)

section \<open>Predictions\<close>

lemma read_slot_inv:
  assumes "model_inv m" "k < 8" "i \<le> m_mask m"
  shows "\<exists>m'. read_slot (k, i) m = Some m' \<and> model_inv m' \<and> m_mask m' = m_mask m"
proof -
  have st: "unat (s :: u8) < 256" for s using unsigned_less [of s, where ?'a = nat] by simp
  show ?thesis
    using assms st
    by (auto simp: read_slot_def model_inv_def model_shape_def model_refs_def match_refs_def nth_list_update model_consts)
qed

lemma read_slots_inv:
  assumes "model_inv m" "length slots = 8" "\<forall>i \<in> set slots. i \<le> m_mask m"
  shows "\<exists>m'. fold_opt read_slot (enumerate 0 slots) m = Some m' \<and> model_inv m' \<and> m_mask m' = m_mask m"
proof -
  have "\<exists>m'. fold_opt read_slot (enumerate 0 slots) m = Some m' \<and> (model_inv m' \<and> m_mask m' = m_mask m)"
  proof (rule fold_opt_inv)
    fix x s assume x: "x \<in> set (enumerate 0 slots)" and s: "model_inv s \<and> m_mask s = m_mask m"
    obtain k i where ki: "x = (k, i)" by (cases x)
    with x have "k < 8" "i \<in> set slots" using assms(2) by (auto simp: in_set_enumerate_eq)
    then show "\<exists>s'. read_slot x s = Some s' \<and> (model_inv s' \<and> m_mask s' = m_mask m)"
      unfolding ki using read_slot_inv [of s k i] s assms(3) by auto
  qed (use assms(1) in simp)
  then show ?thesis by blast
qed

lemma context_slots_ok:
  assumes "model_inv m"
  shows "length (context_slots c m) = 8" "\<forall>i \<in> set (context_slots c m). i \<le> m_mask m"
  using assms nat_and_le by (auto simp: context_slots_def model_inv_def model_shape_def)

lemma match_input_inv:
  assumes "model_inv m"
  shows "\<exists>v m'. match_input c0 nbits m = Some (v, m') \<and> model_inv m'"
proof -
  have mt: "length (m_mt m) = mt_len" "0 < mt_len" using assms by (simp_all add: model_inv_def model_shape_def mt_len_def)
  have ix: "i AND (mt_len - 1) < length (m_mt m)" for i
    using nat_and_le [of i "mt_len - 1"] mt by simp
  have upd: "model_inv (m\<lparr>m_mt := (m_mt m)[i := v]\<rparr>)" "model_inv (m\<lparr>m_miss := b\<rparr>)" for i v b
    using assms by (simp_all add: model_inv_def model_shape_def model_refs_def match_refs_def)
  show ?thesis using assms upd ix by (simp add: match_input_def Let_def)
qed

lemma weight_rows_run:
  assumes "model_inv m"
  shows "\<exists>r0 r1 r2. weight_rows m = Some [r0, r1, r2] \<and> length r0 = nw \<and> length r1 = nw \<and> length r2 = nw"
proof -
  have m: "length (m_m1 m) = 3" "length (m_m1 m ! 0) = 16 * nw" "length (m_m1 m ! 1) = 256 * nw" "length (m_m1 m ! 2) = 4096 * nw"
    "length (m_rows m) = 3" "m_rows m ! 0 < 16" "m_rows m ! 1 < 256" "m_rows m ! 2 < 4096"
    using assms by (simp_all add: model_inv_def model_shape_def model_refs_def)
  have fit: "r * nw + nw \<le> n * nw \<and> min (n * nw - r * nw) nw = nw" if "r < n" for r n
    using mult_le_mono1 [of "Suc r" n nw] that by (simp add: min_absorb2)
  show ?thesis
    using m fit [OF m(6)] fit [OF m(7)] fit [OF m(8)] by (simp add: weight_rows_def mem_read_def)
qed

lemma mix_step_inv:
  assumes "model_inv m" "j < 3" "base + 3 < length (m_m2 m)"
  shows "\<exists>d' m'. mix_step base (j, dot) (d, m) = Some (d', m') \<and> model_inv m' \<and> m_m2 m' = m_m2 m \<and> m_idx m' = m_idx m \<and> m_sse m' = m_sse m"
  using assms by (auto simp: mix_step_def Let_def model_inv_def model_shape_def model_refs_def match_refs_def)

lemma mix_steps_inv:
  assumes "model_inv m" "length dots = 3" "base + 3 < length (m_m2 m)"
  shows "\<exists>d' m'. fold_opt (mix_step base) (enumerate 0 dots) (d, m) = Some (d', m') \<and> model_inv m' \<and> m_m2 m' = m_m2 m"
proof -
  let ?I = "\<lambda>(d :: i64, m'). model_inv m' \<and> m_m2 m' = m_m2 m"
  have "\<exists>s'. fold_opt (mix_step base) (enumerate 0 dots) (d, m) = Some s' \<and> ?I s'"
  proof (rule fold_opt_inv)
    fix x s assume x: "x \<in> set (enumerate 0 dots)" and s: "?I s"
    obtain j dot where jd: "x = (j, dot)" by (cases x)
    obtain d1 m1 where dm: "s = (d1, m1)" by (cases s)
    from x jd have "j < 3" using assms(2) by (auto simp: in_set_enumerate_eq)
    with mix_step_inv [of m1 j base dot d1] s assms(3) show "\<exists>s'. mix_step base x s = Some s' \<and> ?I s'"
      unfolding jd dm by auto
  qed (use assms(1) in simp)
  then show ?thesis by auto
qed

section \<open>The mixer kernel\<close>

lemma mul_epi32_fits:
  fixes w :: i64 and s :: i32
  assumes "sint w < sint fit_hi" "sint fit_lo < sint w"
  shows "mul_epi32 w (scast s) = w * scast s"
proof -
  have "sint w < 2 ^ 31" "- (2 ^ 31) \<le> sint w" using assms by (simp_all add: fit_hi_def fit_lo_def)
  then have "signed_take_bit 31 (sint w) = sint w" by (simp add: signed_take_bit_int_eq_self)
  moreover have "signed_take_bit 31 (uint w) = signed_take_bit 31 (sint w)" by (simp add: sint_uint)
  ultimately have "sint (ucast w :: 32 word) = sint w" by (simp add: signed_ucast_eq)
  then have "scast (ucast w :: 32 word) = w" by (simp add: scast_eq)
  moreover have "ucast (scast s :: i64) = s" by (rule bit_word_eqI) (auto simp: bit_simps)
  ultimately show ?thesis by (simp add: mul_epi32_def)
qed

lemma list_of_ten:
  assumes "length xs = nw"
  obtains a b c d e f g h i j where "xs = [a, b, c, d, e, f, g, h, i, j]"
  using assms by (auto simp: model_consts numeral_eq_Suc length_Suc_conv)

text \<open>Adding eight lanes and two more in halves is adding them in order.\<close>

lemma lanes_sum:
  fixes f :: "'b \<Rightarrow> 'c \<Rightarrow> 'a :: comm_monoid_add"
  assumes "length row = nw" "length st = nw"
  shows "(let p = map2 (+) (map2 f (take 4 row) (map g (take 4 st))) (map2 f (take 4 (drop 4 row)) (map g (take 4 (drop 4 st))));
      t = map2 (+) p (map2 f (take 2 (drop 8 row)) (map g (take 2 (drop 8 st))) @ [0, 0]);
      fold = map2 (+) (take 2 t) (drop 2 t) in fold ! 0 + fold ! 1) = foldl (\<lambda>acc (w, s). acc + f w (g s)) 0 (zip row st)"
proof -
  obtain a b c d e f g h i j where row: "row = [a, b, c, d, e, f, g, h, i, j]" using list_of_ten [OF assms(1)] .
  obtain a' b' c' d' e' f' g' h' i' j' where st: "st = [a', b', c', d', e', f', g', h', i', j']" using list_of_ten [OF assms(2)] .
  show ?thesis by (simp add: row st ac_simps)
qed

lemma dot_avx2_eq:
  assumes "length row = nw" "length st = nw" "fits_avx2 row"
  shows "dot_avx2 row st = dot_scalar row st"
proof -
  have "dot_avx2 row st = foldl (\<lambda>acc (w, s). acc + mul_epi32 w (scast s)) 0 (zip row st)"
    unfolding dot_avx2_def using lanes_sum [OF assms(1,2), of mul_epi32 scast] by (simp only: Let_def)
  also have "\<dots> = dot_scalar row st"
    unfolding dot_scalar_def
    by (rule foldl_cong) (use assms(3) mul_epi32_fits in \<open>auto simp: fits_avx2_def list_all_iff dest: set_zip_leftD\<close>)
  finally show ?thesis .
qed

lemma mixer_dots_eq:
  assumes "\<forall>row \<in> set rows. length row = nw" "length st = nw" "mixer_dots level rows st = Some dots"
  shows "dots = mixer_dots_scalar rows st"
  using assms
  by (auto simp: mixer_dots_def mixer_dots_avx2_def mixer_dots_scalar_def dot_avx2_eq list_all_iff split: simd_level.splits if_splits)

lemma mixed_dots:
  assumes "\<forall>row \<in> set rows. length row = nw" "length st = nw"
  shows "(case mixer_dots level rows st of Some dots \<Rightarrow> dots | None \<Rightarrow> mixer_dots_scalar rows st) = mixer_dots_scalar rows st"
  using mixer_dots_eq [OF assms, of level] by (cases "mixer_dots level rows st") simp_all

section \<open>The prediction\<close>

lemma predict_inv:
  assumes "model_inv m0"
  shows "\<exists>p m. (\<forall>level. predict level c0 nbits m0 = Some (p, m)) \<and> model_inv m \<and> 1 \<le> unat p \<and> unat p \<le> 4095"
proof -
  define nb where "nb = nbits AND 7"
  define row where "row = nb * nsel + (if m_mlen m0 \<noteq> 0 \<and> \<not> m_miss m0 then 1 else 0)"
  define prev where "prev = unat (m_h m0 ! 0 AND 0xFF)"
  define m1 where "m1 = m0\<lparr>m_row2 := row, m_rows := [row, push_bit 4 row OR drop_bit 4 prev, push_bit 8 row OR prev]\<rparr>"
  have "nb \<le> 7" unfolding nb_def by (rule nat_and_le)
  then have row: "row < 16" by (simp add: row_def nsel_def)
  have prev: "prev < 256" unfolding prev_def by (rule order.strict_trans1 [OF unat_and_upper]) simp
  have "push_bit 4 row < 2 ^ 8" "drop_bit 4 prev < 2 ^ 8" "push_bit 8 row < 2 ^ 12" "prev < 2 ^ 12"
    using row prev by (simp_all add: push_bit_eq_mult drop_bit_eq_div)
  then have "push_bit 4 row OR drop_bit 4 prev < 2 ^ 8" "push_bit 8 row OR prev < 2 ^ 12" by (blast intro: nat_or_less)+
  then have rows: "push_bit 4 row OR drop_bit 4 prev < 256" "push_bit 8 row OR prev < 4096" by simp_all
  have inv1: "model_inv m1"
    using assms row rows by (simp add: m1_def model_inv_def model_shape_def model_refs_def match_refs_def)
  have "length (m_h m0) = 8" using assms by (simp add: model_inv_def model_shape_def)
  then have hp: "map_option (\<lambda>h. unat (h AND 0xFF)) (get_at (m_h m0) 0) = Some prev" by (simp add: prev_def)
  from read_slots_inv [OF inv1 context_slots_ok [OF inv1]] obtain m2 where
    m2: "fold_opt read_slot (enumerate 0 (context_slots (c0 * phi) m1)) m1 = Some m2" "model_inv m2" by blast
  from match_input_inv [OF m2(2)] obtain v m3 where m3: "match_input c0 nb m2 = Some (v, m3)" "model_inv m3" by blast
  let ?m4 = "m3\<lparr>m_st := (m_st m3)[nctx := v]\<rparr>"
  have st: "nctx < length (m_st m3)" using m3(2) by (simp add: model_inv_def model_shape_def model_consts)
  have inv4: "model_inv ?m4" using m3(2) by (simp add: model_inv_def model_shape_def model_refs_def match_refs_def)
  from weight_rows_run [OF inv4] obtain r0 r1 r2 where wr: "weight_rows ?m4 = Some [r0, r1, r2]"
    "length r0 = nw" "length r1 = nw" "length r2 = nw" by blast
  define dots where "dots = mixer_dots_scalar [r0, r1, r2] (m_st ?m4)"
  have "length (m_st ?m4) = nw" using inv4 by (simp add: model_inv_def model_shape_def)
  then have mixed: "(case mixer_dots level [r0, r1, r2] (m_st ?m4) of Some dots \<Rightarrow> dots | None \<Rightarrow> mixer_dots_scalar [r0, r1, r2] (m_st ?m4)) = dots" for level
    unfolding dots_def using wr(2-4) by (intro mixed_dots) auto
  have ld: "length dots = 3" by (simp add: dots_def mixer_dots_scalar_def)
  have base: "row * nw2 + 3 < length (m_m2 ?m4)"
    using row inv4 by (simp add: model_inv_def model_shape_def model_consts)
  from mix_steps_inv [OF inv4 ld base] obtain d2 m5 where
    m5: "fold_opt (mix_step (row * nw2)) (enumerate 0 dots) (0, ?m4) = Some (d2, m5)" "model_inv m5" "m_m2 m5 = m_m2 ?m4" by blast
  have b5: "row * nw2 + nmx < length (m_m2 m5)" using base m5(3) by (simp add: nmx_def)
  have i5: "1 < length (m_idx m5)" "0 < length (m_sse m5)" using m5(2) by (simp_all add: model_inv_def model_shape_def)
  have sx: "i AND (length (m_sse m5) - 1) < length (m_sse m5)" for i using nat_and_le [of i "length (m_sse m5) - 1"] i5(2) by linarith
  have final: "model_inv (m5\<lparr>m_sidx := i, m_pr := q\<rparr>)" if "i < length (m_sse m5)" for i q
    using m5(2) that by (simp add: model_inv_def model_shape_def model_refs_def match_refs_def)
  define lg where "lg = clamplog64 (signed_drop_bit 16 (d2 + push_bit 8 (m_m2 m5 ! (row * nw2 + nmx))))"
  define sidx where "sidx = (drop_bit 4 (m_idx m5 ! 1) XOR unat (signed_drop_bit 6 (squash lg))) AND (length (m_sse m5) - 1)"
  define pr where "pr = squash64 (scast lg + scast (signed_drop_bit 6 (m_sse m5 ! sidx)))"
  have ix: "sidx < length (m_sse m5)" unfolding sidx_def by (rule sx)
  have "predict level c0 nbits m0 = Some (pr, m5\<lparr>m_sidx := sidx, m_pr := pr\<rparr>)" for level
    unfolding predict_def Let_def nb_def [symmetric] row_def [symmetric] hp bind.bind_lunit m1_def [symmetric]
    using m2(1) m3(1) st wr(1) m5(1) b5 i5 ix
    by (simp add: mixed [simplified] lg_def [symmetric] sidx_def [symmetric, simplified] pr_def [symmetric])
  moreover have "1 \<le> unat pr" "unat pr \<le> 4095" unfolding pr_def squash64_def by (rule squash_range)+
  ultimately show ?thesis using final [OF ix, of pr] by blast
qed

section \<open>Learning\<close>

lemma row2_fits:
  assumes "model_inv m" "j \<le> 3"
  shows "m_row2 m * nw2 + j < length (m_m2 m)"
  using assms by (simp add: model_inv_def model_shape_def model_refs_def nw2_def nmx_def)

lemma weight_fits:
  assumes "model_inv m" "j < 3" "i < nw"
  shows "m_rows m ! j * nw + i < length (m_m1 m ! j)"
proof -
  have fit: "r * nw + i < n * nw" if "r < n" for r n
    using mult_le_mono1 [of "Suc r" n nw] that assms(3) by simp
  have "j = 0 \<or> j = 1 \<or> j = 2" using assms(2) by arith
  then show ?thesis
    using assms(1) fit [of "m_rows m ! 0" 16] fit [of "m_rows m ! 1" 256] fit [of "m_rows m ! 2" 4096]
    by (auto simp: model_inv_def model_shape_def model_refs_def)
qed

lemma m2_inv: "model_inv m \<Longrightarrow> length w = length (m_m2 m) \<Longrightarrow> model_inv (m\<lparr>m_m2 := w\<rparr>)"
  by (simp add: model_inv_def model_shape_def model_refs_def match_refs_def)

lemma m1_inv: "model_inv m \<Longrightarrow> j < 3 \<Longrightarrow> length t = length (m_m1 m ! j) \<Longrightarrow> model_inv (m\<lparr>m_m1 := (m_m1 m)[j := t]\<rparr>)"
  by (auto simp: model_inv_def model_shape_def model_refs_def match_refs_def nth_list_update numeral_3_eq_3 less_Suc_eq numeral_2_eq_2)

lemma learn_out_inv:
  assumes "model_inv m" "j < 3"
  shows "\<exists>m'. learn_out err (m_row2 m * nw2) j m = Some m' \<and> model_inv m' \<and> m_row2 m' = m_row2 m"
proof -
  have "m_row2 m * nw2 + j < length (m_m2 m)" using assms by (simp add: row2_fits)
  moreover have "j < length (m_s2 m)" using assms by (simp add: model_inv_def model_shape_def)
  ultimately show ?thesis using assms(1) by (simp add: learn_out_def m2_inv)
qed

lemma learn_weight_inv:
  assumes "model_inv m" "j < 3" "i < nw"
  shows "\<exists>m'. learn_weight e1 j (m_rows m ! j * nw) i m = Some m' \<and> model_inv m' \<and> m_row2 m' = m_row2 m \<and> m_rows m' = m_rows m"
proof -
  have "i < length (m_st m)" "j < length (m_m1 m)" using assms by (simp_all add: model_inv_def model_shape_def)
  with weight_fits [OF assms] show ?thesis using assms by (simp add: learn_weight_def m1_inv)
qed

lemma learn_row_inv:
  assumes "model_inv m" "j < 3"
  shows "\<exists>m'. learn_row err (m_row2 m * nw2) j m = Some m' \<and> model_inv m' \<and> m_row2 m' = m_row2 m"
proof -
  have b: "m_row2 m * nw2 + j < length (m_m2 m)" using assms by (simp add: row2_fits)
  have j: "j < length (m_rows m)" using assms by (simp add: model_inv_def model_refs_def)
  have "\<exists>m'. fold_opt (learn_weight e1 j (m_rows m ! j * nw)) [0..<nw] m = Some m' \<and>
      (model_inv m' \<and> m_row2 m' = m_row2 m \<and> m_rows m' = m_rows m)" for e1
  proof (rule fold_opt_inv)
    fix i s assume "i \<in> set [0..<nw]" and s: "model_inv s \<and> m_row2 s = m_row2 m \<and> m_rows s = m_rows m"
    then show "\<exists>s'. learn_weight e1 j (m_rows m ! j * nw) i s = Some s' \<and>
        (model_inv s' \<and> m_row2 s' = m_row2 m \<and> m_rows s' = m_rows m)"
      using learn_weight_inv [of s j i e1] assms(2) by simp
  qed (use assms(1) in simp)
  then show ?thesis using b j assms(1) by (fastforce simp: learn_row_def Let_def)
qed

lemma learn_context_inv:
  assumes "model_inv m" "k < 8" "unat b \<le> 1"
  shows "\<exists>m'. learn_context b k m = Some m' \<and> model_inv m' \<and> m_row2 m' = m_row2 m"
proof -
  have st: "unat (s :: u8) < 256" for s using unsigned_less [of s, where ?'a = nat] by simp
  have m: "k < length (m_sn m)" "k < length (m_sm m)" "length (m_sm m ! k) = 256" "k < length (m_tc m)" "k < length (m_idx m)"
    "m_idx m ! k < length (m_tc m ! k)"
    using assms by (auto simp: model_inv_def model_shape_def model_refs_def less_Suc_eq_le)
  have "unat (entry AND 255) < 256" for entry :: u32
    by (rule order.strict_trans1 [OF unat_and_upper]) simp
  then have visits: "unat (entry AND 255) < length invr" for entry :: u32 by (simp add: length_tables)
  have "push_bit 1 (unat (s :: u8)) OR unat b < 2 ^ 9" for s
    using st [of s] assms(3) by (intro nat_or_less) (simp_all add: push_bit_eq_mult)
  then have nx: "push_bit 1 (unat (s :: u8)) OR unat b < length nx" for s by (simp add: length_tables)
  have upd: "model_inv (m\<lparr>m_sm := (m_sm m)[k := x], m_tc := (m_tc m)[k := y]\<rparr>)"
    if "length x = 256" "length y = length (m_tc m ! k)" for x y
    using assms(1,2) that by (auto simp: model_inv_def model_shape_def model_refs_def match_refs_def nth_list_update)
  show ?thesis
    using m st visits nx [simplified] by (simp add: learn_context_def Let_def upd)
qed

lemma model_update_inv:
  assumes "model_inv m"
  shows "\<exists>m'. model_update b m = Some m' \<and> model_inv m'"
proof -
  let ?I = "\<lambda>s. model_inv s \<and> m_row2 s = m_row2 m"
  define err where "err = push_bit 12 (b AND 1) - m_pr m"
  have b1: "unat (b AND 1) \<le> 1" using unat_and_upper [of b 1] by simp
  have I: "?I m" using assms by simp
  have "\<exists>m1. fold_opt (learn_out err (m_row2 m * nw2)) [0..<nmx] m = Some m1 \<and> ?I m1"
    by (rule fold_opt_inv) (use I in \<open>auto simp: nmx_def dest: learn_out_inv [where err = err]\<close>)
  then obtain m1 where m1: "fold_opt (learn_out err (m_row2 m * nw2)) [0..<nmx] m = Some m1" "?I m1" by blast
  have b3: "m_row2 m * nw2 + nmx < length (m_m2 m1)" using row2_fits [of m1 3] m1(2) by (simp add: nmx_def)
  define m2 where "m2 = m1\<lparr>m_m2 := (m_m2 m1)[m_row2 m * nw2 + nmx :=
     m_m2 m1 ! (m_row2 m * nw2 + nmx) + signed_drop_bit (lr_shift m1 - 8) (scast err)]\<rparr>"
  have I2: "?I m2" using m1(2) by (simp add: m2_def m2_inv)
  have "\<exists>m3. fold_opt (learn_row err (m_row2 m * nw2)) [0..<nmx] m2 = Some m3 \<and> ?I m3"
    by (rule fold_opt_inv) (use I2 in \<open>auto simp: nmx_def dest: learn_row_inv [where err = err]\<close>)
  then obtain m3 where m3: "fold_opt (learn_row err (m_row2 m * nw2)) [0..<nmx] m2 = Some m3" "?I m3" by blast
  have "\<exists>m4. fold_opt (learn_context (b AND 1)) [0..<nctx] m3 = Some m4 \<and> ?I m4"
    by (rule fold_opt_inv) (use m3(2) in \<open>auto simp: nctx_def dest: learn_context_inv [OF _ _ b1]\<close>)
  then obtain m4 where m4: "fold_opt (learn_context (b AND 1)) [0..<nctx] m3 = Some m4" "?I m4" by blast
  have "m_sidx m4 < length (m_sse m4)" using m4(2) by (simp add: model_inv_def model_refs_def)
  moreover have "model_inv (m4\<lparr>m_sse := (m_sse m4)[m_sidx m4 := v]\<rparr>)" for v
    using m4(2) by (simp add: model_inv_def model_shape_def model_refs_def match_refs_def)
  ultimately show ?thesis
    unfolding model_update_def Let_def err_def [symmetric]
    using m1(1) m3(1) m4(1) b3 by (simp add: m2_def [symmetric])
qed

interpretation wezc: bit_predictor model_inv predict model_update byte_update reset_history
proof unfold_locales
  show "\<exists>p m'. (\<forall>level. predict level c0 nbits m = Some (p, m')) \<and> model_inv m' \<and> probability p" if "model_inv m" for m c0 nbits
    using predict_inv [OF that, of c0 nbits] unfolding probability_def by blast
qed (simp_all add: model_update_inv byte_update_inv reset_history_inv)

section \<open>Any sequence of calls\<close>

datatype model_call = CallPredict u32 nat | CallUpdate u32 | CallByte u8 | CallReset

fun call_model :: "simd_level \<Rightarrow> model_call \<Rightarrow> model \<Rightarrow> model option" where
  "call_model level (CallPredict c0 nbits) m = map_option snd (predict level c0 nbits m)"
| "call_model level (CallUpdate b) m = model_update b m"
| "call_model level (CallByte byte) m = byte_update byte m"
| "call_model level CallReset m = Some (reset_history m)"

lemma call_model_inv:
  assumes "model_inv m"
  shows "\<exists>m'. (\<forall>level. call_model level c m = Some m') \<and> model_inv m'"
proof (cases c)
  case (CallPredict c0 nbits)
  with predict_inv [OF assms, of c0 nbits] show ?thesis by auto
qed (use model_update_inv [OF assms] byte_update_inv [OF assms] reset_history_inv [OF assms] in simp_all)

lemma call_models_inv:
  assumes "model_inv m"
  shows "\<exists>m'. (\<forall>level. fold_opt (call_model level) calls m = Some m') \<and> model_inv m'"
  using assms
proof (induction calls arbitrary: m)
  case (Cons c calls)
  from call_model_inv [OF Cons.prems, of c] obtain m1 where m1: "\<And>level. call_model level c m = Some m1" "model_inv m1" by blast
  from Cons.IH [OF m1(2)] show ?case by (simp add: m1(1))
qed simp

text \<open>
  C16: A model that was built runs any sequence of its calls in any order without an index
  outside a table, and every prediction is between 1 and 4095, what the coder needs.
\<close>

theorem model_never_panics:
  assumes "model_new mbits sbits lr = Inr m"
  shows "\<exists>m'. fold_opt (call_model level) calls m = Some m' \<and> model_inv m' \<and>
    (\<forall>c0 nbits. \<exists>p m''. predict level c0 nbits m' = Some (p, m'') \<and> 1 \<le> unat p \<and> unat p \<le> 4095)"
  using call_models_inv [OF model_new_inv [OF assms], of calls] predict_inv by metis

theorem model_never_panics_witness:
  "\<exists>m m'. model_new 8 4 11 = Inr m \<and>
     fold_opt (call_model Avx2) [CallPredict 1 0, CallUpdate 1, CallByte 65, CallReset] m = Some m' \<and> model_inv m'"
proof -
  obtain m where "model_new 8 4 11 = Inr m" by (simp add: model_new_def Let_def)
  from this model_never_panics [OF this, of Avx2 "[CallPredict 1 0, CallUpdate 1, CallByte 65, CallReset]"] show ?thesis by blast
qed

text \<open>
  C17: The vectorised mixer computes what the scalar loop computes: after any sequence of calls
  the model is in the same state on every machine.
\<close>

theorem model_kernel_independent:
  assumes "model_new mbits sbits lr = Inr m"
  shows "fold_opt (call_model level) calls m = fold_opt (call_model Scalar) calls m"
  using call_models_inv [OF model_new_inv [OF assms], of calls] by auto

theorem model_kernel_independent_witness:
  "\<exists>m. model_new 8 4 11 = Inr m \<and>
     fold_opt (call_model Avx512) [CallPredict 1 0, CallUpdate 1] m = fold_opt (call_model Scalar) [CallPredict 1 0, CallUpdate 1] m"
proof -
  obtain m where "model_new 8 4 11 = Inr m" by (simp add: model_new_def Let_def)
  from this model_kernel_independent [OF this, of Avx512 "[CallPredict 1 0, CallUpdate 1]"] show ?thesis by blast
qed

end
