(* ===== verification/Werc_Codec_Props.thy ===== *)
theory Werc_Codec_Props
  imports Werc_Codec Werc_Model_Props
begin

text \<open>
  The decoder returns what the encoder was given. The proof is a simulation: a step of the encoding
  run is \<^emph>\<open>tracked\<close> by a step of the decoding run when the decoder, in sync with the encoder before
  the step, reads the same bits and is in sync after it, for every payload that covers the interval
  the encoder ends with. Tracked steps compose, so bits make bytes and bytes make blocks.
\<close>

section \<open>Tracked steps\<close>

definition tracks :: "nat \<Rightarrow> ('x \<Rightarrow> bool) \<Rightarrow> ('x \<Rightarrow> bool) \<Rightarrow> ('x \<Rightarrow> 'y \<Rightarrow> bool) \<Rightarrow> ('x \<Rightarrow> 'y \<Rightarrow> bool) \<Rightarrow>
    ('x \<times> side \<Rightarrow> ('x \<times> side) option) \<Rightarrow> ('y \<times> side \<Rightarrow> ('y \<times> side) option) \<Rightarrow> bool" where
  "tracks k I I' R R' F G \<longleftrightarrow>
     (\<forall>x e. I x \<longrightarrow> enc_ok e \<longrightarrow>
       (\<exists>x' e'. F (x, Encode e) = Some (x', Encode e') \<and> I' x' \<and> enc_ok e' \<and> length (e_out e') \<le> length (e_out e) + k \<and>
         (\<forall>payload. covers payload e' \<longrightarrow> covers payload e \<and>
           (\<forall>y d. R x y \<longrightarrow> synced payload e d \<longrightarrow>
             (\<exists>y' d'. G (y, Decode d) = Some (y', Decode d') \<and> R' x' y' \<and> synced payload e' d')))))"

lemma tracksI:
  assumes "\<And>x e. I x \<Longrightarrow> enc_ok e \<Longrightarrow> \<exists>x' e'. F (x, Encode e) = Some (x', Encode e') \<and> I' x' \<and> enc_ok e' \<and> length (e_out e') \<le> length (e_out e) + k \<and>
    (\<forall>payload. covers payload e' \<longrightarrow> covers payload e \<and>
      (\<forall>y d. R x y \<longrightarrow> synced payload e d \<longrightarrow> (\<exists>y' d'. G (y, Decode d) = Some (y', Decode d') \<and> R' x' y' \<and> synced payload e' d')))"
  shows "tracks k I I' R R' F G"
  using assms unfolding tracks_def by blast

lemma tracksD:
  assumes "tracks k I I' R R' F G" "I x" "enc_ok e"
  shows "\<exists>x' e'. F (x, Encode e) = Some (x', Encode e') \<and> I' x' \<and> enc_ok e' \<and> length (e_out e') \<le> length (e_out e) + k \<and>
    (\<forall>payload. covers payload e' \<longrightarrow> covers payload e \<and>
      (\<forall>y d. R x y \<longrightarrow> synced payload e d \<longrightarrow> (\<exists>y' d'. G (y, Decode d) = Some (y', Decode d') \<and> R' x' y' \<and> synced payload e' d')))"
  using assms unfolding tracks_def by blast

lemma tracks_seq:
  assumes "tracks k I I' R R' F G" "tracks k' I' I'' R' R'' F' G'"
  shows "tracks (k + k') I I'' R R'' (\<lambda>s. F s \<bind> F') (\<lambda>s. G s \<bind> G')"
proof (rule tracksI)
  fix x e assume "I x" "enc_ok e"
  with assms(1) obtain x1 e1 where
    1: "F (x, Encode e) = Some (x1, Encode e1)" "I' x1" "enc_ok e1" "length (e_out e1) \<le> length (e_out e) + k"
      "\<forall>payload. covers payload e1 \<longrightarrow> covers payload e \<and> (\<forall>y d. R x y \<longrightarrow> synced payload e d \<longrightarrow>
         (\<exists>y' d'. G (y, Decode d) = Some (y', Decode d') \<and> R' x1 y' \<and> synced payload e1 d'))"
    unfolding tracks_def by blast
  from assms(2) 1(2,3) obtain x2 e2 where
    2: "F' (x1, Encode e1) = Some (x2, Encode e2)" "I'' x2" "enc_ok e2" "length (e_out e2) \<le> length (e_out e1) + k'"
      "\<forall>payload. covers payload e2 \<longrightarrow> covers payload e1 \<and> (\<forall>y d. R' x1 y \<longrightarrow> synced payload e1 d \<longrightarrow>
         (\<exists>y' d'. G' (y, Decode d) = Some (y', Decode d') \<and> R'' x2 y' \<and> synced payload e2 d'))"
    unfolding tracks_def by blast
  have "\<exists>y2 d2. G (y, Decode d) \<bind> G' = Some (y2, Decode d2) \<and> R'' x2 y2 \<and> synced payload e2 d2"
    if c: "covers payload e2" and "R x y" "synced payload e d" for payload y d
  proof -
    from 1(5) 2(5) that obtain y1 d1 where y1: "G (y, Decode d) = Some (y1, Decode d1)" "R' x1 y1" "synced payload e1 d1" by blast
    with 2(5) c show ?thesis by simp
  qed
  then show "\<exists>x' e'. F (x, Encode e) \<bind> F' = Some (x', Encode e') \<and> I'' x' \<and> enc_ok e' \<and> length (e_out e') \<le> length (e_out e) + (k + k') \<and>
    (\<forall>payload. covers payload e' \<longrightarrow> covers payload e \<and>
      (\<forall>y d. R x y \<longrightarrow> synced payload e d \<longrightarrow> (\<exists>y' d'. G (y, Decode d) \<bind> G' = Some (y', Decode d') \<and> R'' x' y' \<and> synced payload e' d')))"
    using 1(1,4) 2(1-4) 1(5) 2(5) by simp
qed

lemma fold_opt_append: "fold_opt f (xs @ ys) s = fold_opt f xs s \<bind> fold_opt f ys"
  by (induction xs arbitrary: s) simp_all

lemma fold_opt_single: "fold_opt f [x] = f x"
  by (rule ext) (simp split: bind_split)

lemma fold_opt_Suc: "fold_opt f [0..<Suc n] = (\<lambda>s. fold_opt f [0..<n] s \<bind> f n)"
  by (rule ext) (simp add: fold_opt_append fold_opt_single del: fold_opt.simps)

lemma tracks_fold:
  assumes "\<And>i. i < n \<Longrightarrow> tracks k (I i) (I (Suc i)) (R i) (R (Suc i)) (F i) (G i)"
  shows "tracks (n * k) (I 0) (I n) (R 0) (R n) (fold_opt F [0..<n]) (fold_opt G [0..<n])"
  using assms
proof (induction n)
  case 0
  show ?case by (rule tracksI) auto
next
  case (Suc n)
  then have "tracks (n * k + k) (I 0) (I (Suc n)) (R 0) (R (Suc n)) (\<lambda>s. fold_opt F [0..<n] s \<bind> F n) (\<lambda>s. fold_opt G [0..<n] s \<bind> G n)"
    by (intro tracks_seq [where I' = "I n" and R' = "R n"]) auto
  then show ?case by (simp only: fold_opt_Suc mult_Suc add.commute)
qed

section \<open>A byte\<close>

text \<open>After \<open>i\<close> bits the byte put together holds the top \<open>i\<close> bits of the byte that is coded.\<close>

definition bit_inv :: "u8 \<Rightarrow> nat \<Rightarrow> u32 \<times> u8 \<times> model \<Rightarrow> bool" where
  "bit_inv byte i = (\<lambda>(c0, byte_out, m). model_inv m \<and> byte_out = drop_bit (8 - i) byte)"

lemma bit_of_byte:
  assumes "i < 8"
  shows "drop_bit (7 - i) (ucast (byte :: u8)) AND 1 = (of_bool (bit byte (7 - i)) :: u32)"
  using assms by (intro bit_word_eqI) (auto simp: bit_simps)

lemma next_bit:
  assumes "i < 8"
  shows "push_bit 1 (drop_bit (8 - i) byte) OR of_bool (bit byte (7 - i)) = drop_bit (8 - Suc i) (byte :: u8)"
proof (rule bit_word_eqI)
  fix j assume "j < LENGTH(8)"
  have "8 - i + (j - 1) = 7 - i + j" if "0 < j" using that assms by simp
  then show "bit (push_bit 1 (drop_bit (8 - i) byte) OR of_bool (bit byte (7 - i))) j = bit (drop_bit (8 - Suc i) byte) j"
    unfolding bit_or_iff bit_push_bit_iff using assms bit_imp_le_length [of byte "7 - i + j"]
    by (cases "j = 0") (auto simp: bit_drop_bit_eq bit_of_bool_iff)
qed

lemma run_bit_tracks:
  assumes "i < 8"
  shows "tracks 4 (bit_inv byte i) (bit_inv byte (Suc i)) (=) (=) (run_bit writer byte False i) (run_bit reader byte' False i)"
proof (rule tracksI)
  fix x e assume x: "bit_inv byte i x" and e: "enc_ok e"
  obtain c0 bo m where xm: "x = (c0, bo, m)" by (cases x)
  have m: "model_inv m" and bo: "bo = drop_bit (8 - i) byte" using x by (simp_all add: xm bit_inv_def)
  from wezc.coded_bit [OF m, of c0 i] obtain p m1 where p: "\<forall>level. predict level c0 i m = Some (p, m1)" and pr: "probability p"
    and m1: "\<forall>b. \<exists>m2. model_update b m1 = Some m2 \<and> model_inv m2" by blast
  let ?b = "bit byte (7 - i)"
  from m1 [rule_format, of "of_bool ?b"] obtain m2 where m2: "model_update (of_bool ?b) m1 = Some m2" "model_inv m2" by blast
  let ?x = "(push_bit 1 c0 OR of_bool ?b, drop_bit (8 - Suc i) byte, m2)"
  let ?e = "encode_bit p ?b e"
  have "\<exists>d'. run_bit reader byte' False i (x, Decode d) = Some (?x, Decode d') \<and> synced payload ?e d'"
    if "covers payload ?e" "synced payload e d" for payload d
    using decode_step [OF that(2) e pr that(1)] next_bit [OF assms, of byte] m2(1)
    by (cases ?b) (simp_all add: run_bit_def xm p side_code_def bo split_beta)
  moreover have "run_bit writer byte False i (x, Encode e) = Some (?x, Encode ?e)"
    using next_bit [OF assms, of byte] bit_of_byte [OF assms, of byte] m2(1)
    by (cases ?b) (simp_all add: run_bit_def xm p side_code_def bo)
  moreover have "bit_inv byte (Suc i) ?x" using m2(2) by (simp add: bit_inv_def)
  ultimately show "\<exists>x' e'. run_bit writer byte False i (x, Encode e) = Some (x', Encode e') \<and> bit_inv byte (Suc i) x' \<and> enc_ok e' \<and>
      length (e_out e') \<le> length (e_out e) + 4 \<and>
      (\<forall>payload. covers payload e' \<longrightarrow> covers payload e \<and>
        (\<forall>y d. x = y \<longrightarrow> synced payload e d \<longrightarrow> (\<exists>y' d'. run_bit reader byte' False i (y, Decode d) = Some (y', Decode d') \<and> x' = y' \<and> synced payload e' d')))"
    using encode_bit_ok [OF e pr] encode_bit_length covers_back(1) [OF e pr] by blast
qed

lemma run_byte_tracks:
  assumes "i < length planes"
  shows "tracks 32 (\<lambda>(m, out). model_inv m) (\<lambda>(m, out). model_inv m)
    (\<lambda>x y. fst x = fst y \<and> snd y = take i planes) (\<lambda>x y. fst x = fst y \<and> snd y = take (Suc i) planes)
    (run_byte writer (data_block planes) True i) (run_byte reader (to_decode (length planes)) False i)"
proof (rule tracksI)
  fix x :: "model \<times> u8 list" and e assume x: "case x of (m, out) \<Rightarrow> model_inv m" and e: "enc_ok e"
  obtain m out where xm: "x = (m, out)" by (cases x)
  let ?byte = "planes ! i"
  have T: "tracks (8 * 4) (bit_inv ?byte 0) (bit_inv ?byte 8) (=) (=)
      (fold_opt (run_bit writer ?byte False) [0..<8]) (fold_opt (run_bit reader 0 False) [0..<8])"
    by (rule tracks_fold) (rule run_bit_tracks)
  have "drop_bit 8 ?byte = 0" by (rule bit_word_eqI) (simp add: bit_drop_bit_eq)
  then have "bit_inv ?byte 0 (1, 0, m)" using x by (simp add: bit_inv_def xm)
  from tracksD [OF T this e] obtain x1 e1 where
    1: "fold_opt (run_bit writer ?byte False) [0..<8] ((1, 0, m), Encode e) = Some (x1, Encode e1)" "bit_inv ?byte 8 x1" "enc_ok e1"
      "length (e_out e1) \<le> length (e_out e) + 8 * 4"
      "\<forall>payload. covers payload e1 \<longrightarrow> covers payload e \<and> (\<forall>d. synced payload e d \<longrightarrow>
         (\<exists>d'. fold_opt (run_bit reader 0 False) [0..<8] ((1, 0, m), Decode d) = Some (x1, Decode d') \<and> synced payload e1 d'))"
    by auto
  from 1(2) obtain c1 m1 where x1: "x1 = (c1, ?byte, m1)" and m1: "model_inv m1" by (cases x1) (simp add: bit_inv_def)
  from wezc.close_byte_ok [OF m1, of ?byte] obtain m2 where m2: "byte_update ?byte m1 = Some m2" "model_inv m2" by blast
  have F: "run_byte writer (data_block planes) True i (x, Encode e) = Some ((m2, out), Encode e1)"
    using assms 1(1) m2(1) by (simp add: run_byte_def xm data_block_def x1)
  have G: "\<exists>y' d'. run_byte reader (to_decode (length planes)) False i (y, Decode d) = Some (y', Decode d') \<and>
      (m2 = fst y' \<and> snd y' = take (Suc i) planes) \<and> synced payload e1 d'"
    if c: "covers payload e1" and y: "fst x = fst y \<and> snd y = take i planes" and d: "synced payload e d" for payload y d
  proof -
    from 1(5) c d obtain d' where d': "fold_opt (run_bit reader 0 False) [0..<8] ((1, 0, m), Decode d) = Some (x1, Decode d')" "synced payload e1 d'" by blast
    have "y = (m, take i planes)" using y by (simp add: xm prod_eq_iff)
    with d' m2(1) assms show ?thesis by (simp add: run_byte_def to_decode_def x1 take_Suc_conv_app_nth)
  qed
  show "\<exists>x' e'. run_byte writer (data_block planes) True i (x, Encode e) = Some (x', Encode e') \<and> (case x' of (m, out) \<Rightarrow> model_inv m) \<and>
      enc_ok e' \<and> length (e_out e') \<le> length (e_out e) + 32 \<and>
      (\<forall>payload. covers payload e' \<longrightarrow> covers payload e \<and>
        (\<forall>y d. fst x = fst y \<and> snd y = take i planes \<longrightarrow> synced payload e d \<longrightarrow>
          (\<exists>y' d'. run_byte reader (to_decode (length planes)) False i (y, Decode d) = Some (y', Decode d') \<and>
            (fst x' = fst y' \<and> snd y' = take (Suc i) planes) \<and> synced payload e' d')))"
    using F G m2(2) 1(3-5) by auto
qed

lemma state_unit: "(\<lambda>((m :: model, out :: u8 list), side :: side). Some ((m, out), side)) = Some"
  by auto

lemma run_block_tracks:
  "tracks (length planes * 32) (\<lambda>(m, out). model_inv m) (\<lambda>(m, out). model_inv m)
     (\<lambda>x y. fst x = fst y \<and> snd y = []) (\<lambda>x y. fst x = fst y \<and> snd y = planes)
     (run_block writer (data_block planes)) (run_block reader (to_decode (length planes)))"
proof -
  have "tracks (length planes * 32) (\<lambda>(m, out). model_inv m) (\<lambda>(m, out). model_inv m)
      (\<lambda>x y. fst x = fst y \<and> snd y = take 0 planes) (\<lambda>x y. fst x = fst y \<and> snd y = take (length planes) planes)
      (fold_opt (run_byte writer (data_block planes) True) [0..<length planes])
      (fold_opt (run_byte reader (to_decode (length planes)) False) [0..<length planes])"
    by (rule tracks_fold [where I = "\<lambda>i (m, out). model_inv m" and R = "\<lambda>i x y. fst x = fst y \<and> snd y = take i planes"])
      (rule run_byte_tracks)
  moreover have "run_block writer (data_block planes) (x, Encode e) = fold_opt (run_byte writer (data_block planes) True) [0..<length planes] (x, Encode e)" for x e
    by (cases x) (simp add: run_block_def data_block_def state_unit)
  moreover have "run_block reader (to_decode (length planes)) (y, Decode d) =
      fold_opt (run_byte reader (to_decode (length planes)) False) [0..<length planes] (y, Decode d)" for y d
    by (cases y) (simp add: run_block_def to_decode_def state_unit)
  ultimately show ?thesis by (simp add: tracks_def)
qed

section \<open>Priming\<close>

text \<open>A priming step teaches the model alone: what it does depends on neither the side nor the kernel.\<close>

definition silent :: "('x \<Rightarrow> bool) \<Rightarrow> (simd_level \<Rightarrow> 'x \<times> side \<Rightarrow> ('x \<times> side) option) \<Rightarrow> bool" where
  "silent I F \<longleftrightarrow> (\<forall>x. I x \<longrightarrow> (\<exists>x'. I x' \<and> (\<forall>level side. F level (x, side) = Some (x', side))))"

lemma silent_fold:
  assumes "\<And>i. i \<in> set xs \<Longrightarrow> silent I (\<lambda>level. F level i)"
  shows "silent I (\<lambda>level. fold_opt (F level) xs)"
  using assms
proof (induction xs)
  case (Cons i xs)
  show ?case unfolding silent_def
  proof (intro allI impI)
    fix x assume "I x"
    with Cons.prems [of i] obtain x1 where x1: "I x1" "\<And>level side. F level i (x, side) = Some (x1, side)"
      unfolding silent_def by auto
    from Cons.IH [OF Cons.prems] x1(1) obtain x2 where "I x2" "\<And>level side. fold_opt (F level) xs (x1, side) = Some (x2, side)"
      unfolding silent_def by (meson list.set_intros(2))
    with x1(2) show "\<exists>x'. I x' \<and> (\<forall>level side. fold_opt (F level) (i # xs) (x, side) = Some (x', side))" by auto
  qed
qed (simp add: silent_def)

lemma prime_bit: "silent (\<lambda>(c0, byte_out, m). model_inv m) (\<lambda>level. run_bit level byte True i)"
  unfolding silent_def
proof (intro allI impI)
  fix x :: "u32 \<times> u8 \<times> model" assume x: "case x of (c0, byte_out, m) \<Rightarrow> model_inv m"
  obtain c0 bo m where xm: "x = (c0, bo, m)" by (cases x)
  have m: "model_inv m" using x by (simp add: xm)
  from wezc.coded_bit [OF m, of c0 i] obtain p m1 where p: "\<forall>level. predict level c0 i m = Some (p, m1)"
    and m1: "\<forall>b. \<exists>m2. model_update b m1 = Some m2 \<and> model_inv m2" by blast
  let ?b = "drop_bit (7 - i) (ucast byte) AND 1 :: u32"
  from m1 [rule_format, of ?b] obtain m2 where m2: "model_update ?b m1 = Some m2" "model_inv m2" by blast
  have "\<forall>level side. run_bit level byte True i (x, side) = Some ((push_bit 1 c0 OR ?b, push_bit 1 bo OR ucast ?b, m2), side)"
    using m2(1) by (simp add: run_bit_def xm p side_code_def)
  with m2(2) show "\<exists>x'. (case x' of (c0, byte_out, m) \<Rightarrow> model_inv m) \<and> (\<forall>level side. run_bit level byte True i (x, side) = Some (x', side))"
    by blast
qed

lemma prime_byte: "silent (\<lambda>(m, out). model_inv m \<and> out = []) (\<lambda>level. run_byte level (priming_block dict) True i)"
  unfolding silent_def
proof (intro allI impI)
  fix x :: "model \<times> u8 list" assume x: "case x of (m, out) \<Rightarrow> model_inv m \<and> out = []"
  obtain m where xm: "x = (m, [])" and m: "model_inv m" using x by (cases x) auto
  let ?byte = "if i < length dict then dict ! i else 0"
  have S: "silent (\<lambda>(c0 :: u32, byte_out :: u8, m). model_inv m) (\<lambda>level. fold_opt (run_bit level ?byte True) [0..<8])"
    by (rule silent_fold) (rule prime_bit)
  obtain c1 b1 m1 where 1: "\<And>level side. fold_opt (run_bit level ?byte True) [0..<8] ((1, 0, m), side) = Some ((c1, b1, m1), side)" "model_inv m1"
    using S [unfolded silent_def, rule_format, of "(1, 0, m)"] m by auto
  from wezc.close_byte_ok [OF 1(2), of ?byte] obtain m2 where "byte_update ?byte m1 = Some m2" "model_inv m2" by blast
  then show "\<exists>x'. (case x' of (m, out) \<Rightarrow> model_inv m \<and> out = []) \<and> (\<forall>level side. run_byte level (priming_block dict) True i (x, side) = Some (x', side))"
    using 1(1) by (auto simp: run_byte_def xm priming_block_def Let_def)
qed

lemma prime_block:
  assumes "model_inv m"
  obtains m' where "model_inv m'" "\<And>level side. run_block level (priming_block dict) ((m, []), side) = Some ((m', []), side)"
proof -
  have "silent (\<lambda>(m, out). model_inv m \<and> out = []) (\<lambda>level. fold_opt (run_byte level (priming_block dict) True) [0..<length dict])"
    by (rule silent_fold) (rule prime_byte)
  then obtain m1 where "model_inv m1"
    "\<And>level side. fold_opt (run_byte level (priming_block dict) True) [0..<length dict] ((m, []), side) = Some ((m1, []), side)"
    using assms unfolding silent_def by auto
  then show thesis
    using wezc.forget_ok [of m1] by (intro that [of "reset_history m1"]) (simp_all add: run_block_def priming_block_def)
qed

section \<open>The payload\<close>

lemma planes_roundtrip:
  assumes "params_model ps = Inr m"
  shows "\<exists>payload. encode_planes writer ps dict planes = Some (Inr payload) \<and> length payload \<le> 32 * length planes + 4 \<and>
    decode_planes reader ps dict payload (length planes) = Some (Inr planes)"
proof -
  have "model_inv m" using assms unfolding params_model_def by (rule model_new_inv)
  then obtain m1 where m1: "model_inv m1" "\<And>level side. run_block level (priming_block dict) ((m, []), side) = Some ((m1, []), side)"
    by (rule prime_block) blast
  have "case (m1, [] :: u8 list) of (m, out) \<Rightarrow> model_inv m" using m1(1) by simp
  from tracksD [OF run_block_tracks [of planes writer reader] this encoder_new_ok] obtain x2 e2 where
    2: "run_block writer (data_block planes) ((m1, []), Encode encoder_new) = Some (x2, Encode e2)" "enc_ok e2"
      "length (e_out e2) \<le> length (e_out encoder_new) + length planes * 32"
      "\<forall>payload d. covers payload e2 \<longrightarrow> synced payload encoder_new d \<longrightarrow>
         (\<exists>y' d'. run_block reader (to_decode (length planes)) ((m1, []), Decode d) = Some (y', Decode d') \<and> snd y' = planes)"
    by (auto simp: prod_eq_iff) blast
  let ?payload = "e_out (enc_finish e2)"
  have enc: "encode_planes writer ps dict planes = Some (Inr ?payload)"
    using assms m1(2) 2(1) by (simp add: encode_planes_def codec_run_def side_finish_def)
  have "covers ?payload e2" using 2(2) by (intro finish_covers) (simp add: enc_ok_less less_imp_le)
  from 2(4) this synced_new obtain y d where
    "run_block reader (to_decode (length planes)) ((m1, []), Decode (decoder_new ?payload)) = Some (y, Decode d)" "snd y = planes" by blast
  then have "decode_planes reader ps dict ?payload (length planes) = Some (Inr planes)"
    using assms m1(2) by (simp add: decode_planes_def codec_run_def split_beta)
  with enc 2(3) show ?thesis by (auto simp: enc_finish_length encoder_new_def)
qed

section \<open>The container\<close>

definition header_bytes :: "wezc_header \<Rightarrow> u8 list" where
  "header_bytes h =
     wezc_magic @ [pm_mem_bits (hd_params h), pm_sse_bits (hd_params h), pm_lr_shift (hd_params h), hd_flags h]
       @ to_le_bytes (hd_count h) @ to_le_bytes (hd_payload_len h)"

lemma header_write_eq: "header_write_to h (replicate header_size 0) = Inr (header_size, header_bytes h)"
  by (simp add: header_write_to_def header_bytes_def)

lemma length_header_bytes: "length (header_bytes h) = header_size"
  by (simp add: header_bytes_def wezc_magic_def header_size_def)

lemma word_bytes: "\<exists>a b c d. to_le_bytes (w :: u32) = [a, b, c, d] \<and> from_le_bytes [a, b, c, d] = w"
proof -
  have "[0..<4] = [0, 1, 2, 3 :: nat]" by (simp add: upt_rec)
  then have "to_le_bytes w = [ucast (drop_bit 0 w), ucast (drop_bit 8 w), ucast (drop_bit 16 w), ucast (drop_bit 24 w)]"
    unfolding to_le_bytes_def by simp
  then show ?thesis using from_to_le_bytes [of w] by (simp del: from_le_bytes.simps)
qed

lemma header_parse_eq:
  "header_parse (header_bytes h @ rest) =
     (if plane_count (hd_flags h) = None then Inl (Unsupported ''flags'')
      else if header_body_len h = None then Inl (Unsupported ''count'') else Inr h)"
proof -
  obtain a b c d where count: "to_le_bytes (hd_count h) = [a, b, c, d]" "from_le_bytes [a, b, c, d] = hd_count h" using word_bytes by blast
  obtain a' b' c' d' where len: "to_le_bytes (hd_payload_len h) = [a', b', c', d']" "from_le_bytes [a', b', c', d'] = hd_payload_len h" using word_bytes by blast
  have at: "header_bytes h @ rest = wezc_magic @ [pm_mem_bits (hd_params h), pm_sse_bits (hd_params h), pm_lr_shift (hd_params h), hd_flags h,
      a, b, c, d, a', b', c', d'] @ rest" by (simp add: header_bytes_def count(1) len(1))
  show ?thesis
    unfolding header_parse_def at wezc_magic_def
    using count(2) len(2) by (simp add: header_size_def Let_def header_body_len_def del: from_le_bytes.simps)
qed

lemma plane_body_run:
  assumes "length elements * 4 \<le> usize_max"
  shows "plane_body level elements field = Some (Inr (plane_bytes elements (presence elements)))"
  using body_len_eq [OF presence_flags assms] length_plane_bytes [of elements "presence elements"]
    split_run [OF presence_flags assms, where level = level and planes = "replicate (length elements * length (plane_shifts (presence elements))) 0"]
  by (simp add: plane_body_def)

lemma dictionary_planes_run:
  assumes "length dictionary * 4 \<le> usize_max"
  shows "\<exists>dict. \<forall>level. dictionary_planes level dictionary = Some (Inr dict)"
  using plane_body_run [OF assms] by (cases "dictionary = []") (simp_all add: dictionary_planes_def)

section \<open>Properties\<close>

definition params_ok :: "params \<Rightarrow> bool" where
  "params_ok ps \<longleftrightarrow> 8 \<le> unat (pm_mem_bits ps) \<and> unat (pm_mem_bits ps) \<le> 26 \<and> 4 \<le> unat (pm_sse_bits ps) \<and>
     unat (pm_sse_bits ps) \<le> 24 \<and> 9 \<le> unat (pm_lr_shift ps) \<and> unat (pm_lr_shift ps) \<le> 24"

lemma params_ok_model: "params_ok ps \<Longrightarrow> \<exists>m. params_model ps = Inr m"
  by (simp add: params_ok_def params_model_def model_new_def Let_def)

text \<open>
  C2: Encoding fewer than 2^25 elements (128 bytes for each must fit the 32-bit length of the
  payload) with supported parameters succeeds and costs at most 128 bytes an element, and
  decoding the blob with the same dictionary gives the elements back and leaves the rest of the
  output buffer alone, whatever kernels the two machines use, as long as the reader does not
  take the AVX-512 plane kernel.
\<close>

theorem wezc_roundtrip:
  assumes "params_ok ps" "128 * length elements + 4 < 2 ^ 32" "4 * length dictionary \<le> usize_max"
    "length elements \<le> length out" "reader \<noteq> Avx512"
  shows "\<exists>blob. wezc_encode writer ps dictionary elements = Some (Inr blob) \<and> length blob \<le> 21 + 128 * length elements \<and>
    wezc_decode reader blob dictionary out = Some (Inr (length elements, elements @ drop (length elements) out))"
proof -
  let ?f = "presence elements" let ?planes = "plane_bytes elements ?f" and ?n = "length elements"
  have n: "?n * 4 \<le> usize_max" "?n < 2 ^ 32" using assms(2) by (simp_all add: usize_max_def)
  from params_ok_model [OF assms(1)] obtain m where m: "params_model ps = Inr m" by blast
  from dictionary_planes_run [of dictionary] assms(3) obtain dict where dict: "\<And>level. dictionary_planes level dictionary = Some (Inr dict)"
    by (auto simp: mult.commute)
  from planes_roundtrip [OF m, of writer dict ?planes reader] obtain payload where
    payload: "encode_planes writer ps dict ?planes = Some (Inr payload)" "length payload \<le> 32 * length ?planes + 4"
      "decode_planes reader ps dict payload (length ?planes) = Some (Inr ?planes)" by blast
  have "length ?planes \<le> 4 * ?n" using length_plane_shifts(2) [of ?f] by (simp add: length_plane_bytes)
  then have lp: "length payload \<le> 128 * ?n + 4" using payload(2) by linarith
  define h where "h = \<lparr>hd_params = ps, hd_flags = ?f, hd_count = word_of_nat ?n, hd_payload_len = word_of_nat (length payload)\<rparr>"
  have h: "unat (hd_count h) = ?n" "unat (hd_payload_len h) = length payload"
    using n(2) lp assms(2) by (simp_all add: h_def unsigned_of_nat take_bit_nat_eq_self)
  let ?blob = "header_bytes h @ payload"
  have enc: "wezc_encode writer ps dictionary elements = Some (Inr ?blob)"
    using n(2) lp assms(2) plane_body_run [OF n(1)] dict payload(1) header_write_eq
    by (simp add: wezc_encode_def h_def [symmetric])
  have hb: "header_body_len h = Some (length ?planes)"
    using body_len_eq [OF presence_flags n(1)] by (simp add: header_body_len_def h length_plane_bytes) (simp add: h_def)
  then have parse: "header_parse ?blob = Inr h"
    using header_parse_eq [of h payload] by (cases "plane_count (hd_flags h)") (simp_all add: header_body_len_def body_len_def)
  have "join reader ?f ?planes (take ?n out) = Some (Inr (?n, elements))"
    by (rule join_run) (use assms(4,5) n(1) in simp_all)
  then have "wezc_decode reader ?blob dictionary out = Some (Inr (?n, elements @ drop ?n out))"
    using parse hb dict payload(3) assms(4) by (simp add: wezc_decode_def h length_header_bytes Let_def) (simp add: h_def)
  with enc lp show ?thesis by (auto simp: length_header_bytes header_size_def)
qed

theorem wezc_roundtrip_witness:
  "\<exists>blob. wezc_encode Avx512 params_minimal [0xE0000041] [0xE0000041, 0xE0004E2D, 0xE0000041] = Some (Inr blob) \<and>
     wezc_decode Scalar blob [0xE0000041] [0, 0, 0, 7] = Some (Inr (3, [0xE0000041, 0xE0004E2D, 0xE0000041, 7]))"
proof -
  let ?es = "[0xE0000041, 0xE0004E2D, 0xE0000041] :: u32 list"
  have "params_ok params_minimal" by (simp add: params_ok_def params_minimal_def)
  moreover have "128 * length ?es + 4 < 2 ^ 32" "4 * length [0xE0000041 :: u32] \<le> usize_max" "length ?es \<le> length [0, 0, 0, 7 :: u32]" "Scalar \<noteq> Avx512"
    by (simp_all add: usize_max_def)
  ultimately obtain blob where "wezc_encode Avx512 params_minimal [0xE0000041] ?es = Some (Inr blob)"
    "wezc_decode Scalar blob [0xE0000041] [0, 0, 0, 7] = Some (Inr (length ?es, ?es @ drop (length ?es) [0, 0, 0, 7]))"
    using wezc_roundtrip [of params_minimal ?es "[0xE0000041]" "[0, 0, 0, 7]" Scalar Avx512] by blast
  then show ?thesis by auto
qed

theorem header_roundtrip:
  assumes "header_write_to h out = Inr (n, out')" "header_body_len h \<noteq> None"
  shows "n = 17 \<and> length out' = length out \<and> drop 17 out' = drop 17 out \<and> header_parse out' = Inr h"
proof -
  have out: "out' = header_bytes h @ drop header_size out" "n = header_size" "header_size \<le> length out"
    using assms(1) by (auto simp: header_write_to_def header_bytes_def split: if_splits)
  have "plane_count (hd_flags h) \<noteq> None" using assms(2) by (cases "plane_count (hd_flags h)") (simp_all add: header_body_len_def body_len_def)
  then have "header_parse out' = Inr h" using assms(2) header_parse_eq [of h "drop header_size out"] by (simp only: out(1) if_False)
  then show ?thesis using out by (simp add: length_header_bytes header_size_def)
qed

theorem header_roundtrip_witness:
  "\<exists>out'. header_write_to \<lparr>hd_params = params_default, hd_flags = 8, hd_count = 300, hd_payload_len = 70000\<rparr> (replicate 20 0) = Inr (17, out') \<and>
     header_parse out' = Inr \<lparr>hd_params = params_default, hd_flags = 8, hd_count = 300, hd_payload_len = 70000\<rparr>"
proof -
  let ?h = "\<lparr>hd_params = params_default, hd_flags = 8, hd_count = 300, hd_payload_len = 70000\<rparr>"
  have "header_body_len ?h = Some 600"
    by (simp add: header_body_len_def body_len_def plane_count_def flags_mask_def flag_plane1_def flag_plane2_def flag_plane3_def
        checked_mul_def usize_max_def upt_rec)
  moreover obtain out' where "header_write_to ?h (replicate 20 0) = Inr (17, out')"
    by (simp add: header_write_to_def header_size_def)
  ultimately show ?thesis using header_roundtrip [of ?h "replicate 20 0" 17 out'] by simp
qed

section \<open>Any blob\<close>

lemma fold_opt_index:
  assumes "\<And>i s. i < n \<Longrightarrow> I i s \<Longrightarrow> \<exists>s'. f i s = Some s' \<and> I (Suc i) s'" "I 0 s"
  shows "\<exists>s'. fold_opt f [0..<n] s = Some s' \<and> I n s'"
  using assms(1)
proof (induction n)
  case (Suc n)
  then obtain s1 where s1: "fold_opt f [0..<n] s = Some s1" "I n s1" by (metis less_Suc_eq)
  with Suc.prems [of n s1] show ?case by (simp only: fold_opt_Suc) auto
qed (simp add: assms(2))

definition decode_side :: "side \<Rightarrow> bool" where
  "decode_side side \<longleftrightarrow> (\<exists>d. side = Decode d)"

lemma decode_bit_total:
  assumes "case s of ((c0, bo, m), side) \<Rightarrow> model_inv m \<and> decode_side side"
  shows "\<exists>s'. run_bit level byte False i s = Some s' \<and> (case s' of ((c0, bo, m), side) \<Rightarrow> model_inv m \<and> decode_side side)"
proof -
  obtain c0 bo m d where s: "s = ((c0, bo, m), Decode d)" and m: "model_inv m"
    using assms by (cases s) (auto simp: decode_side_def)
  from wezc.coded_bit [OF m, of c0 i] obtain p m1 where p: "\<forall>level. predict level c0 i m = Some (p, m1)"
    and m1: "\<forall>b. \<exists>m2. model_update b m1 = Some m2 \<and> model_inv m2" by blast
  obtain b d' where d': "decode_bit p d = (b, d')" by (cases "decode_bit p d")
  from m1 [rule_format, of "of_bool b"] obtain m2 where "model_update (of_bool b) m1 = Some m2" "model_inv m2" by blast
  then show ?thesis using p d' by (simp add: run_bit_def s side_code_def decode_side_def)
qed

lemma decode_byte_total:
  assumes "case s of ((m, out), side) \<Rightarrow> model_inv m \<and> decode_side side \<and> length out = i"
  shows "\<exists>s'. run_byte level (to_decode n) False i s = Some s' \<and>
    (case s' of ((m, out), side) \<Rightarrow> model_inv m \<and> decode_side side \<and> length out = Suc i)"
proof -
  obtain m out side where s: "s = ((m, out), side)" and m: "model_inv m" "decode_side side" "length out = i"
    using assms by (cases s) auto
  have "\<exists>s'. fold_opt (run_bit level 0 False) [0..<8] ((1, 0, m), side) = Some s' \<and> (case s' of ((c0, bo, m), side) \<Rightarrow> model_inv m \<and> decode_side side)"
    by (rule fold_opt_inv) (use decode_bit_total m in simp_all)
  then obtain c1 b1 m1 side1 where 1: "fold_opt (run_bit level 0 False) [0..<8] ((1, 0, m), side) = Some ((c1, b1, m1), side1)"
    "model_inv m1" "decode_side side1" by auto
  from wezc.close_byte_ok [OF 1(2), of b1] obtain m2 where "byte_update b1 m1 = Some m2" "model_inv m2" by blast
  then show ?thesis using 1 m(3) by (simp add: run_byte_def s to_decode_def)
qed

lemma decode_planes_total:
  "\<exists>r. decode_planes level ps dict payload n = Some r \<and> (case r of Inl err \<Rightarrow> err \<noteq> TruncatedPayload | Inr planes \<Rightarrow> length planes = n)"
proof (cases "params_model ps")
  case (Inl err)
  then have "err \<noteq> TruncatedPayload" by (auto simp: params_model_def model_new_def Let_def split: if_splits)
  with Inl show ?thesis by (simp add: decode_planes_def)
next
  case (Inr m)
  then have "model_inv m" unfolding params_model_def by (rule model_new_inv)
  then obtain m1 where m1: "model_inv m1" "\<And>level side. run_block level (priming_block dict) ((m, []), side) = Some ((m1, []), side)"
    by (rule prime_block) blast
  let ?side = "Decode (decoder_new payload)"
  have "\<exists>s'. fold_opt (run_byte level (to_decode n) False) [0..<n] ((m1, []), ?side) = Some s' \<and>
      (case s' of ((m, out), side) \<Rightarrow> model_inv m \<and> decode_side side \<and> length out = n)"
    by (rule fold_opt_index [where I = "\<lambda>i s. case s of ((m, out), side) \<Rightarrow> model_inv m \<and> decode_side side \<and> length out = i"])
      (use decode_byte_total m1(1) in \<open>simp_all add: decode_side_def\<close>)
  then show ?thesis
    using Inr m1(2) by (auto simp: decode_planes_def codec_run_def run_block_def to_decode_def)
qed

text \<open>
  C15: Decoding any byte string, well-formed or not, returns: an error, or a count with the
  elements past it untouched. The error is never TruncatedPayload, which the documentation
  announces for a payload that ends early.
\<close>

theorem decode_never_panics:
  assumes "4 * length dictionary \<le> usize_max"
  shows "\<exists>r. wezc_decode level blob dictionary out = Some r \<and>
    (case r of Inl err \<Rightarrow> err \<noteq> TruncatedPayload
     | Inr (n, out') \<Rightarrow> n \<le> length out \<and> length out' = length out \<and> drop n out' = drop n out)"
proof (cases "header_parse blob")
  case (Inl err)
  then have "err \<noteq> TruncatedPayload" by (auto simp: header_parse_def Let_def split: if_splits)
  with Inl show ?thesis by (simp add: wezc_decode_def)
next
  case (Inr h)
  let ?count = "unat (hd_count h)" and ?needed = "header_size + unat (hd_payload_len h)"
  from Inr obtain len where len: "header_body_len h = Some len" by (auto simp: header_parse_def Let_def split: if_splits)
  from dictionary_planes_run [of dictionary] assms obtain dict where dict: "dictionary_planes level dictionary = Some (Inr dict)"
    by (auto simp: mult.commute)
  from decode_planes_total [of level "hd_params h" dict "take (unat (hd_payload_len h)) (drop header_size blob)" len] obtain r where
    r: "decode_planes level (hd_params h) dict (take (unat (hd_payload_len h)) (drop header_size blob)) len = Some r"
      "case r of Inl err \<Rightarrow> err \<noteq> TruncatedPayload | Inr planes \<Rightarrow> length planes = len" by blast
  consider "length blob < ?needed" | "?needed \<le> length blob" "length out < ?count" | "?needed \<le> length blob" "?count \<le> length out"
    by linarith
  then show ?thesis
  proof cases
    case 3
    show ?thesis
    proof (cases r)
      case (Inl err)
      then show ?thesis using \<open>header_parse blob = Inr h\<close> len dict r 3 by (simp add: wezc_decode_def Let_def)
    next
      case planes: (Inr planes)
      have "body_len (length (take ?count out)) (hd_flags h) = Some (length planes)"
        using len r(2) planes 3(2) by (simp add: header_body_len_def)
      from join_total [OF this, of level] obtain es where
        "join level (hd_flags h) planes (take ?count out) = Some (Inr (?count, es))" "length es = ?count" using 3(2) by auto
      then show ?thesis using \<open>header_parse blob = Inr h\<close> len dict r 3 planes by (simp add: wezc_decode_def Let_def)
    qed
  qed (use Inr len in \<open>simp_all add: wezc_decode_def Let_def\<close>)
qed

theorem decode_never_panics_witness:
  "\<exists>r. wezc_decode Avx512 (wezc_magic @ [8, 4, 11, 8, 2, 0, 0, 0, 1, 0, 0, 0, 0xFF]) [0xE0000041] [0, 0, 0] = Some r \<and> r \<noteq> Inl TruncatedPayload"
  using decode_never_panics [of "[0xE0000041]" Avx512 "wezc_magic @ [8, 4, 11, 8, 2, 0, 0, 0, 1, 0, 0, 0, 0xFF]" "[0, 0, 0]"]
  by (auto simp: usize_max_def)

end
