(* ===== verification/Negex_Ast.thy ===== *)
theory Negex_Ast
  imports Prelude
begin

text \<open>
  The syntax tree of the regular expression engine (\<open>crates/negex-parse/src/ast.rs\<close>) and its errors
  (\<open>crates/negex-codegen/src/error.rs\<close>). A \<open>char\<close> is its scalar value. A \<open>struct\<close> of the tree is a
  datatype with one constructor, since the four types are mutually recursive. The errors of the
  lowering to machine code are left out: no function modelled here returns one.
\<close>

type_synonym scalar = nat

text \<open>\<open>char::encode_utf8\<close>\<close>

definition encode_utf8 :: "scalar \<Rightarrow> u8 list" where
  "encode_utf8 c =
     (if c < 0x80 then [word_of_nat c]
      else if c < 0x800 then [word_of_nat (0xC0 + c div 64), word_of_nat (0x80 + c mod 64)]
      else if c < 0x10000 then [word_of_nat (0xE0 + c div 4096), word_of_nat (0x80 + c div 64 mod 64), word_of_nat (0x80 + c mod 64)]
      else [word_of_nat (0xF0 + c div 262144), word_of_nat (0x80 + c div 4096 mod 64), word_of_nat (0x80 + c div 64 mod 64),
            word_of_nat (0x80 + c mod 64)])"

record span =
  sp_offset :: u32
  sp_len :: u32

definition span_end :: "span \<Rightarrow> u32" where
  "span_end sp = (if unat (sp_offset sp) + unat (sp_len sp) < 2 ^ 32 then sp_offset sp + sp_len sp else - 1)"

datatype quantifier =
    QStar
  | QPlus
  | QQuestion
  | QRange u32 "u32 option"

fun quantifier_min :: "quantifier \<Rightarrow> u32" where
  "quantifier_min QStar = 0"
| "quantifier_min QQuestion = 0"
| "quantifier_min QPlus = 1"
| "quantifier_min (QRange lo hi) = lo"

definition allows_zero :: "quantifier \<Rightarrow> bool" where
  "allows_zero q \<longleftrightarrow> quantifier_min q = 0"

datatype class_item =
    ItemChar scalar
  | ItemRange scalar scalar
  | ItemProperty string bool
  | ItemError span

datatype char_class =
    PositiveClass "class_item list" bool
  | PropertyClass string bool
  | ErrorClass span

datatype regex = Regex (branches: "branch list") (regex_span: span)
  and branch = Branch (pieces: "piece list") (branch_span: span)
  and piece = Piece (piece_atom: atom) (piece_quantifier: "quantifier option") (piece_span: span)
  and atom =
    Literal scalar
  | AnyChar
  | ClassAtom char_class
  | Group regex
  | AtomError span

datatype negex_error =
    InvalidRangeQuantifier u32 "u32 option"
  | TooManyStates usize usize
  | EmptyDfa
  | ClassOutOfByteRange scalar
  | InvalidClassRange scalar scalar
  | UnknownProperty string
  | InvalidClassAst

definition is_alternation :: "regex \<Rightarrow> bool" where
  "is_alternation r \<longleftrightarrow> length (branches r) > 1"

fun regex_matches_empty :: "regex \<Rightarrow> bool" and branch_matches_empty :: "branch \<Rightarrow> bool"
  and piece_matches_empty :: "piece \<Rightarrow> bool" and atom_matches_empty :: "atom \<Rightarrow> bool" where
  "regex_matches_empty (Regex bs sp) \<longleftrightarrow> (\<exists>b \<in> set bs. branch_matches_empty b)"
| "branch_matches_empty (Branch ps sp) \<longleftrightarrow> ps = [] \<or> (\<forall>p \<in> set ps. piece_matches_empty p)"
| "piece_matches_empty (Piece a q sp) \<longleftrightarrow>
     (case q of
        None \<Rightarrow> atom_matches_empty a
      | Some QStar \<Rightarrow> True
      | Some QQuestion \<Rightarrow> True
      | Some (QRange lo hi) \<Rightarrow> lo = 0 \<or> atom_matches_empty a
      | Some QPlus \<Rightarrow> atom_matches_empty a)"
| "atom_matches_empty (Group r) \<longleftrightarrow> regex_matches_empty r"
| "atom_matches_empty a \<longleftrightarrow> False"

end
