(* ===== verification/Negex_Lex.thy ===== *)
theory Negex_Lex
  imports Negex_Ast
begin

text \<open>
  The lexer of the regular expressions (\<open>crates/negex-lex\<close>). A pattern is the list of its scalar
  values, so the characters of the source appear as their code points. Token lengths are \<open>u32\<close>
  counts of UTF-8 bytes.
\<close>

section \<open>Tokens\<close>

datatype token_kind =
    TLiteral scalar
  | TPipe
  | TStar
  | TPlus
  | TQuestion
  | TOpenParen
  | TCloseParen
  | TOpenBracket
  | TCloseBracket
  | TOpenBrace
  | TCloseBrace
  | TComma
  | TDot
  | TEscape scalar
  | TCaret
  | TDollar
  | THyphen
  | TEof
  | TWhitespace
  | TUnknown
  | TCharClassStart scalar

record token =
  tk_kind :: token_kind
  tk_len :: u32

definition token_new :: "token_kind \<Rightarrow> u32 \<Rightarrow> token" where
  "token_new kind len = \<lparr>tk_kind = kind, tk_len = len\<rparr>"

text \<open>\<open>char::len_utf8\<close>\<close>

definition len_utf8 :: "scalar \<Rightarrow> u32" where
  "len_utf8 c = word_of_nat (length (encode_utf8 c))"

definition is_whitespace :: "scalar \<Rightarrow> bool" where
  "is_whitespace c \<longleftrightarrow> 0x9 \<le> c \<and> c \<le> 0xD \<or> c \<in> {0x20, 0x85, 0x200E, 0x200F, 0x2028, 0x2029}"

definition is_surrogate :: "scalar \<Rightarrow> bool" where
  "is_surrogate c \<longleftrightarrow> 0xD800 \<le> c \<and> c \<le> 0xDFFF"

section \<open>The cursor\<close>

record cursor =
  cu_chars :: "scalar list"
  cu_exhausted :: bool
  cu_in_char_class :: bool

definition cursor_new :: "scalar list \<Rightarrow> cursor" where
  "cursor_new input = \<lparr>cu_chars = input, cu_exhausted = False, cu_in_char_class = False\<rparr>"

text \<open>The loop of \<open>property_escape\<close>: everything up to a closing brace (125), and whether there was one.\<close>

primrec property_rest :: "scalar list \<Rightarrow> u32 \<Rightarrow> u32 \<times> scalar list \<times> bool" where
  "property_rest [] len = (len, [], False)"
| "property_rest (c # cs) len = (if c = 125 then (len + 1, cs, True) else property_rest cs (len + len_utf8 c))"

definition property_escape :: "u32 \<Rightarrow> scalar \<Rightarrow> cursor \<Rightarrow> token \<times> cursor" where
  "property_escape backslash_len first cu =
     (case property_rest (tl (cu_chars cu)) (backslash_len + len_utf8 first + 1) of
        (len, rest, closed) \<Rightarrow>
          (token_new (TEscape first) len, cu\<lparr>cu_chars := rest, cu_exhausted := \<not> closed \<or> cu_exhausted cu\<rparr>))"

text \<open>\<open>p\<close> is 112, \<open>P\<close> 80, the opening brace 123, the backslash 92.\<close>

definition escape_token :: "u32 \<Rightarrow> cursor \<Rightarrow> token \<times> cursor" where
  "escape_token backslash_len cu =
     (case cu_chars cu of
        [] \<Rightarrow> (token_new (TEscape 92) backslash_len, cu\<lparr>cu_exhausted := True\<rparr>)
      | c # rest \<Rightarrow>
          let cu = cu\<lparr>cu_chars := rest\<rparr> in
          if (c = 112 \<or> c = 80) \<and> rest \<noteq> [] \<and> hd rest = 123 then property_escape backslash_len c cu
          else (token_new (TEscape c) (backslash_len + len_utf8 c), cu))"

text \<open>\<open>]\<close> is 93, \<open>-\<close> is 45.\<close>

definition in_class :: "scalar \<Rightarrow> u32 \<Rightarrow> cursor \<Rightarrow> token \<times> cursor" where
  "in_class c len cu =
     (if c = 93 then (token_new TCloseBracket len, cu\<lparr>cu_in_char_class := False\<rparr>)
      else if c = 92 then escape_token len cu
      else if c = 45 then (token_new THyphen len, cu)
      else (token_new (TLiteral c) len, cu))"

text \<open>\<open>| * + ? ( ) ] { } , . ^ $ -\<close> are 124, 42, 43, 63, 40, 41, 93, 123, 125, 44, 46, 94, 36, 45.\<close>

definition plain_kind :: "scalar \<Rightarrow> token_kind" where
  "plain_kind c =
     (if is_whitespace c then TWhitespace
      else if c = 124 then TPipe
      else if c = 42 then TStar
      else if c = 43 then TPlus
      else if c = 63 then TQuestion
      else if c = 40 then TOpenParen
      else if c = 41 then TCloseParen
      else if c = 93 then TCloseBracket
      else if c = 123 then TOpenBrace
      else if c = 125 then TCloseBrace
      else if c = 44 then TComma
      else if c = 46 then TDot
      else if c = 94 then TCaret
      else if c = 36 then TDollar
      else if c = 45 then THyphen
      else if is_surrogate c then TUnknown
      else TLiteral c)"

text \<open>\<open>[\<close> is 91, \<open>^\<close> 94.\<close>

definition advance_token :: "cursor \<Rightarrow> token \<times> cursor" where
  "advance_token cu =
     (if cu_exhausted cu then (token_new TEof 0, cu\<lparr>cu_in_char_class := False\<rparr>)
      else
        (case cu_chars cu of
           [] \<Rightarrow> (token_new TEof 0, cu\<lparr>cu_exhausted := True, cu_in_char_class := False\<rparr>)
         | c # rest \<Rightarrow>
             let len = len_utf8 c; cu = cu\<lparr>cu_chars := rest\<rparr> in
             if cu_in_char_class cu then in_class c len cu
             else if c = 91 then
               (if rest \<noteq> [] \<and> hd rest = 94
                then (token_new (TCharClassStart 94) (len + 1), cu\<lparr>cu_chars := tl rest, cu_in_char_class := True\<rparr>)
                else (token_new (TCharClassStart 0) len, cu\<lparr>cu_in_char_class := True\<rparr>))
             else if c = 92 then escape_token len cu
             else (token_new (plain_kind c) len, cu)))"

lemma property_rest_shorter: "property_rest cs len = (len', rest, closed) \<Longrightarrow> length rest \<le> length cs"
  by (induction cs arbitrary: len) (auto split: if_splits intro: le_SucI)

lemma escape_shorter: "escape_token len cu = (t, cu') \<Longrightarrow> length (cu_chars cu') \<le> length (cu_chars cu)"
  by (cases "cu_chars cu")
    (auto simp: escape_token_def property_escape_def Let_def split: if_splits prod.splits dest!: property_rest_shorter)

lemma advance_shorter: "advance_token cu = (t, cu') \<Longrightarrow> tk_kind t \<noteq> TEof \<Longrightarrow> length (cu_chars cu') < length (cu_chars cu)"
  by (cases "cu_chars cu")
    (auto simp: advance_token_def in_class_def token_new_def Let_def split: if_splits dest!: escape_shorter)

function tokens_from :: "cursor \<Rightarrow> token list" where
  "tokens_from cu = (case advance_token cu of (t, cu') \<Rightarrow> if tk_kind t \<noteq> TEof then t # tokens_from cu' else [])"
  by pat_completeness auto

termination
  by (relation "measure (\<lambda>cu. length (cu_chars cu))") (auto dest!: advance_shorter [OF sym])

definition tokenize :: "scalar list \<Rightarrow> token list" where
  "tokenize input = tokens_from (cursor_new input)"

section \<open>Tokens cover the pattern\<close>

declare tokens_from.simps [simp del]

definition bytes_left :: "cursor \<Rightarrow> u32" where
  "bytes_left cu = sum_list (map len_utf8 (cu_chars cu))"

text \<open>An exhausted cursor has no characters left.\<close>

definition cursor_ok :: "cursor \<Rightarrow> bool" where
  "cursor_ok cu \<longleftrightarrow> (cu_exhausted cu \<longrightarrow> cu_chars cu = [])"

lemma len_ascii [simp]: "c < 128 \<Longrightarrow> len_utf8 c = 1"
  by (simp add: len_utf8_def encode_utf8_def)

lemma property_rest_len:
  "property_rest cs len = (len', rest, closed) \<Longrightarrow>
   len' + sum_list (map len_utf8 rest) = len + sum_list (map len_utf8 cs) \<and> (\<not> closed \<longrightarrow> rest = [])"
  by (induction cs arbitrary: len) (auto simp: algebra_simps split: if_splits)

lemma escape_len:
  assumes "escape_token len cu = (t, cu')" "cursor_ok cu"
  shows "cursor_ok cu' \<and> tk_len t + bytes_left cu' = len + bytes_left cu"
proof (cases "cu_chars cu")
  case Nil
  then show ?thesis using assms by (auto simp: escape_token_def cursor_ok_def bytes_left_def token_new_def)
next
  case (Cons c rest)
  show ?thesis
  proof (cases "(c = 112 \<or> c = 80) \<and> rest \<noteq> [] \<and> hd rest = 123")
    case True
    then obtain rest' where rest: "rest = 123 # rest'" by (metis list.collapse)
    obtain len' left closed where r: "property_rest rest' (len + len_utf8 c + 1) = (len', left, closed)" by (metis prod_cases3)
    from True Cons rest r assms property_rest_len [OF r] show ?thesis
      by (auto simp: escape_token_def property_escape_def cursor_ok_def bytes_left_def token_new_def algebra_simps)
  next
    case False
    with Cons assms show ?thesis
      by (auto simp: escape_token_def Let_def cursor_ok_def bytes_left_def token_new_def algebra_simps split: if_splits)
  qed
qed

lemma advance_len:
  assumes "advance_token cu = (t, cu')" "cursor_ok cu"
  shows "cursor_ok cu' \<and> tk_len t + bytes_left cu' = bytes_left cu \<and> (tk_kind t = TEof \<longrightarrow> cu_chars cu = [])"
proof (cases "cu_exhausted cu \<or> cu_chars cu = []")
  case True
  then have "cu_chars cu = []" using assms(2) by (auto simp: cursor_ok_def)
  with assms show ?thesis by (auto simp: advance_token_def cursor_ok_def bytes_left_def token_new_def split: if_splits)
next
  case False
  then obtain c rest where cs: "cu_chars cu = c # rest" and live: "\<not> cu_exhausted cu" by (auto simp: neq_Nil_conv)
  let ?cu = "cu\<lparr>cu_chars := rest\<rparr>"
  have ok: "cursor_ok ?cu" using live by (simp add: cursor_ok_def)
  have left: "bytes_left cu = len_utf8 c + bytes_left ?cu" using cs by (simp add: bytes_left_def)
  have esc: "cursor_ok cu1 \<and> tk_len t1 + bytes_left cu1 = bytes_left cu \<and> tk_kind t1 \<noteq> TEof" if "escape_token (len_utf8 c) ?cu = (t1, cu1)" for t1 cu1
    using escape_len [OF that ok] left that
    by (auto simp: escape_token_def property_escape_def Let_def token_new_def split: list.splits if_splits prod.splits)
  have one: "len_utf8 94 = 1" by simp
  have plain: "plain_kind c \<noteq> TEof" by (simp add: plain_kind_def)
  show ?thesis
    using assms(1) cs live ok left esc one plain
    by (auto simp: advance_token_def in_class_def Let_def token_new_def cursor_ok_def bytes_left_def neq_Nil_conv split: if_splits)
qed

lemma tokens_from_len: "cursor_ok cu \<Longrightarrow> sum_list (map tk_len (tokens_from cu)) = bytes_left cu \<and> (\<forall>t \<in> set (tokens_from cu). tk_kind t \<noteq> TEof)"
proof (induction cu rule: tokens_from.induct)
  case (1 cu)
  obtain t cu' where a: "advance_token cu = (t, cu')" by fastforce
  from advance_len [OF a "1.prems"] 1 a show ?case
    by (auto simp: tokens_from.simps [of cu] bytes_left_def)
qed

text \<open>
  C35: The lengths of the tokens of a pattern add up to its length in bytes, in 32-bit
  arithmetic, and no end-of-input token is among them.
\<close>

theorem tokenize_covers:
  "sum_list (map tk_len (tokenize pattern)) = word_of_nat (length (concat (map encode_utf8 pattern))) \<and>
   TEof \<notin> tk_kind ` set (tokenize pattern)"
proof -
  have "cursor_ok (cursor_new pattern)" by (simp add: cursor_ok_def cursor_new_def)
  moreover have "sum_list (map len_utf8 cs) = word_of_nat (length (concat (map encode_utf8 cs)))" for cs
    by (induction cs) (simp_all add: len_utf8_def)
  ultimately show ?thesis using tokens_from_len [of "cursor_new pattern"] by (auto simp: tokenize_def bytes_left_def cursor_new_def)
qed

end
