(* ===== verification/Negex_Parse.thy ===== *)
theory Negex_Parse
  imports Negex_Lex "HOL-Library.Product_Lexorder"
begin

text \<open>
  The recursive-descent parser (\<open>crates/negex-parse/src/parser.rs\<close>). The tokens and the pattern are
  arguments, the rest of the \<open>Parser\<close> struct is the state. The parser never fails: it records errors
  and puts error nodes into the tree. The text of an error is a constructor with the values the
  message is formatted from. The recursion through a group is bounded by the nesting the code allows
  and each loop by the number of tokens; running out of a bound is \<^const>\<open>None\<close>, and
  \<open>Negex_Parse_Props\<close> shows that no pattern does.
\<close>

section \<open>State\<close>

datatype parse_message =
    Expected token_kind token_kind
  | ExpectedQuantifier
  | BoundTooLarge
  | ExpectedDigit
  | NestingTooDeep
  | UnexpectedInAtom token_kind
  | UnexpectedInClass token_kind
  | EmptyClass

record parse_error =
  pe_span :: span
  pe_message :: parse_message

record parse_output =
  po_ast :: regex
  po_errors :: "parse_error list"

record parser =
  ps_pos :: usize
  ps_depth :: u32
  ps_errors :: "parse_error list"

definition max_depth :: u32 where "max_depth = 64"

definition parser_new :: parser where
  "parser_new = \<lparr>ps_pos = 0, ps_depth = 0, ps_errors = []\<rparr>"

definition span_new :: "u32 \<Rightarrow> u32 \<Rightarrow> span" where
  "span_new offset len = \<lparr>sp_offset = offset, sp_len = len\<rparr>"

text \<open>\<open>u32::saturating_sub\<close>\<close>

definition sat_sub :: "u32 \<Rightarrow> u32 \<Rightarrow> u32" where
  "sat_sub a b = (if b \<le> a then a - b else 0)"

definition offset :: "token list \<Rightarrow> parser \<Rightarrow> u32" where
  "offset ts p = (if ps_pos p \<le> length ts then sum_list (map tk_len (take (ps_pos p) ts)) else 0)"

definition span_from :: "token list \<Rightarrow> u32 \<Rightarrow> parser \<Rightarrow> span" where
  "span_from ts start p = span_new start (sat_sub (offset ts p) start)"

definition peek :: "token list \<Rightarrow> parser \<Rightarrow> token" where
  "peek ts p = (if ps_pos p < length ts then ts ! ps_pos p else token_new TEof 0)"

definition peek_kind :: "token list \<Rightarrow> parser \<Rightarrow> token_kind" where
  "peek_kind ts p = tk_kind (peek ts p)"

definition bump :: "token list \<Rightarrow> parser \<Rightarrow> parser" where
  "bump ts p = (if peek_kind ts p \<noteq> TEof then p\<lparr>ps_pos := ps_pos p + 1\<rparr> else p)"

definition push_error :: "span \<Rightarrow> parse_message \<Rightarrow> parser \<Rightarrow> parser" where
  "push_error sp m p = p\<lparr>ps_errors := ps_errors p @ [\<lparr>pe_span = sp, pe_message = m\<rparr>]\<rparr>"

text \<open>\<open>error\<close>: a message at the current token.\<close>

definition report :: "token list \<Rightarrow> parse_message \<Rightarrow> parser \<Rightarrow> parser" where
  "report ts m p = push_error (span_new (offset ts p) (tk_len (peek ts p))) m p"

definition expect :: "token list \<Rightarrow> token_kind \<Rightarrow> parser \<Rightarrow> parser" where
  "expect ts kind p = (if peek_kind ts p = kind then bump ts p else report ts (Expected kind (peek_kind ts p)) p)"

section \<open>The text of a token\<close>

text \<open>\<open>str::get\<close>: the slice at byte positions, where both are character boundaries.\<close>

fun drop_bytes :: "nat \<Rightarrow> scalar list \<Rightarrow> scalar list option" where
  "drop_bytes n cs =
     (if n = 0 then Some cs
      else (case cs of [] \<Rightarrow> None | c # rest \<Rightarrow> if length (encode_utf8 c) \<le> n then drop_bytes (n - length (encode_utf8 c)) rest else None))"

fun take_bytes :: "nat \<Rightarrow> scalar list \<Rightarrow> scalar list option" where
  "take_bytes n cs =
     (if n = 0 then Some []
      else (case cs of
          [] \<Rightarrow> None
        | c # rest \<Rightarrow>
            if length (encode_utf8 c) \<le> n
            then (case take_bytes (n - length (encode_utf8 c)) rest of None \<Rightarrow> None | Some xs \<Rightarrow> Some (c # xs))
            else None))"

definition str_get :: "scalar list \<Rightarrow> nat \<Rightarrow> nat \<Rightarrow> scalar list option" where
  "str_get cs start stop =
     (if start \<le> stop then (case drop_bytes start cs of None \<Rightarrow> None | Some rest \<Rightarrow> take_bytes (stop - start) rest) else None)"

definition current_text :: "scalar list \<Rightarrow> token list \<Rightarrow> parser \<Rightarrow> scalar list" where
  "current_text pattern ts p =
     (let off = unat (offset ts p); len = unat (tk_len (peek ts p)) in
      case str_get pattern off (saturating_add off len) of None \<Rightarrow> [] | Some text \<Rightarrow> text)"

text \<open>A \<open>String\<close> is its bytes.\<close>

definition utf8_string :: "scalar list \<Rightarrow> string" where
  "utf8_string cs = map (char_of \<circ> unat) (concat (map encode_utf8 cs))"

text \<open>The category between \<open>\p{\<close> or \<open>\P{\<close> and the closing brace.\<close>

definition property_name :: "scalar list \<Rightarrow> string" where
  "property_name text =
     (if (take 3 text = [92, 112, 123] \<or> take 3 text = [92, 80, 123]) \<and> 3 < length text \<and> last text = 125
      then utf8_string (butlast (drop 3 text))
      else [])"

section \<open>Quantifiers\<close>

lemma bump_advances: "peek_kind ts p \<noteq> TEof \<Longrightarrow> ps_pos p < length ts \<and> ps_pos (bump ts p) = Suc (ps_pos p)"
  by (auto simp: peek_kind_def peek_def bump_def token_new_def split: if_splits)

lemma bump_remaining: "peek_kind ts p \<noteq> TEof \<Longrightarrow> length ts - ps_pos (bump ts p) < length ts - ps_pos p"
  using bump_advances [of ts p] by auto

definition is_digit :: "token_kind \<Rightarrow> bool" where
  "is_digit kind \<longleftrightarrow> (case kind of TLiteral c \<Rightarrow> 48 \<le> c \<and> c \<le> 57 | _ \<Rightarrow> False)"

text \<open>\<open>value.saturating_mul(10).saturating_add(c.to_digit(10))\<close>\<close>

definition add_digit :: "u32 \<Rightarrow> token_kind \<Rightarrow> u32" where
  "add_digit value kind =
     (case kind of
        TLiteral c \<Rightarrow> word_of_nat (min (min (unat value * 10) (2 ^ 32 - 1) + (c - 48)) (2 ^ 32 - 1))
      | _ \<Rightarrow> value)"

function quant_digits :: "token list \<Rightarrow> parser \<Rightarrow> u32 \<Rightarrow> nat \<Rightarrow> u32 \<times> nat \<times> parser" where
  "quant_digits ts p value digits =
     (if is_digit (peek_kind ts p) then quant_digits ts (bump ts p) (add_digit value (peek_kind ts p)) (digits + 1)
      else (value, digits, p))"
  by pat_completeness auto

termination
  by (relation "measure (\<lambda>(ts, p, value, digits). length ts - ps_pos p)")
    (auto intro!: bump_remaining [simplified] simp: is_digit_def split: token_kind.splits)

definition parse_quant_exact :: "token list \<Rightarrow> parser \<Rightarrow> u32 \<times> parser" where
  "parse_quant_exact ts p =
     (case quant_digits ts p 0 0 of
        (value, digits, p) \<Rightarrow> (value, if digits = 0 then report ts ExpectedDigit p else p))"

definition parse_range_quantifier :: "token list \<Rightarrow> parser \<Rightarrow> quantifier \<times> parser" where
  "parse_range_quantifier ts p =
     (let start = offset ts p;
          p = expect ts TOpenBrace p;
          (lo, p) = parse_quant_exact ts p;
          (hi, p) =
            (if peek_kind ts p = TComma then
               let p = bump ts p in
               if peek_kind ts p \<noteq> TCloseBrace then (case parse_quant_exact ts p of (v, p) \<Rightarrow> (Some v, p)) else (None, p)
             else (None, p));
          p = expect ts TCloseBrace p;
          p = (if lo > 2147483647 then push_error (span_from ts start p) BoundTooLarge p else p)
      in (QRange lo hi, p))"

definition parse_quantifier :: "token list \<Rightarrow> parser \<Rightarrow> quantifier \<times> parser" where
  "parse_quantifier ts p =
     (case peek_kind ts p of
        TStar \<Rightarrow> (QStar, bump ts p)
      | TPlus \<Rightarrow> (QPlus, bump ts p)
      | TQuestion \<Rightarrow> (QQuestion, bump ts p)
      | TOpenBrace \<Rightarrow> parse_range_quantifier ts p
      | _ \<Rightarrow> (QQuestion, report ts ExpectedQuantifier p))"

section \<open>Atoms\<close>

definition char_class_of :: "class_item list \<Rightarrow> atom" where
  "char_class_of items = ClassAtom (PositiveClass items False)"

text \<open>
  \<open>n r t d s w p P\<close> are 110, 114, 116, 100, 115, 119, 112, 80. The other branches of the match give the
  escaped character itself.
\<close>

definition parse_escape :: "scalar \<Rightarrow> scalar list \<Rightarrow> atom" where
  "parse_escape c text =
     (if c = 110 then Literal 10
      else if c = 114 then Literal 13
      else if c = 116 then Literal 9
      else if c = 100 then char_class_of [ItemRange 48 57]
      else if c = 115 then char_class_of [ItemChar 32, ItemChar 9, ItemChar 10, ItemChar 13]
      else if c = 119 then char_class_of [ItemRange 65 90, ItemRange 97 122, ItemRange 48 57, ItemChar 95]
      else if c = 112 then ClassAtom (PropertyClass (property_name text) False)
      else if c = 80 then ClassAtom (PropertyClass (property_name text) True)
      else Literal c)"

text \<open>The end of a range: \<open>n\<close>, \<open>r\<close> and \<open>t\<close> are control characters, whether escaped or not.\<close>

definition range_end :: "scalar \<Rightarrow> scalar" where
  "range_end c = (if c = 110 then 10 else if c = 114 then 13 else if c = 116 then 9 else c)"

definition class_escape :: "scalar \<Rightarrow> scalar list \<Rightarrow> class_item" where
  "class_escape c text =
     (if c = 112 then ItemProperty (property_name text) False
      else if c = 80 then ItemProperty (property_name text) True
      else ItemChar c)"

text \<open>One turn of the loop of \<open>parse_char_class\<close>.\<close>

definition class_step :: "scalar list \<Rightarrow> token list \<Rightarrow> parser \<Rightarrow> class_item list \<times> parser" where
  "class_step pattern ts p =
     (case peek_kind ts p of
        THyphen \<Rightarrow> ([ItemChar 45], bump ts p)
      | TEscape c \<Rightarrow> ([class_escape c (current_text pattern ts p)], bump ts p)
      | TLiteral c \<Rightarrow>
          let p = bump ts p in
          if peek_kind ts p = THyphen then
            let q = bump ts p in
            (case peek_kind ts q of
               TLiteral e \<Rightarrow> ([ItemRange c (range_end e)], bump ts q)
             | TEscape e \<Rightarrow> ([ItemRange c (range_end e)], bump ts q)
             | _ \<Rightarrow> ([ItemChar c, ItemChar 45], q\<lparr>ps_pos := ps_pos p\<rparr>))
          else ([ItemChar c], p)
      | k \<Rightarrow> ([], bump ts (report ts (UnexpectedInClass k) p)))"

lemma class_step_advances:
  assumes "peek_kind ts p \<noteq> TEof" "class_step pattern ts p = (items, p')"
  shows "ps_pos p < ps_pos p' \<and> ps_pos p' \<le> length ts"
proof -
  note b = bump_advances [OF assms(1)]
  let ?p = "bump ts p"
  note q = bump_advances [of ts ?p]
  let ?q = "bump ts ?p"
  note r = bump_advances [of ts ?q]
  have e: "ps_pos (bump ts (report ts m p)) = Suc (ps_pos p)" for m
    using b assms(1) by (simp add: report_def push_error_def bump_def peek_kind_def peek_def)
  show ?thesis
    using assms(2) b q r e by (auto simp: class_step_def Let_def split: token_kind.splits if_splits)
qed

function class_loop :: "scalar list \<Rightarrow> token list \<Rightarrow> parser \<Rightarrow> class_item list \<Rightarrow> class_item list \<times> parser" where
  "class_loop pattern ts p items =
     (if peek_kind ts p \<noteq> TCloseBracket \<and> peek_kind ts p \<noteq> TEof
      then (case class_step pattern ts p of (new, p') \<Rightarrow> class_loop pattern ts p' (items @ new))
      else (items, p))"
  by pat_completeness auto

termination
  by (relation "measure (\<lambda>(pattern, ts, p, items). length ts - ps_pos p)") (auto dest!: class_step_advances [OF _ sym])

definition parse_char_class :: "scalar list \<Rightarrow> token list \<Rightarrow> bool \<Rightarrow> parser \<Rightarrow> atom \<times> parser" where
  "parse_char_class pattern ts negated p =
     (let start = offset ts p;
          (items, p) = class_loop pattern ts (bump ts p) [];
          p = expect ts TCloseBracket p;
          p = (if items = [] then push_error (span_from ts start p) EmptyClass p else p)
      in (ClassAtom (PositiveClass items negated), p))"

text \<open>Skips the rest of a group that is nested too deeply; \<open>nest\<close> counts the open parentheses.\<close>

function skip_group :: "token list \<Rightarrow> u32 \<Rightarrow> parser \<Rightarrow> parser" where
  "skip_group ts nest p =
     (if nest = 0 then p
      else if peek_kind ts p = TEof then p
      else skip_group ts
        (if peek_kind ts p = TOpenParen then nest + 1 else if peek_kind ts p = TCloseParen then nest - 1 else nest) (bump ts p))"
  by pat_completeness auto

termination
  by (relation "measure (\<lambda>(ts, nest, p). length ts - ps_pos p)") (auto intro: bump_remaining)

section \<open>The grammar\<close>

text \<open>The branches of \<open>parse_atom\<close> that do not recurse.\<close>

definition parse_simple_atom :: "scalar list \<Rightarrow> token list \<Rightarrow> parser \<Rightarrow> atom \<times> parser" where
  "parse_simple_atom pattern ts p =
     (case peek_kind ts p of
        TLiteral c \<Rightarrow> (Literal c, bump ts p)
      | TDot \<Rightarrow> (AnyChar, bump ts p)
      | TCharClassStart negated \<Rightarrow> parse_char_class pattern ts (negated \<noteq> 0) p
      | TEscape c \<Rightarrow> (parse_escape c (current_text pattern ts p), bump ts p)
      | TCaret \<Rightarrow> (Literal 94, bump ts p)
      | TDollar \<Rightarrow> (Literal 36, bump ts p)
      | k \<Rightarrow> let p1 = bump ts (report ts (UnexpectedInAtom k) p) in (AtomError (span_from ts (offset ts p) p1), p1))"

text \<open>A group: past the parenthesis and one level deeper, and back; or skipped when it is too deep.\<close>

definition enter_group :: "token list \<Rightarrow> parser \<Rightarrow> parser" where
  "enter_group ts p = (let p1 = bump ts p in p1\<lparr>ps_depth := ps_depth p1 + 1\<rparr>)"

definition leave_group :: "token list \<Rightarrow> parser \<Rightarrow> parser" where
  "leave_group ts p = expect ts TCloseParen (p\<lparr>ps_depth := ps_depth p - 1\<rparr>)"

definition parse_deep_group :: "token list \<Rightarrow> parser \<Rightarrow> atom \<times> parser" where
  "parse_deep_group ts p =
     (let p2 = report ts NestingTooDeep (enter_group ts p);
          p3 = skip_group ts 1 (p2\<lparr>ps_depth := ps_depth p2 - 1\<rparr>)
      in (AtomError (span_from ts (offset ts p) p3), p3))"

text \<open>The quantifier of a piece, if there is one.\<close>

definition parse_suffix :: "token list \<Rightarrow> parser \<Rightarrow> quantifier option \<times> parser" where
  "parse_suffix ts p =
     (if peek_kind ts p \<in> {TStar, TPlus, TQuestion, TOpenBrace}
      then (case parse_quantifier ts p of (q, p2) \<Rightarrow> (Some q, p2)) else (None, p))"

definition branch_ends :: "token_kind \<Rightarrow> bool" where
  "branch_ends k \<longleftrightarrow> k \<in> {TPipe, TCloseParen, TCloseBracket, TEof}"

text \<open>
  The mutually recursive routines. \<open>inner\<close> is \<open>parse_regex\<close> one group deeper; \<open>m\<close> bounds the turns of
  a loop.
\<close>

definition parse_atom :: "(parser \<Rightarrow> (regex \<times> parser) option) \<Rightarrow> scalar list \<Rightarrow> token list \<Rightarrow> parser \<Rightarrow> (atom \<times> parser) option" where
  "parse_atom inner pattern ts p =
     (if peek_kind ts p = TOpenParen then
        (if ps_depth (enter_group ts p) > max_depth then Some (parse_deep_group ts p)
         else do {
           (r, p2) \<leftarrow> inner (enter_group ts p);
           Some (Group r, leave_group ts p2) })
      else Some (parse_simple_atom pattern ts p))"

definition parse_piece :: "(parser \<Rightarrow> (regex \<times> parser) option) \<Rightarrow> scalar list \<Rightarrow> token list \<Rightarrow> parser \<Rightarrow> (piece \<times> parser) option" where
  "parse_piece inner pattern ts p = do {
     (a, p1) \<leftarrow> parse_atom inner pattern ts p;
     Some (case parse_suffix ts p1 of (q, p2) \<Rightarrow> (Piece a q (span_from ts (offset ts p) p2), p2)) }"

primrec parse_pieces :: "(parser \<Rightarrow> (regex \<times> parser) option) \<Rightarrow> scalar list \<Rightarrow> token list \<Rightarrow> nat \<Rightarrow> piece list \<Rightarrow> parser
    \<Rightarrow> (piece list \<times> parser) option" where
  "parse_pieces inner pattern ts 0 ps p = None"
| "parse_pieces inner pattern ts (Suc m) ps p =
     (if \<not> branch_ends (peek_kind ts p) then do {
        (pc, p1) \<leftarrow> parse_piece inner pattern ts p;
        parse_pieces inner pattern ts m (ps @ [pc]) p1 }
      else Some (ps, p))"

definition parse_branch :: "(parser \<Rightarrow> (regex \<times> parser) option) \<Rightarrow> scalar list \<Rightarrow> token list \<Rightarrow> parser \<Rightarrow> (branch \<times> parser) option" where
  "parse_branch inner pattern ts p = do {
     (ps, p1) \<leftarrow> parse_pieces inner pattern ts (Suc (length ts)) [] p;
     Some (Branch ps (span_from ts (offset ts p) p1), p1) }"

primrec parse_alternatives :: "(parser \<Rightarrow> (regex \<times> parser) option) \<Rightarrow> scalar list \<Rightarrow> token list \<Rightarrow> nat \<Rightarrow> branch list \<Rightarrow> parser
    \<Rightarrow> (branch list \<times> parser) option" where
  "parse_alternatives inner pattern ts 0 bs p = None"
| "parse_alternatives inner pattern ts (Suc m) bs p =
     (if peek_kind ts p = TPipe then do {
        (b, p1) \<leftarrow> parse_branch inner pattern ts (bump ts p);
        parse_alternatives inner pattern ts m (bs @ [b]) p1 }
      else Some (bs, p))"

definition parse_level :: "(parser \<Rightarrow> (regex \<times> parser) option) \<Rightarrow> scalar list \<Rightarrow> token list \<Rightarrow> parser \<Rightarrow> (regex \<times> parser) option" where
  "parse_level inner pattern ts p = do {
     (b, p1) \<leftarrow> parse_branch inner pattern ts p;
     (bs, p2) \<leftarrow> parse_alternatives inner pattern ts (Suc (length ts)) [b] p1;
     Some (Regex bs (span_from ts (offset ts p) p2), p2) }"

primrec parse_regex :: "nat \<Rightarrow> scalar list \<Rightarrow> token list \<Rightarrow> parser \<Rightarrow> (regex \<times> parser) option" where
  "parse_regex 0 pattern ts p = None"
| "parse_regex (Suc n) pattern ts p = parse_level (parse_regex n pattern ts) pattern ts p"

section \<open>The entry point\<close>

text \<open>\<open>take_errors\<close> sorts the errors by position (a stable sort).\<close>

definition take_errors :: "parser \<Rightarrow> parse_error list" where
  "take_errors p = sort_key (\<lambda>e. (unat (sp_offset (pe_span e)), unat (sp_len (pe_span e)))) (ps_errors p)"

text \<open>The nesting is bounded by \<open>MAX_DEPTH\<close>, so one level more than that is never reached.\<close>

definition parse :: "scalar list \<Rightarrow> parse_output option" where
  "parse pattern =
     (let ts = tokenize pattern in
      case parse_regex (unat max_depth + 1) pattern ts parser_new of
        None \<Rightarrow> None
      | Some (ast, p) \<Rightarrow> Some \<lparr>po_ast = ast, po_errors = take_errors p\<rparr>)"

end
