(* ===== verification/Negex_Parse_Props.thy ===== *)
theory Negex_Parse_Props
  imports Negex_Parse "HOL-Library.Sublist"
begin

text \<open>
  The parser returns on every pattern, its state only moves forward, and a tree that comes without
  errors is well formed: no error nodes, no empty class, at least one branch, groups no deeper than
  the limit.
\<close>

declare quant_digits.simps [simp del] class_loop.simps [simp del] skip_group.simps [simp del]

section \<open>Moving forward\<close>

definition follows :: "token list \<Rightarrow> parser \<Rightarrow> parser \<Rightarrow> bool" where
  "follows ts p p' \<longleftrightarrow> ps_pos p \<le> ps_pos p' \<and> (ps_pos p \<le> length ts \<longrightarrow> ps_pos p' \<le> length ts) \<and>
     ps_depth p' = ps_depth p \<and> prefix (ps_errors p) (ps_errors p')"

lemma follows_refl [simp]: "follows ts p p"
  by (simp add: follows_def)

lemma follows_trans: "follows ts p q \<Longrightarrow> follows ts q r \<Longrightarrow> follows ts p r"
  unfolding follows_def by (auto intro: prefix_order.trans)

lemma follows_quiet:
  "follows ts p q \<Longrightarrow> follows ts q r \<Longrightarrow> ps_errors r = ps_errors p \<Longrightarrow> ps_errors q = ps_errors p \<and> ps_errors r = ps_errors q"
  unfolding follows_def by (metis prefix_order.antisym)

lemma follows_bump [simp]: "follows ts p (bump ts p)"
  using bump_advances [of ts p] by (auto simp: follows_def bump_def)

lemma bump_errors [simp]: "ps_errors (bump ts p) = ps_errors p" "ps_depth (bump ts p) = ps_depth p"
  by (simp_all add: bump_def)

lemma follows_push [simp]: "follows ts p (push_error sp m p)"
  by (simp add: follows_def push_error_def)

lemma push_errors [simp]: "ps_errors (push_error sp m p) \<noteq> ps_errors p" "ps_pos (push_error sp m p) = ps_pos p"
  by (simp_all add: push_error_def)

lemma follows_report [simp]: "follows ts p (report ts m p)"
  by (simp add: report_def)

lemma report_errors [simp]: "ps_errors (report ts m p) \<noteq> ps_errors p" "ps_pos (report ts m p) = ps_pos p"
  by (simp_all add: report_def)

lemma peek_report [simp]: "peek_kind ts (report ts m p) = peek_kind ts p"
  by (simp add: peek_kind_def peek_def)

lemma follows_expect [simp]: "follows ts p (expect ts k p)"
  by (simp add: expect_def)

lemma follows_after_bump: "follows ts (bump ts p) q \<Longrightarrow> follows ts p q"
  using follows_trans [OF follows_bump] .

section \<open>The parts of a piece\<close>

lemma follows_digits: "quant_digits ts p v n = (v', n', p') \<Longrightarrow> follows ts p p'"
proof (induction ts p v n rule: quant_digits.induct)
  case (1 ts p v n)
  show ?case
  proof (cases "is_digit (peek_kind ts p)")
    case True
    with 1 have "follows ts (bump ts p) p'" by (simp add: quant_digits.simps [of ts p])
    then show ?thesis using follows_trans follows_bump by blast
  qed (use 1 in \<open>simp add: quant_digits.simps [of ts p]\<close>)
qed

lemma follows_exact: "parse_quant_exact ts p = (v, p') \<Longrightarrow> follows ts p p'"
  using follows_trans follows_report by (auto simp: parse_quant_exact_def dest!: follows_digits split: prod.splits if_splits)

lemma follows_range:
  assumes "parse_range_quantifier ts p = (q, p')"
  shows "follows ts p p'"
proof -
  let ?p1 = "expect ts TOpenBrace p"
  obtain lo p2 where p2: "parse_quant_exact ts ?p1 = (lo, p2)" by fastforce
  obtain hi p3 where p3: "(if peek_kind ts p2 = TComma then
               let p = bump ts p2 in
               if peek_kind ts p \<noteq> TCloseBrace then (case parse_quant_exact ts p of (v, p) \<Rightarrow> (Some v, p)) else (None, p)
             else (None, p2)) = (hi, p3)" by fastforce
  have f2: "follows ts p p2" using follows_exact [OF p2] follows_expect follows_trans by blast
  have "follows ts p2 p3" using p3 follows_exact follows_trans follows_bump
    by (auto simp: Let_def split: if_splits prod.splits intro: follows_after_bump)
  then have f3: "follows ts p (expect ts TCloseBrace p3)" using f2 follows_trans follows_expect by blast
  have "p' = (if lo > 2147483647 then push_error (span_from ts (offset ts p) (expect ts TCloseBrace p3)) BoundTooLarge (expect ts TCloseBrace p3)
      else expect ts TCloseBrace p3)"
    using assms p2 p3 by (simp add: parse_range_quantifier_def Let_def)
  then show ?thesis using f3 follows_push follows_trans by (metis (full_types))
qed

lemma follows_quantifier: "parse_quantifier ts p = (q, p') \<Longrightarrow> follows ts p p'"
  by (auto simp: parse_quantifier_def dest!: follows_range split: token_kind.splits)

lemma follows_suffix: "parse_suffix ts p = (q, p') \<Longrightarrow> follows ts p p'"
  by (auto simp: parse_suffix_def dest!: follows_quantifier split: if_splits prod.splits)

lemma follows_skip: "follows ts p (skip_group ts nest p)"
proof (induction ts nest p rule: skip_group.induct)
  case (1 ts nest p)
  show ?case
  proof (cases "nest = 0 \<or> peek_kind ts p = TEof")
    case False
    with 1 have "follows ts (bump ts p) (skip_group ts nest p)" by (simp add: skip_group.simps [of ts nest p])
    then show ?thesis by (rule follows_after_bump)
  qed (auto simp: skip_group.simps [of ts nest p])
qed

lemma class_step_follows:
  assumes "peek_kind ts p \<noteq> TEof" "class_step pattern ts p = (new, p')"
  shows "follows ts p p'"
proof -
  have "follows ts p (bump ts (report ts m p))" for m
    using follows_trans [OF follows_report follows_bump] by simp
  then show ?thesis
    using assms class_step_advances [OF assms] follows_trans [OF follows_bump follows_bump]
      follows_trans [OF follows_trans [OF follows_bump follows_bump] follows_bump, of ts p]
    by (auto simp: class_step_def Let_def follows_def split: token_kind.splits if_splits)
qed

section \<open>Well-formed trees\<close>

fun item_clean :: "class_item \<Rightarrow> bool" where
  "item_clean (ItemError sp) \<longleftrightarrow> False"
| "item_clean item \<longleftrightarrow> True"

fun class_clean :: "char_class \<Rightarrow> bool" where
  "class_clean (PositiveClass items negated) \<longleftrightarrow> items \<noteq> [] \<and> (\<forall>i \<in> set items. item_clean i)"
| "class_clean (PropertyClass category negated) \<longleftrightarrow> True"
| "class_clean (ErrorClass sp) \<longleftrightarrow> False"

text \<open>Trees without error nodes whose groups nest at most \<open>k\<close> deep.\<close>

fun regex_clean :: "nat \<Rightarrow> regex \<Rightarrow> bool" and branch_clean :: "nat \<Rightarrow> branch \<Rightarrow> bool"
  and piece_clean :: "nat \<Rightarrow> piece \<Rightarrow> bool" and atom_clean :: "nat \<Rightarrow> atom \<Rightarrow> bool" where
  "regex_clean k (Regex bs sp) \<longleftrightarrow> bs \<noteq> [] \<and> (\<forall>b \<in> set bs. branch_clean k b)"
| "branch_clean k (Branch ps sp) \<longleftrightarrow> (\<forall>p \<in> set ps. piece_clean k p)"
| "piece_clean k (Piece a q sp) \<longleftrightarrow> atom_clean k a"
| "atom_clean k (Literal c) \<longleftrightarrow> True"
| "atom_clean k AnyChar \<longleftrightarrow> True"
| "atom_clean k (ClassAtom cl) \<longleftrightarrow> class_clean cl"
| "atom_clean k (Group r) \<longleftrightarrow> 0 < k \<and> regex_clean (k - 1) r"
| "atom_clean k (AtomError sp) \<longleftrightarrow> False"

lemma class_step_clean: "class_step pattern ts p = (new, p') \<Longrightarrow> i \<in> set new \<Longrightarrow> item_clean i"
  by (auto simp: class_step_def class_escape_def Let_def split: token_kind.splits if_splits)

lemma class_loop_run:
  "class_loop pattern ts p items = (items', p') \<Longrightarrow> follows ts p p' \<and> ((\<forall>i \<in> set items. item_clean i) \<longrightarrow> (\<forall>i \<in> set items'. item_clean i))"
proof (induction pattern ts p items rule: class_loop.induct)
  case (1 pattern ts p items)
  show ?case
  proof (cases "peek_kind ts p \<noteq> TCloseBracket \<and> peek_kind ts p \<noteq> TEof")
    case True
    obtain new p1 where step: "class_step pattern ts p = (new, p1)" by fastforce
    have rest: "class_loop pattern ts p1 (items @ new) = (items', p')"
      using "1.prems" True step by (simp add: class_loop.simps [of pattern ts p])
    have "follows ts p p1" using class_step_follows True step by blast
    then show ?thesis using "1.IH" [OF True step [symmetric] rest] class_step_clean [OF step] follows_trans by (auto 4 3)
  qed (use "1.prems" in \<open>auto simp: class_loop.simps [of pattern ts p]\<close>)
qed

lemma char_class_run:
  assumes "parse_char_class pattern ts negated p = (a, p')"
  shows "follows ts (bump ts p) p' \<and> (ps_errors p' = ps_errors p \<longrightarrow> atom_clean k a)"
proof -
  obtain items p1 where loop: "class_loop pattern ts (bump ts p) [] = (items, p1)" by fastforce
  let ?p2 = "expect ts TCloseBracket p1"
  have p': "p' = (if items = [] then push_error (span_from ts (offset ts p) ?p2) EmptyClass ?p2 else ?p2)"
    and a: "a = ClassAtom (PositiveClass items negated)"
    using assms loop by (auto simp: parse_char_class_def Let_def)
  have f: "follows ts (bump ts p) ?p2" using class_loop_run [OF loop] follows_trans follows_expect by blast
  then have "follows ts (bump ts p) p'" using p' follows_trans [OF f follows_push] by simp
  moreover have "ps_errors p' \<noteq> ps_errors p" if "items = []"
    using follows_quiet [OF f follows_push] p' that by (metis bump_errors(1) push_errors(1))
  ultimately show ?thesis using a class_loop_run [OF loop] by auto
qed

lemma parse_escape_clean [simp]: "atom_clean k (parse_escape c text)"
  by (simp add: parse_escape_def char_class_of_def)

lemma simple_atom_run:
  assumes "peek_kind ts p \<noteq> TEof" "peek_kind ts p \<noteq> TOpenParen" "parse_simple_atom pattern ts p = (a, p')"
  shows "follows ts (bump ts p) p' \<and> (ps_errors p' = ps_errors p \<longrightarrow> atom_clean k a)"
proof -
  have "follows ts (bump ts p) (bump ts (report ts m p)) \<and> ps_errors (bump ts (report ts m p)) \<noteq> ps_errors p" for m
    using bump_advances [OF assms(1)] assms(1) by (simp add: follows_def bump_def) (simp add: report_def push_error_def)
  then show ?thesis using assms
    by (auto simp: parse_simple_atom_def Let_def dest: char_class_run split: token_kind.splits)
qed

section \<open>The grammar\<close>

text \<open>What a call of \<open>parse_regex\<close> at a nesting depth of at least \<open>d\<close> gives.\<close>

definition level_ok :: "token list \<Rightarrow> nat \<Rightarrow> (parser \<Rightarrow> (regex \<times> parser) option) \<Rightarrow> bool" where
  "level_ok ts d inner \<longleftrightarrow> (\<forall>p. ps_pos p \<le> length ts \<longrightarrow> d \<le> unat (ps_depth p) \<longrightarrow> unat (ps_depth p) \<le> 64 \<longrightarrow>
     (\<exists>r p'. inner p = Some (r, p') \<and> follows ts p p' \<and>
        (ps_errors p' = ps_errors p \<longrightarrow> regex_clean (64 - unat (ps_depth p)) r)))"

lemma level_okD:
  "level_ok ts d inner \<Longrightarrow> ps_pos p \<le> length ts \<Longrightarrow> d \<le> unat (ps_depth p) \<Longrightarrow> unat (ps_depth p) \<le> 64 \<Longrightarrow>
   \<exists>r p'. inner p = Some (r, p') \<and> follows ts p p' \<and> (ps_errors p' = ps_errors p \<longrightarrow> regex_clean (64 - unat (ps_depth p)) r)"
  unfolding level_ok_def by blast

definition good :: "token list \<Rightarrow> nat \<Rightarrow> parser \<Rightarrow> bool" where
  "good ts d p \<longleftrightarrow> ps_pos p \<le> length ts \<and> d \<le> Suc (unat (ps_depth p)) \<and> unat (ps_depth p) \<le> 64"

lemma good_follows: "good ts d p \<Longrightarrow> follows ts p p' \<Longrightarrow> good ts d p'"
  by (simp add: good_def follows_def)

lemma atom_run:
  assumes inner: "level_ok ts d inner" and p: "good ts d p" and go: "peek_kind ts p \<noteq> TEof"
  shows "\<exists>a p'. parse_atom inner pattern ts p = Some (a, p') \<and> follows ts (bump ts p) p' \<and>
     (ps_errors p' = ps_errors p \<longrightarrow> atom_clean (64 - unat (ps_depth p)) a)"
proof (cases "peek_kind ts p = TOpenParen")
  case False
  then show ?thesis using simple_atom_run [OF go False] by (cases "parse_simple_atom pattern ts p") (auto simp: parse_atom_def)
next
  case True
  let ?e = "enter_group ts p"
  have depth: "unat (ps_depth ?e) = Suc (unat (ps_depth p))" "ps_depth ?e - 1 = ps_depth p" "ps_pos ?e = ps_pos (bump ts p)" "ps_errors ?e = ps_errors p"
    using p by (simp_all add: enter_group_def Let_def good_def unat_word_ariths)
  show ?thesis
  proof (cases "ps_depth ?e > max_depth")
    case deep: True
    let ?p2 = "report ts NestingTooDeep ?e"
    let ?p3 = "?p2\<lparr>ps_depth := ps_depth ?p2 - 1\<rparr>"
    have "follows ts (bump ts p) ?p3"
      using depth by (simp add: follows_def report_def push_error_def)
    then have f: "follows ts (bump ts p) (skip_group ts 1 ?p3)" using follows_skip follows_trans by blast
    have "prefix (ps_errors ?p3) (ps_errors (skip_group ts 1 ?p3))" using follows_skip [of ts ?p3 1] by (simp add: follows_def)
    then have "ps_errors (skip_group ts 1 ?p3) \<noteq> ps_errors p"
      using depth by (auto simp: report_def push_error_def)
    with f deep True show ?thesis by (simp add: parse_atom_def parse_deep_group_def Let_def)
  next
    case False
    then have le: "Suc (unat (ps_depth p)) \<le> 64" using depth(1) by (simp add: max_depth_def word_less_nat_alt)
    have pos: "ps_pos ?e \<le> length ts" using p follows_bump [of ts p] by (simp add: depth good_def follows_def)
    have "d \<le> unat (ps_depth ?e)" "unat (ps_depth ?e) \<le> 64" using p depth(1) le by (simp_all add: good_def)
    from level_okD [OF inner pos this] obtain r p2 where
      r: "inner ?e = Some (r, p2)" "follows ts ?e p2" "ps_errors p2 = ps_errors ?e \<longrightarrow> regex_clean (64 - Suc (unat (ps_depth p))) r"
      unfolding depth(1) by blast
    let ?p3 = "p2\<lparr>ps_depth := ps_depth p2 - 1\<rparr>"
    have f3: "follows ts (bump ts p) ?p3" using r(2) depth by (simp add: follows_def)
    have "follows ts (bump ts p) (leave_group ts p2)" unfolding leave_group_def using f3 follows_expect follows_trans by blast
    moreover have "regex_clean (64 - Suc (unat (ps_depth p))) r" if "ps_errors (leave_group ts p2) = ps_errors p"
    proof -
      have "ps_errors (expect ts TCloseParen ?p3) = ps_errors (bump ts p)" using that by (simp add: leave_group_def)
      from follows_quiet [OF f3 follows_expect this] have "ps_errors p2 = ps_errors p" by simp
      then show ?thesis using r(3) depth(4) by simp
    qed
    ultimately show ?thesis using True False r(1) le by (simp add: parse_atom_def)
  qed
qed

lemma piece_run:
  assumes inner: "level_ok ts d inner" and p: "good ts d p" and go: "peek_kind ts p \<noteq> TEof"
  shows "\<exists>pc p'. parse_piece inner pattern ts p = Some (pc, p') \<and> follows ts (bump ts p) p' \<and>
     (ps_errors p' = ps_errors p \<longrightarrow> piece_clean (64 - unat (ps_depth p)) pc)"
proof -
  from atom_run [OF assms] obtain a p1 where
    a: "parse_atom inner pattern ts p = Some (a, p1)" "follows ts (bump ts p) p1" "ps_errors p1 = ps_errors p \<longrightarrow> atom_clean (64 - unat (ps_depth p)) a" by blast
  obtain q p2 where q: "parse_suffix ts p1 = (q, p2)" by fastforce
  have f: "follows ts p1 p2" using follows_suffix q by blast
  show ?thesis using a q follows_trans [OF a(2) f] follows_quiet [OF a(2) f] by (simp add: parse_piece_def)
qed

lemma pieces_run:
  assumes inner: "level_ok ts d inner"
  shows "good ts d p \<Longrightarrow> length ts - ps_pos p < m \<Longrightarrow>
     \<exists>ps' p'. parse_pieces inner pattern ts m ps p = Some (ps', p') \<and> follows ts p p' \<and>
       (ps_errors p' = ps_errors p \<longrightarrow> (\<forall>pc \<in> set ps. piece_clean (64 - unat (ps_depth p)) pc) \<longrightarrow>
          (\<forall>pc \<in> set ps'. piece_clean (64 - unat (ps_depth p)) pc))"
proof (induction m arbitrary: ps p)
  case (Suc m)
  show ?case
  proof (cases "branch_ends (peek_kind ts p)")
    case False
    then have go: "peek_kind ts p \<noteq> TEof" by (auto simp: branch_ends_def)
    from piece_run [OF inner Suc.prems(1) go] obtain pc p1 where
      pc: "parse_piece inner pattern ts p = Some (pc, p1)" "follows ts (bump ts p) p1"
        "ps_errors p1 = ps_errors p \<longrightarrow> piece_clean (64 - unat (ps_depth p)) pc" by blast
    have f: "follows ts p p1" using pc(2) by (rule follows_after_bump)
    have "ps_pos p < length ts \<and> ps_pos p < ps_pos p1" using bump_advances [OF go] pc(2) by (simp add: follows_def)
    then have "length ts - ps_pos p1 < m" using Suc.prems(2) by linarith
    with Suc.IH [OF good_follows [OF Suc.prems(1) f], of "ps @ [pc]"] obtain ps' p' where
      r: "parse_pieces inner pattern ts m (ps @ [pc]) p1 = Some (ps', p')" "follows ts p1 p'"
        "ps_errors p' = ps_errors p1 \<longrightarrow> (\<forall>x \<in> set (ps @ [pc]). piece_clean (64 - unat (ps_depth p1)) x) \<longrightarrow>
          (\<forall>x \<in> set ps'. piece_clean (64 - unat (ps_depth p1)) x)" by blast
    have "ps_depth p1 = ps_depth p" using f by (simp add: follows_def)
    then have "(\<forall>x \<in> set ps. piece_clean (64 - unat (ps_depth p)) x) \<longrightarrow> (\<forall>x \<in> set ps'. piece_clean (64 - unat (ps_depth p)) x)"
      if "ps_errors p' = ps_errors p"
      using follows_quiet [OF f r(2) that] pc(3) r(3) by simp
    then show ?thesis using pc(1) r(1) False follows_trans [OF f r(2)] by simp
  qed simp
qed simp

lemma branch_run:
  assumes inner: "level_ok ts d inner" and p: "good ts d p"
  shows "\<exists>b p'. parse_branch inner pattern ts p = Some (b, p') \<and> follows ts p p' \<and>
     (ps_errors p' = ps_errors p \<longrightarrow> branch_clean (64 - unat (ps_depth p)) b)"
proof -
  have "length ts - ps_pos p < Suc (length ts)" by simp
  from pieces_run [OF inner p this, of pattern "[]"] obtain ps p1 where
    "parse_pieces inner pattern ts (Suc (length ts)) [] p = Some (ps, p1)" "follows ts p p1"
    "ps_errors p1 = ps_errors p \<longrightarrow> (\<forall>pc \<in> set ps. piece_clean (64 - unat (ps_depth p)) pc)" by auto
  then show ?thesis by (simp add: parse_branch_def del: parse_pieces.simps)
qed

lemma alternatives_run:
  assumes inner: "level_ok ts d inner"
  shows "good ts d p \<Longrightarrow> length ts - ps_pos p < m \<Longrightarrow> bs \<noteq> [] \<Longrightarrow>
     \<exists>bs' p'. parse_alternatives inner pattern ts m bs p = Some (bs', p') \<and> follows ts p p' \<and> bs' \<noteq> [] \<and>
       (ps_errors p' = ps_errors p \<longrightarrow> (\<forall>b \<in> set bs. branch_clean (64 - unat (ps_depth p)) b) \<longrightarrow>
          (\<forall>b \<in> set bs'. branch_clean (64 - unat (ps_depth p)) b))"
proof (induction m arbitrary: bs p)
  case (Suc m)
  show ?case
  proof (cases "peek_kind ts p = TPipe")
    case True
    then have go: "peek_kind ts p \<noteq> TEof" by simp
    from branch_run [OF inner good_follows [OF Suc.prems(1) follows_bump]] obtain b p1 where
      b: "parse_branch inner pattern ts (bump ts p) = Some (b, p1)" "follows ts (bump ts p) p1"
        "ps_errors p1 = ps_errors p \<longrightarrow> branch_clean (64 - unat (ps_depth p)) b" by (metis bump_errors)
    have f: "follows ts p p1" using b(2) by (rule follows_after_bump)
    have "ps_pos p < length ts \<and> ps_pos p < ps_pos p1" using bump_advances [OF go] b(2) by (simp add: follows_def)
    then have "length ts - ps_pos p1 < m" using Suc.prems(2) by linarith
    with Suc.IH [OF good_follows [OF Suc.prems(1) f], of "bs @ [b]"] obtain bs' p' where
      r: "parse_alternatives inner pattern ts m (bs @ [b]) p1 = Some (bs', p')" "follows ts p1 p'" "bs' \<noteq> []"
        "ps_errors p' = ps_errors p1 \<longrightarrow> (\<forall>x \<in> set (bs @ [b]). branch_clean (64 - unat (ps_depth p1)) x) \<longrightarrow>
          (\<forall>x \<in> set bs'. branch_clean (64 - unat (ps_depth p1)) x)" by blast
    have "ps_depth p1 = ps_depth p" using f by (simp add: follows_def)
    then have "(\<forall>x \<in> set bs. branch_clean (64 - unat (ps_depth p)) x) \<longrightarrow> (\<forall>x \<in> set bs'. branch_clean (64 - unat (ps_depth p)) x)"
      if "ps_errors p' = ps_errors p"
      using follows_quiet [OF f r(2) that] b(3) r(4) by simp
    then show ?thesis using b(1) r(1,3) True follows_trans [OF f r(2)] by simp
  qed (use Suc.prems in simp)
qed simp

lemma level_run:
  assumes inner: "level_ok ts d inner" and p: "good ts d p"
  shows "\<exists>r p'. parse_level inner pattern ts p = Some (r, p') \<and> follows ts p p' \<and>
     (ps_errors p' = ps_errors p \<longrightarrow> regex_clean (64 - unat (ps_depth p)) r)"
proof -
  from branch_run [OF assms] obtain b p1 where
    b: "parse_branch inner pattern ts p = Some (b, p1)" "follows ts p p1" "ps_errors p1 = ps_errors p \<longrightarrow> branch_clean (64 - unat (ps_depth p)) b" by blast
  have "length ts - ps_pos p1 < Suc (length ts)" by simp
  from alternatives_run [OF inner good_follows [OF p b(2)] this, of "[b]" pattern] obtain bs p2 where
    r: "parse_alternatives inner pattern ts (Suc (length ts)) [b] p1 = Some (bs, p2)" "follows ts p1 p2" "bs \<noteq> []"
      "ps_errors p2 = ps_errors p1 \<longrightarrow> branch_clean (64 - unat (ps_depth p1)) b \<longrightarrow> (\<forall>b \<in> set bs. branch_clean (64 - unat (ps_depth p1)) b)" by auto
  have "ps_depth p1 = ps_depth p" using b(2) by (simp add: follows_def)
  then have "\<forall>b \<in> set bs. branch_clean (64 - unat (ps_depth p)) b" if "ps_errors p2 = ps_errors p"
    using follows_quiet [OF b(2) r(2) that] b(3) r(4) by simp
  then show ?thesis using b(1) r(1,3) follows_trans [OF b(2) r(2)] by (simp add: parse_level_def del: parse_alternatives.simps)
qed

lemma regex_run: "level_ok ts (65 - n) (parse_regex n pattern ts)"
proof (induction n)
  case 0
  show ?case by (simp add: level_ok_def)
next
  case (Suc n)
  have "good ts (65 - n) p" if "ps_pos p \<le> length ts" "65 - Suc n \<le> unat (ps_depth p)" "unat (ps_depth p) \<le> 64" for p
    using that by (simp add: good_def)
  with level_run [OF Suc.IH, where pattern = pattern] show ?case unfolding level_ok_def by simp
qed

lemma parse_run:
  "\<exists>ast errors. parse pattern = Some \<lparr>po_ast = ast, po_errors = errors\<rparr> \<and> (errors = [] \<longrightarrow> regex_clean 64 ast)"
proof -
  have "\<exists>r p'. parse_regex 65 pattern ts parser_new = Some (r, p') \<and> (ps_errors p' = [] \<longrightarrow> regex_clean 64 r)" for ts
    using level_okD [OF regex_run [of ts 65 pattern], of parser_new] by (auto simp: parser_new_def)
  then obtain r p' where r: "parse_regex 65 pattern (tokenize pattern) parser_new = Some (r, p')" "ps_errors p' = [] \<longrightarrow> regex_clean 64 r" by blast
  have "set (take_errors p') = set (ps_errors p')" by (simp add: take_errors_def)
  then have "take_errors p' = [] \<longleftrightarrow> ps_errors p' = []" by (metis set_empty)
  with r show ?thesis by (simp add: parse_def max_depth_def)
qed

text \<open>
  C22: The parser returns on every text, and a tree that comes without errors has no error
  nodes, no empty class, at least one branch everywhere and groups at most 64 deep.
\<close>

theorem parse_returns_clean:
  "\<exists>ast errors. parse pattern = Some \<lparr>po_ast = ast, po_errors = errors\<rparr> \<and> (errors = [] \<longrightarrow> regex_clean 64 ast)"
  by (rule parse_run)

section \<open>Concrete patterns\<close>

lemmas lex_eval = tokenize_def tokens_from.simps cursor_new_def advance_token_def in_class_def plain_kind_def is_whitespace_def
  is_surrogate_def token_new_def Let_def

lemma first_level: "unat max_depth + 1 = Suc 64"
  by (simp add: max_depth_def)

lemmas parse_eval = parse_def first_level parser_new_def parse_level_def parse_branch_def parse_piece_def parse_atom_def parse_suffix_def
  peek_kind_def peek_def bump_def branch_ends_def parse_simple_atom_def span_from_def offset_def span_new_def sat_sub_def token_new_def
  take_errors_def Let_def expect_def

text \<open>The tree of a pattern of one atom.\<close>

definition whole :: "u32 \<Rightarrow> atom \<Rightarrow> quantifier option \<Rightarrow> regex" where
  "whole n a q = (let sp = span_new 0 n in Regex [Branch [Piece a q sp] sp] sp)"

lemma parse_letter: "parse [97] = Some \<lparr>po_ast = whole 1 (Literal 97) None, po_errors = []\<rparr>"
proof -
  have "tokenize [97] = [token_new (TLiteral 97) 1]" by (simp add: lex_eval)
  then show ?thesis by (simp add: parse_eval whole_def)
qed

theorem parse_returns_clean_witness: "\<exists>ast. parse [97] = Some \<lparr>po_ast = ast, po_errors = []\<rparr> \<and> regex_clean 64 ast"
  using parse_returns_clean [of "[97]"] parse_letter by simp

text \<open>
  C38: An unmatched closing parenthesis ends the pattern silently: a) followed by anything
  parses as a alone, without an error.
\<close>

theorem unmatched_paren_drops_rest: "parse (97 # 41 # rest) = parse [97] \<and> (\<exists>ast. parse [97] = Some \<lparr>po_ast = ast, po_errors = []\<rparr>)"
proof -
  have "tokenize (97 # 41 # rest) = token_new (TLiteral 97) 1 # token_new TCloseParen 1 # tokenize rest"
    by (simp add: lex_eval tokens_from.simps [of "\<lparr>cu_chars = 97 # 41 # rest, cu_exhausted = False, cu_in_char_class = False\<rparr>"]
        tokens_from.simps [of "\<lparr>cu_chars = 41 # rest, cu_exhausted = False, cu_in_char_class = False\<rparr>"] del: tokens_from.simps)
  then have "parse (97 # 41 # rest) = Some \<lparr>po_ast = whole 1 (Literal 97) None, po_errors = []\<rparr>" by (simp add: parse_eval whole_def)
  then show ?thesis by (simp add: parse_letter)
qed

lemma parse_letter_range:
  "parse [91, 97, 45, 110, 93] = Some \<lparr>po_ast = whole 5 (ClassAtom (PositiveClass [ItemRange 97 10] False)) None, po_errors = []\<rparr>"
proof -
  have "tokenize [91, 97, 45, 110, 93] =
      [token_new (TCharClassStart 0) 1, token_new (TLiteral 97) 1, token_new THyphen 1, token_new (TLiteral 110) 1, token_new TCloseBracket 1]"
    by (simp add: lex_eval)
  then show ?thesis by (simp add: parse_eval whole_def parse_char_class_def class_loop.simps class_step_def range_end_def)
qed

lemma parse_exact_count: "parse [97, 123, 51, 125] = Some \<lparr>po_ast = whole 4 (Literal 97) (Some (QRange 3 None)), po_errors = []\<rparr>"
proof -
  have "tokenize [97, 123, 51, 125] = [token_new (TLiteral 97) 1, token_new TOpenBrace 1, token_new (TLiteral 51) 1, token_new TCloseBrace 1]"
    by (simp add: lex_eval)
  then show ?thesis
    by (simp add: parse_eval whole_def parse_quantifier_def parse_range_quantifier_def parse_quant_exact_def quant_digits.simps is_digit_def add_digit_def)
qed

end
