(* ===== verification/Negex_Class.thy ===== *)
theory Negex_Class
  imports Bits Negex_Ast
begin

text \<open>
  Byte classes (\<open>crates/negex-codegen/src/lib.rs\<close>, \<open>ByteClass\<close>) and their computation from the classes
  of the syntax tree (\<open>class.rs\<close>). A class is four 64-bit words; \<open>bits[byte / 64]\<close> is always in range.
\<close>

unbundle bit_operations_syntax

section \<open>Bitmaps\<close>

type_synonym byte_class = "u64 list"

definition bc_empty :: byte_class where "bc_empty = replicate 4 0"

definition bc_any :: byte_class where "bc_any = replicate 4 (- 1)"

definition bc_insert :: "u8 \<Rightarrow> byte_class \<Rightarrow> byte_class" where
  "bc_insert byte c = c[unat byte div 64 := c ! (unat byte div 64) OR push_bit (unat byte mod 64) 1]"

definition bc_singleton :: "u8 \<Rightarrow> byte_class" where
  "bc_singleton byte = bc_insert byte bc_empty"

definition bc_insert_range :: "u8 \<Rightarrow> u8 \<Rightarrow> byte_class \<Rightarrow> byte_class" where
  "bc_insert_range lo hi c =
     (if lo > hi then c else fold (\<lambda>byte. bc_insert (word_of_nat byte)) [unat lo..<Suc (unat hi)] c)"

definition bc_range :: "u8 \<Rightarrow> u8 \<Rightarrow> byte_class" where
  "bc_range lo hi = bc_insert_range lo hi bc_empty"

definition bc_remove :: "u8 \<Rightarrow> byte_class \<Rightarrow> byte_class" where
  "bc_remove byte c = c[unat byte div 64 := c ! (unat byte div 64) AND NOT (push_bit (unat byte mod 64) 1)]"

definition bc_union :: "byte_class \<Rightarrow> byte_class \<Rightarrow> byte_class" where
  "bc_union c other = map2 (OR) c other"

definition bc_invert :: "byte_class \<Rightarrow> byte_class" where
  "bc_invert c = map NOT c"

definition bc_contains :: "byte_class \<Rightarrow> u8 \<Rightarrow> bool" where
  "bc_contains c byte \<longleftrightarrow> c ! (unat byte div 64) AND push_bit (unat byte mod 64) 1 \<noteq> 0"

definition bc_is_empty :: "byte_class \<Rightarrow> bool" where
  "bc_is_empty c \<longleftrightarrow> c ! 0 = 0 \<and> c ! 1 = 0 \<and> c ! 2 = 0 \<and> c ! 3 = 0"

definition bc_is_any :: "byte_class \<Rightarrow> bool" where
  "bc_is_any c \<longleftrightarrow> c ! 0 = - 1 \<and> c ! 1 = - 1 \<and> c ! 2 = - 1 \<and> c ! 3 = - 1"

section \<open>Classes of the syntax tree\<close>

definition byte_of_scalar :: "scalar \<Rightarrow> negex_error + u8" where
  "byte_of_scalar c = (if c < 256 then Inr (word_of_nat c) else Inl (ClassOutOfByteRange c))"

definition bc_chars :: "string \<Rightarrow> byte_class \<Rightarrow> byte_class" where
  "bc_chars cs = fold (\<lambda>ch. bc_insert (of_char ch)) cs"

definition bc_punctuation :: "byte_class \<Rightarrow> byte_class" where
  "bc_punctuation c =
     bc_insert_range 0x7B 0x7E (bc_insert_range 0x5B 0x60 (bc_insert_range 0x3A 0x40 (bc_insert_range 0x21 0x2F c)))"

definition ascii_category :: "string \<Rightarrow> byte_class option" where
  "ascii_category name =
     (if name = ''L'' \<or> name = ''Letter'' then Some (bc_insert_range 0x61 0x7A (bc_insert_range 0x41 0x5A bc_empty))
      else if name = ''Lu'' then Some (bc_insert_range 0x41 0x5A bc_empty)
      else if name = ''Ll'' then Some (bc_insert_range 0x61 0x7A bc_empty)
      else if name = ''Lt'' \<or> name = ''Lm'' \<or> name = ''Lo'' then Some bc_empty
      else if name = ''M'' \<or> name = ''Mn'' \<or> name = ''Mc'' \<or> name = ''Me'' then Some bc_empty
      else if name = ''N'' \<or> name = ''Nd'' \<or> name = ''Number'' then Some (bc_insert_range 0x30 0x39 bc_empty)
      else if name = ''Nl'' \<or> name = ''No'' then Some bc_empty
      else if name = ''P'' \<or> name = ''Punctuation'' then Some (bc_punctuation bc_empty)
      else if name = ''Pc'' then Some (bc_chars ''_'' bc_empty)
      else if name = ''Pd'' then Some (bc_chars ''-'' bc_empty)
      else if name = ''Ps'' then Some (bc_chars ''([{'' bc_empty)
      else if name = ''Pe'' then Some (bc_chars '')]}'' bc_empty)
      else if name = ''Pi'' \<or> name = ''Pf'' \<or> name = ''Po''
      then Some (fold (\<lambda>ch. bc_remove (of_char ch)) ''_-([{)]}'' (bc_punctuation bc_empty))
      else if name = ''S'' \<or> name = ''Symbol'' then Some (bc_chars ''$+<=>^`|~'' bc_empty)
      else if name = ''Sm'' then Some (bc_chars ''+<=>|~'' bc_empty)
      else if name = ''Sc'' then Some (bc_chars ''$'' bc_empty)
      else if name = ''Sk'' then Some (bc_chars ''^`'' bc_empty)
      else if name = ''So'' then Some bc_empty
      else if name = ''Z'' \<or> name = ''Zs'' \<or> name = ''Separator'' then Some (bc_chars '' '' bc_empty)
      else if name = ''Zl'' \<or> name = ''Zp'' then Some bc_empty
      else if name = ''C'' \<or> name = ''Cc'' \<or> name = ''Control''
      then Some (bc_insert 0x7F (bc_insert_range 0 0x1F bc_empty))
      else if name = ''Cf'' \<or> name = ''Co'' \<or> name = ''Cs'' \<or> name = ''Cn'' then Some bc_empty
      else None)"

definition class_property :: "string \<Rightarrow> bool \<Rightarrow> negex_error + byte_class" where
  "class_property category negated =
     (let name = (if take 2 category = ''Is'' then drop 2 category else category) in
      case ascii_category name of
        None \<Rightarrow> Inl (UnknownProperty category)
      | Some bytes \<Rightarrow> Inr (if negated then bc_invert bytes else bytes))"

fun class_item_bytes :: "class_item \<Rightarrow> negex_error + byte_class" where
  "class_item_bytes (ItemChar c) = (case byte_of_scalar c of Inl e \<Rightarrow> Inl e | Inr b \<Rightarrow> Inr (bc_singleton b))"
| "class_item_bytes (ItemRange lo hi) =
     (case byte_of_scalar lo of
        Inl e \<Rightarrow> Inl e
      | Inr l \<Rightarrow>
          (case byte_of_scalar hi of
             Inl e \<Rightarrow> Inl e
           | Inr h \<Rightarrow> if l > h then Inl (InvalidClassRange lo hi) else Inr (bc_range l h)))"
| "class_item_bytes (ItemProperty category negated) = class_property category negated"
| "class_item_bytes (ItemError sp) = Inl InvalidClassAst"

fun class_items_bytes :: "class_item list \<Rightarrow> byte_class \<Rightarrow> negex_error + byte_class" where
  "class_items_bytes [] bytes = Inr bytes"
| "class_items_bytes (item # items) bytes =
     (case class_item_bytes item of Inl e \<Rightarrow> Inl e | Inr b \<Rightarrow> class_items_bytes items (bc_union bytes b))"

fun byte_class :: "char_class \<Rightarrow> negex_error + byte_class" where
  "byte_class (PositiveClass items negated) =
     (case class_items_bytes items bc_empty of
        Inl e \<Rightarrow> Inl e
      | Inr bytes \<Rightarrow> Inr (if negated then bc_invert bytes else bytes))"
| "byte_class (PropertyClass category negated) = class_property category negated"
| "byte_class (ErrorClass sp) = Inl InvalidClassAst"

section \<open>What the operations do to the set of bytes\<close>

definition bc_ok :: "byte_class \<Rightarrow> bool" where
  "bc_ok c \<longleftrightarrow> length c = 4"

lemma byte_word: "unat (b :: u8) div 64 < 4"
  using unsigned_less [of b, where ?'a = nat] by (simp add: less_mult_imp_div_less)

lemma contains_bit: "bc_contains c b \<longleftrightarrow> bit (c ! (unat b div 64)) (unat b mod 64)"
proof -
  have "c ! k AND push_bit n 1 \<noteq> 0 \<longleftrightarrow> bit (c ! k) n" if "n < 64" for k n
    using that unfolding word_nonzero_bit by (auto simp: bit_and_iff bit_push_bit_iff bit_1_iff bit_exp_iff)
  then show ?thesis by (simp add: bc_contains_def)
qed

lemma byte_split: "(b :: u8) = b' \<longleftrightarrow> unat b div 64 = unat b' div 64 \<and> unat b mod 64 = unat b' mod 64"
  by (metis div_mult_mod_eq unsigned_word_eqI)

lemma contains_empty [simp]: "\<not> bc_contains bc_empty b"
  using byte_word [of b] by (simp add: contains_bit bc_empty_def)

lemma contains_any [simp]: "bc_contains bc_any b"
  using byte_word [of b] by (simp add: contains_bit bc_any_def)

lemma contains_insert: "bc_ok c \<Longrightarrow> bc_contains (bc_insert b c) x \<longleftrightarrow> x = b \<or> bc_contains c x"
  using byte_word [of b] byte_split [of x b]
  by (auto simp: contains_bit bc_insert_def bc_ok_def nth_list_update bit_or_iff bit_push_bit_iff bit_1_iff bit_exp_iff)

lemma contains_remove: "bc_ok c \<Longrightarrow> bc_contains (bc_remove b c) x \<longleftrightarrow> x \<noteq> b \<and> bc_contains c x"
  using byte_word [of b] byte_split [of x b]
  by (auto simp: contains_bit bc_remove_def bc_ok_def nth_list_update bit_and_iff bit_not_iff bit_push_bit_iff bit_1_iff bit_exp_iff)

lemma contains_union: "bc_ok c \<Longrightarrow> bc_ok c' \<Longrightarrow> bc_contains (bc_union c c') x \<longleftrightarrow> bc_contains c x \<or> bc_contains c' x"
  using byte_word [of x] by (simp add: contains_bit bc_union_def bc_ok_def bit_or_iff)

lemma contains_invert: "bc_ok c \<Longrightarrow> bc_contains (bc_invert c) x \<longleftrightarrow> \<not> bc_contains c x"
  using byte_word [of x] by (simp add: contains_bit bc_invert_def bc_ok_def bit_not_iff)

lemma bc_ok_ops [simp]:
  "bc_ok bc_empty" "bc_ok bc_any" "bc_ok c \<Longrightarrow> bc_ok (bc_insert b c)" "bc_ok c \<Longrightarrow> bc_ok (bc_remove b c)"
  "bc_ok c \<Longrightarrow> bc_ok c' \<Longrightarrow> bc_ok (bc_union c c')" "bc_ok c \<Longrightarrow> bc_ok (bc_invert c)"
  by (simp_all add: bc_ok_def bc_empty_def bc_any_def bc_insert_def bc_remove_def bc_union_def bc_invert_def)

lemma bc_singleton_eq [simp]: "bc_ok (bc_singleton b)" "bc_contains (bc_singleton b) x \<longleftrightarrow> x = b"
  by (simp_all add: bc_singleton_def contains_insert)

lemma insert_bytes:
  "bc_ok c \<Longrightarrow> bc_ok (fold (\<lambda>n. bc_insert (word_of_nat n)) ns c) \<and>
    (bc_contains (fold (\<lambda>n. bc_insert (word_of_nat n)) ns c) x \<longleftrightarrow> (\<exists>n \<in> set ns. x = word_of_nat n) \<or> bc_contains c x)"
  by (induction ns arbitrary: c) (auto simp: contains_insert)

lemma insert_range_eq:
  assumes "bc_ok c"
  shows "bc_ok (bc_insert_range lo hi c)" "bc_contains (bc_insert_range lo hi c) x \<longleftrightarrow> lo \<le> x \<and> x \<le> hi \<or> bc_contains c x"
proof -
  have hi: "unat hi < 256" using unsigned_less [of hi, where ?'a = nat] by simp
  have "(\<exists>n \<in> {unat lo..<Suc (unat hi)}. x = word_of_nat n) \<longleftrightarrow> lo \<le> x \<and> x \<le> hi"
  proof
    assume "\<exists>n \<in> {unat lo..<Suc (unat hi)}. x = word_of_nat n"
    then obtain n where n: "unat lo \<le> n" "n \<le> unat hi" "x = word_of_nat n" by auto
    then have "unat x = n" using hi by (simp add: unsigned_of_nat take_bit_nat_eq_self)
    then show "lo \<le> x \<and> x \<le> hi" using n by (simp add: word_le_nat_alt)
  next
    assume "lo \<le> x \<and> x \<le> hi"
    then show "\<exists>n \<in> {unat lo..<Suc (unat hi)}. x = word_of_nat n"
      by (intro bexI [of _ "unat x"]) (auto simp: word_le_nat_alt)
  qed
  then show "bc_contains (bc_insert_range lo hi c) x \<longleftrightarrow> lo \<le> x \<and> x \<le> hi \<or> bc_contains c x"
    using insert_bytes [OF assms, of "[unat lo..<Suc (unat hi)]" x] by (auto simp: bc_insert_range_def)
  show "bc_ok (bc_insert_range lo hi c)"
    using insert_bytes [OF assms, of "[unat lo..<Suc (unat hi)]"] assms by (simp add: bc_insert_range_def)
qed

section \<open>The bytes of a class\<close>

text \<open>
  The general category of each ASCII character, from U+0000 to U+007F in order, as the Unicode
  Character Database lists them.
\<close>

definition ascii_categories :: "string list" where
  "ascii_categories =
     replicate 32 ''Cc'' @
     [''Zs'', ''Po'', ''Po'', ''Po'', ''Sc'', ''Po'', ''Po'', ''Po'', ''Ps'', ''Pe'', ''Po'', ''Sm'', ''Po'', ''Pd'', ''Po'', ''Po''] @
     replicate 10 ''Nd'' @ [''Po'', ''Po'', ''Sm'', ''Sm'', ''Sm'', ''Po'', ''Po''] @
     replicate 26 ''Lu'' @ [''Ps'', ''Po'', ''Pe'', ''Sk'', ''Pc'', ''Sk''] @
     replicate 26 ''Ll'' @ [''Ps'', ''Sm'', ''Pe'', ''Sm'', ''Cc'']"

text \<open>
  A name stands for one category, for the categories that begin with its letter, or is a long name
  of either.
\<close>

definition category_names :: "string list" where
  "category_names =
     [''L'', ''M'', ''N'', ''P'', ''S'', ''Z'', ''C'',
      ''Lu'', ''Ll'', ''Lt'', ''Lm'', ''Lo'', ''Mn'', ''Mc'', ''Me'', ''Nd'', ''Nl'', ''No'',
      ''Pc'', ''Pd'', ''Ps'', ''Pe'', ''Pi'', ''Pf'', ''Po'', ''Sm'', ''Sc'', ''Sk'', ''So'',
      ''Zs'', ''Zl'', ''Zp'', ''Cc'', ''Cf'', ''Co'', ''Cs'', ''Cn'',
      ''Letter'', ''Number'', ''Punctuation'', ''Symbol'', ''Separator'', ''Control'']"

definition category_alias :: "string \<Rightarrow> string" where
  "category_alias name =
     (case map_of [(''Letter'', ''L''), (''Number'', ''N''), (''Punctuation'', ''P''), (''Symbol'', ''S''),
        (''Separator'', ''Z''), (''Control'', ''Cc'')] name of None \<Rightarrow> name | Some short \<Rightarrow> short)"

text \<open>The ASCII members of a category: what the documentation of \<open>class.rs\<close> promises for a name.\<close>

definition category_members :: "string \<Rightarrow> u8 set" where
  "category_members name =
     {b. unat b < 128 \<and> category_alias name \<in> {ascii_categories ! unat b, take 1 (ascii_categories ! unat b)}}"

text \<open>
  What the engine matches: for punctuation as a whole and for the category \<open>Po\<close> it adds the symbols,
  and \<open>Pi\<close> and \<open>Pf\<close>, which have no ASCII members, get what \<open>Po\<close> gets. Every other name has its
  members.
\<close>

definition category_reads :: "string \<Rightarrow> string list" where
  "category_reads name =
     (if name \<in> {''P'', ''Punctuation'', ''Po''} then [name, ''S'']
      else if name \<in> {''Pi'', ''Pf''} then [name, ''Po'', ''S'']
      else [name])"

definition category_set :: "string \<Rightarrow> u8 set" where
  "category_set name = (\<Union>n \<in> set (category_reads name). category_members n)"

text \<open>A class over any reading of the category names.\<close>

definition property_members :: "(string \<Rightarrow> u8 set) \<Rightarrow> string \<Rightarrow> bool \<Rightarrow> u8 set" where
  "property_members K category negated =
     (let bytes = K (if take 2 category = ''Is'' then drop 2 category else category)
      in if negated then - bytes else bytes)"

fun item_members :: "(string \<Rightarrow> u8 set) \<Rightarrow> class_item \<Rightarrow> u8 set" where
  "item_members K (ItemChar c) = {b. unat b = c}"
| "item_members K (ItemRange lo hi) = {b. lo \<le> unat b \<and> unat b \<le> hi}"
| "item_members K (ItemProperty category negated) = property_members K category negated"
| "item_members K (ItemError sp) = {}"

fun class_members :: "(string \<Rightarrow> u8 set) \<Rightarrow> char_class \<Rightarrow> u8 set" where
  "class_members K (PositiveClass items negated) =
     (if negated then - (\<Union>i \<in> set items. item_members K i) else (\<Union>i \<in> set items. item_members K i))"
| "class_members K (PropertyClass category negated) = property_members K category negated"
| "class_members K (ErrorClass sp) = {}"

abbreviation class_set :: "char_class \<Rightarrow> u8 set" where
  "class_set \<equiv> class_members category_set"

section \<open>The table of the code\<close>

text \<open>The sets the branches of \<open>ascii_category\<close> build, on the way to the categories above.\<close>

definition char_set :: "string \<Rightarrow> u8 set" where
  "char_set cs = of_char ` set cs"

definition punctuation_set :: "u8 set" where
  "punctuation_set = {0x21..0x2F} \<union> {0x3A..0x40} \<union> {0x5B..0x60} \<union> {0x7B..0x7E}"

definition category_table :: "string \<Rightarrow> u8 set" where
  "category_table name =
     (if name = ''L'' \<or> name = ''Letter'' then {0x41..0x5A} \<union> {0x61..0x7A}
      else if name = ''Lu'' then {0x41..0x5A}
      else if name = ''Ll'' then {0x61..0x7A}
      else if name = ''Lt'' \<or> name = ''Lm'' \<or> name = ''Lo'' then {}
      else if name = ''M'' \<or> name = ''Mn'' \<or> name = ''Mc'' \<or> name = ''Me'' then {}
      else if name = ''N'' \<or> name = ''Nd'' \<or> name = ''Number'' then {0x30..0x39}
      else if name = ''Nl'' \<or> name = ''No'' then {}
      else if name = ''P'' \<or> name = ''Punctuation'' then punctuation_set
      else if name = ''Pc'' then char_set ''_''
      else if name = ''Pd'' then char_set ''-''
      else if name = ''Ps'' then char_set ''([{''
      else if name = ''Pe'' then char_set '')]}''
      else if name = ''Pi'' \<or> name = ''Pf'' \<or> name = ''Po'' then punctuation_set - char_set ''_-([{)]}''
      else if name = ''S'' \<or> name = ''Symbol'' then char_set ''$+<=>^`|~''
      else if name = ''Sm'' then char_set ''+<=>|~''
      else if name = ''Sc'' then char_set ''$''
      else if name = ''Sk'' then char_set ''^`''
      else if name = ''So'' then {}
      else if name = ''Z'' \<or> name = ''Zs'' \<or> name = ''Separator'' then char_set '' ''
      else if name = ''Zl'' \<or> name = ''Zp'' then {}
      else if name = ''C'' \<or> name = ''Cc'' \<or> name = ''Control'' then {0..0x1F} \<union> {0x7F}
      else {})"

primrec table_agrees :: "u8 set \<Rightarrow> string list \<Rightarrow> string list \<Rightarrow> u8 \<Rightarrow> bool" where
  "table_agrees A names [] b \<longleftrightarrow> True"
| "table_agrees A names (cat # cats) b \<longleftrightarrow>
     (b \<in> A \<longleftrightarrow> list_ex (\<lambda>n. n = cat \<or> n = take 1 cat) names) \<and> table_agrees A names cats (b + 1)"

lemma table_agrees_nth:
  assumes "table_agrees A names cats b" "i < length cats"
  shows "b + word_of_nat i \<in> A \<longleftrightarrow> list_ex (\<lambda>n. n = cats ! i \<or> n = take 1 (cats ! i)) names"
  using assms
proof (induction cats arbitrary: b i)
  case (Cons cat cats)
  show ?case
  proof (cases i)
    case (Suc k)
    then show ?thesis using Cons.IH [of "b + 1" k] Cons.prems by (simp add: add.assoc)
  qed (use Cons.prems in simp)
qed simp

lemma table_members:
  assumes "table_agrees A (map category_alias (category_reads name)) ascii_categories 0" "\<And>b. b \<in> A \<Longrightarrow> unat b < 128"
  shows "A = category_set name"
proof (rule set_eqI)
  fix b :: u8
  show "b \<in> A \<longleftrightarrow> b \<in> category_set name"
  proof (cases "unat b < 128")
    case True
    then have "unat b < length ascii_categories" by (simp add: ascii_categories_def)
    from table_agrees_nth [OF assms(1) this] True show ?thesis
      by (auto simp: category_set_def category_members_def list_ex_iff)
  next
    case False
    then show ?thesis using assms(2) by (auto simp: category_set_def category_members_def)
  qed
qed

lemmas category_eval = category_reads_def category_alias_def ascii_categories_def replicate_numeral char_set_def
  punctuation_set_def word_le_nat_alt

lemma table_letters:
  "category_table ''L'' = category_set ''L''"
  "category_table ''Lu'' = category_set ''Lu''"
  "category_table ''Ll'' = category_set ''Ll''"
  "category_table ''N'' = category_set ''N''"
  "category_table ''Nd'' = category_set ''Nd''"
  by (rule table_members, (simp add: category_table_def category_eval)[1],
    (auto simp: category_table_def category_eval)[1])+

lemma table_punctuation:
  "category_table ''P'' = category_set ''P''"
  "category_table ''Pc'' = category_set ''Pc''"
  "category_table ''Pd'' = category_set ''Pd''"
  "category_table ''Ps'' = category_set ''Ps''"
  "category_table ''Pe'' = category_set ''Pe''"
  by (rule table_members, (simp add: category_table_def category_eval)[1],
    (auto simp: category_table_def category_eval)[1])+

lemma table_other_punctuation:
  "category_table ''Pi'' = category_set ''Pi''"
  "category_table ''Pf'' = category_set ''Pf''"
  "category_table ''Po'' = category_set ''Po''"
  by (rule table_members, (simp add: category_table_def category_eval)[1],
    (auto simp: category_table_def category_eval)[1])+

lemma table_symbols:
  "category_table ''S'' = category_set ''S''"
  "category_table ''Sm'' = category_set ''Sm''"
  "category_table ''Sc'' = category_set ''Sc''"
  "category_table ''Sk'' = category_set ''Sk''"
  by (rule table_members, (simp add: category_table_def category_eval)[1],
    (auto simp: category_table_def category_eval)[1])+

lemma table_separators:
  "category_table ''Z'' = category_set ''Z''"
  "category_table ''Zs'' = category_set ''Zs''"
  "category_table ''C'' = category_set ''C''"
  "category_table ''Cc'' = category_set ''Cc''"
  by (rule table_members, (simp add: category_table_def category_eval)[1],
    (auto simp: category_table_def category_eval)[1])+

text \<open>The long names repeat a short one, and the other categories have no ASCII members.\<close>

lemma table_long_names:
  "category_table ''Letter'' = category_set ''Letter''" "category_table ''Number'' = category_set ''Number''"
  "category_table ''Punctuation'' = category_set ''Punctuation''" "category_table ''Symbol'' = category_set ''Symbol''"
  "category_table ''Separator'' = category_set ''Separator''" "category_table ''Control'' = category_set ''Control''"
  using table_letters(1,4) table_punctuation(1) table_symbols(1) table_separators(1,4)
  by (simp_all add: category_table_def category_set_def category_reads_def category_members_def category_alias_def)

lemma no_members:
  assumes "category_reads name = [name]" "category_alias name \<notin> set ascii_categories \<union> take 1 ` set ascii_categories"
  shows "category_set name = {}"
proof -
  have "length ascii_categories = 128" by (simp add: ascii_categories_def)
  then have "unat b < 128 \<Longrightarrow> ascii_categories ! unat b \<in> set ascii_categories" for b :: u8
    using nth_mem [of "unat b" ascii_categories] by simp
  with assms show ?thesis by (auto simp: category_set_def category_members_def)
qed

lemma table_empty:
  "list_all (\<lambda>name. category_table name = category_set name)
     [''M'', ''Lt'', ''Lm'', ''Lo'', ''Mn'', ''Mc'', ''Me'', ''Nl'', ''No'', ''So'', ''Zl'', ''Zp'', ''Cf'', ''Co'', ''Cs'', ''Cn'']"
proof -
  have "set ascii_categories = {''Cc'', ''Zs'', ''Po'', ''Sc'', ''Ps'', ''Pe'', ''Sm'', ''Pd'', ''Nd'', ''Lu'', ''Sk'', ''Pc'', ''Ll''}"
    by (auto simp: ascii_categories_def)
  then show ?thesis by (simp add: no_members category_table_def category_reads_def category_alias_def)
qed

lemma table_correct: "name \<in> set category_names \<Longrightarrow> category_table name = category_set name"
  using table_empty unfolding category_names_def
  by (auto simp: table_letters table_punctuation table_other_punctuation table_symbols table_separators table_long_names)

lemma bc_chars_ok [simp]: "bc_ok c \<Longrightarrow> bc_ok (bc_chars cs c)"
  unfolding bc_chars_def by (induction cs arbitrary: c) simp_all

lemma bc_removes_ok [simp]: "bc_ok c \<Longrightarrow> bc_ok (fold (\<lambda>ch. bc_remove (of_char ch)) cs c)"
  by (induction cs arbitrary: c) (simp_all del: bc_ok_ops(1))

lemma option_if: "pred_option P a \<Longrightarrow> pred_option P b \<Longrightarrow> pred_option P (if x then a else b)"
  by simp

lemma ascii_category_ok: "ascii_category name = Some c \<Longrightarrow> bc_ok c"
proof -
  have "pred_option bc_ok (ascii_category name)"
    unfolding ascii_category_def bc_punctuation_def
    by (intro option_if) (simp_all add: insert_range_eq bc_chars_ok bc_removes_ok del: fold_simps)
  then show "ascii_category name = Some c \<Longrightarrow> bc_ok c" by simp
qed

lemma contains_chars: "bc_ok c \<Longrightarrow> bc_contains (bc_chars cs c) b \<longleftrightarrow> bc_contains c b \<or> b \<in> char_set cs"
  unfolding bc_chars_def char_set_def by (induction cs arbitrary: c) (auto simp: contains_insert)

lemma contains_removes: "bc_ok c \<Longrightarrow> bc_contains (fold (\<lambda>ch. bc_remove (of_char ch)) cs c) b \<longleftrightarrow> bc_contains c b \<and> b \<notin> char_set cs"
  unfolding char_set_def by (induction cs arbitrary: c) (auto simp: contains_remove)

lemma contains_punctuation: "bc_contains (bc_punctuation bc_empty) b \<longleftrightarrow> b \<in> punctuation_set"
  by (auto simp: bc_punctuation_def punctuation_set_def insert_range_eq)

definition denotes :: "byte_class option \<Rightarrow> u8 set \<Rightarrow> bool" where
  "denotes r A \<longleftrightarrow> (\<forall>c. r = Some c \<longrightarrow> (\<forall>b. bc_contains c b \<longleftrightarrow> b \<in> A))"

lemma denotes_if: "denotes a A \<Longrightarrow> denotes b B \<Longrightarrow> denotes (if x then a else b) (if x then A else B)"
  by simp

lemma denotes_unlisted: "denotes (if x then Some bc_empty else None) {}"
  by (simp add: denotes_def)

lemma denotes_removes: "denotes (Some (fold (\<lambda>ch. bc_remove (of_char ch)) cs (bc_punctuation bc_empty))) (punctuation_set - char_set cs)"
proof -
  have "bc_ok (bc_punctuation bc_empty)" by (simp add: bc_punctuation_def insert_range_eq)
  then show ?thesis by (simp add: denotes_def contains_removes contains_punctuation)
qed

lemma denotes_chars: "denotes (Some (bc_chars cs bc_empty)) (char_set cs)"
  by (simp add: denotes_def contains_chars)

lemma ascii_category_table: "denotes (ascii_category name) (category_table name)"
  unfolding ascii_category_def category_table_def
  by (intro denotes_if denotes_unlisted denotes_chars denotes_removes)
    (auto simp: denotes_def contains_punctuation insert_range_eq contains_insert)

lemma ascii_category_known: "ascii_category name \<noteq> None \<longleftrightarrow> name \<in> set category_names"
  unfolding ascii_category_def category_names_def by auto

lemma ascii_category_denotes: "denotes (ascii_category name) (category_set name)"
proof (cases "ascii_category name")
  case (Some c)
  then have "name \<in> set category_names" using ascii_category_known [of name] by simp
  then have "category_table name = category_set name" by (rule table_correct)
  then show ?thesis using ascii_category_table [of name] by simp
qed (simp add: denotes_def)

lemma class_property_set: "class_property category negated = Inr c \<Longrightarrow> bc_ok c \<and> (bc_contains c b \<longleftrightarrow> b \<in> property_members category_set category negated)"
proof -
  let ?name = "if take 2 category = ''Is'' then drop 2 category else category"
  assume "class_property category negated = Inr c"
  then obtain bytes where b: "ascii_category ?name = Some bytes" "c = (if negated then bc_invert bytes else bytes)"
    by (auto simp: class_property_def Let_def split: option.splits)
  have "bc_contains bytes b \<longleftrightarrow> b \<in> category_set ?name" using ascii_category_denotes b(1) by (simp only: denotes_def)
  then show ?thesis using ascii_category_ok [OF b(1)] b(2) by (simp add: property_members_def Let_def contains_invert)
qed

lemma byte_of_scalar_Inr: "byte_of_scalar c = Inr b \<longleftrightarrow> unat b = c"
proof -
  have "unat (word_of_nat c :: u8) = c \<longleftrightarrow> c < 256"
    using unsigned_less [of "word_of_nat c :: u8", where ?'a = nat] by (auto simp: unsigned_of_nat take_bit_nat_eq_self)
  moreover have "c < 256" if "unat b = c" using that unsigned_less [of b, where ?'a = nat] by simp
  ultimately show ?thesis by (auto simp: byte_of_scalar_def)
qed

lemma class_item_correct:
  assumes "class_item_bytes i = Inr c"
  shows "bc_ok c" "bc_contains c b \<longleftrightarrow> b \<in> item_members category_set i"
proof -
  have "bc_ok c \<and> (bc_contains c b \<longleftrightarrow> b \<in> item_members category_set i)"
  proof (cases i)
    case (ItemChar x)
    then show ?thesis using assms by (auto simp: byte_of_scalar_Inr unsigned_word_eqI split: sum.splits)
  next
    case (ItemRange lo hi)
    then show ?thesis using assms
      by (auto simp: byte_of_scalar_Inr bc_range_def insert_range_eq word_le_nat_alt split: sum.splits if_splits)
  next
    case (ItemProperty category negated)
    then show ?thesis using assms class_property_set by simp
  qed (use assms in simp)
  then show "bc_ok c" "bc_contains c b \<longleftrightarrow> b \<in> item_members category_set i" by blast+
qed

lemma class_items_correct:
  assumes "class_items_bytes items c0 = Inr c" "bc_ok c0"
  shows "bc_ok c \<and> (bc_contains c b \<longleftrightarrow> bc_contains c0 b \<or> (\<exists>i \<in> set items. b \<in> item_members category_set i))"
  using assms
proof (induction items arbitrary: c0)
  case (Cons i items)
  from Cons.prems(1) obtain ci where ci: "class_item_bytes i = Inr ci" "class_items_bytes items (bc_union c0 ci) = Inr c"
    by (auto split: sum.splits)
  from Cons.IH [OF ci(2)] class_item_correct [OF ci(1)] Cons.prems(2) show ?case by (auto simp: contains_union)
qed simp

lemma byte_class_correct:
  assumes "byte_class cl = Inr c"
  shows "bc_ok c \<and> (bc_contains c b \<longleftrightarrow> b \<in> class_set cl)"
proof (cases cl)
  case (PositiveClass items negated)
  with assms obtain u where u: "class_items_bytes items bc_empty = Inr u" "c = (if negated then bc_invert u else u)"
    by (auto split: sum.splits)
  from class_items_correct [OF u(1)] u(2) PositiveClass show ?thesis by (auto simp: contains_invert)
next
  case (PropertyClass category negated)
  then show ?thesis using assms class_property_set by simp
qed (use assms in simp)

text \<open>
  The classes that compile: bytes, ranges that are not backwards, and categories of a set \<open>names\<close>,
  with or without the prefix \<open>Is\<close>.
\<close>

definition category_known :: "string set \<Rightarrow> string \<Rightarrow> bool" where
  "category_known names category \<longleftrightarrow> (if take 2 category = ''Is'' then drop 2 category else category) \<in> names"

fun item_valid :: "string set \<Rightarrow> class_item \<Rightarrow> bool" where
  "item_valid names (ItemChar c) \<longleftrightarrow> c < 256"
| "item_valid names (ItemRange lo hi) \<longleftrightarrow> lo \<le> hi \<and> hi < 256"
| "item_valid names (ItemProperty category negated) \<longleftrightarrow> category_known names category"
| "item_valid names (ItemError sp) \<longleftrightarrow> False"

fun class_valid :: "string set \<Rightarrow> char_class \<Rightarrow> bool" where
  "class_valid names (PositiveClass items negated) \<longleftrightarrow> (\<forall>i \<in> set items. item_valid names i)"
| "class_valid names (PropertyClass category negated) \<longleftrightarrow> category_known names category"
| "class_valid names (ErrorClass sp) \<longleftrightarrow> False"

abbreviation miscompiled :: "string set" where
  "miscompiled \<equiv> {''P'', ''Punctuation'', ''Po'', ''Pi'', ''Pf''}"

lemma property_valid: "(\<exists>c. class_property category negated = Inr c) \<longleftrightarrow> category_known (set category_names) category"
  using ascii_category_known [of "if take 2 category = ''Is'' then drop 2 category else category"]
  by (auto simp: class_property_def category_known_def Let_def split: option.splits)

lemma scalar_fits: "(\<exists>b. byte_of_scalar c = Inr b) \<longleftrightarrow> c < 256"
  by (auto simp: byte_of_scalar_def)

lemma item_bytes_valid: "(\<exists>c. class_item_bytes i = Inr c) \<longleftrightarrow> item_valid (set category_names) i"
proof (cases i)
  case (ItemChar c)
  then show ?thesis using scalar_fits [of c] by (auto split: sum.splits)
next
  case (ItemRange lo hi)
  show ?thesis
  proof (cases "lo < 256 \<and> hi < 256")
    case True
    then obtain l h where "byte_of_scalar lo = Inr l" "byte_of_scalar hi = Inr h" using scalar_fits by blast
    moreover from this have "unat l = lo" "unat h = hi" by (simp_all add: byte_of_scalar_Inr)
    ultimately show ?thesis using ItemRange True by (auto simp: word_less_nat_alt)
  next
    case False
    then show ?thesis using ItemRange scalar_fits [of lo] scalar_fits [of hi] by (auto split: sum.splits)
  qed
qed (simp_all add: property_valid)

lemma items_bytes_valid: "(\<exists>c. class_items_bytes items bytes = Inr c) \<longleftrightarrow> (\<forall>i \<in> set items. item_valid (set category_names) i)"
proof (induction items arbitrary: bytes)
  case (Cons i items)
  show ?case
  proof (cases "class_item_bytes i")
    case (Inl e)
    then have "\<not> item_valid (set category_names) i" using item_bytes_valid [of i] by auto
    with Inl show ?thesis by simp
  next
    case (Inr b)
    then have "item_valid (set category_names) i" using item_bytes_valid [of i] by auto
    with Inr Cons.IH show ?thesis by simp
  qed
qed simp

text \<open>Outside the miscompiled names the two readings of a class agree.\<close>

lemma standard_members:
  "category_known (set category_names - miscompiled) category \<Longrightarrow>
   property_members category_set category negated = property_members category_members category negated"
  by (auto simp: category_known_def property_members_def category_set_def category_reads_def Let_def)

lemma standard_item:
  "item_valid (set category_names - miscompiled) i \<Longrightarrow> item_members category_set i = item_members category_members i"
  by (cases i) (simp_all add: standard_members)

lemma standard_class: "class_valid (set category_names - miscompiled) cl \<Longrightarrow> class_set cl = class_members category_members cl"
proof (cases cl)
  case (PositiveClass items negated)
  moreover assume "class_valid (set category_names - miscompiled) cl"
  ultimately have "(\<Union>i \<in> set items. item_members category_set i) = (\<Union>i \<in> set items. item_members category_members i)"
    using standard_item by (intro SUP_cong) auto
  with PositiveClass show ?thesis by simp
qed (simp_all add: standard_members)

text \<open>
  C23: A character class compiles exactly when its characters fit a byte, its ranges are not
  backwards and its categories are named by one of the thirty general categories of Unicode, by
  their first letter or by one of six long names; the bitmap then holds exactly the bytes of the
  class, negation included, where a category stands for its ASCII members by the Unicode
  Character Database, except that the five punctuation names P, Punctuation, Po, Pi and Pf stand
  for more.
\<close>

theorem byte_class_denotes:
  "if class_valid (set category_names) cl
   then \<exists>c. byte_class cl = Inr c \<and> bc_ok c \<and> (\<forall>b. bc_contains c b \<longleftrightarrow> b \<in> class_set cl) \<and>
     (class_valid (set category_names - miscompiled) cl \<longrightarrow> (\<forall>b. bc_contains c b \<longleftrightarrow> b \<in> class_members category_members cl))
   else \<exists>e. byte_class cl = Inl e"
proof -
  have "(\<exists>c. byte_class cl = Inr c) \<longleftrightarrow> class_valid (set category_names) cl"
  proof (cases cl)
    case (PositiveClass items negated)
    then show ?thesis using items_bytes_valid [of items bc_empty] by (auto split: sum.splits)
  qed (simp_all add: property_valid)
  then show ?thesis using byte_class_correct [of cl] standard_class [of cl] by (cases "byte_class cl") auto
qed

text \<open>A class of a range, a category and a negated category.\<close>

theorem byte_class_denotes_witness:
  "\<exists>c. byte_class (PositiveClass [ItemRange 48 57, ItemProperty ''Sc'' False, ItemProperty ''IsCc'' True] False) = Inr c \<and>
     bc_contains c 0x24 \<and> \<not> bc_contains c 0x0A"
proof -
  let ?cl = "PositiveClass [ItemRange 48 57, ItemProperty ''Sc'' False, ItemProperty ''IsCc'' True] False"
  have "class_valid (set category_names) ?cl" "class_valid (set category_names - miscompiled) ?cl"
    by (simp_all add: category_known_def category_names_def)
  then obtain c where c: "byte_class ?cl = Inr c" "\<forall>b. bc_contains c b \<longleftrightarrow> b \<in> class_members category_members ?cl"
    using byte_class_denotes [of ?cl] by auto
  have "0x24 \<in> class_members category_members ?cl" "0x0A \<notin> class_members category_members ?cl"
    by (simp_all add: property_members_def category_members_def category_alias_def ascii_categories_def replicate_numeral)
  with c show ?thesis by auto
qed

text \<open>
  C34: The table of categories knows exactly the thirty general categories, their seven first
  letters and six long names, and gives every name its ASCII members by the Unicode Character
  Database, with these errors: P, Punctuation and Po also get the nine ASCII symbols, and Pi and
  Pf, which have no ASCII members, get those of Po and the symbols.
\<close>

theorem punctuation_has_symbols:
  "case ascii_category name of
     None \<Rightarrow> name \<notin> set category_names
   | Some c \<Rightarrow> name \<in> set category_names \<and>
       {b. bc_contains c b} = category_members name \<union>
         (if name \<in> {''P'', ''Punctuation'', ''Po''} then category_members ''S''
          else if name \<in> {''Pi'', ''Pf''} then category_members ''Po'' \<union> category_members ''S'' else {})"
proof (cases "ascii_category name")
  case None
  then show ?thesis using ascii_category_known [of name] by simp
next
  case (Some c)
  then have "name \<in> set category_names" using ascii_category_known [of name] by simp
  moreover have "{b. bc_contains c b} = category_set name" using ascii_category_denotes [of name] Some by (auto simp: denotes_def)
  ultimately show ?thesis using Some by (simp add: category_set_def category_reads_def Un_assoc [symmetric])
qed

end
