(* ===== verification/Negex_Nfa.thy ===== *)
theory Negex_Nfa
  imports Negex_Class "HOL-Library.Monad_Syntax"
begin

text \<open>
  The Thompson construction (\<open>crates/negex-codegen/src/nfa.rs\<close>). The state list is threaded through
  the compilation of the tree; a compiler returns \<^const>\<open>None\<close> where the code would panic. Dangling
  arrows are addresses \<open>2 * state + flag\<close> and are patched once their target is known; until then they
  point at state 0.
\<close>

section \<open>States and fragments\<close>

definition max_range_expansion :: u32 where "max_range_expansion = 64"

datatype nfa_state = Split usize usize | Read byte_class usize | Match

definition is_match :: "nfa_state \<Rightarrow> bool" where
  "is_match st \<longleftrightarrow> st = Match"

record frag =
  fr_start :: usize
  fr_outs :: "usize list"

type_synonym nfa = "nfa_state list"

type_synonym 'a compiler = "nfa \<Rightarrow> (negex_error + 'a \<times> nfa) option"

definition out_addr :: "usize \<Rightarrow> usize \<Rightarrow> usize" where
  "out_addr state flag = state * 2 + flag"

definition flag_of :: "usize \<Rightarrow> usize" where
  "flag_of a = a AND 1"

definition state_of :: "usize \<Rightarrow> usize" where
  "state_of a = drop_bit 1 a"

fun patch_state :: "usize \<Rightarrow> usize \<Rightarrow> nfa_state \<Rightarrow> nfa_state" where
  "patch_state flag target (Split out out1) = (if flag = 0 then Split target out1 else Split out target)"
| "patch_state flag target (Read c out) = Read c target"
| "patch_state flag target Match = Match"

definition patch_one :: "usize \<Rightarrow> usize \<Rightarrow> nfa \<Rightarrow> nfa" where
  "patch_one target a ns =
     (if state_of a < length ns then ns[state_of a := patch_state (flag_of a) target (ns ! state_of a)] else ns)"

definition patch :: "nfa \<Rightarrow> usize list \<Rightarrow> usize \<Rightarrow> nfa" where
  "patch ns outs target = fold (patch_one target) outs ns"

text \<open>\<open>if let Some(Split \<dots>) = list.get_mut(i) \<dots>\<close>\<close>

definition set_split :: "usize \<Rightarrow> usize \<Rightarrow> usize \<Rightarrow> nfa \<Rightarrow> nfa" where
  "set_split i out out1 ns =
     (if i < length ns then (case ns ! i of Split _ _ \<Rightarrow> ns[i := Split out out1] | _ \<Rightarrow> ns) else ns)"

definition set_out :: "usize \<Rightarrow> usize \<Rightarrow> nfa \<Rightarrow> nfa" where
  "set_out i out ns =
     (if i < length ns then (case ns ! i of Split _ out1 \<Rightarrow> ns[i := Split out out1] | _ \<Rightarrow> ns) else ns)"

definition nx_return :: "'a \<Rightarrow> 'a compiler" where
  "nx_return x ns = Some (Inr (x, ns))"

definition nx_fail :: "negex_error \<Rightarrow> 'a compiler" where
  "nx_fail e ns = Some (Inl e)"

definition nx_bind :: "'a compiler \<Rightarrow> ('a \<Rightarrow> 'b compiler) \<Rightarrow> 'b compiler" where
  "nx_bind c f ns = (case c ns of None \<Rightarrow> None | Some (Inl e) \<Rightarrow> Some (Inl e) | Some (Inr (x, ns')) \<Rightarrow> f x ns')"

definition add_state :: "nfa_state \<Rightarrow> usize compiler" where
  "add_state st ns = Some (Inr (length ns, ns @ [st]))"

definition modify :: "(nfa \<Rightarrow> nfa) \<Rightarrow> unit compiler" where
  "modify f ns = Some (Inr ((), f ns))"

primrec nx_each :: "'a compiler list \<Rightarrow> 'a list compiler" where
  "nx_each [] = nx_return []"
| "nx_each (c # cs) = nx_bind c (\<lambda>x. nx_bind (nx_each cs) (\<lambda>xs. nx_return (x # xs)))"

section \<open>Compilation\<close>

definition empty_frag :: "frag compiler" where
  "empty_frag = nx_bind (add_state (Split 0 0)) (\<lambda>start. nx_return \<lparr>fr_start = start, fr_outs = [out_addr start 0, out_addr start 1]\<rparr>)"

definition read_state :: "byte_class \<Rightarrow> frag compiler" where
  "read_state c = nx_bind (add_state (Split 0 0)) (\<lambda>out. nx_bind (add_state (Read c out)) (\<lambda>start.
     nx_return \<lparr>fr_start = start, fr_outs = [out_addr out 0, out_addr out 1]\<rparr>))"

primrec seq_loop :: "frag compiler list \<Rightarrow> frag \<Rightarrow> frag compiler" where
  "seq_loop [] frag = nx_return frag"
| "seq_loop (c # cs) frag = nx_bind c (\<lambda>nxt. nx_bind (modify (\<lambda>ns. patch ns (fr_outs frag) (fr_start nxt))) (\<lambda>_.
     seq_loop cs (frag\<lparr>fr_outs := fr_outs nxt\<rparr>)))"

definition sequence :: "frag compiler list \<Rightarrow> frag compiler" where
  "sequence cs = (case cs of [] \<Rightarrow> empty_frag | c # cs \<Rightarrow> nx_bind c (seq_loop cs))"

definition any_except_line_terminators :: byte_class where
  "any_except_line_terminators = bc_remove 13 (bc_remove 10 bc_any)"

definition compile_bytes :: "u8 list \<Rightarrow> frag compiler" where
  "compile_bytes bytes = sequence (map (\<lambda>byte. read_state (bc_singleton byte)) bytes)"

definition compile_scalar :: "scalar \<Rightarrow> frag compiler" where
  "compile_scalar c = compile_bytes (encode_utf8 c)"

definition compile_star :: "frag compiler \<Rightarrow> frag compiler" where
  "compile_star atom =
     nx_bind (add_state (Split 0 0)) (\<lambda>start. nx_bind atom (\<lambda>body. nx_bind (add_state (Split 0 0)) (\<lambda>skip.
     nx_bind (modify (\<lambda>ns. patch (set_split start (fr_start body) skip ns) (fr_outs body) start)) (\<lambda>_.
     nx_return \<lparr>fr_start = start, fr_outs = [out_addr skip 0, out_addr skip 1]\<rparr>))))"

definition compile_plus :: "frag compiler \<Rightarrow> frag compiler" where
  "compile_plus atom =
     nx_bind atom (\<lambda>first. nx_bind (compile_star atom) (\<lambda>rest.
     nx_bind (modify (\<lambda>ns. patch ns (fr_outs first) (fr_start rest))) (\<lambda>_.
     nx_return \<lparr>fr_start = fr_start first, fr_outs = fr_outs rest\<rparr>)))"

definition compile_question :: "frag compiler \<Rightarrow> frag compiler" where
  "compile_question atom =
     nx_bind (add_state (Split 0 0)) (\<lambda>start. nx_bind atom (\<lambda>body.
     nx_bind (modify (set_out start (fr_start body))) (\<lambda>_.
     nx_return \<lparr>fr_start = start, fr_outs = fr_outs body @ [out_addr start 1]\<rparr>)))"

primrec range_required :: "frag compiler \<Rightarrow> nat \<Rightarrow> frag option \<Rightarrow> frag option compiler" where
  "range_required atom 0 frag = nx_return frag"
| "range_required atom (Suc n) frag = nx_bind atom (\<lambda>copy.
     case frag of
       None \<Rightarrow> range_required atom n (Some copy)
     | Some prev \<Rightarrow> nx_bind (modify (\<lambda>ns. patch ns (fr_outs prev) (fr_start copy))) (\<lambda>_.
         range_required atom n (Some (prev\<lparr>fr_outs := fr_outs copy\<rparr>))))"

primrec range_optional :: "frag compiler \<Rightarrow> nat \<Rightarrow> frag \<Rightarrow> frag compiler" where
  "range_optional atom 0 frag = nx_return frag"
| "range_optional atom (Suc n) frag =
     nx_bind (add_state (Split 0 0)) (\<lambda>copy_start. nx_bind atom (\<lambda>body. nx_bind (add_state (Split 0 0)) (\<lambda>skip.
     nx_bind (modify (\<lambda>ns. set_out (fr_start frag) copy_start (patch (patch (set_split copy_start (fr_start body) skip ns)
       (fr_outs body) copy_start) (fr_outs frag) copy_start))) (\<lambda>_.
     range_optional atom n (frag\<lparr>fr_outs := [out_addr skip 0, out_addr skip 1]\<rparr>)))))"

definition compile_range :: "frag compiler \<Rightarrow> u32 \<Rightarrow> u32 option \<Rightarrow> frag compiler" where
  "compile_range atom lo hi =
     (let most = (case hi of None \<Rightarrow> max_range_expansion | Some m \<Rightarrow> m) in
      if lo > most \<or> lo > max_range_expansion then nx_fail (InvalidRangeQuantifier lo hi)
      else nx_bind (range_required atom (unat lo) None) (\<lambda>copies.
        nx_bind (case copies of
            Some frag \<Rightarrow> nx_return frag
          | None \<Rightarrow> nx_bind (add_state (Split 0 0)) (\<lambda>start. nx_return \<lparr>fr_start = start, fr_outs = []\<rparr>))
          (range_optional atom (unat most - unat lo))))"

text \<open>The chain of splits that chooses a branch; \<open>frags\<close> has at least two entries when it is built.\<close>

definition link_splits :: "usize list \<Rightarrow> frag list \<Rightarrow> nfa \<Rightarrow> nfa" where
  "link_splits ids frags ns = fold (\<lambda>i. set_split (ids ! i) (fr_start (frags ! i))
     (if i + 1 < length ids then ids ! (i + 1) else fr_start (frags ! (i + 1)))) [0..<length ids] ns"

definition alternation :: "frag list \<Rightarrow> frag compiler" where
  "alternation frags ns =
     (if length frags < 2 then None
      else
        let splits = length frags - 1; ids = [length ns..<length ns + splits];
            ns' = link_splits ids frags (ns @ replicate splits (Split 0 0))
        in Some (Inr (\<lparr>fr_start = ids ! 0, fr_outs = concat (map fr_outs frags)\<rparr>, ns')))"

fun compile_regex :: "regex \<Rightarrow> frag compiler" and compile_branch :: "branch \<Rightarrow> frag compiler"
  and compile_piece :: "piece \<Rightarrow> frag compiler" and compile_atom :: "atom \<Rightarrow> frag compiler" where
  "compile_regex (Regex bs sp) =
     (case map compile_branch bs of [b] \<Rightarrow> b | cs \<Rightarrow> nx_bind (nx_each cs) alternation)"
| "compile_branch (Branch ps sp) = sequence (map compile_piece ps)"
| "compile_piece (Piece a q sp) =
     (case q of
        None \<Rightarrow> compile_atom a
      | Some QStar \<Rightarrow> compile_star (compile_atom a)
      | Some QPlus \<Rightarrow> compile_plus (compile_atom a)
      | Some QQuestion \<Rightarrow> compile_question (compile_atom a)
      | Some (QRange lo hi) \<Rightarrow> compile_range (compile_atom a) lo hi)"
| "compile_atom (Literal c) = compile_scalar c"
| "compile_atom AnyChar = read_state any_except_line_terminators"
| "compile_atom (ClassAtom cl) = (case byte_class cl of Inl e \<Rightarrow> nx_fail e | Inr c \<Rightarrow> read_state c)"
| "compile_atom (Group r) = compile_regex r"
| "compile_atom (AtomError sp) = nx_fail InvalidClassAst"

definition nfa_build :: "regex \<Rightarrow> (negex_error + nfa \<times> usize) option" where
  "nfa_build r =
     (case compile_regex r [] of
        None \<Rightarrow> None
      | Some (Inl e) \<Rightarrow> Some (Inl e)
      | Some (Inr (frag, ns)) \<Rightarrow>
          let accept = length ns; ns = ns @ [Match] in Some (Inr (patch ns (fr_outs frag) accept, fr_start frag)))"

end
