(* ===== verification/Negex_Dfa.thy ===== *)
theory Negex_Dfa
  imports Negex_Nfa
begin

text \<open>
  Determinisation (\<open>crates/negex-codegen/src/dfa.rs\<close>): the epsilon closure, the subset construction
  that numbers the reachable sets in breadth-first order, and the reversed automaton built the same
  way from a deterministic one. A \<open>BTreeSet\<close> is a set, the \<open>BTreeMap\<close> of numbers a map, the queue a
  list. \<^const>\<open>None\<close> is a panic (an index out of range); the limit on the number of states is an error
  value. The two worklist loops of the code are the same but for how a successor set is computed, when
  it is dropped and which sets accept, so they are one definition with these three as arguments.
\<close>

section \<open>Automata\<close>

definition max_dfa_states :: usize where "max_dfa_states = 4096"

record dfa_state =
  ds_accept :: bool
  ds_transitions :: "usize option list"
  ds_repeat :: "(u32 \<times> u32) option"

definition dfa_state_new :: dfa_state where
  "dfa_state_new = \<lparr>ds_accept = False, ds_transitions = replicate 256 None, ds_repeat = None\<rparr>"

record determinized =
  dt_states :: "dfa_state list"
  dt_start :: usize
  dt_matches_empty :: bool

definition state_count :: "determinized \<Rightarrow> usize" where
  "state_count d = length (dt_states d)"

definition dt_is_empty :: "determinized \<Rightarrow> bool" where
  "dt_is_empty d \<longleftrightarrow> dt_states d = []"

section \<open>The epsilon closure\<close>

function closure :: "nfa \<Rightarrow> usize list \<Rightarrow> usize set \<Rightarrow> usize set option" where
  "closure ns [] visited = Some visited"
| "closure ns (s # stack) visited =
     (if s \<in> visited then closure ns stack visited
      else if s < length ns then
        (case ns ! s of
           Split out out1 \<Rightarrow> closure ns (out1 # out # stack) (insert s visited)
         | Read c out \<Rightarrow> closure ns stack (insert s visited)
         | Match \<Rightarrow> closure ns stack (insert s visited))
      else None)"
  by pat_completeness auto

termination
  by (relation "inv_image (finite_psubset <*lex*> less_than) (\<lambda>(ns, stack, visited). ({..<length ns} - visited, length stack))", (auto)[1])
    (auto simp: finite_psubset_def)

text \<open>One step of the subset construction: the closure of everything a byte leads to.\<close>

definition nfa_move :: "nfa \<Rightarrow> usize set \<Rightarrow> u8 \<Rightarrow> usize set option" where
  "nfa_move ns S byte = fold_opt (\<lambda>s nxt.
     if s < length ns then
       (case ns ! s of Read c out \<Rightarrow> if bc_contains c byte then closure ns [out] nxt else Some nxt | _ \<Rightarrow> Some nxt)
     else Some nxt) (sorted_list_of_set S) {}"

definition any_match :: "nfa \<Rightarrow> usize set \<Rightarrow> bool" where
  "any_match ns S \<longleftrightarrow> (\<exists>s \<in> S. s < length ns \<and> is_match (ns ! s))"

section \<open>The worklist\<close>

record explorer =
  ex_ids :: "usize set \<rightharpoonup> usize"
  ex_states :: "dfa_state list"
  ex_work :: "usize set list"

definition explorer_empty :: explorer where
  "explorer_empty = \<lparr>ex_ids = Map.empty, ex_states = [], ex_work = []\<rparr>"

definition register_set :: "(usize set \<Rightarrow> bool) \<Rightarrow> usize set \<Rightarrow> explorer \<Rightarrow> usize \<times> explorer" where
  "register_set acc S ex =
     (case ex_ids ex S of
        Some existing \<Rightarrow> (existing, ex)
      | None \<Rightarrow> let i = length (ex_states ex) in
          (i, ex\<lparr>ex_ids := (ex_ids ex)(S \<mapsto> i), ex_states := ex_states ex @ [dfa_state_new\<lparr>ds_accept := acc S\<rparr>]\<rparr>))"

definition new_state :: "nfa \<Rightarrow> usize set \<Rightarrow> explorer \<Rightarrow> usize \<times> explorer" where
  "new_state ns = register_set (any_match ns)"

definition register_reverse :: "usize \<Rightarrow> usize set \<Rightarrow> explorer \<Rightarrow> usize \<times> explorer" where
  "register_reverse forward_start = register_set (\<lambda>S. forward_start \<in> S)"

text \<open>\<open>if let Some(st) = states.get_mut(id) { st.transitions[byte] = t }\<close>\<close>

definition set_transition :: "usize \<Rightarrow> u8 \<Rightarrow> usize option \<Rightarrow> explorer \<Rightarrow> explorer option" where
  "set_transition i byte t ex =
     (if i < length (ex_states ex) then
        let st = ex_states ex ! i in
        if unat byte < length (ds_transitions st)
        then Some (ex\<lparr>ex_states := (ex_states ex)[i := st\<lparr>ds_transitions := (ds_transitions st)[unat byte := t]\<rparr>]\<rparr>)
        else None
      else Some ex)"

definition push_work :: "usize set \<Rightarrow> explorer \<Rightarrow> explorer" where
  "push_work S ex = ex\<lparr>ex_work := ex_work ex @ [S]\<rparr>"

text \<open>
  The body of the loop over the bytes, for one set with the number \<open>i\<close>: \<open>move\<close> computes the successor
  set, \<open>dead\<close> tells the sets that get no state, \<open>acc\<close> those that accept.
\<close>

definition explore_byte :: "(usize set \<Rightarrow> u8 \<Rightarrow> usize set option) \<Rightarrow> (usize set \<Rightarrow> bool) \<Rightarrow> (usize set \<Rightarrow> bool)
    \<Rightarrow> usize set \<Rightarrow> usize \<Rightarrow> u8 \<Rightarrow> explorer \<Rightarrow> (negex_error + explorer) option" where
  "explore_byte move dead acc S i byte ex = do {
     nxt \<leftarrow> move S byte;
     if dead nxt then do { ex' \<leftarrow> set_transition i byte None ex; Some (Inr ex') }
     else (case ex_ids ex nxt of
         Some existing \<Rightarrow> do { ex' \<leftarrow> set_transition i byte (Some existing) ex; Some (Inr ex') }
       | None \<Rightarrow>
           if length (ex_states ex) \<ge> max_dfa_states then Some (Inl (TooManyStates (length (ex_states ex) + 1) max_dfa_states))
           else (let (nid, ex1) = register_set acc nxt ex in
             do { ex' \<leftarrow> set_transition i byte (Some nid) (push_work nxt ex1); Some (Inr ex') })) }"

primrec explore_bytes :: "(usize set \<Rightarrow> u8 \<Rightarrow> usize set option) \<Rightarrow> (usize set \<Rightarrow> bool) \<Rightarrow> (usize set \<Rightarrow> bool)
    \<Rightarrow> usize set \<Rightarrow> usize \<Rightarrow> u8 list \<Rightarrow> explorer \<Rightarrow> (negex_error + explorer) option" where
  "explore_bytes move dead acc S i [] ex = Some (Inr ex)"
| "explore_bytes move dead acc S i (byte # bytes) ex =
     (case explore_byte move dead acc S i byte ex of
        None \<Rightarrow> None
      | Some (Inl e) \<Rightarrow> Some (Inl e)
      | Some (Inr ex') \<Rightarrow> explore_bytes move dead acc S i bytes ex')"

definition all_bytes :: "u8 list" where
  "all_bytes = map word_of_nat [0..<256]"

text \<open>A set is queued exactly when a state is made for it, so the loop ends.\<close>

definition pending :: "explorer \<Rightarrow> nat" where
  "pending ex = (max_dfa_states - length (ex_states ex)) + length (ex_work ex)"

lemma set_transition_keeps:
  assumes "set_transition i byte t ex = Some ex'"
  shows "ex_ids ex' = ex_ids ex \<and> ex_work ex' = ex_work ex \<and> length (ex_states ex') = length (ex_states ex)"
  using assms by (auto simp: set_transition_def Let_def split: if_splits)

lemma explore_byte_pending: "explore_byte move dead acc S i byte ex = Some (Inr ex') \<Longrightarrow> pending ex' = pending ex"
  by (auto simp: explore_byte_def pending_def register_set_def push_work_def Let_def dest!: set_transition_keeps
      split: if_splits option.splits bind_splits)

lemma explore_bytes_pending: "explore_bytes move dead acc S i bytes ex = Some (Inr ex') \<Longrightarrow> pending ex' = pending ex"
  by (induction bytes arbitrary: ex) (auto dest: explore_byte_pending split: option.splits sum.splits)

function explore :: "(usize set \<Rightarrow> u8 \<Rightarrow> usize set option) \<Rightarrow> (usize set \<Rightarrow> bool) \<Rightarrow> (usize set \<Rightarrow> bool)
    \<Rightarrow> explorer \<Rightarrow> (negex_error + explorer) option" where
  "explore move dead acc ex =
     (case ex_work ex of
        [] \<Rightarrow> Some (Inr ex)
      | S # rest \<Rightarrow>
          (case ex_ids ex S of
             None \<Rightarrow> None
           | Some i \<Rightarrow>
               (case explore_bytes move dead acc S i all_bytes (ex\<lparr>ex_work := rest\<rparr>) of
                  None \<Rightarrow> None
                | Some (Inl e) \<Rightarrow> Some (Inl e)
                | Some (Inr ex') \<Rightarrow> explore move dead acc ex')))"
  by pat_completeness auto

termination
  by (relation "measure (\<lambda>(move, dead, acc, ex). pending ex)") (auto dest!: explore_bytes_pending simp: pending_def)

section \<open>The two constructions\<close>

definition from_nfa :: "nfa \<Rightarrow> usize \<Rightarrow> (negex_error + determinized) option" where
  "from_nfa ns start = do {
     start_set \<leftarrow> closure ns [start] {};
     let matches_empty = any_match ns start_set;
     let (start_id, ex) = new_state ns start_set explorer_empty;
     r \<leftarrow> explore (nfa_move ns) (\<lambda>nxt. nxt = {}) (any_match ns) (push_work start_set ex);
     Some (case r of
        Inl e \<Rightarrow> Inl e
      | Inr ex \<Rightarrow> Inr \<lparr>dt_states = ex_states ex, dt_start = start_id, dt_matches_empty = matches_empty\<rparr>) }"

definition accept_set :: "determinized \<Rightarrow> usize set" where
  "accept_set d = set (filter (\<lambda>i. ds_accept (dt_states d ! i)) [0..<length (dt_states d)])"

text \<open>\<open>state.transitions.get(byte).copied().flatten()\<close>\<close>

definition transition :: "dfa_state \<Rightarrow> u8 \<Rightarrow> usize option" where
  "transition st byte = (if unat byte < length (ds_transitions st) then ds_transitions st ! unat byte else None)"

definition reverse_move :: "determinized \<Rightarrow> usize set \<Rightarrow> u8 \<Rightarrow> usize set option" where
  "reverse_move d S byte = Some (fold (\<lambda>source nxt.
     case transition (dt_states d ! source) byte of
       Some target \<Rightarrow> if target \<in> S then insert source nxt else nxt
     | None \<Rightarrow> nxt) [0..<length (dt_states d)] (accept_set d))"

definition reverse :: "determinized \<Rightarrow> (negex_error + determinized) option" where
  "reverse d =
     (if dt_states d = [] then Some (Inl EmptyDfa)
      else let (start, ex) = register_reverse (dt_start d) (accept_set d) explorer_empty in do {
        r \<leftarrow> explore (reverse_move d) (\<lambda>_. False) (\<lambda>S. dt_start d \<in> S) (push_work (accept_set d) ex);
        Some (case r of
           Inl e \<Rightarrow> Inl e
         | Inr ex \<Rightarrow> Inr \<lparr>dt_states = ex_states ex, dt_start = start, dt_matches_empty = dt_matches_empty d\<rparr>) })"

section \<open>Stepping through a table\<close>

text \<open>\<open>states.get(s).and_then(|st| st.transitions.get(b).copied().flatten())\<close>\<close>

definition next_state :: "determinized \<Rightarrow> u8 \<Rightarrow> usize \<Rightarrow> usize option" where
  "next_state d b s = (if s < length (dt_states d) then transition (dt_states d ! s) b else None)"

text \<open>\<open>states.get(s).is_some_and(|st| st.accept)\<close>\<close>

definition accepting :: "determinized \<Rightarrow> usize \<Rightarrow> bool" where
  "accepting d s \<longleftrightarrow> s < length (dt_states d) \<and> ds_accept (dt_states d ! s)"

end
