(* ===== verification/Negex_Search.thy ===== *)
theory Negex_Search
  imports Negex_Dfa
begin

text \<open>
  Matching: the interpreter (\<open>crates/negex/src/regex.rs\<close>), the leftmost search over the reversed
  automaton and the entry points (\<open>crates/negex/src/lib.rs\<close>), and the transition table of the
  generated code (\<open>crates/negex-codegen/src/lower.rs\<close>, \<open>transition_table\<close>). Positions inside a match
  are \<open>u32\<close> as in the code, the input a list of bytes. The machine code itself is an argument of the
  entry point that may call it; \<^const>\<open>None\<close> is a panic.
\<close>

section \<open>The interpreter\<close>

record match_item =
  mi_input :: "u8 list"
  mi_input_len :: u32
  mi_result :: u32
  mi_start :: u32
  mi_end :: u32
  mi_captures :: "(u32 \<times> u32) list"
  mi_capture_count :: u32
  mi_reserved :: "u32 list"
  mi_trans_table :: "u32 list option"

definition max_captures :: usize where "max_captures = 16"

definition match_item_new :: "u8 list \<Rightarrow> match_item" where
  "match_item_new input = \<lparr>mi_input = input,
     mi_input_len = (if length input < 2 ^ 32 then word_of_nat (length input) else - 1),
     mi_result = 0, mi_start = 0, mi_end = 0, mi_captures = replicate max_captures (0, 0), mi_capture_count = 0,
     mi_reserved = replicate 4 0, mi_trans_table = None\<rparr>"

definition with_table :: "u8 list \<Rightarrow> u32 list \<Rightarrow> match_item" where
  "with_table input table = (match_item_new input)\<lparr>mi_trans_table := Some table\<rparr>"

definition note_accept :: "determinized \<Rightarrow> usize \<Rightarrow> u32 \<Rightarrow> match_item \<times> bool \<Rightarrow> match_item \<times> bool" where
  "note_accept d state pc r = (if accepting d state then ((fst r)\<lparr>mi_result := 1, mi_end := pc\<rparr>, True) else r)"

lemma unat_succ: "(pc :: u32) < limit \<Longrightarrow> unat (pc + 1) = Suc (unat pc)"
  using unsigned_less [of limit, where ?'a = nat] by (simp add: unat_word_ariths word_less_nat_alt)

function exec_loop :: "determinized \<Rightarrow> u8 list \<Rightarrow> usize \<Rightarrow> u32 \<Rightarrow> match_item \<times> bool \<Rightarrow> (usize \<times> u32 \<times> match_item \<times> bool) option" where
  "exec_loop d input state pc r =
     (if pc < word_of_nat (length input) then
        let r = note_accept d state pc r in
        if unat pc < length input then
          (case next_state d (input ! unat pc) state of
             None \<Rightarrow> Some (state, pc, r)
           | Some nxt \<Rightarrow> exec_loop d input nxt (pc + 1) r)
        else None
      else Some (state, pc, r))"
  by pat_completeness auto

termination
proof (relation "measure (\<lambda>(d, input, state, pc, r). unat (word_of_nat (length input) :: u32) - unat pc)", goal_cases)
  case (2 d input state pc r _ nxt)
  then have "unat (pc + 1) = Suc (unat pc)" by (intro unat_succ)
  with 2(1) show ?case by (simp add: word_less_nat_alt)
qed simp

definition interp_exec :: "determinized \<Rightarrow> u8 list \<Rightarrow> match_item \<Rightarrow> (bool \<times> match_item) option" where
  "interp_exec d input item =
     (case exec_loop d input (dt_start d) 0 (item\<lparr>mi_result := 0, mi_start := 0, mi_end := 0\<rparr>, False) of
        None \<Rightarrow> None
      | Some (state, pc, r) \<Rightarrow> let (item, found) = note_accept d state pc r in Some (found, item))"

section \<open>Compiling a tree\<close>

definition compile_automata :: "regex \<Rightarrow> (negex_error + determinized \<times> determinized) option" where
  "compile_automata r =
     (case nfa_build r of
        None \<Rightarrow> None
      | Some (Inl e) \<Rightarrow> Some (Inl e)
      | Some (Inr (nfa, start)) \<Rightarrow>
          (case from_nfa nfa start of
             None \<Rightarrow> None
           | Some (Inl e) \<Rightarrow> Some (Inl e)
           | Some (Inr dfa) \<Rightarrow>
               (case reverse dfa of
                  None \<Rightarrow> None
                | Some (Inl e) \<Rightarrow> Some (Inl e)
                | Some (Inr rv) \<Rightarrow> Some (Inr (dfa, rv)))))"

section \<open>Searching\<close>

record match_result =
  mr_is_match :: bool
  mr_start :: usize
  mr_end :: usize

datatype exec_error = NoTrampoline | NoInterpreter

record compiled_regex =
  cr_dfa :: determinized
  cr_reverse :: determinized
  cr_trans_table :: "u32 list"

primrec scan_back :: "determinized \<Rightarrow> u8 list \<Rightarrow> nat \<Rightarrow> usize \<Rightarrow> usize option \<Rightarrow> usize option" where
  "scan_back r input 0 state best = best"
| "scan_back r input (Suc index) state best =
     (case next_state r (input ! index) state of
        None \<Rightarrow> best
      | Some nxt \<Rightarrow> scan_back r input index nxt (if accepting r nxt then Some index else best))"

definition find_start :: "compiled_regex \<Rightarrow> u8 list \<Rightarrow> usize option" where
  "find_start c input =
     (if list_ex ds_accept (dt_states (cr_dfa c)) then
        scan_back (cr_reverse c) input (length input) (dt_start (cr_reverse c))
          (if accepting (cr_reverse c) (dt_start (cr_reverse c)) then Some (length input) else None)
      else None)"

definition interp_result :: "determinized \<Rightarrow> u8 list \<Rightarrow> usize \<Rightarrow> match_result option" where
  "interp_result d input offset = do {
     (matched, item) \<leftarrow> interp_exec d input (match_item_new input);
     Some \<lparr>mr_is_match = matched, mr_start = offset + unat (mi_start item), mr_end = offset + unat (mi_end item)\<rparr> }"

definition exec_interp :: "compiled_regex \<Rightarrow> u8 list \<Rightarrow> usize \<Rightarrow> (exec_error + match_result) option" where
  "exec_interp c input offset = do { r \<leftarrow> interp_result (cr_dfa c) input offset; Some (Inr r) }"

definition no_match :: match_result where
  "no_match = \<lparr>mr_is_match = False, mr_start = 0, mr_end = 0\<rparr>"

text \<open>\<open>native\<close> is the call of the generated code on the input from the offset on, where there is one.\<close>

definition negex_exec :: "(u8 list \<Rightarrow> usize \<Rightarrow> exec_error + match_result) option \<Rightarrow> compiled_regex \<Rightarrow> u8 list \<Rightarrow> (exec_error + match_result) option" where
  "negex_exec native c input =
     (case find_start c input of
        None \<Rightarrow> Some (Inr no_match)
      | Some start \<Rightarrow>
          let rest = drop start input in
          (case native of
             None \<Rightarrow> exec_interp c rest start
           | Some run \<Rightarrow>
               (case run rest start of
                  Inr result \<Rightarrow> Some (Inr result)
                | Inl NoTrampoline \<Rightarrow> exec_interp c rest start
                | Inl e \<Rightarrow> Some (Inl e))))"

definition exec_interpreted_with :: "compiled_regex \<Rightarrow> determinized \<Rightarrow> u8 list \<Rightarrow> (exec_error + match_result) option" where
  "exec_interpreted_with c interp input =
     (case find_start c input of
        None \<Rightarrow> Some (Inr no_match)
      | Some start \<Rightarrow> do { r \<leftarrow> interp_result interp (drop start input) start; Some (Inr r) })"

section \<open>The transition table\<close>

unbundle bit_operations_syntax

definition trans_table_row :: usize where "trans_table_row = 256"

definition trans_row_mask :: u32 where "trans_row_mask = push_bit 31 1 - 1"

definition trans_accept :: u32 where "trans_accept = push_bit 31 1"

definition state_row :: "usize \<Rightarrow> usize" where "state_row state = state + 1"

definition row_index :: "usize \<Rightarrow> u32 option" where
  "row_index row =
     (if row * trans_table_row \<le> usize_max \<and> row * trans_table_row \<le> unat trans_row_mask then Some (word_of_nat (row * trans_table_row)) else None)"

definition table_entry :: "dfa_state \<Rightarrow> u8 \<Rightarrow> u32" where
  "table_entry st byte =
     (if ds_accept st then trans_accept else 0) OR
     (case transition st byte of None \<Rightarrow> 0 | Some nxt \<Rightarrow> (case row_index (state_row nxt) of None \<Rightarrow> 0 | Some i \<Rightarrow> i))"

text \<open>Row 0 is the dead state; the rows of the states follow in order, each with an entry per byte.\<close>

definition transition_table :: "determinized \<Rightarrow> u32 list" where
  "transition_table d = fold (\<lambda>index table.
       let row = state_row index in
       if row * trans_table_row + trans_table_row \<le> length table
       then take (row * trans_table_row) table @ map (table_entry (dt_states d ! index)) all_bytes
              @ drop (row * trans_table_row + trans_table_row) table
       else table)
     [0..<length (dt_states d)] (replicate (state_row (length (dt_states d)) * trans_table_row) 0)"

definition entry_accepts :: "u32 \<Rightarrow> bool" where
  "entry_accepts entry \<longleftrightarrow> entry AND trans_accept \<noteq> 0"

definition entry_row :: "u32 \<Rightarrow> u32" where
  "entry_row entry = entry AND trans_row_mask"

end
