(* ===== verification/Negex_Nfa_Props.thy ===== *)
theory Negex_Nfa_Props
  imports Negex_Nfa
begin

text \<open>
  The construction is right: the automaton accepts the language of the tree. A fragment is described
  by what any later state list reads between its start and the target its arrows are patched to, as
  long as the list keeps the states of the fragment.
\<close>

section \<open>Languages\<close>

type_synonym lang = "u8 list set"

definition lconc :: "lang \<Rightarrow> lang \<Rightarrow> lang" where
  "lconc A B = {u @ v | u v. u \<in> A \<and> v \<in> B}"

inductive_set lstar :: "lang \<Rightarrow> lang" for A where
  lstar_Nil: "[] \<in> lstar A"
| lstar_step: "u \<in> A \<Longrightarrow> v \<in> lstar A \<Longrightarrow> u @ v \<in> lstar A"

primrec lpow :: "nat \<Rightarrow> lang \<Rightarrow> lang" where
  "lpow 0 A = {[]}"
| "lpow (Suc n) A = lconc A (lpow n A)"

definition repeats :: "u32 \<Rightarrow> u32 option \<Rightarrow> nat set" where
  "repeats lo hi = {n. unat lo \<le> n \<and> (case hi of None \<Rightarrow> True | Some m \<Rightarrow> n \<le> unat m)}"

fun quantified :: "quantifier option \<Rightarrow> lang \<Rightarrow> lang" where
  "quantified None A = A"
| "quantified (Some QStar) A = lstar A"
| "quantified (Some QPlus) A = lconc A (lstar A)"
| "quantified (Some QQuestion) A = insert [] A"
| "quantified (Some (QRange lo hi)) A = (\<Union>n \<in> repeats lo hi. lpow n A)"

fun regex_lang :: "regex \<Rightarrow> lang" and branch_lang :: "branch \<Rightarrow> lang" and piece_lang :: "piece \<Rightarrow> lang" and atom_lang :: "atom \<Rightarrow> lang" where
  "regex_lang (Regex bs sp) = (\<Union>b \<in> set bs. branch_lang b)"
| "branch_lang (Branch ps sp) = foldr lconc (map piece_lang ps) {[]}"
| "piece_lang (Piece a q sp) = quantified q (atom_lang a)"
| "atom_lang (Literal c) = {encode_utf8 c}"
| "atom_lang AnyChar = {[b] | b. b \<noteq> 10 \<and> b \<noteq> 13}"
| "atom_lang (ClassAtom cl) = {[b] | b. b \<in> class_set cl}"
| "atom_lang (Group r) = regex_lang r"
| "atom_lang (AtomError sp) = {}"

lemma lconc_empty [simp]: "lconc A {[]} = A" "lconc {[]} A = A"
  by (simp_all add: lconc_def)

lemma lconc_assoc: "lconc (lconc A B) C = lconc A (lconc B C)"
  unfolding lconc_def by (auto, metis append_assoc, metis append_assoc)

lemma lstar_conc: "u \<in> lstar A \<Longrightarrow> v \<in> lstar A \<Longrightarrow> u @ v \<in> lstar A"
  by (induction rule: lstar.induct) (auto intro: lstar.intros)

section \<open>Paths\<close>

text \<open>Paths whose states, the last apart, lie in a set.\<close>

inductive path :: "nfa \<Rightarrow> nat set \<Rightarrow> nat \<Rightarrow> u8 list \<Rightarrow> nat \<Rightarrow> bool" for ns A where
  path_Nil: "path ns A p [] p"
| path_Split: "p \<in> A \<Longrightarrow> ns ! p = Split out out1 \<Longrightarrow> r = out \<or> r = out1 \<Longrightarrow> path ns A r w q \<Longrightarrow> path ns A p w q"
| path_Read: "p \<in> A \<Longrightarrow> ns ! p = Read c out \<Longrightarrow> bc_contains c b \<Longrightarrow> path ns A out w q \<Longrightarrow> path ns A p (b # w) q"

fun targets :: "nfa_state \<Rightarrow> nat set" where
  "targets (Split out out1) = {out, out1}"
| "targets (Read c out) = {out}"
| "targets Match = {}"

definition closed :: "nfa \<Rightarrow> nat set \<Rightarrow> nat set \<Rightarrow> bool" where
  "closed ns A T \<longleftrightarrow> (\<forall>p \<in> A. targets (ns ! p) \<subseteq> A \<union> T)"

lemma path_cong: "path ns A p w q \<Longrightarrow> (\<And>p. p \<in> A \<Longrightarrow> ns' ! p = ns ! p) \<Longrightarrow> path ns' A p w q"
  by (induction rule: path.induct) (auto intro: path.intros)

lemma path_mono: "path ns A p w q \<Longrightarrow> A \<subseteq> B \<Longrightarrow> path ns B p w q"
  by (induction rule: path.induct) (auto intro: path.intros)

lemma path_trans: "path ns A p u r \<Longrightarrow> path ns A r v q \<Longrightarrow> path ns A p (u @ v) q"
  by (induction rule: path.induct) (auto intro: path.intros)

lemma path_outside: "path ns A p w q \<Longrightarrow> p \<notin> A \<Longrightarrow> w = [] \<and> q = p"
  by (induction rule: path.induct) auto

text \<open>A path that leaves a part closed up to one state passes through that state.\<close>

lemma path_leave:
  assumes "path ns A p w q" "p \<in> B" "q \<notin> B" "closed ns B {r}"
  shows "\<exists>u v. w = u @ v \<and> path ns B p u r \<and> path ns A r v q"
  using assms
proof (induction rule: path.induct)
  case (path_Split p out out1 r' w q)
  have r': "r' \<in> B \<or> r' = r" using path_Split.hyps(2,3) path_Split.prems(1,3) by (auto simp: closed_def)
  show ?case
  proof (cases "r' \<in> B")
    case True
    with path_Split.IH path_Split.prems obtain u v where "w = u @ v" "path ns B r' u r" "path ns A r v q" by blast
    then show ?thesis using path.path_Split [OF path_Split.prems(1) path_Split.hyps(2,3)] by blast
  next
    case False
    then have "r' = r" using r' by blast
    then have "path ns B p [] r" using path.path_Split [OF path_Split.prems(1) path_Split.hyps(2,3)] path_Nil by blast
    then show ?thesis using path_Split.hyps(4) \<open>r' = r\<close> by (metis append_Nil)
  qed
next
  case (path_Read p c out b w q)
  have out: "out \<in> B \<or> out = r" using path_Read.hyps(2) path_Read.prems(1,3) by (auto simp: closed_def)
  show ?case
  proof (cases "out \<in> B")
    case True
    with path_Read.IH path_Read.prems obtain u v where "w = u @ v" "path ns B out u r" "path ns A r v q" by blast
    then show ?thesis using path.path_Read [OF path_Read.prems(1) path_Read.hyps(2,3)] by (metis append_Cons)
  next
    case False
    then have "out = r" using out by blast
    then have "path ns B p [b] r" using path.path_Read [OF path_Read.prems(1) path_Read.hyps(2,3)] path_Nil by blast
    then show ?thesis using path_Read.hyps(4) \<open>out = r\<close> by (metis append_Cons append_Nil)
  qed
qed simp

text \<open>A path that starts in a closed part and ends at its exit stays in it.\<close>

lemma path_confine:
  assumes "path ns A p w q" "p \<in> B" "closed ns B {q}" "q \<notin> B" "q \<notin> A"
  shows "path ns B p w q"
  using path_leave [OF assms(1,2,4,3)] path_outside [OF _ assms(5)] by fastforce

section \<open>Patching\<close>

lemma addr_of [simp]: "f < 2 \<Longrightarrow> state_of (out_addr p f) = p" "f < 2 \<Longrightarrow> flag_of (out_addr p f) = f"
  by (simp_all add: state_of_def flag_of_def out_addr_def drop_bit_eq_div and_one_eq)

lemma addr_split: "out_addr (state_of a) (flag_of a) = a" "flag_of a < 2"
  by (simp_all add: state_of_def flag_of_def out_addr_def drop_bit_eq_div and_one_eq)

lemma addr_eq_iff: "f < 2 \<Longrightarrow> a = out_addr p f \<longleftrightarrow> state_of a = p \<and> flag_of a = f"
  by (metis addr_of addr_split(1))

fun retarget :: "usize list \<Rightarrow> usize \<Rightarrow> nat \<Rightarrow> nfa_state \<Rightarrow> nfa_state" where
  "retarget outs t p (Split out out1) =
     Split (if out_addr p 0 \<in> set outs then t else out) (if out_addr p 1 \<in> set outs then t else out1)"
| "retarget outs t p (Read c out) = Read c out"
| "retarget outs t p Match = Match"

definition is_split :: "nfa_state \<Rightarrow> bool" where
  "is_split st \<longleftrightarrow> (\<exists>out out1. st = Split out out1)"

definition splits_at :: "nfa \<Rightarrow> usize list \<Rightarrow> bool" where
  "splits_at ns outs \<longleftrightarrow> (\<forall>a \<in> set outs. state_of a < length ns \<and> is_split (ns ! state_of a))"

lemma length_patch [simp]: "length (patch ns outs t) = length ns"
proof -
  have "length (patch_one t a ns) = length ns" for a ns by (simp add: patch_one_def)
  then show ?thesis unfolding patch_def by (induction outs arbitrary: ns) simp_all
qed

lemma retarget_patch:
  assumes "is_split (ns ! state_of a)" "state_of a < length ns" "p < length ns"
  shows "retarget outs t p (patch_one t a ns ! p) = retarget (a # outs) t p (ns ! p)"
proof (cases "state_of a = p")
  case True
  obtain out out1 where "ns ! p = Split out out1" using assms(1) True by (auto simp: is_split_def)
  moreover have "flag_of a = 0 \<or> flag_of a = 1" using addr_split(2) [of a] by auto
  moreover have "a = out_addr p 0 \<longleftrightarrow> flag_of a = 0" "a = out_addr p 1 \<longleftrightarrow> flag_of a = 1" using True by (simp_all add: addr_eq_iff)
  ultimately show ?thesis using True assms(3) by (auto simp: patch_one_def)
next
  case False
  then have "out_addr p 0 \<noteq> a" "out_addr p 1 \<noteq> a" using addr_eq_iff [of 0 a p] addr_eq_iff [of 1 a p] by auto
  then show ?thesis using False by (cases "ns ! p") (auto simp: patch_one_def)
qed

lemma patch_one_splits: "splits_at ns (a # outs) \<Longrightarrow> splits_at (patch_one t a ns) outs"
  by (auto simp: splits_at_def patch_one_def is_split_def nth_list_update)

lemma nth_patch:
  assumes "splits_at ns outs" "p < length ns"
  shows "patch ns outs t ! p = retarget outs t p (ns ! p)"
  using assms
proof (induction outs arbitrary: ns)
  case Nil
  then show ?case by (cases "ns ! p") (simp_all add: patch_def)
next
  case (Cons a outs)
  have a: "is_split (ns ! state_of a)" "state_of a < length ns" using Cons.prems(1) by (simp_all add: splits_at_def)
  have "patch ns (a # outs) t = patch (patch_one t a ns) outs t" by (simp add: patch_def)
  moreover have "p < length (patch_one t a ns)" using Cons.prems(2) by (simp add: patch_one_def)
  ultimately show ?case using Cons.IH [OF patch_one_splits [OF Cons.prems(1)]] retarget_patch [OF a Cons.prems(2)] by simp
qed

lemma retarget_other: "\<forall>a \<in> set outs. state_of a \<noteq> p \<Longrightarrow> retarget outs t p st = st"
  by (cases st) (auto dest: bspec [of _ _ "out_addr p _"])

lemma retarget_below: "\<forall>a \<in> set outs. n \<le> state_of a \<Longrightarrow> p < n \<Longrightarrow> retarget outs t p st = st"
  by (rule retarget_other) auto

lemma retarget_above: "\<forall>a \<in> set outs. state_of a < n \<Longrightarrow> n \<le> p \<Longrightarrow> retarget outs t p st = st"
  by (rule retarget_other) auto

section \<open>Fragments\<close>

definition seg :: "nfa \<Rightarrow> nat \<Rightarrow> nat set" where
  "seg ns lo = {lo..<length ns}"

definition extends :: "nfa \<Rightarrow> nfa \<Rightarrow> bool" where
  "extends ns ns' \<longleftrightarrow> length ns \<le> length ns' \<and> (\<forall>p < length ns. ns' ! p = ns ! p)"

definition patched :: "nfa \<Rightarrow> nfa \<Rightarrow> nat \<Rightarrow> usize list \<Rightarrow> nat \<Rightarrow> bool" where
  "patched ns ns' lo outs t \<longleftrightarrow> (\<forall>p \<in> seg ns lo. ns' ! p = retarget outs t p (ns ! p))"

fun inner :: "nat set \<Rightarrow> usize list \<Rightarrow> nat \<Rightarrow> nfa_state \<Rightarrow> bool" where
  "inner A outs p (Split out out1) \<longleftrightarrow> (out_addr p 0 \<in> set outs \<or> out \<in> A) \<and> (out_addr p 1 \<in> set outs \<or> out1 \<in> A)"
| "inner A outs p (Read c out) \<longleftrightarrow> out \<in> A"
| "inner A outs p Match \<longleftrightarrow> False"

definition outs_ok :: "nfa \<Rightarrow> nat \<Rightarrow> usize list \<Rightarrow> bool" where
  "outs_ok ns lo outs \<longleftrightarrow> splits_at ns outs \<and> (\<forall>a \<in> set outs. lo \<le> state_of a)"

definition frag_ok :: "nfa \<Rightarrow> nat \<Rightarrow> frag \<Rightarrow> lang \<Rightarrow> bool" where
  "frag_ok ns lo f L \<longleftrightarrow>
     fr_start f \<in> seg ns lo \<and> outs_ok ns lo (fr_outs f) \<and> (\<forall>p \<in> seg ns lo. inner (seg ns lo) (fr_outs f) p (ns ! p)) \<and>
     (\<forall>ns' t w. patched ns ns' lo (fr_outs f) t \<longrightarrow> t \<notin> seg ns lo \<longrightarrow> (path ns' (seg ns lo) (fr_start f) w t \<longleftrightarrow> w \<in> L))"

lemma inner_targets: "inner A outs p st \<Longrightarrow> targets (retarget outs t p st) \<subseteq> A \<union> {t}"
  by (cases st) auto

lemma frag_closed: "frag_ok ns lo f L \<Longrightarrow> patched ns ns' lo (fr_outs f) t \<Longrightarrow> closed ns' (seg ns lo) {t}"
  unfolding frag_ok_def closed_def patched_def using inner_targets by fastforce

lemma frag_path:
  "frag_ok ns lo f L \<Longrightarrow> patched ns ns' lo (fr_outs f) t \<Longrightarrow> t \<notin> seg ns lo \<Longrightarrow> path ns' (seg ns lo) (fr_start f) w t \<longleftrightarrow> w \<in> L"
  unfolding frag_ok_def by blast

text \<open>A compiler that appends a fragment for a language.\<close>

definition makes :: "frag compiler \<Rightarrow> lang \<Rightarrow> bool" where
  "makes c L \<longleftrightarrow> (\<forall>ns. \<exists>f ns'. c ns = Some (Inr (f, ns')) \<and> extends ns ns' \<and> frag_ok ns' (length ns) f L)"

lemma makesE:
  assumes "makes c L"
  obtains f ns' where "c ns = Some (Inr (f, ns'))" "extends ns ns'" "frag_ok ns' (length ns) f L"
  using assms unfolding makes_def by blast

text \<open>The states of a fragment in a longer list.\<close>

lemma patched_extends:
  "patched ns ns' lo outs t \<longleftrightarrow> (\<forall>p. lo \<le> p \<longrightarrow> p < length ns \<longrightarrow> ns' ! p = retarget outs t p (ns ! p))"
  by (auto simp: patched_def seg_def)

section \<open>Single states\<close>

lemma path_Split_iff:
  assumes "p \<in> A" "ns ! p = Split out out1" "p \<noteq> q"
  shows "path ns A p w q \<longleftrightarrow> path ns A out w q \<or> path ns A out1 w q"
proof
  assume "path ns A p w q"
  then show "path ns A out w q \<or> path ns A out1 w q" using assms by (cases rule: path.cases) auto
next
  assume "path ns A out w q \<or> path ns A out1 w q"
  then show "path ns A p w q" using path_Split [OF assms(1,2)] by blast
qed

lemma path_Read_iff:
  assumes "p \<in> A" "ns ! p = Read c out" "p \<noteq> q"
  shows "path ns A p w q \<longleftrightarrow> (\<exists>b v. w = b # v \<and> bc_contains c b \<and> path ns A out v q)"
proof
  assume "path ns A p w q"
  then show "\<exists>b v. w = b # v \<and> bc_contains c b \<and> path ns A out v q" using assms by (cases rule: path.cases) auto
next
  assume "\<exists>b v. w = b # v \<and> bc_contains c b \<and> path ns A out v q"
  then show "path ns A p w q" using path_Read [OF assms(1,2)] by blast
qed

lemma path_exit_iff: "q \<notin> A \<Longrightarrow> path ns A q w q \<longleftrightarrow> w = []"
  using path_outside path_Nil by metis

lemma extends_append [simp]: "extends ns (ns @ xs)"
  by (simp add: extends_def nth_append)

lemma extends_trans: "extends a b \<Longrightarrow> extends b c \<Longrightarrow> extends a c"
  by (simp add: extends_def)

lemma makes_empty: "makes empty_frag {[]}"
  unfolding makes_def
proof
  fix ns :: nfa
  let ?f = "\<lparr>fr_start = length ns, fr_outs = [out_addr (length ns) 0, out_addr (length ns) 1]\<rparr>" and ?ns = "ns @ [Split 0 0]"
  have run: "empty_frag ns = Some (Inr (?f, ?ns))" by (simp add: empty_frag_def nx_bind_def add_state_def nx_return_def)
  have seg: "seg ?ns (length ns) = {length ns}" by (auto simp: seg_def)
  have "path ns' {length ns} (length ns) w t \<longleftrightarrow> w = []"
    if "patched ?ns ns' (length ns) (fr_outs ?f) t" "t \<noteq> length ns" for ns' t w
  proof -
    have "ns' ! length ns = Split t t" using that(1) by (simp add: patched_def seg)
    then show ?thesis using path_Split_iff [of "length ns" "{length ns}" ns' t t t] that(2) path_exit_iff [of t "{length ns}"] by auto
  qed
  then have "frag_ok ?ns (length ns) ?f {[]}"
    by (simp add: frag_ok_def seg outs_ok_def splits_at_def is_split_def)
  with run show "\<exists>f ns'. empty_frag ns = Some (Inr (f, ns')) \<and> extends ns ns' \<and> frag_ok ns' (length ns) f {[]}" by auto
qed

lemma makes_read: "makes (read_state c) {[b] | b. bc_contains c b}"
  unfolding makes_def
proof
  fix ns :: nfa
  let ?n = "length ns" let ?f = "\<lparr>fr_start = Suc ?n, fr_outs = [out_addr ?n 0, out_addr ?n 1]\<rparr>" and ?ns = "ns @ [Split 0 0, Read c ?n]"
  have run: "read_state c ns = Some (Inr (?f, ?ns))" by (simp add: read_state_def nx_bind_def add_state_def nx_return_def)
  have seg: "seg ?ns ?n = {?n, Suc ?n}" by (auto simp: seg_def)
  have "path ns' {?n, Suc ?n} (Suc ?n) w t \<longleftrightarrow> (\<exists>b. w = [b] \<and> bc_contains c b)"
    if "patched ?ns ns' ?n (fr_outs ?f) t" "t \<notin> {?n, Suc ?n}" for ns' t w
  proof -
    have "ns' ! ?n = Split t t" "ns' ! Suc ?n = Read c ?n" using that(1) by (simp_all add: patched_def seg nth_append)
    then show ?thesis
      using path_Split_iff [of ?n "{?n, Suc ?n}" ns' t t t] path_Read_iff [of "Suc ?n" "{?n, Suc ?n}" ns' c ?n t w]
        that(2) path_exit_iff [OF that(2), of ns'] by auto
  qed
  then have "frag_ok ?ns ?n ?f {[b] | b. bc_contains c b}"
    by (auto simp: frag_ok_def seg outs_ok_def splits_at_def is_split_def nth_append)
  with run show "\<exists>f ns'. read_state c ns = Some (Inr (f, ns')) \<and> extends ns ns' \<and> frag_ok ns' ?n f {[b] | b. bc_contains c b}" by auto
qed

section \<open>One fragment after the other\<close>

lemma patch_extends:
  assumes "extends ns ns'" "outs_ok ns' (length ns) outs"
  shows "extends ns (patch ns' outs t)"
  using assms by (auto simp: extends_def outs_ok_def nth_patch retarget_below)

lemma inner_mono: "inner A outs p st \<Longrightarrow> A \<subseteq> B \<Longrightarrow> set outs \<subseteq> set outs' \<Longrightarrow> inner B outs' p st"
  by (cases st) auto

lemma inner_retarget: "inner A outs p st \<Longrightarrow> A \<subseteq> B \<Longrightarrow> t \<in> B \<Longrightarrow> inner B outs' p (retarget outs t p st)"
  by (cases st) auto

lemma is_split_retarget [simp]: "is_split (retarget outs t p st) \<longleftrightarrow> is_split st"
  by (cases st) (auto simp: is_split_def)

lemma outs_patch: "outs_ok ns lo outs' \<Longrightarrow> splits_at ns outs \<Longrightarrow> outs_ok (patch ns outs t) lo outs'"
  by (auto simp: outs_ok_def splits_at_def nth_patch [unfolded splits_at_def])

lemma outs_extends: "outs_ok ns lo outs \<Longrightarrow> extends ns ns' \<Longrightarrow> outs_ok ns' lo outs"
  by (auto simp: outs_ok_def splits_at_def extends_def)

lemma outs_lower: "outs_ok ns mid outs \<Longrightarrow> lo \<le> mid \<Longrightarrow> outs_ok ns lo outs"
  by (auto simp: outs_ok_def intro: order_trans)

lemma frag_seq:
  assumes "frag_ok ns1 lo f1 L1" "extends ns1 ns2" "frag_ok ns2 (length ns1) f2 L2"
  shows "frag_ok (patch ns2 (fr_outs f1) (fr_start f2)) lo (f1\<lparr>fr_outs := fr_outs f2\<rparr>) (lconc L1 L2)"
proof -
  let ?s = "fr_start f2" and ?ns = "patch ns2 (fr_outs f1) (fr_start f2)" and ?mid = "length ns1"
  let ?A = "seg ns1 lo" and ?B = "seg ns2 ?mid"
  have len: "?mid \<le> length ns2" using assms(2) by (simp add: extends_def)
  have start1: "fr_start f1 \<in> ?A" and start2: "?s \<in> ?B" using assms(1,3) by (simp_all add: frag_ok_def)
  have lo: "lo \<le> ?mid" using start1 by (simp add: seg_def)
  have AB: "seg ?ns lo = ?A \<union> ?B" using lo len by (auto simp: seg_def)
  have o1: "outs_ok ns1 lo (fr_outs f1)" and o2: "outs_ok ns2 ?mid (fr_outs f2)" using assms(1,3) by (simp_all add: frag_ok_def)
  have sp: "splits_at ns2 (fr_outs f1)" using outs_extends [OF o1 assms(2)] by (simp add: outs_ok_def)
  have far1: "\<forall>a \<in> set (fr_outs f1). state_of a < ?mid" using o1 by (simp add: outs_ok_def splits_at_def)
  have far2: "\<forall>a \<in> set (fr_outs f2). ?mid \<le> state_of a" using o2 by (simp add: outs_ok_def)
  have nsA: "?ns ! p = retarget (fr_outs f1) ?s p (ns1 ! p)" if "p < ?mid" for p
    using that len assms(2) by (simp add: nth_patch [OF sp] extends_def)
  have nsB: "?ns ! p = ns2 ! p" if "?mid \<le> p" "p < length ns2" for p
    using that retarget_above [OF far1] by (simp add: nth_patch [OF sp])
  have inA: "inner (?A \<union> ?B) (fr_outs f2) p (?ns ! p)" if "p \<in> ?A" for p
    using that assms(1) start2 by (auto simp: nsA seg_def [of ns1] frag_ok_def intro: inner_retarget [where A = ?A])
  have inB: "inner (?A \<union> ?B) (fr_outs f2) p (?ns ! p)" if "p \<in> ?B" for p
  proof -
    have "inner ?B (fr_outs f2) p (ns2 ! p)" using that assms(3) by (simp add: frag_ok_def)
    then show ?thesis using that nsB [of p] inner_mono [of ?B "fr_outs f2" p "ns2 ! p" "?A \<union> ?B" "fr_outs f2"] by (simp add: seg_def [of ns2])
  qed
  have lang: "path ns' (?A \<union> ?B) (fr_start f1) w t \<longleftrightarrow> w \<in> lconc L1 L2"
    if pt: "patched ?ns ns' lo (fr_outs f2) t" and t: "t \<notin> ?A \<union> ?B" for ns' t w
  proof -
    have at: "ns' ! p = retarget (fr_outs f2) t p (?ns ! p)" if "lo \<le> p" "p < length ns2" for p
      using pt that by (simp add: patched_extends)
    have "ns' ! p = retarget (fr_outs f1) ?s p (ns1 ! p)" if "lo \<le> p" "p < ?mid" for p
    proof -
      have "retarget (fr_outs f2) t p (?ns ! p) = ?ns ! p" using far2 that(2) by (intro retarget_other) auto
      then show ?thesis using at that len nsA by simp
    qed
    then have p1: "patched ns1 ns' lo (fr_outs f1) ?s" by (simp add: patched_extends)
    have p2: "patched ns2 ns' ?mid (fr_outs f2) t" using at lo nsB by (simp add: patched_extends)
    have sA: "?s \<notin> ?A" using start2 by (simp add: seg_def)
    show ?thesis
    proof
      assume "path ns' (?A \<union> ?B) (fr_start f1) w t"
      from path_leave [OF this start1 _ frag_closed [OF assms(1) p1]] t obtain u v where
        uv: "w = u @ v" "path ns' ?A (fr_start f1) u ?s" "path ns' (?A \<union> ?B) ?s v t" by auto
      from path_confine [OF uv(3) start2 frag_closed [OF assms(3) p2]] t have "path ns' ?B ?s v t" by auto
      then show "w \<in> lconc L1 L2"
        using uv(1,2) frag_path [OF assms(1) p1 sA] frag_path [OF assms(3) p2] t by (auto simp: lconc_def)
    next
      assume "w \<in> lconc L1 L2"
      then obtain u v where uv: "w = u @ v" "u \<in> L1" "v \<in> L2" by (auto simp: lconc_def)
      then have "path ns' ?A (fr_start f1) u ?s" "path ns' ?B ?s v t"
        using frag_path [OF assms(1) p1 sA] frag_path [OF assms(3) p2] t by auto
      from path_trans [OF path_mono [OF this(1) Un_upper1] path_mono [OF this(2) Un_upper2]]
      show "path ns' (?A \<union> ?B) (fr_start f1) w t" by (simp add: uv(1))
    qed
  qed
  have o: "outs_ok ?ns lo (fr_outs f2)" using outs_lower [OF outs_patch [OF o2 sp] lo] .
  show ?thesis unfolding frag_ok_def AB using start1 o inA inB lang by auto
qed

section \<open>Sequences\<close>

lemma nx_bind_Inr: "c ns = Some (Inr (x, ns')) \<Longrightarrow> nx_bind c f ns = f x ns'"
  by (simp add: nx_bind_def)

lemma nx_bind_assoc: "nx_bind (nx_bind c f) g = nx_bind c (\<lambda>x. nx_bind (f x) g)"
  by (rule ext) (auto simp: nx_bind_def split: option.splits sum.splits)

lemma nx_bind_return [simp]: "nx_bind (nx_return x) f = f x" "nx_bind c nx_return = c"
  by (rule ext, auto simp: nx_bind_def nx_return_def split: option.splits sum.splits)+

lemma nx_bind_modify: "nx_bind (modify g) f ns = f () (g ns)"
  by (simp add: nx_bind_def modify_def)

lemma nx_bind_add: "nx_bind (add_state st) f ns = f (length ns) (ns @ [st])"
  by (simp add: nx_bind_def add_state_def)

definition keeps :: "nat \<Rightarrow> nfa \<Rightarrow> nfa \<Rightarrow> bool" where
  "keeps lo ns ns' \<longleftrightarrow> length ns \<le> length ns' \<and> (\<forall>p < lo. ns' ! p = ns ! p)"

lemma keeps_patch: "keeps lo ns ns' \<Longrightarrow> outs_ok ns' lo outs \<Longrightarrow> lo \<le> length ns' \<Longrightarrow> keeps lo ns (patch ns' outs t)"
  by (auto simp: keeps_def outs_ok_def nth_patch retarget_below)

lemma frag_outs: "frag_ok ns lo f L \<Longrightarrow> outs_ok ns lo (fr_outs f)"
  and frag_start: "frag_ok ns lo f L \<Longrightarrow> lo \<le> fr_start f \<and> fr_start f < length ns"
  by (simp_all add: frag_ok_def seg_def)

lemma seq_loop_ok:
  assumes "list_all2 makes cs Ls" "frag_ok ns lo f L"
  shows "\<exists>f' ns'. seq_loop cs f ns = Some (Inr (f', ns')) \<and> keeps lo ns ns' \<and> frag_ok ns' lo f' (foldl lconc L Ls)"
  using assms
proof (induction cs Ls arbitrary: f ns L rule: list_all2_induct)
  case Nil
  then show ?case by (auto simp: nx_return_def keeps_def)
next
  case (Cons c cs K Ls)
  have lo: "lo \<le> length ns" using frag_start [OF Cons.prems] by simp
  from Cons.hyps(1) obtain f2 ns2 where c: "c ns = Some (Inr (f2, ns2))" "extends ns ns2" "frag_ok ns2 (length ns) f2 K" by (rule makesE)
  let ?ns = "patch ns2 (fr_outs f) (fr_start f2)"
  from Cons.IH [OF frag_seq [OF Cons.prems c(2,3)]] obtain f' ns' where
    IH: "seq_loop cs (f\<lparr>fr_outs := fr_outs f2\<rparr>) ?ns = Some (Inr (f', ns'))" "keeps lo ?ns ns'" "frag_ok ns' lo f' (foldl lconc (lconc L K) Ls)" by blast
  have "keeps lo ns ?ns"
    using outs_extends [OF frag_outs [OF Cons.prems] c(2)] c(2) lo by (intro keeps_patch) (auto simp: keeps_def extends_def)
  then have "keeps lo ns ns'" using IH(2) by (auto simp: keeps_def)
  with IH(1,3) c(1) show ?case by (simp add: nx_bind_Inr nx_bind_modify)
qed

lemma foldl_lconc: "foldl lconc L Ls = lconc L (foldr lconc Ls {[]})"
  by (induction Ls arbitrary: L) (simp_all add: lconc_assoc)

lemma makes_sequence:
  assumes "list_all2 makes cs Ls"
  shows "makes (sequence cs) (foldr lconc Ls {[]})"
proof (cases cs)
  case Nil
  then show ?thesis using assms makes_empty by (simp add: sequence_def)
next
  case (Cons c cs')
  then obtain L Ls' where Ls: "Ls = L # Ls'" "makes c L" "list_all2 makes cs' Ls'" using assms by (auto simp: list_all2_Cons1)
  show ?thesis unfolding makes_def
  proof
    fix ns
    from Ls(2) obtain f ns1 where c: "c ns = Some (Inr (f, ns1))" "extends ns ns1" "frag_ok ns1 (length ns) f L" by (rule makesE)
    from seq_loop_ok [OF Ls(3) c(3)] obtain f' ns2 where
      s: "seq_loop cs' f ns1 = Some (Inr (f', ns2))" "keeps (length ns) ns1 ns2" "frag_ok ns2 (length ns) f' (foldl lconc L Ls')" by blast
    have "extends ns ns2" using c(2) s(2) by (auto simp: extends_def keeps_def)
    with c(1) s(1,3) show "\<exists>f ns'. sequence cs ns = Some (Inr (f, ns')) \<and> extends ns ns' \<and> frag_ok ns' (length ns) f (foldr lconc Ls {[]})"
      by (simp add: sequence_def Cons Ls(1) nx_bind_Inr foldl_lconc)
  qed
qed

section \<open>Repetition\<close>

lemma star_paths:
  assumes "path ns S p w t" "S = insert n (insert m B)" "ns ! n = Split s m" "ns ! m = Split t t" "s \<in> B"
    "closed ns B {n}" "n \<notin> B" "m \<notin> B" "n \<noteq> m" "t \<notin> S" "\<And>u. path ns B s u n \<Longrightarrow> u \<in> L"
  shows "(p = n \<longrightarrow> w \<in> lstar L) \<and> (p = m \<longrightarrow> w = []) \<and> (p \<in> B \<longrightarrow> (\<exists>u v. w = u @ v \<and> path ns B p u n \<and> v \<in> lstar L))"
  using assms
proof (induction rule: path.induct)
  case (path_Nil p)
  then show ?case by auto
next
  case (path_Split p out out1 r w q)
  have IH: "(r = n \<longrightarrow> w \<in> lstar L) \<and> (r = m \<longrightarrow> w = []) \<and> (r \<in> B \<longrightarrow> (\<exists>u v. w = u @ v \<and> path ns B r u n \<and> v \<in> lstar L))"
    by (rule path_Split.IH) (fact path_Split.prems)+
  have "w \<in> lstar L" if "p = n"
  proof -
    have "r = s \<or> r = m" using path_Split.hyps(2,3) path_Split.prems(2) that by auto
    then show ?thesis using IH path_Split.prems(4,10) lstar_Nil lstar_step by blast
  qed
  moreover have "w = []" if "p = m"
  proof -
    have "r = q" using path_Split.hyps(2,3) path_Split.prems(3) that by auto
    then show ?thesis using path_outside [OF path_Split.hyps(4)] path_Split.prems(9) by simp
  qed
  moreover have "\<exists>u v. w = u @ v \<and> path ns B p u n \<and> v \<in> lstar L" if "p \<in> B"
  proof -
    have "r \<in> B \<or> r = n" using path_Split.hyps(2,3) path_Split.prems(5) that by (auto simp: closed_def)
    moreover have "path ns B p u n" if "path ns B r u n" for u
      using path.path_Split [OF \<open>p \<in> B\<close> path_Split.hyps(2,3) that] .
    ultimately show ?thesis using IH path_Nil [of ns B n] by (metis append_Nil)
  qed
  ultimately show ?case by blast
next
  case (path_Read p c out b w q)
  have IH: "(out = n \<longrightarrow> w \<in> lstar L) \<and> (out = m \<longrightarrow> w = []) \<and> (out \<in> B \<longrightarrow> (\<exists>u v. w = u @ v \<and> path ns B out u n \<and> v \<in> lstar L))"
    by (rule path_Read.IH) (fact path_Read.prems)+
  have "p \<noteq> n" "p \<noteq> m" using path_Read.hyps(2) path_Read.prems(2,3) by auto
  moreover have "\<exists>u v. b # w = u @ v \<and> path ns B p u n \<and> v \<in> lstar L" if "p \<in> B"
  proof -
    have "out \<in> B \<or> out = n" using path_Read.hyps(2) path_Read.prems(5) that by (auto simp: closed_def)
    moreover have "path ns B p (b # u) n" if "path ns B out u n" for u
      using path.path_Read [OF \<open>p \<in> B\<close> path_Read.hyps(2,3) that] .
    ultimately show ?thesis using IH path_Nil [of ns B n] by (metis append_Cons append_Nil)
  qed
  ultimately show ?case by blast
qed

lemma set_split_nth:
  "i < length ns \<Longrightarrow> is_split (ns ! i) \<Longrightarrow> set_split i a b ns = ns[i := Split a b]"
  by (auto simp: set_split_def is_split_def)

lemma makes_star:
  assumes "makes atom L"
  shows "makes (compile_star atom) (lstar L)"
  unfolding makes_def
proof
  fix ns :: nfa
  let ?n = "length ns" and ?ns1 = "ns @ [Split 0 0]"
  from assms obtain body ns2 where body: "atom ?ns1 = Some (Inr (body, ns2))" "extends ?ns1 ns2" "frag_ok ns2 (length ?ns1) body L" by (rule makesE)
  let ?m = "length ns2" and ?B = "seg ns2 (Suc ?n)" and ?s = "fr_start body"
  let ?ns3 = "(ns2 @ [Split 0 0])[?n := Split ?s ?m]"
  let ?ns = "patch ?ns3 (fr_outs body) ?n" and ?f = "\<lparr>fr_start = ?n, fr_outs = [out_addr ?m 0, out_addr ?m 1]\<rparr>"
  have len: "Suc ?n \<le> ?m" and at1: "ns2 ! ?n = Split 0 0" and pre: "\<And>p. p < ?n \<Longrightarrow> ns2 ! p = ns ! p"
    using body(2) by (auto simp: extends_def nth_append split: if_splits)
  have run: "compile_star atom ns = Some (Inr (?f, ?ns))"
    using body(1) len at1
    by (simp add: compile_star_def nx_bind_add nx_bind_Inr nx_bind_modify set_split_nth nth_append is_split_def nx_return_def)
  have ok: "frag_ok ns2 (Suc ?n) body L" using body(3) by simp
  have s: "?s \<in> ?B" using ok by (simp add: frag_ok_def)
  have o: "outs_ok ns2 (Suc ?n) (fr_outs body)" using ok by (rule frag_outs)
  have sp: "splits_at ?ns3 (fr_outs body)"
    using o len by (auto simp: outs_ok_def splits_at_def nth_append nth_list_update)
  have far: "\<forall>a \<in> set (fr_outs body). state_of a < ?m" "\<forall>a \<in> set (fr_outs body). Suc ?n \<le> state_of a"
    using o by (simp_all add: outs_ok_def splits_at_def)
  have nsB: "?ns ! p = retarget (fr_outs body) ?n p (ns2 ! p)" if "Suc ?n \<le> p" "p < ?m" for p
    using that by (simp add: nth_patch [OF sp] nth_append)
  have nsn: "?ns ! ?n = Split ?s ?m" using len by (simp add: nth_patch [OF sp] retarget_below [OF far(2)] del: retarget.simps)
  have nsm: "?ns ! ?m = Split 0 0" using len by (simp add: nth_patch [OF sp] nth_append retarget_above [OF far(1)] del: retarget.simps)
  have ext: "extends ns ?ns"
    using len pre retarget_below [OF far(2)] by (auto simp: extends_def nth_patch [OF sp] nth_append)
  have S: "seg ?ns ?n = insert ?n (insert ?m ?B)" using len by (auto simp: seg_def)
  have nB: "?n \<notin> ?B" "?m \<notin> ?B" "?n \<noteq> ?m" using len by (auto simp: seg_def)
  have outs: "outs_ok ?ns ?n (fr_outs ?f)" using nsm len by (auto simp: outs_ok_def splits_at_def is_split_def)
  have inn: "inner (seg ?ns ?n) (fr_outs ?f) p (?ns ! p)" if "p \<in> seg ?ns ?n" for p
  proof -
    have "inner ?B (fr_outs body) p (ns2 ! p)" if "p \<in> ?B" using that ok by (simp add: frag_ok_def)
    then have "inner (seg ?ns ?n) (fr_outs ?f) p (?ns ! p)" if "p \<in> ?B"
      using that nsB [of p] inner_retarget [of ?B "fr_outs body" p "ns2 ! p" "seg ?ns ?n" ?n "fr_outs ?f"] by (auto simp: S seg_def [of ns2])
    then show ?thesis using that s nsn nsm by (auto simp: S)
  qed
  have lang: "path ns' (seg ?ns ?n) ?n w t \<longleftrightarrow> w \<in> lstar L"
    if pt: "patched ?ns ns' ?n (fr_outs ?f) t" and t: "t \<notin> seg ?ns ?n" for ns' t w
  proof -
    have at: "ns' ! p = retarget (fr_outs ?f) t p (?ns ! p)" if "p \<in> seg ?ns ?n" for p using pt that by (simp add: patched_def)
    have other: "retarget (fr_outs ?f) t p st = st" if "p \<noteq> ?m" for p st using that by (intro retarget_other) simp
    have n': "ns' ! ?n = Split ?s ?m" using at [of ?n] nsn other [OF nB(3)] by (simp add: S del: retarget.simps)
    have m': "ns' ! ?m = Split t t" using at [of ?m] nsm by (simp add: S)
    have "ns' ! p = retarget (fr_outs body) ?n p (ns2 ! p)" if "p \<in> ?B" for p
      using at [of p] nsB [of p] that nB(2) other [of p] by (auto simp: S seg_def [of ns2])
    then have pb: "patched ns2 ns' (Suc ?n) (fr_outs body) ?n" by (simp add: patched_def)
    note body_lang = frag_path [OF ok pb nB(1)]
    show ?thesis
    proof
      assume "path ns' (seg ?ns ?n) ?n w t"
      from star_paths [OF this S n' m' s frag_closed [OF ok pb] nB t] body_lang show "w \<in> lstar L" by blast
    next
      assume "w \<in> lstar L"
      then show "path ns' (seg ?ns ?n) ?n w t"
      proof (induction rule: lstar.induct)
        case lstar_Nil
        have "path ns' (seg ?ns ?n) ?m [] t" using path_Split [OF _ m'] path_Nil S by blast
        then show ?case using path_Split [OF _ n'] S by blast
      next
        case (lstar_step u v)
        have "path ns' (seg ?ns ?n) ?s u ?n" using body_lang lstar_step.hyps(1) path_mono S by blast
        then have "path ns' (seg ?ns ?n) ?n u ?n" using path_Split [OF _ n'] S by blast
        then show ?case using lstar_step.IH by (rule path_trans)
      qed
    qed
  qed
  have "frag_ok ?ns ?n ?f (lstar L)"
    unfolding frag_ok_def using outs inn lang S by auto
  with run ext show "\<exists>f ns'. compile_star atom ns = Some (Inr (f, ns')) \<and> extends ns ns' \<and> frag_ok ns' ?n f (lstar L)" by blast
qed

lemma makes_plus:
  assumes "makes atom L"
  shows "makes (compile_plus atom) (lconc L (lstar L))"
proof -
  have upd: "f\<lparr>fr_outs := x\<rparr> = \<lparr>fr_start = fr_start f, fr_outs = x\<rparr>" for f :: frag and x by (cases f) simp
  have "seq_loop [compile_star atom] = (\<lambda>first. nx_bind (compile_star atom) (\<lambda>rest.
      nx_bind (modify (\<lambda>ns. patch ns (fr_outs first) (fr_start rest))) (\<lambda>_. nx_return \<lparr>fr_start = fr_start first, fr_outs = fr_outs rest\<rparr>)))"
    by (rule ext) (simp add: upd)
  then have "compile_plus atom = sequence [atom, compile_star atom]" by (simp add: compile_plus_def sequence_def)
  then show ?thesis using makes_sequence [of "[atom, compile_star atom]" "[L, lstar L]"] assms makes_star [OF assms] by simp
qed

lemma makes_question:
  assumes "makes atom L"
  shows "makes (compile_question atom) (insert [] L)"
  unfolding makes_def
proof
  fix ns :: nfa
  let ?n = "length ns" and ?ns1 = "ns @ [Split 0 0]"
  from assms obtain body ns2 where body: "atom ?ns1 = Some (Inr (body, ns2))" "extends ?ns1 ns2" "frag_ok ns2 (length ?ns1) body L" by (rule makesE)
  let ?m = "length ns2" and ?B = "seg ns2 (Suc ?n)" and ?s = "fr_start body"
  let ?ns = "ns2[?n := Split ?s 0]" and ?f = "\<lparr>fr_start = ?n, fr_outs = fr_outs body @ [out_addr ?n 1]\<rparr>"
  have len: "Suc ?n \<le> ?m" and at1: "ns2 ! ?n = Split 0 0" and pre: "\<And>p. p < ?n \<Longrightarrow> ns2 ! p = ns ! p"
    using body(2) by (auto simp: extends_def nth_append split: if_splits)
  have run: "compile_question atom ns = Some (Inr (?f, ?ns))"
    using body(1) len at1 by (simp add: compile_question_def nx_bind_add nx_bind_Inr nx_bind_modify set_out_def nx_return_def)
  have ok: "frag_ok ns2 (Suc ?n) body L" using body(3) by simp
  have s: "?s \<in> ?B" using ok by (simp add: frag_ok_def)
  have o: "outs_ok ns2 (Suc ?n) (fr_outs body)" using ok by (rule frag_outs)
  have far: "\<forall>a \<in> set (fr_outs body). Suc ?n \<le> state_of a" using o by (simp add: outs_ok_def)
  have ext: "extends ns ?ns" using len pre by (auto simp: extends_def)
  have S: "seg ?ns ?n = insert ?n ?B" using len by (auto simp: seg_def)
  have nB: "?n \<notin> ?B" by (simp add: seg_def)
  have outs: "outs_ok ?ns ?n (fr_outs ?f)"
    using o len by (auto simp: outs_ok_def splits_at_def is_split_def nth_list_update)
  have inn: "inner (seg ?ns ?n) (fr_outs ?f) p (?ns ! p)" if "p \<in> seg ?ns ?n" for p
  proof (cases "p = ?n")
    case False
    then have "p \<in> ?B" using that S by simp
    then have "inner ?B (fr_outs body) p (ns2 ! p)" using ok by (simp add: frag_ok_def)
    then show ?thesis using False S inner_mono [of ?B "fr_outs body" p "ns2 ! p" "seg ?ns ?n" "fr_outs ?f"] by auto
  qed (use len s S in auto)
  have lang: "path ns' (seg ?ns ?n) ?n w t \<longleftrightarrow> w \<in> insert [] L"
    if pt: "patched ?ns ns' ?n (fr_outs ?f) t" and t: "t \<notin> seg ?ns ?n" for ns' t w
  proof -
    have at: "ns' ! p = retarget (fr_outs ?f) t p (?ns ! p)" if "p \<in> seg ?ns ?n" for p using pt that by (simp add: patched_def)
    have no: "out_addr ?n 0 \<notin> set (fr_outs ?f)"
      using far addr_of(1) [of 0 ?n] addr_eq_iff [of 1 "out_addr ?n 0" ?n] by force
    have n': "ns' ! ?n = Split ?s t" using at [of ?n] len no by (simp add: S)
    have "ns' ! p = retarget (fr_outs body) t p (ns2 ! p)" if "p \<in> ?B" for p
    proof -
      have "p \<noteq> ?n" using that nB by blast
      then have "out_addr p 0 \<noteq> out_addr ?n 1" "out_addr p 1 \<noteq> out_addr ?n 1" by (simp_all add: out_addr_def)
      then have "retarget (fr_outs ?f) t p st = retarget (fr_outs body) t p st" for st by (cases st) auto
      then show ?thesis using at [of p] that \<open>p \<noteq> ?n\<close> by (simp add: S)
    qed
    then have pb: "patched ns2 ns' (Suc ?n) (fr_outs body) t" by (simp add: patched_def)
    have tB: "t \<notin> ?B" using t S by blast
    have "path ns' (seg ?ns ?n) ?s w t \<longleftrightarrow> w \<in> L"
      using path_confine [OF _ s frag_closed [OF ok pb] tB t] path_mono [of ns' ?B ?s w t "seg ?ns ?n"] frag_path [OF ok pb tB] S by blast
    then show ?thesis using path_Split_iff [OF _ n', of "seg ?ns ?n" t w] t S path_exit_iff [OF t] by auto
  qed
  have "frag_ok ?ns ?n ?f (insert [] L)"
    unfolding frag_ok_def using outs inn lang S by auto
  with run ext show "\<exists>f ns'. compile_question atom ns = Some (Inr (f, ns')) \<and> extends ns ns' \<and> frag_ok ns' ?n f (insert [] L)" by blast
qed

end
