(* ===== verification/Negex_Build.thy ===== *)
theory Negex_Build
  imports Negex_Nfa_Props
begin

text \<open>
  The alternation, the exact repetition and the whole tree: \<open>build\<close>
  (\<open>crates/negex-codegen/src/nfa.rs\<close>) gives an automaton for the language of its regular expression.
\<close>

section \<open>Alternation\<close>

text \<open>Fragments one behind the other, each where its compiler left it.\<close>

fun frags_at :: "nfa \<Rightarrow> nat \<Rightarrow> frag list \<Rightarrow> lang list \<Rightarrow> bool" where
  "frags_at ns lo [] [] \<longleftrightarrow> lo = length ns"
| "frags_at ns lo (f # fs) (L # Ls) \<longleftrightarrow> (\<exists>mid \<le> length ns. lo \<le> mid \<and> frag_ok (take mid ns) lo f L \<and> frags_at ns mid fs Ls)"
| "frags_at ns lo fs Ls \<longleftrightarrow> False"

lemma extends_take: "extends ns ns' \<Longrightarrow> take (length ns) ns' = ns"
  by (auto simp: extends_def list_eq_iff_nth_eq)

lemma nx_each_ok:
  assumes "list_all2 makes cs Ls"
  shows "\<exists>fs ns'. nx_each cs ns = Some (Inr (fs, ns')) \<and> extends ns ns' \<and> frags_at ns' (length ns) fs Ls \<and> length fs = length cs"
  using assms
proof (induction cs Ls arbitrary: ns rule: list_all2_induct)
  case Nil
  then show ?case by (simp add: nx_return_def extends_def)
next
  case (Cons c cs L Ls)
  from Cons.hyps(1) obtain f ns1 where c: "c ns = Some (Inr (f, ns1))" "extends ns ns1" "frag_ok ns1 (length ns) f L" by (rule makesE)
  from Cons.IH [of ns1] obtain fs ns2 where
    cs: "nx_each cs ns1 = Some (Inr (fs, ns2))" "extends ns1 ns2" "frags_at ns2 (length ns1) fs Ls" "length fs = length cs" by blast
  have "frags_at ns2 (length ns) (f # fs) (L # Ls)"
    using c(2,3) cs(2,3) extends_take [OF cs(2)] by (auto simp: extends_def intro!: exI [of _ "length ns1"])
  moreover have "nx_each (c # cs) ns = Some (Inr (f # fs, ns2))" using c(1) cs(1) by (simp add: nx_bind_Inr nx_return_def)
  ultimately show ?case using extends_trans [OF c(2) cs(2)] cs(4) by auto
qed

definition all_outs :: "frag list \<Rightarrow> usize list" where
  "all_outs fs = concat (map fr_outs fs)"

lemma frags_lower: "frags_at ns lo fs Ls \<Longrightarrow> a \<in> set (all_outs fs) \<Longrightarrow> lo \<le> state_of a \<and> state_of a < length ns \<and> is_split (ns ! state_of a)"
proof (induction ns lo fs Ls rule: frags_at.induct)
  case (2 ns lo f fs L Ls)
  then obtain mid where mid: "mid \<le> length ns" "lo \<le> mid" "frag_ok (take mid ns) lo f L" "frags_at ns mid fs Ls" by auto
  show ?case
  proof (cases "a \<in> set (fr_outs f)")
    case True
    then show ?thesis using frag_outs [OF mid(3)] mid(1) by (auto simp: outs_ok_def splits_at_def)
  next
    case False
    then have "a \<in> set (all_outs fs)" using 2(3) by (simp add: all_outs_def)
    then show ?thesis using 2(1) [of mid] mid by auto
  qed
qed (simp_all add: all_outs_def)

lemma frags_inner:
  "frags_at ns lo fs Ls \<Longrightarrow> lo \<le> p \<Longrightarrow> p < length ns \<Longrightarrow> inner (seg ns lo) (all_outs fs) p (ns ! p)"
proof (induction ns lo fs Ls rule: frags_at.induct)
  case (2 ns lo f fs L Ls)
  then obtain mid where mid: "mid \<le> length ns" "lo \<le> mid" "frag_ok (take mid ns) lo f L" "frags_at ns mid fs Ls" by auto
  have sub: "seg (take mid ns) lo \<subseteq> seg ns lo" "seg ns mid \<subseteq> seg ns lo" using mid(1,2) by (auto simp: seg_def)
  show ?case
  proof (cases "p < mid")
    case True
    then have "inner (seg (take mid ns) lo) (fr_outs f) p (take mid ns ! p)" using mid(1,3) 2(3) by (simp add: frag_ok_def seg_def)
    then show ?thesis using True sub(1) by (auto simp: all_outs_def intro: inner_mono)
  next
    case False
    then have "inner (seg ns mid) (all_outs fs) p (ns ! p)" using 2(1) [of mid] mid 2(4) by auto
    then show ?thesis using sub(2) by (auto simp: all_outs_def intro: inner_mono)
  qed
qed simp_all

lemma frags_start: "frags_at ns lo fs Ls \<Longrightarrow> i < length fs \<Longrightarrow> lo \<le> fr_start (fs ! i) \<and> fr_start (fs ! i) < length ns"
proof (induction ns lo fs Ls arbitrary: i rule: frags_at.induct)
  case (2 ns lo f fs L Ls)
  then obtain mid where mid: "mid \<le> length ns" "lo \<le> mid" "frag_ok (take mid ns) lo f L" "frags_at ns mid fs Ls" by auto
  show ?case
  proof (cases i)
    case 0
    then show ?thesis using frag_start [OF mid(3)] mid(1) by simp
  next
    case (Suc j)
    then have "mid \<le> fr_start (fs ! j) \<and> fr_start (fs ! j) < length ns" using 2(1) [of mid j] mid 2(3) by auto
    then show ?thesis using Suc mid(2) by simp
  qed
qed simp_all

lemma frags_path:
  assumes "frags_at ns lo fs Ls" "i < length fs" "seg ns lo \<subseteq> S" "t \<notin> S"
    "\<And>p. lo \<le> p \<Longrightarrow> p < length ns \<Longrightarrow> ns' ! p = retarget (all_outs fs) t p (ns ! p)"
  shows "path ns' S (fr_start (fs ! i)) w t \<longleftrightarrow> w \<in> Ls ! i"
  using assms
proof (induction ns lo fs Ls arbitrary: i rule: frags_at.induct)
  case (2 ns lo f fs L Ls)
  then obtain mid where mid: "mid \<le> length ns" "lo \<le> mid" "frag_ok (take mid ns) lo f L" "frags_at ns mid fs Ls" by auto
  have head: "\<forall>a \<in> set (fr_outs f). state_of a < mid" using frag_outs [OF mid(3)] mid(1) by (auto simp: outs_ok_def splits_at_def)
  have tail: "\<forall>a \<in> set (all_outs fs). mid \<le> state_of a" using frags_lower [OF mid(4)] by blast
  show ?case
  proof (cases i)
    case 0
    let ?A = "seg (take mid ns) lo"
    have "ns' ! p = retarget (fr_outs f) t p (take mid ns ! p)" if "lo \<le> p" "p < mid" for p
    proof -
      have "out_addr p k \<notin> set (all_outs fs)" if "k < 2" for k using tail \<open>p < mid\<close> that by fastforce
      then have "retarget (all_outs (f # fs)) t p st = retarget (fr_outs f) t p st" for st by (cases st) (simp_all add: all_outs_def)
      then show ?thesis using 2(6) [of p] that mid(1) by simp
    qed
    then have pt: "patched (take mid ns) ns' lo (fr_outs f) t" using mid(1) by (simp add: patched_extends)
    have A1: "?A \<subseteq> S" using 2(4) mid(1) by (auto simp: seg_def)
    then have A: "?A \<subseteq> S" "t \<notin> ?A" "fr_start f \<in> ?A" using 2(5) mid(3) by (auto simp: frag_ok_def)
    have "path ns' S (fr_start f) w t \<longleftrightarrow> path ns' ?A (fr_start f) w t"
      using path_confine [OF _ A(3) frag_closed [OF mid(3) pt] A(2) 2(5)] path_mono [OF _ A(1)] by blast
    then show ?thesis using 0 frag_path [OF mid(3) pt A(2)] by simp
  next
    case (Suc j)
    have "ns' ! p = retarget (all_outs fs) t p (ns ! p)" if "mid \<le> p" "p < length ns" for p
    proof -
      have "out_addr p k \<notin> set (fr_outs f)" if "k < 2" for k using head \<open>mid \<le> p\<close> that by fastforce
      then have "retarget (all_outs (f # fs)) t p st = retarget (all_outs fs) t p st" for st by (cases st) (simp_all add: all_outs_def)
      then show ?thesis using 2(6) [of p] that mid(2) by simp
    qed
    moreover have "seg ns mid \<subseteq> S" using 2(4) mid(2) by (auto simp: seg_def)
    ultimately have "path ns' S (fr_start (fs ! j)) w t \<longleftrightarrow> w \<in> Ls ! j"
      using 2(1) [of mid j] mid 2(3,5) Suc by auto
    then show ?thesis using Suc by simp
  qed
qed simp_all

text \<open>The chain of splits.\<close>

definition split_target :: "nat \<Rightarrow> nat \<Rightarrow> frag list \<Rightarrow> nat \<Rightarrow> nfa_state" where
  "split_target n k fs i = Split (fr_start (fs ! i)) (if i + 1 < k then n + i + 1 else fr_start (fs ! (i + 1)))"

lemma link_splits_eq:
  "link_splits [n..<n + k] fs (ns @ replicate k (Split 0 0)) = ns @ map (split_target n k fs) [0..<k]" if "n = length ns"
proof -
  let ?step = "\<lambda>i. set_split ([n..<n + k] ! i) (fr_start (fs ! i))
    (if i + 1 < length [n..<n + k] then [n..<n + k] ! (i + 1) else fr_start (fs ! (i + 1)))"
  have "fold ?step [0..<j] (ns @ replicate k (Split 0 0)) = ns @ map (split_target n k fs) [0..<j] @ replicate (k - j) (Split 0 0)"
    if "j \<le> k" for j
    using that
  proof (induction j)
    case (Suc j)
    let ?ns = "ns @ map (split_target n k fs) [0..<j] @ replicate (k - j) (Split 0 0)"
    have rep: "replicate (k - j) (Split 0 0) = Split 0 0 # replicate (k - Suc j) (Split 0 0)"
      using Suc.prems by (metis Suc_diff_le diff_Suc_Suc replicate_Suc)
    have at: "?ns ! (n + j) = Split 0 0" "n + j < length ?ns" using Suc.prems that \<open>n = length ns\<close> by (simp_all add: nth_append rep)
    have "?step j ?ns = ?ns[n + j := split_target n k fs j]"
      using Suc.prems at by (simp add: set_split_nth is_split_def split_target_def)
    also have "\<dots> = ns @ map (split_target n k fs) [0..<Suc j] @ replicate (k - Suc j) (Split 0 0)"
      using \<open>n = length ns\<close> by (simp add: rep list_update_append)
    finally show ?case using Suc by simp
  qed simp
  from this [of k] show ?thesis by (simp add: link_splits_def)
qed

lemma makes_alternation:
  assumes "list_all2 makes cs Ls" "2 \<le> length cs"
  shows "makes (nx_bind (nx_each cs) alternation) (\<Union>(set Ls))"
  unfolding makes_def
proof
  fix ns :: nfa
  from nx_each_ok [OF assms(1)] obtain fs ns1 where
    1: "nx_each cs ns = Some (Inr (fs, ns1))" "extends ns ns1" "frags_at ns1 (length ns) fs Ls" "length fs = length cs" by blast
  let ?lo = "length ns" and ?n = "length ns1" let ?k = "length fs - 1"
  let ?ns = "ns1 @ map (split_target ?n ?k fs) [0..<?k]" and ?f = "\<lparr>fr_start = ?n, fr_outs = all_outs fs\<rparr>"
  have k: "0 < ?k" "2 \<le> length fs" using assms(2) 1(4) by auto
  have lo: "?lo \<le> ?n" using 1(2) by (simp add: extends_def)
  have run: "nx_bind (nx_each cs) alternation ns = Some (Inr (?f, ?ns))"
    using 1(1) k by (simp add: nx_bind_Inr alternation_def Let_def link_splits_eq all_outs_def)
  have ext: "extends ns ?ns" by (rule extends_trans [OF 1(2) extends_append])
  have S: "seg ?ns ?lo = {?lo..<?n + ?k}" by (simp add: seg_def)
  have at: "?ns ! (?n + i) = split_target ?n ?k fs i" if "i < ?k" for i using that by (simp add: nth_append)
  have old: "?ns ! p = ns1 ! p" if "p < ?n" for p using that by (simp add: nth_append)
  have st: "?lo \<le> fr_start (fs ! i)" "fr_start (fs ! i) < ?n" if "i \<le> ?k" for i
    using frags_start [OF 1(3), of i] that k by auto
  have outs: "outs_ok ?ns ?lo (all_outs fs)"
    using frags_lower [OF 1(3)] by (fastforce simp: outs_ok_def splits_at_def nth_append)
  have inn: "inner (seg ?ns ?lo) (all_outs fs) p (?ns ! p)" if p: "p \<in> seg ?ns ?lo" for p
  proof (cases "p < ?n")
    case True
    have "?lo \<le> p" using p by (simp add: seg_def)
    then have "inner (seg ns1 ?lo) (all_outs fs) p (ns1 ! p)" using frags_inner [OF 1(3)] True by blast
    moreover have "seg ns1 ?lo \<subseteq> seg ?ns ?lo" by (auto simp: seg_def)
    ultimately show ?thesis using old [OF True] by (auto intro: inner_mono)
  next
    case False
    define i where "i = p - ?n"
    have i: "p = ?n + i" "i < ?k" using p False unfolding S i_def by (simp, simp, arith)
    show ?thesis unfolding i(1) at [OF i(2)] S using st [of i] st [of "i + 1"] i(2) lo by (auto simp: split_target_def)
  qed
  have lang: "path ns' (seg ?ns ?lo) ?n w t \<longleftrightarrow> w \<in> \<Union>(set Ls)"
    if pt: "patched ?ns ns' ?lo (all_outs fs) t" and t: "t \<notin> seg ?ns ?lo" for ns' t w
  proof -
    have "ns' ! p = retarget (all_outs fs) t p (?ns ! p)" if "?lo \<le> p" "p < ?n + ?k" for p
      using pt that by (simp add: patched_extends)
    then have new: "ns' ! p = retarget (all_outs fs) t p (ns1 ! p)" if "?lo \<le> p" "p < ?n" for p using that old by simp
    have far: "\<forall>a \<in> set (all_outs fs). state_of a < ?n" using frags_lower [OF 1(3)] by blast
    have sp: "ns' ! (?n + i) = split_target ?n ?k fs i" if "i < ?k" for i
    proof -
      have "ns' ! (?n + i) = retarget (all_outs fs) t (?n + i) (?ns ! (?n + i))" using pt that lo by (simp add: patched_extends)
      then show ?thesis using retarget_above [OF far, of "?n + i"] at [OF that] by simp
    qed
    have sub: "seg ns1 ?lo \<subseteq> seg ?ns ?lo" by (auto simp: seg_def)
    have frag: "path ns' (seg ?ns ?lo) (fr_start (fs ! i)) w t \<longleftrightarrow> w \<in> Ls ! i" if "i \<le> ?k" for i
      by (rule frags_path [OF 1(3) _ sub t new]) (use that k in auto)
    have chain: "path ns' (seg ?ns ?lo) (?n + i) w t \<longleftrightarrow> (\<exists>j. i \<le> j \<and> j \<le> ?k \<and> w \<in> Ls ! j)" if "i < ?k" for i
      using that
    proof (induction "?k - i" arbitrary: i rule: less_induct)
      case less
      have mem: "?n + i \<in> seg ?ns ?lo" "?n + i \<noteq> t" using less.prems lo t unfolding S by auto
      note step = path_Split_iff [OF mem(1) sp [OF less.prems, unfolded split_target_def] mem(2), of w]
      have rest: "path ns' (seg ?ns ?lo) (if i + 1 < ?k then ?n + i + 1 else fr_start (fs ! (i + 1))) w t \<longleftrightarrow>
          (\<exists>j. i + 1 \<le> j \<and> j \<le> ?k \<and> w \<in> Ls ! j)"
      proof (cases "i + 1 < ?k")
        case True
        then show ?thesis using less.hyps [of "i + 1"] less.prems by (simp add: add.assoc)
      next
        case False
        then have "i + 1 = ?k" using less.prems by simp
        then show ?thesis using frag [of "i + 1"] by (auto simp: le_Suc_eq dest: le_antisym)
      qed
      have "(\<exists>j. i \<le> j \<and> j \<le> ?k \<and> w \<in> Ls ! j) \<longleftrightarrow> w \<in> Ls ! i \<or> (\<exists>j. i + 1 \<le> j \<and> j \<le> ?k \<and> w \<in> Ls ! j)"
        using less.prems by (metis Suc_eq_plus1 Suc_leI Suc_leD le_eq_less_or_eq)
      then show ?case using step rest frag [of i] less.prems by simp
    qed
    have "length Ls = Suc ?k" using assms(1) 1(4) k list_all2_lengthD by fastforce
    then have "w \<in> \<Union>(set Ls) \<longleftrightarrow> (\<exists>j \<le> ?k. w \<in> Ls ! j)" by (metis Union_iff in_set_conv_nth less_Suc_eq_le)
    then show ?thesis using chain [OF k(1)] by simp
  qed
  have "?n \<in> seg ?ns ?lo" unfolding S using k lo by simp
  then have "frag_ok ?ns ?lo ?f (\<Union>(set Ls))" unfolding frag_ok_def using outs inn lang by auto
  with run ext show "\<exists>f ns'. nx_bind (nx_each cs) alternation ns = Some (Inr (f, ns')) \<and> extends ns ns' \<and> frag_ok ns' ?lo f (\<Union>(set Ls))" by blast
qed

section \<open>Exact repetition\<close>

lemma range_required_Some:
  "range_required atom n (Some f) = nx_bind (seq_loop (replicate n atom) f) (\<lambda>f. nx_return (Some f))"
  by (induction n arbitrary: f) (simp_all add: nx_bind_assoc)

lemma foldr_replicate_lconc: "foldr lconc (replicate n L) {[]} = lpow n L"
  by (induction n) simp_all

lemma makes_exact:
  assumes "makes atom L" "1 \<le> unat n" "n \<le> max_range_expansion"
  shows "makes (compile_range atom n (Some n)) (lpow (unat n) L)"
proof -
  obtain k where k: "unat n = Suc k" using assms(2) by (cases "unat n") auto
  have "compile_range atom n (Some n) = sequence (replicate (Suc k) atom)"
    using leD [OF assms(3)] by (simp add: compile_range_def k range_required_Some nx_bind_assoc sequence_def)
  moreover have "list_all2 makes (replicate (Suc k) atom) (replicate (Suc k) L)"
    using assms(1) by (simp add: list_all2_conv_all_nth del: replicate_Suc)
  ultimately show ?thesis using makes_sequence foldr_replicate_lconc k by metis
qed

section \<open>Open repetition\<close>

text \<open>
  The copies of an open count are made by \<open>range_optional\<close>, which is a chain of stars as long as the
  fragment does not start with a split.
\<close>

definition reads_at :: "nfa \<Rightarrow> nat \<Rightarrow> bool" where
  "reads_at ns i \<longleftrightarrow> i < length ns \<and> (\<exists>c out. ns ! i = Read c out)"

definition starts_read :: "frag compiler \<Rightarrow> bool" where
  "starts_read c \<longleftrightarrow> (\<forall>ns f ns'. c ns = Some (Inr (f, ns')) \<longrightarrow> reads_at ns' (fr_start f))"

lemma reads_extends: "extends ns ns' \<Longrightarrow> reads_at ns i \<Longrightarrow> reads_at ns' i"
  by (auto simp: extends_def reads_at_def)

lemma reads_patch [simp]: "reads_at (patch ns outs t) i \<longleftrightarrow> reads_at ns i"
proof -
  have "reads_at (patch_one t a ns) i \<longleftrightarrow> reads_at ns i" for a ns
    by (cases "ns ! i") (auto simp: patch_one_def reads_at_def nth_list_update split: nfa_state.splits)
  then show ?thesis unfolding patch_def by (induction outs arbitrary: ns) simp_all
qed

lemma set_out_reads: "reads_at ns i \<Longrightarrow> set_out i t ns = ns"
  by (auto simp: reads_at_def set_out_def)

lemma seq_loop_reads:
  "list_all (\<lambda>c. \<exists>L. makes c L) cs \<Longrightarrow> reads_at ns (fr_start f) \<Longrightarrow>
   \<exists>f' ns'. seq_loop cs f ns = Some (Inr (f', ns')) \<and> reads_at ns' (fr_start f')"
proof (induction cs arbitrary: f ns)
  case (Cons c cs)
  then obtain L where "makes c L" by auto
  then obtain g ns1 where c: "c ns = Some (Inr (g, ns1))" "extends ns ns1" by (rule makesE)
  have "reads_at (patch ns1 (fr_outs f) (fr_start g)) (fr_start (f\<lparr>fr_outs := fr_outs g\<rparr>))"
    using reads_extends [OF c(2) Cons.prems(2)] by simp
  from Cons.IH [OF _ this] Cons.prems(1) c(1) show ?case by (auto simp: nx_bind_Inr nx_bind_modify)
qed (simp add: nx_return_def)

lemma seq_loop_append: "seq_loop (xs @ ys) f = nx_bind (seq_loop xs f) (seq_loop ys)"
  by (induction xs arbitrary: f) (simp_all add: nx_bind_assoc)

lemma optional_stars:
  assumes atom: "makes atom L"
  shows "reads_at ns (fr_start f) \<Longrightarrow> range_optional atom k f ns = seq_loop (replicate k (compile_star atom)) f ns"
proof (induction k arbitrary: f ns)
  case (Suc k)
  let ?ns1 = "ns @ [Split 0 0]" and ?s = "length ns"
  from atom obtain body ns2 where b: "atom ?ns1 = Some (Inr (body, ns2))" "extends ?ns1 ns2" by (rule makesE)
  let ?skip = "length ns2"
  let ?ns3 = "patch (set_split ?s (fr_start body) ?skip (ns2 @ [Split 0 0])) (fr_outs body) ?s"
  let ?g = "\<lparr>fr_start = ?s, fr_outs = [out_addr ?skip 0, out_addr ?skip 1]\<rparr>"
  let ?f = "f\<lparr>fr_outs := [out_addr ?skip 0, out_addr ?skip 1]\<rparr>" and ?ns4 = "patch ?ns3 (fr_outs f) ?s"
  have star: "compile_star atom ns = Some (Inr (?g, ?ns3))"
    using b(1) by (simp add: compile_star_def nx_bind_add nx_bind_Inr nx_bind_modify nx_return_def)
  from makes_star [OF atom] obtain g ns3 where "compile_star atom ns = Some (Inr (g, ns3))" "extends ns ns3" by (rule makesE)
  with star have "extends ns ?ns3" by simp
  then have "reads_at ?ns3 (fr_start f)" by (rule reads_extends [OF _ Suc.prems])
  then have reads: "reads_at ?ns4 (fr_start f)" by (simp only: reads_patch)
  then have "range_optional atom (Suc k) f ns = range_optional atom k ?f ?ns4"
    using b(1) by (simp add: nx_bind_add nx_bind_Inr nx_bind_modify set_out_reads)
  also have "\<dots> = seq_loop (replicate k (compile_star atom)) ?f ?ns4" by (rule Suc.IH) (use reads in simp)
  also have "\<dots> = seq_loop (replicate (Suc k) (compile_star atom)) f ns"
    using star by (simp add: nx_bind_Inr nx_bind_modify)
  finally show ?case .
qed simp

lemma stars_lang: "lpow (Suc k) (lstar L) = lstar L"
proof (induction k)
  case (Suc k)
  have "lconc (lstar L) (lstar L) = lstar L"
    using lstar_conc lstar_Nil by (fastforce simp: lconc_def intro: exI [of _ "[]"])
  with Suc show ?case by simp
qed simp

lemma lstar_pow: "lstar L = (\<Union>n. lpow n L)"
proof -
  have "\<exists>n. w \<in> lpow n L" if "w \<in> lstar L" for w using that
  proof induction
    case lstar_Nil
    show ?case by (rule exI [of _ 0]) simp
  next
    case (lstar_step u v)
    then obtain n where "v \<in> lpow n L" by blast
    with lstar_step have "u @ v \<in> lpow (Suc n) L" by (auto simp: lconc_def)
    then show ?case by blast
  qed
  moreover have "w \<in> lpow n L \<Longrightarrow> w \<in> lstar L" for w n
    by (induction n arbitrary: w) (auto simp: lconc_def intro: lstar.intros)
  ultimately have "w \<in> lstar L \<longleftrightarrow> (\<exists>n. w \<in> lpow n L)" for w by metis
  then show ?thesis by auto
qed

lemma lpow_add: "lpow (m + n) L = lconc (lpow m L) (lpow n L)"
  by (induction m) (simp_all add: lconc_assoc)

lemma open_lang: "lconc (lpow m L) (lstar L) = (\<Union>n \<in> {n. m \<le> n}. lpow n L)"
proof -
  have "lconc (lpow m L) (\<Union>n. lpow n L) = (\<Union>n. lconc (lpow m L) (lpow n L))" unfolding lconc_def by blast
  also have "\<dots> = (\<Union>n. lpow (m + n) L)" by (simp only: lpow_add)
  also have "\<dots> = (\<Union>n \<in> {n. m \<le> n}. lpow n L)" unfolding le_iff_add by blast
  finally show ?thesis by (simp add: lstar_pow)
qed

lemma foldr_lconc_end: "foldr lconc Ls A = lconc (foldr lconc Ls {[]}) A"
  by (induction Ls) (simp_all add: lconc_assoc)

lemma makes_open:
  assumes "makes atom L" "starts_read atom" "1 \<le> unat n" "n < max_range_expansion"
  shows "makes (compile_range atom n None) (\<Union>m \<in> repeats n None. lpow m L)"
proof -
  obtain k where k: "unat n = Suc k" using assms(3) by (cases "unat n") auto
  have "unat n < 64" using assms(4) by (simp add: max_range_expansion_def word_less_nat_alt)
  then have "0 < unat max_range_expansion - Suc k" using k by (simp add: max_range_expansion_def)
  then obtain j where j: "unat max_range_expansion - Suc k = Suc j" using gr0_implies_Suc by blast
  let ?cs = "replicate k atom" and ?ds = "replicate (Suc j) (compile_star atom)"
  have "compile_range atom n None ns = sequence (atom # ?cs @ ?ds) ns" for ns
  proof -
    from assms(1) obtain f ns1 where f: "atom ns = Some (Inr (f, ns1))" by (rule makesE)
    have r: "reads_at ns1 (fr_start f)" using assms(2) f by (simp add: starts_read_def)
    have "list_all (\<lambda>c. \<exists>L. makes c L) ?cs" using assms(1) by (auto simp: list_all_iff)
    from seq_loop_reads [OF this r] obtain f2 ns2 where s: "seq_loop ?cs f ns1 = Some (Inr (f2, ns2))" "reads_at ns2 (fr_start f2)" by blast
    have "\<not> n > max_range_expansion" using assms(4) by simp
    then have "compile_range atom n None ns = range_optional atom (Suc j) f2 ns2"
      using f s(1) by (simp add: compile_range_def k j range_required_Some nx_bind_assoc nx_bind_Inr del: range_optional.simps)
    also have "\<dots> = seq_loop ?ds f2 ns2" by (rule optional_stars [OF assms(1) s(2)])
    finally show ?thesis using f s(1) by (simp add: sequence_def seq_loop_append nx_bind_Inr del: replicate_Suc)
  qed
  then have eq: "compile_range atom n None = sequence (replicate (Suc k) atom @ ?ds)" by (simp add: fun_eq_iff)
  have "list_all2 makes (replicate (Suc k) atom @ ?ds) (replicate (Suc k) L @ replicate (Suc j) (lstar L))"
    using assms(1) makes_star [OF assms(1)] by (intro list_all2_appendI) (simp_all add: list_all2_conv_all_nth del: replicate_Suc)
  from makes_sequence [OF this] have "makes (compile_range atom n None) (lconc (lpow (Suc k) L) (lpow (Suc j) (lstar L)))"
    unfolding eq by (simp only: foldr_append foldr_replicate_lconc foldr_lconc_end [of "replicate (Suc k) L"])
  then show ?thesis using k by (simp add: stars_lang open_lang repeats_def del: lpow.simps)
qed

section \<open>The tree\<close>

text \<open>
  The trees the construction is right for: no error nodes, classes that compile, and repetition
  counts that are exact, between 1 and the cap, or open ones of at least 1 and less than the cap on an
  atom that is not a group. Other counts are compiled to something else.
\<close>

fun is_group :: "atom \<Rightarrow> bool" where
  "is_group (Group r) \<longleftrightarrow> True"
| "is_group a \<longleftrightarrow> False"

fun open_ok :: "quantifier option \<Rightarrow> bool" where
  "open_ok (Some (QRange lo None)) \<longleftrightarrow> 1 \<le> unat lo \<and> lo < max_range_expansion"
| "open_ok q \<longleftrightarrow> False"

fun quantifier_ok :: "quantifier option \<Rightarrow> bool" where
  "quantifier_ok (Some (QRange lo hi)) \<longleftrightarrow> hi = Some lo \<and> 1 \<le> unat lo \<and> lo \<le> max_range_expansion"
| "quantifier_ok q \<longleftrightarrow> True"

fun regex_ok :: "regex \<Rightarrow> bool" and branch_ok :: "branch \<Rightarrow> bool" and piece_ok :: "piece \<Rightarrow> bool" and atom_ok :: "atom \<Rightarrow> bool" where
  "regex_ok (Regex bs sp) \<longleftrightarrow> bs \<noteq> [] \<and> (\<forall>b \<in> set bs. branch_ok b)"
| "branch_ok (Branch ps sp) \<longleftrightarrow> (\<forall>p \<in> set ps. piece_ok p)"
| "piece_ok (Piece a q sp) \<longleftrightarrow> (quantifier_ok q \<or> \<not> is_group a \<and> open_ok q) \<and> atom_ok a"
| "atom_ok (Literal c) \<longleftrightarrow> True"
| "atom_ok AnyChar \<longleftrightarrow> True"
| "atom_ok (ClassAtom cl) \<longleftrightarrow> (case byte_class cl of Inl _ \<Rightarrow> False | Inr _ \<Rightarrow> True)"
| "atom_ok (Group r) \<longleftrightarrow> regex_ok r"
| "atom_ok (AtomError sp) \<longleftrightarrow> False"

lemma makes_bytes: "makes (compile_bytes bytes) {bytes}"
proof -
  let ?L = "\<lambda>byte. {[byte]}"
  have one: "makes (read_state (bc_singleton byte)) (?L byte)" for byte
    using makes_read [of "bc_singleton byte"] by simp
  have "makes (sequence (map (\<lambda>byte. read_state (bc_singleton byte)) bytes)) (foldr lconc (map ?L bytes) {[]})"
    by (rule makes_sequence) (simp add: list_all2_conv_all_nth one)
  moreover have "foldr lconc (map ?L bytes) {[]} = {bytes}" by (induction bytes) (auto simp: lconc_def)
  ultimately show ?thesis by (simp add: compile_bytes_def)
qed

lemma contains_not_newline: "bc_contains any_except_line_terminators b \<longleftrightarrow> b \<noteq> 10 \<and> b \<noteq> 13"
  by (auto simp: any_except_line_terminators_def contains_remove)

lemma makes_quantified:
  assumes "makes atom L" "quantifier_ok q"
  shows "makes (case q of None \<Rightarrow> atom | Some QStar \<Rightarrow> compile_star atom | Some QPlus \<Rightarrow> compile_plus atom
      | Some QQuestion \<Rightarrow> compile_question atom | Some (QRange lo hi) \<Rightarrow> compile_range atom lo hi) (quantified q L)"
proof -
  have "repeats lo (Some lo) = {unat lo}" for lo by (auto simp: repeats_def)
  with assms show ?thesis
    by (cases q rule: quantifier_ok.cases) (simp_all add: makes_star makes_plus makes_question makes_exact)
qed

lemma atom_starts_read:
  assumes "atom_ok a" "\<not> is_group a"
  shows "starts_read (compile_atom a)"
proof -
  have read: "starts_read (read_state c)" for c
    by (auto simp: starts_read_def read_state_def nx_bind_add nx_return_def reads_at_def nth_append)
  have bytes: "starts_read (compile_bytes (b # bs))" for b bs
  proof -
    have "reads_at ns' (fr_start f)" if "compile_bytes (b # bs) ns = Some (Inr (f, ns'))" for ns f ns'
    proof -
      from makes_read obtain g ns1 where g: "read_state (bc_singleton b) ns = Some (Inr (g, ns1))" by (rule makesE)
      then have "reads_at ns1 (fr_start g)" using read by (simp add: starts_read_def)
      moreover have "list_all (\<lambda>c. \<exists>L. makes c L) (map (\<lambda>byte. read_state (bc_singleton byte)) bs)"
        using makes_read by (auto simp: list_all_iff)
      ultimately show ?thesis using seq_loop_reads that g
        by (fastforce simp: compile_bytes_def sequence_def nx_bind_Inr)
    qed
    then show ?thesis by (simp add: starts_read_def)
  qed
  have "starts_read (compile_bytes (encode_utf8 c))" for c
    using bytes by (cases "encode_utf8 c") (auto simp: encode_utf8_def split: if_splits)
  then show ?thesis using assms read
    by (cases a) (auto simp: compile_scalar_def split: sum.splits)
qed

lemma makes_tree:
  "regex_ok r \<Longrightarrow> makes (compile_regex r) (regex_lang r)"
  "branch_ok b \<Longrightarrow> makes (compile_branch b) (branch_lang b)"
  "piece_ok p \<Longrightarrow> makes (compile_piece p) (piece_lang p)"
  "atom_ok a \<Longrightarrow> makes (compile_atom a) (atom_lang a)"
proof (induction r and b and p and a rule: compile_regex_compile_branch_compile_piece_compile_atom.induct)
  case (1 bs sp)
  have all: "list_all2 makes (map compile_branch bs) (map branch_lang bs)"
    using 1 by (auto simp: list_all2_conv_all_nth)
  show ?case
  proof (cases "\<exists>b. bs = [b]")
    case True
    then show ?thesis using all by auto
  next
    case False
    then obtain b b' rest where bs: "bs = b # b' # rest" using 1(2) by (cases bs rule: remdups_adj.cases) auto
    then have "compile_regex (Regex bs sp) = nx_bind (nx_each (map compile_branch bs)) alternation" by simp
    moreover have "\<Union>(set (map branch_lang bs)) = regex_lang (Regex bs sp)" by simp
    ultimately show ?thesis using makes_alternation [OF all] bs by simp
  qed
next
  case (2 ps sp)
  have "list_all2 makes (map compile_piece ps) (map piece_lang ps)" using 2 by (auto simp: list_all2_conv_all_nth)
  then show ?case using makes_sequence by simp
next
  case (3 a q sp)
  have a: "makes (compile_atom a) (atom_lang a)"
    using 3 by (cases q rule: quantifier_ok.cases) auto
  show ?case
  proof (cases "quantifier_ok q")
    case True
    then show ?thesis using makes_quantified [OF a True] by simp
  next
    case False
    then have o: "\<not> is_group a" "open_ok q" "atom_ok a" using 3(6) by auto
    then obtain lo where "q = Some (QRange lo None)" "1 \<le> unat lo" "lo < max_range_expansion" by (cases q rule: open_ok.cases) auto
    then show ?thesis using makes_open [OF a atom_starts_read [OF o(3,1)]] by simp
  qed
next
  case (4 c)
  then show ?case using makes_bytes by (simp add: compile_scalar_def)
next
  case 5
  have "{[b] | b. bc_contains any_except_line_terminators b} = atom_lang AnyChar" by (simp add: contains_not_newline)
  then show ?case using makes_read [of any_except_line_terminators] by simp
next
  case (6 cl)
  then obtain c where c: "byte_class cl = Inr c" by (auto split: sum.splits)
  have "{[b] | b. bc_contains c b} = atom_lang (ClassAtom cl)" using byte_class_correct [OF c] by simp
  then show ?case using makes_read [of c] c by simp
qed simp_all

section \<open>The automaton\<close>

definition nfa_accepts :: "nfa \<Rightarrow> usize \<Rightarrow> u8 list \<Rightarrow> bool" where
  "nfa_accepts ns start w \<longleftrightarrow> (\<exists>q < length ns. ns ! q = Match \<and> path ns {..<length ns} start w q)"

definition nfa_wf :: "nfa \<Rightarrow> usize \<Rightarrow> bool" where
  "nfa_wf ns start \<longleftrightarrow> start < length ns \<and> (\<forall>p < length ns. targets (ns ! p) \<subseteq> {..<length ns})"

lemma path_restrict: "path ns A p w q \<Longrightarrow> (\<And>p. p \<in> A \<Longrightarrow> p \<notin> B \<Longrightarrow> targets (ns ! p) = {}) \<Longrightarrow> path ns B p w q"
proof (induction rule: path.induct)
  case (path_Split p out out1 r w q)
  then have "p \<in> B" by fastforce
  then show ?case using path_Split path.path_Split by metis
next
  case (path_Read p c out b w q)
  then have "p \<in> B" by fastforce
  then show ?case using path_Read path.path_Read by metis
qed (rule path_Nil)

lemma nfa_build_run:
  assumes "regex_ok r"
  shows "\<exists>ns start. nfa_build r = Some (Inr (ns, start)) \<and> nfa_wf ns start \<and> (\<forall>w. nfa_accepts ns start w \<longleftrightarrow> w \<in> regex_lang r)"
proof -
  from makes_tree(1) [OF assms] obtain f ns0 where
    c: "compile_regex r [] = Some (Inr (f, ns0))" and ok: "frag_ok ns0 0 f (regex_lang r)" by (auto elim: makesE [of _ _ "[]"])
  let ?n = "length ns0" let ?ns = "patch (ns0 @ [Match]) (fr_outs f) ?n" and ?A = "seg ns0 0"
  have A: "?A = {..<?n}" by (auto simp: seg_def)
  have sp: "splits_at (ns0 @ [Match]) (fr_outs f)"
    using frag_outs [OF ok] by (auto simp: outs_ok_def splits_at_def nth_append)
  have far: "\<forall>a \<in> set (fr_outs f). state_of a < ?n" using frag_outs [OF ok] by (simp add: outs_ok_def splits_at_def)
  have at: "?ns ! p = retarget (fr_outs f) ?n p (ns0 ! p)" if "p < ?n" for p using that by (simp add: nth_patch [OF sp] nth_append)
  have last: "?ns ! ?n = Match" using retarget_above [OF far, of ?n] by (simp add: nth_patch [OF sp])
  have pt: "patched ns0 ?ns 0 (fr_outs f) ?n" using at by (simp add: patched_extends)
  have tA: "?n \<notin> ?A" by (simp add: A)
  have cl: "closed ?ns ?A {?n}" by (rule frag_closed [OF ok pt])
  have no_match: "?ns ! p \<noteq> Match" if "p < ?n" for p
  proof -
    have "inner ?A (fr_outs f) p (ns0 ! p)" using ok that by (simp add: frag_ok_def A)
    then show ?thesis using at [OF that] by (cases "ns0 ! p") auto
  qed
  have "targets (?ns ! p) \<subseteq> {..<Suc ?n}" if "p < Suc ?n" for p
    using that cl last unfolding lessThan_Suc by (cases "p = ?n") (auto simp: closed_def A)
  then have wf: "nfa_wf ?ns (fr_start f)" using frag_start [OF ok] by (simp add: nfa_wf_def)
  have "path ?ns {..<Suc ?n} (fr_start f) w ?n \<longleftrightarrow> path ?ns ?A (fr_start f) w ?n" for w
    using path_restrict [of ?ns "{..<Suc ?n}" "fr_start f" w ?n ?A] path_mono [of ?ns ?A "fr_start f" w ?n "{..<Suc ?n}"] last
    by (auto simp: A less_Suc_eq)
  then have "nfa_accepts ?ns (fr_start f) w \<longleftrightarrow> w \<in> regex_lang r" for w
    using frag_path [OF ok pt tA] no_match last by (auto simp: nfa_accepts_def less_Suc_eq)
  then show ?thesis using c wf by (simp add: nfa_build_def Let_def)
qed

text \<open>
  C4: The automaton built for a tree with supported counts and classes is well formed and
  accepts exactly the language of the tree: concatenation, alternation, the three simple
  quantifiers, exact counts and open counts.
\<close>

theorem nfa_build_correct:
  assumes "regex_ok r"
  shows "\<exists>ns start. nfa_build r = Some (Inr (ns, start)) \<and> nfa_wf ns start \<and> (\<forall>w. nfa_accepts ns start w \<longleftrightarrow> w \<in> regex_lang r)"
  using assms by (rule nfa_build_run)

definition no_span :: span where "no_span = \<lparr>sp_offset = 0, sp_len = 0\<rparr>"

text \<open>The tree of a single piece.\<close>

definition one_piece :: "atom \<Rightarrow> quantifier option \<Rightarrow> regex" where
  "one_piece a q = Regex [Branch [Piece a q no_span] no_span] no_span"

theorem nfa_build_correct_witness:
  "\<exists>ns start. nfa_build (one_piece (Group (Regex [Branch [Piece (Literal 97) None no_span] no_span, Branch [Piece AnyChar None no_span] no_span] no_span)) (Some QStar))
       = Some (Inr (ns, start)) \<and> nfa_accepts ns start [97, 98]"
proof -
  let ?r = "Regex [Branch [Piece (Literal 97) None no_span] no_span, Branch [Piece AnyChar None no_span] no_span] no_span"
  have "regex_ok (one_piece (Group ?r) (Some QStar))" by (simp add: one_piece_def)
  then obtain ns start where b: "nfa_build (one_piece (Group ?r) (Some QStar)) = Some (Inr (ns, start))"
    "\<forall>w. nfa_accepts ns start w \<longleftrightarrow> w \<in> regex_lang (one_piece (Group ?r) (Some QStar))"
    using nfa_build_correct by blast
  have "[97] \<in> regex_lang ?r" "[98] \<in> regex_lang ?r" by (simp_all add: encode_utf8_def)
  then have "[97] @ [98] @ [] \<in> lstar (regex_lang ?r)" by (blast intro: lstar.intros)
  then have "[97, 98] \<in> regex_lang (one_piece (Group ?r) (Some QStar))" by (simp add: one_piece_def)
  with b show ?thesis by blast
qed

text \<open>The two automata of the counterexample below.\<close>

lemma range_one_two:
  "nfa_build (one_piece (Literal 97) (Some (QRange 1 (Some 2)))) =
     Some (Inr ([Split 2 2, Read (bc_singleton 97) 0, Split 4 5, Split 2 2, Read (bc_singleton 97) 3, Split 6 6, Match], 1))"
  by code_simp

lemma range_zero: "nfa_build (one_piece (Literal 97) (Some (QRange 0 (Some 0)))) = Some (Inr ([Split 0 0, Match], 0))"
  by code_simp

lemma lpow_length: "w \<in> lpow n {[a]} \<Longrightarrow> length w = n"
  by (induction n arbitrary: w) (auto simp: lconc_def)

lemma stuck_at_zero: "path [Split 0 0, Match] A p w q \<Longrightarrow> p = 0 \<Longrightarrow> q = 0"
  by (induction rule: path.induct) auto

text \<open>
  C36: A bounded count is not respected: the automaton of a{1,2} accepts aaa, and the one of
  a{0,0} does not accept the empty word.
\<close>

theorem range_bounds_ignored:
  "(\<exists>ns start. nfa_build (one_piece (Literal 97) (Some (QRange 1 (Some 2)))) = Some (Inr (ns, start)) \<and>
      nfa_accepts ns start [97, 97, 97] \<and> [97, 97, 97] \<notin> regex_lang (one_piece (Literal 97) (Some (QRange 1 (Some 2))))) \<and>
   (\<exists>ns start. nfa_build (one_piece (Literal 97) (Some (QRange 0 (Some 0)))) = Some (Inr (ns, start)) \<and>
      \<not> nfa_accepts ns start [] \<and> [] \<in> regex_lang (one_piece (Literal 97) (Some (QRange 0 (Some 0)))))"
proof (intro conjI)
  let ?ns = "[Split 2 2, Read (bc_singleton 97) 0, Split 4 5, Split 2 2, Read (bc_singleton 97) 3, Split 6 6, Match]"
  let ?path = "path ?ns {..<length ?ns}"
  have split: "?path p w 6" if "?ns ! p = Split a b" "r = a \<or> r = b" "?path r w 6" "p < length ?ns" for p a b r w
    by (rule path_Split [OF _ that(1-3)]) (use that(4) in simp)
  have read: "?path p (97 # w) 6" if "?ns ! p = Read (bc_singleton 97) r" "?path r w 6" "p < length ?ns" for p r w
    by (rule path_Read [OF _ that(1) _ that(2)]) (use that(3) in simp_all)
  have stop: "?path 2 [] 6" using split [of 2 4 5 5] split [of 5 6 6 6] path_Nil by simp
  have loop: "?path 2 (97 # w) 6" if "?path 2 w 6" for w
    using split [of 2 4 5 4] read [of 4 3] split [of 3 2 2 2] that by simp
  have "?path 1 [97, 97, 97] 6" using read [of 1 0] split [of 0 2 2 2] loop [OF loop [OF stop]] by simp
  then have "nfa_accepts ?ns 1 [97, 97, 97]" by (auto simp: nfa_accepts_def intro: exI [of _ 6])
  moreover have "[97, 97, 97] \<notin> regex_lang (one_piece (Literal 97) (Some (QRange 1 (Some 2))))"
    using lpow_length [of "[97, 97, 97]" _ 97] by (fastforce simp: one_piece_def encode_utf8_def repeats_def)
  ultimately show "\<exists>ns start. nfa_build (one_piece (Literal 97) (Some (QRange 1 (Some 2)))) = Some (Inr (ns, start)) \<and>
      nfa_accepts ns start [97, 97, 97] \<and> [97, 97, 97] \<notin> regex_lang (one_piece (Literal 97) (Some (QRange 1 (Some 2))))"
    using range_one_two by blast
next
  have "\<not> nfa_accepts [Split 0 0, Match] 0 []" using stuck_at_zero by (fastforce simp: nfa_accepts_def)
  moreover have "[] \<in> regex_lang (one_piece (Literal 97) (Some (QRange 0 (Some 0))))" by (simp add: one_piece_def repeats_def)
  ultimately show "\<exists>ns start. nfa_build (one_piece (Literal 97) (Some (QRange 0 (Some 0)))) = Some (Inr (ns, start)) \<and>
      \<not> nfa_accepts ns start [] \<and> [] \<in> regex_lang (one_piece (Literal 97) (Some (QRange 0 (Some 0))))"
    using range_zero by blast
qed

definition branch_of :: "(atom \<times> quantifier option) list \<Rightarrow> regex" where
  "branch_of ps = Regex [Branch (map (\<lambda>(a, q). Piece a q no_span) ps) no_span] no_span"

abbreviation bca :: regex where
  "bca \<equiv> branch_of [(Literal 98, Some QStar), (Literal 99, None), (Literal 97, Some (QRange 0 (Some 1)))]"

lemma bca_nfa:
  "nfa_build bca = Some (Inr ([Split 2 3, Split 0 0, Read (bc_singleton 98) 1, Split 5 5, Split 6 6, Read (bc_singleton 99) 4, Split 7 0, Split 9 10,
     Split 7 7, Read (bc_singleton 97) 8, Split 11 11, Match], 0))"
  by code_simp

lemma bca_one_c: "w \<in> regex_lang bca \<Longrightarrow> count_list w 99 = 1"
proof -
  have star: "count_list u 99 = 0" if "u \<in> lstar {[98 :: u8]}" for u using that by induction auto
  have pow: "count_list u 99 = 0" if "u \<in> lpow n {[97 :: u8]}" for u n using that by (induction n arbitrary: u) (auto simp: lconc_def)
  show "w \<in> regex_lang bca \<Longrightarrow> count_list w 99 = 1"
    using star pow by (fastforce simp: branch_of_def encode_utf8_def lconc_def)
qed

text \<open>
  C37: A count that may be zero adds an arrow to the first state of the whole automaton: the
  automaton of b*ca{0,1} accepts cc.
\<close>

theorem absent_copy_jumps_back:
  "\<exists>ns start. nfa_build bca = Some (Inr (ns, start)) \<and> nfa_accepts ns start [99, 99] \<and> [99, 99] \<notin> regex_lang bca"
proof -
  let ?ns = "[Split 2 3, Split 0 0, Read (bc_singleton 98) 1, Split 5 5, Split 6 6, Read (bc_singleton 99) 4, Split 7 0, Split 9 10,
     Split 7 7, Read (bc_singleton 97) 8, Split 11 11, Match]"
  let ?path = "path ?ns {..<length ?ns}"
  have split: "?path p w 11" if "?ns ! p = Split a b" "r = a \<or> r = b" "?path r w 11" "p < length ?ns" for p a b r w
    by (rule path_Split [OF _ that(1-3)]) (use that(4) in simp)
  have read: "?path 5 (99 # w) 11" if "?path 4 w 11" for w
    by (rule path_Read [of 5 _ _ "bc_singleton 99" 4]) (use that in simp_all)
  have "?path 6 [] 11" using split [of 6 7 0 7] split [of 7 9 10 10] split [of 10 11 11 11] path_Nil by simp
  then have "?path 5 [99] 11" using read split [of 4 6 6 6] by simp
  then have "?path 0 [99] 11" using split [of 0 2 3 3] split [of 3 5 5 5] by simp
  then have "?path 6 [99] 11" using split [of 6 7 0 0] by simp
  then have "?path 5 [99, 99] 11" using read split [of 4 6 6 6] by simp
  then have "?path 0 [99, 99] 11" using split [of 0 2 3 3] split [of 3 5 5 5] by simp
  then have "nfa_accepts ?ns 0 [99, 99]" by (auto simp: nfa_accepts_def intro: exI [of _ 11])
  moreover have "[99, 99] \<notin> regex_lang bca" using bca_one_c [of "[99, 99]"] by auto
  ultimately show ?thesis using bca_nfa by blast
qed

end
