(* ===== verification/Negex_Subset.thy ===== *)
theory Negex_Subset
  imports Negex_Dfa
begin

text \<open>
  What the worklist loop promises to both constructions, as a locale over the successor function: it
  numbers exactly the reachable sets, every row of the table it makes is the successor function, and
  it reports too many states exactly when there are more reachable sets than the limit.
\<close>

declare explore.simps [simp del]

section \<open>Runs\<close>

primrec dfa_run :: "determinized \<Rightarrow> u8 list \<Rightarrow> usize \<Rightarrow> usize option" where
  "dfa_run d [] s = Some s"
| "dfa_run d (b # w) s = do { t \<leftarrow> next_state d b s; dfa_run d w t }"

definition dfa_accepts :: "determinized \<Rightarrow> u8 list \<Rightarrow> bool" where
  "dfa_accepts d w \<longleftrightarrow> (\<exists>t. dfa_run d w (dt_start d) = Some t \<and> accepting d t)"

text \<open>Every row has an entry for each byte, and every index of the table is a state.\<close>

definition dfa_wf :: "determinized \<Rightarrow> bool" where
  "dfa_wf d \<longleftrightarrow> dt_start d < length (dt_states d) \<and>
     (\<forall>st \<in> set (dt_states d). length (ds_transitions st) = 256 \<and>
        (\<forall>t. Some t \<in> set (ds_transitions st) \<longrightarrow> t < length (dt_states d)))"

lemma dfa_run_append: "dfa_run d (u @ v) s = do { t \<leftarrow> dfa_run d u s; dfa_run d v t }"
  by (induction u arbitrary: s) (auto split: bind_splits)

lemma dfa_run_in_range: "dfa_wf d \<Longrightarrow> s < length (dt_states d) \<Longrightarrow> dfa_run d w s = Some t \<Longrightarrow> t < length (dt_states d)"
proof (induction w arbitrary: s)
  case (Cons b w)
  then obtain r where r: "next_state d b s = Some r" "dfa_run d w r = Some t" by (auto split: bind_splits)
  have "r < length (dt_states d)"
    using Cons.prems(1,2) r(1) by (auto simp: dfa_wf_def next_state_def transition_def split: if_splits) (metis nth_mem)
  then show ?case using Cons.IH Cons.prems(1) r(2) by blast
qed simp

section \<open>Reachable sets\<close>

inductive_set subsets :: "(usize set \<Rightarrow> u8 \<Rightarrow> usize set option) \<Rightarrow> (usize set \<Rightarrow> bool) \<Rightarrow> usize set \<Rightarrow> usize set set" for move dead start where
  subsets_start: "start \<in> subsets move dead start"
| subsets_step: "S \<in> subsets move dead start \<Longrightarrow> move S b = Some T \<Longrightarrow> \<not> dead T \<Longrightarrow> T \<in> subsets move dead start"

primrec set_run :: "(usize set \<Rightarrow> u8 \<Rightarrow> usize set option) \<Rightarrow> (usize set \<Rightarrow> bool) \<Rightarrow> u8 list \<Rightarrow> usize set \<Rightarrow> usize set option" where
  "set_run move dead [] S = Some S"
| "set_run move dead (b # w) S = do { T \<leftarrow> move S b; if dead T then None else set_run move dead w T }"

definition numbered :: "(usize set \<Rightarrow> bool) \<Rightarrow> usize set set \<Rightarrow> explorer \<Rightarrow> bool" where
  "numbered acc R ex \<longleftrightarrow> dom (ex_ids ex) \<subseteq> R \<and> inj_on (ex_ids ex) (dom (ex_ids ex)) \<and>
     ran (ex_ids ex) = {..<length (ex_states ex)} \<and> length (ex_states ex) \<le> max_dfa_states \<and>
     (\<forall>S i. ex_ids ex S = Some i \<longrightarrow> ds_accept (ex_states ex ! i) = acc S \<and> length (ds_transitions (ex_states ex ! i)) = 256)"

text \<open>The entry of a row is the number of the successor set.\<close>

definition entry_ok :: "(usize set \<Rightarrow> u8 \<Rightarrow> usize set option) \<Rightarrow> (usize set \<Rightarrow> bool) \<Rightarrow> explorer \<Rightarrow> usize set \<Rightarrow> u8 \<Rightarrow> bool" where
  "entry_ok move dead ex S b \<longleftrightarrow>
     (\<exists>i T. ex_ids ex S = Some i \<and> move S b = Some T \<and>
        (if dead T then transition (ex_states ex ! i) b = None
         else \<exists>j. ex_ids ex T = Some j \<and> transition (ex_states ex ! i) b = Some j))"

text \<open>\<open>todo\<close> holds the entries of the current row that are still to be written.\<close>

definition explore_inv :: "(usize set \<Rightarrow> u8 \<Rightarrow> usize set option) \<Rightarrow> (usize set \<Rightarrow> bool) \<Rightarrow> (usize set \<Rightarrow> bool) \<Rightarrow> usize set set
    \<Rightarrow> (usize set \<times> u8) set \<Rightarrow> explorer \<Rightarrow> bool" where
  "explore_inv move dead acc R todo ex \<longleftrightarrow> numbered acc R ex \<and> set (ex_work ex) \<subseteq> dom (ex_ids ex) \<and>
     (\<forall>S \<in> dom (ex_ids ex). \<forall>b. S \<in> set (ex_work ex) \<or> (S, b) \<in> todo \<or> entry_ok move dead ex S b)"

lemma numbered_card:
  assumes "numbered acc R ex"
  shows "card (dom (ex_ids ex)) = length (ex_states ex)"
proof -
  have "ex_ids ex ` dom (ex_ids ex) = Some ` ran (ex_ids ex)"
    by (auto simp: ran_def dom_def image_iff) metis
  with assms have img: "ex_ids ex ` dom (ex_ids ex) = Some ` {..<length (ex_states ex)}"
    by (simp add: numbered_def)
  have "card (dom (ex_ids ex)) = card (ex_ids ex ` dom (ex_ids ex))"
    using assms by (simp add: numbered_def card_image)
  also have "\<dots> = length (ex_states ex)" unfolding img by (simp add: card_image)
  finally show ?thesis .
qed

lemma numbered_lt: "numbered acc R ex \<Longrightarrow> ex_ids ex S = Some i \<Longrightarrow> i < length (ex_states ex)"
  unfolding numbered_def by (metis lessThan_iff ranI)

lemma numbered_inj: "numbered acc R ex \<Longrightarrow> ex_ids ex S = Some i \<Longrightarrow> ex_ids ex T = Some i \<Longrightarrow> S = T"
  unfolding numbered_def inj_on_def by (metis domI)

lemma push_work_simps [simp]:
  "ex_ids (push_work T ex) = ex_ids ex" "ex_states (push_work T ex) = ex_states ex" "ex_work (push_work T ex) = ex_work ex @ [T]"
  by (simp_all add: push_work_def)

lemma same_tables: "ex_ids ex' = ex_ids ex \<Longrightarrow> ex_states ex' = ex_states ex \<Longrightarrow> entry_ok move dead ex' = entry_ok move dead ex"
  "ex_ids ex' = ex_ids ex \<Longrightarrow> ex_states ex' = ex_states ex \<Longrightarrow> numbered acc R ex' = numbered acc R ex"
  by (intro ext, simp add: entry_ok_def) (simp add: numbered_def)

lemma explore_inv_entry:
  "explore_inv move dead acc R todo ex \<Longrightarrow> ex_ids ex S = Some i \<Longrightarrow> S \<in> set (ex_work ex) \<or> (S, b) \<in> todo \<or> entry_ok move dead ex S b"
  unfolding explore_inv_def by blast

text \<open>Writing one entry of a numbered row changes that entry only.\<close>

lemma set_transition_entry:
  assumes "numbered acc R ex" "ex_ids ex S = Some i"
  obtains ex' where "set_transition i b t ex = Some ex'" "numbered acc R ex'" "ex_ids ex' = ex_ids ex" "ex_work ex' = ex_work ex"
    "transition (ex_states ex' ! i) b = t"
    "\<And>T j c. ex_ids ex T = Some j \<Longrightarrow> (T, c) \<noteq> (S, b) \<Longrightarrow> transition (ex_states ex' ! j) c = transition (ex_states ex ! j) c"
proof -
  let ?st = "ex_states ex ! i"
  let ?ex = "ex\<lparr>ex_states := (ex_states ex)[i := ?st\<lparr>ds_transitions := (ds_transitions ?st)[unat b := t]\<rparr>]\<rparr>"
  have i: "i < length (ex_states ex)" using numbered_lt assms by blast
  have len: "length (ds_transitions ?st) = 256" using assms by (simp add: numbered_def)
  have b: "unat c < 256" for c :: u8 using unsigned_less [of c] by simp
  have "set_transition i b t ex = Some ?ex" using i len b by (simp add: set_transition_def Let_def)
  moreover have "numbered acc R ?ex"
    using assms i len unfolding numbered_def by (auto simp: nth_list_update)
  moreover have "transition (ex_states ?ex ! i) b = t" using i len b by (simp add: transition_def)
  moreover have "transition (ex_states ?ex ! j) c = transition (ex_states ex ! j) c"
    if "ex_ids ex T = Some j" "(T, c) \<noteq> (S, b)" for T j c
  proof (cases "j = i")
    case True
    then have "T = S" using numbered_inj assms that(1) by blast
    then have "unat c \<noteq> unat b" using that(2) by (metis word_unat_eq_iff)
    then show ?thesis using True i len b by (simp add: transition_def)
  qed (simp add: nth_list_update)
  ultimately show thesis using that [of ?ex] by simp
qed

lemma set_transition_inv:
  assumes inv: "explore_inv move dead acc R (insert (S, b) todo) ex" and S: "ex_ids ex S = Some i" and T: "move S b = Some T"
    and t: "if dead T then t = None else ex_ids ex T = t \<and> t \<noteq> None"
  shows "\<exists>ex'. set_transition i b t ex = Some ex' \<and> explore_inv move dead acc R todo ex' \<and> ex_ids ex' = ex_ids ex"
proof -
  from inv have "numbered acc R ex" by (simp add: explore_inv_def)
  then obtain ex' where w: "set_transition i b t ex = Some ex'" "numbered acc R ex'" "ex_ids ex' = ex_ids ex" "ex_work ex' = ex_work ex"
    "transition (ex_states ex' ! i) b = t"
    "\<And>U j c. ex_ids ex U = Some j \<Longrightarrow> (U, c) \<noteq> (S, b) \<Longrightarrow> transition (ex_states ex' ! j) c = transition (ex_states ex ! j) c"
    using set_transition_entry S by blast
  have here: "entry_ok move dead ex' S b" using S T t w(3,5) by (auto simp: entry_ok_def split: if_splits)
  have there: "entry_ok move dead ex' U c" if "entry_ok move dead ex U c" "(U, c) \<noteq> (S, b)" for U c
    using that w(3) w(6) [of U _ c] by (fastforce simp: entry_ok_def split: if_splits)
  have "U \<in> set (ex_work ex) \<or> (U, c) \<in> todo \<or> entry_ok move dead ex' U c" if U: "U \<in> dom (ex_ids ex)" for U c
  proof (cases "(U, c) = (S, b)")
    case False
    from U explore_inv_entry [OF inv] have "U \<in> set (ex_work ex) \<or> (U, c) \<in> insert (S, b) todo \<or> entry_ok move dead ex U c"
      by auto
    with there [OF _ False] False show ?thesis by auto
  qed (use here in simp)
  then have "explore_inv move dead acc R todo ex'"
    using inv w(2-4) unfolding explore_inv_def by simp
  with w show ?thesis by blast
qed

lemma register_inv:
  assumes inv: "explore_inv move dead acc R todo ex" and T: "ex_ids ex T = None" "T \<in> R" and room: "length (ex_states ex) < max_dfa_states"
  shows "\<exists>ex1. register_set acc T ex = (length (ex_states ex), ex1) \<and> explore_inv move dead acc R todo (push_work T ex1) \<and>
     ex_ids (push_work T ex1) = (ex_ids ex)(T \<mapsto> length (ex_states ex))"
proof -
  let ?n = "length (ex_states ex)" and ?new = "dfa_state_new\<lparr>ds_accept := acc T\<rparr>"
  let ?ex = "ex\<lparr>ex_ids := (ex_ids ex)(T \<mapsto> ?n), ex_states := ex_states ex @ [?new]\<rparr>"
  from inv have n: "numbered acc R ex" by (simp add: explore_inv_def)
  have lt: "i < ?n" if "ex_ids ex U = Some i" for U i using numbered_lt n that by blast
  have other: "U \<noteq> T" if "ex_ids ex U = Some i" for U i using that T(1) by auto
  have ids: "ex_ids ?ex U = (if U = T then Some ?n else ex_ids ex U)" for U by simp
  have inj: "inj_on (ex_ids ?ex) (dom (ex_ids ?ex))"
  proof (rule inj_onI)
    fix U V
    assume "U \<in> dom (ex_ids ?ex)" and eq: "ex_ids ?ex U = ex_ids ?ex V"
    then obtain i where i: "ex_ids ?ex U = Some i" "ex_ids ?ex V = Some i" by (metis domD)
    show "U = V"
    proof (cases "U = T \<or> V = T")
      case True
      then have "i = ?n" using i ids by fastforce
      then show ?thesis using i ids lt [of U i] lt [of V i] by (metis less_irrefl)
    next
      case False
      then show ?thesis using i ids numbered_inj [OF n] by metis
    qed
  qed
  have ran: "ran (ex_ids ?ex) = {..<length (ex_states ?ex)}"
    using n T(1) by (auto simp: numbered_def ran_map_upd)
  have rows: "\<forall>U i. ex_ids ?ex U = Some i \<longrightarrow> ds_accept (ex_states ?ex ! i) = acc U \<and> length (ds_transitions (ex_states ?ex ! i)) = 256"
    using n lt by (auto simp: numbered_def nth_append dfa_state_new_def)
  have num: "numbered acc R ?ex" using inj ran rows room T(2) n unfolding numbered_def by auto
  have old: "ex_ids ?ex U = Some i" "ex_states ?ex ! i = ex_states ex ! i" if "ex_ids ex U = Some i" for U i
    using that lt other by (auto simp: nth_append)
  have keep: "entry_ok move dead ?ex U c" if "entry_ok move dead ex U c" for U c
  proof -
    from that obtain i V where i: "ex_ids ex U = Some i" and V: "move U c = Some V"
      and t: "if dead V then transition (ex_states ex ! i) c = None else \<exists>j. ex_ids ex V = Some j \<and> transition (ex_states ex ! i) c = Some j"
      unfolding entry_ok_def by blast
    have "if dead V then transition (ex_states ?ex ! i) c = None else \<exists>j. ex_ids ?ex V = Some j \<and> transition (ex_states ?ex ! i) c = Some j"
      using t old by (metis i)
    then show ?thesis using old(1) [OF i] V unfolding entry_ok_def by blast
  qed
  have "U \<in> set (ex_work ex @ [T]) \<or> (U, c) \<in> todo \<or> entry_ok move dead ?ex U c" if "U \<in> dom (ex_ids ?ex)" for U c
  proof (cases "U = T")
    case False
    with that obtain i where "ex_ids ex U = Some i" by (auto simp: dom_def)
    with explore_inv_entry [OF inv this, of c] keep [of U c] show ?thesis by auto
  qed simp
  then have "explore_inv move dead acc R todo (push_work T ?ex)"
    using inv num by (auto simp: explore_inv_def same_tables [of "push_work T ?ex" ?ex])
  then show ?thesis using T(1) by (simp add: register_set_def Let_def push_work_def)
qed

text \<open>No reachable set makes the successor function panic.\<close>

definition moves :: "(usize set \<Rightarrow> u8 \<Rightarrow> usize set option) \<Rightarrow> (usize set \<Rightarrow> bool) \<Rightarrow> usize set \<Rightarrow> bool" where
  "moves move dead start \<longleftrightarrow> (\<forall>S \<in> subsets move dead start. \<forall>b. \<exists>T. move S b = Some T)"

section \<open>The worklist loop\<close>

lemma set_all_bytes [simp]: "set all_bytes = UNIV"
proof -
  have "b \<in> set all_bytes" for b :: u8
    using unsigned_less [of b] unfolding all_bytes_def by (auto simp: image_iff intro!: bexI [of _ "unat b"])
  then show ?thesis by blast
qed

locale subset_construction =
  fixes move :: "usize set \<Rightarrow> u8 \<Rightarrow> usize set option" and dead acc :: "usize set \<Rightarrow> bool" and start :: "usize set"
  assumes finite_subsets: "finite (subsets move dead start)"
begin

lemma explore_byte_step:
  assumes inv: "explore_inv move dead acc (subsets move dead start) (insert (S, b) todo) ex" and S: "ex_ids ex S = Some i"
    and total: "moves move dead start"
  shows "(max_dfa_states < card (subsets move dead start) \<and> explore_byte move dead acc S i b ex = Some (Inl (TooManyStates (max_dfa_states + 1) max_dfa_states))) \<or>
     (\<exists>ex'. explore_byte move dead acc S i b ex = Some (Inr ex') \<and> explore_inv move dead acc (subsets move dead start) todo ex' \<and> ex_ids ex \<subseteq>\<^sub>m ex_ids ex')"
proof -
  let ?R = "subsets move dead start"
  from inv have n: "numbered acc ?R ex" by (simp add: explore_inv_def)
  then have SR: "S \<in> ?R" using S by (auto simp: numbered_def)
  with total obtain T where T: "move S b = Some T" by (auto simp: moves_def)
  consider (dead) "dead T" | (old) j where "\<not> dead T" "ex_ids ex T = Some j" | (new) "\<not> dead T" "ex_ids ex T = None" by fastforce
  then show ?thesis
  proof cases
    case dead
    then show ?thesis using set_transition_inv [OF inv S T, of None] S T by (auto simp: explore_byte_def)
  next
    case old
    then show ?thesis using set_transition_inv [OF inv S T, of "Some j"] S T by (auto simp: explore_byte_def)
  next
    case new
    have TR: "T \<in> ?R" using subsets_step SR T new(1) by metis
    have len: "length (ex_states ex) \<le> max_dfa_states" using n by (simp add: numbered_def)
    show ?thesis
    proof (cases "length (ex_states ex) < max_dfa_states")
      case True
      from register_inv [OF inv new(2) TR True] obtain ex1 where
        r: "register_set acc T ex = (length (ex_states ex), ex1)" and
        inv1: "explore_inv move dead acc ?R (insert (S, b) todo) (push_work T ex1)" and
        ids: "ex_ids (push_work T ex1) = (ex_ids ex)(T \<mapsto> length (ex_states ex))" by blast
      have S1: "ex_ids (push_work T ex1) S = Some i" using ids S new(2) by auto
      have "ex_ids ex \<subseteq>\<^sub>m ex_ids (push_work T ex1)" using ids new(2) by (auto simp: map_le_def)
      then show ?thesis using set_transition_inv [OF inv1 S1 T, of "Some (length (ex_states ex))"] ids new r T True
        by (auto simp: explore_byte_def)
    next
      case False
      have "card (insert T (dom (ex_ids ex))) \<le> card ?R"
        using n TR finite_subsets by (intro card_mono) (auto simp: numbered_def)
      moreover have "card (insert T (dom (ex_ids ex))) = Suc (length (ex_states ex))"
        using numbered_card [OF n] new(2) n finite_subset [OF _ finite_subsets] by (subst card_insert_disjoint) (auto simp: numbered_def)
      ultimately show ?thesis using False len T new by (simp add: explore_byte_def)
    qed
  qed
qed

lemma explore_bytes_step:
  "explore_inv move dead acc (subsets move dead start) ({S} \<times> set bytes) ex \<Longrightarrow> ex_ids ex S = Some i \<Longrightarrow> moves move dead start \<Longrightarrow>
   (max_dfa_states < card (subsets move dead start) \<and> explore_bytes move dead acc S i bytes ex = Some (Inl (TooManyStates (max_dfa_states + 1) max_dfa_states))) \<or>
   (\<exists>ex'. explore_bytes move dead acc S i bytes ex = Some (Inr ex') \<and> explore_inv move dead acc (subsets move dead start) {} ex' \<and> ex_ids ex \<subseteq>\<^sub>m ex_ids ex')"
proof (induction bytes arbitrary: ex)
  case (Cons b bytes)
  have "{S} \<times> set (b # bytes) = insert (S, b) ({S} \<times> set bytes)" by auto
  with Cons.prems explore_byte_step consider
      (full) "max_dfa_states < card (subsets move dead start)"
        "explore_byte move dead acc S i b ex = Some (Inl (TooManyStates (max_dfa_states + 1) max_dfa_states))"
    | (step) ex1 where "explore_byte move dead acc S i b ex = Some (Inr ex1)"
        "explore_inv move dead acc (subsets move dead start) ({S} \<times> set bytes) ex1" "ex_ids ex \<subseteq>\<^sub>m ex_ids ex1"
    by metis
  then show ?case
  proof cases
    case step
    then have "ex_ids ex1 S = Some i" using Cons.prems(2) by (metis domI map_le_def)
    with Cons.IH Cons.prems(3) step show ?thesis using map_le_trans by fastforce
  qed simp
qed simp

text \<open>The loop ends: with the finished table, or with the error when there are too many sets.\<close>

lemma explore_ends:
  "explore_inv move dead acc (subsets move dead start) {} ex \<Longrightarrow> moves move dead start \<Longrightarrow>
   (max_dfa_states < card (subsets move dead start) \<and> explore move dead acc ex = Some (Inl (TooManyStates (max_dfa_states + 1) max_dfa_states))) \<or>
   (\<exists>ex'. explore move dead acc ex = Some (Inr ex') \<and> explore_inv move dead acc (subsets move dead start) {} ex' \<and>
      ex_work ex' = [] \<and> ex_ids ex \<subseteq>\<^sub>m ex_ids ex')"
proof (induction "pending ex" arbitrary: ex rule: less_induct)
  case less
  let ?R = "subsets move dead start"
  show ?case
  proof (cases "ex_work ex")
    case Nil
    with less.prems show ?thesis by (auto simp: explore.simps [of move dead acc ex])
  next
    case (Cons S rest)
    let ?ex = "ex\<lparr>ex_work := rest\<rparr>"
    obtain i where i: "ex_ids ex S = Some i" using less.prems Cons by (auto simp: explore_inv_def)
    have "explore_inv move dead acc ?R ({S} \<times> set all_bytes) ?ex"
      using explore_inv_entry [OF less.prems(1)] less.prems Cons
      by (auto simp: explore_inv_def same_tables [of ?ex ex])
    with explore_bytes_step [of S all_bytes ?ex i] i less.prems(2) consider
        (full) "max_dfa_states < card ?R" "explore_bytes move dead acc S i all_bytes ?ex = Some (Inl (TooManyStates (max_dfa_states + 1) max_dfa_states))"
      | (step) ex1 where "explore_bytes move dead acc S i all_bytes ?ex = Some (Inr ex1)" "explore_inv move dead acc ?R {} ex1" "ex_ids ex \<subseteq>\<^sub>m ex_ids ex1"
      by auto
    then show ?thesis
    proof cases
      case full
      then show ?thesis using Cons i by (simp add: explore.simps [of move dead acc ex])
    next
      case step
      have "pending ex1 < pending ex" using explore_bytes_pending [OF step(1)] Cons by (simp add: pending_def)
      from less.hyps [OF this step(2) less.prems(2)] step(3) map_le_trans
      show ?thesis using Cons i step(1) by (fastforce simp: explore.simps [of move dead acc ex])
    qed
  qed
qed

lemma finished_table:
  assumes inv: "explore_inv move dead acc (subsets move dead start) {} ex" and work: "ex_work ex = []" and start: "start \<in> dom (ex_ids ex)"
  shows "dom (ex_ids ex) = subsets move dead start"
proof
  show "dom (ex_ids ex) \<subseteq> subsets move dead start" using inv by (simp add: explore_inv_def numbered_def)
  have "S \<in> dom (ex_ids ex)" if "S \<in> subsets move dead start" for S using that
  proof induction
    case (subsets_step S b T)
    with explore_inv_entry [OF inv, of S _ b] work have "entry_ok move dead ex S b" by auto
    with subsets_step show ?case by (auto simp: entry_ok_def split: if_splits)
  qed (rule start)
  then show "subsets move dead start \<subseteq> dom (ex_ids ex)" by blast
qed

lemma table_run:
  assumes inv: "explore_inv move dead acc (subsets move dead start) {} ex" and work: "ex_work ex = []" and d: "dt_states d = ex_states ex"
    and S: "ex_ids ex S = Some i"
  shows "dfa_run d w i = (case set_run move dead w S of None \<Rightarrow> None | Some T \<Rightarrow> ex_ids ex T) \<and>
     (\<forall>T. set_run move dead w S = Some T \<longrightarrow> T \<in> dom (ex_ids ex))"
  using S
proof (induction w arbitrary: S i)
  case (Cons b w)
  have "i < length (dt_states d)" using numbered_lt inv Cons.prems d by (auto simp: explore_inv_def)
  then have nxt: "next_state d b i = transition (ex_states ex ! i) b" by (simp add: next_state_def d)
  from explore_inv_entry [OF inv Cons.prems, of b] work have "entry_ok move dead ex S b" by simp
  then obtain T where T: "move S b = Some T"
    "if dead T then transition (ex_states ex ! i) b = None else \<exists>j. ex_ids ex T = Some j \<and> transition (ex_states ex ! i) b = Some j"
    using Cons.prems by (auto simp: entry_ok_def)
  then show ?case using Cons.IH [of T] nxt by (auto split: if_splits)
qed auto

lemma table_wf:
  assumes inv: "explore_inv move dead acc (subsets move dead start) {} ex" and work: "ex_work ex = []" and d: "dt_states d = ex_states ex"
    and start: "dt_start d < length (ex_states ex)"
  shows "dfa_wf d"
proof -
  have "length (ds_transitions st) = 256 \<and> (\<forall>t. Some t \<in> set (ds_transitions st) \<longrightarrow> t < length (dt_states d))" if st: "st \<in> set (dt_states d)" for st
  proof -
    from inv have n: "numbered acc (subsets move dead start) ex" by (simp add: explore_inv_def)
    from st obtain i where i: "i < length (ex_states ex)" "st = ex_states ex ! i" by (auto simp: d in_set_conv_nth)
    then have "i \<in> ran (ex_ids ex)" using n by (simp add: numbered_def)
    then obtain S where S: "ex_ids ex S = Some i" by (auto simp: ran_def)
    have len: "length (ds_transitions st) = 256" using n S i by (simp add: numbered_def)
    have "t < length (dt_states d)" if "Some t \<in> set (ds_transitions st)" for t
    proof -
      from that obtain k where k: "k < 256" "ds_transitions st ! k = Some t" by (auto simp: in_set_conv_nth len)
      then have "transition st (word_of_nat k) = Some t" by (simp add: transition_def len unat_of_nat)
      moreover have "entry_ok move dead ex S (word_of_nat k)" using explore_inv_entry [OF inv S] work by simp
      ultimately show ?thesis using numbered_lt [OF n] S i(2) d by (auto simp: entry_ok_def split: if_splits)
    qed
    with len show ?thesis by blast
  qed
  then show ?thesis using start by (simp add: dfa_wf_def d)
qed

text \<open>The automaton made from the start set.\<close>

lemma construction:
  assumes "register_set acc start explorer_empty = (s, ex0)" and total: "moves move dead start"
  shows "if card (subsets move dead start) \<le> max_dfa_states then
      \<exists>ex. explore move dead acc (push_work start ex0) = Some (Inr ex) \<and>
        (\<forall>d. dt_states d = ex_states ex \<longrightarrow> dt_start d = s \<longrightarrow>
           dfa_wf d \<and> length (dt_states d) = card (subsets move dead start) \<and>
           (\<forall>w. dfa_accepts d w \<longleftrightarrow> (\<exists>T. set_run move dead w start = Some T \<and> acc T)))
    else explore move dead acc (push_work start ex0) = Some (Inl (TooManyStates (max_dfa_states + 1) max_dfa_states))"
proof -
  let ?R = "subsets move dead start"
  have "explore_inv move dead acc ?R {} explorer_empty"
    by (simp add: explore_inv_def numbered_def explorer_empty_def)
  moreover have "ex_ids explorer_empty start = None" "length (ex_states explorer_empty) < max_dfa_states"
    by (simp_all add: explorer_empty_def max_dfa_states_def)
  ultimately have inv0: "explore_inv move dead acc ?R {} (push_work start ex0)" and ids0: "ex_ids (push_work start ex0) start = Some s"
    using register_inv [of move dead acc ?R "{}" explorer_empty start] assms(1) subsets_start by auto
  have table: "\<forall>d. dt_states d = ex_states ex \<longrightarrow> dt_start d = s \<longrightarrow>
      dfa_wf d \<and> length (dt_states d) = card ?R \<and> (\<forall>w. dfa_accepts d w \<longleftrightarrow> (\<exists>T. set_run move dead w start = Some T \<and> acc T))"
    and small: "card ?R \<le> max_dfa_states"
    if inv: "explore_inv move dead acc ?R {} ex" and work: "ex_work ex = []" and le: "ex_ids (push_work start ex0) \<subseteq>\<^sub>m ex_ids ex" for ex
  proof -
    from inv have n: "numbered acc ?R ex" by (simp add: explore_inv_def)
    have s: "ex_ids ex start = Some s" using le ids0 unfolding map_le_def by (metis domI)
    have dom: "dom (ex_ids ex) = ?R" using finished_table [OF inv work] s by auto
    show "card ?R \<le> max_dfa_states" using numbered_card [OF n] n dom by (simp add: numbered_def)
    show "\<forall>d. dt_states d = ex_states ex \<longrightarrow> dt_start d = s \<longrightarrow>
      dfa_wf d \<and> length (dt_states d) = card ?R \<and> (\<forall>w. dfa_accepts d w \<longleftrightarrow> (\<exists>T. set_run move dead w start = Some T \<and> acc T))"
    proof (intro allI impI conjI)
      fix d :: determinized and w
      assume d: "dt_states d = ex_states ex" and ds: "dt_start d = s"
      show "dfa_wf d" using table_wf [OF inv work d] numbered_lt [OF n s] ds by simp
      show "length (dt_states d) = card ?R" using numbered_card [OF n] dom d by simp
      have "accepting d j \<longleftrightarrow> acc T" if "ex_ids ex T = Some j" for T j
        using that n numbered_lt [OF n that] by (simp add: accepting_def d numbered_def)
      then show "dfa_accepts d w \<longleftrightarrow> (\<exists>T. set_run move dead w start = Some T \<and> acc T)"
        using table_run [OF inv work d s, of w] ds by (auto simp: dfa_accepts_def split: option.splits)
    qed
  qed
  from explore_ends [OF inv0 total] table small show ?thesis by fastforce
qed

end

end
