(* ===== verification/Negex_Automata.thy ===== *)
theory Negex_Automata
  imports Negex_Build Negex_Subset
begin

text \<open>
  The deterministic automata are right: \<open>from_nfa\<close> accepts what its automaton accepts, and the
  reversed automaton, reading a word from its end, tells from where a match can begin. Both are the
  worklist construction of \<open>Negex_Subset\<close> at their own successor function.
\<close>

section \<open>The epsilon closure\<close>

abbreviation walk :: "nfa \<Rightarrow> nat \<Rightarrow> u8 list \<Rightarrow> nat \<Rightarrow> bool" where
  "walk ns \<equiv> path ns {..<length ns}"

definition targets_ok :: "nfa \<Rightarrow> bool" where
  "targets_ok ns \<longleftrightarrow> (\<forall>p < length ns. targets (ns ! p) \<subseteq> {..<length ns})"

fun eps :: "nfa_state \<Rightarrow> nat set" where
  "eps (Split a b) = {a, b}"
| "eps (Read c out) = {}"
| "eps Match = {}"

definition eps_in :: "nfa \<Rightarrow> nat set \<Rightarrow> nat set \<Rightarrow> bool" where
  "eps_in ns V W \<longleftrightarrow> (\<forall>p \<in> V. p < length ns \<longrightarrow> eps (ns ! p) \<subseteq> W)"

text \<open>The ways a run of the search goes on.\<close>

lemma closure_runs [consumes 1, case_names empty seen visit]:
  assumes "closure ns stack V = Some W"
    and "\<And>V. P [] V V"
    and "\<And>s stack V W. s \<in> V \<Longrightarrow> P stack V W \<Longrightarrow> P (s # stack) V W"
    and "\<And>s stack V W new. s \<notin> V \<Longrightarrow> s < length ns \<Longrightarrow> set new = eps (ns ! s) \<Longrightarrow> P (new @ stack) (insert s V) W \<Longrightarrow> P (s # stack) V W"
  shows "P stack V W"
  using assms
proof (induction ns stack V arbitrary: W rule: closure.induct)
  case (2 ns s stack V)
  note go = "2.prems"(1) and empty = "2.prems"(2) and seen = "2.prems"(3) and visit = "2.prems"(4)
  show ?case
  proof (cases "s \<in> V")
    case True
    then have "closure ns stack V = Some W" using go by simp
    from seen [OF True "2.IH"(1) [OF True this empty seen visit]] show ?thesis .
  next
    case False
    then have s: "s < length ns" using go by (auto split: if_splits)
    show ?thesis
    proof (cases "ns ! s")
      case (Split a b)
      then have "closure ns (b # a # stack) (insert s V) = Some W" using go False s by simp
      then have "P ([b, a] @ stack) (insert s V) W" using "2.IH"(2) [OF False s Split _ empty seen visit] by simp
      then show ?thesis using visit [of s V "[b, a]"] False s Split by auto
    next
      case (Read c out)
      then have "closure ns stack (insert s V) = Some W" using go False s by simp
      then have "P ([] @ stack) (insert s V) W" using "2.IH"(3) [OF False s Read _ empty seen visit] by simp
      then show ?thesis using visit [of s V "[]"] False s Read by auto
    next
      case Match
      then have "closure ns stack (insert s V) = Some W" using go False s by simp
      then have "P ([] @ stack) (insert s V) W" using "2.IH"(4) [OF False s Match _ empty seen visit] by simp
      then show ?thesis using visit [of s V "[]"] False s Match by auto
    qed
  qed
qed simp

lemma closure_range: "closure ns stack V = Some W \<Longrightarrow> W \<subseteq> V \<union> {..<length ns}"
  by (induction rule: closure_runs) auto

lemma closure_contains: "closure ns stack V = Some W \<Longrightarrow> V \<union> set stack \<subseteq> W"
  by (induction rule: closure_runs) auto

lemma closure_closed: "closure ns stack V = Some W \<Longrightarrow> eps_in ns V (V \<union> set stack) \<Longrightarrow> eps_in ns W W"
proof (induction rule: closure_runs)
  case (seen s stack V W)
  then show ?case by (simp add: insert_absorb)
next
  case (visit s stack V W new)
  have "eps_in ns (insert s V) (insert s V \<union> set (new @ stack))"
    using visit.prems visit.hyps(3) unfolding eps_in_def by auto
  with visit.IH show ?case by blast
qed (simp add: eps_in_def)

lemma walk_eps: "p < length ns \<Longrightarrow> r \<in> eps (ns ! p) \<Longrightarrow> walk ns r w q \<Longrightarrow> walk ns p w q"
  by (cases "ns ! p") (auto intro: path_Split)

lemma closure_walk: "closure ns stack V = Some W \<Longrightarrow> q \<in> W \<Longrightarrow> q \<in> V \<or> (\<exists>s \<in> set stack. walk ns s [] q)"
proof (induction rule: closure_runs)
  case (visit s stack V W new)
  then show ?case using path_Nil [of ns "{..<length ns}" s] walk_eps [of s ns] by auto
qed auto

lemma closure_total: "targets_ok ns \<Longrightarrow> set stack \<subseteq> {..<length ns} \<Longrightarrow> \<exists>W. closure ns stack V = Some W"
proof (induction ns stack V rule: closure.induct)
  case (2 ns s stack V)
  have "targets (ns ! s) \<subseteq> {..<length ns}" using "2.prems" by (simp add: targets_ok_def)
  with "2.prems" "2.IH" show ?case by (cases "s \<in> V"; cases "ns ! s") simp_all
qed simp

declare closure.simps [simp del]

lemma walk_closed: "walk ns p w q \<Longrightarrow> w = [] \<Longrightarrow> p \<in> W \<Longrightarrow> eps_in ns W W \<Longrightarrow> q \<in> W"
proof (induction rule: path.induct)
  case (path_Split p out out1 r w q)
  then have "r \<in> W" by (fastforce simp: eps_in_def)
  with path_Split show ?case by blast
qed auto

lemma closure_correct:
  assumes "targets_ok ns" "s < length ns" "eps_in ns V V"
  shows "closure ns [s] V = Some (V \<union> {q. walk ns s [] q})"
proof -
  from closure_total [OF assms(1)] assms(2) obtain W where W: "closure ns [s] V = Some W" by fastforce
  have "eps_in ns W W" using closure_closed [OF W] assms(3) by (auto simp: eps_in_def)
  then have "q \<in> W \<longleftrightarrow> q \<in> V \<union> {q. walk ns s [] q}" for q
    using closure_contains [OF W] closure_walk [OF W, of q] walk_closed [of ns s "[]" q W] by auto
  then have "W = V \<union> {q. walk ns s [] q}" by blast
  with W show ?thesis by simp
qed


section \<open>The subset construction\<close>

definition nfa_reach :: "nfa \<Rightarrow> nat \<Rightarrow> u8 list \<Rightarrow> nat set" where
  "nfa_reach ns start w = {q. walk ns start w q}"

lemma walk_range: "walk ns p w q \<Longrightarrow> targets_ok ns \<Longrightarrow> p < length ns \<Longrightarrow> q < length ns"
proof (induction rule: path.induct)
  case (path_Split p out out1 r w q)
  then have "r < length ns" by (auto simp: targets_ok_def)
  with path_Split show ?case by blast
next
  case (path_Read p c out b w q)
  then have "out < length ns" by (auto simp: targets_ok_def)
  with path_Read show ?case by blast
qed simp

lemma walk_Nil_eps: "eps_in ns {q. walk ns s w q} {q. walk ns s w q}"
proof -
  have "walk ns s w r" if "walk ns s w p" "p < length ns" "r \<in> eps (ns ! p)" for p r
    using path_trans [OF that(1) walk_eps [OF that(2,3) path_Nil]] by simp
  then show ?thesis by (auto simp: eps_in_def)
qed

text \<open>Where one byte leads from a state.\<close>

definition byte_step :: "nfa \<Rightarrow> u8 \<Rightarrow> nat \<Rightarrow> nat set" where
  "byte_step ns b p = {q. \<exists>c out. p < length ns \<and> ns ! p = Read c out \<and> bc_contains c b \<and> walk ns out [] q}"

lemma walk_snoc: "walk ns s (w @ [b]) q \<longleftrightarrow> (\<exists>p. walk ns s w p \<and> q \<in> byte_step ns b p)"
proof
  assume "walk ns s (w @ [b]) q"
  then show "\<exists>p. walk ns s w p \<and> q \<in> byte_step ns b p"
  proof (induction s "w @ [b]" q arbitrary: w rule: path.induct)
    case (path_Split p out out1 r q)
    then obtain p' where p': "walk ns r w p'" "q \<in> byte_step ns b p'" by blast
    moreover have "walk ns p w p'" using path.path_Split [OF path_Split.hyps(1-3)] p'(1) by blast
    ultimately show ?case by blast
  next
    case (path_Read p c out b' w' q)
    show ?case
    proof (cases w)
      case Nil
      with path_Read have "q \<in> byte_step ns b p" by (auto simp: byte_step_def)
      then show ?thesis using path_Nil Nil by blast
    next
      case (Cons x v)
      with path_Read.hyps(6) have v: "w' = v @ [b]" "x = b'" by auto
      with path_Read.hyps(5) obtain p' where p': "walk ns out v p'" "q \<in> byte_step ns b p'" by blast
      have "walk ns p w p'" using path.path_Read [OF path_Read.hyps(1-3) p'(1)] Cons v by simp
      with p' show ?thesis by blast
    qed
  qed simp
next
  assume "\<exists>p. walk ns s w p \<and> q \<in> byte_step ns b p"
  then obtain p c out where "walk ns s w p" "p < length ns" "ns ! p = Read c out" "bc_contains c b" "walk ns out [] q"
    by (auto simp: byte_step_def)
  then show "walk ns s (w @ [b]) q" by (meson lessThan_iff path.path_Read path_trans)
qed

lemma move_loop:
  assumes ok: "targets_ok ns" and V: "eps_in ns V V"
  shows "fold_opt (\<lambda>s nxt.
     if s < length ns then
       (case ns ! s of Read c out \<Rightarrow> if bc_contains c byte then closure ns [out] nxt else Some nxt | _ \<Rightarrow> Some nxt)
     else Some nxt) xs V = Some (V \<union> (\<Union>p \<in> set xs. byte_step ns byte p))"
  using V
proof (induction xs arbitrary: V)
  case (Cons s xs)
  show ?case
  proof (cases "\<exists>c out. s < length ns \<and> ns ! s = Read c out \<and> bc_contains c byte")
    case True
    then obtain c out where s: "s < length ns" "ns ! s = Read c out" "bc_contains c byte" by blast
    then have "out < length ns" using ok unfolding targets_ok_def by (metis insert_subset lessThan_iff targets.simps(2))
    from closure_correct [OF ok this Cons.prems] have c: "closure ns [out] V = Some (V \<union> byte_step ns byte s)"
      using s by (simp add: byte_step_def)
    have "eps_in ns (V \<union> byte_step ns byte s) (V \<union> byte_step ns byte s)"
      using Cons.prems walk_Nil_eps [of ns out "[]"] s by (auto simp: eps_in_def byte_step_def)
    from Cons.IH [OF this] show ?thesis using s c by (simp add: Un_assoc)
  next
    case False
    then have "byte_step ns byte s = {}" by (auto simp: byte_step_def)
    with False Cons.IH [OF Cons.prems] show ?thesis by (auto split: nfa_state.splits)
  qed
qed simp

lemma reach_finite: "targets_ok ns \<Longrightarrow> start < length ns \<Longrightarrow> nfa_reach ns start w \<subseteq> {..<length ns}"
  using walk_range by (auto simp: nfa_reach_def)

lemma move_reach:
  assumes "targets_ok ns" "start < length ns"
  shows "nfa_move ns (nfa_reach ns start w) b = Some (nfa_reach ns start (w @ [b]))"
proof -
  have "set (sorted_list_of_set (nfa_reach ns start w)) = nfa_reach ns start w"
    using reach_finite [OF assms] finite_subset by (metis finite_lessThan set_sorted_list_of_set)
  moreover have "eps_in ns {} {}" by (simp add: eps_in_def)
  ultimately have "nfa_move ns (nfa_reach ns start w) b = Some (\<Union>p \<in> nfa_reach ns start w. byte_step ns b p)"
    using move_loop [OF assms(1)] by (simp add: nfa_move_def)
  also have "(\<Union>p \<in> nfa_reach ns start w. byte_step ns b p) = nfa_reach ns start (w @ [b])"
    by (auto simp: nfa_reach_def walk_snoc)
  finally show ?thesis .
qed

lemma move_range: "nfa_move ns S b = Some T \<Longrightarrow> T \<subseteq> {..<length ns}"
proof -
  have "fold_opt (\<lambda>s nxt.
     if s < length ns then
       (case ns ! s of Read c out \<Rightarrow> if bc_contains c b then closure ns [out] nxt else Some nxt | _ \<Rightarrow> Some nxt)
     else Some nxt) xs V = Some T \<Longrightarrow> V \<subseteq> {..<length ns} \<Longrightarrow> T \<subseteq> {..<length ns}" for xs V
  proof (induction xs arbitrary: V)
    case (Cons s xs)
    then obtain V' where V': "(if s < length ns then
       (case ns ! s of Read c out \<Rightarrow> if bc_contains c b then closure ns [out] V else Some V | _ \<Rightarrow> Some V)
     else Some V) = Some V'" "fold_opt (\<lambda>s nxt.
     if s < length ns then
       (case ns ! s of Read c out \<Rightarrow> if bc_contains c b then closure ns [out] nxt else Some nxt | _ \<Rightarrow> Some nxt)
     else Some nxt) xs V' = Some T" by (auto split: bind_splits)
    then have "V' \<subseteq> {..<length ns}" using Cons.prems(2) closure_range [of ns _ V V']
      by (force split: if_splits nfa_state.splits)
    with Cons.IH V'(2) show ?case by blast
  qed simp
  then show "nfa_move ns S b = Some T \<Longrightarrow> T \<subseteq> {..<length ns}" unfolding nfa_move_def by blast
qed

interpretation determinise: subset_construction "nfa_move ns" "\<lambda>S. S = {}" "any_match ns" start for ns start
proof
  have "S = start \<or> S \<in> Pow {..<length ns}" if "S \<in> subsets (nfa_move ns) (\<lambda>S. S = {}) start" for S
    using that by induction (auto dest: move_range)
  then have "subsets (nfa_move ns) (\<lambda>S. S = {}) start \<subseteq> insert start (Pow {..<length ns})" by blast
  then show "finite (subsets (nfa_move ns) (\<lambda>S. S = {}) start)" by (rule finite_subset) simp
qed

lemma subsets_reach:
  assumes "targets_ok ns" "start < length ns" "S \<in> subsets (nfa_move ns) (\<lambda>S. S = {}) (nfa_reach ns start [])"
  shows "\<exists>w. S = nfa_reach ns start w"
  using assms(3)
proof induction
  case (subsets_step S b T)
  then show ?case using move_reach [OF assms(1,2)] by auto
qed blast

lemma nfa_moves: "targets_ok ns \<Longrightarrow> start < length ns \<Longrightarrow> moves (nfa_move ns) (\<lambda>S. S = {}) (nfa_reach ns start [])"
  using subsets_reach move_reach unfolding moves_def by metis

lemma reach_dead: "nfa_reach ns start u = {} \<Longrightarrow> nfa_reach ns start (u @ w) = {}"
proof (induction w rule: rev_induct)
  case (snoc b w)
  then show ?case using walk_snoc [of ns start "u @ w" b] by (auto simp: nfa_reach_def)
qed simp

lemma set_run_reach:
  assumes "targets_ok ns" "start < length ns"
  shows "set_run (nfa_move ns) (\<lambda>S. S = {}) w (nfa_reach ns start u) =
    (if w \<noteq> [] \<and> nfa_reach ns start (u @ w) = {} then None else Some (nfa_reach ns start (u @ w)))"
proof (induction w arbitrary: u)
  case (Cons b w)
  show ?case
  proof (cases "nfa_reach ns start (u @ [b]) = {}")
    case True
    then have "nfa_reach ns start (u @ b # w) = {}" using reach_dead [OF True, of w] by simp
    then show ?thesis using True move_reach [OF assms] by simp
  next
    case False
    then show ?thesis using Cons.IH [of "u @ [b]"] move_reach [OF assms] by auto
  qed
qed simp

definition nfa_subsets :: "nfa \<Rightarrow> usize \<Rightarrow> nat set set" where
  "nfa_subsets ns start = {S. S \<noteq> {} \<and> (\<exists>w. S = nfa_reach ns start w)}"

lemma subsets_all:
  assumes "targets_ok ns" "start < length ns"
  shows "subsets (nfa_move ns) (\<lambda>S. S = {}) (nfa_reach ns start []) = nfa_subsets ns start"
proof
  have ne: "S \<noteq> {}" if "S \<in> subsets (nfa_move ns) (\<lambda>S. S = {}) (nfa_reach ns start [])" for S
    using that path_Nil by induction (auto simp: nfa_reach_def)
  then show "subsets (nfa_move ns) (\<lambda>S. S = {}) (nfa_reach ns start []) \<subseteq> nfa_subsets ns start"
    using subsets_reach [OF assms] by (auto simp: nfa_subsets_def)
  have "nfa_reach ns start w \<noteq> {} \<Longrightarrow> nfa_reach ns start w \<in> subsets (nfa_move ns) (\<lambda>S. S = {}) (nfa_reach ns start [])" for w
  proof (induction w rule: rev_induct)
    case (snoc b w)
    then have "nfa_reach ns start w \<noteq> {}" using reach_dead [of ns start w "[b]"] by auto
    with snoc subsets_step [of "nfa_reach ns start w" "nfa_move ns" "\<lambda>S. S = {}" _ b] move_reach [OF assms] show ?case by simp
  qed (simp add: subsets_start)
  then show "nfa_subsets ns start \<subseteq> subsets (nfa_move ns) (\<lambda>S. S = {}) (nfa_reach ns start [])"
    by (auto simp: nfa_subsets_def)
qed

lemma any_match_reach: "any_match ns (nfa_reach ns start w) \<longleftrightarrow> nfa_accepts ns start w"
  by (auto simp: any_match_def nfa_reach_def nfa_accepts_def is_match_def)

lemma nfa_wf_split: "nfa_wf ns start \<longleftrightarrow> targets_ok ns \<and> start < length ns"
  by (auto simp: nfa_wf_def targets_ok_def)

lemma from_nfa_run:
  assumes "nfa_wf ns start"
  shows "if card (nfa_subsets ns start) \<le> max_dfa_states then
      \<exists>d. from_nfa ns start = Some (Inr d) \<and> dfa_wf d \<and> state_count d = card (nfa_subsets ns start) \<and>
        (dt_matches_empty d \<longleftrightarrow> nfa_accepts ns start []) \<and> (\<forall>w. dfa_accepts d w \<longleftrightarrow> nfa_accepts ns start w)
    else from_nfa ns start = Some (Inl (TooManyStates (max_dfa_states + 1) max_dfa_states))"
proof -
  let ?S = "nfa_reach ns start []" and ?dead = "\<lambda>S :: nat set. S = {}"
  have ok: "targets_ok ns" "start < length ns" using assms by (simp_all add: nfa_wf_split)
  have c: "closure ns [start] {} = Some ?S" using closure_correct [OF ok, of "{}"] by (simp add: eps_in_def nfa_reach_def)
  obtain s ex0 where r: "register_set (any_match ns) ?S explorer_empty = (s, ex0)" by (metis surj_pair)
  have acc: "(\<exists>T. set_run (nfa_move ns) ?dead w ?S = Some T \<and> any_match ns T) \<longleftrightarrow> nfa_accepts ns start w" for w
    using set_run_reach [OF ok, of w "[]"] any_match_reach [of ns start w] by (auto simp: any_match_def)
  show ?thesis
  proof (cases "card (nfa_subsets ns start) \<le> max_dfa_states")
    case True
    with determinise.construction [OF r nfa_moves [OF ok]] subsets_all [OF ok] acc obtain ex where
      ex: "explore (nfa_move ns) ?dead (any_match ns) (push_work ?S ex0) = Some (Inr ex)" and
      d: "\<And>d. dt_states d = ex_states ex \<Longrightarrow> dt_start d = s \<Longrightarrow> dfa_wf d \<and> length (dt_states d) = card (nfa_subsets ns start) \<and>
        (\<forall>w. dfa_accepts d w \<longleftrightarrow> nfa_accepts ns start w)" by auto
    let ?d = "\<lparr>dt_states = ex_states ex, dt_start = s, dt_matches_empty = any_match ns ?S\<rparr>"
    have "from_nfa ns start = Some (Inr ?d)" using c r ex by (simp add: from_nfa_def new_state_def)
    moreover have "dfa_wf ?d \<and> state_count ?d = card (nfa_subsets ns start) \<and> (\<forall>w. dfa_accepts ?d w \<longleftrightarrow> nfa_accepts ns start w)"
      using d [of ?d] by (simp add: state_count_def)
    ultimately show ?thesis using True any_match_reach [of ns start "[]"] by simp
  next
    case False
    with determinise.construction [OF r nfa_moves [OF ok]] subsets_all [OF ok] c r show ?thesis
      by (simp add: from_nfa_def new_state_def)
  qed
qed

text \<open>
  C5: On every well-formed automaton the subset construction returns: a deterministic automaton
  that accepts the same words, has one state for each reachable set and only valid indices, or
  the error TooManyStates exactly when there are more than 4096 reachable sets.
\<close>

theorem from_nfa_correct:
  assumes "nfa_wf ns start"
  shows "if card (nfa_subsets ns start) \<le> max_dfa_states then
      \<exists>d. from_nfa ns start = Some (Inr d) \<and> dfa_wf d \<and> state_count d = card (nfa_subsets ns start) \<and>
        (dt_matches_empty d \<longleftrightarrow> nfa_accepts ns start []) \<and> (\<forall>w. dfa_accepts d w \<longleftrightarrow> nfa_accepts ns start w)
    else from_nfa ns start = Some (Inl (TooManyStates (max_dfa_states + 1) max_dfa_states))"
  using assms by (rule from_nfa_run)

text \<open>A small automaton always fits.\<close>

lemma nfa_subsets_card:
  assumes "nfa_wf ns start"
  shows "card (nfa_subsets ns start) \<le> 2 ^ length ns"
proof -
  have "nfa_subsets ns start \<subseteq> Pow {..<length ns}"
    using reach_finite assms by (auto simp: nfa_subsets_def nfa_wf_split)
  then have "card (nfa_subsets ns start) \<le> card (Pow {..<length ns})" by (intro card_mono) auto
  then show ?thesis by (simp add: card_Pow)
qed

theorem from_nfa_correct_witness:
  "\<exists>d. from_nfa [Read (bc_singleton 97) 1, Match] 0 = Some (Inr d) \<and> dfa_accepts d [97]"
proof -
  let ?ns = "[Read (bc_singleton 97) 1, Match]"
  have wf: "nfa_wf ?ns 0" by (auto simp: nfa_wf_def less_Suc_eq)
  have "card (nfa_subsets ?ns 0) \<le> max_dfa_states" using nfa_subsets_card [OF wf] by (simp add: max_dfa_states_def)
  with from_nfa_correct [OF wf] obtain d where d: "from_nfa ?ns 0 = Some (Inr d)" "\<forall>w. dfa_accepts d w \<longleftrightarrow> nfa_accepts ?ns 0 w" by auto
  have "walk ?ns 0 [97] 1" using path_Read [of 0 "{..<length ?ns}" ?ns "bc_singleton 97" 1 97 "[]" 1] path_Nil by simp
  then have "nfa_accepts ?ns 0 [97]" by (auto simp: nfa_accepts_def intro!: exI [of _ 1])
  with d show ?thesis by blast
qed

section \<open>The reversed automaton\<close>

text \<open>The states from which some prefix of the word is accepted.\<close>

definition live :: "determinized \<Rightarrow> u8 list \<Rightarrow> nat set" where
  "live d u = {p. p < length (dt_states d) \<and> (\<exists>k \<le> length u. \<exists>t. dfa_run d (take k u) p = Some t \<and> accepting d t)}"

lemma reverse_move_eq:
  "reverse_move d S b = Some (accept_set d \<union> {p. p < length (dt_states d) \<and> (\<exists>t \<in> S. transition (dt_states d ! p) b = Some t)})"
proof -
  have "fold (\<lambda>source nxt. case transition (dt_states d ! source) b of
       Some target \<Rightarrow> if target \<in> S then insert source nxt else nxt | None \<Rightarrow> nxt) xs V =
     V \<union> {p. p \<in> set xs \<and> (\<exists>t \<in> S. transition (dt_states d ! p) b = Some t)}" for xs V
  proof (induction xs arbitrary: V)
    case (Cons x xs)
    show ?case
    proof (cases "\<exists>t \<in> S. transition (dt_states d ! x) b = Some t")
      case True
      then show ?thesis by (auto simp: Cons.IH)
    next
      case False
      then have "(case transition (dt_states d ! x) b of Some target \<Rightarrow> if target \<in> S then insert x V else V | None \<Rightarrow> V) = V"
        by (auto split: option.splits)
      with False show ?thesis by (auto simp: Cons.IH)
    qed
  qed simp
  then show ?thesis by (simp add: reverse_move_def)
qed

lemma accept_set_eq: "accept_set d = {p. accepting d p}"
  by (auto simp: accept_set_def accepting_def)

lemma live_Nil: "live d [] = accept_set d"
  by (auto simp: live_def accept_set_eq accepting_def)

lemma ex_le_Suc: "(\<exists>k \<le> Suc n. P k) \<longleftrightarrow> P 0 \<or> (\<exists>k \<le> n. P (Suc k))"
  by (metis Suc_le_mono le0 not0_implies_Suc)

lemma reverse_move_live: "dfa_wf d \<Longrightarrow> reverse_move d (live d u) b = Some (live d (b # u))"
proof -
  assume wf: "dfa_wf d"
  have "t < length (dt_states d)" if "p < length (dt_states d)" "transition (dt_states d ! p) b = Some t" for p t
    using dfa_run_in_range [OF wf that(1), of "[b]" t] that by (simp add: next_state_def)
  then have "p \<in> live d (b # u) \<longleftrightarrow> p \<in> accept_set d \<union> {p. p < length (dt_states d) \<and> (\<exists>t \<in> live d u. transition (dt_states d ! p) b = Some t)}" for p
    unfolding live_def accept_set_eq by (auto simp: ex_le_Suc next_state_def accepting_def split: bind_splits)
  then show ?thesis unfolding reverse_move_eq by blast
qed

lemma set_run_append: "set_run move dead (u @ v) S = do { T \<leftarrow> set_run move dead u S; set_run move dead v T }"
  by (induction u arbitrary: S) (auto split: bind_splits)

lemma set_run_live: "dfa_wf d \<Longrightarrow> set_run (reverse_move d) (\<lambda>_. False) (rev u) (accept_set d) = Some (live d u)"
  by (induction u) (simp_all add: live_Nil set_run_append reverse_move_live)

interpretation reversed: subset_construction "reverse_move d" "\<lambda>_. False" "\<lambda>S. dt_start d \<in> S" "accept_set d" for d
proof
  have "S \<subseteq> {..<length (dt_states d)}" if "S \<in> subsets (reverse_move d) (\<lambda>_. False) (accept_set d)" for S
    using that by induction (auto simp: reverse_move_eq accept_set_def)
  then have "subsets (reverse_move d) (\<lambda>_. False) (accept_set d) \<subseteq> Pow {..<length (dt_states d)}" by blast
  then show "finite (subsets (reverse_move d) (\<lambda>_. False) (accept_set d))" by (rule finite_subset) simp
qed

lemma reverse_subsets:
  assumes "dfa_wf d"
  shows "subsets (reverse_move d) (\<lambda>_. False) (accept_set d) = range (live d)"
proof
  have "\<exists>u. S = live d u" if "S \<in> subsets (reverse_move d) (\<lambda>_. False) (accept_set d)" for S
    using that
  proof induction
    case (subsets_step S b T)
    then show ?case using reverse_move_live [OF assms] by auto
  qed (metis live_Nil)
  then show "subsets (reverse_move d) (\<lambda>_. False) (accept_set d) \<subseteq> range (live d)" by blast
  have "live d u \<in> subsets (reverse_move d) (\<lambda>_. False) (accept_set d)" for u
  proof (induction u)
    case (Cons b u)
    show ?case by (rule subsets_step [OF Cons.IH reverse_move_live [OF assms]]) simp
  qed (simp add: live_Nil subsets_start)
  then show "range (live d) \<subseteq> subsets (reverse_move d) (\<lambda>_. False) (accept_set d)" by blast
qed

lemma reverse_run:
  assumes "dfa_wf d"
  shows "if card (range (live d)) \<le> max_dfa_states then
      \<exists>r. reverse d = Some (Inr r) \<and> dfa_wf r \<and> state_count r = card (range (live d)) \<and> dt_matches_empty r = dt_matches_empty d \<and>
        (\<forall>u. dfa_accepts r (rev u) \<longleftrightarrow> (\<exists>k \<le> length u. dfa_accepts d (take k u)))
    else reverse d = Some (Inl (TooManyStates (max_dfa_states + 1) max_dfa_states))"
proof -
  let ?acc = "\<lambda>S. dt_start d \<in> S" and ?dead = "\<lambda>_. False"
  obtain s ex0 where r: "register_set ?acc (accept_set d) explorer_empty = (s, ex0)" by (metis surj_pair)
  have total: "moves (reverse_move d) ?dead (accept_set d)" by (simp add: moves_def reverse_move_eq)
  have ne: "dt_states d \<noteq> []" using assms by (auto simp: dfa_wf_def)
  have acc: "(\<exists>T. set_run (reverse_move d) ?dead (rev u) (accept_set d) = Some T \<and> dt_start d \<in> T) \<longleftrightarrow> (\<exists>k \<le> length u. dfa_accepts d (take k u))" for u
    using set_run_live [OF assms, of u] assms by (auto simp: live_def dfa_accepts_def dfa_wf_def)
  show ?thesis
  proof (cases "card (range (live d)) \<le> max_dfa_states")
    case True
    with reversed.construction [OF r total] reverse_subsets [OF assms] obtain ex where
      ex: "explore (reverse_move d) ?dead ?acc (push_work (accept_set d) ex0) = Some (Inr ex)" and
      d: "\<And>r. dt_states r = ex_states ex \<Longrightarrow> dt_start r = s \<Longrightarrow> dfa_wf r \<and> length (dt_states r) = card (range (live d)) \<and>
        (\<forall>w. dfa_accepts r w \<longleftrightarrow> (\<exists>T. set_run (reverse_move d) ?dead w (accept_set d) = Some T \<and> dt_start d \<in> T))" by auto
    let ?r = "\<lparr>dt_states = ex_states ex, dt_start = s, dt_matches_empty = dt_matches_empty d\<rparr>"
    have "reverse d = Some (Inr ?r)" using ne r ex by (simp add: reverse_def register_reverse_def)
    then show ?thesis using True d [of ?r] acc by (simp add: state_count_def)
  next
    case False
    with reversed.construction [OF r total] reverse_subsets [OF assms] ne r show ?thesis
      by (simp add: reverse_def register_reverse_def)
  qed
qed

text \<open>
  C6: On every well-formed deterministic automaton the reversal returns an automaton that,
  reading a text backwards, accepts exactly when some prefix of the text is accepted, or
  TooManyStates exactly when it needs more than 4096 states.
\<close>

theorem reverse_correct:
  assumes "dfa_wf d"
  shows "if card (range (live d)) \<le> max_dfa_states then
      \<exists>r. reverse d = Some (Inr r) \<and> dfa_wf r \<and> state_count r = card (range (live d)) \<and> dt_matches_empty r = dt_matches_empty d \<and>
        (\<forall>u. dfa_accepts r (rev u) \<longleftrightarrow> (\<exists>k \<le> length u. dfa_accepts d (take k u)))
    else reverse d = Some (Inl (TooManyStates (max_dfa_states + 1) max_dfa_states))"
  using assms by (rule reverse_run)

lemma live_card:
  shows "card (range (live d)) \<le> 2 ^ length (dt_states d)"
proof -
  have "range (live d) \<subseteq> Pow {..<length (dt_states d)}" by (auto simp: live_def)
  then have "card (range (live d)) \<le> card (Pow {..<length (dt_states d)})" by (intro card_mono) auto
  then show ?thesis by (simp add: card_Pow)
qed

text \<open>A one-state automaton that accepts every word of the letter \<open>a\<close>.\<close>

definition only_a :: determinized where
  "only_a = \<lparr>dt_states = [\<lparr>ds_accept = True, ds_transitions = (replicate 256 None)[97 := Some 0], ds_repeat = None\<rparr>],
     dt_start = 0, dt_matches_empty = True\<rparr>"

lemma only_a_wf: "dfa_wf only_a"
  by (auto simp: dfa_wf_def only_a_def dest!: set_update_subset_insert [THEN subsetD])

theorem reverse_correct_witness:
  "\<exists>r. reverse only_a = Some (Inr r) \<and> dfa_accepts r [98, 97] \<and> dt_matches_empty r"
proof -
  have "card (range (live only_a)) \<le> max_dfa_states" using live_card [of only_a] by (simp add: only_a_def max_dfa_states_def)
  with reverse_correct [OF only_a_wf] obtain r where r: "reverse only_a = Some (Inr r)" "dt_matches_empty r = dt_matches_empty only_a"
    "\<forall>u. dfa_accepts r (rev u) \<longleftrightarrow> (\<exists>k \<le> length u. dfa_accepts only_a (take k u))" by auto
  have "dfa_accepts only_a (take 1 [97, 98])"
    by (simp add: dfa_accepts_def only_a_def next_state_def transition_def accepting_def)
  with r(3) have "dfa_accepts r (rev [97, 98])" by (metis One_nat_def Suc_le_mono length_Cons le0)
  with r show ?thesis by (simp add: only_a_def)
qed

end
