(* ===== verification/Negex_Search_Props.thy ===== *)
theory Negex_Search_Props
  imports Negex_Search Negex_Automata
begin

text \<open>
  The search is right: the interpreter reports the longest accepted prefix, the scan over the reversed
  automaton the least offset at which a match begins, and both together the leftmost-longest match of
  the pattern's language. The transition table of the generated code steps like the automaton.
\<close>

declare exec_loop.simps [simp del]

section \<open>The longest prefix\<close>

text \<open>What has been recorded once the prefixes shorter than \<open>n\<close> have been looked at.\<close>

definition recorded :: "determinized \<Rightarrow> u8 list \<Rightarrow> nat \<Rightarrow> match_item \<times> bool \<Rightarrow> bool" where
  "recorded d input n r \<longleftrightarrow> mi_start (fst r) = 0 \<and> mi_result (fst r) = (if snd r then 1 else 0) \<and>
     (if snd r then unat (mi_end (fst r)) < n \<and> dfa_accepts d (take (unat (mi_end (fst r))) input) \<and>
        (\<forall>k < n. dfa_accepts d (take k input) \<longrightarrow> k \<le> unat (mi_end (fst r)))
      else mi_end (fst r) = 0 \<and> (\<forall>k < n. \<not> dfa_accepts d (take k input)))"

lemma note_recorded:
  assumes "recorded d input (unat pc) r" "dfa_run d (take (unat pc) input) (dt_start d) = Some state"
  shows "recorded d input (Suc (unat pc)) (note_accept d state pc r)"
proof -
  have "dfa_accepts d (take (unat pc) input) \<longleftrightarrow> accepting d state" using assms(2) by (simp add: dfa_accepts_def)
  then show ?thesis using assms(1) by (auto simp: recorded_def note_accept_def less_Suc_eq)
qed

lemma dead_prefix:
  assumes "dfa_run d (take n input) (dt_start d) = Some state" "next_state d (input ! n) state = None" "n < k" "n < length input"
  shows "\<not> dfa_accepts d (take k input)"
proof -
  have "take k input = take n input @ input ! n # take (k - Suc n) (drop (Suc n) input)"
    using assms(3,4) by (metis Cons_nth_drop_Suc Suc_diff_Suc add_diff_inverse_nat less_imp_le_nat not_less take_Suc_Cons take_add)
  then show ?thesis using assms(1,2) by (simp add: dfa_accepts_def dfa_run_append)
qed

lemma note_twice: "note_accept d state pc (note_accept d state pc r) = note_accept d state pc r"
  by (simp add: note_accept_def)

lemma recorded_extend:
  assumes "recorded d input n r" "n \<le> m" "\<And>k. n \<le> k \<Longrightarrow> k < m \<Longrightarrow> \<not> dfa_accepts d (take k input)"
  shows "recorded d input m r"
proof -
  have "(\<forall>k < m. dfa_accepts d (take k input) \<longrightarrow> P k) \<longleftrightarrow> (\<forall>k < n. dfa_accepts d (take k input) \<longrightarrow> P k)" for P
    using assms(2,3) by (meson less_le_trans not_less)
  from this [of "\<lambda>k. k \<le> unat (mi_end (fst r))"] this [of "\<lambda>k. False"] show ?thesis
    using assms(1,2) unfolding recorded_def by (cases "snd r") simp_all
qed

lemma exec_loop_correct:
  assumes "length input < 2 ^ 32" "unat pc \<le> length input" "dfa_run d (take (unat pc) input) (dt_start d) = Some state"
    "recorded d input (unat pc) r"
  shows "\<exists>state' pc' r'. exec_loop d input state pc r = Some (state', pc', r') \<and>
     recorded d input (Suc (length input)) (note_accept d state' pc' r')"
  using assms
proof (induction d input state pc r rule: exec_loop.induct)
  case (1 d input state pc r)
  let ?n = "unat pc" and ?r = "note_accept d state pc r"
  have L: "unat (word_of_nat (length input) :: u32) = length input" using "1.prems"(1) by (simp add: unat_of_nat)
  have noted: "recorded d input (Suc ?n) ?r" using note_recorded "1.prems" by blast
  show ?case
  proof (cases "pc < word_of_nat (length input)")
    case False
    then have "?n = length input" using "1.prems"(2) L by (simp add: word_less_nat_alt)
    with noted False show ?thesis by (simp add: exec_loop.simps [of d input])
  next
    case True
    then have n: "?n < length input" using L by (simp add: word_less_nat_alt)
    show ?thesis
    proof (cases "next_state d (input ! ?n) state")
      case None
      have "recorded d input (Suc (length input)) ?r"
        using recorded_extend [OF noted] dead_prefix [OF "1.prems"(3) None] n by auto
      then have "recorded d input (Suc (length input)) (note_accept d state pc ?r)" by (simp only: note_twice)
      with None True n show ?thesis by (simp add: exec_loop.simps [of d input] Let_def)
    next
      case (Some nxt)
      have succ: "unat (pc + 1) = Suc ?n" using unat_succ True by blast
      have "dfa_run d (take (unat (pc + 1)) input) (dt_start d) = Some nxt"
        using "1.prems"(3) Some n by (simp add: succ take_Suc_conv_app_nth dfa_run_append)
      with "1.IH" [OF True refl n Some] "1.prems"(1) noted succ n
      show ?thesis using True Some by (simp add: exec_loop.simps [of d input state] Let_def)
    qed
  qed
qed

lemma interp_exec_correct:
  assumes "length input < 2 ^ 32"
  shows "\<exists>found item'. interp_exec d input item = Some (found, item') \<and> mi_start item' = 0 \<and>
     mi_result item' = (if found then 1 else 0) \<and>
     (if found then unat (mi_end item') \<le> length input \<and> dfa_accepts d (take (unat (mi_end item')) input) \<and>
        (\<forall>k \<le> length input. dfa_accepts d (take k input) \<longrightarrow> k \<le> unat (mi_end item'))
      else mi_end item' = 0 \<and> (\<forall>k \<le> length input. \<not> dfa_accepts d (take k input)))"
proof -
  let ?r = "(item\<lparr>mi_result := 0, mi_start := 0, mi_end := 0\<rparr>, False)"
  have "recorded d input (unat (0 :: u32)) ?r" by (simp add: recorded_def)
  from exec_loop_correct [OF assms _ _ this, of "dt_start d"] obtain state pc r where
    "exec_loop d input (dt_start d) 0 ?r = Some (state, pc, r)" "recorded d input (Suc (length input)) (note_accept d state pc r)" by auto
  then show ?thesis by (cases "note_accept d state pc r") (auto simp: interp_exec_def recorded_def less_Suc_eq_le)
qed

section \<open>The leftmost start\<close>

definition begins :: "determinized \<Rightarrow> u8 list \<Rightarrow> nat \<Rightarrow> bool" where
  "begins r input i \<longleftrightarrow> i \<le> length input \<and> dfa_accepts r (rev (drop i input))"

fun least_from :: "(nat \<Rightarrow> bool) \<Rightarrow> nat \<Rightarrow> nat option \<Rightarrow> bool" where
  "least_from P n None \<longleftrightarrow> (\<forall>i. n \<le> i \<longrightarrow> \<not> P i)"
| "least_from P n (Some b) \<longleftrightarrow> n \<le> b \<and> P b \<and> (\<forall>i. n \<le> i \<longrightarrow> P i \<longrightarrow> b \<le> i)"

lemma least_from_down: "least_from P (Suc n) best \<Longrightarrow> least_from P n (if P n then Some n else best)"
proof (cases "P n")
  case False
  have split: "n \<le> i \<longleftrightarrow> i = n \<or> Suc n \<le> i" for i by auto
  assume "least_from P (Suc n) best"
  with False show ?thesis by (cases best) (simp, metis split, simp, metis split)
qed simp

lemma least_from_skip: "least_from P n best \<Longrightarrow> (\<And>i. i < n \<Longrightarrow> \<not> P i) \<Longrightarrow> least_from P 0 best"
  by (cases best) (auto, (meson not_less)+)

lemma dead_suffix:
  assumes "dfa_run r (rev (drop (Suc n) input)) (dt_start r) = Some state" "next_state r (input ! n) state = None" "i \<le> n" "n < length input"
  shows "\<not> begins r input i"
proof -
  have "drop i input = take (n - i) (drop i input) @ input ! n # drop (Suc n) input"
    using assms(3,4) by (metis Cons_nth_drop_Suc append_take_drop_id drop_drop le_add_diff_inverse2)
  then have "rev (drop i input) = rev (drop (Suc n) input) @ input ! n # rev (take (n - i) (drop i input))" by (metis rev.simps(2) rev_append append.assoc append_Cons append_Nil)
  then show ?thesis using assms(1,2) by (simp add: begins_def dfa_accepts_def dfa_run_append)
qed

lemma scan_back_correct:
  "n \<le> length input \<Longrightarrow> dfa_run r (rev (drop n input)) (dt_start r) = Some state \<Longrightarrow> least_from (begins r input) n best \<Longrightarrow>
   least_from (begins r input) 0 (scan_back r input n state best)"
proof (induction n arbitrary: state best)
  case (Suc n)
  show ?case
  proof (cases "next_state r (input ! n) state")
    case None
    with dead_suffix [OF Suc.prems(2) None] Suc.prems(1,3) show ?thesis
      using least_from_skip by (auto simp: less_Suc_eq_le)
  next
    case (Some nxt)
    have "drop n input = input ! n # drop (Suc n) input" using Suc.prems(1) by (simp add: Cons_nth_drop_Suc)
    then have run: "dfa_run r (rev (drop n input)) (dt_start r) = Some nxt" using Suc.prems(2) Some by (simp add: dfa_run_append)
    have "accepting r nxt \<longleftrightarrow> begins r input n" using run Suc.prems(1) by (simp add: begins_def dfa_accepts_def)
    with Suc.IH [OF _ run] Suc.prems(1) least_from_down [OF Suc.prems(3)] Some show ?thesis by simp
  qed
qed simp

section \<open>The leftmost-longest match\<close>

definition match_at :: "lang \<Rightarrow> u8 list \<Rightarrow> nat \<Rightarrow> nat \<Rightarrow> bool" where
  "match_at L input i j \<longleftrightarrow> i \<le> j \<and> j \<le> length input \<and> take (j - i) (drop i input) \<in> L"

definition leftmost_longest :: "lang \<Rightarrow> u8 list \<Rightarrow> match_result \<Rightarrow> bool" where
  "leftmost_longest L input res \<longleftrightarrow>
     (if \<exists>i j. match_at L input i j then
        mr_is_match res \<and> match_at L input (mr_start res) (mr_end res) \<and>
        (\<forall>i j. match_at L input i j \<longrightarrow> mr_start res \<le> i \<and> (i = mr_start res \<longrightarrow> j \<le> mr_end res))
      else res = no_match)"

definition reverses :: "determinized \<Rightarrow> determinized \<Rightarrow> bool" where
  "reverses rv d \<longleftrightarrow> (\<forall>u. dfa_accepts rv (rev u) \<longleftrightarrow> (\<exists>k \<le> length u. dfa_accepts d (take k u)))"

abbreviation dfa_lang :: "determinized \<Rightarrow> lang" where
  "dfa_lang d \<equiv> {w. dfa_accepts d w}"

lemma begins_match:
  assumes "reverses rv d"
  shows "begins rv input i \<longleftrightarrow> (\<exists>j. match_at (dfa_lang d) input i j)"
proof
  assume "begins rv input i"
  then obtain k where "i \<le> length input" "k \<le> length (drop i input)" "dfa_accepts d (take k (drop i input))"
    using assms by (auto simp: begins_def reverses_def)
  then have "match_at (dfa_lang d) input i (i + k)" by (auto simp: match_at_def)
  then show "\<exists>j. match_at (dfa_lang d) input i j" by blast
next
  assume "\<exists>j. match_at (dfa_lang d) input i j"
  then obtain j where "i \<le> j" "j \<le> length input" "dfa_accepts d (take (j - i) (drop i input))" by (auto simp: match_at_def)
  then show "begins rv input i" using assms by (auto simp: begins_def reverses_def intro!: exI [of _ "j - i"])
qed

lemma accepts_some: "dfa_accepts d w \<Longrightarrow> list_ex ds_accept (dt_states d)"
  by (auto simp: dfa_accepts_def accepting_def list_ex_iff intro!: bexI [OF _ nth_mem])

lemma find_start_correct:
  assumes "reverses (cr_reverse c) (cr_dfa c)"
  shows "least_from (begins (cr_reverse c) input) 0 (find_start c input)"
proof (cases "list_ex ds_accept (dt_states (cr_dfa c))")
  case False
  then have "\<not> begins (cr_reverse c) input i" for i
    using begins_match [OF assms] accepts_some [of "cr_dfa c"] by (auto simp: match_at_def)
  with False show ?thesis by (simp add: find_start_def)
next
  case True
  let ?r = "cr_reverse c" and ?n = "length input"
  let ?best = "if accepting ?r (dt_start ?r) then Some ?n else None"
  have "begins ?r input ?n \<longleftrightarrow> accepting ?r (dt_start ?r)" by (simp add: begins_def dfa_accepts_def)
  moreover have "i = ?n" if "?n \<le> i" "begins ?r input i" for i using that by (simp add: begins_def)
  ultimately have "least_from (begins ?r input) ?n ?best" by auto
  from scan_back_correct [OF _ _ this] True show ?thesis by (simp add: find_start_def)
qed

lemma interp_longest:
  assumes "length input < 2 ^ 32" "start \<le> length input" "\<exists>j. match_at (dfa_lang d) input start j"
  shows "\<exists>res. interp_result d (drop start input) start = Some res \<and> mr_is_match res \<and> mr_start res = start \<and>
     match_at (dfa_lang d) input start (mr_end res) \<and> (\<forall>j. match_at (dfa_lang d) input start j \<longrightarrow> j \<le> mr_end res)"
proof -
  let ?rest = "drop start input"
  have len: "length ?rest < 2 ^ 32" using assms(1) by simp
  from interp_exec_correct [OF len, of d "match_item_new ?rest"] obtain found item where
    run: "interp_exec d ?rest (match_item_new ?rest) = Some (found, item)" "mi_start item = 0" and
    spec: "if found then unat (mi_end item) \<le> length ?rest \<and> dfa_accepts d (take (unat (mi_end item)) ?rest) \<and>
        (\<forall>k \<le> length ?rest. dfa_accepts d (take k ?rest) \<longrightarrow> k \<le> unat (mi_end item))
      else (\<forall>k \<le> length ?rest. \<not> dfa_accepts d (take k ?rest))" by (auto split: if_splits)
  have prefix: "j - start \<le> length ?rest \<and> dfa_accepts d (take (j - start) ?rest) \<and> start \<le> j" if "match_at (dfa_lang d) input start j" for j
    using that by (auto simp: match_at_def)
  then have found: "found" using assms(3) spec by (auto split: if_splits)
  let ?res = "\<lparr>mr_is_match = found, mr_start = start + unat (mi_start item), mr_end = start + unat (mi_end item)\<rparr>"
  have "match_at (dfa_lang d) input start (mr_end ?res)" using spec found assms(2) by (auto simp: match_at_def)
  moreover have "j \<le> mr_end ?res" if "match_at (dfa_lang d) input start j" for j
    using prefix [OF that] spec found by auto
  ultimately show ?thesis using run found by (simp add: interp_result_def)
qed

text \<open>The search of \<open>exec\<close>, whenever the generated code does not answer.\<close>

lemma search_automata:
  assumes "reverses (cr_reverse c) (cr_dfa c)" "length input < 2 ^ 32"
    and native: "case native of None \<Rightarrow> True | Some run \<Rightarrow> \<forall>rest offset. run rest offset = Inl NoTrampoline"
  shows "\<exists>res. negex_exec native c input = Some (Inr res) \<and> leftmost_longest (dfa_lang (cr_dfa c)) input res"
proof (cases "find_start c input")
  case None
  then have "\<not> (\<exists>i j. match_at (dfa_lang (cr_dfa c)) input i j)"
    using find_start_correct [OF assms(1), of input] begins_match [OF assms(1)] by simp
  then show ?thesis using None by (simp add: negex_exec_def leftmost_longest_def)
next
  case (Some start)
  with find_start_correct [OF assms(1), of input] begins_match [OF assms(1)] have
    here: "\<exists>j. match_at (dfa_lang (cr_dfa c)) input start j" and
    first: "\<And>i j. match_at (dfa_lang (cr_dfa c)) input i j \<Longrightarrow> start \<le> i" by auto
  from here have "start \<le> length input" by (auto simp: match_at_def)
  from interp_longest [OF assms(2) this here] obtain res where
    res: "interp_result (cr_dfa c) (drop start input) start = Some res" "mr_is_match res" "mr_start res = start"
      "match_at (dfa_lang (cr_dfa c)) input start (mr_end res)" "\<forall>j. match_at (dfa_lang (cr_dfa c)) input start j \<longrightarrow> j \<le> mr_end res" by blast
  then have "negex_exec native c input = Some (Inr res)"
    using Some native by (auto simp: negex_exec_def exec_interp_def split: option.splits)
  moreover have "leftmost_longest (dfa_lang (cr_dfa c)) input res"
    using res here first unfolding leftmost_longest_def by auto
  ultimately show ?thesis by blast
qed

section \<open>Trees\<close>

lemma compile_automata_run:
  assumes "regex_ok r"
  shows "compile_automata r = Some (Inl (TooManyStates (max_dfa_states + 1) max_dfa_states)) \<or>
     (\<exists>d rv. compile_automata r = Some (Inr (d, rv)) \<and> dfa_wf d \<and> dfa_wf rv \<and> dfa_lang d = regex_lang r \<and> reverses rv d)"
proof -
  from nfa_build_run [OF assms] obtain ns start where
    ns: "nfa_build r = Some (Inr (ns, start))" "nfa_wf ns start" "\<forall>w. nfa_accepts ns start w \<longleftrightarrow> w \<in> regex_lang r" by blast
  show ?thesis
  proof (cases "card (nfa_subsets ns start) \<le> max_dfa_states")
    case False
    with from_nfa_run [OF ns(2)] ns(1) show ?thesis by (simp add: compile_automata_def)
  next
    case True
    with from_nfa_run [OF ns(2)] obtain d where
      d: "from_nfa ns start = Some (Inr d)" "dfa_wf d" "\<forall>w. dfa_accepts d w \<longleftrightarrow> nfa_accepts ns start w" by auto
    have L: "dfa_lang d = regex_lang r" using d(3) ns(3) by auto
    from reverse_run [OF d(2)] d(1,2) ns(1) L show ?thesis
      by (auto simp: compile_automata_def reverses_def split: if_splits)
  qed
qed

section \<open>The transition table\<close>

definition table_step :: "u32 list \<Rightarrow> u32 \<Rightarrow> u8 \<Rightarrow> u32" where
  "table_step table row byte = entry_row (table ! (unat row + unat byte))"

definition row_of :: "usize option \<Rightarrow> u32" where
  "row_of s = (case s of None \<Rightarrow> 0 | Some t \<Rightarrow> word_of_nat (state_row t * trans_table_row))"

lemma length_all_bytes [simp]: "length all_bytes = 256"
  by (simp add: all_bytes_def)

lemma nth_all_bytes [simp]: "all_bytes ! unat (b :: u8) = b"
  using unsigned_less [of b, where ?'a = nat] by (simp add: all_bytes_def)

lemma table_rows:
  assumes "n \<le> length (dt_states d)"
  shows "fold (\<lambda>index table.
       let row = state_row index in
       if row * trans_table_row + trans_table_row \<le> length table
       then take (row * trans_table_row) table @ map (table_entry (dt_states d ! index)) all_bytes
              @ drop (row * trans_table_row + trans_table_row) table
       else table)
     [0..<n] (replicate (state_row (length (dt_states d)) * trans_table_row) 0) =
     concat (replicate 256 0 # map (\<lambda>st. map (table_entry st) all_bytes) (take n (dt_states d))) @
     replicate ((length (dt_states d) - n) * trans_table_row) 0"
  using assms
proof (induction n)
  case 0
  then show ?case by (simp add: state_row_def trans_table_row_def replicate_add)
next
  case (Suc n)
  let ?pre = "concat (replicate 256 0 # map (\<lambda>st. map (table_entry st) all_bytes) (take n (dt_states d)))"
  have len: "length (concat (map (\<lambda>st. map (table_entry st) all_bytes) sts)) = 256 * length sts" for sts
    by (induction sts) simp_all
  have pre: "length ?pre = state_row n * trans_table_row"
    using Suc.prems by (simp add: len state_row_def trans_table_row_def)
  have more: "(length (dt_states d) - n) * trans_table_row = trans_table_row + (length (dt_states d) - Suc n) * trans_table_row"
    using Suc.prems by (metis Suc_diff_Suc Suc_le_lessD mult_Suc)
  have tk: "take (Suc n) (dt_states d) = take n (dt_states d) @ [dt_states d ! n]" using Suc.prems by (simp add: take_Suc_conv_app_nth)
  show ?case using Suc pre by (simp add: more tk Let_def)
qed

lemma transition_table_eq:
  "transition_table d = replicate 256 0 @ concat (map (\<lambda>st. map (table_entry st) all_bytes) (dt_states d))"
  using table_rows [of "length (dt_states d)" d] by (simp add: transition_table_def)

lemma concat_rows: "i < length sts \<Longrightarrow> j < 256 \<Longrightarrow> concat (map (\<lambda>st. map (f st) all_bytes) sts) ! (i * 256 + j) = f (sts ! i) (all_bytes ! j)"
proof (induction sts arbitrary: i)
  case (Cons st sts)
  show ?case
  proof (cases i)
    case 0
    with Cons.prems show ?thesis by (simp add: nth_append)
  next
    case (Suc k)
    with Cons show ?thesis by (simp add: nth_append)
  qed
qed simp

lemma row_mask: "trans_row_mask = mask 31"
  by (simp add: trans_row_mask_def mask_eq_exp_minus_1)

lemma row_small:
  assumes "s < max_dfa_states"
  shows "row_index (state_row s) = Some (row_of (Some s))" "unat (row_of (Some s)) = state_row s * 256" "take_bit 31 (row_of (Some s)) = row_of (Some s)"
proof -
  have le: "state_row s * 256 \<le> 1048576" using assms by (simp add: state_row_def max_dfa_states_def)
  then show un: "unat (row_of (Some s)) = state_row s * 256" by (simp add: row_of_def trans_table_row_def unat_of_nat del: of_nat_mult)
  show "row_index (state_row s) = Some (row_of (Some s))"
    using le by (simp add: row_index_def row_of_def trans_table_row_def trans_row_mask_def usize_max_def)
  have "unat (take_bit 31 (row_of (Some s))) = unat (row_of (Some s))" using le un by (simp add: unsigned_take_bit_eq take_bit_nat_eq_self)
  then show "take_bit 31 (row_of (Some s)) = row_of (Some s)" by (simp add: word_unat_eq_iff)
qed

lemma entry_parts:
  assumes "\<And>t. transition st b = Some t \<Longrightarrow> t < max_dfa_states"
  shows "entry_accepts (table_entry st b) \<longleftrightarrow> ds_accept st" "entry_row (table_entry st b) = row_of (transition st b)"
proof -
  have e: "table_entry st b = (if ds_accept st then trans_accept else 0) OR row_of (transition st b)"
    using row_small(1) assms by (cases "transition st b") (simp_all add: table_entry_def row_of_def)
  have t: "take_bit 31 (row_of (transition st b)) = row_of (transition st b)"
    using row_small(3) assms by (cases "transition st b") (simp_all add: row_of_def)
  have "take_bit n x AND push_bit n 1 = 0" for x :: u32 and n
    by (rule bit_word_eqI) (auto simp: bit_simps)
  then have "row_of (transition st b) AND trans_accept = 0" unfolding trans_accept_def by (metis t)
  then show "entry_accepts (table_entry st b) \<longleftrightarrow> ds_accept st"
    by (simp add: e entry_accepts_def bit.conj_disj_distrib2 trans_accept_def)
  have "take_bit 31 trans_accept = 0" by (simp add: trans_accept_def)
  then show "entry_row (table_entry st b) = row_of (transition st b)"
    using t by (simp add: e entry_row_def row_mask flip: take_bit_eq_mask)
qed

lemma table_entry_at:
  assumes "s < length (dt_states d)" "s < max_dfa_states"
  shows "transition_table d ! (unat (row_of (Some s)) + unat b) = table_entry (dt_states d ! s) b"
proof -
  have b: "unat b < 256" using unsigned_less [of b, where ?'a = nat] by simp
  have "unat (row_of (Some s)) = 256 + s * 256" using row_small(2) [OF assms(2)] by (simp add: state_row_def)
  then show ?thesis using concat_rows [OF assms(1) b, of table_entry] by (simp add: transition_table_eq nth_append add.assoc)
qed

lemma dead_row: "unat b < 256 \<Longrightarrow> transition_table d ! unat (b :: u8) = 0"
  by (simp add: transition_table_eq nth_append)

lemma table_step_row:
  assumes wf: "dfa_wf d" and small: "state_count d \<le> max_dfa_states" and s: "\<And>t. s = Some t \<Longrightarrow> t < length (dt_states d)"
  shows "table_step (transition_table d) (row_of s) b = row_of (do { t \<leftarrow> s; next_state d b t })"
proof (cases s)
  case None
  have "unat b < 256" using unsigned_less [of b, where ?'a = nat] by simp
  then show ?thesis using None dead_row [of b d] by (simp add: table_step_def row_of_def entry_row_def)
next
  case (Some t)
  then have t: "t < length (dt_states d)" "t < max_dfa_states" using s small by (auto simp: state_count_def)
  have "n < max_dfa_states" if "transition (dt_states d ! t) b = Some n" for n
    using dfa_run_in_range [OF wf t(1), of "[b]" n] that t(1) small by (simp add: next_state_def state_count_def)
  from entry_parts(2) [OF this] table_entry_at [OF t] Some t(1) show ?thesis by (simp add: table_step_def next_state_def)
qed

text \<open>
  C24: Stepping through the transition table of the generated code is stepping through the
  automaton: after any word the row is the one of the state reached, row 0 when the automaton
  died, and each entry of that row carries the flag of acceptance.
\<close>

theorem transition_table_correct:
  assumes "dfa_wf d" "state_count d \<le> max_dfa_states"
  shows "length (transition_table d) = state_row (state_count d) * trans_table_row \<and>
     foldl (table_step (transition_table d)) (row_of (Some (dt_start d))) w = row_of (dfa_run d w (dt_start d)) \<and>
     (\<forall>b :: u8. entry_accepts (transition_table d ! (unat (row_of (dfa_run d w (dt_start d))) + unat b)) \<longleftrightarrow> dfa_accepts d w)"
proof (intro conjI allI)
  have len: "length (concat (map (\<lambda>st. map (table_entry st) all_bytes) sts)) = 256 * length sts" for sts
    by (induction sts) simp_all
  show "length (transition_table d) = state_row (state_count d) * trans_table_row"
    by (simp add: transition_table_eq len state_row_def trans_table_row_def state_count_def)
  have start: "dt_start d < length (dt_states d)" using assms(1) by (simp add: dfa_wf_def)
  have range: "t < length (dt_states d)" if "dfa_run d w (dt_start d) = Some t" for w t
    using dfa_run_in_range [OF assms(1) start that] .
  show "foldl (table_step (transition_table d)) (row_of (Some (dt_start d))) w = row_of (dfa_run d w (dt_start d))"
  proof (induction w rule: rev_induct)
    case (snoc b w)
    then show ?case using table_step_row [OF assms, of "dfa_run d w (dt_start d)" b] range by (simp add: dfa_run_append)
  qed simp
  fix b :: u8
  show "entry_accepts (transition_table d ! (unat (row_of (dfa_run d w (dt_start d))) + unat b)) \<longleftrightarrow> dfa_accepts d w"
  proof (cases "dfa_run d w (dt_start d)")
    case None
    have "unat b < 256" using unsigned_less [of b, where ?'a = nat] by simp
    with None dead_row [of b d] show ?thesis by (simp add: row_of_def entry_accepts_def dfa_accepts_def)
  next
    case (Some t)
    then have t: "t < length (dt_states d)" "t < max_dfa_states" using range [OF Some] assms(2) by (simp_all add: state_count_def)
    have "n < max_dfa_states" if "transition (dt_states d ! t) b = Some n" for n
      using dfa_run_in_range [OF assms(1) t(1), of "[b]" n] that t(1) assms(2) by (simp add: next_state_def state_count_def)
    from entry_parts(1) [OF this] table_entry_at [OF t] Some t(1) show ?thesis by (simp add: dfa_accepts_def accepting_def)
  qed
qed

theorem transition_table_correct_witness:
  "foldl (table_step (transition_table only_a)) (row_of (Some 0)) [97, 98] = 0 \<and>
   (\<forall>b :: u8. entry_accepts (transition_table only_a ! (unat (row_of (Some 0)) + unat b)))"
proof -
  have c: "state_count only_a \<le> max_dfa_states" "dt_start only_a = 0" by (simp_all add: state_count_def only_a_def max_dfa_states_def)
  have "dfa_run only_a [97, 98] 0 = None" "dfa_run only_a [97] 0 = Some 0"
    by (simp_all add: only_a_def next_state_def transition_def)
  moreover have "dfa_accepts only_a [97]" by (simp add: dfa_accepts_def only_a_def next_state_def transition_def accepting_def)
  ultimately show ?thesis
    using transition_table_correct [OF only_a_wf c(1), of "[97, 98]"] transition_table_correct [OF only_a_wf c(1), of "[97]"] c(2)
    by (simp add: row_of_def)
qed

end
