(* ===== verification/Negex_Safety.thy ===== *)
theory Negex_Safety
  imports Negex_Automata
begin

text \<open>
  Compiling any tree with a branch, wrong quantifiers and classes included, never panics and keeps
  every arrow of the automaton inside the state list: the construction returns an automaton or an
  error value, and so do the determinisations that follow it.
\<close>

section \<open>Safe compilers\<close>

definition safe :: "nat \<Rightarrow> ('a \<Rightarrow> nat \<Rightarrow> bool) \<Rightarrow> 'a compiler \<Rightarrow> bool" where
  "safe n P c \<longleftrightarrow> (\<forall>ns. targets_ok ns \<longrightarrow> n \<le> length ns \<longrightarrow>
     (case c ns of
        None \<Rightarrow> False
      | Some (Inl e) \<Rightarrow> True
      | Some (Inr (x, ns')) \<Rightarrow> targets_ok ns' \<and> length ns \<le> length ns' \<and> P x (length ns')))"

definition frag_in :: "frag \<Rightarrow> nat \<Rightarrow> bool" where
  "frag_in f m \<longleftrightarrow> fr_start f < m"

lemma frag_in_outs [simp]: "frag_in (f\<lparr>fr_outs := outs\<rparr>) m \<longleftrightarrow> frag_in f m"
  by (simp add: frag_in_def)

lemma frag_in_mono: "frag_in f n \<Longrightarrow> n \<le> m \<Longrightarrow> frag_in f m"
  by (simp add: frag_in_def)

lemma safe_cases:
  assumes "safe n P c" "targets_ok ns" "n \<le> length ns"
  obtains (error) e where "c ns = Some (Inl e)"
    | (ok) x ns1 where "c ns = Some (Inr (x, ns1))" "targets_ok ns1" "length ns \<le> length ns1" "P x (length ns1)"
proof -
  have "case c ns of None \<Rightarrow> False | Some (Inl e) \<Rightarrow> True
      | Some (Inr (x, ns')) \<Rightarrow> targets_ok ns' \<and> length ns \<le> length ns' \<and> P x (length ns')"
    using assms by (simp add: safe_def)
  then show thesis using error ok by (auto split: option.splits sum.splits)
qed

lemma safe_bind:
  assumes c: "safe n P c" and f: "\<And>x m. n \<le> m \<Longrightarrow> P x m \<Longrightarrow> safe m Q (f x)"
  shows "safe n Q (nx_bind c f)"
proof -
  have "case nx_bind c f ns of None \<Rightarrow> False | Some (Inl e) \<Rightarrow> True
      | Some (Inr (x, ns')) \<Rightarrow> targets_ok ns' \<and> length ns \<le> length ns' \<and> Q x (length ns')"
    if ns: "targets_ok ns" "n \<le> length ns" for ns
  proof -
    show ?thesis using c ns
    proof (cases rule: safe_cases)
      case (ok x ns1)
      from f [OF _ ok(4)] ns(2) ok(3) have "safe (length ns1) Q (f x)" by simp
      from this ok(2) order_refl show ?thesis
        by (cases rule: safe_cases) (use ok in \<open>auto simp: nx_bind_def\<close>)
    qed (simp add: nx_bind_def)
  qed
  then show ?thesis unfolding safe_def by blast
qed

lemma safe_return: "(\<And>m. n \<le> m \<Longrightarrow> P x m) \<Longrightarrow> safe n P (nx_return x)"
  by (simp add: safe_def nx_return_def)

lemma safe_fail: "safe n P (nx_fail e)"
  by (simp add: safe_def nx_fail_def)

lemma safe_mono: "safe n P c \<Longrightarrow> n \<le> m \<Longrightarrow> safe m P c"
  by (auto simp: safe_def)

lemma safe_add: "(\<And>t. t \<in> targets st \<Longrightarrow> t \<le> n) \<Longrightarrow> safe n (\<lambda>x m. x < m) (add_state st)"
  by (fastforce simp: safe_def add_state_def targets_ok_def nth_append less_Suc_eq)

lemma safe_modify:
  assumes "\<And>ns. targets_ok ns \<Longrightarrow> n \<le> length ns \<Longrightarrow> targets_ok (f ns) \<and> length (f ns) = length ns"
  shows "safe n (\<lambda>_ _. True) (modify f)"
  using assms by (simp add: safe_def modify_def)

lemma targets_update: "targets_ok ns \<Longrightarrow> targets st \<subseteq> {..<length ns} \<Longrightarrow> targets_ok (ns[i := st])"
  by (cases "i < length ns") (auto simp: targets_ok_def nth_list_update list_update_beyond)

lemma targets_append:
  assumes "targets_ok ns" "\<And>st. st \<in> set sts \<Longrightarrow> targets st \<subseteq> {..<length ns + length sts}"
  shows "targets_ok (ns @ sts)"
proof -
  have "targets ((ns @ sts) ! p) \<subseteq> {..<length (ns @ sts)}" if "p < length (ns @ sts)" for p
  proof (cases "p < length ns")
    case True
    then have "targets (ns ! p) \<subseteq> {..<length ns}" using assms(1) by (simp add: targets_ok_def)
    then show ?thesis using True by (auto simp: nth_append)
  next
    case False
    then show ?thesis using that assms(2) [of "sts ! (p - length ns)"] by (simp add: nth_append)
  qed
  then show ?thesis by (simp add: targets_ok_def)
qed

lemma targets_patch:
  assumes "t < length ns" "targets_ok ns"
  shows "targets_ok (patch ns outs t)"
  using assms unfolding patch_def
proof (induction outs arbitrary: ns)
  case (Cons a outs)
  have "targets (ns ! state_of a) \<subseteq> {..<length ns}" if "state_of a < length ns"
    using that Cons.prems(2) by (simp add: targets_ok_def)
  then have "targets_ok (patch_one t a ns)"
    using Cons.prems targets_update [OF Cons.prems(2)] by (cases "ns ! state_of a") (auto simp: patch_one_def)
  moreover have "length (patch_one t a ns) = length ns" by (simp add: patch_one_def)
  ultimately show ?case using Cons by simp
qed simp

lemma targets_set_split: "targets_ok ns \<Longrightarrow> a < length ns \<Longrightarrow> b < length ns \<Longrightarrow> targets_ok (set_split i a b ns) \<and> length (set_split i a b ns) = length ns"
  by (auto simp: set_split_def targets_update split: nfa_state.splits)

lemma targets_set_out: "targets_ok ns \<Longrightarrow> a < length ns \<Longrightarrow> targets_ok (set_out i a ns) \<and> length (set_out i a ns) = length ns"
proof -
  assume ok: "targets_ok ns" "a < length ns"
  then have "targets_ok (set_out i a ns)"
    by (cases "i < length ns"; cases "ns ! i") (auto simp: set_out_def targets_ok_def nth_list_update)
  then show ?thesis by (auto simp: set_out_def split: nfa_state.splits)
qed

section \<open>Compilation\<close>

lemma safe_empty: "safe n frag_in empty_frag"
  unfolding empty_frag_def by (rule safe_bind [OF safe_add]) (auto intro!: safe_return simp: frag_in_def)

lemma safe_read: "safe n frag_in (read_state c)"
  unfolding read_state_def
  by (rule safe_bind [OF safe_add], simp, rule safe_bind [OF safe_add]) (auto intro!: safe_return simp: frag_in_def)

lemma safe_patch: "t < n \<Longrightarrow> safe n (\<lambda>_ _. True) (modify (\<lambda>ns. patch ns outs t))"
  by (rule safe_modify) (simp add: targets_patch)

lemma safe_seq_loop: "(\<And>c n. c \<in> set cs \<Longrightarrow> safe n frag_in c) \<Longrightarrow> frag_in f n \<Longrightarrow> safe n frag_in (seq_loop cs f)"
proof (induction cs arbitrary: f n)
  case Nil
  then show ?case by (auto intro!: safe_return simp: frag_in_def)
next
  case (Cons c cs)
  show ?case unfolding seq_loop.simps
  proof (rule safe_bind [where P = frag_in])
    fix nxt m
    assume m: "n \<le> m" "frag_in nxt m"
    show "safe m frag_in (nx_bind (modify (\<lambda>ns. patch ns (fr_outs f) (fr_start nxt))) (\<lambda>_. seq_loop cs (f\<lparr>fr_outs := fr_outs nxt\<rparr>)))"
    proof (rule safe_bind [OF safe_patch])
      show "fr_start nxt < m" using m by (simp add: frag_in_def)
      show "safe k frag_in (seq_loop cs (f\<lparr>fr_outs := fr_outs nxt\<rparr>))" if "m \<le> k" for k
        using Cons.IH Cons.prems m that frag_in_mono [of f n k] by simp
    qed
  qed (use Cons.prems in simp)
qed

lemma safe_sequence: "(\<And>c n. c \<in> set cs \<Longrightarrow> safe n frag_in c) \<Longrightarrow> safe n frag_in (sequence cs)"
  by (cases cs) (auto simp: sequence_def safe_empty intro!: safe_bind [where P = frag_in] safe_seq_loop)

lemma safe_bytes: "safe n frag_in (compile_bytes bytes)"
  unfolding compile_bytes_def by (rule safe_sequence) (auto simp: safe_read)

lemma safe_split: "safe n (\<lambda>x m. x < m) (add_state (Split 0 0))"
  by (rule safe_add) simp

lemma safe_star:
  assumes "\<And>n. safe n frag_in atom"
  shows "safe n frag_in (compile_star atom)"
  unfolding compile_star_def
proof (rule safe_bind [OF safe_split], rule safe_bind [OF assms], rule safe_bind [OF safe_split])
  fix start n1 body n2 skip n3
  assume "n \<le> n1" "start < n1" "n1 \<le> n2" "frag_in body n2" "n2 \<le> n3" "skip < n3"
  then have lt: "start < n3" "fr_start body < n3" "skip < n3" by (auto simp: frag_in_def)
  show "safe n3 frag_in (nx_bind (modify (\<lambda>ns. patch (set_split start (fr_start body) skip ns) (fr_outs body) start))
     (\<lambda>_. nx_return \<lparr>fr_start = start, fr_outs = [out_addr skip 0, out_addr skip 1]\<rparr>))"
    by (rule safe_bind [OF safe_modify]) (use lt in \<open>auto intro!: safe_return targets_patch simp: frag_in_def targets_set_split\<close>)
qed

lemma safe_plus:
  assumes "\<And>n. safe n frag_in atom"
  shows "safe n frag_in (compile_plus atom)"
  unfolding compile_plus_def
proof (rule safe_bind [OF assms], rule safe_bind [OF safe_star [OF assms]])
  fix first n1 rest n2
  assume "n \<le> n1" "frag_in first n1" "n1 \<le> n2" "frag_in rest n2"
  then show "safe n2 frag_in (nx_bind (modify (\<lambda>ns. patch ns (fr_outs first) (fr_start rest)))
      (\<lambda>_. nx_return \<lparr>fr_start = fr_start first, fr_outs = fr_outs rest\<rparr>))"
    by (intro safe_bind [OF safe_patch]) (auto intro!: safe_return simp: frag_in_def)
qed

lemma safe_question:
  assumes "\<And>n. safe n frag_in atom"
  shows "safe n frag_in (compile_question atom)"
  unfolding compile_question_def
proof (rule safe_bind [OF safe_split], rule safe_bind [OF assms])
  fix start n1 body n2
  assume "n \<le> n1" "start < n1" "n1 \<le> n2" "frag_in body n2"
  then have lt: "start < n2" "fr_start body < n2" by (auto simp: frag_in_def)
  show "safe n2 frag_in (nx_bind (modify (set_out start (fr_start body)))
      (\<lambda>_. nx_return \<lparr>fr_start = start, fr_outs = fr_outs body @ [out_addr start 1]\<rparr>))"
    by (rule safe_bind [OF safe_modify]) (use lt in \<open>auto intro!: safe_return simp: frag_in_def targets_set_out\<close>)
qed

lemma safe_required:
  assumes "\<And>n. safe n frag_in atom"
  shows "(\<And>f. frag = Some f \<Longrightarrow> frag_in f n) \<Longrightarrow> safe n (\<lambda>r m. \<forall>f. r = Some f \<longrightarrow> frag_in f m) (range_required atom k frag)"
proof (induction k arbitrary: frag n)
  case 0
  then show ?case by (auto intro!: safe_return simp: frag_in_def)
next
  case (Suc k)
  show ?case unfolding range_required.simps
  proof (rule safe_bind [OF assms])
    fix copy m
    assume m: "n \<le> m" "frag_in copy m"
    show "safe m (\<lambda>r m. \<forall>f. r = Some f \<longrightarrow> frag_in f m) (case frag of None \<Rightarrow> range_required atom k (Some copy)
       | Some prev \<Rightarrow> nx_bind (modify (\<lambda>ns. patch ns (fr_outs prev) (fr_start copy))) (\<lambda>_.
         range_required atom k (Some (prev\<lparr>fr_outs := fr_outs copy\<rparr>))))"
    proof (cases frag)
      case None
      then show ?thesis using m by (auto intro!: Suc.IH)
    next
      case (Some prev)
      have "frag_in prev n" using Suc.prems Some by simp
      then have "safe m (\<lambda>r m. \<forall>f. r = Some f \<longrightarrow> frag_in f m) (nx_bind (modify (\<lambda>ns. patch ns (fr_outs prev) (fr_start copy))) (\<lambda>_.
         range_required atom k (Some (prev\<lparr>fr_outs := fr_outs copy\<rparr>))))"
        using m by (intro safe_bind [OF safe_patch] Suc.IH) (auto simp: frag_in_def)
      with Some show ?thesis by simp
    qed
  qed
qed

lemma safe_optional:
  assumes "\<And>n. safe n frag_in atom"
  shows "frag_in frag n \<Longrightarrow> safe n frag_in (range_optional atom k frag)"
proof (induction k arbitrary: frag n)
  case 0
  then show ?case by (auto intro!: safe_return simp: frag_in_def)
next
  case (Suc k)
  show ?case unfolding range_optional.simps
  proof (rule safe_bind [OF safe_split], rule safe_bind [OF assms], rule safe_bind [OF safe_split])
    fix start n1 body n2 skip n3
    assume "n \<le> n1" "start < n1" "n1 \<le> n2" "frag_in body n2" "n2 \<le> n3" "skip < n3"
    with Suc.prems have lt: "start < n3" "fr_start body < n3" "skip < n3" "fr_start frag < n3" by (auto simp: frag_in_def)
    show "safe n3 frag_in (nx_bind (modify (\<lambda>ns. set_out (fr_start frag) start (patch (patch (set_split start (fr_start body) skip ns)
       (fr_outs body) start) (fr_outs frag) start))) (\<lambda>_.
     range_optional atom k (frag\<lparr>fr_outs := [out_addr skip 0, out_addr skip 1]\<rparr>)))"
    proof (rule safe_bind [OF safe_modify])
      fix ns
      assume ns: "targets_ok ns" "n3 \<le> length ns"
      let ?ns = "patch (patch (set_split start (fr_start body) skip ns) (fr_outs body) start) (fr_outs frag) start"
      have "targets_ok ?ns \<and> length ?ns = length ns"
        using ns lt targets_set_split [of ns "fr_start body" skip start] by (auto intro!: targets_patch)
      then show "targets_ok (set_out (fr_start frag) start ?ns) \<and> length (set_out (fr_start frag) start ?ns) = length ns"
        using targets_set_out [of ?ns start "fr_start frag"] lt(1) ns(2) by simp
    next
      fix m
      assume "n3 \<le> m"
      then have "frag_in frag m" using lt(4) by (simp add: frag_in_def)
      then show "safe m frag_in (range_optional atom k (frag\<lparr>fr_outs := [out_addr skip 0, out_addr skip 1]\<rparr>))"
        by (simp add: Suc.IH)
    qed
  qed
qed

lemma safe_range:
  assumes "\<And>n. safe n frag_in atom"
  shows "safe n frag_in (compile_range atom lo hi)"
proof -
  let ?most = "case hi of None \<Rightarrow> max_range_expansion | Some m \<Rightarrow> m"
  have start: "safe m frag_in (case copies of Some frag \<Rightarrow> nx_return frag
        | None \<Rightarrow> nx_bind (add_state (Split 0 0)) (\<lambda>start. nx_return \<lparr>fr_start = start, fr_outs = []\<rparr>))"
    if "\<forall>f. copies = Some f \<longrightarrow> frag_in f m" for copies m
    using that frag_in_mono
    by (cases copies) (auto intro!: safe_return safe_bind [OF safe_split] simp: frag_in_def)
  show ?thesis unfolding compile_range_def Let_def
    by (auto intro!: safe_fail safe_bind [OF safe_required [OF assms]] safe_bind [OF start] safe_optional [OF assms])
qed

lemma safe_each: "(\<And>c n. c \<in> set cs \<Longrightarrow> safe n frag_in c) \<Longrightarrow> safe n (\<lambda>fs m. length fs = length cs \<and> (\<forall>f \<in> set fs. frag_in f m)) (nx_each cs)"
proof (induction cs arbitrary: n)
  case Nil
  then show ?case by (auto intro!: safe_return)
next
  case (Cons c cs)
  show ?case unfolding nx_each.simps
  proof (rule safe_bind [where P = frag_in])
    fix f m
    assume m: "n \<le> m" "frag_in f m"
    show "safe m (\<lambda>fs m. length fs = length (c # cs) \<and> (\<forall>f \<in> set fs. frag_in f m)) (nx_bind (nx_each cs) (\<lambda>xs. nx_return (f # xs)))"
    proof (rule safe_bind [OF Cons.IH])
      show "safe k (\<lambda>fs m. length fs = length (c # cs) \<and> (\<forall>f \<in> set fs. frag_in f m)) (nx_return (f # xs))"
        if "m \<le> k" "length xs = length cs \<and> (\<forall>x \<in> set xs. frag_in x k)" for xs k
        using that m by (intro safe_return) (fastforce simp: frag_in_def intro: less_le_trans)
    qed (use Cons.prems in simp)
  qed (use Cons.prems in simp)
qed

lemma targets_link:
  assumes "targets_ok ns" "\<And>i. i \<in> set is \<Longrightarrow> a i < length ns \<and> b i < length ns"
  shows "targets_ok (fold (\<lambda>i. set_split (c i) (a i) (b i)) is ns) \<and> length (fold (\<lambda>i. set_split (c i) (a i) (b i)) is ns) = length ns"
  using assms
proof (induction "is" arbitrary: ns)
  case (Cons i "is")
  then show ?case using targets_set_split [of ns "a i" "b i" "c i"] by simp
qed simp

lemma safe_alternation:
  assumes "2 \<le> length fs" "\<And>f. f \<in> set fs \<Longrightarrow> frag_in f n"
  shows "safe n frag_in (alternation fs)"
proof -
  have "targets_ok ns' \<and> length ns' = length ns + splits"
    if ns: "targets_ok ns" "n \<le> length ns" and d: "splits = length fs - 1" "ids = [length ns..<length ns + splits]"
      "ns' = link_splits ids fs (ns @ replicate splits (Split 0 0))" for ns splits ids ns'
  proof -
    let ?ns = "ns @ replicate splits (Split 0 0)"
    have ok: "targets_ok ?ns" using ns(1) assms(1) d(1) by (intro targets_append) auto
    have len: "length ids = splits" "Suc splits = length fs" using d assms(1) by simp_all
    have "fr_start (fs ! i) < length ?ns \<and> (if i + 1 < length ids then ids ! (i + 1) else fr_start (fs ! (i + 1))) < length ?ns"
      if "i \<in> set [0..<length ids]" for i
    proof -
      have "frag_in (fs ! i) n" "frag_in (fs ! (i + 1)) n" using that len assms(2) by (auto intro!: nth_mem)
      then show ?thesis using that len ns(2) d(2) by (auto simp: frag_in_def)
    qed
    from targets_link [OF ok this, of "[0..<length ids]" "\<lambda>i. i" "\<lambda>i. ids ! i"] show ?thesis using d(3) by (simp add: link_splits_def)
  qed
  then show ?thesis using assms(1) by (auto simp: safe_def alternation_def Let_def frag_in_def)
qed

lemma safe_class: "safe n frag_in (case byte_class cl of Inl e \<Rightarrow> nx_fail e | Inr c \<Rightarrow> read_state c)"
  by (simp add: safe_fail safe_read split: sum.splits)

fun regex_grown :: "regex \<Rightarrow> bool" and branch_grown :: "branch \<Rightarrow> bool" and piece_grown :: "piece \<Rightarrow> bool" and atom_grown :: "atom \<Rightarrow> bool" where
  "regex_grown (Regex bs sp) \<longleftrightarrow> bs \<noteq> [] \<and> (\<forall>b \<in> set bs. branch_grown b)"
| "branch_grown (Branch ps sp) \<longleftrightarrow> (\<forall>p \<in> set ps. piece_grown p)"
| "piece_grown (Piece a q sp) \<longleftrightarrow> atom_grown a"
| "atom_grown (Group r) \<longleftrightarrow> regex_grown r"
| "atom_grown a \<longleftrightarrow> True"

lemma safe_tree:
  "regex_grown r \<Longrightarrow> safe n frag_in (compile_regex r)"
  "branch_grown b \<Longrightarrow> safe n frag_in (compile_branch b)"
  "piece_grown p \<Longrightarrow> safe n frag_in (compile_piece p)"
  "atom_grown a \<Longrightarrow> safe n frag_in (compile_atom a)"
proof (induction r and b and p and a arbitrary: n and n and n and n rule: compile_regex_compile_branch_compile_piece_compile_atom.induct)
  case (1 bs sp)
  have all: "safe m frag_in c" if "c \<in> set (map compile_branch bs)" for c m using that 1 by auto
  show ?case
  proof (cases "\<exists>b. bs = [b]")
    case True
    then show ?thesis using all by auto
  next
    case False
    then have len: "2 \<le> length bs" using 1(2) by (cases bs; cases "tl bs") auto
    then have "compile_regex (Regex bs sp) = nx_bind (nx_each (map compile_branch bs)) alternation"
      by (cases bs; cases "tl bs") auto
    moreover have "safe n frag_in (nx_bind (nx_each (map compile_branch bs)) alternation)"
      by (rule safe_bind [OF safe_each [OF all]]) (use len in \<open>auto intro!: safe_alternation\<close>)
    ultimately show ?thesis by simp
  qed
next
  case (2 ps sp)
  then show ?case by (auto intro!: safe_sequence)
next
  case (3 a q sp)
  have "safe m frag_in (compile_atom a)" for m using 3 by (cases q rule: quantifier_ok.cases) auto
  then show ?case by (auto simp: safe_star safe_plus safe_question safe_range split: option.splits quantifier.splits)
qed (auto simp: compile_scalar_def safe_bytes safe_read safe_fail safe_class)

lemma nfa_build_safe:
  assumes "regex_grown r"
  shows "(\<exists>e. nfa_build r = Some (Inl e)) \<or> (\<exists>ns start. nfa_build r = Some (Inr (ns, start)) \<and> nfa_wf ns start)"
proof -
  have "targets_ok []" by (simp add: targets_ok_def)
  from safe_tree(1) [OF assms, of 0] this le0 show ?thesis
  proof (cases rule: safe_cases)
    case (ok f ns)
    then have "targets_ok (ns @ [Match])" by (intro targets_append) auto
    with ok show ?thesis using targets_patch [of "length ns" "ns @ [Match]" "fr_outs f"]
      by (auto simp: nfa_build_def Let_def nfa_wf_split frag_in_def)
  qed (auto simp: nfa_build_def)
qed

end
