(* ===== verification/Negex_Engine.thy ===== *)
theory Negex_Engine
  imports Negex_Parse_Props Negex_Search_Props Negex_Safety
begin

text \<open>
  The engine as its users see it (\<open>crates/negex/src/lib.rs\<close>): a pattern is compiled and the result
  searched for. The lowering of the automaton to an intermediate module and the code generator are
  arguments of \<open>negex_compile\<close>; no theorem relies on what they produce.
\<close>

section \<open>Compiling a pattern\<close>

datatype compile_error = ParseFailed "parse_error list" | CodegenFailed negex_error

definition negex_compile :: "(determinized \<Rightarrow> negex_error + 'm) \<Rightarrow> ('m \<Rightarrow> bool) \<Rightarrow> scalar list \<Rightarrow> (compile_error + compiled_regex) option" where
  "negex_compile lower_dfa has_native pattern =
     (case parse pattern of
        None \<Rightarrow> None
      | Some output \<Rightarrow>
          if po_errors output \<noteq> [] then Some (Inl (ParseFailed (po_errors output)))
          else
            (case compile_automata (po_ast output) of
               None \<Rightarrow> None
             | Some (Inl e) \<Rightarrow> Some (Inl (CodegenFailed e))
             | Some (Inr (dfa, rv)) \<Rightarrow>
                 (case lower_dfa dfa of
                    Inl e \<Rightarrow> Some (Inl (CodegenFailed e))
                  | Inr module \<Rightarrow>
                      Some (Inr \<lparr>cr_dfa = dfa, cr_reverse = rv,
                        cr_trans_table = (if has_native module then transition_table dfa else [])\<rparr>))))"

section \<open>No pattern makes the engine panic\<close>

lemma clean_grown:
  "regex_clean k r \<Longrightarrow> regex_grown r" "branch_clean k b \<Longrightarrow> branch_grown b" "piece_clean k p \<Longrightarrow> piece_grown p" "atom_clean k a \<Longrightarrow> atom_grown a"
  by (induction k r and k b and k p and k a rule: regex_clean_branch_clean_piece_clean_atom_clean.induct) auto

lemma compile_automata_total:
  assumes "regex_grown r"
  shows "\<exists>res. compile_automata r = Some res"
proof -
  from nfa_build_safe [OF assms] consider (error) e where "nfa_build r = Some (Inl e)"
    | (ok) ns start where "nfa_build r = Some (Inr (ns, start))" "nfa_wf ns start" by blast
  then show ?thesis
  proof cases
    case ok
    show ?thesis
    proof (cases "card (nfa_subsets ns start) \<le> max_dfa_states")
      case True
      with from_nfa_run [OF ok(2)] obtain d where d: "from_nfa ns start = Some (Inr d)" "dfa_wf d" by auto
      from reverse_run [OF d(2)] obtain rv where "reverse d = Some rv" by (auto split: if_splits)
      with ok d show ?thesis by (cases rv) (auto simp: compile_automata_def)
    qed (use from_nfa_run [OF ok(2)] ok in \<open>simp add: compile_automata_def\<close>)
  qed (simp add: compile_automata_def)
qed

text \<open>
  C21: Compiling any text as a pattern returns a compiled expression or an error: no index out
  of range, no underflow and no endless loop, whatever the pattern.
\<close>

theorem negex_compile_total: "\<exists>res. negex_compile lower_dfa has_native pattern = Some res"
proof -
  from parse_run [of pattern] obtain ast errors where
    p: "parse pattern = Some \<lparr>po_ast = ast, po_errors = errors\<rparr>" "errors = [] \<longrightarrow> regex_clean 64 ast" by blast
  show ?thesis
  proof (cases "errors = []")
    case True
    with p(2) have "regex_grown ast" using clean_grown(1) by blast
    from compile_automata_total [OF this] obtain res where "compile_automata ast = Some res" by blast
    with True p(1) show ?thesis by (auto simp: negex_compile_def split: sum.splits)
  qed (simp add: negex_compile_def p)
qed

section \<open>The match that is found\<close>

text \<open>
  C1: For a pattern that parses without an error to a tree whose counts and classes are
  supported, and that compiles, the search returns the leftmost-longest match of the tree's
  language in any input shorter than 4 GiB, or no match exactly when there is none, whenever the
  generated code does not answer.
\<close>

theorem negex_search_correct:
  assumes parsed: "parse pattern = Some \<lparr>po_ast = r, po_errors = []\<rparr>" and ok: "regex_ok r"
    and compiled: "negex_compile lower_dfa has_native pattern = Some (Inr c)"
    and native: "case native of None \<Rightarrow> True | Some run \<Rightarrow> \<forall>rest offset. run rest offset = Inl NoTrampoline"
    and short: "length input < 2 ^ 32"
  shows "\<exists>res. negex_exec native c input = Some (Inr res) \<and> leftmost_longest (regex_lang r) input res"
proof -
  from compile_automata_run [OF ok] compiled parsed obtain d rv where
    "compile_automata r = Some (Inr (d, rv))" "dfa_lang d = regex_lang r" "reverses rv d" "cr_dfa c = d" "cr_reverse c = rv"
    by (auto simp: negex_compile_def split: sum.splits)
  with search_automata [OF _ short native, of c] show ?thesis by simp
qed

text \<open>The automata of a single letter are small, so its pattern compiles.\<close>

lemma letter_compiles:
  assumes "\<And>d. \<exists>m. lower_dfa d = Inr m"
  shows "\<exists>c. negex_compile lower_dfa has_native [97] = Some (Inr c)"
proof -
  let ?r = "whole 1 (Literal 97) None" and ?ns = "[Split 2 2, Read (bc_singleton 97) 0, Match]"
  have b: "nfa_build ?r = Some (Inr (?ns, 1))" by code_simp
  have wf: "nfa_wf ?ns 1" by (auto simp: nfa_wf_def less_Suc_eq)
  have card: "card (nfa_subsets ?ns 1) \<le> 8" using nfa_subsets_card [OF wf] by simp
  with from_nfa_run [OF wf] obtain d where d: "from_nfa ?ns 1 = Some (Inr d)" "dfa_wf d" "state_count d \<le> 8"
    by (auto simp: max_dfa_states_def)
  have "(2 :: nat) ^ length (dt_states d) \<le> 2 ^ 8" using d(3) by (intro power_increasing) (simp_all add: state_count_def)
  then have "card (range (live d)) \<le> max_dfa_states" using live_card [of d] by (simp add: max_dfa_states_def)
  with reverse_run [OF d(2)] obtain rv where "reverse d = Some (Inr rv)" by auto
  with b d have "compile_automata ?r = Some (Inr (d, rv))" by (simp add: compile_automata_def)
  moreover obtain m where "lower_dfa d = Inr m" using assms by blast
  ultimately show ?thesis using parse_letter by (simp add: negex_compile_def)
qed

theorem negex_search_correct_witness:
  "\<exists>c res. negex_compile (\<lambda>_. Inr ()) (\<lambda>_. True) [97] = Some (Inr c) \<and>
     negex_exec (Some (\<lambda>_ _. Inl NoTrampoline)) c [98, 97, 97] = Some (Inr res) \<and> mr_is_match res \<and> mr_start res = 1 \<and> mr_end res = 2"
proof -
  let ?r = "whole 1 (Literal 97) None" and ?in = "[98, 97, 97] :: u8 list"
  obtain c where c: "negex_compile (\<lambda>_. Inr ()) (\<lambda>_. True) [97] = Some (Inr c)" using letter_compiles [of "\<lambda>_. Inr ()"] by auto
  have ok: "regex_ok ?r" by (simp add: whole_def Let_def)
  have L: "regex_lang ?r = {[97]}" by (simp add: whole_def Let_def encode_utf8_def)
  from negex_search_correct [OF parse_letter ok c, of "Some (\<lambda>_ _. Inl NoTrampoline)" ?in] obtain res where
    res: "negex_exec (Some (\<lambda>_ _. Inl NoTrampoline)) c ?in = Some (Inr res)" "leftmost_longest {[97]} ?in res" by (auto simp: L)
  have at: "match_at {[97]} ?in i j \<longleftrightarrow> (i = 1 \<and> j = 2) \<or> (i = 2 \<and> j = 3)" for i j
  proof
    assume m: "match_at {[97]} ?in i j"
    then have "length (take (j - i) (drop i ?in)) = 1" "i \<le> j" "j \<le> 3" by (simp_all add: match_at_def)
    then have ij: "j = Suc i" "i < 3" by auto
    with m have "i \<noteq> 0" by (cases i) (auto simp: match_at_def)
    with ij show "(i = 1 \<and> j = 2) \<or> (i = 2 \<and> j = 3)" by auto
  qed (auto simp: match_at_def)
  then have "\<exists>i j. match_at {[97]} ?in i j" by blast
  with res(2) have "mr_is_match res \<and> mr_start res = 1 \<and> mr_end res = 2"
    unfolding leftmost_longest_def by (auto simp: at)
  with c res(1) show ?thesis by blast
qed

section \<open>Patterns that do not mean what they say\<close>

text \<open>
  C39: The class [a-n] parses to the range from a to the line feed and is then refused as
  backwards, because the end n of a range is read as an escape.
\<close>

theorem letter_range_end_rejected:
  "\<exists>ast. parse [91, 97, 45, 110, 93] = Some \<lparr>po_ast = ast, po_errors = []\<rparr> \<and>
     negex_compile lower_dfa has_native [91, 97, 45, 110, 93] = Some (Inl (CodegenFailed (InvalidClassRange 97 10)))"
proof -
  have "nfa_build (whole 5 (ClassAtom (PositiveClass [ItemRange 97 10] False)) None) = Some (Inl (InvalidClassRange 97 10))"
    by code_simp
  then show ?thesis using parse_letter_range by (simp add: negex_compile_def compile_automata_def)
qed

text \<open>
  C40: The pattern a{3} parses to a count without an upper bound: its language holds aaaa.
\<close>

theorem exact_count_unbounded:
  "\<exists>ast. parse [97, 123, 51, 125] = Some \<lparr>po_ast = ast, po_errors = []\<rparr> \<and> replicate 4 97 \<in> regex_lang ast"
proof -
  have "(4 :: nat) \<in> repeats 3 None" by (simp add: repeats_def)
  moreover have "replicate 4 97 \<in> lpow 4 {[97 :: u8]}" by (auto simp: numeral_eq_Suc lconc_def)
  ultimately have "replicate 4 97 \<in> regex_lang (whole 4 (Literal 97) (Some (QRange 3 None)))"
    by (auto simp: whole_def Let_def encode_utf8_def)
  with parse_exact_count show ?thesis by blast
qed

end
