(* ===== verification/Spec2Isabelle.thy ===== *)
theory Spec2Isabelle
  imports Staging_Gap_Props Cursor_Allocator Fs_Bitmap Shared_Gap Id_Compress Writable_Gaps Fs_Image
    Name_Hash Op_Monad Fs_Directory Werc_Codec_Props Negex_Engine
begin

text \<open>
  \<^bold>\<open>The program.\<close> Codevar is a code editor written in Rust from the allocator up: an editing core
  (\<open>crates/wredit\<close>) with its own file system image, a codec for stored documents
  (\<open>crates/wredit-werc\<close>), a user interface, an OpenCL compiler, a regular expression engine and the
  system layers below them. This development verifies the editing core, the codec and the regular
  expression engine (\<open>crates/negex*\<close>) from the text of a pattern to the match it finds.

  A document is a sequence of packed 32-bit elements (a character and a type). Each editing cursor
  stages what it types in a region of a gap buffer (\<open>staging_gap.rs\<close>), in a private window
  (\<open>writable.rs\<close>) or in a shared slot (\<open>shared_gap.rs\<close>); cursor ids, blocks, windows and slots are
  handed out by allocators of one shape. A flush moves staged runs into the raw buffer (\<open>base.rs\<close>,
  \<open>flush_writable.rs\<close>). Documents are stored in a small file system over a block device (\<open>fs.rs\<close>,
  \<open>fs_block.rs\<close>, \<open>fs_bitmap.rs\<close>), whose long names are compressed (\<open>fs_id_compress.rs\<close>), hashed
  (\<open>simd.rs\<close>) and interned in a pool. The codec turns an element array into bytes: byte planes
  (\<open>plane.rs\<close>), a context-mixing model (\<open>model.rs\<close>, \<open>tables.rs\<close>), an arithmetic coder
  (\<open>coder.rs\<close>) and a container (\<open>frame.rs\<close>, \<open>codec.rs\<close>). The regular expression engine tokenises
  (\<open>negex-lex\<close>) and parses (\<open>negex-parse\<close>) a pattern, builds a nondeterministic automaton
  (\<open>nfa.rs\<close>, \<open>class.rs\<close>), determinises and reverses it (\<open>dfa.rs\<close>), and searches by running the reversed
  automaton backwards for the leftmost start and the forward one for the longest end (\<open>negex/src\<close>).

  \<^bold>\<open>Conventions.\<close> A \<open>struct\<close> is a record, an \<open>enum\<close> a datatype, fixed-width integers are words,
  \<open>usize\<close> is a natural number with the bound \<open>usize_max\<close> written where the code checks or
  saturates. A result type \<open>error + 'a\<close> is \<open>Result\<close>; an \<open>option\<close> around it is \<open>None\<close> where the code
  panics or would access memory outside an object; arithmetic that overflows where the code does not
  expect it is such a panic, as in a build with overflow checks (the release profile wraps there), and the
  theorems show that it does not happen on well-formed states. Methods that change their receiver return the new
  state. Vector kernels are lists of lanes, and which kernel a machine has is a parameter. What the
  code takes from outside is a parameter too: the allocator's answer (\<open>alloc_env\<close>, \<open>reserve\<close>),
  the block device and the hash instructions of the machine (\<open>platform\<close>).

  \<^bold>\<open>The theories.\<close>
  \<^item> \<open>Prelude\<close>, \<open>Wredit_Error\<close>, \<open>Bits\<close>, \<open>Bytes\<close>, \<open>Op_Monad\<close>: integers and memory primitives, the error
    type (\<open>error.rs\<close>), byte arrays as bit sets, fixed byte layouts, and the combinators of fallible
    stateful operations.
  \<^item> \<open>Machine\<close>, \<open>Id_Pool\<close>, \<open>Fs_Block\<close>, \<open>Disk_Fs\<close>, \<open>Werc_Interface\<close>: the interfaces as locales.
    \<open>refined_machine\<close> is a machine that refines a specification, \<open>id_pool\<close> an allocator of
    identifiers, \<open>block_device\<close> the trait \<open>BlockDevice\<close>, \<open>fs_on_device\<close> the file system over any
    such device, \<open>bit_predictor\<close> the model as the codec sees it, and, in \<open>Negex_Subset\<close>,
    \<open>subset_construction\<close> the exploration of sets of states. Every one is interpreted on the
    model of the code: \<open>gap\<close>; \<open>cursors\<close>, \<open>blocks\<close>, \<open>slots\<close>, \<open>windows\<close>; \<open>disk\<close>; \<open>mem_fs\<close>; \<open>wezc\<close>;
    \<open>determinise\<close> and \<open>reversed\<close>.
  \<^item> \<open>Staging_Gap\<close>, \<open>Staging_Editor\<close>, \<open>Staging_Gap_Props\<close>: every operation of \<open>StagingGap\<close>. The document is
    \<open>logical\<close>. \<open>editor\<close> is the abstract contract, a text, a position and the run of every cursor, with a
    deterministic \<open>edit\<close> for each call; sessions of calls return its results and follow its state as
    long as commits and shares fit (\<open>edit_safe\<close>). Two runs show what happens when they do not.
  \<^item> \<open>Cursor_Allocator\<close>, \<open>Shared_Gap\<close>, \<open>Writable_Gaps\<close>, \<open>Fs_Bitmap\<close>: the allocators, with their packed
    words and searches; no identifier is handed out twice, whatever is allocated and freed.
  \<^item> \<open>Raw_Buffer\<close>: packed elements, the growable buffer and the flush writers, which agree with a
    reference that takes one element at a time.
  \<^item> \<open>Id_Compress\<close>, \<open>Name_Hash\<close>: codebook compression of names (round trip, bounds) and the name hash
    (the folded kernel equals the serial recurrence, the AVX-512 one does not).
  \<^item> \<open>Fs_Image\<close>, \<open>Disk_Fs\<close>, \<open>Disk_Fs_Core\<close>: superblock, inode and entry layouts; \<open>format\<close>, \<open>open\<close>,
    \<open>flush\<close>, block and inode allocation and the inode table over an abstract device.
  \<^item> \<open>Fs_Files\<close>, \<open>Fs_Content\<close>, \<open>Fs_Read_Write\<close>: \<open>block_for\<close>, \<open>read_at\<close>, \<open>write_at\<close>. A file
    is a function from positions to bytes; a write overlays it and touches no other file.
  \<^item> \<open>Fs_Names\<close>, \<open>Fs_Intern\<close>: the pool of long names as a map from places to names (\<open>pool_rep\<close>); the
    search of the chain of blocks ends, and interning adds at most one place.
  \<^item> \<open>Fs_Dirs\<close>, \<open>Fs_Dir_Props\<close>, \<open>Fs_Create\<close>, \<open>Fs_Unlink\<close>, \<open>Fs_Directory\<close>: directories as finite maps from
    names to inodes; \<open>lookup\<close>, \<open>create\<close>, \<open>mkdir\<close>, \<open>unlink\<close>.
  \<^item> \<open>Werc_Coder\<close>: the arithmetic coder. A payload \<open>covers\<close> an encoder state when it continues inside
    its interval; a decoder \<open>synced\<close> with the encoder reads the bits it wrote. The renormalisation
    loops end because each pass settles eight bits of the interval.
  \<^item> \<open>Werc_Plane\<close>: elements, presence flags, \<open>split\<close> and \<open>join\<close> with the scalar, AVX2 and AVX-512 kernels.
  \<^item> \<open>Werc_Tables\<close>, \<open>Werc_Model\<close>, \<open>Werc_Model_Props\<close>: the tables and the model. \<open>model_inv\<close> holds every
    table at its size and every kept index in range; all calls keep it, predictions lie in 1..4095,
    and the vectorised mixer computes the scalar sums.
  \<^item> \<open>Werc_Codec\<close>, \<open>Werc_Codec_Props\<close>: container, modelling run, \<open>encode\<close>, \<open>decode\<close>. A decoding run
    tracks the encoding run bit by bit (\<open>tracks\<close>), which composes to bytes and blocks and gives the
    round trip; decoding returns on any input.
  \<^item> \<open>Negex_Lex\<close>, \<open>Negex_Parse\<close>, \<open>Negex_Parse_Props\<close>: the lexer, whose tokens cover the pattern, and the
    recursive-descent parser with its error recovery and nesting limit; it returns on every text,
    and what it returns without an error is a proper tree.
  \<^item> \<open>Negex_Ast\<close>, \<open>Negex_Class\<close>: the tree, and byte classes: a class compiles to exactly the bytes it
    denotes. Categories are read from the Unicode listing of ASCII; the code's table departs from it for
    the punctuation names, and the language of a pattern (\<open>category_set\<close>) follows the code there.
  \<^item> \<open>Negex_Nfa\<close>, \<open>Negex_Nfa_Props\<close>, \<open>Negex_Build\<close>, \<open>Negex_Safety\<close>: the construction of fragments with
    dangling arrows, the language of a tree (\<open>regex_lang\<close>) as its specification, the runs of a fragment, and that the automaton accepts the language of the tree
    when its counts are supported (\<open>regex_ok\<close>); counterexamples show what other counts become. The
    construction never panics, whatever the tree.
  \<^item> \<open>Negex_Dfa\<close>, \<open>Negex_Subset\<close>, \<open>Negex_Automata\<close>: the subset construction and the reversal, two instances
    of one worklist search that ends with the reachable sets or reports more than 4096 of them.
  \<^item> \<open>Negex_Search\<close>, \<open>Negex_Search_Props\<close>, \<open>Negex_Engine\<close>: interpreter, search, transition table and
    the engine as a whole: compiling never panics and the match found is the leftmost-longest one.

  \<^bold>\<open>Loops and bounds.\<close> There is no fuel. Loops are recursive functions with a measure where they are
  not structural (the two renormalisation loops, the loops over file blocks, compressed names and hash powers,
  the closure of a state and the worklist of the subset construction, which shrinks the number of
  states still allowed);
  the parser nests at most \<open>MAX_DEPTH + 1\<close> levels and its loops end with the tokens, which is how its
  recursion is bounded and why \<open>None\<close> is shown never to occur;
  the one loop that may not end in the code, the walk along a chain of pool blocks, is a partial
  function into \<open>option\<close> and is shown to return on well-formed pools. The round trip of the codec
  asks for \<open>128 * length elements + 4 < 2 ^ 32\<close>, since a bit costs at most four bytes and the
  container stores the length of its payload in 32 bits.

  \<^bold>\<open>Hypotheses.\<close> The theorems on files and directories assume that free blocks hold zeros, which
  \<open>format\<close> establishes on a new disk and the code does not maintain when it frees blocks. Those on
  \<open>create\<close> and \<open>unlink\<close> are about directories of short names. The language of a pattern is reached for
  trees with the quantifiers \<open>* + ?\<close>, exact counts and, on atoms other than groups, open counts: the
  code compiles other counts to something else.

  \<^bold>\<open>Not modelled.\<close> In the core: the operation dispatcher, cursors and scanning
  (\<open>core_op_dispatcher.rs\<close>, \<open>cursor.rs\<close>, \<open>writable_scan.rs\<close>), \<open>StreamWritable\<close> and \<open>BaseWritable\<close>, the
  binding of documents to files (\<open>fs_writable.rs\<close>, \<open>storage_bind.rs\<close>) and the counting and filtering
  kernels of \<open>simd.rs\<close>; deallocation, which no later operation reads; failure of allocations where
  the code aborts. Of the
  engine: \<open>lower_dfa\<close>, the code generator and the trampoline, which emit and call machine code; they are
  arguments. Outside: user interface, graphics, protocols, fonts, compilers and system
  layers.

  \<^bold>\<open>Plan.\<close> Next the stream writable that joins gaps, slots and the raw buffer, then the two-level
  segregated fit allocator (\<open>crates/tlsf-alloc\<close>), which needs a heap of bytes.
\<close>

end
